(* ===== verification/Prelude.thy ===== *)
theory Prelude
  imports Main "HOL-Library.Word" "HOL-Library.Monad_Syntax"
begin

text \<open>
  The types, the collections of rewrite rules and the general lemmas that the component theories
  share. Machine integers are words of the width the C++ declares; a \<open>std::string\<close> or a
  \<open>Slice\<close> is the list of its bytes; an array access that C++ leaves undefined out of range is
  the partial access \<open>rd\<close> or \<open>upd\<close>, whose value there is \<open>None\<close>.
\<close>

unbundle bit_operations_syntax

section \<open>Types\<close>

type_synonym u8 = "8 word"
type_synonym u32 = "32 word"
type_synonym u64 = "64 word"
type_synonym bytes = "8 word list"

named_theorems byte_simps "lengths and pieces of encoded byte strings"
named_theorems roundtrip "decoders applied to encoder output"
named_theorems array_simps "checked array accesses that stay in range"
named_theorems mask_simps "masks as truncations"

section \<open>Checked array accesses\<close>

definition rd :: "'a list \<Rightarrow> nat \<Rightarrow> 'a option" where
  "rd xs i = (if i < length xs then Some (xs ! i) else None)"

definition upd :: "'a list \<Rightarrow> nat \<Rightarrow> ('a \<Rightarrow> 'a) \<Rightarrow> 'a list option" where
  "upd xs i f = (if i < length xs then Some (xs[i := f (xs ! i)]) else None)"

lemma rd_in [array_simps]: "i < length xs \<Longrightarrow> rd xs i = Some (xs ! i)"
  by (simp add: rd_def)

lemma upd_in [array_simps]: "i < length xs \<Longrightarrow> upd xs i f = Some (xs[i := f (xs ! i)])"
  by (simp add: upd_def)

lemma rd_eq_Some_iff: "rd xs i = Some x \<longleftrightarrow> i < length xs \<and> x = xs ! i"
  by (auto simp: rd_def)

lemma upd_eq_Some_iff: "upd xs i f = Some ys \<longleftrightarrow> i < length xs \<and> ys = xs[i := f (xs ! i)]"
  by (auto simp: upd_def)

section \<open>Words\<close>

lemma take_bit_or_drop_bit:
  fixes w :: "'a::len word"
  shows "take_bit n w OR push_bit n (drop_bit n w) = w"
proof (rule bit_word_eqI)
  fix k assume "k < LENGTH('a)"
  then show "bit (take_bit n w OR push_bit n (drop_bit n w)) k = bit w k"
    by (cases "k < n") (auto simp: bit_simps)
qed

lemma push_bit_or: "push_bit n (a OR b) = push_bit n a OR push_bit n (b :: 'a::len word)"
  by (rule bit_word_eqI) (auto simp: bit_simps)

lemma unat_drop_bit_div: "unat (drop_bit n w) = unat w div 2 ^ n"
  unfolding unat_drop_bit_eq by (simp add: drop_bit_eq_div)

lemma unat_take_bit_mod: "unat (take_bit n w) = unat w mod 2 ^ n"
  unfolding unsigned_take_bit_eq by (simp add: take_bit_eq_mod)

lemma unat_of_nat_small: "n < 2 ^ LENGTH('a) \<Longrightarrow> unat (of_nat n :: 'a::len word) = n"
  by (simp add: unsigned_of_nat take_bit_nat_eq_self)

lemma unat_2_power: "k < LENGTH('a) \<Longrightarrow> unat (2 ^ k :: 'a::len word) = 2 ^ k"
  using unat_of_nat_small [of "2 ^ k", where 'a = 'a] by simp

lemma drop_bit_less:
  fixes w :: "'a::len word"
  assumes "0 < n" and "w \<noteq> 0"
  shows "drop_bit n w < w"
proof -
  have "0 < unat w" using \<open>w \<noteq> 0\<close> by (simp add: unat_gt_0)
  moreover have "(1::nat) < 2 ^ n" using \<open>0 < n\<close> using one_less_power [of "2::nat" n] by simp
  ultimately have "unat w div 2 ^ n < unat w" by simp
  then show ?thesis
    by (simp add: word_less_nat_alt unat_drop_bit_div)
qed

lemma unat_drop_bit_less:
  fixes w :: "'a::len word"
  shows "0 < n \<Longrightarrow> w \<noteq> 0 \<Longrightarrow> unat (drop_bit n w) < unat w"
  using drop_bit_less [of n w] by (simp add: word_less_nat_alt)

lemma merge_byte:
  fixes v :: "'a::len word"
  shows "push_bit k (take_bit 8 (drop_bit k v)) OR push_bit (k + 8) (drop_bit (k + 8) v)
    = push_bit k (drop_bit k v)"
proof -
  have "push_bit (k + 8) (drop_bit (k + 8) v) = push_bit k (push_bit 8 (drop_bit 8 (drop_bit k v)))"
    by (simp add: ac_simps)
  then show ?thesis by (simp only: push_bit_or [symmetric] take_bit_or_drop_bit)
qed

lemma ucast_ucast_u8 [mask_simps]:
  "(ucast (ucast (w :: 'a::len word) :: u8) :: 'a word) = take_bit 8 w"
  by (rule bit_word_eqI) (auto simp: bit_simps)

lemma and_128_eq_0_iff [mask_simps]: "(w AND 128 = 0) = (\<not> bit (w :: 'a::len word) 7)"
  using and_exp_eq_0_iff_not_bit [of w 7] by simp

lemma and_127_eq [mask_simps]: "w AND 127 = take_bit 7 (w :: 'a::len word)"
  by (simp add: take_bit_eq_mask mask_eq_exp_minus_1)

lemma and_255_eq [mask_simps]: "w AND 255 = take_bit 8 (w :: 'a::len word)"
  by (simp add: take_bit_eq_mask mask_eq_exp_minus_1)

lemma bit_128_iff: "bit (128 :: 'a::len word) n \<longleftrightarrow> n = 7 \<and> 7 < LENGTH('a)"
proof -
  have "(128 :: 'a word) = 2 ^ 7" by simp
  then show ?thesis by (simp only: bit_exp_iff possible_bit_word) auto
qed

lemma bit_word_unat_less:
  fixes w :: "'a::len word"
  assumes "unat w < 2 ^ k" and "k \<le> n"
  shows "\<not> bit w n"
proof -
  have "(2::nat) ^ k \<le> 2 ^ n" using \<open>k \<le> n\<close> by (intro power_increasing) simp_all
  with \<open>unat w < 2 ^ k\<close> have "unat w < 2 ^ n" by (rule order_less_le_trans)
  then have "unat w div 2 ^ n = 0" by (rule div_less)
  then have "\<not> bit (unat w) n" by (simp add: bit_iff_odd)
  then show ?thesis by (simp add: bit_simps bit_imp_le_length)
qed

lemma xor_eq_0_iff: "a XOR b = 0 \<longleftrightarrow> (a :: 'a::len word) = b"
  by (auto simp: bit_eq_iff bit_simps)

lemma xor_right_cancel: "a XOR c = b XOR c \<longleftrightarrow> (a :: 'a::len word) = b"
  using xor_eq_0_iff [of "a XOR c" "b XOR c"] xor_eq_0_iff [of a b]
  by (simp add: xor.assoc xor.left_commute xor.commute)

section \<open>Disjoint bits add up\<close>

lemma unat_or_push_bit:
  fixes w x :: "'a::len word"
  assumes w: "unat w < 2 ^ k" and x: "2 ^ k * unat x < 2 ^ LENGTH('a)"
  shows "unat (w OR push_bit k x) = unat w + 2 ^ k * unat x"
proof (cases "x = 0")
  case False
  then have "2 ^ k * 1 \<le> 2 ^ k * unat x" by (intro mult_le_mono) (simp_all add: Suc_le_eq unat_gt_0)
  with x have "(2::nat) ^ k < 2 ^ LENGTH('a)" by linarith
  then have k: "k < LENGTH('a)" by (simp only: power_strict_increasing_iff)
  have "\<not> bit w n \<or> \<not> bit (push_bit k x) n" for n
    using bit_word_unat_less [OF w, of n] by (auto simp: bit_push_bit_iff)
  then have "w + push_bit k x = w OR push_bit k x" by (rule disjunctive_add)
  moreover have "push_bit k x = 2 ^ k * x" by (simp only: push_bit_eq_mult mult.commute)
  ultimately have or: "w OR push_bit k x = w + 2 ^ k * x" by simp
  have "unat (2 ^ k * x) = unat (2 ^ k :: 'a word) * unat x"
    by (rule unat_mult_lem [THEN iffD1]) (simp only: unat_2_power [OF k] x)
  then have "unat (2 ^ k * x) = 2 ^ k * unat x" by (simp only: unat_2_power [OF k])
  moreover have "unat w + 2 ^ k * unat x < 2 ^ LENGTH('a)"
  proof -
    define r where "r = LENGTH('a) - k"
    have r: "LENGTH('a) = k + r" using k by (simp add: r_def)
    with x have "2 ^ k * unat x < 2 ^ k * 2 ^ r" by (simp add: power_add)
    then have "unat x + 1 \<le> 2 ^ r" by simp
    then have "2 ^ k * (unat x + 1) \<le> 2 ^ k * 2 ^ r" by (rule mult_le_mono2)
    with w show ?thesis by (simp add: r power_add)
  qed
  ultimately have "unat w + unat (2 ^ k * x) < 2 ^ LENGTH('a)" by (simp only:)
  then have "unat (w + 2 ^ k * x) = unat w + unat (2 ^ k * x)" by (rule unat_add_lem [THEN iffD1])
  with \<open>unat (2 ^ k * x) = 2 ^ k * unat x\<close> show ?thesis by (simp only: or)
qed simp

end
