(* ===== verification/Coding.thy ===== *)
theory Coding
  imports Prelude
begin

text \<open>
  The integer and string encodings of \<open>util/coding.h\<close> and \<open>util/coding.cc\<close>: little-endian
  fixed32 and fixed64, 7-bit varints and length-prefixed slices. A decoder that C++ gives a
  pointer and a limit takes the bytes between them; it returns the value with the bytes after it,
  or \<open>None\<close> where the C++ returns a null pointer or \<open>false\<close>. The fixed-width decoders read
  without a bounds check, as the C++ does.
\<close>

section \<open>Fixed-width integers\<close>

definition EncodeFixed32 :: "u32 \<Rightarrow> bytes" where
  "EncodeFixed32 value =
     [ucast value, ucast (drop_bit 8 value), ucast (drop_bit 16 value), ucast (drop_bit 24 value)]"

definition EncodeFixed64 :: "u64 \<Rightarrow> bytes" where
  "EncodeFixed64 value =
     [ucast value, ucast (drop_bit 8 value), ucast (drop_bit 16 value), ucast (drop_bit 24 value),
      ucast (drop_bit 32 value), ucast (drop_bit 40 value), ucast (drop_bit 48 value),
      ucast (drop_bit 56 value)]"

definition DecodeFixed32 :: "bytes \<Rightarrow> u32" where
  "DecodeFixed32 ptr =
     ucast (ptr ! 0) OR push_bit 8 (ucast (ptr ! 1)) OR push_bit 16 (ucast (ptr ! 2))
       OR push_bit 24 (ucast (ptr ! 3))"

definition DecodeFixed64 :: "bytes \<Rightarrow> u64" where
  "DecodeFixed64 ptr =
     ucast (ptr ! 0) OR push_bit 8 (ucast (ptr ! 1)) OR push_bit 16 (ucast (ptr ! 2))
       OR push_bit 24 (ucast (ptr ! 3)) OR push_bit 32 (ucast (ptr ! 4))
       OR push_bit 40 (ucast (ptr ! 5)) OR push_bit 48 (ucast (ptr ! 6))
       OR push_bit 56 (ucast (ptr ! 7))"

definition PutFixed32 :: "bytes \<Rightarrow> u32 \<Rightarrow> bytes" where
  "PutFixed32 dst value = dst @ EncodeFixed32 value"

definition PutFixed64 :: "bytes \<Rightarrow> u64 \<Rightarrow> bytes" where
  "PutFixed64 dst value = dst @ EncodeFixed64 value"

section \<open>Varints\<close>

definition EncodeVarint32 :: "u32 \<Rightarrow> bytes" where
  "EncodeVarint32 v =
     (if v < 2 ^ 7 then [ucast v]
      else if v < 2 ^ 14 then [ucast (v OR 128), ucast (drop_bit 7 v)]
      else if v < 2 ^ 21 then
        [ucast (v OR 128), ucast (drop_bit 7 v OR 128), ucast (drop_bit 14 v)]
      else if v < 2 ^ 28 then
        [ucast (v OR 128), ucast (drop_bit 7 v OR 128), ucast (drop_bit 14 v OR 128),
         ucast (drop_bit 21 v)]
      else
        [ucast (v OR 128), ucast (drop_bit 7 v OR 128), ucast (drop_bit 14 v OR 128),
         ucast (drop_bit 21 v OR 128), ucast (drop_bit 28 v)])"

definition PutVarint32 :: "bytes \<Rightarrow> u32 \<Rightarrow> bytes" where
  "PutVarint32 dst v = dst @ EncodeVarint32 v"

function EncodeVarint64 :: "u64 \<Rightarrow> bytes" where
  "EncodeVarint64 v =
     (if 128 \<le> v then ucast (v OR 128) # EncodeVarint64 (drop_bit 7 v) else [ucast v])"
  by pat_completeness auto
termination
proof (relation "measure unat")
  fix v :: u64
  assume "128 \<le> v"
  then have "v \<noteq> 0" by auto
  then show "(drop_bit 7 v, v) \<in> measure unat" by (simp add: unat_drop_bit_less)
qed simp

definition PutVarint64 :: "bytes \<Rightarrow> u64 \<Rightarrow> bytes" where
  "PutVarint64 dst v = dst @ EncodeVarint64 v"

function VarintLength :: "u64 \<Rightarrow> nat" where
  "VarintLength v = (if 128 \<le> v then Suc (VarintLength (drop_bit 7 v)) else 1)"
  by pat_completeness auto
termination
proof (relation "measure unat")
  fix v :: u64
  assume "128 \<le> v"
  then have "v \<noteq> 0" by auto
  then show "(drop_bit 7 v, v) \<in> measure unat" by (simp add: unat_drop_bit_less)
qed simp

declare EncodeVarint64.simps [simp del] VarintLength.simps [simp del]

fun varint32_loop :: "nat \<Rightarrow> u32 \<Rightarrow> bytes \<Rightarrow> (u32 \<times> bytes) option" where
  "varint32_loop shift result [] = None"
| "varint32_loop shift result (b # p) =
     (if shift \<le> 28 then
        (let byte = ucast b :: u32 in
         if byte AND 128 \<noteq> 0
         then varint32_loop (shift + 7) (result OR push_bit shift (byte AND 127)) p
         else Some (result OR push_bit shift byte, p))
      else None)"

definition GetVarint32PtrFallback :: "bytes \<Rightarrow> (u32 \<times> bytes) option" where
  "GetVarint32PtrFallback p = varint32_loop 0 0 p"

definition GetVarint32Ptr :: "bytes \<Rightarrow> (u32 \<times> bytes) option" where
  "GetVarint32Ptr p =
     (if p \<noteq> [] \<and> (ucast (hd p) :: u32) AND 128 = 0 then Some (ucast (hd p), tl p)
      else GetVarint32PtrFallback p)"

definition GetVarint32 :: "bytes \<Rightarrow> (u32 \<times> bytes) option" where
  "GetVarint32 input = GetVarint32Ptr input"

fun varint64_loop :: "nat \<Rightarrow> u64 \<Rightarrow> bytes \<Rightarrow> (u64 \<times> bytes) option" where
  "varint64_loop shift result [] = None"
| "varint64_loop shift result (b # p) =
     (if shift \<le> 63 then
        (let byte = ucast b :: u64 in
         if byte AND 128 \<noteq> 0
         then varint64_loop (shift + 7) (result OR push_bit shift (byte AND 127)) p
         else Some (result OR push_bit shift byte, p))
      else None)"

definition GetVarint64Ptr :: "bytes \<Rightarrow> (u64 \<times> bytes) option" where
  "GetVarint64Ptr p = varint64_loop 0 0 p"

definition GetVarint64 :: "bytes \<Rightarrow> (u64 \<times> bytes) option" where
  "GetVarint64 input = GetVarint64Ptr input"

section \<open>Length-prefixed slices\<close>

definition PutLengthPrefixedSlice :: "bytes \<Rightarrow> bytes \<Rightarrow> bytes" where
  "PutLengthPrefixedSlice dst value = PutVarint32 dst (of_nat (length value)) @ value"

definition GetLengthPrefixedSlicePtr :: "bytes \<Rightarrow> (bytes \<times> bytes) option" where
  "GetLengthPrefixedSlicePtr p =
     (case GetVarint32Ptr p of
        None \<Rightarrow> None
      | Some (len, p) \<Rightarrow>
          if unat len > length p then None else Some (take (unat len) p, drop (unat len) p))"

definition GetLengthPrefixedSlice :: "bytes \<Rightarrow> (bytes \<times> bytes) option" where
  "GetLengthPrefixedSlice input =
     (case GetVarint32 input of
        None \<Rightarrow> None
      | Some (len, input) \<Rightarrow>
          if length input \<ge> unat len then Some (take (unat len) input, drop (unat len) input)
          else None)"

section \<open>Fixed-width round trips\<close>

lemma length_EncodeFixed32 [simp, byte_simps]: "length (EncodeFixed32 v) = 4"
  by (simp add: EncodeFixed32_def)

lemma length_EncodeFixed64 [simp, byte_simps]: "length (EncodeFixed64 v) = 8"
  by (simp add: EncodeFixed64_def)

lemma DecodeFixed32_Encode [simp, roundtrip]: "DecodeFixed32 (EncodeFixed32 v @ rest) = v"
proof -
  have top: "take_bit 8 (drop_bit 24 v) = drop_bit 24 v"
    by (rule bit_word_eqI) (auto simp: bit_simps dest: bit_imp_le_length)
  show ?thesis
    using merge_byte [of 0 v] merge_byte [of 8 v] merge_byte [of 16 v]
    by (simp add: DecodeFixed32_def EncodeFixed32_def mask_simps or.assoc top)
qed

lemma DecodeFixed64_Encode [simp, roundtrip]: "DecodeFixed64 (EncodeFixed64 v @ rest) = v"
proof -
  have top: "take_bit 8 (drop_bit 56 v) = drop_bit 56 v"
    by (rule bit_word_eqI) (auto simp: bit_simps dest: bit_imp_le_length)
  show ?thesis
    using merge_byte [of 0 v] merge_byte [of 8 v] merge_byte [of 16 v] merge_byte [of 24 v]
      merge_byte [of 32 v] merge_byte [of 40 v] merge_byte [of 48 v]
    by (simp add: DecodeFixed64_def EncodeFixed64_def mask_simps or.assoc top)
qed

section \<open>Varint round trips\<close>

text \<open>One continuation byte of a varint, as the decoders see it.\<close>

lemma DecodeFixed_Encode_only [simp, roundtrip]:
  "DecodeFixed32 (EncodeFixed32 v) = v" "DecodeFixed64 (EncodeFixed64 w) = w"
  using DecodeFixed32_Encode [of v "[]"] DecodeFixed64_Encode [of w "[]"] by simp_all

lemma varint_byte_more:
  fixes w :: "'a::len word"
  assumes "8 \<le> LENGTH('a)"
  shows "(ucast (ucast (w OR 128) :: u8) :: 'a word) AND 128 \<noteq> 0"
    and "(ucast (ucast (w OR 128) :: u8) :: 'a word) AND 127 = take_bit 7 w"
proof -
  show "(ucast (ucast (w OR 128) :: u8) :: 'a word) AND 128 \<noteq> 0"
    using assms
    by (simp only: and_128_eq_0_iff ucast_ucast_u8 bit_take_bit_iff bit_or_iff bit_128_iff) simp
  show "(ucast (ucast (w OR 128) :: u8) :: 'a word) AND 127 = take_bit 7 w"
    unfolding mask_simps
    by (rule bit_word_eqI) (auto simp: bit_simps bit_128_iff)
qed

lemma varint_byte_last:
  fixes w :: "'a::len word"
  assumes "8 \<le> LENGTH('a)" and "\<not> 128 \<le> w"
  shows "(ucast (ucast w :: u8) :: 'a word) AND 128 = 0"
    and "(ucast (ucast w :: u8) :: 'a word) = w"
proof -
  have "w < 2 ^ 7" using assms(2) by simp
  then have w: "take_bit 7 w = w"
    using assms(1) by (simp add: less_mask_eq take_bit_eq_mask)
  have nb: "\<not> bit w k" if "7 \<le> k" for k
    using that by (subst w [symmetric]) (simp add: bit_simps)
  show "(ucast (ucast w :: u8) :: 'a word) AND 128 = 0"
    by (simp add: mask_simps bit_simps nb)
  show "(ucast (ucast w :: u8) :: 'a word) = w"
  proof -
    have "take_bit 8 (take_bit 7 w) = take_bit 7 w" by simp
    then show ?thesis by (simp only: w ucast_ucast_u8)
  qed
qed

lemma varint_accumulate:
  fixes w :: "'a::len word"
  shows "(r OR push_bit s (take_bit 7 w)) OR push_bit (s + 7) (drop_bit 7 w) = r OR push_bit s w"
proof -
  have "push_bit (s + 7) (drop_bit 7 w) = push_bit s (push_bit 7 (drop_bit 7 w))"
    by (simp add: ac_simps)
  then have "push_bit s (take_bit 7 w) OR push_bit (s + 7) (drop_bit 7 w) = push_bit s w"
    by (simp only: push_bit_or [symmetric] take_bit_or_drop_bit)
  then show ?thesis by (simp add: or.assoc)
qed

lemma varint64_loop_encode:
  assumes "unat w < 2 ^ (70 - shift)" and "7 dvd shift" and "shift \<le> 63"
  shows "varint64_loop shift r (EncodeVarint64 w @ rest) = Some (r OR push_bit shift w, rest)"
  using assms
proof (induction w arbitrary: shift r rule: EncodeVarint64.induct)
  case (1 w)
  show ?case
  proof (cases "128 \<le> w")
    case False
    with 1 show ?thesis
      using varint_byte_last [of w] by (simp add: EncodeVarint64.simps [of w])
  next
    case True
    then have "128 \<le> unat w" by (simp add: word_le_nat_alt)
    with 1(2) have "(2::nat) ^ 7 < 2 ^ (70 - shift)" by simp
    then have "7 < 70 - shift" by (simp only: power_strict_increasing_iff)
    with 1(3,4) have sh: "shift + 7 \<le> 63" by presburger
    have "unat (drop_bit 7 w) = unat w div 2 ^ 7" by (rule unat_drop_bit_div)
    also have "\<dots> < 2 ^ (70 - (shift + 7))"
    proof -
      have "70 - shift = (70 - (shift + 7)) + 7" using sh by simp
      then have "(2::nat) ^ (70 - shift) = 2 ^ (70 - (shift + 7)) * 2 ^ 7"
        by (simp only: power_add)
      with 1(2) show ?thesis using less_mult_imp_div_less by metis
    qed
    finally have "varint64_loop (shift + 7) (r OR push_bit shift (take_bit 7 w))
        (EncodeVarint64 (drop_bit 7 w) @ rest)
      = Some ((r OR push_bit shift (take_bit 7 w)) OR push_bit (shift + 7) (drop_bit 7 w), rest)"
      using 1(1) [OF True] 1(3) sh by (simp add: dvd_add)
    with True 1(4) show ?thesis
      using varint_byte_more [of w]
      by (simp add: EncodeVarint64.simps [of w] varint_accumulate)
  qed
qed

lemma GetVarint64_Encode [simp, roundtrip]:
  "GetVarint64 (EncodeVarint64 v @ rest) = Some (v, rest)"
proof -
  have "unat v < 2 ^ 70" by (rule order_less_le_trans [OF unsigned_less]) simp
  then show ?thesis
    using varint64_loop_encode [of v 0 0 rest] by (simp add: GetVarint64_def GetVarint64Ptr_def)
qed

lemma varint32_step_more:
  "s \<le> 28 \<Longrightarrow> varint32_loop s r (ucast (w OR 128 :: u32) # p)
     = varint32_loop (s + 7) (r OR push_bit s (take_bit 7 w)) p"
  using varint_byte_more [of w] by simp

lemma varint32_step_last:
  "s \<le> 28 \<Longrightarrow> w < 128 \<Longrightarrow> varint32_loop s r (ucast (w :: u32) # p) = Some (r OR push_bit s w, p)"
  using varint_byte_last [of w] by simp

lemma drop_bit_lt_128:
  fixes v :: u32
  assumes "v < 2 ^ (n + 7)" and "n + 7 < 32"
  shows "drop_bit n v < 128"
proof -
  have "unat (2 ^ (n + 7) :: u32) = 2 ^ (n + 7)"
    using assms(2) by (intro unat_2_power) simp
  with assms(1) have "unat v < 2 ^ (n + 7)" by (simp only: word_less_nat_alt)
  then have "unat v < 128 * 2 ^ n" by (simp add: power_add)
  then have "unat (drop_bit n v) < 128"
    by (simp add: unat_drop_bit_div less_mult_imp_div_less)
  then show ?thesis by (simp add: word_less_nat_alt)
qed

lemma drop_bit_28_lt_128: "drop_bit 28 (v :: u32) < 128"
proof -
  have "unat v < 128 * 2 ^ 28" by (rule order_less_trans [OF unsigned_less]) simp
  then have "unat v div 2 ^ 28 < 128" by (rule less_mult_imp_div_less)
  then have "unat (drop_bit 28 v) < 128" by (simp only: unat_drop_bit_div)
  then show ?thesis by (simp only: word_less_nat_alt) simp
qed

lemmas varint32_steps =
  varint32_step_more varint32_step_last [OF _ drop_bit_lt_128]
  varint32_step_last [OF _ drop_bit_28_lt_128] varint32_step_last

text \<open>The one-byte fast path of \<open>GetVarint32Ptr\<close> agrees with its general loop.\<close>

lemma GetVarint32Ptr_eq_Fallback: "GetVarint32Ptr p = GetVarint32PtrFallback p"
  by (cases p) (auto simp: GetVarint32Ptr_def GetVarint32PtrFallback_def)

lemma varint32_loop_Encode: "varint32_loop 0 0 (EncodeVarint32 v @ rest) = Some (v, rest)"
  using varint_accumulate [of 0 0 v] varint_accumulate [of _ 7 "drop_bit 7 v"]
    varint_accumulate [of _ 14 "drop_bit 14 v"] varint_accumulate [of _ 21 "drop_bit 21 v"]
  by (simp add: EncodeVarint32_def varint32_steps del: varint32_loop.simps)

lemma GetVarint32Ptr_Encode [simp, roundtrip]:
  "GetVarint32Ptr (EncodeVarint32 v @ rest) = Some (v, rest)"
  by (simp add: GetVarint32Ptr_eq_Fallback GetVarint32PtrFallback_def varint32_loop_Encode)

lemma GetVarint32_Encode [simp, roundtrip]:
  "GetVarint32 (EncodeVarint32 v @ rest) = Some (v, rest)"
  by (simp add: GetVarint32_def)

lemma GetLengthPrefixedSlice_Put [simp, roundtrip]:
  "length s < 2 ^ 32 \<Longrightarrow> GetLengthPrefixedSlice (PutLengthPrefixedSlice [] s @ rest) = Some (s, rest)"
  by (simp add: GetLengthPrefixedSlice_def PutLengthPrefixedSlice_def PutVarint32_def unat_of_nat_small)

lemma GetLengthPrefixedSlicePtr_eq: "GetLengthPrefixedSlicePtr p = GetLengthPrefixedSlice p"
  by (auto simp: GetLengthPrefixedSlicePtr_def GetLengthPrefixedSlice_def GetVarint32_def
      split: option.split)

section \<open>The unrolled varint32 encoder and the loop\<close>

text \<open>A decoder that succeeds consumes at least one byte.\<close>

lemma varint32_loop_shorter: "varint32_loop shift r p = Some (v, rest) \<Longrightarrow> length rest < length p"
  by (induction shift r p rule: varint32_loop.induct) (auto simp: Let_def split: if_splits)

lemma varint64_loop_shorter: "varint64_loop shift r p = Some (v, rest) \<Longrightarrow> length rest < length p"
  by (induction shift r p rule: varint64_loop.induct) (auto simp: Let_def split: if_splits)

lemma GetVarint32_shorter: "GetVarint32 input = Some (v, rest) \<Longrightarrow> length rest < length input"
  by (auto simp: GetVarint32_def GetVarint32Ptr_eq_Fallback GetVarint32PtrFallback_def dest: varint32_loop_shorter)

lemma GetVarint64_shorter: "GetVarint64 input = Some (v, rest) \<Longrightarrow> length rest < length input"
  by (auto simp: GetVarint64_def GetVarint64Ptr_def dest: varint64_loop_shorter)

lemma GetLengthPrefixedSlice_shorter:
  "GetLengthPrefixedSlice input = Some (s, rest) \<Longrightarrow> length rest < length input"
  by (auto simp: GetLengthPrefixedSlice_def split: option.splits if_splits dest!: GetVarint32_shorter)

lemmas decoders_shorter = GetVarint32_shorter GetVarint64_shorter GetLengthPrefixedSlice_shorter

lemma length_EncodeVarint64: "length (EncodeVarint64 v) = VarintLength v"
  by (induction v rule: EncodeVarint64.induct)
    (simp add: EncodeVarint64.simps VarintLength.simps)

lemma length_EncodeVarint64_le:
  "unat v < 2 ^ (7 * k) \<Longrightarrow> 0 < k \<Longrightarrow> length (EncodeVarint64 v) \<le> k"
proof (induction v arbitrary: k rule: EncodeVarint64.induct)
  case (1 v)
  show ?case
  proof (cases "128 \<le> v")
    case False
    with 1(3) show ?thesis by (simp add: EncodeVarint64.simps [of v])
  next
    case True
    then have v: "128 \<le> unat v" by (simp add: word_le_nat_alt)
    obtain j where k: "k = Suc j" using 1(3) by (cases k) auto
    have "j \<noteq> 0" using 1(2) v k by (cases j) auto
    have "unat v < 2 ^ (7 * j) * 2 ^ 7" using 1(2) by (simp add: k power_add ac_simps)
    then have "unat (drop_bit 7 v) < 2 ^ (7 * j)"
      unfolding unat_drop_bit_div by (rule less_mult_imp_div_less)
    with 1(1) [OF True] \<open>j \<noteq> 0\<close> have "length (EncodeVarint64 (drop_bit 7 v)) \<le> j" by simp
    with True k show ?thesis by (simp add: EncodeVarint64.simps [of v])
  qed
qed

lemma length_EncodeVarint64_le_10: "length (EncodeVarint64 v) \<le> 10"
proof -
  have "unat v < 2 ^ (7 * 10)" by (rule order_less_le_trans [OF unsigned_less]) simp
  then show ?thesis by (rule length_EncodeVarint64_le) simp
qed

lemma length_EncodeVarint32_le_5: "length (EncodeVarint32 v) \<le> 5"
  by (simp add: EncodeVarint32_def)

lemma ucast_u8_ucast_or: "(ucast (ucast (w :: u32) OR 128 :: u64) :: u8) = ucast (w OR 128)"
  by (rule bit_word_eqI) (auto simp: bit_simps bit_128_iff)

lemma ucast_u8_ucast: "(ucast (ucast (w :: u32) :: u64) :: u8) = ucast w"
  by (rule bit_word_eqI) (auto simp: bit_simps)

lemma drop_bit_ucast_u64: "drop_bit n (ucast (w :: u32) :: u64) = ucast (drop_bit n w)"
  by (rule bit_word_eqI) (auto simp: bit_simps dest: bit_imp_le_length)

lemma unat_ucast_u64 [simp]: "unat (ucast (w :: u32) :: u64) = unat w"
  by (simp add: unsigned_ucast_eq take_bit_nat_eq_self order_less_trans [OF unsigned_less])

lemma EncodeVarint64_ucast_step:
  "EncodeVarint64 (ucast (w :: u32)) =
     (if w < 128 then [ucast w] else ucast (w OR 128) # EncodeVarint64 (ucast (drop_bit 7 w)))"
proof -
  have "(128 \<le> (ucast w :: u64)) = (\<not> w < 128)" by (simp add: word_le_nat_alt word_less_nat_alt not_less)
  then show ?thesis
    by (simp add: EncodeVarint64.simps [of "ucast w"] ucast_u8_ucast_or ucast_u8_ucast
        drop_bit_ucast_u64)
qed

lemma drop_bit_lt_iff:
  fixes v :: u32
  assumes "n + 7 < 32"
  shows "drop_bit n v < 128 \<longleftrightarrow> v < 2 ^ (n + 7)"
proof -
  have "unat v div 2 ^ n < 128 \<longleftrightarrow> unat v < 128 * 2 ^ n" by (rule div_less_iff_less_mult) simp
  moreover have "unat (2 ^ (n + 7) :: u32) = 128 * 2 ^ n"
    using assms unat_2_power [of "n + 7", where 'a = 32] by (simp add: power_add)
  ultimately show ?thesis by (simp only: word_less_nat_alt unat_drop_bit_div) simp
qed

lemma EncodeVarint32_eq_64: "EncodeVarint32 v = EncodeVarint64 (ucast v)"
  using drop_bit_lt_iff [of 7 v] drop_bit_lt_iff [of 14 v] drop_bit_lt_iff [of 21 v]
    drop_bit_28_lt_128 [of v]
  by (simp add: EncodeVarint32_def EncodeVarint64_ucast_step)

section \<open>Properties\<close>

text \<open>
  Fixed-width integers read back as written: \<open>DecodeFixed32\<close> and \<open>DecodeFixed64\<close> of a string
  that \<open>PutFixed32\<close> and \<open>PutFixed64\<close> have extended return the value, whatever follows it.
\<close>

lemma fixed_roundtrip:
  "DecodeFixed32 (drop (length dst) (PutFixed32 dst v @ rest)) = v
    \<and> DecodeFixed64 (drop (length dst) (PutFixed64 dst w @ rest)) = w"
  by (simp add: PutFixed32_def PutFixed64_def)

text \<open>
  \<open>GetVarint32\<close> and \<open>GetVarint64\<close> read back what \<open>PutVarint32\<close> and \<open>PutVarint64\<close> append and
  leave exactly the bytes that follow, so varints can be concatenated.
\<close>

lemma varint_roundtrip:
  "GetVarint32 (drop (length dst) (PutVarint32 dst v @ rest)) = Some (v, rest)
    \<and> GetVarint64 (drop (length dst) (PutVarint64 dst w @ rest)) = Some (w, rest)"
  by (simp add: PutVarint32_def PutVarint64_def)

text \<open>
  The unrolled \<open>EncodeVarint32\<close> writes the same bytes as the loop of \<open>EncodeVarint64\<close> at the
  widened value, the one-byte fast path of \<open>GetVarint32Ptr\<close> agrees with its fallback, and
  \<open>VarintLength\<close> predicts the length, which is at most 5 and 10 bytes.
\<close>

lemma varint_paths_agree:
  "EncodeVarint32 v = EncodeVarint64 (ucast v) \<and> GetVarint32Ptr p = GetVarint32PtrFallback p
    \<and> length (EncodeVarint64 w) = VarintLength w \<and> length (EncodeVarint32 v) \<le> 5
    \<and> length (EncodeVarint64 w) \<le> 10"
  by (simp only: EncodeVarint32_eq_64 [symmetric] GetVarint32Ptr_eq_Fallback length_EncodeVarint64
      length_EncodeVarint32_le_5 length_EncodeVarint64_le_10 [unfolded length_EncodeVarint64] simp_thms)

text \<open>
  A length-prefixed slice of less than \<open>2 ^ 32\<close> bytes reads back whole and leaves what follows.
\<close>

lemma length_prefixed_roundtrip:
  assumes "length s < 2 ^ 32"
  shows "GetLengthPrefixedSlice (drop (length dst) (PutLengthPrefixedSlice dst s @ rest)) = Some (s, rest)"
  using GetLengthPrefixedSlice_Put [OF assms, of rest]
  by (simp add: PutLengthPrefixedSlice_def PutVarint32_def)

end
