(* ===== verification/Filter_Policy.thy ===== *)
theory Filter_Policy
  imports Prelude
begin

text \<open>
  The contract of \<open>include/leveldb/filter_policy.h\<close>, which the table builder and reader rely on
  and which the Bloom, Ribbon and Xor policies provide. \<open>CreateFilter\<close> appends a filter to its
  destination and keeps what the destination held; \<open>KeyMayMatch\<close> answers true for every key the
  filter was made from. \<open>None\<close> is a run that C++ gives no meaning to: an access out of range, a
  division by zero, or a loop that does not end. \<open>accepts\<close> says which key lists the provider
  promises its contract for.
\<close>

locale filter_policy =
  fixes create_filter :: "bytes list \<Rightarrow> bytes \<Rightarrow> bytes option"
    and key_may_match :: "bytes \<Rightarrow> bytes \<Rightarrow> bool option"
    and accepts :: "bytes list \<Rightarrow> bool"
  assumes create_defined: "accepts keys \<Longrightarrow> create_filter keys [] \<noteq> None"
    and create_appends: "create_filter keys dst = map_option ((@) dst) (create_filter keys [])"
    and no_false_negative:
      "accepts keys \<Longrightarrow> key \<in> set keys \<Longrightarrow> create_filter keys [] = Some f
        \<Longrightarrow> key_may_match key f = Some True"
begin

lemma create_obtains:
  assumes "accepts keys"
  obtains f where "\<And>dst. create_filter keys dst = Some (dst @ f)"
    and "\<And>key. key \<in> set keys \<Longrightarrow> key_may_match key f = Some True"
proof -
  from create_defined [OF assms] obtain f where "create_filter keys [] = Some f" by blast
  with create_appends [of keys] no_false_negative [OF assms _ this] show ?thesis
    by (intro that) simp_all
qed

lemma match_after_create:
  assumes "accepts keys" and "create_filter keys dst = Some r" and "key \<in> set keys"
  shows "length dst \<le> length r \<and> take (length dst) r = dst
    \<and> key_may_match key (drop (length dst) r) = Some True"
  using assms create_obtains [of keys] by (metis append_eq_conv_conj le_add1 length_append option.inject)

end

text \<open>
  What a table needs besides: a query of a filter the policy made, or of the empty filter of an
  empty group, is answered for every key of the kind \<open>query_ok\<close>, and a filter is no longer than a
  number of bytes per key and a fixed number.
\<close>

locale sized_filter_policy = filter_policy +
  fixes query_ok :: "bytes \<Rightarrow> bool" and per_key fixed_size :: nat
  assumes match_empty: "query_ok key \<Longrightarrow> key_may_match key [] \<noteq> None"
    and match_created: "accepts keys \<Longrightarrow> create_filter keys [] = Some f \<Longrightarrow> query_ok key \<Longrightarrow> key_may_match key f \<noteq> None"
    and filter_size: "accepts keys \<Longrightarrow> create_filter keys [] = Some f \<Longrightarrow> length f \<le> per_key * length keys + fixed_size"

end
