(* ===== verification/Filter_Block.thy ===== *)
theory Filter_Block
  imports Coding Filter_Policy
begin

text \<open>
  The filter block of a table, \<open>table/filter_block.{h,cc}\<close>: one filter for every 2 KB of table
  data, an array of their offsets, and the reader that finds the filter of a data block. The
  policy is an argument; what a client of the contract \<open>filter_policy\<close> gets is proved once in its
  context and holds for each policy that interprets it.
\<close>

definition kFilterBaseLg :: nat where
  "kFilterBaseLg = 11"

definition kFilterBase :: u64 where
  "kFilterBase = push_bit kFilterBaseLg 1"

section \<open>The builder\<close>

record FilterBlockBuilder =
  fb_keys :: bytes
  fb_start :: "nat list"
  fb_result :: bytes
  fb_filter_offsets :: "u32 list"

definition NewFilterBlockBuilder :: FilterBlockBuilder where
  "NewFilterBlockBuilder = \<lparr>fb_keys = [], fb_start = [], fb_result = [], fb_filter_offsets = []\<rparr>"

definition GenerateFilter ::
    "(bytes list \<Rightarrow> bytes \<Rightarrow> bytes option) \<Rightarrow> FilterBlockBuilder \<Rightarrow> FilterBlockBuilder option" where
  "GenerateFilter CreateFilter b =
     (let num_keys = length (fb_start b);
          filter_offsets = fb_filter_offsets b @ [of_nat (length (fb_result b))] in
      if num_keys = 0 then Some (b\<lparr>fb_filter_offsets := filter_offsets\<rparr>)
      else
        let start = fb_start b @ [length (fb_keys b)];
            tmp_keys = map (\<lambda>i. take (start ! (i + 1) - start ! i) (drop (start ! i) (fb_keys b)))
              [0..<num_keys]
        in map_option (\<lambda>result. \<lparr>fb_keys = [], fb_start = [], fb_result = result,
               fb_filter_offsets = filter_offsets\<rparr>)
             (CreateFilter tmp_keys (fb_result b)))"

lemma GenerateFilter_offsets:
  "GenerateFilter c b = Some b' \<Longrightarrow> length (fb_filter_offsets b') = Suc (length (fb_filter_offsets b))"
  by (auto simp: GenerateFilter_def Let_def split: if_splits)

function start_block_loop ::
    "(bytes list \<Rightarrow> bytes \<Rightarrow> bytes option) \<Rightarrow> nat \<Rightarrow> FilterBlockBuilder \<Rightarrow> FilterBlockBuilder option" where
  "start_block_loop CreateFilter filter_index b =
     (if filter_index > length (fb_filter_offsets b) then
        (case GenerateFilter CreateFilter b of
           None \<Rightarrow> None
         | Some b \<Rightarrow> start_block_loop CreateFilter filter_index b)
      else Some b)"
  by pat_completeness auto
termination
  by (relation "measure (\<lambda>(_, filter_index, b). filter_index - length (fb_filter_offsets b))")
    (auto dest: GenerateFilter_offsets)

declare start_block_loop.simps [simp del]

text \<open>\<open>None\<close> is the failed assertion, or a policy that fails.\<close>

definition StartBlock ::
    "(bytes list \<Rightarrow> bytes \<Rightarrow> bytes option) \<Rightarrow> u64 \<Rightarrow> FilterBlockBuilder \<Rightarrow> FilterBlockBuilder option" where
  "StartBlock CreateFilter block_offset b =
     (let filter_index = unat (block_offset div kFilterBase) in
      if filter_index < length (fb_filter_offsets b) then None
      else start_block_loop CreateFilter filter_index b)"

definition FilterAddKey :: "bytes \<Rightarrow> FilterBlockBuilder \<Rightarrow> FilterBlockBuilder" where
  "FilterAddKey key b =
     b\<lparr>fb_start := fb_start b @ [length (fb_keys b)], fb_keys := fb_keys b @ key\<rparr>"

definition FilterBlockFinish ::
    "(bytes list \<Rightarrow> bytes \<Rightarrow> bytes option) \<Rightarrow> FilterBlockBuilder \<Rightarrow> bytes option" where
  "FilterBlockFinish CreateFilter b =
     map_option (\<lambda>b.
         let array_offset = of_nat (length (fb_result b));
             result = fold (\<lambda>offset result. PutFixed32 result offset) (fb_filter_offsets b) (fb_result b)
         in PutFixed32 result array_offset @ [of_nat kFilterBaseLg])
       (if fb_start b \<noteq> [] then GenerateFilter CreateFilter b else Some b)"

section \<open>The reader\<close>

record FilterBlockReader =
  fr_data :: bytes
  fr_offset :: nat
  fr_num :: nat
  fr_base_lg :: nat

definition NewFilterBlockReader :: "bytes \<Rightarrow> FilterBlockReader" where
  "NewFilterBlockReader contents =
     (let n = length contents in
      if n < 5 then \<lparr>fr_data = [], fr_offset = 0, fr_num = 0, fr_base_lg = 0\<rparr>
      else
        let base_lg = unat (scast (contents ! (n - 1)) :: u64);
            last_word = unat (DecodeFixed32 (drop (n - 5) contents))
        in if last_word > n - 5
           then \<lparr>fr_data = [], fr_offset = 0, fr_num = 0, fr_base_lg = base_lg\<rparr>
           else \<lparr>fr_data = contents, fr_offset = last_word, fr_num = (n - 5 - last_word) div 4,
                 fr_base_lg = base_lg\<rparr>)"

text \<open>A shift by 64 or more is undefined in C++.\<close>

definition FilterBlockKeyMayMatch ::
    "(bytes \<Rightarrow> bytes \<Rightarrow> bool option) \<Rightarrow> FilterBlockReader \<Rightarrow> u64 \<Rightarrow> bytes \<Rightarrow> bool option" where
  "FilterBlockKeyMayMatch KeyMayMatch r block_offset key =
     (if fr_base_lg r \<ge> 64 then None
      else
        let index = unat (drop_bit (fr_base_lg r) block_offset) in
        if index < fr_num r then
          let start = unat (DecodeFixed32 (drop (fr_offset r + index * 4) (fr_data r)));
              limit = unat (DecodeFixed32 (drop (fr_offset r + index * 4 + 4) (fr_data r)))
          in if start \<le> limit \<and> limit \<le> fr_offset r
             then KeyMayMatch key (take (limit - start) (drop start (fr_data r)))
             else if start = limit then Some False
             else Some True
        else Some True)"

section \<open>The calls of a table builder\<close>

text \<open>
  A table is a sequence of data blocks, each with its offset and its keys: the table builder calls
  \<open>StartBlock\<close> with the offset, \<open>AddKey\<close> for every key, and \<open>Finish\<close> at the end.
\<close>

fun add_blocks :: "(bytes list \<Rightarrow> bytes \<Rightarrow> bytes option) \<Rightarrow> (u64 \<times> bytes list) list
    \<Rightarrow> FilterBlockBuilder \<Rightarrow> FilterBlockBuilder option" where
  "add_blocks CreateFilter [] b = Some b"
| "add_blocks CreateFilter ((block_offset, keys) # blocks) b =
     (case StartBlock CreateFilter block_offset b of
        None \<Rightarrow> None
      | Some b \<Rightarrow> add_blocks CreateFilter blocks (fold FilterAddKey keys b))"

definition build_filter_block ::
    "(bytes list \<Rightarrow> bytes \<Rightarrow> bytes option) \<Rightarrow> (u64 \<times> bytes list) list \<Rightarrow> bytes option" where
  "build_filter_block CreateFilter blocks =
     Option.bind (add_blocks CreateFilter blocks NewFilterBlockBuilder) (FilterBlockFinish CreateFilter)"

definition filter_index :: "u64 \<Rightarrow> nat" where
  "filter_index block_offset = unat (block_offset div kFilterBase)"

text \<open>The keys that share one filter.\<close>

definition group_keys :: "nat \<Rightarrow> (u64 \<times> bytes list) list \<Rightarrow> bytes list" where
  "group_keys i blocks = concat (map snd (filter (\<lambda>block. filter_index (fst block) = i) blocks))"

section \<open>Flattened lists\<close>

definition prefix_starts :: "'a list list \<Rightarrow> nat list" where
  "prefix_starts xs = map (\<lambda>i. length (concat (take i xs))) [0..<length xs]"

lemma length_prefix_starts [simp]: "length (prefix_starts xs) = length xs"
  by (simp add: prefix_starts_def)

lemma prefix_starts_Nil [simp]: "prefix_starts [] = []"
  by (simp add: prefix_starts_def)

lemma prefix_starts_snoc: "prefix_starts (xs @ [x]) = prefix_starts xs @ [length (concat xs)]"
  by (simp add: prefix_starts_def)

lemma prefix_starts_nth:
  "i \<le> length xs \<Longrightarrow> (prefix_starts xs @ [length (concat xs)]) ! i = length (concat (take i xs))"
  by (auto simp: prefix_starts_def nth_append)

lemma length_concat_take_mono: "i \<le> j \<Longrightarrow> length (concat (take i xs)) \<le> length (concat (take j xs))"
proof -
  assume "i \<le> j"
  then have "take j xs = take i xs @ take (j - i) (drop i xs)"
    by (metis le_add_diff_inverse take_add)
  then show ?thesis by simp
qed

lemma concat_slice:
  assumes "i < length xs"
  shows "take (length (concat (take (Suc i) xs)) - length (concat (take i xs)))
      (drop (length (concat (take i xs))) (concat xs @ ys)) = xs ! i"
proof -
  have "concat xs = concat (take i xs) @ xs ! i @ concat (drop (Suc i) xs)"
    using id_take_nth_drop [OF assms] by (metis concat.simps(2) concat_append)
  moreover have "length (concat (take (Suc i) xs)) = length (concat (take i xs)) + length (xs ! i)"
    using assms by (simp add: take_Suc_conv_app_nth)
  ultimately show ?thesis by simp
qed

lemma slices_of_starts:
  assumes "start = prefix_starts xs @ [length (concat xs)]"
  shows "map (\<lambda>i. take (start ! (i + 1) - start ! i) (drop (start ! i) (concat xs))) [0..<length xs] = xs"
proof (rule nth_equalityI)
  fix i assume "i < length (map (\<lambda>i. take (start ! (i + 1) - start ! i) (drop (start ! i) (concat xs))) [0..<length xs])"
  then have i: "i < length xs" by simp
  have "start ! i = length (concat (take i xs))" "start ! (i + 1) = length (concat (take (Suc i) xs))"
    unfolding assms using i prefix_starts_nth [of i xs] prefix_starts_nth [of "Suc i" xs] by simp_all
  then show "map (\<lambda>i. take (start ! (i + 1) - start ! i) (drop (start ! i) (concat xs))) [0..<length xs] ! i = xs ! i"
    using i concat_slice [OF i, of "[]"] by simp
qed simp

section \<open>The contents of a finished block\<close>

text \<open>
  The state of the builder as its client sees it: the key lists of the filters that are complete,
  and the keys added since. \<open>fs\<close> are the filters themselves.
\<close>

definition builder_of :: "(bytes list \<Rightarrow> bytes \<Rightarrow> bytes option) \<Rightarrow> bytes list list \<Rightarrow> bytes list
    \<Rightarrow> bytes list \<Rightarrow> FilterBlockBuilder \<Rightarrow> bool" where
  "builder_of c groups fs cur b \<longleftrightarrow>
     fb_keys b = concat cur \<and> fb_start b = prefix_starts cur
     \<and> fb_result b = concat fs \<and> fb_filter_offsets b = map of_nat (prefix_starts fs)
     \<and> list_all2 (\<lambda>ks f. if ks = [] then f = [] else c ks [] = Some f) groups fs"

lemma builder_of_new: "builder_of c [] [] [] NewFilterBlockBuilder"
  by (simp add: builder_of_def NewFilterBlockBuilder_def)

lemma builder_of_add: "builder_of c groups fs cur b \<Longrightarrow> builder_of c groups fs (cur @ [key]) (FilterAddKey key b)"
  by (simp add: builder_of_def FilterAddKey_def prefix_starts_snoc)

lemma builder_of_length: "builder_of c groups fs cur b \<Longrightarrow> length (fb_filter_offsets b) = length groups"
  by (auto simp: builder_of_def dest: list_all2_lengthD)

definition block_bytes :: "bytes list \<Rightarrow> bytes" where
  "block_bytes fs = concat fs @ concat (map (EncodeFixed32 \<circ> of_nat) (prefix_starts fs @ [length (concat fs)]))
     @ [of_nat kFilterBaseLg]"

lemma put_offsets: "fold (\<lambda>offset result. PutFixed32 result offset) os r = r @ concat (map EncodeFixed32 os)"
  by (induction os arbitrary: r) (simp_all add: PutFixed32_def)

lemma length_encoded [simp]: "length (concat (map (EncodeFixed32 \<circ> g) xs)) = 4 * length xs"
  by (induction xs) simp_all

lemma decode_array:
  "i < length xs \<Longrightarrow> DecodeFixed32 (drop (length pre + 4 * i) (pre @ concat (map (EncodeFixed32 \<circ> g) xs) @ post)) = g (xs ! i)"
proof (induction xs arbitrary: i pre)
  case (Cons x xs)
  show ?case
  proof (cases i)
    case 0
    then show ?thesis by (simp add: roundtrip)
  next
    case (Suc j)
    with Cons.IH [of j "pre @ EncodeFixed32 (g x)"] Cons.prems show ?thesis by simp
  qed
qed simp

lemma reader_of_block:
  assumes "length (concat fs) < 2 ^ 32"
  shows "NewFilterBlockReader (block_bytes fs)
    = \<lparr>fr_data = block_bytes fs, fr_offset = length (concat fs), fr_num = length fs, fr_base_lg = 11\<rparr>"
proof -
  define L where "L = length (concat fs)"
  have n: "length (block_bytes fs) = L + 4 * length fs + 5" by (simp add: block_bytes_def L_def)
  have "DecodeFixed32 (drop (length (concat fs) + 4 * length fs) (block_bytes fs)) = of_nat L"
    unfolding block_bytes_def
    using decode_array [of "length fs" "prefix_starts fs @ [L]" "concat fs" of_nat]
    by (simp add: L_def nth_append)
  then have "unat (DecodeFixed32 (drop (L + 4 * length fs) (block_bytes fs))) = L"
    using assms by (simp add: L_def unat_of_nat_small)
  moreover have "block_bytes fs ! (L + 4 * length fs + 4) = of_nat kFilterBaseLg"
    using n by (simp add: block_bytes_def L_def nth_append)
  ultimately show ?thesis
    by (simp add: NewFilterBlockReader_def n L_def [symmetric] kFilterBaseLg_def add.commute [of 4])
qed

lemma reader_finds_filter:
  fixes block_offset :: u64
  assumes small: "length (concat fs) < 2 ^ 32"
  defines "i \<equiv> filter_index block_offset"
  shows "FilterBlockKeyMayMatch m (NewFilterBlockReader (block_bytes fs)) block_offset key
    = (if i < length fs then m key (fs ! i) else Some True)"
proof -
  define xs where "xs = prefix_starts fs @ [length (concat fs)]"
  have idx: "unat (drop_bit 11 block_offset) = i"
    by (simp add: i_def filter_index_def kFilterBase_def kFilterBaseLg_def unat_drop_bit_div unat_div)
  have dec: "unat (DecodeFixed32 (drop (length (concat fs) + 4 * j) (block_bytes fs))) = length (concat (take j fs))"
    if "j \<le> length fs" for j
  proof -
    have "length (concat (take j fs)) \<le> length (concat fs)"
      using length_concat_take_mono [of j "length fs" fs] that by simp
    then have "length (concat (take j fs)) < 2 ^ LENGTH(32)" using small by simp
    moreover have "DecodeFixed32 (drop (length (concat fs) + 4 * j) (block_bytes fs)) = of_nat (xs ! j)"
      unfolding block_bytes_def
      using decode_array [of j xs "concat fs" of_nat "[of_nat kFilterBaseLg]"] that by (simp add: xs_def)
    ultimately show ?thesis using that by (simp add: xs_def prefix_starts_nth unat_of_nat_small)
  qed
  show ?thesis
  proof (cases "i < length fs")
    case True
    have "length (concat (take (Suc i) fs)) \<le> length (concat fs)"
      using length_concat_take_mono [of "Suc i" "length fs" fs] True by simp
    moreover have "length (concat (take i fs)) \<le> length (concat (take (Suc i) fs))"
      by (rule length_concat_take_mono) simp
    moreover have "take (length (concat (take (Suc i) fs)) - length (concat (take i fs)))
        (drop (length (concat (take i fs))) (block_bytes fs)) = fs ! i"
      unfolding block_bytes_def by (rule concat_slice [OF True])
    moreover have "unat (DecodeFixed32 (drop (length (concat fs) + i * 4) (block_bytes fs)))
        = length (concat (take i fs))"
      using dec [of i] True by (simp add: mult.commute)
    moreover have "length (concat fs) + i * 4 + 4 = length (concat fs) + 4 * Suc i" by simp
    then have "unat (DecodeFixed32 (drop (length (concat fs) + i * 4 + 4) (block_bytes fs)))
        = length (concat (take (Suc i) fs))"
      using dec [of "Suc i"] True by (simp only:)
    ultimately show ?thesis
      using True by (simp add: reader_of_block [OF small] FilterBlockKeyMayMatch_def idx Let_def)
  qed (simp add: reader_of_block [OF small] FilterBlockKeyMayMatch_def idx)
qed

section \<open>What a client of the policy contract gets\<close>

definition advance :: "nat \<Rightarrow> bytes list list \<Rightarrow> bytes list \<Rightarrow> bytes list list \<times> bytes list" where
  "advance i groups cur =
     (if length groups < i then (groups @ cur # replicate (i - length groups - 1) [], []) else (groups, cur))"

definition grouped :: "(u64 \<times> bytes list) list \<Rightarrow> bytes list list \<Rightarrow> bytes list \<Rightarrow> bool" where
  "grouped past groups cur \<longleftrightarrow>
     (\<forall>block \<in> set past. filter_index (fst block) \<le> length groups)
     \<and> (\<forall>j \<le> length groups. (groups @ [cur]) ! j = group_keys j past)"

lemma group_keys_snoc:
  "group_keys i (past @ [(off, keys)]) = group_keys i past @ (if filter_index off = i then keys else [])"
  by (simp add: group_keys_def)

lemma group_keys_beyond:
  "(\<forall>block \<in> set past. filter_index (fst block) \<le> n) \<Longrightarrow> n < j \<Longrightarrow> group_keys j past = []"
  by (auto simp: group_keys_def filter_empty_conv)

lemma grouped_advance:
  assumes "grouped past groups cur" "length groups \<le> i" "advance i groups cur = (groups', cur')"
  shows "grouped past groups' cur'" "length groups' = i"
proof -
  show len: "length groups' = i" using assms(2,3) by (auto simp: advance_def split: if_splits)
  show "grouped past groups' cur'"
  proof (cases "length groups < i")
    case True
    then have g: "groups' = groups @ cur # replicate (i - length groups - 1) []" "cur' = []"
      using assms(3) by (auto simp: advance_def)
    have "(groups' @ [cur']) ! j = group_keys j past" if "j \<le> i" for j
    proof (cases "j \<le> length groups")
      case True
      with assms(1) show ?thesis by (auto simp: g grouped_def nth_append)
    next
      case False
      with assms(1) that show ?thesis
        by (auto simp: g grouped_def nth_append nth_Cons' group_keys_beyond [of past "length groups"])
    qed
    moreover have "\<forall>block \<in> set past. filter_index (fst block) \<le> i"
      using assms(1) True by (auto simp: grouped_def)
    ultimately show ?thesis by (simp add: grouped_def len)
  qed (use assms in \<open>auto simp: advance_def\<close>)
qed

lemma grouped_add:
  assumes "grouped past groups cur" "length groups = filter_index off"
  shows "grouped (past @ [(off, keys)]) groups (cur @ keys)"
proof -
  have "(groups @ [cur @ keys]) ! j = group_keys j (past @ [(off, keys)])" if "j \<le> length groups" for j
  proof -
    have "(groups @ [cur]) ! j = group_keys j past" using assms(1) that by (simp add: grouped_def)
    with that assms(2) show ?thesis by (cases "j = length groups") (simp_all add: group_keys_snoc nth_append)
  qed
  with assms show ?thesis by (simp add: grouped_def)
qed

lemma builder_of_adds:
  "builder_of c groups fs cur b \<Longrightarrow> builder_of c groups fs (cur @ keys) (fold FilterAddKey keys b)"
proof (induction keys arbitrary: cur b)
  case (Cons key keys)
  from Cons.IH [OF builder_of_add [OF Cons.prems, of key]] show ?case by simp
qed simp

lemma start_block_loop_offsets:
  "start_block_loop c i b = Some b' \<Longrightarrow> length (fb_filter_offsets b) \<le> m \<Longrightarrow> i \<le> m \<Longrightarrow> length (fb_filter_offsets b') \<le> m"
proof (induction c i b rule: start_block_loop.induct)
  case (1 c i b)
  show ?case
  proof (cases "i > length (fb_filter_offsets b)")
    case True
    with "1.prems"(1) obtain b1 where "GenerateFilter c b = Some b1" "start_block_loop c i b1 = Some b'"
      by (subst (asm) start_block_loop.simps) (auto split: option.splits)
    with "1.IH" [OF True] True "1.prems" show ?thesis by (simp add: GenerateFilter_offsets)
  next
    case False
    with "1.prems" show ?thesis by (subst (asm) start_block_loop.simps) simp
  qed
qed

lemma add_blocks_offsets:
  assumes "add_blocks c blocks b = Some b'" "\<forall>block \<in> set blocks. filter_index (fst block) \<le> m" "length (fb_filter_offsets b) \<le> m"
  shows "length (fb_filter_offsets b') \<le> m"
  using assms
proof (induction blocks arbitrary: b)
  case (Cons block blocks)
  obtain off keys where block: "block = (off, keys)" by (cases block)
  with Cons.prems obtain b1 where b1: "StartBlock c off b = Some b1" "add_blocks c blocks (fold FilterAddKey keys b1) = Some b'"
    by (auto split: option.splits)
  have "length (fb_filter_offsets b1) \<le> m"
    using b1(1) Cons.prems(2,3) start_block_loop_offsets [of c "filter_index off" b b1 m]
    by (simp add: StartBlock_def Let_def filter_index_def block split: if_splits)
  moreover have "fb_filter_offsets (fold FilterAddKey ks b) = fb_filter_offsets b" for ks b
    by (induction ks arbitrary: b) (simp_all add: FilterAddKey_def)
  ultimately show ?case using Cons.IH [OF b1(2)] Cons.prems(2) by simp
qed simp

lemma group_keys_total: "(\<Sum>j < n. length (group_keys j blocks)) \<le> length (concat (map snd blocks))"
proof (induction blocks)
  case (Cons block blocks)
  have "(\<Sum>j < n. length (group_keys j (block # blocks)))
      = (\<Sum>j < n. (if filter_index (fst block) = j then length (snd block) else 0) + length (group_keys j blocks))"
    by (intro sum.cong) (simp_all add: group_keys_def)
  also have "\<dots> = (\<Sum>j < n. if filter_index (fst block) = j then length (snd block) else 0) + (\<Sum>j < n. length (group_keys j blocks))"
    by (rule sum.distrib)
  also have "(\<Sum>j < n. if filter_index (fst block) = j then length (snd block) else 0) \<le> length (snd block)"
    by (simp add: sum.delta')
  finally show ?case using Cons by simp
qed (simp add: group_keys_def)

context filter_policy
begin

lemma generate_group:
  assumes "builder_of create_filter groups fs cur b" "cur = [] \<or> accepts cur"
  shows "\<exists>b' f. GenerateFilter create_filter b = Some b' \<and> builder_of create_filter (groups @ [cur]) (fs @ [f]) [] b'"
proof (cases "cur = []")
  case True
  with assms(1) show ?thesis
    by (intro exI [of _ "b\<lparr>fb_filter_offsets := fb_filter_offsets b @ [of_nat (length (fb_result b))]\<rparr>"]
        exI [of _ "[]"])
      (simp add: GenerateFilter_def builder_of_def Let_def prefix_starts_snoc list_all2_appendI)
next
  case False
  then have "accepts cur" using assms(2) by simp
  then obtain f where f: "\<And>dst. create_filter cur dst = Some (dst @ f)" by (rule create_obtains) blast
  have keys: "fb_keys b = concat cur" "fb_start b = prefix_starts cur" using assms(1) by (simp_all add: builder_of_def)
  have "prefix_starts cur \<noteq> []" using False by (metis length_0_conv length_prefix_starts)
  with slices_of_starts [OF refl, of cur] f False
  have "GenerateFilter create_filter b = Some \<lparr>fb_keys = [], fb_start = [], fb_result = fb_result b @ f,
      fb_filter_offsets = fb_filter_offsets b @ [of_nat (length (fb_result b))]\<rparr>"
    by (simp add: GenerateFilter_def Let_def keys)
  moreover have "create_filter cur [] = Some f" using f [of "[]"] by simp
  ultimately show ?thesis
    using assms(1) False
    by (auto simp: builder_of_def prefix_starts_snoc list_all2_appendI)
qed

lemma start_block_advances:
  assumes "builder_of create_filter groups fs cur b" "cur = [] \<or> accepts cur" "length groups \<le> i"
  shows "\<exists>b' fs'. start_block_loop create_filter i b = Some b'
    \<and> builder_of create_filter (fst (advance i groups cur)) fs' (snd (advance i groups cur)) b'"
  using assms
proof (induction "i - length groups" arbitrary: groups fs cur b)
  case 0
  then have "i = length groups" by simp
  moreover from this have "start_block_loop create_filter i b = Some b"
    using builder_of_length [OF 0(2)] by (subst start_block_loop.simps) simp
  ultimately show ?case using 0(2) by (auto simp: advance_def)
next
  case (Suc n)
  from generate_group [OF Suc.prems(1,2)] obtain b1 f where
    b1: "GenerateFilter create_filter b = Some b1" "builder_of create_filter (groups @ [cur]) (fs @ [f]) [] b1" by blast
  have lt: "length groups < i" using Suc.hyps(2) by simp
  then have "start_block_loop create_filter i b = start_block_loop create_filter i b1"
    using b1(1) Suc.prems(1) by (simp add: start_block_loop.simps [of create_filter i b] builder_of_length)
  moreover have "advance i (groups @ [cur]) [] = advance i groups cur"
  proof (cases "i - length groups - 1")
    case (Suc m)
    with lt show ?thesis by (simp add: advance_def)
  qed (use lt in \<open>simp add: advance_def\<close>)
  moreover have "n = i - length (groups @ [cur])" "length (groups @ [cur]) \<le> i" using Suc.hyps(2) lt by auto
  ultimately show ?case using Suc.hyps(1) [OF _ b1(2)] by simp
qed

lemma add_blocks_grouped:
  assumes "builder_of create_filter groups fs cur b" "grouped past groups cur"
    and "\<forall>i n. accepts (take n (group_keys i (past @ blocks)))"
    and "sorted (map (filter_index \<circ> fst) blocks)"
    and "\<forall>block \<in> set blocks. length groups \<le> filter_index (fst block)"
  shows "\<exists>b' groups' fs' cur'. add_blocks create_filter blocks b = Some b'
    \<and> builder_of create_filter groups' fs' cur' b' \<and> grouped (past @ blocks) groups' cur'"
  using assms
proof (induction blocks arbitrary: groups fs cur b past)
  case Nil
  then show ?case by auto
next
  case (Cons block blocks)
  obtain off keys where block: "block = (off, keys)" by (cases block)
  define i where "i = filter_index off"
  have i: "length groups \<le> i" using Cons.prems(5) by (simp add: block i_def)
  have "cur = group_keys (length groups) past" using Cons.prems(2) by (auto simp: grouped_def nth_append)
  then have "cur = take (length cur) (group_keys (length groups) (past @ block # blocks))"
    by (simp add: group_keys_def)
  then have acc: "cur = [] \<or> accepts cur" using Cons.prems(3) by metis
  obtain groups' cur' where adv: "advance i groups cur = (groups', cur')" by fastforce
  from start_block_advances [OF Cons.prems(1) acc i] adv obtain b1 fs1 where
    b1: "start_block_loop create_filter i b = Some b1" "builder_of create_filter groups' fs1 cur' b1" by auto
  have start: "StartBlock create_filter off b = Some b1"
    using b1(1) i builder_of_length [OF Cons.prems(1)]
    by (simp add: StartBlock_def Let_def i_def filter_index_def)
  note g = grouped_advance [OF Cons.prems(2) i adv]
  have "\<exists>b' groups'' fs' cur''. add_blocks create_filter blocks (fold FilterAddKey keys b1) = Some b'
      \<and> builder_of create_filter groups'' fs' cur'' b' \<and> grouped ((past @ [block]) @ blocks) groups'' cur''"
  proof (rule Cons.IH)
    show "builder_of create_filter groups' fs1 (cur' @ keys) (fold FilterAddKey keys b1)"
      by (rule builder_of_adds [OF b1(2)])
    show "grouped (past @ [block]) groups' (cur' @ keys)"
      using grouped_add [OF g(1), of off keys] g(2) by (simp add: block i_def)
    show "\<forall>block \<in> set blocks. length groups' \<le> filter_index (fst block)"
      using Cons.prems(4) g(2) by (auto simp: block i_def)
  qed (use Cons.prems in simp_all)
  then show ?case by (simp add: block start)
qed

lemma finish_block:
  assumes b: "builder_of create_filter groups fs cur b" and acc: "cur = [] \<or> accepts cur"
  shows "\<exists>fs'. FilterBlockFinish create_filter b = Some (block_bytes fs')
    \<and> list_all2 (\<lambda>ks f. if ks = [] then f = [] else create_filter ks [] = Some f)
        (groups @ (if cur = [] then [] else [cur])) fs'"
proof -
  have bytes: "(let array_offset = of_nat (length (fb_result b));
        result = fold (\<lambda>offset result. PutFixed32 result offset) (fb_filter_offsets b) (fb_result b)
      in PutFixed32 result array_offset @ [of_nat kFilterBaseLg]) = block_bytes fs"
    if "builder_of create_filter groups fs cur b" for groups fs cur b
    using that by (simp add: builder_of_def block_bytes_def put_offsets o_def) (simp add: PutFixed32_def)
  have start: "fb_start b = [] \<longleftrightarrow> cur = []"
    using b by (metis builder_of_def length_0_conv length_prefix_starts)
  show ?thesis
  proof (cases "cur = []")
    case True
    with b start bytes [OF b] show ?thesis
      by (intro exI [of _ fs]) (simp add: FilterBlockFinish_def builder_of_def)
  next
    case False
    from generate_group [OF b acc] obtain b' f where b':
      "GenerateFilter create_filter b = Some b'" "builder_of create_filter (groups @ [cur]) (fs @ [f]) [] b'" by blast
    with False start bytes [OF b'(2)] show ?thesis
      by (intro exI [of _ "fs @ [f]"]) (auto simp: FilterBlockFinish_def builder_of_def)
  qed
qed

lemma filter_block_layout:
  assumes acc: "\<forall>i n. accepts (take n (group_keys i blocks))"
    and order: "sorted (map (filter_index \<circ> fst) blocks)"
  obtains groups fs where "build_filter_block create_filter blocks = Some (block_bytes fs)"
    and "list_all2 (\<lambda>ks f. if ks = [] then f = [] else create_filter ks [] = Some f) groups fs"
    and "\<And>j. j < length groups \<Longrightarrow> groups ! j = group_keys j blocks \<and> accepts (groups ! j)"
    and "\<And>m. \<forall>block \<in> set blocks. filter_index (fst block) \<le> m \<Longrightarrow> length groups \<le> Suc m"
proof -
  have "grouped [] [] []" by (simp add: grouped_def group_keys_def)
  from add_blocks_grouped [OF builder_of_new this _ order] acc
  obtain b groups fs cur where b: "add_blocks create_filter blocks NewFilterBlockBuilder = Some b"
    "builder_of create_filter groups fs cur b" "grouped blocks groups cur" by auto
  define all where "all = groups @ (if cur = [] then [] else [cur])"
  have eq: "all ! j = group_keys j blocks" if "j < length all" for j
  proof -
    have "j \<le> length groups" "all ! j = (groups @ [cur]) ! j" using that by (auto simp: all_def nth_append split: if_splits)
    then show ?thesis using b(3) by (simp add: grouped_def)
  qed
  have acc': "accepts (group_keys j blocks)" for j using acc by (metis order_refl take_all)
  have "cur = group_keys (length groups) blocks" using b(3) by (auto simp: grouped_def nth_append)
  then have "accepts cur" using acc' by simp
  from finish_block [OF b(2) disjI2 [OF this]] obtain fs' where
    fin: "FilterBlockFinish create_filter b = Some (block_bytes fs')"
    and all: "list_all2 (\<lambda>ks f. if ks = [] then f = [] else create_filter ks [] = Some f) all fs'"
    unfolding all_def by blast
  show ?thesis
  proof (rule that [of fs' all])
    show "build_filter_block create_filter blocks = Some (block_bytes fs')"
      by (simp add: build_filter_block_def b(1) fin)
    show "all ! j = group_keys j blocks \<and> accepts (all ! j)" if "j < length all" for j
      using eq [OF that] acc' by simp
    show "length all \<le> Suc m" if "\<forall>block \<in> set blocks. filter_index (fst block) \<le> m" for m
      using add_blocks_offsets [OF b(1), of m] that builder_of_length [OF b(2)]
      by (auto simp: all_def NewFilterBlockBuilder_def)
  qed (rule all)
qed

lemma filter_block_correct:
  assumes acc: "\<forall>i n. accepts (take n (group_keys i blocks))"
    and order: "sorted (map (filter_index \<circ> fst) blocks)"
  obtains contents where "build_filter_block create_filter blocks = Some contents"
    and "\<And>off keys key. length contents < 2 ^ 32 \<Longrightarrow> (off, keys) \<in> set blocks \<Longrightarrow> key \<in> set keys
      \<Longrightarrow> FilterBlockKeyMayMatch key_may_match (NewFilterBlockReader contents) off key = Some True"
proof (rule filter_block_layout [OF assms])
  fix groups fs
  assume b: "build_filter_block create_filter blocks = Some (block_bytes fs)"
    and all: "list_all2 (\<lambda>ks f. if ks = [] then f = [] else create_filter ks [] = Some f) groups fs"
    and eq: "\<And>j. j < length groups \<Longrightarrow> groups ! j = group_keys j blocks \<and> accepts (groups ! j)"
  show ?thesis
  proof (rule that [OF b])
    fix off keys key
    assume small: "length (block_bytes fs) < 2 ^ 32" and blk: "(off, keys) \<in> set blocks" and key: "key \<in> set keys"
    define i where "i = filter_index off"
    have "length (concat fs) < 2 ^ 32" using small by (simp add: block_bytes_def)
    note reader = reader_finds_filter [OF this, of key_may_match off key, folded i_def]
    have k: "key \<in> set (group_keys i blocks)"
      using blk key by (force simp: group_keys_def i_def)
    show "FilterBlockKeyMayMatch key_may_match (NewFilterBlockReader (block_bytes fs)) off key = Some True"
    proof (cases "i < length fs")
      case True
      then have i: "i < length groups" using list_all2_lengthD [OF all] by simp
      have "if groups ! i = [] then fs ! i = [] else create_filter (groups ! i) [] = Some (fs ! i)"
        using list_all2_nthD2 [OF all True] by simp
      then have "key_may_match key (fs ! i) = Some True"
        using k eq [OF i] no_false_negative by (metis empty_iff empty_set)
      then show ?thesis using reader True by simp
    qed (simp add: reader)
  qed
qed

lemma filter_block_match:
  assumes "\<forall>i n. accepts (take n (group_keys i blocks))" "sorted (map (filter_index \<circ> fst) blocks)"
    and "build_filter_block create_filter blocks = Some contents" "length contents < 2 ^ 32"
    and "(off, keys) \<in> set blocks" "key \<in> set keys"
  shows "FilterBlockKeyMayMatch key_may_match (NewFilterBlockReader contents) off key = Some True"
proof (rule filter_block_correct [OF assms(1,2)])
  fix c
  assume "build_filter_block create_filter blocks = Some c"
    and m: "\<And>off keys key. length c < 2 ^ 32 \<Longrightarrow> (off, keys) \<in> set blocks \<Longrightarrow> key \<in> set keys
      \<Longrightarrow> FilterBlockKeyMayMatch key_may_match (NewFilterBlockReader c) off key = Some True"
  with assms(3) have "c = contents" by simp
  with m assms(4-) show ?thesis by blast
qed

end

context sized_filter_policy
begin

lemma filters_size:
  assumes "list_all2 (\<lambda>ks f. if ks = [] then f = [] else create_filter ks [] = Some f) groups fs" "\<forall>ks \<in> set groups. accepts ks"
  shows "length (concat fs) \<le> per_key * length (concat groups) + fixed_size * length groups"
  using assms
proof (induction rule: list_all2_induct)
  case (Cons ks groups f fs)
  have "length f \<le> per_key * length ks + fixed_size"
    using Cons.hyps(1) filter_size [of ks f] Cons.prems by (cases "ks = []") auto
  with Cons show ?case by (simp add: algebra_simps)
qed simp

text \<open>
  The filter block of a table has a bounded size, and answers every query.
\<close>

lemma filter_block_bounded:
  assumes acc: "\<forall>i n. accepts (take n (group_keys i blocks))"
    and order: "sorted (map (filter_index \<circ> fst) blocks)"
    and m: "\<forall>block \<in> set blocks. filter_index (fst block) \<le> m"
    and b: "build_filter_block create_filter blocks = Some contents"
  shows "length contents \<le> per_key * length (concat (map snd blocks)) + (fixed_size + 4) * Suc m + 5"
    and "length contents < 2 ^ 32 \<Longrightarrow> query_ok key
      \<Longrightarrow> FilterBlockKeyMayMatch key_may_match (NewFilterBlockReader contents) off key \<noteq> None"
proof -
  obtain groups fs where g: "contents = block_bytes fs"
    and all: "list_all2 (\<lambda>ks f. if ks = [] then f = [] else create_filter ks [] = Some f) groups fs"
    and eq: "\<And>j. j < length groups \<Longrightarrow> groups ! j = group_keys j blocks \<and> accepts (groups ! j)"
    and len: "length groups \<le> Suc m"
  proof (rule filter_block_layout [OF acc order])
    fix groups fs
    assume "build_filter_block create_filter blocks = Some (block_bytes fs)"
      and all: "list_all2 (\<lambda>ks f. if ks = [] then f = [] else create_filter ks [] = Some f) groups fs"
      and eq: "\<And>j. j < length groups \<Longrightarrow> groups ! j = group_keys j blocks \<and> accepts (groups ! j)"
      and "\<And>m. \<forall>block \<in> set blocks. filter_index (fst block) \<le> m \<Longrightarrow> length groups \<le> Suc m"
    with b m show thesis by (intro that [OF _ all eq]) simp_all
  qed
  have arith: "c \<le> p + f \<Longrightarrow> l = c + 4 * g + 5 \<Longrightarrow> g \<le> n \<Longrightarrow> l \<le> p + (f + 4 * n) + 5" for c p f l g n :: nat by linarith
  have acc': "\<forall>ks \<in> set groups. accepts ks" using eq by (metis in_set_conv_nth)
  have "length (concat groups) = (\<Sum>j < length groups. length (groups ! j))"
    by (simp add: length_concat sum_list_sum_nth atLeast0LessThan)
  also have "\<dots> = (\<Sum>j < length groups. length (group_keys j blocks))" using eq by simp
  also have "\<dots> \<le> length (concat (map snd blocks))" by (rule group_keys_total)
  finally have "per_key * length (concat groups) \<le> per_key * length (concat (map snd blocks))" by (rule mult_le_mono2)
  moreover have "fixed_size * length groups \<le> fixed_size * Suc m" using len by (rule mult_le_mono2)
  ultimately have "length (concat fs) \<le> per_key * length (concat (map snd blocks)) + fixed_size * Suc m"
    using filters_size [OF all acc'] by linarith
  moreover have "length contents = length (concat fs) + 4 * length groups + 5"
    using list_all2_lengthD [OF all] by (simp add: g block_bytes_def)
  ultimately show "length contents \<le> per_key * length (concat (map snd blocks)) + (fixed_size + 4) * Suc m + 5"
    unfolding add_mult_distrib using len arith by blast
  assume small: "length contents < 2 ^ 32" and q: "query_ok key"
  have "length (concat fs) < 2 ^ 32" using small by (simp add: g block_bytes_def)
  note reader = reader_finds_filter [OF this, of key_may_match off key]
  have "key_may_match key (fs ! i) \<noteq> None" if i: "i < length fs" for i
  proof (cases "groups ! i = []")
    case True
    then show ?thesis using list_all2_nthD2 [OF all i] match_empty [OF q] by simp
  next
    case False
    then have "create_filter (groups ! i) [] = Some (fs ! i)" using list_all2_nthD2 [OF all i] by simp
    moreover have "accepts (groups ! i)" using eq i list_all2_lengthD [OF all] by metis
    ultimately show ?thesis using match_created [OF _ _ q] by blast
  qed
  then show "FilterBlockKeyMayMatch key_may_match (NewFilterBlockReader contents) off key \<noteq> None"
    using reader by (simp add: g del: not_None_eq)
qed

end

end
