(* ===== verification/Hash_Function.thy ===== *)
theory Hash_Function
  imports Coding
begin

text \<open>
  The 32-bit hash of \<open>util/hash.cc\<close>, which every filter of the LevelDB and PebblesDB engines
  derives its probes from. The length is a \<open>size_t\<close>, but it only enters through a product that
  is truncated to 32 bits.
\<close>

fun hash_words :: "u32 \<Rightarrow> bytes \<Rightarrow> u32 \<times> bytes" where
  "hash_words h (b0 # b1 # b2 # b3 # data) =
     (let w = DecodeFixed32 [b0, b1, b2, b3];
          h = h + w;
          h = h * 0xc6a4a793;
          h = h XOR drop_bit 16 h
      in hash_words h data)"
| "hash_words h data = (h, data)"

definition hash_tail :: "u32 \<Rightarrow> bytes \<Rightarrow> u32" where
  "hash_tail h data =
     (let h = (if length data = 3 then h + push_bit 16 (ucast (data ! 2)) else h);
          h = (if length data \<in> {2, 3} then h + push_bit 8 (ucast (data ! 1)) else h)
      in if length data \<in> {1, 2, 3} then
           let h = h + ucast (data ! 0);
               h = h * 0xc6a4a793
           in h XOR drop_bit 24 h
         else h)"

definition Hash :: "bytes \<Rightarrow> u32 \<Rightarrow> u32" where
  "Hash data seed =
     (let h = seed XOR (of_nat (length data) * 0xc6a4a793);
          (h, rest) = hash_words h data
      in hash_tail h rest)"

text \<open>The four-byte loop leaves at most three bytes for the tail.\<close>

lemma hash_words_rest: "length (snd (hash_words h data)) = length data mod 4"
  by (induction h data rule: hash_words.induct) (auto simp: Let_def)

section \<open>Properties\<close>

text \<open>
  The model of \<open>Hash\<close> gives the values that \<open>util/hash_test.cc\<close> expects of the code, on empty,
  one-, two-, three- and four-byte strings with the sign bit set and on a 48-byte request.
\<close>

lemma hash_test_vectors:
  "Hash [] 0xbc9f1d34 = 0xbc9f1d34
    \<and> Hash [0x62] 0xbc9f1d34 = 0xef1345c4
    \<and> Hash [0xc3, 0x97] 0xbc9f1d34 = 0x5b663814
    \<and> Hash [0xe2, 0x99, 0xa5] 0xbc9f1d34 = 0x323c078f
    \<and> Hash [0xe1, 0x80, 0xb9, 0x32] 0xbc9f1d34 = 0xed21633a
    \<and> Hash ([0x01, 0xc0, 0x00, 0x00] @ replicate 12 0 @ [0x14, 0x00, 0x00, 0x00, 0x00, 0x00, 0x04, 0x00,
         0x00, 0x00, 0x00, 0x14, 0x00, 0x00, 0x00, 0x18, 0x28, 0x00, 0x00, 0x00, 0x00, 0x00, 0x00, 0x00,
         0x02] @ replicate 7 0) 0x12345678 = 0xf333dabb"
  by code_simp

end
