(* ===== verification/Doubles.thy ===== *)
theory Doubles
  imports Prelude
begin

text \<open>
  The two floating-point computations of the filters: an \<open>int\<close> multiplied by a constant between
  one half and one, truncated or rounded up. A double in that range is \<open>m / 2 ^ 53\<close> with a 53-bit
  \<open>m\<close>; the product with an integer is rounded to 53 significant bits, ties to even, as IEEE 754
  prescribes. The products are represented by their numerators over \<open>2 ^ 53\<close>.
\<close>

function bit_length :: "int \<Rightarrow> nat" where
  "bit_length n = (if n \<le> 0 then 0 else Suc (bit_length (n div 2)))"
  by pat_completeness auto
termination
  by (relation "measure nat") auto

declare bit_length.simps [simp del]

definition round_53 :: "int \<Rightarrow> int" where
  "round_53 p =
     (let s = bit_length p - 53;
          q = p div 2 ^ s;
          r = p mod 2 ^ s
      in if s = 0 then p
         else if r > 2 ^ (s - 1) \<or> (r = 2 ^ (s - 1) \<and> odd q) then (q + 1) * 2 ^ s
         else q * 2 ^ s)"

text \<open>The doubles nearest to \<open>0.69\<close> and to \<open>0.6931471805599453\<close>, over \<open>2 ^ 53\<close>.\<close>

definition double_0_69 :: int where
  "double_0_69 = 6214967485771284"

definition double_ln_2 :: int where
  "double_ln_2 = 6243314768165359"

definition mul_trunc :: "int \<Rightarrow> int \<Rightarrow> int" where
  "mul_trunc m n = round_53 (m * n) div 2 ^ 53"

definition mul_ceil :: "int \<Rightarrow> int \<Rightarrow> int" where
  "mul_ceil m n = (round_53 (m * n) + (2 ^ 53 - 1)) div 2 ^ 53"

lemma mul_trunc_examples: "mul_trunc double_0_69 10 = 6" "mul_trunc double_0_69 100 = 69"
  by code_simp+

lemma mul_ceil_examples: "mul_ceil double_ln_2 10 = 7" "mul_ceil double_ln_2 23 = 16"
  by code_simp+

end
