(* ===== verification/Bloom.thy ===== *)
theory Bloom
  imports Filter_Block Hash_Function Doubles
begin

text \<open>
  The Bloom filter policy of \<open>util/bloom.cc\<close>. The probe loops are also those of the Bloom
  fallbacks inside the Ribbon and Xor policies, which reuse them here.
\<close>

section \<open>Probing a bit array\<close>

text \<open>
  Setting the bit \<open>bitpos\<close> of a \<open>char\<close> array, and testing it. The builders only set bits
  inside the array they have just sized; a reader takes the size from the filter it was given, so
  its access is checked.
\<close>

definition set_probe_bit :: "bytes \<Rightarrow> nat \<Rightarrow> bytes" where
  "set_probe_bit array bitpos =
     array[bitpos div 8 := array ! (bitpos div 8) OR push_bit (bitpos mod 8) 1]"

definition rotate_right_17 :: "u32 \<Rightarrow> u32" where
  "rotate_right_17 h = drop_bit 17 h OR push_bit 15 h"

fun add_probes :: "nat \<Rightarrow> u32 \<Rightarrow> u32 \<Rightarrow> nat \<Rightarrow> bytes \<Rightarrow> bytes" where
  "add_probes 0 h delta bits array = array"
| "add_probes (Suc j) h delta bits array =
     add_probes j (h + delta) delta bits (set_probe_bit array (unat h mod bits))"

fun check_probes :: "nat \<Rightarrow> u32 \<Rightarrow> u32 \<Rightarrow> nat \<Rightarrow> bytes \<Rightarrow> bool option" where
  "check_probes 0 h delta bits array = Some True"
| "check_probes (Suc j) h delta bits array =
     (let bitpos = unat h mod bits in
      case rd array (bitpos div 8) of
        None \<Rightarrow> None
      | Some byte \<Rightarrow>
          if byte AND push_bit (bitpos mod 8) 1 = 0 then Some False
          else check_probes j (h + delta) delta bits array)"

fun add_hashes :: "nat \<Rightarrow> u32 list \<Rightarrow> nat \<Rightarrow> bytes \<Rightarrow> bytes" where
  "add_hashes k [] bits array = array"
| "add_hashes k (h # hs) bits array =
     add_hashes k hs bits (add_probes k h (rotate_right_17 h) bits array)"

section \<open>The policy\<close>

record BloomFilterPolicy =
  bloom_bits_per_key :: u64
  bloom_k :: nat

definition BloomHash :: "bytes \<Rightarrow> u32" where
  "BloomHash key = Hash key 0xbc9f1d34"

definition NewBloomFilterPolicy :: "int \<Rightarrow> BloomFilterPolicy" where
  "NewBloomFilterPolicy bits_per_key =
     (let k = nat (mul_trunc double_0_69 bits_per_key);
          k = (if k < 1 then 1 else k);
          k = (if k > 30 then 30 else k)
      in \<lparr>bloom_bits_per_key = of_int bits_per_key, bloom_k = k\<rparr>)"

definition bloom_bytes :: "BloomFilterPolicy \<Rightarrow> nat \<Rightarrow> u64" where
  "bloom_bytes policy n =
     (let bits = of_nat n * bloom_bits_per_key policy;
          bits = (if bits < 64 then 64 else bits)
      in (bits + 7) div 8)"

definition BloomCreateFilter :: "BloomFilterPolicy \<Rightarrow> bytes list \<Rightarrow> bytes \<Rightarrow> bytes option" where
  "BloomCreateFilter policy keys dst =
     (let num_bytes = bloom_bytes policy (length keys);
          bits = num_bytes * 8
      in if bits = 0 \<and> keys \<noteq> [] then None
         else
           let array = replicate (unat num_bytes) 0;
               array = add_hashes (bloom_k policy) (map BloomHash keys) (unat bits) array
           in Some (dst @ array @ [of_nat (bloom_k policy)]))"

definition BloomKeyMayMatch :: "bytes \<Rightarrow> bytes \<Rightarrow> bool option" where
  "BloomKeyMayMatch key bloom_filter =
     (let len = length bloom_filter in
      if len < 2 then Some False
      else
        let bits = (len - 1) * 8;
            k = scast (bloom_filter ! (len - 1)) :: u64
        in if k > 30 then Some True
           else
             let h = BloomHash key
             in check_probes (unat k) h (rotate_right_17 h) bits bloom_filter)"

section \<open>Probe loops\<close>

lemma bit_2_power_u8: "k < 8 \<Longrightarrow> bit (2 ^ k :: u8) n \<longleftrightarrow> n = k"
  by (auto simp: bit_exp_iff)

definition probe_bit :: "bytes \<Rightarrow> nat \<Rightarrow> bool" where
  "probe_bit array p \<longleftrightarrow> bit (array ! (p div 8)) (p mod 8)"

lemma check_probes_in:
  assumes "0 < bits" "bits \<le> 8 * length array"
  shows "check_probes (Suc j) h d bits array =
    (if probe_bit array (unat h mod bits) then check_probes j (h + d) d bits array else Some False)"
proof -
  have "unat h mod bits < bits" using assms(1) by simp
  then have "unat h mod bits div 8 < length array" using assms(2) by auto
  then show ?thesis by (simp add: array_simps and_exp_eq_0_iff_not_bit probe_bit_def Let_def)
qed

lemmas check_probes_simps = check_probes.simps(1) check_probes_in
declare check_probes.simps [simp del]
declare check_probes.simps(1) [simp]

lemma length_set_probe_bit [simp]: "length (set_probe_bit array p) = length array"
  by (simp add: set_probe_bit_def)

lemma length_add_probes [simp]: "length (add_probes k h d bits array) = length array"
  by (induction k h d bits array rule: add_probes.induct) simp_all

lemma length_add_hashes [simp]: "length (add_hashes k hs bits array) = length array"
  by (induction k hs bits array rule: add_hashes.induct) simp_all

lemma probe_bit_set:
  assumes "p < 8 * length array" and "q < 8 * length array"
  shows "probe_bit (set_probe_bit array p) q \<longleftrightarrow> q = p \<or> probe_bit array q"
proof -
  have "p div 8 < length array" "q div 8 < length array" using assms by auto
  moreover have "q = p \<longleftrightarrow> q div 8 = p div 8 \<and> q mod 8 = p mod 8" by (metis div_mod_decomp)
  ultimately show ?thesis
    by (auto simp: probe_bit_def set_probe_bit_def nth_list_update bit_or_iff bit_2_power_u8)
qed

lemma probe_bit_add_probes:
  assumes "0 < bits" "bits \<le> 8 * length array" "q < bits" "probe_bit array q"
  shows "probe_bit (add_probes k h d bits array) q"
  using assms
proof (induction k h d bits array rule: add_probes.induct)
  case (2 j h d bits array)
  have "unat h mod bits < bits" using 2 by simp
  with 2 show ?case by (simp add: probe_bit_set)
qed simp

lemma check_add_probes:
  assumes "0 < bits" "bits \<le> 8 * length array"
  shows "check_probes k h d bits (add_probes k h d bits array) = Some True"
  using assms
proof (induction k h d bits array rule: add_probes.induct)
  case (2 j h d bits array)
  have p: "unat h mod bits < bits" using 2 by simp
  moreover from this have "unat h mod bits < 8 * length array" using 2 by linarith
  ultimately have "probe_bit (set_probe_bit array (unat h mod bits)) (unat h mod bits)"
    by (simp add: probe_bit_set)
  with 2 p show ?case by (simp add: check_probes_in probe_bit_add_probes)
qed simp

lemma check_probes_mono:
  assumes "0 < bits" "bits \<le> 8 * length array" "length array' = length array"
    and "\<And>q. q < bits \<Longrightarrow> probe_bit array q \<Longrightarrow> probe_bit array' q"
    and "check_probes k h d bits array = Some True"
  shows "check_probes k h d bits array' = Some True"
  using assms
  by (induction k arbitrary: h) (auto simp: check_probes_in split: if_splits)

lemma probe_bit_add_hashes:
  assumes "0 < bits" "bits \<le> 8 * length array" "q < bits" "probe_bit array q"
  shows "probe_bit (add_hashes k hs bits array) q"
  using assms
  by (induction k hs bits array rule: add_hashes.induct) (simp_all add: probe_bit_add_probes)

text \<open>Every hash that was added passes its probes, whatever was added around it.\<close>

lemma check_add_hashes:
  assumes "0 < bits" "bits \<le> 8 * length array" "h \<in> set hs"
  shows "check_probes k h (rotate_right_17 h) bits (add_hashes k hs bits array) = Some True"
  using assms
proof (induction k hs bits array rule: add_hashes.induct)
  case (2 k g hs bits array)
  show ?case
  proof (cases "h = g")
    case True
    have "check_probes k g (rotate_right_17 g) bits (add_probes k g (rotate_right_17 g) bits array)
        = Some True"
      using 2 by (simp add: check_add_probes)
    then have "check_probes k g (rotate_right_17 g) bits
        (add_hashes k hs bits (add_probes k g (rotate_right_17 g) bits array)) = Some True"
      by (rule check_probes_mono [rotated -1]) (use 2 in \<open>simp_all add: probe_bit_add_hashes\<close>)
    with True show ?thesis by simp
  next
    case False
    with 2 show ?thesis by simp
  qed
qed simp

lemma check_probes_append:
  assumes "0 < bits" "bits \<le> 8 * length array"
  shows "check_probes k h d bits (array @ extra) = check_probes k h d bits array"
proof (induction k arbitrary: h)
  case (Suc k)
  have "unat h mod bits < bits" using assms by simp
  then have "unat h mod bits div 8 < length array" using assms(2) by auto
  then have "probe_bit (array @ extra) (unat h mod bits) = probe_bit array (unat h mod bits)"
    by (simp add: probe_bit_def nth_append)
  with Suc assms show ?case by (simp add: check_probes_in)
qed simp

text \<open>Probes into an array of at least \<open>bits\<close> bits never leave it.\<close>

lemma check_probes_defined:
  "0 < bits \<Longrightarrow> bits \<le> 8 * length array \<Longrightarrow> check_probes k h d bits array \<noteq> None"
  by (induction k arbitrary: h) (auto simp: check_probes_in)

section \<open>No false negatives\<close>

definition bloom_accepts :: "int \<Rightarrow> bytes list \<Rightarrow> bool" where
  "bloom_accepts bits_per_key keys \<longleftrightarrow>
     0 \<le> bits_per_key \<and> bits_per_key < 2 ^ 31 \<and> length keys < 2 ^ 31"

lemma bloom_k_range: "1 \<le> bloom_k (NewBloomFilterPolicy b)" "bloom_k (NewBloomFilterPolicy b) \<le> 30"
  by (auto simp: NewBloomFilterPolicy_def Let_def)

lemma bloom_bytes_range:
  assumes "bloom_accepts b keys"
  shows "8 \<le> unat (bloom_bytes (NewBloomFilterPolicy b) (length keys))"
    and "unat (bloom_bytes (NewBloomFilterPolicy b) (length keys)) < 2 ^ 60"
    and "unat (bloom_bytes (NewBloomFilterPolicy b) (length keys)) \<le> nat b * length keys + 8"
proof -
  define m where "m = length keys * nat b"
  have "length keys \<le> 2 ^ 31" "nat b \<le> 2 ^ 31" using assms by (auto simp: bloom_accepts_def)
  then have "m \<le> 2 ^ 31 * 2 ^ 31" unfolding m_def by (rule mult_le_mono)
  then have m: "m + 7 < 2 ^ 63" by simp
  have "(of_int b :: u64) = of_nat (nat b)" using assms by (simp add: bloom_accepts_def)
  then have bits: "of_nat (length keys) * bloom_bits_per_key (NewBloomFilterPolicy b) = of_nat m"
    by (simp add: NewBloomFilterPolicy_def Let_def m_def)
  define bs where "bs = (if m < 64 then 64 else m)"
  have unat_m: "unat (of_nat m :: u64) = m" using m by (intro unat_of_nat_small) simp
  have bytes: "bloom_bytes (NewBloomFilterPolicy b) (length keys) = (of_nat (bs + 7)) div 8"
    using unat_m by (simp add: bloom_bytes_def bits bs_def Let_def word_less_nat_alt)
  have "unat (of_nat (bs + 7) :: u64) = bs + 7"
    using m by (intro unat_of_nat_small) (simp add: bs_def)
  then have val: "unat (bloom_bytes (NewBloomFilterPolicy b) (length keys)) = (bs + 7) div 8"
    by (simp only: bytes unat_div) simp
  show "8 \<le> unat (bloom_bytes (NewBloomFilterPolicy b) (length keys))"
    unfolding val using div_le_mono [of 64 "bs + 7" 8] by (simp add: bs_def)
  show "unat (bloom_bytes (NewBloomFilterPolicy b) (length keys)) < 2 ^ 60"
    unfolding val using m less_mult_imp_div_less [of "bs + 7" "2 ^ 60" 8] by (simp add: bs_def)
  have "(bs + 7) div 8 \<le> m + 8" by (auto simp: bs_def)
  then show "unat (bloom_bytes (NewBloomFilterPolicy b) (length keys)) \<le> nat b * length keys + 8"
    unfolding val by (simp add: m_def mult.commute)
qed

lemma bloom_filter_shape:
  assumes "bloom_accepts b keys"
  defines "policy \<equiv> NewBloomFilterPolicy b"
  defines "num_bytes \<equiv> unat (bloom_bytes policy (length keys))"
  shows "BloomCreateFilter policy keys dst
    = Some (dst @ add_hashes (bloom_k policy) (map BloomHash keys) (8 * num_bytes)
        (replicate num_bytes 0) @ [of_nat (bloom_k policy)])"
proof -
  have r: "8 \<le> num_bytes" "num_bytes < 2 ^ 60"
    using bloom_bytes_range [OF assms(1)] by (simp_all add: assms)
  have "unat (bloom_bytes policy (length keys)) * unat (8 :: u64) < 2 ^ LENGTH(64)"
    using r by (simp add: num_bytes_def)
  then have bits: "unat (bloom_bytes policy (length keys) * 8) = 8 * num_bytes"
    using unat_mult_lem [of "bloom_bytes policy (length keys)" 8] by (simp add: num_bytes_def)
  then have "bloom_bytes policy (length keys) * 8 \<noteq> 0"
    using r by (metis mult_is_0 not_numeral_le_zero unsigned_0 zero_neq_numeral)
  then show ?thesis by (simp add: BloomCreateFilter_def Let_def bits num_bytes_def)
qed

lemma bloom_k_byte:
  "unat (scast (of_nat (bloom_k (NewBloomFilterPolicy b)) :: u8) :: u64) = bloom_k (NewBloomFilterPolicy b)"
proof -
  define k where "k = bloom_k (NewBloomFilterPolicy b)"
  have "k \<in> set [1..<31]" using bloom_k_range [of b] by (simp add: k_def)
  moreover have "\<forall>k \<in> set [1..<31]. unat (scast (of_nat k :: u8) :: u64) = k" by code_simp
  ultimately show ?thesis unfolding k_def by blast
qed

lemma bloom_match:
  assumes "bloom_accepts b keys" and "key \<in> set keys"
    and "BloomCreateFilter (NewBloomFilterPolicy b) keys [] = Some f"
  shows "BloomKeyMayMatch key f = Some True"
proof -
  define k where "k = bloom_k (NewBloomFilterPolicy b)"
  define n where "n = unat (bloom_bytes (NewBloomFilterPolicy b) (length keys))"
  define array where "array = add_hashes k (map BloomHash keys) (8 * n) (replicate n 0)"
  have f: "f = array @ [of_nat k]"
    using bloom_filter_shape [OF assms(1), of "[]"] assms(3) by (simp add: array_def k_def n_def)
  have n: "8 \<le> n" using bloom_bytes_range [OF assms(1)] by (simp add: n_def)
  have len: "length array = n" by (simp add: array_def)
  have k: "unat (scast (of_nat k :: u8) :: u64) = k" "k \<le> 30"
    using bloom_k_byte bloom_k_range by (simp_all add: k_def)
  then have "\<not> (scast (of_nat k :: u8) :: u64) > 30" by (simp add: word_less_nat_alt)
  moreover have "check_probes k (BloomHash key) (rotate_right_17 (BloomHash key)) (8 * n) array
      = Some True"
    unfolding array_def using n assms(2) by (intro check_add_hashes) auto
  then have "check_probes k (BloomHash key) (rotate_right_17 (BloomHash key)) (n * 8)
      (array @ [of_nat k]) = Some True"
    using n len by (simp add: check_probes_append mult.commute)
  ultimately show ?thesis
    using n len k(1) by (simp add: BloomKeyMayMatch_def f Let_def nth_append)
qed

lemma BloomKeyMayMatch_defined: "BloomKeyMayMatch key f \<noteq> None"
proof (cases "length f < 2")
  case False
  then have "check_probes k h d ((length f - 1) * 8) f \<noteq> None" for k h d
    by (intro check_probes_defined) simp_all
  with False show ?thesis by (auto simp: BloomKeyMayMatch_def Let_def)
qed (simp add: BloomKeyMayMatch_def)

interpretation bloom: filter_policy "BloomCreateFilter (NewBloomFilterPolicy b)"
  BloomKeyMayMatch "bloom_accepts b" for b
proof
  fix keys dst key f
  show "bloom_accepts b keys \<Longrightarrow> BloomCreateFilter (NewBloomFilterPolicy b) keys [] \<noteq> None"
    by (simp add: bloom_filter_shape)
  show "BloomCreateFilter (NewBloomFilterPolicy b) keys dst
      = map_option ((@) dst) (BloomCreateFilter (NewBloomFilterPolicy b) keys [])"
    by (simp add: BloomCreateFilter_def Let_def)
  show "bloom_accepts b keys \<Longrightarrow> key \<in> set keys
      \<Longrightarrow> BloomCreateFilter (NewBloomFilterPolicy b) keys [] = Some f
      \<Longrightarrow> BloomKeyMayMatch key f = Some True"
    by (rule bloom_match)
qed

interpretation bloom_sized: sized_filter_policy "BloomCreateFilter (NewBloomFilterPolicy b)"
  BloomKeyMayMatch "bloom_accepts b" "\<lambda>_. True" "nat b" 9 for b
proof
  fix keys f key
  show "BloomKeyMayMatch key [] \<noteq> None" by (rule BloomKeyMayMatch_defined)
  show "BloomKeyMayMatch key f \<noteq> None" by (rule BloomKeyMayMatch_defined)
  assume a: "bloom_accepts b keys" "BloomCreateFilter (NewBloomFilterPolicy b) keys [] = Some f"
  show "length f \<le> nat b * length keys + 9"
    using a(2) bloom_bytes_range(3) [OF a(1)] by (auto simp: bloom_filter_shape [OF a(1)])
qed

section \<open>Properties\<close>

text \<open>
  C33: the Bloom filter made from fewer than \<open>2 ^ 31\<close> keys at a non-negative number of bits per key
  is appended to the destination and matches every one of them; no probe leaves its array.
\<close>

theorem bloom_no_false_negatives:
  assumes "bloom_accepts bits_per_key keys"
  shows "\<exists>f. BloomCreateFilter (NewBloomFilterPolicy bits_per_key) keys dst = Some (dst @ f)
    \<and> (\<forall>key \<in> set keys. BloomKeyMayMatch key f = Some True)"
  using bloom.create_obtains [OF assms] by metis

theorem bloom_no_false_negatives_witness:
  "\<exists>f. BloomCreateFilter (NewBloomFilterPolicy 10) [[1, 2], [3]] [9] = Some ([9] @ f)
    \<and> BloomKeyMayMatch [3] f = Some True"
  using bloom_no_false_negatives [of 10 "[[1, 2], [3]]" "[9]"] by (auto simp: bloom_accepts_def)

text \<open>
  \<open>KeyMayMatch\<close> answers for every byte string, however it was corrupted: the bit count is taken
  from the length, so no probe is out of range.
\<close>

lemma bloom_query_total: "\<exists>answer. BloomKeyMayMatch key f = Some answer"
  using BloomKeyMayMatch_defined [of key f] by auto

end
