(* ===== verification/Packed_Values.thy ===== *)
theory Packed_Values
  imports Coding
begin

text \<open>
  The bit-packed tables of \<open>util/ribbon_filter.cc\<close> and \<open>util/xor_filter.cc\<close>: values of 1 to 16
  bits laid end to end, least significant bit first. Both filters have the same helper functions,
  word for word, so they are modelled once, from \<open>ribbon_filter.cc\<close>. The main result is
  \<open>ReadPackedValue_Append\<close>: the value read back at an index is the one written there,
  truncated to the width of the table.
\<close>

definition BitMask :: "nat \<Rightarrow> u32" where
  "BitMask bits = push_bit bits 1 - 1"

definition PackedByteSize :: "u32 \<Rightarrow> nat \<Rightarrow> nat" where
  "PackedByteSize value_count bits_per_value =
     (let total_bits = ucast value_count * of_nat bits_per_value :: u64
      in unat ((total_bits + 7) div 8))"

fun flush_pending :: "bytes \<Rightarrow> u64 \<Rightarrow> nat \<Rightarrow> bytes \<times> u64 \<times> nat" where
  "flush_pending dst pending pending_bits =
     (if pending_bits \<ge> 8
      then flush_pending (dst @ [ucast (pending AND 255)]) (drop_bit 8 pending) (pending_bits - 8)
      else (dst, pending, pending_bits))"

declare flush_pending.simps [simp del]

fun append_packed_loop :: "u32 \<Rightarrow> nat \<Rightarrow> u32 list \<Rightarrow> bytes \<Rightarrow> u64 \<Rightarrow> nat \<Rightarrow> bytes" where
  "append_packed_loop msk bits_per_value [] dst pending pending_bits =
     (if pending_bits > 0 then dst @ [ucast (pending AND 255)] else dst)"
| "append_packed_loop msk bits_per_value (v # vs) dst pending pending_bits =
     (let pending = pending OR push_bit pending_bits (ucast (v AND msk));
          (dst, pending, pending_bits) = flush_pending dst pending (pending_bits + bits_per_value)
      in append_packed_loop msk bits_per_value vs dst pending pending_bits)"

definition AppendPackedValues :: "u32 list \<Rightarrow> nat \<Rightarrow> bytes \<Rightarrow> bytes" where
  "AppendPackedValues values bits_per_value dst =
     append_packed_loop (BitMask bits_per_value) bits_per_value values dst 0 0"

definition gather_bytes :: "bytes \<Rightarrow> nat \<Rightarrow> nat \<Rightarrow> u64" where
  "gather_bytes payload byte_offset bytes_needed =
     fold (\<lambda>i word. word OR push_bit (8 * i) (ucast (payload ! (byte_offset + i))))
       [0..<bytes_needed] 0"

definition ReadPackedValue :: "bytes \<Rightarrow> u32 \<Rightarrow> nat \<Rightarrow> u32 option" where
  "ReadPackedValue payload index bits_per_value =
     (let bit_offset = ucast index * of_nat bits_per_value :: u64;
          byte_offset = unat (bit_offset div 8);
          shift = unat (bit_offset mod 8);
          bytes_needed = (shift + bits_per_value + 7) div 8
      in if byte_offset + bytes_needed > length payload then None
         else
           let word = gather_bytes payload byte_offset bytes_needed
           in Some (ucast (drop_bit shift word AND ucast (BitMask bits_per_value))))"

section \<open>Masks\<close>

lemma BitMask_eq_mask: "BitMask bits = mask bits"
  by (simp add: BitMask_def mask_eq_exp_minus_1)

lemma and_BitMask [mask_simps]: "v AND BitMask bits = take_bit bits v"
  by (simp add: BitMask_eq_mask take_bit_eq_mask)

lemma ucast_BitMask: "bits \<le> 32 \<Longrightarrow> (ucast (BitMask bits) :: u64) = mask bits"
  unfolding BitMask_eq_mask by (rule bit_word_eqI) (auto simp: bit_simps)

section \<open>A byte string as a little-endian number\<close>

fun le_val :: "bytes \<Rightarrow> nat" where
  "le_val [] = 0"
| "le_val (b # bs) = unat b + 256 * le_val bs"

lemma le_val_append: "le_val (xs @ ys) = le_val xs + 256 ^ length xs * le_val ys"
  by (induction xs) (simp_all add: algebra_simps)

lemma le_val_less: "le_val bs < 256 ^ length bs"
proof (induction bs)
  case (Cons b bs)
  have "unat b < 256" using unsigned_less [of b, where ?'a = nat] by simp
  with Cons show ?case by simp
qed simp

lemma le_val_take: "le_val (take k bs) = le_val bs mod 256 ^ k"
proof (cases "k \<le> length bs")
  case True
  have "le_val bs = le_val (take k bs) + 256 ^ k * le_val (drop k bs)"
    using le_val_append [of "take k bs" "drop k bs"] True by simp
  with le_val_less [of "take k bs"] True show ?thesis by simp
next
  case False
  have "le_val bs < 256 ^ length bs" by (rule le_val_less)
  also have "\<dots> \<le> 256 ^ k" using False by (intro power_increasing) simp_all
  finally show ?thesis using False by simp
qed

lemma le_val_drop: "le_val (drop k bs) = le_val bs div 256 ^ k"
proof (cases "k \<le> length bs")
  case True
  have "le_val bs = le_val (take k bs) + 256 ^ k * le_val (drop k bs)"
    using le_val_append [of "take k bs" "drop k bs"] True by simp
  with le_val_less [of "take k bs"] True show ?thesis by simp
next
  case False
  have "le_val bs < 256 ^ length bs" by (rule le_val_less)
  also have "\<dots> \<le> 256 ^ k" using False by (intro power_increasing) simp_all
  finally show ?thesis using False by simp
qed

section \<open>Writing\<close>

text \<open>The number that a list of values packed at a fixed width stands for.\<close>

fun packed_val :: "nat \<Rightarrow> u32 list \<Rightarrow> nat" where
  "packed_val bits [] = 0"
| "packed_val bits (v # vs) = unat (take_bit bits v) + 2 ^ bits * packed_val bits vs"

lemma unat_take_bit_less: "unat (take_bit n (w :: 'a::len word)) < 2 ^ n"
  by (simp add: unat_take_bit_mod)

lemma flush_pending_spec:
  assumes "flush_pending dst pending pb = (dst', pending', pb')"
  shows "\<exists>out. dst' = dst @ out \<and> pb = 8 * length out + pb' \<and> pb' < 8
    \<and> unat pending = le_val out + 256 ^ length out * unat pending'"
  using assms
proof (induction dst pending pb rule: flush_pending.induct)
  case (1 dst pending pb)
  show ?case
  proof (cases "8 \<le> pb")
    case False
    with "1.prems" show ?thesis by (simp add: flush_pending.simps [of dst])
  next
    case True
    then have "flush_pending (dst @ [ucast (pending AND 255)]) (drop_bit 8 pending) (pb - 8)
        = (dst', pending', pb')"
      using "1.prems" by (simp add: flush_pending.simps [of dst])
    from "1.IH" [OF True this] obtain out where out:
      "dst' = dst @ ucast (pending AND 255) # out" "pb - 8 = 8 * length out + pb'" "pb' < 8"
      "unat (drop_bit 8 pending) = le_val out + 256 ^ length out * unat pending'"
      by auto
    have "unat (ucast (pending AND 255) :: u8) = unat pending mod 256"
      by (simp add: mask_simps unsigned_ucast_eq unat_take_bit_mod take_bit_nat_eq_self)
    moreover have "unat pending = unat pending mod 256 + 256 * unat (drop_bit 8 pending)"
      using mult_div_mod_eq [of 256 "unat pending"] by (simp add: unat_drop_bit_div)
    ultimately show ?thesis
      using out True
      by (intro exI [of _ "ucast (pending AND 255) # out"]) (simp add: algebra_simps)
  qed
qed

lemma append_packed_loop_spec:
  assumes bits: "0 < bits" "bits \<le> 16" and "pb < 8" and "unat pending < 2 ^ pb"
  shows "\<exists>out. append_packed_loop (BitMask bits) bits vs dst pending pb = dst @ out
    \<and> length out = (pb + bits * length vs + 7) div 8
    \<and> le_val out = unat pending + 2 ^ pb * packed_val bits vs"
  using assms(3,4)
proof (induction vs arbitrary: dst pending pb)
  case Nil
  have "unat pending < 2 ^ 8"
    using Nil power_strict_increasing [of pb 8 "2::nat"] by simp
  then have "unat (ucast (pending AND 255) :: u8) = unat pending"
    by (simp add: mask_simps unsigned_ucast_eq unat_take_bit_mod take_bit_nat_eq_self)
  with Nil show ?case
    by (cases "pb = 0") auto
next
  case (Cons v vs)
  define w where "w = (ucast (v AND BitMask bits) :: u64)"
  have w: "unat w = unat (take_bit bits v)"
    by (simp add: w_def mask_simps unsigned_ucast_eq take_bit_nat_eq_self
        order_less_trans [OF unsigned_less])
  have wless: "unat w < 2 ^ bits" by (simp only: w unat_take_bit_less)
  have "2 ^ pb * unat w < 2 ^ (pb + bits)" using wless by (simp add: power_add)
  also have pbb: "(2::nat) ^ (pb + bits) \<le> 2 ^ LENGTH(64)"
    using Cons.prems bits by (intro power_increasing) auto
  finally have or: "unat (pending OR push_bit pb w) = unat pending + 2 ^ pb * unat w"
    using Cons.prems by (intro unat_or_push_bit)
  obtain dst' pending' pb' where fl: "flush_pending dst (pending OR push_bit pb w) (pb + bits)
      = (dst', pending', pb')" by (metis prod_cases3)
  from flush_pending_spec [OF fl] obtain out where out: "dst' = dst @ out"
    "pb + bits = 8 * length out + pb'" "pb' < 8"
    "unat pending + 2 ^ pb * unat w = le_val out + 256 ^ length out * unat pending'"
    by (auto simp: or)
  have pw: "(2::nat) ^ (pb + bits) = 256 ^ length out * 2 ^ pb'"
    by (simp add: out(2) power_add power_mult)
  have "unat pending' < 2 ^ pb'"
  proof -
    have "unat pending + 2 ^ pb * unat w < 2 ^ pb * (unat w + 1)" using Cons.prems by simp
    also have "\<dots> \<le> 2 ^ pb * 2 ^ bits" using wless by (intro mult_le_mono2) simp
    also have "\<dots> = 256 ^ length out * 2 ^ pb'" by (simp only: pw power_add [symmetric])
    finally have "256 ^ length out * unat pending' < 256 ^ length out * 2 ^ pb'"
      using out(4) by linarith
    then show ?thesis by simp
  qed
  from Cons.IH [OF out(3) this, of dst'] obtain out' where out':
    "append_packed_loop (BitMask bits) bits vs dst' pending' pb' = dst' @ out'"
    "length out' = (pb' + bits * length vs + 7) div 8"
    "le_val out' = unat pending' + 2 ^ pb' * packed_val bits vs" by auto
  have "le_val (out @ out') = unat pending + 2 ^ pb * packed_val bits (v # vs)"
    using out(4) pw by (simp add: le_val_append out'(3) w algebra_simps power_add)
  moreover have "length (out @ out') = (pb + bits * length (v # vs) + 7) div 8"
    using out(2) by (simp add: out'(2))
  ultimately show ?case
    using fl out' by (intro exI [of _ "out @ out'"]) (simp add: w_def [symmetric] out(1))
qed

lemma AppendPackedValues_spec:
  assumes "0 < bits" "bits \<le> 16"
  shows "\<exists>out. AppendPackedValues vs bits dst = dst @ out
    \<and> length out = (bits * length vs + 7) div 8 \<and> le_val out = packed_val bits vs"
  using append_packed_loop_spec [OF assms, of 0 0 vs dst] by (simp add: AppendPackedValues_def)

section \<open>Reading\<close>

lemma PackedByteSize_eq:
  assumes "bits \<le> 255"
  shows "PackedByteSize n bits = (unat n * bits + 7) div 8"
proof -
  have "unat n * bits \<le> 2 ^ 32 * 255"
    using assms unsigned_less [of n, where ?'a = nat] by (intro mult_le_mono) auto
  moreover have "(2::nat) ^ 32 * 255 + 7 < 2 ^ 64" by simp
  ultimately have small: "unat n * bits + 7 < 2 ^ 64" by linarith
  have eq: "(ucast n * of_nat bits :: u64) + 7 = of_nat (unat n * bits + 7)" by simp
  have "unat (of_nat (unat n * bits + 7) :: u64) = unat n * bits + 7"
    by (rule unat_of_nat_small) (use small in simp)
  then have "unat ((ucast n * of_nat bits :: u64) + 7) = unat n * bits + 7" by (simp only: eq)
  then show ?thesis by (simp add: PackedByteSize_def unat_div)
qed

lemma gather_bytes_Suc:
  "gather_bytes payload off (Suc n)
     = gather_bytes payload off n OR push_bit (8 * n) (ucast (payload ! (off + n)))"
  by (simp add: gather_bytes_def)

lemma unat_gather_bytes:
  "n \<le> 8 \<Longrightarrow> off + n \<le> length payload
    \<Longrightarrow> unat (gather_bytes payload off n) = le_val (take n (drop off payload))"
proof (induction n)
  case 0
  then show ?case by (simp add: gather_bytes_def)
next
  case (Suc n)
  define b where "b = payload ! (off + n)"
  have IH: "unat (gather_bytes payload off n) = le_val (take n (drop off payload))"
    using Suc by simp
  have "le_val (take n (drop off payload)) < 256 ^ n"
    using le_val_less [of "take n (drop off payload)"] Suc.prems by simp
  moreover have p256: "(256::nat) ^ n = 2 ^ (8 * n)" by (simp add: power_mult)
  ultimately have less: "unat (gather_bytes payload off n) < 2 ^ (8 * n)" by (simp only: IH)
  have b: "unat (ucast b :: u64) = unat b"
    by (simp add: unsigned_ucast_eq take_bit_nat_eq_self order_less_trans [OF unsigned_less])
  have "2 ^ (8 * n) * unat b < 2 ^ (8 * n) * 2 ^ 8"
    using unsigned_less [of b, where ?'a = nat] by simp
  also have "\<dots> \<le> 2 ^ LENGTH(64)"
    unfolding power_add [symmetric] using Suc.prems by (intro power_increasing) auto
  finally have "unat (gather_bytes payload off n OR push_bit (8 * n) (ucast b))
      = unat (gather_bytes payload off n) + 2 ^ (8 * n) * unat b"
    using less by (subst unat_or_push_bit) (simp_all add: b)
  also have "\<dots> = le_val (take n (drop off payload) @ [b])"
    using Suc.prems by (simp add: IH le_val_append p256)
  also have "take n (drop off payload) @ [b] = take (Suc n) (drop off payload)"
    using Suc.prems by (simp add: b_def take_Suc_conv_app_nth)
  finally show ?case by (simp add: gather_bytes_Suc b_def)
qed

lemma packed_val_nth:
  "i < length vs \<Longrightarrow> packed_val bits vs div 2 ^ (bits * i) mod 2 ^ bits = unat (take_bit bits (vs ! i))"
proof (induction vs arbitrary: i)
  case Nil
  then show ?case by simp
next
  case (Cons v vs)
  have v: "unat (take_bit bits v) < 2 ^ bits" by (rule unat_take_bit_less)
  show ?case
  proof (cases i)
    case 0
    with v show ?thesis by simp
  next
    case (Suc j)
    have "packed_val bits (v # vs) div 2 ^ (bits * i)
        = packed_val bits (v # vs) div 2 ^ bits div 2 ^ (bits * j)"
      by (simp only: Suc mult_Suc_right power_add div_mult2_eq)
    also have "packed_val bits (v # vs) div 2 ^ bits = packed_val bits vs" using v by simp
    finally show ?thesis using Cons Suc by simp
  qed
qed

lemma window_mod_div:
  fixes x :: nat
  assumes "s + b \<le> k"
  shows "x mod 2 ^ k div 2 ^ s mod 2 ^ b = x div 2 ^ s mod 2 ^ b"
proof -
  have "take_bit b (drop_bit s (take_bit k x)) = take_bit b (drop_bit s x)"
    using assms by (simp add: drop_bit_take_bit)
  then show ?thesis by (simp add: take_bit_eq_mod drop_bit_eq_div)
qed

lemma unat_bit_offset:
  assumes "bits \<le> 255"
  shows "unat (ucast (index :: u32) * of_nat bits :: u64) = unat index * bits"
proof -
  have "unat index * bits \<le> 2 ^ 32 * 255"
    using assms unsigned_less [of index, where ?'a = nat] by (intro mult_le_mono) auto
  moreover have "(2::nat) ^ 32 * 255 < 2 ^ LENGTH(64)" by simp
  ultimately have "unat index * bits < 2 ^ LENGTH(64)" by linarith
  then have "unat (of_nat (unat index * bits) :: u64) = unat index * bits"
    by (rule unat_of_nat_small)
  then show ?thesis by simp
qed

text \<open>A read inside the payload returns a window of the number the payload stands for.\<close>

lemma ReadPackedValue_window:
  assumes bits: "0 < bits" "bits \<le> 16"
    and fits: "unat index * bits + bits \<le> 8 * length payload"
  shows "\<exists>v. ReadPackedValue payload index bits = Some v
    \<and> unat v = le_val payload div 2 ^ (unat index * bits) mod 2 ^ bits"
proof -
  define off where "off = unat index * bits"
  define m where "m = (off mod 8 + bits + 7) div 8"
  define word where "word = gather_bytes payload (off div 8) m"
  have bo: "unat (ucast index * of_nat bits :: u64) = off"
    using bits by (simp only: off_def unat_bit_offset)
  have m: "m \<le> 8" "off mod 8 + bits \<le> 8 * m" using bits by (auto simp: m_def)
  have "8 * m \<le> off mod 8 + bits + 7" by (simp add: m_def)
  moreover have "8 * (off div 8) + off mod 8 = off" by simp
  ultimately have inside: "off div 8 + m \<le> length payload"
    using fits unfolding off_def [symmetric] by linarith
  have read: "ReadPackedValue payload index bits
      = Some (ucast (drop_bit (off mod 8) word AND ucast (BitMask bits)))"
    using inside
    by (simp add: ReadPackedValue_def bo unat_div unat_mod m_def [symmetric] word_def Let_def)
  have "unat word = le_val payload div 256 ^ (off div 8) mod 256 ^ m"
    using m(1) inside by (simp add: word_def unat_gather_bytes le_val_take le_val_drop)
  also have "(256::nat) ^ m = 2 ^ (8 * m)" by (simp add: power_mult)
  finally have "unat word div 2 ^ (off mod 8) mod 2 ^ bits
      = le_val payload div 256 ^ (off div 8) div 2 ^ (off mod 8) mod 2 ^ bits"
    using m(2) by (simp only: window_mod_div)
  also have "\<dots> = le_val payload div 2 ^ off mod 2 ^ bits"
  proof -
    have "(256::nat) ^ (off div 8) * 2 ^ (off mod 8) = 2 ^ (8 * (off div 8) + off mod 8)"
      by (simp only: power_add power_mult) simp
    then show ?thesis by (simp add: div_mult2_eq [symmetric])
  qed
  finally have win: "unat word div 2 ^ (off mod 8) mod 2 ^ bits
    = le_val payload div 2 ^ off mod 2 ^ bits" .
  have "drop_bit (off mod 8) word AND ucast (BitMask bits) = take_bit bits (drop_bit (off mod 8) word)"
    using bits by (simp add: ucast_BitMask take_bit_eq_mask)
  then have v: "unat (drop_bit (off mod 8) word AND ucast (BitMask bits))
      = le_val payload div 2 ^ off mod 2 ^ bits"
    by (simp only: unat_take_bit_mod unat_drop_bit_div win)
  have "le_val payload div 2 ^ off mod 2 ^ bits < 2 ^ bits" by simp
  also have "(2::nat) ^ bits \<le> 2 ^ 32" using bits by (intro power_increasing) auto
  finally have "unat (ucast (drop_bit (off mod 8) word AND ucast (BitMask bits)) :: u32)
      = le_val payload div 2 ^ off mod 2 ^ bits"
    by (simp only: unsigned_ucast_eq v) (simp add: take_bit_nat_eq_self)
  with read show ?thesis by (simp add: off_def)
qed

lemma ReadPackedValue_Append:
  assumes bits: "0 < bits" "bits \<le> 16" and i: "unat index < length vs"
  shows "ReadPackedValue (AppendPackedValues vs bits []) index bits
    = Some (take_bit bits (vs ! unat index))"
proof -
  obtain out where out: "AppendPackedValues vs bits [] = out"
    "length out = (bits * length vs + 7) div 8" "le_val out = packed_val bits vs"
    using AppendPackedValues_spec [OF bits, of vs "[]"] by auto
  have "unat index * bits + bits \<le> bits * length vs"
    using mult_le_mono2 [of "Suc (unat index)" "length vs" bits] i by (simp add: algebra_simps)
  also have "\<dots> \<le> 8 * length out" by (simp add: out(2))
  finally obtain v where v: "ReadPackedValue out index bits = Some v"
    "unat v = le_val out div 2 ^ (unat index * bits) mod 2 ^ bits"
    using ReadPackedValue_window [OF bits] by blast
  have "unat v = unat (take_bit bits (vs ! unat index))"
    using packed_val_nth [OF i, of bits] by (simp only: v(2) out(3) mult.commute)
  then have "v = take_bit bits (vs ! unat index)" by (rule unsigned_word_eqI)
  then show ?thesis using v(1) out(1) by simp
qed

lemma AppendPackedValues_append:
  "AppendPackedValues vs bits dst = dst @ AppendPackedValues vs bits []"
proof -
  have "append_packed_loop m bits vs (dst @ d) p pb = dst @ append_packed_loop m bits vs d p pb" for m d p pb
  proof (induction vs arbitrary: d p pb)
    case (Cons v vs)
    have "flush_pending (dst @ d) p pb = (dst @ fst (flush_pending d p pb), snd (flush_pending d p pb))" for p pb
      by (induction d p pb rule: flush_pending.induct)
        (subst (1 2 3) flush_pending.simps, simp)
    with Cons show ?case by (simp add: case_prod_beta Let_def)
  qed simp
  from this [of _ "[]"] show ?thesis by (simp add: AppendPackedValues_def)
qed

section \<open>Properties\<close>

text \<open>
  Values packed at 1 to 16 bits read back as they were, truncated to the width, at every index
  and after any bytes the table is appended to.
\<close>

lemma packed_values_roundtrip:
  assumes "0 < bits" "bits \<le> 16" "unat index < length vs"
  shows "ReadPackedValue (drop (length dst) (AppendPackedValues vs bits dst)) index bits
    = Some (take_bit bits (vs ! unat index))"
  using ReadPackedValue_Append [OF assms] AppendPackedValues_append [of vs bits dst] by simp

text \<open>
  \<open>PackedByteSize\<close> is the exact number of bytes \<open>AppendPackedValues\<close> adds, for every table of a
  32-bit number of values: its 64-bit product does not wrap.
\<close>

lemma packed_byte_size_exact:
  assumes "0 < bits" "bits \<le> 16" "length vs = unat n"
  shows "length (AppendPackedValues vs bits dst) = length dst + PackedByteSize n bits"
  using AppendPackedValues_spec [OF assms(1,2), of vs dst] assms by (auto simp: PackedByteSize_eq mult.commute)

end
