(* ===== verification/Filter_Format.thy ===== *)
theory Filter_Format
  imports Bloom Packed_Values
begin

text \<open>
  What \<open>util/ribbon_filter.cc\<close> and \<open>util/xor_filter.cc\<close> share besides the packed tables: the
  12-byte trailer of their serialized format, the multiply-shift range reduction, and the sizing
  and probing of the Bloom encoding they fall back to. The two files differ in the magic byte,
  which is an argument here, and in the 32-bit hashes the fallback is built from.
\<close>

section \<open>The trailer\<close>

definition kTrailerSize :: nat where
  "kTrailerSize = 12"

definition kFormatVersion :: u8 where
  "kFormatVersion = 1"

definition kEncodingEmpty :: u8 where
  "kEncodingEmpty = 0"

definition kEncodingBloom :: u8 where
  "kEncodingBloom = 2"

definition kEncodingAlwaysMatch :: u8 where
  "kEncodingAlwaysMatch = 3"

definition AppendFixed32 :: "bytes \<Rightarrow> u32 \<Rightarrow> bytes" where
  "AppendFixed32 dst value =
     dst @ [ucast (value AND 255), ucast (drop_bit 8 value AND 255),
            ucast (drop_bit 16 value AND 255), ucast (drop_bit 24 value AND 255)]"

definition AppendTrailer :: "u8 \<Rightarrow> bytes \<Rightarrow> u32 \<Rightarrow> u32 \<Rightarrow> u8 \<Rightarrow> u8 \<Rightarrow> bytes" where
  "AppendTrailer magic dst seed slot_count aux type =
     AppendFixed32 (AppendFixed32 dst seed) slot_count @ [aux, type, kFormatVersion, magic]"

record trailer =
  tr_seed :: u32
  tr_slot_count :: u32
  tr_aux :: u8
  tr_type :: u8
  tr_version :: u8
  tr_magic :: u8

text \<open>The fields as \<open>KeyMayMatch\<close> reads them from the last 12 bytes of a filter.\<close>

definition read_trailer :: "bytes \<Rightarrow> trailer" where
  "read_trailer flt =
     (let tr = drop (length flt - kTrailerSize) flt
      in \<lparr>tr_seed = DecodeFixed32 tr, tr_slot_count = DecodeFixed32 (drop 4 tr),
          tr_aux = tr ! 8, tr_type = tr ! 9, tr_version = tr ! 10, tr_magic = tr ! 11\<rparr>)"

definition FastRange32 :: "u32 \<Rightarrow> u32 \<Rightarrow> u32" where
  "FastRange32 hash rng =
     (if rng = 0 then 0 else ucast (drop_bit 32 (ucast hash * ucast rng :: u64)))"

section \<open>The Bloom fallback\<close>

definition BloomProbeCount :: "int \<Rightarrow> nat" where
  "BloomProbeCount bits_per_key =
     (let probes = nat (mul_trunc double_0_69 bits_per_key);
          probes = (if probes < 1 then 1 else probes)
      in if probes > 30 then 30 else probes)"

definition BloomBitCount :: "nat \<Rightarrow> int \<Rightarrow> u32" where
  "BloomBitCount key_count bits_per_key =
     (let bits = of_nat key_count * of_int bits_per_key :: u64;
          bits = (if bits < 64 then 64 else bits);
          bits = (bits + 7) AND NOT 7
      in if bits > 0xffffffff then 0 else ucast bits)"

definition EstimatedBloomSerializedSize :: "nat \<Rightarrow> int \<Rightarrow> nat" where
  "EstimatedBloomSerializedSize key_count bits_per_key =
     (let bit_count = BloomBitCount key_count bits_per_key
      in if bit_count = 0 then 2 ^ 64 - 1 else unat (bit_count div 8) + kTrailerSize)"

definition BuildBloomEncoding :: "u8 \<Rightarrow> u32 list \<Rightarrow> int \<Rightarrow> u32 \<Rightarrow> bytes \<Rightarrow> bytes" where
  "BuildBloomEncoding magic hashes bits_per_key seed encoded =
     (let bit_count = BloomBitCount (length hashes) bits_per_key in
      if bit_count = 0 then AppendTrailer magic encoded seed 0 0 kEncodingAlwaysMatch
      else
        let probes = BloomProbeCount bits_per_key;
            byte_count = unat (bit_count div 8);
            payload = add_hashes probes hashes (unat bit_count) (replicate byte_count 0)
        in AppendTrailer magic (encoded @ payload) seed bit_count (of_nat probes) kEncodingBloom)"

definition BloomMayMatch :: "u32 \<Rightarrow> bytes \<Rightarrow> u32 \<Rightarrow> u8 \<Rightarrow> bool option" where
  "BloomMayMatch hash payload bit_count probes =
     (if bit_count < 64 \<or> probes < 1 \<or> probes > 30
          \<or> length payload \<noteq> unat ((bit_count + 7) div 8) then Some True
      else check_probes (unat probes) hash (rotate_right_17 hash) (unat bit_count) payload)"

section \<open>Hashing and retries\<close>

definition kMaxSeedTries :: nat where
  "kMaxSeedTries = 64"

definition kSecondHashDelta :: u32 where
  "kSecondHashDelta = 0x7F4A7C15"

text \<open>
  The retry loop of both policies: seeds count up until a construction succeeds or the tries are
  used up.
\<close>

fun try_seeds :: "(u32 \<Rightarrow> 'a option option) \<Rightarrow> nat \<Rightarrow> u32 \<Rightarrow> 'a option option" where
  "try_seeds build 0 seed = Some None"
| "try_seeds build (Suc tries) seed =
     (case build seed of
        None \<Rightarrow> None
      | Some (Some encoded) \<Rightarrow> Some (Some encoded)
      | Some None \<Rightarrow> try_seeds build tries (seed + 1))"

section \<open>The trailer read back\<close>

lemma AppendFixed32_eq [simp]: "AppendFixed32 dst v = dst @ EncodeFixed32 v"
proof -
  have "(ucast (w AND 255) :: u8) = ucast w" for w :: u32
    by (rule bit_word_eqI) (auto simp: mask_simps bit_simps)
  then show ?thesis by (simp add: AppendFixed32_def EncodeFixed32_def)
qed

lemma length_AppendTrailer [simp, byte_simps]:
  "length (AppendTrailer magic dst seed n aux ty) = length dst + kTrailerSize"
  by (simp add: AppendTrailer_def kTrailerSize_def)

lemma take_AppendTrailer [simp, byte_simps]:
  "take (length dst) (AppendTrailer magic dst seed n aux ty) = dst"
  by (simp add: AppendTrailer_def)

lemma AppendTrailer_append: "AppendTrailer magic (dst @ xs) seed n aux ty
    = dst @ AppendTrailer magic xs seed n aux ty"
  by (simp add: AppendTrailer_def)

lemma read_trailer_Append [simp, roundtrip]:
  "read_trailer (AppendTrailer magic dst seed n aux ty) =
     \<lparr>tr_seed = seed, tr_slot_count = n, tr_aux = aux, tr_type = ty,
      tr_version = kFormatVersion, tr_magic = magic\<rparr>"
proof -
  have "AppendTrailer magic dst seed n aux ty
      = dst @ EncodeFixed32 seed @ EncodeFixed32 n @ [aux, ty, kFormatVersion, magic]"
    by (simp add: AppendTrailer_def)
  then show ?thesis
    by (simp add: read_trailer_def kTrailerSize_def Let_def nth_append)
qed

section \<open>Range reduction\<close>

lemma FastRange32_less:
  assumes "rng \<noteq> 0"
  shows "unat (FastRange32 hash rng) < unat rng"
proof -
  have h: "unat hash < 2 ^ 32" and r: "unat rng < 2 ^ 32"
    using unsigned_less [where ?'a = nat and 'b = 32] by simp_all
  have pos: "0 < unat rng" using assms by (simp add: unat_gt_0)
  have lt: "unat hash * unat rng < 2 ^ 32 * unat rng" using h pos by simp
  also have "\<dots> \<le> 2 ^ 32 * 2 ^ 32" using r by simp
  finally have prod: "unat (ucast hash * ucast rng :: u64) = unat hash * unat rng"
    using unat_mult_lem [of "ucast hash :: u64" "ucast rng"] by simp
  have q: "unat hash * unat rng div 2 ^ 32 < unat rng"
    using lt by (simp add: less_mult_imp_div_less mult.commute)
  have "unat (ucast (drop_bit 32 (ucast hash * ucast rng :: u64)) :: u32)
      = unat hash * unat rng div 2 ^ 32"
    unfolding unsigned_ucast_eq unat_drop_bit_div prod
    using order_less_trans [OF q r] by (simp add: take_bit_nat_eq_self)
  with q assms show ?thesis by (simp add: FastRange32_def)
qed

section \<open>The Bloom fallback has no false negatives\<close>

lemma and_not_7: "x AND NOT 7 = push_bit 3 (drop_bit 3 (x :: u64))"
proof (rule bit_word_eqI)
  fix n assume "n < LENGTH(64)"
  have m: "(7 :: u64) = mask 3" by (simp add: mask_eq_exp_minus_1)
  show "bit (x AND NOT 7) n = bit (push_bit 3 (drop_bit 3 x)) n"
    unfolding m using \<open>n < LENGTH(64)\<close> by (cases "3 \<le> n") (auto simp: bit_simps)
qed

lemma unat_and_not_7: "unat (x AND NOT 7 :: u64) = 8 * (unat x div 8)"
proof -
  have "8 * (unat x div 8) \<le> unat x" by simp
  also have "\<dots> < 2 ^ 64" using unsigned_less [of x, where ?'a = nat] by simp
  finally have "2 ^ 3 * unat (drop_bit 3 x) < 2 ^ LENGTH(64)" by (simp add: unat_drop_bit_div)
  then have "unat (push_bit 3 (drop_bit 3 x)) = 8 * (unat x div 8)"
    using unat_or_push_bit [of 0 3 "drop_bit 3 x"] by (simp add: unat_drop_bit_div)
  then show ?thesis by (simp only: and_not_7)
qed

lemma BloomBitCount_shape:
  assumes "BloomBitCount n b \<noteq> 0"
  shows "8 dvd unat (BloomBitCount n b)" and "64 \<le> unat (BloomBitCount n b)"
proof -
  define bits where "bits = (let bits = of_nat n * of_int b :: u64 in if bits < 64 then 64 else bits)"
  have bits: "64 \<le> unat bits"
  proof -
    have "64 \<le> bits" by (simp add: bits_def Let_def not_less)
    then show ?thesis by (simp add: word_le_nat_alt)
  qed
  have eq: "BloomBitCount n b = ucast ((bits + 7) AND NOT 7)"
    and small: "(bits + 7) AND NOT 7 \<le> 0xffffffff"
    using assms by (auto simp: BloomBitCount_def bits_def Let_def split: if_splits)
  have "unat ((bits + 7) AND NOT 7) < 2 ^ 32" using small by (simp add: word_le_nat_alt)
  then have val: "unat (BloomBitCount n b) = 8 * (unat (bits + 7) div 8)"
    by (simp only: eq unsigned_ucast_eq unat_and_not_7) (simp add: take_bit_nat_eq_self)
  then show "8 dvd unat (BloomBitCount n b)" by simp
  have "unat (BloomBitCount n b) \<noteq> 0" using assms by (simp add: unat_eq_zero)
  with val have "7 < unat (bits + 7)" by (cases "unat (bits + 7) < 8") auto
  then have "unat (bits + 7) = unat bits + 7"
    using unat_add_lem [of bits 7] unat_word_ariths(1) [of bits 7]
      unsigned_less [of bits, where ?'a = nat] by (simp add: mod_if split: if_splits)
  with bits have "64 \<le> unat (bits + 7)" by simp
  then have "64 div 8 \<le> unat (bits + 7) div 8" by (rule div_le_mono)
  then show "64 \<le> unat (BloomBitCount n b)" by (simp add: val)
qed

lemma BloomProbeCount_range: "1 \<le> BloomProbeCount b" "BloomProbeCount b \<le> 30"
  by (auto simp: BloomProbeCount_def Let_def)

lemma BloomMayMatch_built:
  assumes nz: "BloomBitCount (length hashes) b \<noteq> 0" and h: "h \<in> set hashes"
  defines "bc \<equiv> BloomBitCount (length hashes) b" and "k \<equiv> BloomProbeCount b"
  shows "BloomMayMatch h (add_hashes k hashes (unat bc) (replicate (unat (bc div 8)) 0)) bc (of_nat k)
    = Some True"
proof -
  define n where "n = unat (bc div 8)"
  have bc: "unat bc = 8 * n" "64 \<le> unat bc"
    using BloomBitCount_shape [OF nz] by (simp_all add: bc_def n_def unat_div)
  have k: "unat (of_nat k :: u8) = k" "1 \<le> k" "k \<le> 30"
    using BloomProbeCount_range [of b] by (simp_all add: k_def unat_of_nat_small)
  have "unat bc < 2 ^ 32" using unsigned_less [of bc, where ?'a = nat] by simp
  then have "unat bc + 7 < 2 ^ LENGTH(32)" using bc(1) by simp
  then have "unat (bc + 7) = 8 * n + 7" using unat_add_lem [of bc 7] bc(1) by simp
  then have "unat ((bc + 7) div 8) = n" by (simp add: unat_div)
  moreover have "check_probes k h (rotate_right_17 h) (8 * n) (add_hashes k hashes (8 * n) (replicate n 0))
      = Some True"
    using bc h by (intro check_add_hashes) auto
  ultimately show ?thesis
    using k by (simp add: BloomMayMatch_def bc(1) n_def [symmetric])
qed

text \<open>
  The guard of \<open>BloomMayMatch\<close> keeps the probes inside the payload, but for the bit counts whose
  rounded size wraps around.
\<close>

lemma BloomMayMatch_defined:
  assumes "bit_count < 0xfffffff9"
  shows "BloomMayMatch h payload bit_count probes \<noteq> None"
proof -
  have c: "unat bit_count < 0xfffffff9" using assms by (simp add: word_less_nat_alt)
  then have "unat (bit_count + 7) = unat bit_count + 7"
    using unat_add_lem [of bit_count 7] by simp
  then have "unat bit_count \<le> 8 * unat ((bit_count + 7) div 8)" by (simp add: unat_div)
  then have "check_probes k h d (unat bit_count) payload \<noteq> None"
    if "64 \<le> bit_count" "length payload = unat ((bit_count + 7) div 8)" for k d
    using that by (intro check_probes_defined) (auto simp: word_le_nat_alt)
  then show ?thesis by (auto simp: BloomMayMatch_def not_less)
qed

text \<open>
  A query of any byte string stays inside it, but for a Bloom encoding whose bit count is within
  7 of \<open>2 ^ 32\<close>, where the rounded size of the payload wraps around to 0.
\<close>

definition bloom_count_wraps :: "bytes \<Rightarrow> bool" where
  "bloom_count_wraps flt \<longleftrightarrow> kTrailerSize \<le> length flt
     \<and> tr_type (read_trailer flt) = kEncodingBloom \<and> 0xfffffff9 \<le> tr_slot_count (read_trailer flt)"

lemma BloomMayMatch_trailer:
  assumes "\<not> bloom_count_wraps flt" "\<not> length flt < kTrailerSize" "tr_type (read_trailer flt) = kEncodingBloom"
  shows "BloomMayMatch h payload (tr_slot_count (read_trailer flt)) a \<noteq> None"
  using assms by (intro BloomMayMatch_defined) (auto simp: bloom_count_wraps_def not_le not_less)

section \<open>The retry loop\<close>

lemma try_seeds_spec:
  assumes "\<And>seed. build seed = Some None \<or> (\<exists>f. build seed = Some (Some f) \<and> P f)"
  shows "try_seeds build tries seed = Some None \<or> (\<exists>f. try_seeds build tries seed = Some (Some f) \<and> P f)"
proof (induction tries arbitrary: seed)
  case (Suc tries)
  show ?case using assms [of seed] Suc.IH [of "seed + 1"] by auto
qed simp

section \<open>Properties\<close>

text \<open>
  The fields \<open>KeyMayMatch\<close> reads from the last 12 bytes of a filter are those \<open>AppendTrailer\<close>
  wrote, and the bytes before them are the payload.
\<close>

lemma trailer_roundtrip:
  "read_trailer (AppendTrailer magic payload seed n aux ty) =
     \<lparr>tr_seed = seed, tr_slot_count = n, tr_aux = aux, tr_type = ty,
      tr_version = kFormatVersion, tr_magic = magic\<rparr>
    \<and> take (length (AppendTrailer magic payload seed n aux ty) - kTrailerSize)
        (AppendTrailer magic payload seed n aux ty) = payload"
  by simp

text \<open>
  The multiply-shift reduction stays below its range for every hash, so the positions the
  filters derive from it are inside their tables.
\<close>

lemma fast_range_in_range:
  assumes "rng \<noteq> 0"
  shows "FastRange32 hash rng < rng"
  using FastRange32_less [OF assms] by (simp add: word_less_nat_alt)

end
