(* ===== verification/Ribbon.thy ===== *)
theory Ribbon
  imports Filter_Format
begin

text \<open>
  The Ribbon filter policy of \<open>util/ribbon_filter.cc\<close> (the PebblesDB engine carries the same
  code): every key gives a linear equation over bits, with 64 consecutive coefficients; the
  builder solves the system by on-the-fly elimination (banding) and back substitution, and stores
  the packed solution; a query evaluates the equation of its key. \<open>std::sort\<close> is modelled by the
  stable sort, but the correctness lemmas hold for the rows in any order.
\<close>

section \<open>Hash derivation\<close>

definition kRibbonWidth :: u32 where
  "kRibbonWidth = 64"

definition kRibbonMagic :: u8 where
  "kRibbonMagic = 0xB7"

definition kEncodingRibbon :: u8 where
  "kEncodingRibbon = 1"

definition kCoefficientSeedDelta :: u32 where
  "kCoefficientSeedDelta = 0x12345678"

function CountTrailingZeros64 :: "u64 \<Rightarrow> nat" where
  "CountTrailingZeros64 value =
     (if value = 0 \<or> value AND 1 \<noteq> 0 then 0 else Suc (CountTrailingZeros64 (drop_bit 1 value)))"
  by pat_completeness auto
termination
  by (relation "measure unat") (auto simp: unat_drop_bit_less simp del: drop_bit_eq_div)

declare CountTrailingZeros64.simps [simp del]

definition RibbonHash64 :: "bytes \<Rightarrow> u32 \<Rightarrow> u64" where
  "RibbonHash64 data seed =
     (let high = Hash data seed;
          low = Hash data (seed + kSecondHashDelta)
      in push_bit 32 (ucast high) OR ucast low)"

definition DeriveStart :: "u64 \<Rightarrow> u32 \<Rightarrow> u32" where
  "DeriveStart hash start_count = FastRange32 (ucast (drop_bit 32 hash)) start_count"

definition DeriveCoefficient :: "u64 \<Rightarrow> u64" where
  "DeriveCoefficient hash = hash OR 1"

definition DeriveResult :: "u64 \<Rightarrow> nat \<Rightarrow> u32" where
  "DeriveResult hash result_bits = ucast hash AND BitMask result_bits"

section \<open>Construction\<close>

record RibbonRow =
  row_start :: u32
  row_coefficients :: u64
  row_result :: u32

definition RibbonSlotCount :: "int \<Rightarrow> u32" where
  "RibbonSlotCount key_count =
     (if key_count \<le> 0 then 0
      else
        let slot_count =
              (if key_count < 64 then ucast (kRibbonWidth + of_int key_count)
               else (of_int key_count * 105 + 100 - 1) div 100 :: u64);
            slot_count = (if slot_count < 64 then 64 else slot_count)
        in if slot_count > 0xffffffff then 0 else ucast slot_count)"

definition make_row :: "u32 \<Rightarrow> nat \<Rightarrow> u32 \<Rightarrow> bytes \<Rightarrow> RibbonRow" where
  "make_row start_count result_bits seed key =
     (let result_hash = RibbonHash64 key seed;
          coefficient_hash = RibbonHash64 key (seed + kCoefficientSeedDelta)
      in \<lparr>row_start = DeriveStart result_hash start_count,
          row_coefficients = DeriveCoefficient coefficient_hash,
          row_result = DeriveResult result_hash result_bits\<rparr>)"

text \<open>
  The inner loop of the banding for one row. The outer \<open>None\<close> is an access out of range or a
  loop without end, the inner \<open>None\<close> is the failure the C++ reports by returning \<open>false\<close>.
\<close>

type_synonym band = "u64 list \<times> u32 list"

partial_function (option) band_row ::
    "u32 \<Rightarrow> band \<Rightarrow> u64 \<Rightarrow> u32 \<Rightarrow> u32 \<Rightarrow> band option option" where
  "band_row slot_count band coefficients result position =
     (if coefficients = 0 then Some (if result \<noteq> 0 then None else Some band)
      else
        let leading_zeroes = CountTrailingZeros64 coefficients;
            position = position + of_nat leading_zeroes;
            coefficients = drop_bit leading_zeroes coefficients
        in if position \<ge> slot_count then Some (if result \<noteq> 0 then None else Some band)
           else
             case rd (fst band) (unat position) of
               None \<Rightarrow> None
             | Some pivot \<Rightarrow>
                 if pivot = 0 then
                   (case upd (snd band) (unat position) (\<lambda>_. result) of
                      None \<Rightarrow> None
                    | Some pivot_results \<Rightarrow>
                        Some (Some ((fst band)[unat position := coefficients], pivot_results)))
                 else
                   (case rd (snd band) (unat position) of
                      None \<Rightarrow> None
                    | Some pivot_result \<Rightarrow>
                        band_row slot_count band (coefficients XOR pivot)
                          (result XOR pivot_result) position))"

declare band_row.simps [code]

fun band_rows :: "u32 \<Rightarrow> band \<Rightarrow> RibbonRow list \<Rightarrow> band option option" where
  "band_rows slot_count band [] = Some (Some band)"
| "band_rows slot_count band (row # rows) =
     (case band_row slot_count band (row_coefficients row) (row_result row) (row_start row) of
        None \<Rightarrow> None
      | Some None \<Rightarrow> Some None
      | Some (Some band) \<Rightarrow> band_rows slot_count band rows)"

text \<open>
  Back substitution. Positions and limits are C++ \<open>int\<close>s, so the number of slots is read as a
  signed number: \<open>slot_limit\<close> is \<open>static_cast<int>(slot_count)\<close>.
\<close>

function substitute_row ::
    "int \<Rightarrow> u32 list \<Rightarrow> nat \<Rightarrow> u64 \<Rightarrow> nat \<Rightarrow> u32 \<Rightarrow> u32 option" where
  "substitute_row slot_limit solution position remaining relative value =
     (if remaining \<noteq> 0 \<and> int (position + relative) < slot_limit then
        (case (if remaining AND 1 \<noteq> 0
               then map_option ((XOR) value) (rd solution (position + relative)) else Some value) of
           None \<Rightarrow> None
         | Some value \<Rightarrow>
             substitute_row slot_limit solution position (drop_bit 1 remaining) (relative + 1) value)
      else Some value)"
  by pat_completeness auto
termination
  by (relation "measure (\<lambda>(_, _, _, remaining, _, _). unat remaining)")
    (auto simp: unat_drop_bit_less simp del: drop_bit_eq_div)

declare substitute_row.simps [simp del]

text \<open>The argument counts the positions still to visit, from the last one down to 0.\<close>

fun back_substitute :: "int \<Rightarrow> nat \<Rightarrow> band \<Rightarrow> nat \<Rightarrow> u32 list \<Rightarrow> u32 list option" where
  "back_substitute slot_limit result_bits band 0 solution = Some solution"
| "back_substitute slot_limit result_bits band (Suc position) solution =
     (case rd (fst band) position of
        None \<Rightarrow> None
      | Some pivot \<Rightarrow>
          if pivot = 0 then back_substitute slot_limit result_bits band position solution
          else
            (case rd (snd band) position of
               None \<Rightarrow> None
             | Some pivot_result \<Rightarrow>
                 (case substitute_row slot_limit solution position (drop_bit 1 pivot) 1 pivot_result of
                    None \<Rightarrow> None
                  | Some value \<Rightarrow>
                      back_substitute slot_limit result_bits band position
                        (solution[position := value AND BitMask result_bits]))))"

definition solve_rows :: "u32 \<Rightarrow> nat \<Rightarrow> RibbonRow list \<Rightarrow> u32 list option option" where
  "solve_rows slot_count result_bits rows =
     (let n = unat slot_count in
      case band_rows slot_count (replicate n 0, replicate n 0) rows of
        None \<Rightarrow> None
      | Some None \<Rightarrow> Some None
      | Some (Some band) \<Rightarrow>
          map_option Some
            (back_substitute (sint slot_count) result_bits band (nat (sint slot_count))
              (replicate n 0)))"

definition TryBuildRibbon :: "bytes list \<Rightarrow> u32 \<Rightarrow> nat \<Rightarrow> u32 \<Rightarrow> bytes option option" where
  "TryBuildRibbon keys slot_count result_bits seed =
     (if slot_count < kRibbonWidth then Some None
      else
        let start_count = slot_count - kRibbonWidth + 1;
            rows = map (make_row start_count result_bits seed) keys;
            rows = sort_key row_start rows
        in map_option (map_option (\<lambda>solution.
             AppendTrailer kRibbonMagic (AppendPackedValues solution result_bits [])
               seed slot_count (of_nat result_bits) kEncodingRibbon))
           (solve_rows slot_count result_bits rows))"

section \<open>The policy\<close>

record RibbonFilterPolicy =
  rp_bits_per_key :: int
  rp_result_bits :: nat

definition ComputeResultBits :: "int \<Rightarrow> nat" where
  "ComputeResultBits bloom_equivalent_bits_per_key =
     (let result_bits = mul_ceil double_ln_2 bloom_equivalent_bits_per_key;
          result_bits = (if result_bits < 1 then 1 else result_bits)
      in nat (if result_bits > 16 then 16 else result_bits))"

definition MakeRibbonFilterPolicy :: "int \<Rightarrow> RibbonFilterPolicy" where
  "MakeRibbonFilterPolicy bloom_equivalent_bits_per_key =
     \<lparr>rp_bits_per_key = bloom_equivalent_bits_per_key,
      rp_result_bits = ComputeResultBits bloom_equivalent_bits_per_key\<rparr>"

definition NewRibbonFilterPolicy :: "int \<Rightarrow> RibbonFilterPolicy option" where
  "NewRibbonFilterPolicy bloom_equivalent_bits_per_key =
     (if bloom_equivalent_bits_per_key \<le> 0 then None
      else Some (MakeRibbonFilterPolicy bloom_equivalent_bits_per_key))"

definition RibbonBloomEncoding :: "bytes list \<Rightarrow> int \<Rightarrow> bytes" where
  "RibbonBloomEncoding keys bits_per_key =
     BuildBloomEncoding kRibbonMagic (map BloomHash keys) bits_per_key 0 []"

definition RibbonEncode :: "RibbonFilterPolicy \<Rightarrow> bytes list \<Rightarrow> bytes option" where
  "RibbonEncode policy keys =
     (let key_count = length keys;
          bits_per_key = rp_bits_per_key policy;
          result_bits = rp_result_bits policy in
      if key_count = 0 then Some (AppendTrailer kRibbonMagic [] 0 0 0 kEncodingEmpty)
      else
        let slot_count = RibbonSlotCount (int key_count) in
        if slot_count = 0 then Some (RibbonBloomEncoding keys bits_per_key)
        else
          let ribbon_size = PackedByteSize slot_count result_bits + kTrailerSize;
              bloom_size = EstimatedBloomSerializedSize key_count bits_per_key in
          if ribbon_size \<ge> bloom_size then Some (RibbonBloomEncoding keys bits_per_key)
          else
            case try_seeds (TryBuildRibbon keys slot_count result_bits) kMaxSeedTries 0 of
              None \<Rightarrow> None
            | Some (Some encoded) \<Rightarrow> Some encoded
            | Some None \<Rightarrow> Some (RibbonBloomEncoding keys bits_per_key))"

definition RibbonCreateFilter :: "RibbonFilterPolicy \<Rightarrow> bytes list \<Rightarrow> bytes \<Rightarrow> bytes option" where
  "RibbonCreateFilter policy keys dst = map_option ((@) dst) (RibbonEncode policy keys)"

text \<open>The evaluation loop of a query: \<open>None\<close> is the early \<open>return true\<close>.\<close>

function ribbon_eval :: "bytes \<Rightarrow> u32 \<Rightarrow> nat \<Rightarrow> u64 \<Rightarrow> u32 \<Rightarrow> u32 \<Rightarrow> u32 option" where
  "ribbon_eval payload slot_count result_bits coefficients position actual =
     (if coefficients \<noteq> 0 then
        let leading_zeroes = CountTrailingZeros64 coefficients;
            position = position + of_nat leading_zeroes;
            coefficients = drop_bit leading_zeroes coefficients
        in if position \<ge> slot_count then None
           else
             case ReadPackedValue payload position result_bits of
               None \<Rightarrow> None
             | Some value \<Rightarrow>
                 ribbon_eval payload slot_count result_bits (drop_bit 1 coefficients)
                   (position + 1) (actual XOR value)
      else Some actual)"
  by pat_completeness auto
termination
  by (relation "measure (\<lambda>(_, _, _, coefficients, _, _). unat coefficients)")
    (auto simp: unat_drop_bit_less simp del: drop_bit_eq_div)

declare ribbon_eval.simps [simp del]

definition RibbonKeyMayMatch :: "bytes \<Rightarrow> bytes \<Rightarrow> bool option" where
  "RibbonKeyMayMatch key flt =
     (if length flt < kTrailerSize then Some True
      else
        let tr = read_trailer flt;
            payload = take (length flt - kTrailerSize) flt;
            slot_count = tr_slot_count tr
        in if tr_magic tr \<noteq> kRibbonMagic \<or> tr_version tr \<noteq> kFormatVersion then Some True
           else if tr_type tr = kEncodingEmpty then Some (length payload \<noteq> 0)
           else if tr_type tr = kEncodingAlwaysMatch then Some True
           else if tr_type tr = kEncodingBloom then
             BloomMayMatch (BloomHash key) payload slot_count (tr_aux tr)
           else if tr_type tr \<noteq> kEncodingRibbon then Some True
           else
             let result_bits = unat (tr_aux tr) in
             if result_bits < 1 \<or> result_bits > 16 \<or> slot_count < kRibbonWidth
                \<or> length payload \<noteq> PackedByteSize slot_count result_bits then Some True
             else
               let start_count = slot_count - kRibbonWidth + 1;
                   row = make_row start_count result_bits (tr_seed tr) key
               in case ribbon_eval payload slot_count result_bits (row_coefficients row)
                         (row_start row) 0 of
                    None \<Rightarrow> Some True
                  | Some actual \<Rightarrow> Some (actual AND BitMask result_bits = row_result row))"

end
