(* ===== verification/Ribbon_Solver.thy ===== *)
theory Ribbon_Solver
  imports Ribbon
begin

text \<open>
  The linear algebra behind the Ribbon filter. A row is an equation over words under exclusive
  or; banding only ever replaces a row by its combination with stored pivots, so every
  assignment that satisfies the stored pivots satisfies every row it has seen
  (\<open>band_rows_spec\<close>); back substitution finds such an assignment (\<open>solve_rows_spec\<close>); the
  evaluation loop of a query computes the left-hand side of the row of its key at the packed
  solution (\<open>ribbon_eval_spec\<close>). All loops are shown to end inside their arrays.
\<close>

section \<open>Sums under exclusive or\<close>

fun xor_upto :: "nat \<Rightarrow> (nat \<Rightarrow> 'a::len word) \<Rightarrow> 'a word" where
  "xor_upto 0 f = 0"
| "xor_upto (Suc n) f = xor_upto n f XOR f n"

lemma xor_upto_xor: "xor_upto n (\<lambda>j. f j XOR g j) = xor_upto n f XOR xor_upto n g"
  by (induction n) (simp_all add: ac_simps)

lemma xor_upto_cong: "(\<And>j. j < n \<Longrightarrow> f j = g j) \<Longrightarrow> xor_upto n f = xor_upto n g"
  by (induction n) simp_all

lemma xor_upto_zero: "(\<And>j. j < n \<Longrightarrow> f j = 0) \<Longrightarrow> xor_upto n f = 0"
  by (induction n) simp_all

lemma xor_upto_add: "xor_upto (k + n) f = xor_upto k f XOR xor_upto n (\<lambda>j. f (k + j))"
  by (induction n) (simp_all add: ac_simps)

section \<open>The value of a row at an assignment\<close>

definition row_dot :: "u64 \<Rightarrow> nat \<Rightarrow> (nat \<Rightarrow> u32) \<Rightarrow> u32" where
  "row_dot c p s = xor_upto 64 (\<lambda>j. if bit c j then s (p + j) else 0)"

lemma row_dot_0 [simp]: "row_dot 0 p s = 0"
  by (simp add: row_dot_def xor_upto_zero)

lemma row_dot_xor: "row_dot (c XOR d) p s = row_dot c p s XOR row_dot d p s"
  unfolding row_dot_def xor_upto_xor [symmetric]
  by (rule xor_upto_cong) (auto simp: bit_simps)

lemma row_dot_cong: "(\<And>j. bit c j \<Longrightarrow> s (p + j) = t (p + j)) \<Longrightarrow> row_dot c p s = row_dot c p t"
  unfolding row_dot_def by (rule xor_upto_cong) auto

lemma row_dot_shift:
  assumes "\<And>j. j < k \<Longrightarrow> \<not> bit c j"
  shows "row_dot c p s = row_dot (drop_bit k c) (p + k) s"
proof (cases "k \<le> 64")
  case True
  define f where "f = (\<lambda>j. if bit c j then s (p + j) else 0)"
  have tail: "f j = 0" if "64 \<le> j" for j
    using that bit_imp_le_length [of c j] by (auto simp: f_def)
  have head: "xor_upto k f = 0" using assms by (intro xor_upto_zero) (simp add: f_def)
  have "row_dot c p s = xor_upto 64 f" by (simp add: row_dot_def f_def)
  also have "\<dots> = xor_upto 64 f XOR xor_upto k (\<lambda>j. f (64 + j))"
    using tail by (simp add: xor_upto_zero)
  also have "\<dots> = xor_upto (64 + k) f" by (simp only: xor_upto_add)
  also have "\<dots> = xor_upto (k + 64) f" by (simp only: add.commute)
  also have "\<dots> = xor_upto 64 (\<lambda>j. f (k + j))" by (simp only: xor_upto_add head) simp
  also have "\<dots> = row_dot (drop_bit k c) (p + k) s"
    unfolding row_dot_def f_def by (rule xor_upto_cong) (simp add: bit_simps ac_simps)
  finally show ?thesis .
next
  case False
  then have "c = 0" using assms by (intro bit_word_eqI) simp
  then show ?thesis by simp
qed

lemma row_dot_head:
  "row_dot c p s = (if bit c 0 then s p else 0) XOR row_dot (drop_bit 1 c) (p + 1) s"
proof -
  define f where "f = (\<lambda>j. if bit c j then s (p + j) else 0)"
  have "row_dot c p s = xor_upto (1 + 63) f" by (simp add: row_dot_def f_def)
  also have "\<dots> = f 0 XOR xor_upto 63 (\<lambda>j. f (1 + j))" by (simp only: xor_upto_add) simp
  also have "\<dots> = f 0 XOR xor_upto (Suc 63) (\<lambda>j. f (1 + j))"
  proof -
    have "f (1 + 63) = 0" using bit_imp_le_length [of c 64] by (auto simp: f_def)
    then show ?thesis by (simp only: xor_upto.simps(2)) simp
  qed
  also have "xor_upto (Suc 63) (\<lambda>j. f (1 + j)) = row_dot (drop_bit 1 c) (p + 1) s"
    unfolding row_dot_def f_def by (simp only: bit_drop_bit_eq o_apply add.assoc) simp
  finally show ?thesis by (simp add: f_def)
qed

section \<open>Trailing zeroes\<close>

lemma and_1_iff_bit: "(c AND 1 \<noteq> 0) = bit (c :: 'a::len word) 0"
  using and_exp_eq_0_iff_not_bit [of c 0] by simp

lemma CountTrailingZeros64_spec:
  "c \<noteq> 0 \<Longrightarrow> bit c (CountTrailingZeros64 c) \<and> (\<forall>j < CountTrailingZeros64 c. \<not> bit c j)"
proof (induction c rule: CountTrailingZeros64.induct)
  case (1 c)
  show ?case
  proof (cases "bit c 0")
    case True
    then show ?thesis by (simp only: CountTrailingZeros64.simps [of c] and_1_iff_bit) simp
  next
    case False
    have nz: "drop_bit 1 c \<noteq> 0"
    proof
      assume *: "drop_bit 1 c = 0"
      have "\<not> bit c n" for n
        using arg_cong [OF *, of "\<lambda>w. bit w (n - 1)"] False by (cases n) (simp_all add: bit_simps)
      then have "c = 0" by (intro bit_word_eqI) simp
      with 1 show False by simp
    qed
    have z: "CountTrailingZeros64 c = Suc (CountTrailingZeros64 (drop_bit 1 c))"
      using False 1(2) by (simp only: CountTrailingZeros64.simps [of c] and_1_iff_bit) simp
    from 1(1) nz 1(2) False have IH: "bit (drop_bit 1 c) (CountTrailingZeros64 (drop_bit 1 c))"
      "\<And>j. j < CountTrailingZeros64 (drop_bit 1 c) \<Longrightarrow> \<not> bit (drop_bit 1 c) j"
      by (simp_all only: and_1_iff_bit) blast+
    have "\<not> bit c j" if "j < Suc (CountTrailingZeros64 (drop_bit 1 c))" for j
      using that IH(2) [of "j - 1"] False by (cases j) (simp_all add: bit_simps)
    with IH(1) show ?thesis by (simp add: z bit_drop_bit_eq)
  qed
qed

lemmas ctz_bit = CountTrailingZeros64_spec [THEN conjunct1]

lemma ctz_below: "c \<noteq> 0 \<Longrightarrow> j < CountTrailingZeros64 c \<Longrightarrow> \<not> bit c j"
  using CountTrailingZeros64_spec by blast

lemma row_dot_ctz:
  "c \<noteq> 0 \<Longrightarrow> row_dot (drop_bit (CountTrailingZeros64 c) c) (p + CountTrailingZeros64 c) s = row_dot c p s"
  by (rule row_dot_shift [symmetric]) (rule ctz_below)

section \<open>Banding\<close>

text \<open>
  The shape of a band of \<open>n\<close> slots: stored coefficients are odd, reach no slot past the end, and
  stored results fit the result width.
\<close>

definition band_ok :: "nat \<Rightarrow> nat \<Rightarrow> band \<Rightarrow> bool" where
  "band_ok n b band \<longleftrightarrow> length (fst band) = n \<and> length (snd band) = n
     \<and> (\<forall>p < n. fst band ! p \<noteq> 0 \<longrightarrow>
          bit (fst band ! p) 0 \<and> (\<forall>j. bit (fst band ! p) j \<longrightarrow> p + j < n)
          \<and> take_bit b (snd band ! p) = snd band ! p)"

definition band_solves :: "(nat \<Rightarrow> u32) \<Rightarrow> band \<Rightarrow> bool" where
  "band_solves s band \<longleftrightarrow>
     (\<forall>p < length (fst band). fst band ! p \<noteq> 0 \<longrightarrow> row_dot (fst band ! p) p s = snd band ! p)"

text \<open>What one call of \<open>band_row\<close> establishes, whether it stores the row, drops it or fails.\<close>

definition band_row_post :: "nat \<Rightarrow> nat \<Rightarrow> band \<Rightarrow> u64 \<Rightarrow> u32 \<Rightarrow> nat \<Rightarrow> band option option \<Rightarrow> bool" where
  "band_row_post n b band c r p res \<longleftrightarrow>
     (case res of
        None \<Rightarrow> False
      | Some None \<Rightarrow> True
      | Some (Some band') \<Rightarrow>
          band_ok n b band' \<and> (\<forall>s. band_solves s band' \<longrightarrow> band_solves s band \<and> row_dot c p s = r))"

lemma band_ok_store:
  assumes "band_ok n b band" "p < n" "bit c 0" "\<And>j. bit c j \<Longrightarrow> p + j < n" "take_bit b r = r"
  shows "band_ok n b ((fst band)[p := c], (snd band)[p := r])"
  using assms by (auto simp: band_ok_def nth_list_update)

lemma band_solves_store:
  assumes "band_ok n b band" "p < n" "fst band ! p = 0" "c \<noteq> 0"
    and "band_solves s ((fst band)[p := c], (snd band)[p := r])"
  shows "band_solves s band \<and> row_dot c p s = r"
proof
  have len: "length (fst band) = n" "length (snd band) = n" using assms(1) by (auto simp: band_ok_def)
  show "row_dot c p s = r" using assms(2,4,5) len by (auto simp: band_solves_def)
  show "band_solves s band"
    unfolding band_solves_def
  proof (intro allI impI)
    fix q assume q: "q < length (fst band)" "fst band ! q \<noteq> 0"
    then have "q \<noteq> p" using assms(3) by auto
    with q assms(5) show "row_dot (fst band ! q) q s = snd band ! q"
      by (auto simp: band_solves_def dest: spec [of _ q])
  qed
qed

lemma band_row_spec:
  assumes "band_ok (unat slots) b band" "\<And>j. bit c j \<Longrightarrow> unat pos + j < unat slots" "take_bit b r = r"
  shows "band_row_post (unat slots) b band c r (unat pos) (band_row slots band c r pos)"
  using assms(2,3)
proof (induction "2 * (unat slots - unat pos) + (if bit c 0 then 1 else 0)"
    arbitrary: c r pos rule: less_induct)
  case less
  show ?case
  proof (cases "c = 0")
    case True
    then show ?thesis
      using assms(1) by (simp add: band_row.simps [of slots] band_row_post_def)
  next
    case False
    define z where "z = CountTrailingZeros64 c"
    define q where "q = unat pos + z"
    define d where "d = drop_bit z c"
    have "bit c z" using False by (simp add: z_def ctz_bit)
    then have q: "q < unat slots" using less.prems(1) by (simp add: q_def)
    then have "q < 2 ^ LENGTH(32)" using unsigned_less [of slots, where ?'a = nat] by (rule order_less_trans)
    then have uq: "unat (pos + of_nat z) = q"
      using unat_of_nat_small [of q, where 'a = 32] by (simp add: q_def)
    have d0: "bit d 0" using \<open>bit c z\<close> by (simp only: d_def bit_drop_bit_eq o_apply) simp
    then have "d \<noteq> 0" by auto
    with d0 have d: "bit d 0" "d \<noteq> 0" "\<And>j. bit d j \<Longrightarrow> q + j < unat slots"
      using less.prems(1) by (simp_all add: d_def q_def bit_drop_bit_eq add.assoc)
    have dot: "row_dot d q s = row_dot c (unat pos) s" for s
      using False by (simp add: d_def q_def z_def row_dot_ctz)
    have len: "length (fst band) = unat slots" "length (snd band) = unat slots"
      using assms(1) by (auto simp: band_ok_def)
    show ?thesis
    proof (cases "fst band ! q = 0")
      case True
      have "band_row slots band c r pos = Some (Some ((fst band)[q := d], (snd band)[q := r]))"
        using False q uq len True
        by (simp add: band_row.simps [of slots] z_def [symmetric] Let_def array_simps
            word_le_nat_alt d_def [symmetric])
      then show ?thesis
        using band_ok_store [OF assms(1) q d(1,3) less.prems(2)]
          band_solves_store [OF assms(1) q True d(2)]
        by (auto simp: band_row_post_def dot)
    next
      case pivot: False
      define pv where "pv = fst band ! q"
      define pr where "pr = snd band ! q"
      have ok: "bit pv 0" "\<And>j. bit pv j \<Longrightarrow> q + j < unat slots" "take_bit b pr = pr"
        using assms(1) q pivot by (auto simp: band_ok_def pv_def pr_def)
      have step: "band_row slots band c r pos = band_row slots band (d XOR pv) (r XOR pr) (pos + of_nat z)"
        using False q uq len pivot
        by (simp add: band_row.simps [of slots band c] z_def [symmetric] Let_def array_simps
            word_le_nat_alt d_def [symmetric] pv_def pr_def)
      have even: "\<not> bit (d XOR pv) 0" using d(1) ok(1) by (simp add: bit_xor_iff)
      have "band_row_post (unat slots) b band (d XOR pv) (r XOR pr) q
          (band_row slots band (d XOR pv) (r XOR pr) (pos + of_nat z))"
        unfolding uq [symmetric]
      proof (rule less.hyps)
        show "2 * (unat slots - unat (pos + of_nat z)) + (if bit (d XOR pv) 0 then 1 else 0)
            < 2 * (unat slots - unat pos) + (if bit c 0 then 1 else 0)"
          using even q False uq \<open>bit c z\<close> by (cases "z = 0") (auto simp: q_def)
        show "unat (pos + of_nat z) + j < unat slots" if "bit (d XOR pv) j" for j
          using that d(3) ok(2) uq by (auto simp: bit_xor_iff)
        show "take_bit b (r XOR pr) = r XOR pr"
          using less.prems(2) ok(3) by simp
      qed
      moreover have "row_dot c (unat pos) s = r"
        if "band_solves s band" "row_dot (d XOR pv) q s = r XOR pr" for s
      proof -
        have "row_dot pv q s = pr" using that(1) q pivot len by (auto simp: band_solves_def pv_def pr_def)
        with that(2) have "row_dot d q s XOR pr = r XOR pr" by (simp add: row_dot_xor)
        then have "row_dot d q s = r" by (simp only: xor_right_cancel)
        with dot show ?thesis by simp
      qed
      ultimately show ?thesis
        by (auto simp: step band_row_post_def split: option.splits)
    qed
  qed
qed

text \<open>All rows together: the failure and success cases of the whole banding.\<close>

definition row_ok :: "nat \<Rightarrow> nat \<Rightarrow> RibbonRow \<Rightarrow> bool" where
  "row_ok n b row \<longleftrightarrow> unat (row_start row) + 63 < n \<and> take_bit b (row_result row) = row_result row"

definition row_holds :: "(nat \<Rightarrow> u32) \<Rightarrow> RibbonRow \<Rightarrow> bool" where
  "row_holds s row \<longleftrightarrow> row_dot (row_coefficients row) (unat (row_start row)) s = row_result row"

lemma row_ok_bits: "row_ok n b row \<Longrightarrow> bit (row_coefficients row) j \<Longrightarrow> unat (row_start row) + j < n"
  using bit_imp_le_length [of "row_coefficients row" j] by (auto simp: row_ok_def)

lemma band_rows_spec:
  assumes "band_ok (unat slots) b band" "\<forall>row \<in> set rows. row_ok (unat slots) b row"
  shows "band_rows slots band rows = Some None
    \<or> (\<exists>band'. band_rows slots band rows = Some (Some band') \<and> band_ok (unat slots) b band'
        \<and> (\<forall>s. band_solves s band' \<longrightarrow> band_solves s band \<and> (\<forall>row \<in> set rows. row_holds s row)))"
  using assms
proof (induction rows arbitrary: band)
  case Nil
  then show ?case by simp
next
  case (Cons row rows)
  have "band_row_post (unat slots) b band (row_coefficients row) (row_result row) (unat (row_start row))
      (band_row slots band (row_coefficients row) (row_result row) (row_start row))"
    using Cons.prems by (intro band_row_spec) (auto simp: row_ok_bits, simp add: row_ok_def)
  then consider "band_row slots band (row_coefficients row) (row_result row) (row_start row) = Some None"
    | band1 where "band_row slots band (row_coefficients row) (row_result row) (row_start row)
        = Some (Some band1)" "band_ok (unat slots) b band1"
        "\<forall>s. band_solves s band1 \<longrightarrow> band_solves s band \<and> row_holds s row"
    by (auto simp: band_row_post_def row_holds_def split: option.splits)
  then show ?case
  proof cases
    case 1
    then show ?thesis by simp
  next
    case 2
    with Cons.IH [OF 2(2)] Cons.prems(2) show ?thesis by auto
  qed
qed

lemma band_ok_empty: "band_ok n b (replicate n 0, replicate n 0)"
  by (simp add: band_ok_def)

section \<open>Back substitution\<close>

definition as_assignment :: "u32 list \<Rightarrow> nat \<Rightarrow> u32" where
  "as_assignment sol i = (if i < length sol then sol ! i else 0)"

lemma substitute_row_spec:
  assumes "\<And>j. bit c j \<Longrightarrow> p + rel + j < length sol"
  shows "substitute_row (int (length sol)) sol p c rel v
    = Some (v XOR row_dot c (p + rel) (as_assignment sol))"
  using assms
proof (induction "int (length sol)" sol p c rel v rule: substitute_row.induct)
  case (1 sol p c rel v)
  show ?case
  proof (cases "c = 0")
    case True
    then show ?thesis by (simp add: substitute_row.simps [of "int (length sol)" sol p 0])
  next
    case False
    have "bit c (CountTrailingZeros64 c)" using False by (rule ctz_bit)
    then have "p + rel + CountTrailingZeros64 c < length sol" by (rule 1(2))
    then have in_range: "p + rel < length sol" by simp
    define v' where "v' = (if c AND 1 \<noteq> 0 then v XOR sol ! (p + rel) else v)"
    have pick: "(if c AND 1 \<noteq> 0 then map_option ((XOR) v) (rd sol (p + rel)) else Some v) = Some v'"
      using in_range by (simp add: v'_def array_simps)
    have "substitute_row (int (length sol)) sol p (drop_bit 1 c) (rel + 1) v'
        = Some (v' XOR row_dot (drop_bit 1 c) (p + (rel + 1)) (as_assignment sol))"
    proof (rule 1(1))
      show "c \<noteq> 0 \<and> int (p + rel) < int (length sol)" using False in_range by simp
      show "(if c AND 1 \<noteq> 0 then map_option ((XOR) v) (rd sol (p + rel)) else Some v) = Some v'"
        by (rule pick)
      show "p + (rel + 1) + j < length sol" if "bit (drop_bit 1 c) j" for j
        using that 1(2) [of "1 + j"] by (simp add: bit_drop_bit_eq)
    qed
    moreover have "v' XOR row_dot (drop_bit 1 c) (p + (rel + 1)) (as_assignment sol)
        = v XOR row_dot c (p + rel) (as_assignment sol)"
      using in_range
      by (simp only: row_dot_head [of c] v'_def and_1_iff_bit) (simp add: as_assignment_def ac_simps)
    ultimately show ?thesis
      using False in_range pick
      by (simp add: substitute_row.simps [of "int (length sol)" sol p c rel])
  qed
qed

lemma take_bit_row_dot:
  "(\<And>i. take_bit b (s i) = s i) \<Longrightarrow> take_bit b (row_dot c p s) = row_dot c p s"
proof -
  assume s: "\<And>i. take_bit b (s i) = s i"
  have "take_bit b (xor_upto n f) = xor_upto n f" if "\<And>j. take_bit b (f j) = f j" for n and f :: "nat \<Rightarrow> u32"
    using that by (induction n) simp_all
  then show ?thesis using s by (simp add: row_dot_def)
qed

definition solution_ok :: "nat \<Rightarrow> nat \<Rightarrow> u32 list \<Rightarrow> bool" where
  "solution_ok n b sol \<longleftrightarrow> length sol = n \<and> (\<forall>i. take_bit b (as_assignment sol i) = as_assignment sol i)"

definition solved_from :: "nat \<Rightarrow> band \<Rightarrow> u32 list \<Rightarrow> bool" where
  "solved_from k band sol \<longleftrightarrow>
     (\<forall>p. k \<le> p \<and> p < length (fst band) \<and> fst band ! p \<noteq> 0
        \<longrightarrow> row_dot (fst band ! p) p (as_assignment sol) = snd band ! p)"

lemma as_assignment_update:
  "as_assignment (sol[p := v]) i = (if i = p \<and> p < length sol then v else as_assignment sol i)"
  by (auto simp: as_assignment_def)

lemma solved_step:
  assumes band: "band_ok n b band" and sol: "solution_ok n b sol" "solved_from (Suc p) band sol"
    and p: "p < n" "fst band ! p \<noteq> 0"
  defines "v \<equiv> snd band ! p XOR row_dot (drop_bit 1 (fst band ! p)) (p + 1) (as_assignment sol)"
  shows "solution_ok n b (sol[p := v AND BitMask b])" "solved_from p band (sol[p := v AND BitMask b])"
proof -
  have pr: "take_bit b (snd band ! p) = snd band ! p" and c0: "bit (fst band ! p) 0"
    using band p by (auto simp: band_ok_def)
  have "take_bit b v = v"
    using sol(1) pr by (simp add: v_def solution_ok_def take_bit_row_dot)
  then have v: "v AND BitMask b = v" by (simp add: mask_simps)
  have len: "length sol = n" "length (fst band) = n"
    using band sol(1) by (auto simp: band_ok_def solution_ok_def)
  show "solution_ok n b (sol[p := v AND BitMask b])"
    using sol(1) \<open>take_bit b v = v\<close> by (auto simp: solution_ok_def as_assignment_update v)
  have later: "row_dot c q (as_assignment (sol[p := v])) = row_dot c q (as_assignment sol)"
    if "p < q" for c q
    using that by (intro row_dot_cong) (simp add: as_assignment_update)
  have "as_assignment (sol[p := v]) p = v" using p(1) len by (simp add: as_assignment_update)
  then have "row_dot (fst band ! p) p (as_assignment (sol[p := v]))
      = v XOR row_dot (drop_bit 1 (fst band ! p)) (p + 1) (as_assignment sol)"
    using c0 by (simp only: row_dot_head [of "fst band ! p" p] later [OF less_add_one]) simp
  then have here: "row_dot (fst band ! p) p (as_assignment (sol[p := v])) = snd band ! p"
    by (simp only: v_def xor.assoc xor_self_eq xor.right_neutral)
  show "solved_from p band (sol[p := v AND BitMask b])"
    unfolding solved_from_def v
  proof (intro allI impI)
    fix q assume q: "p \<le> q \<and> q < length (fst band) \<and> fst band ! q \<noteq> 0"
    show "row_dot (fst band ! q) q (as_assignment (sol[p := v])) = snd band ! q"
    proof (cases "q = p")
      case False
      with q sol(2) show ?thesis by (simp add: later solved_from_def)
    qed (simp add: here)
  qed
qed

lemma back_substitute_spec:
  assumes "band_ok n b band" "k \<le> n" "solution_ok n b sol" "solved_from k band sol"
  shows "\<exists>sol'. back_substitute (int n) b band k sol = Some sol' \<and> solution_ok n b sol'
    \<and> solved_from 0 band sol'"
  using assms(2-4)
proof (induction k arbitrary: sol)
  case (Suc p)
  have len: "length (fst band) = n" "length (snd band) = n" "length sol = n" "p < n"
    using assms(1) Suc.prems by (auto simp: band_ok_def solution_ok_def)
  show ?case
  proof (cases "fst band ! p = 0")
    case True
    have "solved_from p band sol"
      unfolding solved_from_def
    proof (intro allI impI)
      fix q assume q: "p \<le> q \<and> q < length (fst band) \<and> fst band ! q \<noteq> 0"
      with True have "Suc p \<le> q" by (cases "q = p") auto
      with q Suc.prems(3) show "row_dot (fst band ! q) q (as_assignment sol) = snd band ! q"
        by (simp add: solved_from_def)
    qed
    with Suc True len show ?thesis by (simp add: array_simps)
  next
    case False
    define v where "v = snd band ! p XOR row_dot (drop_bit 1 (fst band ! p)) (p + 1) (as_assignment sol)"
    have reach: "p + 1 + j < length sol" if "bit (drop_bit 1 (fst band ! p)) j" for j
    proof -
      have "bit (fst band ! p) (1 + j)" using that by (simp add: bit_drop_bit_eq)
      then have "p + (1 + j) < n" using assms(1) False len(4) unfolding band_ok_def by blast
      with len(3) show ?thesis by simp
    qed
    have "substitute_row (int n) sol p (drop_bit 1 (fst band ! p)) 1 (snd band ! p) = Some v"
      using substitute_row_spec [OF reach, where v = "snd band ! p"] len(3) by (simp add: v_def)
    then have "back_substitute (int n) b band (Suc p) sol
        = back_substitute (int n) b band p (sol[p := v AND BitMask b])"
      using False len by (simp add: array_simps)
    with Suc.IH [OF _ solved_step(1,2)] show ?thesis
      using assms(1) Suc.prems False len v_def by auto
  qed
qed simp

section \<open>The whole construction\<close>

lemma sint_small:
  assumes "unat (w :: u32) < 2 ^ 31"
  shows "sint w = int (unat w)"
proof -
  have "int (unat w) < int (2 ^ 31)" using assms by (simp only: of_nat_less_iff)
  then have "uint w < 2 ^ 31" by simp
  moreover have "- (2 ^ 31) \<le> uint w" by (rule order_trans [OF _ uint_ge_0]) simp
  ultimately have "signed_take_bit 31 (uint w) = uint w" by (intro signed_take_bit_int_eq_self)
  then show ?thesis by (simp add: sint_uint)
qed

text \<open>
  Below \<open>2 ^ 31\<close> slots the construction either reports failure or returns a solution of every
  row, whatever the order of the rows.
\<close>

lemma solve_rows_spec:
  assumes small: "unat slots < 2 ^ 31" and rows: "\<forall>row \<in> set rows. row_ok (unat slots) b row"
  shows "solve_rows slots b rows = Some None
    \<or> (\<exists>sol. solve_rows slots b rows = Some (Some sol) \<and> solution_ok (unat slots) b sol
        \<and> (\<forall>row \<in> set rows. row_holds (as_assignment sol) row))"
proof -
  define n where "n = unat slots"
  have sint: "sint slots = int n" using small by (simp add: n_def sint_small)
  have sol0: "solution_ok n b (replicate n 0)" by (auto simp: solution_ok_def as_assignment_def)
  consider "band_rows slots (replicate n 0, replicate n 0) rows = Some None"
    | band where "band_rows slots (replicate n 0, replicate n 0) rows = Some (Some band)" "band_ok n b band"
        "\<And>s. band_solves s band \<Longrightarrow> \<forall>row \<in> set rows. row_holds s row"
    using band_rows_spec [OF band_ok_empty rows] by (auto simp: n_def)
  then show ?thesis
  proof cases
    case 1
    then show ?thesis by (simp add: solve_rows_def n_def [symmetric])
  next
    case 2
    have "solved_from n band (replicate n 0)"
      using 2(2) by (auto simp: solved_from_def band_ok_def)
    from back_substitute_spec [OF 2(2) order_refl sol0 this] obtain sol where
      sol: "back_substitute (int n) b band n (replicate n 0) = Some sol" "solution_ok n b sol"
        "solved_from 0 band sol" by auto
    from sol(3) have "band_solves (as_assignment sol) band"
      by (auto simp: solved_from_def band_solves_def)
    with 2 sol show ?thesis by (simp add: solve_rows_def n_def [symmetric] sint)
  qed
qed

section \<open>Rows and their evaluation\<close>

lemma make_row_ok:
  assumes "kRibbonWidth \<le> slots"
  shows "row_ok (unat slots) b (make_row (slots - kRibbonWidth + 1) b seed key)"
proof -
  have s: "64 \<le> unat slots" "unat slots < 2 ^ 32"
    using assms unsigned_less [of slots, where ?'a = nat] by (simp_all add: kRibbonWidth_def word_le_nat_alt)
  have "unat (slots - 63) = unat slots - 63"
    using s by (intro unat_sub [of 63 slots, simplified]) (simp add: word_le_nat_alt)
  then have "unat (slots - kRibbonWidth + 1) = unat slots - 63"
    by (simp add: kRibbonWidth_def)
  moreover from this s have "unat (slots - kRibbonWidth + 1) \<noteq> 0" by linarith
  then have "slots - kRibbonWidth + 1 \<noteq> 0" by auto
  ultimately show ?thesis
    using s FastRange32_less [of "slots - kRibbonWidth + 1"]
    by (auto simp: row_ok_def make_row_def Let_def DeriveStart_def DeriveResult_def mask_simps
        intro!: less_diff_conv [THEN iffD1])
qed

lemma ribbon_eval_spec:
  assumes b: "0 < b" "b \<le> 16" and sol: "solution_ok (unat slots) b sol"
    and "\<And>j. bit c j \<Longrightarrow> unat pos + j < unat slots"
  shows "ribbon_eval (AppendPackedValues sol b []) slots b c pos a
    = Some (a XOR row_dot c (unat pos) (as_assignment sol))"
  using assms(4)
proof (induction "unat c" arbitrary: c pos a rule: less_induct)
  case less
  show ?case
  proof (cases "c = 0")
    case True
    then show ?thesis by (simp add: ribbon_eval.simps)
  next
    case False
    define z where "z = CountTrailingZeros64 c"
    define q where "q = unat pos + z"
    define d where "d = drop_bit z c"
    have "bit c z" using False by (simp add: z_def ctz_bit)
    then have q: "q < unat slots" using less.prems by (simp add: q_def)
    have "unat slots < 2 ^ 32" using unsigned_less [of slots, where ?'a = nat] by simp
    with q have "Suc q < 2 ^ LENGTH(32)" by simp
    moreover have "pos + of_nat z = of_nat q" "pos + of_nat z + 1 = of_nat (Suc q)"
      by (simp_all add: q_def)
    ultimately have uq: "unat (pos + of_nat z) = q" "unat (pos + of_nat z + 1) = q + 1"
      by (simp_all only: unat_of_nat_small [OF Suc_lessD] unat_of_nat_small)
    have d: "bit d 0" "row_dot d q s = row_dot c (unat pos) s" for s
      using \<open>bit c z\<close> False by (simp_all add: d_def q_def z_def row_dot_ctz bit_drop_bit_eq)
    have len: "length sol = unat slots" using sol by (simp add: solution_ok_def)
    have "take_bit b (sol ! q) = sol ! q" using sol q len by (auto simp: solution_ok_def as_assignment_def split: if_splits)
    then have rdv: "ReadPackedValue (AppendPackedValues sol b []) (pos + of_nat z) b = Some (sol ! q)"
      using ReadPackedValue_Append [OF b, of "pos + of_nat z" sol] q len uq(1) by simp
    have "d \<noteq> 0" using d(1) by auto
    then have "unat (drop_bit 1 d) < unat d" by (intro unat_drop_bit_less) simp_all
    also have "unat d \<le> unat c" by (simp only: d_def unat_drop_bit_div div_le_dividend)
    finally have small: "unat (drop_bit 1 d) < unat c" .
    have "ribbon_eval (AppendPackedValues sol b []) slots b (drop_bit 1 d) (pos + of_nat z + 1) (a XOR sol ! q)
       = Some ((a XOR sol ! q) XOR row_dot (drop_bit 1 d) (q + 1) (as_assignment sol))"
      unfolding uq(2) [symmetric]
    proof (rule less.hyps [OF small])
      show "unat (pos + of_nat z + 1) + j < unat slots" if "bit (drop_bit 1 d) j" for j
        using that less.prems [of "z + (1 + j)"] by (simp add: uq(2) d_def q_def bit_drop_bit_eq)
    qed
    moreover have "(a XOR sol ! q) XOR row_dot (drop_bit 1 d) (q + 1) (as_assignment sol)
        = a XOR row_dot c (unat pos) (as_assignment sol)"
      using d(1) q len by (simp only: d(2) [symmetric] row_dot_head [of d q]) (simp add: as_assignment_def ac_simps)
    ultimately show ?thesis
      using False q uq rdv
      by (simp add: ribbon_eval.simps [of _ slots b c] z_def [symmetric] d_def [symmetric] Let_def word_le_nat_alt)
  qed
qed

section \<open>Properties\<close>

text \<open>
  C23: for rows that start at least 64 slots before the end of a table of fewer than \<open>2 ^ 31\<close> slots,
  banding and back substitution end inside their arrays and either report failure or return a
  table, masked to the result width, that satisfies the equation of every row.
\<close>

theorem ribbon_solution_solves:
  assumes "unat slots < 2 ^ 31"
    and "\<forall>row \<in> set rows. unat (row_start row) + 63 < unat slots \<and> take_bit b (row_result row) = row_result row"
  shows "solve_rows slots b rows = Some None
    \<or> (\<exists>sol. solve_rows slots b rows = Some (Some sol) \<and> length sol = unat slots
        \<and> (\<forall>row \<in> set rows. row_dot (row_coefficients row) (unat (row_start row)) ((!) sol)
             = row_result row))"
proof -
  have ok: "\<forall>row \<in> set rows. row_ok (unat slots) b row" using assms(2) by (simp add: row_ok_def)
  have "row_dot (row_coefficients row) (unat (row_start row)) ((!) sol)
      = row_dot (row_coefficients row) (unat (row_start row)) (as_assignment sol)"
    if "row \<in> set rows" "length sol = unat slots" for row sol
    using that ok row_ok_bits [of "unat slots" b row] by (intro row_dot_cong) (auto simp: as_assignment_def)
  then show ?thesis
    using solve_rows_spec [OF assms(1) ok] by (auto simp: solution_ok_def row_holds_def)
qed

theorem ribbon_solution_solves_witness:
  "solve_rows 64 4 [\<lparr>row_start = 0, row_coefficients = 5, row_result = 3\<rparr>] = Some None
    \<or> (\<exists>sol. solve_rows 64 4 [\<lparr>row_start = 0, row_coefficients = 5, row_result = 3\<rparr>] = Some (Some sol)
        \<and> row_dot 5 0 ((!) sol) = 3)"
  using ribbon_solution_solves [of 64 "[\<lparr>row_start = 0, row_coefficients = 5, row_result = 3\<rparr>]" 4]
  by (auto simp: take_bit_eq_mod)

end
