(* ===== verification/Ribbon_Policy.thy ===== *)
theory Ribbon_Policy
  imports Ribbon_Solver
begin

text \<open>
  The Ribbon policy as a provider of the filter contract: \<open>RibbonCreateFilter\<close> and
  \<open>RibbonKeyMayMatch\<close> interpret the locale \<open>filter_policy\<close> for every key list whose slot count
  stays a positive C++ \<open>int\<close>.
\<close>

lemma RibbonKeyMayMatch_Bloom:
  "RibbonKeyMayMatch key (AppendTrailer kRibbonMagic payload seed n aux kEncodingBloom)
    = BloomMayMatch (BloomHash key) payload n aux"
  by (simp add: RibbonKeyMayMatch_def Let_def kEncodingEmpty_def kEncodingAlwaysMatch_def
      kEncodingBloom_def)

lemma RibbonKeyMayMatch_Ribbon:
  assumes "0 < b" "b \<le> 16" "kRibbonWidth \<le> slots" "length payload = PackedByteSize slots b"
    and "row = make_row (slots - kRibbonWidth + 1) b seed key"
    and "ribbon_eval payload slots b (row_coefficients row) (row_start row) 0 = Some v"
  shows "RibbonKeyMayMatch key (AppendTrailer kRibbonMagic payload seed slots (of_nat b) kEncodingRibbon)
    = Some (v AND BitMask b = row_result row)"
proof -
  have "unat (of_nat b :: u8) = b" using assms(2) by (simp add: unat_of_nat_small)
  with assms show ?thesis
    by (simp add: RibbonKeyMayMatch_def Let_def kEncodingRibbon_def kEncodingEmpty_def
        kEncodingBloom_def kEncodingAlwaysMatch_def leD flip: assms(4))
qed

lemma TryBuildRibbon_spec:
  assumes b: "0 < b" "b \<le> 16" and slots: "unat slots < 2 ^ 31"
  shows "TryBuildRibbon keys slots b seed = Some None
    \<or> (\<exists>f. TryBuildRibbon keys slots b seed = Some (Some f)
        \<and> (\<forall>key \<in> set keys. RibbonKeyMayMatch key f = Some True))"
proof (cases "slots < kRibbonWidth")
  case False
  define rows where "rows = map (make_row (slots - kRibbonWidth + 1) b seed) keys"
  have ok: "\<forall>row \<in> set (sort_key row_start rows). row_ok (unat slots) b row"
    using False by (auto simp: rows_def make_row_ok)
  have build: "TryBuildRibbon keys slots b seed = map_option (map_option (\<lambda>solution.
      AppendTrailer kRibbonMagic (AppendPackedValues solution b []) seed slots (of_nat b) kEncodingRibbon))
      (solve_rows slots b (sort_key row_start rows))"
    using False by (simp add: TryBuildRibbon_def rows_def Let_def)
  have "RibbonKeyMayMatch key (AppendTrailer kRibbonMagic (AppendPackedValues sol b []) seed slots
      (of_nat b) kEncodingRibbon) = Some True"
    if sol: "solution_ok (unat slots) b sol" and key: "key \<in> set keys"
      and holds: "\<forall>row \<in> set (sort_key row_start rows). row_holds (as_assignment sol) row" for sol key
  proof -
    define row where "row = make_row (slots - kRibbonWidth + 1) b seed key"
    have row: "row_ok (unat slots) b row" "row_holds (as_assignment sol) row"
      using key ok holds by (auto simp: row_def rows_def)
    have "length (AppendPackedValues sol b []) = PackedByteSize slots b"
      using AppendPackedValues_spec [OF b, of sol "[]"] sol b
      by (auto simp: solution_ok_def PackedByteSize_eq mult.commute)
    moreover have "ribbon_eval (AppendPackedValues sol b []) slots b (row_coefficients row) (row_start row) 0
        = Some (row_result row)"
      using ribbon_eval_spec [OF b sol row_ok_bits [OF row(1)], where a = 0] row(2) by (simp add: row_holds_def)
    moreover have "row_result row AND BitMask b = row_result row"
      using row(1) by (simp add: row_ok_def mask_simps)
    ultimately show ?thesis
      using RibbonKeyMayMatch_Ribbon [OF b _ _ row_def] False by simp
  qed
  with solve_rows_spec [OF slots ok] build show ?thesis by auto
qed (simp add: TryBuildRibbon_def)

lemma RibbonBloomEncoding_match:
  assumes "key \<in> set keys"
  shows "RibbonKeyMayMatch key (RibbonBloomEncoding keys b) = Some True"
proof (cases "BloomBitCount (length keys) b = 0")
  case True
  then show ?thesis
    by (simp add: RibbonBloomEncoding_def BuildBloomEncoding_def RibbonKeyMayMatch_def
        kEncodingEmpty_def kEncodingAlwaysMatch_def)
next
  case False
  then have "BloomMayMatch (BloomHash key) (add_hashes (BloomProbeCount b) (map BloomHash keys)
      (unat (BloomBitCount (length keys) b))
      (replicate (unat (BloomBitCount (length keys) b div 8)) 0))
      (BloomBitCount (length keys) b) (of_nat (BloomProbeCount b)) = Some True"
    using BloomMayMatch_built [of "map BloomHash keys" b "BloomHash key"] assms by simp
  with False show ?thesis
    by (simp add: RibbonBloomEncoding_def BuildBloomEncoding_def RibbonKeyMayMatch_Bloom Let_def)
qed

definition ribbon_accepts :: "bytes list \<Rightarrow> bool" where
  "ribbon_accepts keys \<longleftrightarrow> length keys \<le> 2045222520"

lemma RibbonSlotCount_small:
  assumes "n \<le> 2045222520"
  shows "unat (RibbonSlotCount (int n)) < 2 ^ 31"
proof (cases "n < 64")
  case True
  then have n: "unat (of_nat n :: u32) = n" by (simp add: unat_of_nat_small)
  then have "unat (64 + of_nat n :: u32) = 64 + n"
    using True unat_add_lem [of "64 :: u32" "of_nat n"] by simp
  then have "unat (ucast (64 + of_nat n :: u32) :: u64) = 64 + n"
    by (simp add: unsigned_ucast_eq take_bit_nat_eq_self)
  with True show ?thesis
    by (simp add: RibbonSlotCount_def kRibbonWidth_def Let_def unsigned_ucast_eq word_less_nat_alt
        take_bit_nat_eq_self unat_take_bit_mod)
next
  case False
  have "(of_int (int n) * 105 + 100 - 1 :: u64) = of_nat (n * 105 + 99)" by simp
  moreover have "unat (of_nat (n * 105 + 99) :: u64) = n * 105 + 99"
    using assms by (intro unat_of_nat_small) simp
  ultimately have u: "unat ((of_int (int n) * 105 + 100 - 1 :: u64) div 100) = (n * 105 + 99) div 100"
    by (simp only: unat_div) simp
  have v: "(n * 105 + 99) div 100 < 2 ^ 31" "64 \<le> (n * 105 + 99) div 100" using assms False
    by (auto intro!: less_mult_imp_div_less)
  define w where "w = ((of_int (int n) * 105 + 100 - 1 :: u64) div 100)"
  have w: "unat w < 2 ^ 31" "64 \<le> unat w" using u v by (simp_all only: w_def)
  then have "\<not> w < 64" "\<not> w > 0xffffffff" "unat (ucast w :: u32) < 2 ^ 31"
    by (simp_all add: word_less_nat_alt unsigned_ucast_eq take_bit_nat_eq_self)
  with False show ?thesis
    by (simp only: RibbonSlotCount_def Let_def w_def [symmetric]) simp
qed

lemma ComputeResultBits_range: "0 < ComputeResultBits b" "ComputeResultBits b \<le> 16"
  by (auto simp: ComputeResultBits_def Let_def)

lemma RibbonEncode_spec:
  assumes "ribbon_accepts keys"
  shows "\<exists>f. RibbonEncode (MakeRibbonFilterPolicy b) keys = Some f
    \<and> (\<forall>key \<in> set keys. RibbonKeyMayMatch key f = Some True)"
proof -
  define slots where "slots = RibbonSlotCount (int (length keys))"
  define bits where "bits = ComputeResultBits b"
  have small: "unat slots < 2 ^ 31"
    using assms RibbonSlotCount_small by (simp add: slots_def ribbon_accepts_def)
  have "0 < bits" "bits \<le> 16" using ComputeResultBits_range by (simp_all add: bits_def)
  note tries = try_seeds_spec [where build = "TryBuildRibbon keys slots bits"
      and tries = kMaxSeedTries and seed = 0,
      OF TryBuildRibbon_spec [OF this small]]
  show ?thesis
  proof (cases "keys = []")
    case False
    with tries RibbonBloomEncoding_match [of _ keys b] show ?thesis
      by (auto simp: RibbonEncode_def MakeRibbonFilterPolicy_def Let_def slots_def [symmetric] bits_def [symmetric])
  qed (simp add: RibbonEncode_def Let_def)
qed

interpretation ribbon: filter_policy "RibbonCreateFilter (MakeRibbonFilterPolicy b)"
  RibbonKeyMayMatch ribbon_accepts for b
proof
  fix keys dst key f
  show "ribbon_accepts keys \<Longrightarrow> RibbonCreateFilter (MakeRibbonFilterPolicy b) keys [] \<noteq> None"
    using RibbonEncode_spec [of keys b] by (auto simp: RibbonCreateFilter_def)
  show "RibbonCreateFilter (MakeRibbonFilterPolicy b) keys dst
      = map_option ((@) dst) (RibbonCreateFilter (MakeRibbonFilterPolicy b) keys [])"
    by (simp add: RibbonCreateFilter_def option.map_comp o_def)
  show "ribbon_accepts keys \<Longrightarrow> key \<in> set keys
      \<Longrightarrow> RibbonCreateFilter (MakeRibbonFilterPolicy b) keys [] = Some f
      \<Longrightarrow> RibbonKeyMayMatch key f = Some True"
    using RibbonEncode_spec [of keys b] by (auto simp: RibbonCreateFilter_def)
qed

section \<open>Arbitrary filter bytes\<close>

lemma RibbonKeyMayMatch_total:
  "\<not> bloom_count_wraps flt \<Longrightarrow> RibbonKeyMayMatch key flt \<noteq> None"
proof -
  assume "\<not> bloom_count_wraps flt"
  from BloomMayMatch_trailer [OF this] show ?thesis by (simp add: RibbonKeyMayMatch_def Let_def del: not_None_eq split: option.split)
qed

section \<open>Tables of \<open>2 ^ 31\<close> slots and more\<close>

text \<open>
  \<open>static_cast<int>(slot_count)\<close> is negative from \<open>2 ^ 31\<close> slots on, and then the loop of the
  back substitution does not run: the solution that is stored is zero everywhere, and a key whose
  result hash is not zero does not match the filter made from it.
\<close>

lemma sint_large: "2 ^ 31 \<le> unat (w :: u32) \<Longrightarrow> nat (sint w) = 0"
proof -
  assume "2 ^ 31 \<le> unat w"
  then have "unat w div 2 ^ 31 = 1"
    using unsigned_less [of w, where ?'a = nat] by (intro div_nat_eqI) auto
  then have "bit (unat w) 31" by (simp add: bit_iff_odd)
  then have "bit w 31" by (simp only: bit_unsigned_iff)
  then have "sint w < 0" using bit_last_iff [of w] by simp
  then show ?thesis by simp
qed

lemma solve_rows_large:
  assumes "2 ^ 31 \<le> unat slots" and "solve_rows slots b rows = Some (Some sol)"
  shows "sol = replicate (unat slots) 0"
  using assms by (auto simp: solve_rows_def sint_large Let_def split: option.splits)

lemma row_dot_zero: "(\<And>i. s i = 0) \<Longrightarrow> row_dot c p s = 0"
  by (simp add: row_dot_def xor_upto_zero)

lemma large_table_false_negative:
  assumes b: "0 < b" "b \<le> 16" and large: "2 ^ 31 \<le> unat slots"
    and build: "TryBuildRibbon keys slots b seed = Some (Some f)"
    and row: "row_result (make_row (slots - kRibbonWidth + 1) b seed key) \<noteq> 0"
  shows "RibbonKeyMayMatch key f = Some False"
proof -
  have w: "kRibbonWidth \<le> slots" using large by (simp add: word_le_nat_alt kRibbonWidth_def)
  define sol :: "u32 list" where "sol = replicate (unat slots) 0"
  define r where "r = make_row (slots - kRibbonWidth + 1) b seed key"
  have f: "f = AppendTrailer kRibbonMagic (AppendPackedValues sol b []) seed slots (of_nat b) kEncodingRibbon"
    using build w solve_rows_large [OF large, of b]
    by (auto simp: TryBuildRibbon_def Let_def sol_def split: if_splits)
  have sol: "solution_ok (unat slots) b sol" by (auto simp: solution_ok_def sol_def as_assignment_def)
  have "ribbon_eval (AppendPackedValues sol b []) slots b (row_coefficients r) (row_start r) 0 = Some 0"
    using ribbon_eval_spec [OF b sol row_ok_bits [OF make_row_ok [OF w]], where a = 0]
    by (simp add: r_def) (simp add: row_dot_zero as_assignment_def sol_def)
  moreover have "length (AppendPackedValues sol b []) = PackedByteSize slots b"
    using AppendPackedValues_spec [OF b, of sol "[]"] sol b
    by (auto simp: solution_ok_def PackedByteSize_eq mult.commute)
  ultimately show ?thesis
    using RibbonKeyMayMatch_Ribbon [OF b w _ r_def] row by (simp add: f r_def)
qed

lemma single_key_builds:
  assumes w: "kRibbonWidth \<le> slots"
  shows "\<exists>f. TryBuildRibbon [key] slots b seed = Some (Some f)"
proof -
  define r where "r = make_row (slots - kRibbonWidth + 1) b seed key"
  define n where "n = unat slots"
  have odd: "bit (row_coefficients r) 0"
    by (simp add: r_def make_row_def Let_def DeriveCoefficient_def bit_or_iff)
  then have c: "row_coefficients r \<noteq> 0" "CountTrailingZeros64 (row_coefficients r) = 0"
    by (auto simp: CountTrailingZeros64.simps [of "row_coefficients r"] and_1_iff_bit)
  have st: "unat (row_start r) + 63 < n" using make_row_ok [OF w] by (simp add: row_ok_def r_def n_def)
  define band where "band = ((replicate n 0)[unat (row_start r) := row_coefficients r],
      (replicate n 0)[unat (row_start r) := row_result r])"
  have "band_row slots (replicate n 0, replicate n 0) (row_coefficients r) (row_result r) (row_start r)
      = Some (Some band)"
    using c st by (simp add: band_row.simps Let_def array_simps word_le_nat_alt n_def [symmetric] band_def)
  then have rows: "band_rows slots (replicate n 0, replicate n 0) [r] = Some (Some band)" by simp
  show ?thesis
  proof (cases "2 ^ 31 \<le> n")
    case True
    with rows w show ?thesis
      by (simp add: TryBuildRibbon_def solve_rows_def Let_def sint_large n_def [symmetric] r_def [symmetric] leD)
  next
    case False
    have "solve_rows slots b [r] \<noteq> Some None"
      using rows by (simp add: solve_rows_def n_def [symmetric] Let_def)
    with solve_rows_spec [of slots "[r]" b] False make_row_ok [OF w, of b seed key]
    obtain sol where "solve_rows slots b [r] = Some (Some sol)" by (auto simp: n_def r_def)
    with w show ?thesis by (simp add: TryBuildRibbon_def Let_def r_def [symmetric] leD)
  qed
qed

section \<open>Properties\<close>

text \<open>
  C2: the Ribbon filter has no false negatives. For every policy that \<open>NewRibbonFilterPolicy\<close>
  returns and at most 2,045,222,520 keys, \<open>CreateFilter\<close> returns, appends one filter to the
  destination, and the filter matches every key it was made from, whichever of the Ribbon, Bloom,
  always-match and empty encodings was chosen.
\<close>

theorem ribbon_no_false_negatives:
  assumes "NewRibbonFilterPolicy bits_per_key = Some policy" "length keys \<le> 2045222520"
  shows "\<exists>f. RibbonCreateFilter policy keys dst = Some (dst @ f)
    \<and> (\<forall>key \<in> set keys. RibbonKeyMayMatch key f = Some True)"
proof -
  have "policy = MakeRibbonFilterPolicy bits_per_key"
    using assms(1) by (simp add: NewRibbonFilterPolicy_def split: if_splits)
  with ribbon.create_obtains [of keys bits_per_key] assms(2) show ?thesis
    unfolding ribbon_accepts_def by metis
qed

theorem ribbon_no_false_negatives_witness:
  "NewRibbonFilterPolicy 10 = Some (MakeRibbonFilterPolicy 10)
    \<and> (\<exists>f. RibbonCreateFilter (MakeRibbonFilterPolicy 10) [[1, 2, 3], [4]] [9] = Some ([9] @ f)
        \<and> RibbonKeyMayMatch [4] f = Some True)"
  using ribbon_no_false_negatives [of 10 "MakeRibbonFilterPolicy 10" "[[1, 2, 3], [4]]" "[9]"]
  by (auto simp: NewRibbonFilterPolicy_def)






end
