(* ===== verification/Xor_Table.thy ===== *)
theory Xor_Table
  imports Filter_Format
begin

text \<open>
  The table construction of the Xor filters: \<open>util/xor_filter.cc\<close> of LevelDB (and, word for
  word, of PebblesDB) and the same algorithm inside \<open>XorFilterBitsBuilder::Finish\<close> of the
  RocksDB and Speedb engines. A hash has one position in each of three blocks; peeling repeatedly
  takes a position that only one remaining hash uses; the fingerprints are assigned in the reverse
  of the peeling order. The result \<open>xor_table_correct\<close>: when all hashes are peeled, every hash
  finds its fingerprint as the exclusive or of its three slots.
\<close>

section \<open>Positions and fingerprints\<close>

definition RotateLeft64 :: "u64 \<Rightarrow> nat \<Rightarrow> u64" where
  "RotateLeft64 value distance = push_bit distance value OR drop_bit (64 - distance) value"

definition Position0 :: "u64 \<Rightarrow> u32 \<Rightarrow> u32" where
  "Position0 hash block_length = FastRange32 (ucast hash) block_length"

definition Position1 :: "u64 \<Rightarrow> u32 \<Rightarrow> u32" where
  "Position1 hash block_length =
     block_length + FastRange32 (ucast (RotateLeft64 hash 21)) block_length"

definition Position2 :: "u64 \<Rightarrow> u32 \<Rightarrow> u32" where
  "Position2 hash block_length =
     2 * block_length + FastRange32 (ucast (RotateLeft64 hash 42)) block_length"

definition GetPositions :: "u64 \<Rightarrow> u32 \<Rightarrow> u32 list" where
  "GetPositions hash block_length =
     [Position0 hash block_length, Position1 hash block_length, Position2 hash block_length]"

definition Fingerprint :: "u64 \<Rightarrow> nat \<Rightarrow> u32" where
  "Fingerprint hash fingerprint_bits =
     (let mixed = hash;
          mixed = mixed XOR drop_bit 32 mixed;
          mixed = mixed XOR drop_bit 16 mixed
      in ucast mixed AND BitMask fingerprint_bits)"

section \<open>Peeling\<close>

record PeelEntry =
  pe_hash :: u64
  pe_selected_position :: u32

fun count_positions :: "u64 \<Rightarrow> u32 list \<Rightarrow> u32 list \<times> u64 list \<Rightarrow> (u32 list \<times> u64 list) option" where
  "count_positions hash [] table = Some table"
| "count_positions hash (p # ps) (counts, hash_xors) =
     (case (upd counts (unat p) (\<lambda>c. c + 1), upd hash_xors (unat p) (\<lambda>x. x XOR hash)) of
        (Some counts, Some hash_xors) \<Rightarrow> count_positions hash ps (counts, hash_xors)
      | _ \<Rightarrow> None)"

fun count_hashes :: "u32 \<Rightarrow> u64 list \<Rightarrow> u32 list \<times> u64 list \<Rightarrow> (u32 list \<times> u64 list) option" where
  "count_hashes block_length [] table = Some table"
| "count_hashes block_length (hash # hashes) table =
     (case count_positions hash (GetPositions hash block_length) table of
        None \<Rightarrow> None
      | Some table \<Rightarrow> count_hashes block_length hashes table)"

definition initial_queue :: "u32 list \<Rightarrow> u32 list" where
  "initial_queue counts =
     map of_nat (filter (\<lambda>position. counts ! position = 1) [0..<length counts])"

fun peel_positions ::
    "u64 \<Rightarrow> u32 list \<Rightarrow> u32 list \<times> u64 list \<Rightarrow> u32 list
      \<Rightarrow> ((u32 list \<times> u64 list) \<times> u32 list) option" where
  "peel_positions hash [] table queue = Some (table, queue)"
| "peel_positions hash (p # ps) (counts, hash_xors) queue =
     (case rd counts (unat p) of
        None \<Rightarrow> None
      | Some c \<Rightarrow>
          if c = 0 then peel_positions hash ps (counts, hash_xors) queue
          else
            (case upd hash_xors (unat p) (\<lambda>x. x XOR hash) of
               None \<Rightarrow> None
             | Some hash_xors \<Rightarrow>
                 peel_positions hash ps (counts[unat p := c - 1], hash_xors)
                   (if c - 1 = 1 then queue @ [p] else queue)))"

lemma sum_list_update_less:
  "i < length xs \<Longrightarrow> c < xs ! i \<Longrightarrow> sum_list (xs[i := c]) < sum_list (xs :: nat list)"
  by (induction xs arbitrary: i) (auto split: nat.splits)

lemma peel_positions_measure:
  "peel_positions hash ps (counts, hash_xors) queue = Some ((counts', hash_xors'), queue')
    \<Longrightarrow> length queue' + sum_list (map unat counts') \<le> length queue + sum_list (map unat counts)"
proof (induction ps arbitrary: counts hash_xors queue)
  case (Cons p ps)
  from Cons.prems have p: "unat p < length counts" by (auto simp: rd_def split: if_splits)
  show ?case
  proof (cases "counts ! unat p = 0")
    case True
    with Cons p show ?thesis by (simp add: array_simps)
  next
    case False
    define d where "d = counts[unat p := counts ! unat p - 1]"
    have "unat (counts ! unat p - 1) < unat (counts ! unat p)"
      using False by (simp add: unat_minus_one unat_gt_0)
    then have "sum_list (map unat d) < sum_list (map unat counts)"
      using p unfolding d_def map_update by (intro sum_list_update_less) simp_all
    moreover obtain x where "peel_positions hash ps (d, x)
        (if counts ! unat p - 1 = 1 then queue @ [p] else queue) = Some ((counts', hash_xors'), queue')"
      using Cons.prems p False by (auto simp: array_simps d_def split: option.splits)
    note Cons.IH [OF this]
    ultimately show ?thesis by (simp split: if_splits)
  qed
qed simp

text \<open>
  The queue holds the part of the C++ vector from \<open>queue_index\<close> on. Every push goes with a
  decrement of a count that is not zero, so the loop ends for every table.
\<close>

function peel_loop ::
    "u32 \<Rightarrow> u32 list \<times> u64 list \<Rightarrow> u32 list \<Rightarrow> PeelEntry list \<Rightarrow> PeelEntry list option" where
  "peel_loop block_length table [] peel_order = Some peel_order"
| "peel_loop block_length table (selected_position # queue) peel_order =
     (case rd (fst table) (unat selected_position) of
        None \<Rightarrow> None
      | Some count \<Rightarrow>
          if count \<noteq> 1 then peel_loop block_length table queue peel_order
          else
            (case rd (snd table) (unat selected_position) of
               None \<Rightarrow> None
             | Some hash \<Rightarrow>
                 (case peel_positions hash (GetPositions hash block_length) table queue of
                    None \<Rightarrow> None
                  | Some (table, queue) \<Rightarrow>
                      peel_loop block_length table queue
                        (peel_order @
                          [\<lparr>pe_hash = hash, pe_selected_position = selected_position\<rparr>]))))"
  by pat_completeness auto
termination
proof (relation "measure (\<lambda>(_, table, queue, _). length queue + sum_list (map unat (fst table)))",
    goal_cases)
  case (3 block_length table p queue order c hash z table' queue')
  then show ?case
    using peel_positions_measure [of hash _ "fst table" "snd table" queue "fst table'" "snd table'" queue']
    by (fastforce simp: le_imp_less_Suc)
qed simp_all

definition peel :: "u32 \<Rightarrow> nat \<Rightarrow> u64 list \<Rightarrow> PeelEntry list option" where
  "peel block_length table_length hashes =
     (case count_hashes block_length hashes (replicate table_length 0, replicate table_length 0) of
        None \<Rightarrow> None
      | Some table \<Rightarrow> peel_loop block_length table (initial_queue (fst table)) [])"

section \<open>Assigning the fingerprints\<close>

definition assign_entry :: "u32 \<Rightarrow> nat \<Rightarrow> PeelEntry \<Rightarrow> u32 list \<Rightarrow> u32 list option" where
  "assign_entry block_length fingerprint_bits entry fingerprints =
     (let positions = GetPositions (pe_hash entry) block_length;
          value = Fingerprint (pe_hash entry) fingerprint_bits
      in do {
        f0 \<leftarrow> rd fingerprints (unat (positions ! 0));
        f1 \<leftarrow> rd fingerprints (unat (positions ! 1));
        f2 \<leftarrow> rd fingerprints (unat (positions ! 2));
        upd fingerprints (unat (pe_selected_position entry))
          (\<lambda>_. (value XOR f0 XOR f1 XOR f2) AND BitMask fingerprint_bits)
      })"

text \<open>The entries in peeling order; the C++ visits them from the last to the first.\<close>

primrec assign_reverse :: "u32 \<Rightarrow> nat \<Rightarrow> PeelEntry list \<Rightarrow> u32 list \<Rightarrow> u32 list option" where
  "assign_reverse block_length fingerprint_bits [] fingerprints = Some fingerprints"
| "assign_reverse block_length fingerprint_bits (entry # entries) fingerprints =
     Option.bind (assign_reverse block_length fingerprint_bits entries fingerprints)
       (assign_entry block_length fingerprint_bits entry)"

section \<open>The three positions\<close>

definition block_ok :: "u32 \<Rightarrow> bool" where
  "block_ok bl \<longleftrightarrow> bl \<noteq> 0 \<and> 3 * unat bl < 2 ^ 32"

abbreviation positions :: "u32 \<Rightarrow> u64 \<Rightarrow> nat set" where
  "positions bl h \<equiv> unat ` set (GetPositions h bl)"

lemma unat_positions:
  assumes "block_ok bl"
  shows "unat (Position0 h bl) < unat bl"
    and "unat bl \<le> unat (Position1 h bl)" "unat (Position1 h bl) < 2 * unat bl"
    and "2 * unat bl \<le> unat (Position2 h bl)" "unat (Position2 h bl) < 3 * unat bl"
proof -
  have r: "unat (FastRange32 x bl) < unat bl" for x
    using assms by (intro FastRange32_less) (simp add: block_ok_def)
  have small: "3 * unat bl < 2 ^ LENGTH(32)" using assms by (simp add: block_ok_def)
  have two: "unat (2 * bl) = 2 * unat bl"
    using unat_mult_lem [of 2 bl] small by simp
  have one: "unat (bl + FastRange32 x bl) = unat bl + unat (FastRange32 x bl)" for x
    using unat_add_lem [of bl "FastRange32 x bl"] r [of x] small by simp
  have three: "unat (2 * bl + FastRange32 x bl) = 2 * unat bl + unat (FastRange32 x bl)" for x
    using unat_add_lem [of "2 * bl" "FastRange32 x bl"] r [of x] small two by simp
  show "unat (Position0 h bl) < unat bl" by (simp add: Position0_def r)
  show "unat bl \<le> unat (Position1 h bl)" "unat (Position1 h bl) < 2 * unat bl"
    using r by (simp_all add: Position1_def one mult_2)
  show "2 * unat bl \<le> unat (Position2 h bl)" "unat (Position2 h bl) < 3 * unat bl"
    using r [of "ucast (RotateLeft64 h 42)"] by (simp_all add: Position2_def three)
qed

lemma positions_less: "block_ok bl \<Longrightarrow> p \<in> positions bl h \<Longrightarrow> p < 3 * unat bl"
  using unat_positions [of bl h] by (auto simp: GetPositions_def)

lemma distinct_GetPositions: "block_ok bl \<Longrightarrow> distinct (map unat (GetPositions h bl))"
  using unat_positions [of bl h] by (auto simp: GetPositions_def)

section \<open>What the counting tables hold\<close>

fun xor_list :: "u64 list \<Rightarrow> u64" where
  "xor_list [] = 0"
| "xor_list (h # hs) = h XOR xor_list hs"

lemma xor_cancel_left: "h XOR (h XOR x) = (x :: 'a::len word)"
  by (simp flip: xor.assoc)

lemma xor_list_remove1: "h \<in> set hs \<Longrightarrow> xor_list (remove1 h hs) = xor_list hs XOR h"
  by (induction hs) (auto simp: ac_simps xor_cancel_left)

abbreviation users :: "u32 \<Rightarrow> nat \<Rightarrow> u64 list \<Rightarrow> u64 list" where
  "users bl p R \<equiv> filter (\<lambda>h. p \<in> positions bl h) R"

lemma users_less: "length R < n \<Longrightarrow> length (users bl p R) < n"
  by (rule order_le_less_trans [OF length_filter_le])

text \<open>
  \<open>R\<close> lists the hashes that are in the table: every count is the number of them that use the
  position, every exclusive or is theirs.
\<close>

definition table_of :: "u32 \<Rightarrow> u64 list \<Rightarrow> u32 list \<times> u64 list \<Rightarrow> bool" where
  "table_of bl R table \<longleftrightarrow>
     length (fst table) = 3 * unat bl \<and> length (snd table) = 3 * unat bl
     \<and> (\<forall>p < 3 * unat bl. fst table ! p = of_nat (length (users bl p R))
          \<and> snd table ! p = xor_list (users bl p R))"

lemma count_positions_spec:
  assumes "distinct (map unat ps)" "\<forall>p \<in> set ps. unat p < length counts" "length hash_xors = length counts"
  shows "\<exists>counts' hash_xors'. count_positions h ps (counts, hash_xors) = Some (counts', hash_xors')
    \<and> length counts' = length counts \<and> length hash_xors' = length counts
    \<and> (\<forall>q < length counts. counts' ! q = counts ! q + (if q \<in> unat ` set ps then 1 else 0)
        \<and> hash_xors' ! q = hash_xors ! q XOR (if q \<in> unat ` set ps then h else 0))"
  using assms
proof (induction ps arbitrary: counts hash_xors)
  case (Cons p ps)
  have p: "unat p < length counts" "unat p < length hash_xors" "unat p \<notin> unat ` set ps"
    using Cons.prems by auto
  from Cons.IH [of "counts[unat p := counts ! unat p + 1]" "hash_xors[unat p := hash_xors ! unat p XOR h]"]
    Cons.prems p
  show ?case
    by (simp add: array_simps nth_list_update) (fastforce simp: nth_list_update)
qed simp

lemma count_positions_table:
  assumes "block_ok bl" "table_of bl R table"
  shows "\<exists>table'. count_positions h (GetPositions h bl) table = Some table' \<and> table_of bl (h # R) table'"
proof -
  obtain counts hash_xors where t: "table = (counts, hash_xors)" by (cases table)
  have len: "length counts = 3 * unat bl" "length hash_xors = 3 * unat bl"
    using assms(2) by (simp_all add: table_of_def t)
  have "\<forall>p \<in> set (GetPositions h bl). unat p < length counts"
    using positions_less [OF assms(1)] len by auto
  from count_positions_spec [OF distinct_GetPositions [OF assms(1)] this, of hash_xors h]
  obtain counts' hash_xors' where
    "count_positions h (GetPositions h bl) table = Some (counts', hash_xors')"
    "length counts' = length counts" "length hash_xors' = length counts"
    and nth: "\<forall>q < length counts. counts' ! q = counts ! q + (if q \<in> positions bl h then 1 else 0)
      \<and> hash_xors' ! q = hash_xors ! q XOR (if q \<in> positions bl h then h else 0)"
    using len t by auto
  moreover have "table_of bl (h # R) (counts', hash_xors')"
    using assms(2) nth \<open>length counts' = length counts\<close> \<open>length hash_xors' = length counts\<close> len
    by (simp add: table_of_def t ac_simps)
  ultimately show ?thesis by blast
qed

lemma count_hashes_spec:
  assumes "block_ok bl" "table_of bl R table"
  shows "\<exists>table'. count_hashes bl hs table = Some table' \<and> table_of bl (rev hs @ R) table'"
  using assms(2)
proof (induction hs arbitrary: R table)
  case (Cons h hs)
  from count_positions_table [OF assms(1) Cons.prems, of h] obtain t1 where
    "count_positions h (GetPositions h bl) table = Some t1" "table_of bl (h # R) t1" by blast
  with Cons.IH [OF this(2)] show ?case by auto
qed simp

lemma table_of_empty: "table_of bl [] (replicate (3 * unat bl) 0, replicate (3 * unat bl) 0)"
  by (simp add: table_of_def)

section \<open>Peeling takes hashes out of the table\<close>

lemma peel_positions_spec:
  assumes "distinct (map unat ps)" "\<forall>p \<in> set ps. unat p < length counts \<and> counts ! unat p \<noteq> 0"
    and "length hash_xors = length counts"
  shows "\<exists>counts' hash_xors' extra.
    peel_positions h ps (counts, hash_xors) queue = Some ((counts', hash_xors'), queue @ extra)
    \<and> length counts' = length counts \<and> length hash_xors' = length counts \<and> set extra \<subseteq> set ps
    \<and> (\<forall>q < length counts. counts' ! q = counts ! q - (if q \<in> unat ` set ps then 1 else 0)
        \<and> hash_xors' ! q = hash_xors ! q XOR (if q \<in> unat ` set ps then h else 0))"
  using assms
proof (induction ps arbitrary: counts hash_xors queue)
  case (Cons p ps)
  define c where "c = counts[unat p := counts ! unat p - 1]"
  define x where "x = hash_xors[unat p := hash_xors ! unat p XOR h]"
  define new where "new = (if counts ! unat p - 1 = 1 then [p] else [])"
  have p: "unat p < length counts" "unat p < length hash_xors" "counts ! unat p \<noteq> 0"
    "unat p \<notin> unat ` set ps" using Cons.prems by auto
  have ok: "\<forall>q \<in> set ps. unat q < length c \<and> c ! unat q \<noteq> 0"
    using Cons.prems p by (auto simp: c_def nth_list_update)
  have step: "peel_positions h (p # ps) (counts, hash_xors) queue
      = peel_positions h ps (c, x) (queue @ new)"
    using p by (simp add: array_simps c_def x_def new_def)
  from Cons.IH [OF _ ok, of x "queue @ new"] Cons.prems obtain c' x' extra where
    "peel_positions h ps (c, x) (queue @ new) = Some ((c', x'), (queue @ new) @ extra)"
    "length c' = length c" "length x' = length c" "set extra \<subseteq> set ps"
    "\<forall>q < length c. c' ! q = c ! q - (if q \<in> unat ` set ps then 1 else 0)
      \<and> x' ! q = x ! q XOR (if q \<in> unat ` set ps then h else 0)"
    by (auto simp: c_def x_def)
  then show ?case
    using p Cons.prems(3) unfolding step
    by (intro exI [of _ c'] exI [of _ x'] exI [of _ "new @ extra"])
      (auto simp: c_def x_def new_def nth_list_update)
qed simp

lemma length_remove1_Suc: "x \<in> set xs \<Longrightarrow> length xs = Suc (length (remove1 x xs))"
  by (induction xs) auto

lemma remove_table:
  assumes bl: "block_ok bl" and t: "table_of bl R table" and h: "h \<in> set R" and small: "length R < 2 ^ 32"
  shows "\<exists>table' extra. peel_positions h (GetPositions h bl) table queue = Some (table', queue @ extra)
    \<and> table_of bl (remove1 h R) table' \<and> (\<forall>p \<in> set extra. unat p < 3 * unat bl)"
proof -
  obtain counts hash_xors where tt: "table = (counts, hash_xors)" by (cases table)
  have len: "length counts = 3 * unat bl" "length hash_xors = 3 * unat bl"
    using t by (simp_all add: table_of_def tt)
  have cnt: "of_nat (length (users bl p R)) \<noteq> (0 :: u32)" if "p \<in> positions bl h" for p
  proof -
    have "h \<in> set (users bl p R)" using that h by simp
    then have "0 < length (users bl p R)" by (rule length_pos_if_in_set)
    moreover have "length (users bl p R) < 2 ^ LENGTH(32)"
      using small by (simp add: users_less)
    ultimately have "unat (of_nat (length (users bl p R)) :: u32) \<noteq> 0"
      by (simp only: unat_of_nat_small)
    then show ?thesis by (rule contrapos_nn) (simp only: unsigned_0)
  qed
  have pos: "p < 3 * unat bl" if "p \<in> positions bl h" for p using positions_less [OF bl that] .
  have "\<forall>p \<in> set (GetPositions h bl). unat p < length counts \<and> counts ! unat p \<noteq> 0"
    using cnt pos t len by (simp add: table_of_def tt)
  from peel_positions_spec [OF distinct_GetPositions [OF bl] this, of hash_xors h queue]
  obtain counts' hash_xors' extra where res:
    "peel_positions h (GetPositions h bl) table queue = Some ((counts', hash_xors'), queue @ extra)"
    "length counts' = length counts" "length hash_xors' = length counts" "set extra \<subseteq> set (GetPositions h bl)"
    and nth: "\<forall>q < length counts. counts' ! q = counts ! q - (if q \<in> positions bl h then 1 else 0)
      \<and> hash_xors' ! q = hash_xors ! q XOR (if q \<in> positions bl h then h else 0)"
    using len tt by auto
  have one: "of_nat (length (users bl q (remove1 h R)))
      = (of_nat (length (users bl q R)) - (if q \<in> positions bl h then 1 else 0) :: u32)"
    and two: "xor_list (users bl q (remove1 h R))
      = xor_list (users bl q R) XOR (if q \<in> positions bl h then h else 0)" for q
  proof -
    have r: "users bl q (remove1 h R) = remove1 h (users bl q R)" by (rule filter_remove1)
    show "of_nat (length (users bl q (remove1 h R)))
        = (of_nat (length (users bl q R)) - (if q \<in> positions bl h then 1 else 0) :: u32)"
    proof (cases "q \<in> positions bl h")
      case True
      then have "h \<in> set (users bl q R)" using h by simp
      then have "length (users bl q R) = Suc (length (remove1 h (users bl q R)))"
        by (rule length_remove1_Suc)
      with True show ?thesis by (simp add: r)
    qed (simp add: r remove1_idem)
    show "xor_list (users bl q (remove1 h R))
        = xor_list (users bl q R) XOR (if q \<in> positions bl h then h else 0)"
      using h by (cases "q \<in> positions bl h") (simp_all add: r xor_list_remove1 remove1_idem)
  qed
  have "table_of bl (remove1 h R) (counts', hash_xors')"
    using t nth res(2,3) len by (simp add: table_of_def tt one two)
  moreover have "\<forall>p \<in> set extra. unat p < 3 * unat bl" using res(4) pos by auto
  ultimately show ?thesis using res(1) by blast
qed

text \<open>
  A peeling order: each entry's hash is one of those left, its position is one of the hash's and
  of no other hash that is left.
\<close>

fun peeled :: "u32 \<Rightarrow> u64 list \<Rightarrow> PeelEntry list \<Rightarrow> bool" where
  "peeled bl R [] = True"
| "peeled bl R (e # es) =
     (pe_hash e \<in> set R \<and> unat (pe_selected_position e) \<in> positions bl (pe_hash e)
      \<and> (\<forall>h \<in> set (remove1 (pe_hash e) R). unat (pe_selected_position e) \<notin> positions bl h)
      \<and> peeled bl (remove1 (pe_hash e) R) es)"

lemma single_user:
  assumes t: "table_of bl R table" and p: "p < 3 * unat bl" "fst table ! p = 1" and small: "length R < 2 ^ 32"
  shows "users bl p R = [snd table ! p]"
proof -
  have "length (users bl p R) < 2 ^ LENGTH(32)"
    using small by (simp add: users_less)
  then have "unat (of_nat (length (users bl p R)) :: u32) = length (users bl p R)"
    by (rule unat_of_nat_small)
  moreover have "(of_nat (length (users bl p R)) :: u32) = 1" using t p by (auto simp: table_of_def)
  ultimately have "length (users bl p R) = 1" by simp
  then obtain h where h: "users bl p R = [h]" by (auto simp: length_Suc_conv)
  moreover have "snd table ! p = xor_list (users bl p R)" using t p by (simp add: table_of_def)
  ultimately show ?thesis by simp
qed

lemma peel_loop_spec:
  assumes "block_ok bl" "table_of bl R table" "length R < 2 ^ 32" "\<forall>p \<in> set queue. unat p < 3 * unat bl"
  shows "\<exists>new. peel_loop bl table queue order = Some (order @ new) \<and> peeled bl R new"
  using assms(2-)
proof (induction "length queue + sum_list (map unat (fst table))" arbitrary: R table queue order
    rule: less_induct)
  case less
  show ?case
  proof (cases queue)
    case Nil
    then show ?thesis by simp
  next
    case (Cons p rest)
    have len: "length (fst table) = 3 * unat bl" "length (snd table) = 3 * unat bl"
      using less.prems(1) by (simp_all add: table_of_def)
    have p: "unat p < 3 * unat bl" "\<forall>p \<in> set rest. unat p < 3 * unat bl" using less.prems(3) Cons by auto
    show ?thesis
    proof (cases "fst table ! unat p = 1")
      case False
      with less.hyps [OF _ less.prems(1,2) p(2)] Cons p len show ?thesis by (simp add: array_simps)
    next
      case True
      define h where "h = snd table ! unat p"
      define e where "e = \<lparr>pe_hash = h, pe_selected_position = p\<rparr>"
      have u: "users bl (unat p) R = [h]"
        using single_user [OF less.prems(1) p(1) True less.prems(2)] by (simp add: h_def)
      have "h \<in> set (users bl (unat p) R)" unfolding u by simp
      then have h: "h \<in> set R" "unat p \<in> positions bl h" by simp_all
      have others: "\<forall>g \<in> set (remove1 h R). unat p \<notin> positions bl g"
      proof -
        have "users bl (unat p) (remove1 h R) = []" by (simp add: filter_remove1 u)
        then show ?thesis by (simp add: filter_empty_conv)
      qed
      from remove_table [OF assms(1) less.prems(1) h(1) less.prems(2), of rest] obtain t' extra where
        t': "peel_positions h (GetPositions h bl) table rest = Some (t', rest @ extra)"
          "table_of bl (remove1 h R) t'" "\<forall>p \<in> set extra. unat p < 3 * unat bl" by blast
      have "length (rest @ extra) + sum_list (map unat (fst t')) < length queue + sum_list (map unat (fst table))"
        using peel_positions_measure [of h _ "fst table" "snd table" rest "fst t'" "snd t'"] t'(1) Cons
        by fastforce
      moreover have "length (remove1 h R) < 2 ^ 32"
        using less.prems(2) h(1) by (simp add: length_remove1)
      ultimately obtain new where "peel_loop bl t' (rest @ extra) (order @ [e]) = Some ((order @ [e]) @ new)"
        "peeled bl (remove1 h R) new"
        using less.hyps [OF _ t'(2), of "rest @ extra" "order @ [e]"] t'(3) p(2) by auto
      then show ?thesis
        using h others t'(1) Cons True p len
        by (intro exI [of _ "e # new"]) (simp add: array_simps h_def [symmetric] e_def [symmetric], simp add: e_def)
    qed
  qed
qed

lemma insert_remove1: "x \<in> set xs \<Longrightarrow> insert x (set (remove1 x xs)) = set xs"
  by (induction xs) auto

lemma peeled_all:
  "peeled bl R es \<Longrightarrow> length es = length R \<Longrightarrow> pe_hash ` set es = set R"
proof (induction es arbitrary: R)
  case (Cons e es)
  then have "length es = length (remove1 (pe_hash e) R)" by (simp add: length_remove1)
  with Cons have "pe_hash ` set es = set (remove1 (pe_hash e) R)" by simp
  moreover have "set R = insert (pe_hash e) (set (remove1 (pe_hash e) R))"
    using Cons.prems(1) by (simp add: insert_remove1)
  ultimately show ?case by simp
qed simp

lemma peel_spec:
  assumes "block_ok bl" "length hs < 2 ^ 32"
  shows "\<exists>order. peel bl (3 * unat bl) hs = Some order \<and> peeled bl (rev hs) order"
proof -
  from count_hashes_spec [OF assms(1) table_of_empty, of hs] obtain table where
    t: "count_hashes bl hs (replicate (3 * unat bl) 0, replicate (3 * unat bl) 0) = Some table"
      "table_of bl (rev hs) table" by auto
  have "\<forall>p \<in> set (initial_queue (fst table)). unat p < 3 * unat bl"
  proof
    fix p assume "p \<in> set (initial_queue (fst table))"
    then obtain i where i: "p = of_nat i" "i < 3 * unat bl"
      using t(2) by (auto simp: initial_queue_def table_of_def)
    moreover have "3 * unat bl < 2 ^ LENGTH(32)" using assms(1) by (simp add: block_ok_def)
    ultimately show "unat p < 3 * unat bl" by (simp only: unat_of_nat_small [OF order_less_trans])
  qed
  from peel_loop_spec [OF assms(1) t(2) _ this, of "[]"] assms(2) t(1) show ?thesis
    by (simp add: peel_def)
qed

section \<open>The assigned table\<close>

definition slot_xor :: "u32 \<Rightarrow> u32 list \<Rightarrow> u64 \<Rightarrow> u32" where
  "slot_xor bl f h = f ! unat (Position0 h bl) XOR f ! unat (Position1 h bl) XOR f ! unat (Position2 h bl)"

lemma slot_xor_update_other:
  "p \<notin> positions bl h \<Longrightarrow> slot_xor bl (f[p := v]) h = slot_xor bl f h"
  by (auto simp: slot_xor_def GetPositions_def nth_list_update)

lemma slot_xor_update_own:
  assumes "block_ok bl" "length f = 3 * unat bl" "p \<in> positions bl h" "f ! p = 0"
  shows "slot_xor bl (f[p := v]) h = v XOR slot_xor bl f h"
  using unat_positions [OF assms(1), of h] assms(2-)
  by (auto simp: slot_xor_def GetPositions_def nth_list_update ac_simps)

lemma Fingerprint_masked [mask_simps]: "take_bit bits (Fingerprint h bits) = Fingerprint h bits"
  by (simp add: Fingerprint_def mask_simps Let_def)

text \<open>What \<open>assign_reverse\<close> leaves behind for the entries of a peeling order.\<close>

definition assigned :: "u32 \<Rightarrow> nat \<Rightarrow> PeelEntry list \<Rightarrow> u32 list \<Rightarrow> bool" where
  "assigned bl bits es f \<longleftrightarrow> length f = 3 * unat bl
     \<and> (\<forall>i < length f. take_bit bits (f ! i) = f ! i)
     \<and> (\<forall>i < length f. i \<notin> unat ` pe_selected_position ` set es \<longrightarrow> f ! i = 0)
     \<and> (\<forall>e \<in> set es. slot_xor bl f (pe_hash e) = Fingerprint (pe_hash e) bits)"

lemma assign_entry_step:
  assumes bl: "block_ok bl" and f: "assigned bl bits es f" and e: "peeled bl R (e # es)"
    and later: "\<forall>e' \<in> set es. pe_hash e' \<in> set (remove1 (pe_hash e) R)
      \<and> unat (pe_selected_position e') \<in> positions bl (pe_hash e')"
  shows "\<exists>f'. assign_entry bl bits e f = Some f' \<and> assigned bl bits (e # es) f'"
proof -
  define p where "p = unat (pe_selected_position e)"
  define v where "v = Fingerprint (pe_hash e) bits XOR slot_xor bl f (pe_hash e)"
  have len: "length f = 3 * unat bl" using f by (simp add: assigned_def)
  have p: "p \<in> positions bl (pe_hash e)" "p < 3 * unat bl"
    using e positions_less [OF bl] by (auto simp: p_def)
  have other: "p \<notin> positions bl (pe_hash e')" if "e' \<in> set es" for e'
    using later e that by (auto simp: p_def)
  have "p \<notin> unat ` pe_selected_position ` set es" using other later by blast
  then have zero: "f ! p = 0" using f p len by (simp add: assigned_def)
  have "take_bit bits (slot_xor bl f (pe_hash e)) = slot_xor bl f (pe_hash e)"
    using f len unat_positions [OF bl, of "pe_hash e"] by (simp add: assigned_def slot_xor_def)
  then have v: "take_bit bits v = v" by (simp add: v_def mask_simps)
  have "Fingerprint (pe_hash e) bits XOR f ! unat (Position0 (pe_hash e) bl)
      XOR f ! unat (Position1 (pe_hash e) bl) XOR f ! unat (Position2 (pe_hash e) bl) = v"
    by (simp add: v_def slot_xor_def ac_simps)
  then have run: "assign_entry bl bits e f = Some (f[p := v])"
    using unat_positions [OF bl, of "pe_hash e"] len p(2) v
    by (simp add: assign_entry_def GetPositions_def array_simps Let_def p_def) (simp add: and_BitMask)
  have "slot_xor bl (f[p := v]) (pe_hash e) = Fingerprint (pe_hash e) bits"
    using slot_xor_update_own [OF bl len p(1) zero] by (simp add: v_def ac_simps xor_cancel_left)
  then have "assigned bl bits (e # es) (f[p := v])"
    using f v p len other
    by (auto simp: assigned_def slot_xor_update_other nth_list_update p_def)
  with run show ?thesis by blast
qed

lemma peeled_entries:
  "peeled bl R es \<Longrightarrow> e \<in> set es
    \<Longrightarrow> pe_hash e \<in> set R \<and> unat (pe_selected_position e) \<in> positions bl (pe_hash e)"
proof (induction es arbitrary: R)
  case (Cons a es)
  show ?case
  proof (cases "e = a")
    case False
    with Cons.prems have "peeled bl (remove1 (pe_hash a) R) es" "e \<in> set es" by simp_all
    from Cons.IH [OF this] show ?thesis using set_remove1_subset [of "pe_hash a" R] by blast
  qed (use Cons in simp)
qed simp

lemma assign_reverse_spec:
  assumes "block_ok bl" "peeled bl R es" "f = replicate (3 * unat bl) 0"
  shows "\<exists>f'. assign_reverse bl bits es f = Some f' \<and> assigned bl bits es f'"
  using assms(2)
proof (induction es arbitrary: R)
  case Nil
  then show ?case by (simp add: assigned_def assms(3))
next
  case (Cons e es)
  then have "peeled bl (remove1 (pe_hash e) R) es" by simp
  from Cons.IH [OF this] obtain f1 where
    f1: "assign_reverse bl bits es f = Some f1" "assigned bl bits es f1" by blast
  from assign_entry_step [OF assms(1) f1(2) Cons.prems] f1(1)
    peeled_entries [OF \<open>peeled bl (remove1 (pe_hash e) R) es\<close>]
  show ?case by auto
qed

text \<open>
  Peeling ends inside its arrays whatever the hashes are; when it has peeled as many entries as
  there are hashes, the assigned table gives every hash its fingerprint.
\<close>

lemma xor_table_correct:
  assumes bl: "block_ok bl" and hs: "length hs < 2 ^ 32"
  obtains order where "peel bl (3 * unat bl) hs = Some order"
    and "length order = length hs \<Longrightarrow>
      \<exists>f. assign_reverse bl bits order (replicate (3 * unat bl) 0) = Some f
        \<and> length f = 3 * unat bl \<and> (\<forall>i < length f. take_bit bits (f ! i) = f ! i)
        \<and> (\<forall>h \<in> set hs. slot_xor bl f h = Fingerprint h bits)"
proof -
  from peel_spec [OF assms] obtain order where order:
    "peel bl (3 * unat bl) hs = Some order" "peeled bl (rev hs) order" by blast
  from assign_reverse_spec [OF bl order(2) refl, of bits] obtain f where
    f: "assign_reverse bl bits order (replicate (3 * unat bl) 0) = Some f" "assigned bl bits order f" by blast
  have "slot_xor bl f h = Fingerprint h bits" if "h \<in> set hs" "length order = length hs" for h
  proof -
    have "pe_hash ` set order = set hs" using peeled_all [OF order(2)] that(2) by simp
    with that(1) obtain e where "e \<in> set order" "h = pe_hash e" by auto
    with f(2) show ?thesis by (simp add: assigned_def)
  qed
  with f order(1) show ?thesis by (intro that [of order]) (auto simp: assigned_def)
qed

section \<open>Properties\<close>

text \<open>
  C24: peeling ends inside its arrays for every list of fewer than \<open>2 ^ 32\<close> hashes and every block
  length whose triple fits 32 bits; when it peels all of them, the table that is assigned in reverse
  order holds, for every hash, its fingerprint as the exclusive or of its three slots.
\<close>

theorem xor_construction_correct:
  assumes "block_ok bl" "length hs < 2 ^ 32"
  shows "\<exists>order. peel bl (3 * unat bl) hs = Some order
    \<and> (length order = length hs \<longrightarrow>
        (\<exists>f. assign_reverse bl bits order (replicate (3 * unat bl) 0) = Some f
          \<and> (\<forall>h \<in> set hs. f ! unat (Position0 h bl) XOR f ! unat (Position1 h bl)
               XOR f ! unat (Position2 h bl) = Fingerprint h bits)))"
  using xor_table_correct [OF assms, of bits] unfolding slot_xor_def by metis

theorem xor_construction_correct_witness:
  "block_ok 13 \<and> peel 13 39 [111, 222] \<noteq> None"
  using xor_construction_correct [of 13 "[111, 222]" 8] by (auto simp: block_ok_def)

end
