(* ===== verification/Xor.thy ===== *)
theory Xor
  imports Xor_Table
begin

text \<open>
  The Xor filter policy of \<open>util/xor_filter.cc\<close> (LevelDB, and the same code in PebblesDB), and
  its interpretation of the filter contract.
\<close>

section \<open>Definitions\<close>

definition kXorMagic :: u8 where
  "kXorMagic = 0xA9"

definition kEncodingXor :: u8 where
  "kEncodingXor = 1"

definition XorHash64 :: "bytes \<Rightarrow> u32 \<Rightarrow> u64" where
  "XorHash64 data seed =
     (let high = Hash data seed;
          low = Hash data (seed + kSecondHashDelta);
          hash = push_bit 32 (ucast high) OR ucast low;
          hash = hash XOR drop_bit 33 hash;
          hash = hash * 0xff51afd7ed558ccd;
          hash = hash XOR drop_bit 33 hash;
          hash = hash * 0xc4ceb9fe1a85ec53
      in hash XOR drop_bit 33 hash)"

definition BuildUniqueHashes :: "bytes list \<Rightarrow> u32 \<Rightarrow> u64 list" where
  "BuildUniqueHashes keys seed = remdups_adj (sort (map (\<lambda>key. XorHash64 key seed) keys))"

definition fold_hash :: "u64 \<Rightarrow> u32" where
  "fold_hash hash = ucast (hash XOR drop_bit 32 hash)"

definition XorBloomEncoding :: "u64 list \<Rightarrow> int \<Rightarrow> u32 \<Rightarrow> bytes" where
  "XorBloomEncoding hashes bits_per_key seed =
     BuildBloomEncoding kXorMagic (map fold_hash hashes) bits_per_key seed []"

definition ComputeBlockLength :: "nat \<Rightarrow> u32" where
  "ComputeBlockLength key_count =
     (if key_count = 0 then 0
      else
        let scaled = (of_nat key_count * 123 + 100 - 1) div 100 :: u64;
            capacity = scaled + 32;
            block_length = (capacity + 2) div 3
        in if block_length = 0 \<or> block_length > 0xffffffff div 3 then 0 else ucast block_length)"

text \<open>
  The outer \<open>None\<close> is an access out of range; the inner one is the failure reported as \<open>false\<close>.
\<close>

definition TryBuildXor :: "u64 list \<Rightarrow> u32 \<Rightarrow> nat \<Rightarrow> u32 \<Rightarrow> bytes option option" where
  "TryBuildXor hashes block_length fingerprint_bits seed =
     (if hashes = [] \<or> block_length = 0 then Some None
      else
        let table_length = unat (3 * block_length) in
        case peel block_length table_length hashes of
          None \<Rightarrow> None
        | Some peel_order \<Rightarrow>
            if length peel_order \<noteq> length hashes then Some None
            else
              case assign_reverse block_length fingerprint_bits peel_order (replicate table_length 0) of
                None \<Rightarrow> None
              | Some fingerprints \<Rightarrow>
                  Some (Some (AppendTrailer kXorMagic
                    (AppendPackedValues fingerprints fingerprint_bits [])
                    seed block_length (of_nat fingerprint_bits) kEncodingXor)))"

record XorFilterPolicy =
  xp_bits_per_key :: int
  xp_fingerprint_bits :: nat

definition ComputeFingerprintBits :: "int \<Rightarrow> nat" where
  "ComputeFingerprintBits bloom_equivalent_bits_per_key =
     (let bits = mul_ceil double_ln_2 bloom_equivalent_bits_per_key;
          bits = (if bits < 1 then 1 else bits)
      in nat (if bits > 16 then 16 else bits))"

definition MakeXorFilterPolicy :: "int \<Rightarrow> XorFilterPolicy" where
  "MakeXorFilterPolicy bloom_equivalent_bits_per_key =
     \<lparr>xp_bits_per_key = bloom_equivalent_bits_per_key,
      xp_fingerprint_bits = ComputeFingerprintBits bloom_equivalent_bits_per_key\<rparr>"

definition NewXorFilterPolicy :: "int \<Rightarrow> XorFilterPolicy option" where
  "NewXorFilterPolicy bloom_equivalent_bits_per_key =
     (if bloom_equivalent_bits_per_key \<le> 0 then None
      else Some (MakeXorFilterPolicy bloom_equivalent_bits_per_key))"

text \<open>One turn of the retry loop, with its own unique hashes and block length.\<close>

definition xor_try :: "bytes list \<Rightarrow> nat \<Rightarrow> u32 \<Rightarrow> bytes option option" where
  "xor_try keys fingerprint_bits seed =
     (let hashes = BuildUniqueHashes keys seed;
          block_length = ComputeBlockLength (length hashes)
      in if block_length = 0 then Some None
         else TryBuildXor hashes block_length fingerprint_bits seed)"

definition XorEncode :: "XorFilterPolicy \<Rightarrow> bytes list \<Rightarrow> bytes option" where
  "XorEncode policy keys =
     (let bits_per_key = xp_bits_per_key policy;
          fingerprint_bits = xp_fingerprint_bits policy in
      if length keys = 0 then Some (AppendTrailer kXorMagic [] 0 0 0 kEncodingEmpty)
      else
        let initial_hashes = BuildUniqueHashes keys 0 in
        if initial_hashes = [] then Some (AppendTrailer kXorMagic [] 0 0 0 kEncodingEmpty)
        else
          let initial_block_length = ComputeBlockLength (length initial_hashes) in
          if initial_block_length = 0 then Some (XorBloomEncoding initial_hashes bits_per_key 0)
          else
            let initial_table_length = 3 * initial_block_length;
                xor_size = PackedByteSize initial_table_length fingerprint_bits + kTrailerSize;
                bloom_size = EstimatedBloomSerializedSize (length initial_hashes) bits_per_key in
            if xor_size \<ge> bloom_size then Some (XorBloomEncoding initial_hashes bits_per_key 0)
            else
              case try_seeds (xor_try keys fingerprint_bits) kMaxSeedTries 0 of
                None \<Rightarrow> None
              | Some (Some encoded) \<Rightarrow> Some encoded
              | Some None \<Rightarrow> Some (XorBloomEncoding initial_hashes bits_per_key 0))"

definition XorCreateFilter :: "XorFilterPolicy \<Rightarrow> bytes list \<Rightarrow> bytes \<Rightarrow> bytes option" where
  "XorCreateFilter policy keys dst = map_option ((@) dst) (XorEncode policy keys)"

definition XorKeyMayMatch :: "bytes \<Rightarrow> bytes \<Rightarrow> bool option" where
  "XorKeyMayMatch key flt =
     (if length flt < kTrailerSize then Some True
      else
        let tr = read_trailer flt;
            payload = take (length flt - kTrailerSize) flt;
            length_or_bits = tr_slot_count tr
        in if tr_magic tr \<noteq> kXorMagic \<or> tr_version tr \<noteq> kFormatVersion then Some True
           else if tr_type tr = kEncodingEmpty then Some (length payload \<noteq> 0)
           else if tr_type tr = kEncodingAlwaysMatch then Some True
           else if tr_type tr = kEncodingBloom then
             BloomMayMatch (fold_hash (XorHash64 key (tr_seed tr))) payload length_or_bits (tr_aux tr)
           else if tr_type tr \<noteq> kEncodingXor then Some True
           else
             let block_length = length_or_bits;
                 fingerprint_bits = unat (tr_aux tr) in
             if block_length = 0 \<or> block_length > 0xffffffff div 3
                \<or> fingerprint_bits < 1 \<or> fingerprint_bits > 16 then Some True
             else
               let table_length = 3 * block_length in
               if length payload \<noteq> PackedByteSize table_length fingerprint_bits then Some True
               else
                 let hash = XorHash64 key (tr_seed tr);
                     ps = GetPositions hash block_length in
                 case (ReadPackedValue payload (ps ! 0) fingerprint_bits,
                       ReadPackedValue payload (ps ! 1) fingerprint_bits,
                       ReadPackedValue payload (ps ! 2) fingerprint_bits) of
                   (Some value0, Some value1, Some value2) \<Rightarrow>
                     let actual = value0 XOR value1 XOR value2;
                         expected = Fingerprint hash fingerprint_bits
                     in Some (actual AND BitMask fingerprint_bits = expected)
                 | _ \<Rightarrow> Some True)"

section \<open>Block lengths\<close>

lemma block_ok_le: "bl \<noteq> 0 \<Longrightarrow> bl \<le> 0xffffffff div 3 \<Longrightarrow> block_ok bl"
proof -
  assume bl: "bl \<noteq> 0" "bl \<le> 0xffffffff div 3"
  have "(0xffffffff div 3 :: u32) = 1431655765" by simp
  with bl(2) have "unat bl \<le> 1431655765" by (simp add: word_le_nat_alt)
  with bl(1) show ?thesis by (simp add: block_ok_def)
qed

lemma block_ok_bounds:
  assumes "block_ok bl"
  shows "bl \<noteq> 0" "bl \<le> 0xffffffff div 3" "unat (3 * bl) = 3 * unat bl"
proof -
  have small: "3 * unat bl < 2 ^ 32" using assms by (simp add: block_ok_def)
  show "bl \<noteq> 0" using assms by (simp add: block_ok_def)
  have "(0xffffffff div 3 :: u32) = 1431655765" by simp
  moreover have "bl \<le> 1431655765" using small by (simp add: word_le_nat_alt)
  ultimately show "bl \<le> 0xffffffff div 3" by simp
  show "unat (3 * bl) = 3 * unat bl" using unat_mult_lem [of 3 bl] small by simp
qed

lemma ComputeBlockLength_ok: "ComputeBlockLength n \<noteq> 0 \<Longrightarrow> block_ok (ComputeBlockLength n)"
proof -
  assume nz: "ComputeBlockLength n \<noteq> 0"
  define w where "w = (((of_nat n * 123 + 100 - 1) div 100 + 32 + 2) div 3 :: u64)"
  have eq: "ComputeBlockLength n = ucast w" "w \<le> 0xffffffff div 3"
    using nz by (auto simp: ComputeBlockLength_def w_def Let_def split: if_splits)
  have "(0xffffffff div 3 :: u64) = 1431655765" by simp
  with eq(2) have "unat w \<le> 1431655765" by (simp add: word_le_nat_alt)
  then have "unat (ComputeBlockLength n) \<le> 1431655765"
    by (simp add: eq(1) unsigned_ucast_eq take_bit_nat_eq_self)
  with nz show ?thesis by (simp add: block_ok_def)
qed

section \<open>No false negatives\<close>

lemma set_BuildUniqueHashes: "set (BuildUniqueHashes keys seed) = (\<lambda>key. XorHash64 key seed) ` set keys"
  by (simp add: BuildUniqueHashes_def)

lemma length_BuildUniqueHashes: "length (BuildUniqueHashes keys seed) \<le> length keys"
  using remdups_adj_length [of "sort (map (\<lambda>key. XorHash64 key seed) keys)"]
  by (simp add: BuildUniqueHashes_def)

lemma XorKeyMayMatch_Bloom:
  "XorKeyMayMatch key (AppendTrailer kXorMagic payload seed n aux kEncodingBloom)
    = BloomMayMatch (fold_hash (XorHash64 key seed)) payload n aux"
  by (simp add: XorKeyMayMatch_def Let_def kEncodingEmpty_def kEncodingAlwaysMatch_def
      kEncodingBloom_def)

lemma XorBloomEncoding_match:
  assumes "XorHash64 key seed \<in> set hashes"
  shows "XorKeyMayMatch key (XorBloomEncoding hashes b seed) = Some True"
proof (cases "BloomBitCount (length hashes) b = 0")
  case True
  then show ?thesis
    by (simp add: XorBloomEncoding_def BuildBloomEncoding_def XorKeyMayMatch_def
        kEncodingEmpty_def kEncodingAlwaysMatch_def)
next
  case False
  then have "BloomMayMatch (fold_hash (XorHash64 key seed)) (add_hashes (BloomProbeCount b) (map fold_hash hashes)
      (unat (BloomBitCount (length hashes) b))
      (replicate (unat (BloomBitCount (length hashes) b div 8)) 0))
      (BloomBitCount (length hashes) b) (of_nat (BloomProbeCount b)) = Some True"
    using BloomMayMatch_built [of "map fold_hash hashes" b "fold_hash (XorHash64 key seed)"] assms by simp
  with False show ?thesis
    by (simp add: XorBloomEncoding_def BuildBloomEncoding_def XorKeyMayMatch_Bloom Let_def)
qed

lemma XorKeyMayMatch_table:
  assumes b: "0 < b" "b \<le> 16" and bl: "block_ok bl" and f: "length f = 3 * unat bl"
    "\<forall>i < length f. take_bit b (f ! i) = f ! i"
  shows "XorKeyMayMatch key (AppendTrailer kXorMagic (AppendPackedValues f b []) seed bl (of_nat b) kEncodingXor)
    = Some (slot_xor bl f (XorHash64 key seed) = Fingerprint (XorHash64 key seed) b)"
proof -
  define h where "h = XorHash64 key seed"
  define payload where "payload = AppendPackedValues f b []"
  have ub: "unat (of_nat b :: u8) = b" using b by (simp add: unat_of_nat_small)
  have len: "length payload = PackedByteSize (3 * bl) b"
    using AppendPackedValues_spec [OF b, of f "[]"] b f(1) block_ok_bounds(3) [OF bl]
    by (auto simp: PackedByteSize_eq mult.commute payload_def)
  have rdp: "ReadPackedValue payload p b = Some (f ! unat p)" if "unat p < 3 * unat bl" for p
    using ReadPackedValue_Append [OF b, of p f] that f by (simp add: payload_def)
  have "take_bit b (slot_xor bl f h) = slot_xor bl f h"
    using f unat_positions [OF bl, of h] by (simp add: slot_xor_def)
  then have "slot_xor bl f h AND BitMask b = slot_xor bl f h" by (simp add: mask_simps)
  then show ?thesis
    using b ub unat_positions [OF bl, of h] block_ok_bounds(1,2) [OF bl]
    by (simp add: XorKeyMayMatch_def Let_def kEncodingXor_def kEncodingEmpty_def kEncodingBloom_def
        kEncodingAlwaysMatch_def leD h_def [symmetric] payload_def [symmetric] rdp GetPositions_def
        slot_xor_def flip: len)
qed

lemma TryBuildXor_spec:
  assumes b: "0 < b" "b \<le> 16" and bl: "block_ok bl" and hs: "length hashes < 2 ^ 32"
  shows "TryBuildXor hashes bl b seed = Some None
    \<or> (\<exists>f. TryBuildXor hashes bl b seed = Some (Some f)
        \<and> (\<forall>key. XorHash64 key seed \<in> set hashes \<longrightarrow> XorKeyMayMatch key f = Some True))"
proof -
  from xor_table_correct [OF bl hs, of b] obtain order where order:
    "peel bl (3 * unat bl) hashes = Some order"
    "length order = length hashes \<Longrightarrow>
      \<exists>f. assign_reverse bl b order (replicate (3 * unat bl) 0) = Some f
        \<and> length f = 3 * unat bl \<and> (\<forall>i < length f. take_bit b (f ! i) = f ! i)
        \<and> (\<forall>h \<in> set hashes. slot_xor bl f h = Fingerprint h b)" by blast
  show ?thesis
  proof (cases "length order = length hashes")
    case False
    then show ?thesis by (simp add: TryBuildXor_def block_ok_bounds [OF bl] order(1))
  next
    case True
    from order(2) [OF True] obtain f where
      f: "assign_reverse bl b order (replicate (3 * unat bl) 0) = Some f" "length f = 3 * unat bl"
        "\<forall>i < length f. take_bit b (f ! i) = f ! i"
        "\<forall>h \<in> set hashes. slot_xor bl f h = Fingerprint h b" by blast
    with True order(1) show ?thesis
      by (cases "hashes = []")
        (simp_all add: TryBuildXor_def block_ok_bounds [OF bl] XorKeyMayMatch_table [OF b bl f(2,3)])
  qed
qed

definition xor_accepts :: "bytes list \<Rightarrow> bool" where
  "xor_accepts keys \<longleftrightarrow> length keys < 2 ^ 31"

lemma ComputeFingerprintBits_range: "0 < ComputeFingerprintBits b" "ComputeFingerprintBits b \<le> 16"
  by (auto simp: ComputeFingerprintBits_def Let_def)

lemma xor_try_spec:
  assumes b: "0 < b" "b \<le> 16" and keys: "xor_accepts keys"
  shows "xor_try keys b seed = Some None
    \<or> (\<exists>f. xor_try keys b seed = Some (Some f) \<and> (\<forall>key \<in> set keys. XorKeyMayMatch key f = Some True))"
proof -
  define hs where "hs = BuildUniqueHashes keys seed"
  have len: "length hs < 2 ^ 32"
    using keys length_BuildUniqueHashes [of keys seed] by (simp add: xor_accepts_def hs_def)
  have mem: "XorHash64 key seed \<in> set hs" if "key \<in> set keys" for key
    using that by (simp add: hs_def set_BuildUniqueHashes)
  show ?thesis
  proof (cases "ComputeBlockLength (length hs) = 0")
    case True
    then show ?thesis by (simp add: xor_try_def hs_def [symmetric] Let_def)
  next
    case False
    from TryBuildXor_spec [OF b ComputeBlockLength_ok [OF False] len, of seed] mem False
    show ?thesis by (auto simp: xor_try_def hs_def [symmetric] Let_def)
  qed
qed

lemma XorEncode_spec:
  assumes "xor_accepts keys"
  shows "\<exists>f. XorEncode (MakeXorFilterPolicy b) keys = Some f
    \<and> (\<forall>key \<in> set keys. XorKeyMayMatch key f = Some True)"
proof (cases "keys = []")
  case True
  then show ?thesis by (simp add: XorEncode_def Let_def)
next
  case False
  define hs where "hs = BuildUniqueHashes keys 0"
  have hs: "hs \<noteq> []" "\<And>key. key \<in> set keys \<Longrightarrow> XorHash64 key 0 \<in> set hs"
    using False set_BuildUniqueHashes [of keys 0] by (auto simp: hs_def)
  note tries = try_seeds_spec [where build = "xor_try keys (ComputeFingerprintBits b)"
      and tries = kMaxSeedTries and seed = 0, OF xor_try_spec [OF ComputeFingerprintBits_range assms]]
  with False hs XorBloomEncoding_match [of _ 0 hs b] show ?thesis
    by (auto simp: XorEncode_def MakeXorFilterPolicy_def Let_def hs_def [symmetric])
qed

interpretation xor: filter_policy "XorCreateFilter (MakeXorFilterPolicy b)"
  XorKeyMayMatch xor_accepts for b
proof
  fix keys dst key f
  show "xor_accepts keys \<Longrightarrow> XorCreateFilter (MakeXorFilterPolicy b) keys [] \<noteq> None"
    using XorEncode_spec [of keys b] by (auto simp: XorCreateFilter_def)
  show "XorCreateFilter (MakeXorFilterPolicy b) keys dst
      = map_option ((@) dst) (XorCreateFilter (MakeXorFilterPolicy b) keys [])"
    by (simp add: XorCreateFilter_def option.map_comp o_def)
  show "xor_accepts keys \<Longrightarrow> key \<in> set keys
      \<Longrightarrow> XorCreateFilter (MakeXorFilterPolicy b) keys [] = Some f
      \<Longrightarrow> XorKeyMayMatch key f = Some True"
    using XorEncode_spec [of keys b] by (auto simp: XorCreateFilter_def)
qed

section \<open>Arbitrary filter bytes\<close>

lemma XorKeyMayMatch_total:
  "\<not> bloom_count_wraps flt \<Longrightarrow> XorKeyMayMatch key flt \<noteq> None"
proof -
  assume "\<not> bloom_count_wraps flt"
  from BloomMayMatch_trailer [OF this] show ?thesis by (simp add: XorKeyMayMatch_def Let_def del: not_None_eq split: option.split)
qed

section \<open>Properties\<close>

text \<open>
  C11: the Xor filter has no false negatives. For every policy that \<open>NewXorFilterPolicy\<close> returns and
  fewer than \<open>2 ^ 31\<close> keys, duplicates included, \<open>CreateFilter\<close> returns, appends one filter, and
  the filter matches every key it was made from, whichever encoding was chosen.
\<close>

theorem xor_no_false_negatives:
  assumes "NewXorFilterPolicy bits_per_key = Some policy" "length keys < 2 ^ 31"
  shows "\<exists>f. XorCreateFilter policy keys dst = Some (dst @ f)
    \<and> (\<forall>key \<in> set keys. XorKeyMayMatch key f = Some True)"
proof -
  have "policy = MakeXorFilterPolicy bits_per_key"
    using assms(1) by (simp add: NewXorFilterPolicy_def split: if_splits)
  with xor.create_obtains [of keys bits_per_key] assms(2) show ?thesis
    unfolding xor_accepts_def by metis
qed

theorem xor_no_false_negatives_witness:
  "NewXorFilterPolicy 10 = Some (MakeXorFilterPolicy 10)
    \<and> (\<exists>f. XorCreateFilter (MakeXorFilterPolicy 10) [[1, 2], [1, 2], [3]] [9] = Some ([9] @ f)
        \<and> XorKeyMayMatch [1, 2] f = Some True)"
  using xor_no_false_negatives [of 10 "MakeXorFilterPolicy 10" "[[1, 2], [1, 2], [3]]" "[9]"]
  by (auto simp: NewXorFilterPolicy_def)

text \<open>
  \<open>KeyMayMatch\<close> of the Xor policy answers for every byte string without leaving it, but for
  strings that end in a Bloom trailer with a bit count of at least \<open>0xfffffff9\<close>.
\<close>

lemma xor_query_total:
  assumes "\<not> bloom_count_wraps flt"
  shows "\<exists>answer. XorKeyMayMatch key flt = Some answer"
  using XorKeyMayMatch_total [OF assms, of key] by auto

end
