(* ===== verification/Rocks_Xor.thy ===== *)
theory Rocks_Xor
  imports Xor_Table
begin

text \<open>
  \<open>XorFilterBitsBuilder\<close> and \<open>XorFilterBitsReader\<close> of the RocksDB engine (\<open>util/xor_filter.cc\<close>;
  the Speedb engine carries the same two classes). The helpers the file repeats from the LevelDB
  version (\<open>BitMask\<close>, the packed values, the positions, \<open>Fingerprint\<close>, the Bloom sizes) and the
  peeling are those of \<open>Packed_Values\<close>, \<open>Filter_Format\<close> and \<open>Xor_Table\<close>. \<open>GetSliceHash64\<close> is
  an argument: what is shown holds for every hash function. \<open>None\<close> is a run without meaning in
  C++: an access out of range, a division by zero or a failed assertion.
\<close>

definition kRocksTrailerSize :: nat where
  "kRocksTrailerSize = 5 + 9"

definition kRocksDbMarkerXor :: u8 where
  "kRocksDbMarkerXor = - 3"

definition MixHash :: "u64 \<Rightarrow> u32 \<Rightarrow> u64" where
  "MixHash hash seed =
     (let mixed = hash XOR (ucast seed * 0x9e3779b97f4a7c15);
          mixed = mixed * 0xff51afd7ed558ccd;
          mixed = mixed XOR drop_bit 33 mixed;
          mixed = mixed * 0xc4ceb9fe1a85ec53
      in mixed XOR drop_bit 33 mixed)"

text \<open>The nine bytes of the format and the five metadata bytes that RocksDB expects.\<close>

definition rocks_trailer :: "u32 \<Rightarrow> u32 \<Rightarrow> u8 \<Rightarrow> bytes" where
  "rocks_trailer seed block_length aux =
     EncodeFixed32 seed @ EncodeFixed32 block_length @ [aux, kRocksDbMarkerXor, 0, 0, 0, 0]"

definition RocksFingerprintBits :: "int \<Rightarrow> nat" where
  "RocksFingerprintBits bits_per_key =
     (let bits = mul_ceil double_ln_2 bits_per_key;
          bits = (if bits < 1 then 1 else bits)
      in nat (if bits > 16 then 16 else bits))"

definition BuildBloomFallback :: "u64 list \<Rightarrow> int \<Rightarrow> bytes option" where
  "BuildBloomFallback hashes bits_per_key =
     (let bit_count = BloomBitCount (length hashes) bits_per_key;
          byte_count = unat (bit_count div 8);
          probes = BloomProbeCount bits_per_key
      in if bit_count = 0 \<and> hashes \<noteq> [] then None
         else Some (add_hashes probes (map ucast hashes) (unat bit_count) (replicate byte_count 0)
           @ rocks_trailer bit_count 0 (of_nat probes)))"

section \<open>The builder\<close>

record XorFilterBitsBuilder =
  xb_bits_per_key :: int
  xb_hash_entries :: "u64 list"

definition NewXorFilterBitsBuilder :: "int \<Rightarrow> XorFilterBitsBuilder" where
  "NewXorFilterBitsBuilder bits_per_key = \<lparr>xb_bits_per_key = bits_per_key, xb_hash_entries = []\<rparr>"

definition RocksAddKey :: "(bytes \<Rightarrow> u64) \<Rightarrow> bytes \<Rightarrow> XorFilterBitsBuilder \<Rightarrow> XorFilterBitsBuilder" where
  "RocksAddKey GetSliceHash64 key b =
     (let hash = GetSliceHash64 key in
      if xb_hash_entries b = [] \<or> hash \<noteq> last (xb_hash_entries b)
      then b\<lparr>xb_hash_entries := xb_hash_entries b @ [hash]\<rparr> else b)"

definition EstimateEntriesAdded :: "XorFilterBitsBuilder \<Rightarrow> nat" where
  "EstimateEntriesAdded b = length (xb_hash_entries b)"

definition rocks_block_length :: "nat \<Rightarrow> u32" where
  "rocks_block_length num_entries =
     (let capacity = of_nat num_entries * 123 div 100 + 32 :: u64 in ucast (capacity div 3))"

definition CalculateSpace :: "XorFilterBitsBuilder \<Rightarrow> nat \<Rightarrow> u64" where
  "CalculateSpace b num_entries =
     (let fp_bits = RocksFingerprintBits (xb_bits_per_key b);
          table_size = 3 * rocks_block_length num_entries
      in (ucast table_size * of_nat fp_bits + 7) div 8 + of_nat kRocksTrailerSize)"

definition rocks_try :: "u32 \<Rightarrow> nat \<Rightarrow> u64 list \<Rightarrow> u32 \<Rightarrow> (u32 \<times> PeelEntry list) option option" where
  "rocks_try block_length table_size hashes seed =
     (case peel block_length table_size (map (\<lambda>h. MixHash h seed) hashes) of
        None \<Rightarrow> None
      | Some peel_order \<Rightarrow>
          Some (if length peel_order = length hashes then Some (seed, peel_order) else None))"

definition FinishData :: "int \<Rightarrow> u64 list \<Rightarrow> bytes option" where
  "FinishData bits_per_key hashes =
     (let key_count = length hashes in
      if key_count = 0 then Some (rocks_trailer 0 0 0)
      else if bits_per_key \<le> 0 \<or> bits_per_key > 16 then BuildBloomFallback hashes bits_per_key
      else
        let fingerprint_bits = RocksFingerprintBits bits_per_key;
            block_length = rocks_block_length key_count;
            table_size = 3 * block_length
        in if table_size > 0xffffffff \<or> block_length = 0 \<or> key_count > unat table_size
           then BuildBloomFallback hashes bits_per_key
           else
             case try_seeds (rocks_try block_length (unat table_size) hashes) kMaxSeedTries 0 of
               None \<Rightarrow> None
             | Some None \<Rightarrow> BuildBloomFallback hashes bits_per_key
             | Some (Some (best_seed, peel_order)) \<Rightarrow>
                 (case assign_reverse block_length fingerprint_bits peel_order
                         (replicate (unat table_size) 0) of
                    None \<Rightarrow> None
                  | Some table \<Rightarrow>
                      Some (AppendPackedValues table fingerprint_bits []
                        @ rocks_trailer best_seed block_length (of_nat fingerprint_bits))))"

definition RocksFinish :: "XorFilterBitsBuilder \<Rightarrow> XorFilterBitsBuilder \<times> bytes option" where
  "RocksFinish b =
     (let hashes = remdups_adj (sort (xb_hash_entries b))
      in (b\<lparr>xb_hash_entries := hashes\<rparr>, FinishData (xb_bits_per_key b) hashes))"

section \<open>The reader\<close>

record XorFilterBitsReader =
  xr_filter :: bytes
  xr_seed :: u32
  xr_block_length :: u32
  xr_fingerprint_bits :: u8
  xr_payload_size :: nat

text \<open>
  For contents shorter than the trailer the C++ leaves the other fields uninitialised; they are
  not read then, because \<open>HashMayMatch\<close> tests the payload size first.
\<close>

definition NewXorFilterBitsReader :: "bytes \<Rightarrow> XorFilterBitsReader" where
  "NewXorFilterBitsReader contents =
     (if length contents < kRocksTrailerSize then
        \<lparr>xr_filter = contents, xr_seed = 0, xr_block_length = 0, xr_fingerprint_bits = 0,
         xr_payload_size = 0\<rparr>
      else
        let trailer = drop (length contents - kRocksTrailerSize) contents
        in \<lparr>xr_filter = contents, xr_seed = DecodeFixed32 trailer,
            xr_block_length = DecodeFixed32 (drop 4 trailer), xr_fingerprint_bits = trailer ! 8,
            xr_payload_size = length contents - kRocksTrailerSize\<rparr>)"

definition HashMayMatch :: "XorFilterBitsReader \<Rightarrow> u64 \<Rightarrow> bool option" where
  "HashMayMatch r h =
     (if xr_payload_size r = 0 then Some True
      else if xr_block_length r = 0 then
        let bit_count = xr_seed r;
            probes = unat (xr_fingerprint_bits r)
        in if bit_count = 0 \<or> probes = 0 then Some True
           else check_probes probes (ucast h) (rotate_right_17 (ucast h)) (unat bit_count) (xr_filter r)
      else
        let mixed = MixHash h (xr_seed r);
            ps = GetPositions mixed (xr_block_length r);
            fingerprint_bits = unat (xr_fingerprint_bits r);
            payload = take (xr_payload_size r) (xr_filter r)
        in case ReadPackedValue payload (ps ! 0) fingerprint_bits of
             None \<Rightarrow> Some True
           | Some v0 \<Rightarrow>
               if fingerprint_bits < 1 \<or> fingerprint_bits > 16 then None
               else
                 (case (ReadPackedValue payload (ps ! 1) fingerprint_bits,
                        ReadPackedValue payload (ps ! 2) fingerprint_bits) of
                    (Some v1, Some v2) \<Rightarrow>
                      Some (Fingerprint mixed fingerprint_bits = v0 XOR v1 XOR v2)
                  | _ \<Rightarrow> Some True))"

definition MayMatch :: "(bytes \<Rightarrow> u64) \<Rightarrow> XorFilterBitsReader \<Rightarrow> bytes \<Rightarrow> bool option" where
  "MayMatch GetSliceHash64 r entry = HashMayMatch r (GetSliceHash64 entry)"

section \<open>What the reader sees of a built filter\<close>

lemma reader_of_trailer:
  "NewXorFilterBitsReader (payload @ rocks_trailer seed bl aux) =
     \<lparr>xr_filter = payload @ rocks_trailer seed bl aux, xr_seed = seed, xr_block_length = bl,
      xr_fingerprint_bits = aux, xr_payload_size = length payload\<rparr>"
proof -
  have "length (rocks_trailer seed bl aux) = kRocksTrailerSize"
    by (simp add: rocks_trailer_def kRocksTrailerSize_def)
  then show ?thesis by (simp add: NewXorFilterBitsReader_def rocks_trailer_def nth_append)
qed

lemma BuildBloomFallback_match:
  assumes "BuildBloomFallback hashes b = Some f" "h \<in> set hashes"
  shows "HashMayMatch (NewXorFilterBitsReader f) h = Some True"
proof -
  define bc where "bc = BloomBitCount (length hashes) b"
  define k where "k = BloomProbeCount b"
  define n where "n = unat (bc div 8)"
  define payload where "payload = add_hashes k (map ucast hashes) (unat bc) (replicate n 0)"
  have nz: "bc \<noteq> 0" and f: "f = payload @ rocks_trailer bc 0 (of_nat k)"
    using assms by (auto simp: BuildBloomFallback_def bc_def k_def n_def payload_def Let_def
        split: if_splits)
  have bc: "unat bc = 8 * n" "64 \<le> unat bc"
    using BloomBitCount_shape [of "length hashes" b] nz by (simp_all add: bc_def n_def unat_div)
  have k: "unat (of_nat k :: u8) = k" "1 \<le> k"
    using BloomProbeCount_range [of b] by (simp_all add: k_def unat_of_nat_small)
  have len: "length payload = n" by (simp add: payload_def)
  have "check_probes k (ucast h) (rotate_right_17 (ucast h)) (unat bc) payload = Some True"
    unfolding payload_def using bc assms(2) by (intro check_add_hashes) auto
  then have "check_probes k (ucast h) (rotate_right_17 (ucast h)) (unat bc) f = Some True"
    unfolding f using bc len by (simp add: check_probes_append)
  with bc len k nz show ?thesis
    by (simp add: f reader_of_trailer HashMayMatch_def flip: unat_eq_zero)
qed

lemma HashMayMatch_table:
  assumes b: "0 < b" "b \<le> 16" and bl: "block_ok bl" and f: "length f = 3 * unat bl"
    "\<forall>i < length f. take_bit b (f ! i) = f ! i"
    and h: "slot_xor bl f (MixHash h seed) = Fingerprint (MixHash h seed) b"
  shows "HashMayMatch (NewXorFilterBitsReader
      (AppendPackedValues f b [] @ rocks_trailer seed bl (of_nat b))) h = Some True"
proof -
  define m where "m = MixHash h seed"
  have ub: "unat (of_nat b :: u8) = b" using b by (simp add: unat_of_nat_small)
  have rdp: "ReadPackedValue (AppendPackedValues f b []) p b = Some (f ! unat p)"
    if "unat p < 3 * unat bl" for p
    using ReadPackedValue_Append [OF b, of p f] that f by simp
  have "bl \<noteq> 0" using bl by (simp add: block_ok_def)
  then show ?thesis
    using b ub unat_positions [OF bl, of m] h
    by (simp add: HashMayMatch_def reader_of_trailer Let_def rdp GetPositions_def m_def [symmetric]
        slot_xor_def)
qed

section \<open>No false negatives\<close>

definition rocks_accepts :: "int \<Rightarrow> nat \<Rightarrow> bool" where
  "rocks_accepts bits_per_key key_count \<longleftrightarrow>
     0 \<le> bits_per_key \<and> key_count < 2 ^ 31 \<and> int key_count * bits_per_key \<le> 0xfffffff8"

lemma BloomBitCount_nonzero:
  assumes "rocks_accepts b n"
  shows "BloomBitCount n b \<noteq> 0"
proof -
  define m where "m = n * nat b"
  have "int m \<le> 0xfffffff8" using assms by (simp add: m_def rocks_accepts_def)
  then have m: "m \<le> 0xfffffff8" by linarith
  define bits where "bits = (if m < 64 then 64 else m)"
  have bits: "64 \<le> bits" "bits \<le> 0xfffffff8" using m by (simp_all add: bits_def)
  have "(of_int b :: u64) = of_nat (nat b)" using assms by (simp add: rocks_accepts_def)
  then have prod: "of_nat n * of_int b = (of_nat m :: u64)" by (simp add: m_def)
  have "unat (of_nat m :: u64) = m" using m by (intro unat_of_nat_small) simp
  then have "(if (of_nat m :: u64) < 64 then 64 else of_nat m) = (of_nat bits :: u64)"
    by (simp add: bits_def word_less_nat_alt)
  moreover define w where "w = ((of_nat bits + 7) AND NOT 7 :: u64)"
  ultimately have eq: "BloomBitCount n b = (if w > 0xffffffff then 0 else ucast w)"
    by (simp only: BloomBitCount_def Let_def prod)
  have "unat (of_nat (bits + 7) :: u64) = bits + 7"
    using bits by (intro unat_of_nat_small) simp
  then have "unat (of_nat bits + 7 :: u64) = bits + 7" by simp
  then have w: "unat w = 8 * ((bits + 7) div 8)" by (simp only: w_def unat_and_not_7)
  have "(bits + 7) div 8 \<le> (0xfffffff8 + 7) div 8" using bits by (intro div_le_mono) simp
  then have up: "unat w \<le> 0xfffffff8" using w by simp
  have "8 \<le> (bits + 7) div 8" using bits div_le_mono [of 71 "bits + 7" 8] by simp
  then have low: "64 \<le> unat w" using w by simp
  have "unat (ucast w :: u32) = unat w" using up by (simp add: unsigned_ucast_eq take_bit_nat_eq_self)
  with low have "unat (ucast w :: u32) \<noteq> 0" by simp
  then have "(ucast w :: u32) \<noteq> 0" by (rule contrapos_nn) (simp only: unsigned_0)
  moreover have "\<not> w > 0xffffffff" using up by (simp add: word_less_nat_alt)
  ultimately show ?thesis by (simp add: eq)
qed

lemma BuildBloomFallback_defined: "rocks_accepts b (length hashes) \<Longrightarrow> \<exists>f. BuildBloomFallback hashes b = Some f"
  by (simp add: BuildBloomFallback_def BloomBitCount_nonzero Let_def)

lemma rocks_block_ok:
  assumes "n < 2 ^ 31"
  shows "block_ok (rocks_block_length n)" "unat (3 * rocks_block_length n) = 3 * unat (rocks_block_length n)"
proof -
  define c where "c = n * 123 div 100 + 32"
  have "n * 123 div 100 \<le> (2 ^ 31 - 1) * 123 div 100" using assms by (intro div_le_mono mult_le_mono) auto
  then have c: "c < 2641404920" "32 \<le> c" by (simp_all add: c_def)
  have "unat (of_nat (n * 123) :: u64) = n * 123" using assms by (intro unat_of_nat_small) simp
  then have "unat (of_nat n * 123 div 100 :: u64) = n * 123 div 100" by (simp add: unat_div)
  then have "of_nat n * 123 div 100 = (of_nat (n * 123 div 100) :: u64)" by (metis of_nat_unat ucast_id)
  then have cap: "of_nat n * 123 div 100 + 32 = (of_nat c :: u64)" by (simp add: c_def)
  have "unat (of_nat c :: u64) = c" using c by (intro unat_of_nat_small) simp
  then have "unat ((of_nat c :: u64) div 3) = c div 3" by (simp add: unat_div)
  moreover have "c div 3 < 2 ^ 32" using c by auto
  ultimately have bl: "unat (rocks_block_length n) = c div 3"
    by (simp only: rocks_block_length_def Let_def cap unsigned_ucast_eq) (simp add: take_bit_nat_eq_self)
  have "3 * (c div 3) \<le> c" by simp
  then have small: "3 * unat (rocks_block_length n) < 2 ^ 32" using bl c by simp
  have "unat (rocks_block_length n) \<noteq> 0" using bl c by simp
  then show "block_ok (rocks_block_length n)" using small by (auto simp: block_ok_def)
  show "unat (3 * rocks_block_length n) = 3 * unat (rocks_block_length n)"
    using unat_mult_lem [of 3 "rocks_block_length n"] small by simp
qed

lemma RocksFingerprintBits_range: "0 < RocksFingerprintBits b" "RocksFingerprintBits b \<le> 16"
  by (auto simp: RocksFingerprintBits_def Let_def)

lemma FinishData_spec:
  assumes acc: "rocks_accepts b (length hashes)"
  shows "\<exists>f. FinishData b hashes = Some f \<and> (\<forall>h \<in> set hashes. HashMayMatch (NewXorFilterBitsReader f) h = Some True)"
proof -
  define bl where "bl = rocks_block_length (length hashes)"
  define bits where "bits = RocksFingerprintBits b"
  have n: "length hashes < 2 ^ 31" using acc by (simp add: rocks_accepts_def)
  have bl: "block_ok bl" "unat (3 * bl) = 3 * unat bl" using rocks_block_ok [OF n] by (simp_all add: bl_def)
  have b: "0 < bits" "bits \<le> 16" using RocksFingerprintBits_range by (simp_all add: bits_def)
  from BuildBloomFallback_defined [OF acc] obtain bf where bf: "BuildBloomFallback hashes b = Some bf" by blast
  note bloom = BuildBloomFallback_match [OF bf]
  define P where "P = (\<lambda>(seed, order). \<exists>f. assign_reverse bl bits order (replicate (3 * unat bl) 0) = Some f
      \<and> (\<forall>h \<in> set hashes. HashMayMatch (NewXorFilterBitsReader
          (AppendPackedValues f bits [] @ rocks_trailer seed bl (of_nat bits))) h = Some True))"
  have "rocks_try bl (3 * unat bl) hashes seed = Some None
      \<or> (\<exists>r. rocks_try bl (3 * unat bl) hashes seed = Some (Some r) \<and> P r)" for seed
  proof -
    have "length (map (\<lambda>h. MixHash h seed) hashes) < 2 ^ 32" using n by simp
    from xor_table_correct [OF bl(1) this, of bits] obtain order where order:
      "peel bl (3 * unat bl) (map (\<lambda>h. MixHash h seed) hashes) = Some order"
      "length order = length hashes \<Longrightarrow> \<exists>f. assign_reverse bl bits order (replicate (3 * unat bl) 0) = Some f
        \<and> length f = 3 * unat bl \<and> (\<forall>i < length f. take_bit bits (f ! i) = f ! i)
        \<and> (\<forall>h \<in> set (map (\<lambda>h. MixHash h seed) hashes). slot_xor bl f h = Fingerprint h bits)" by auto
    have "P (seed, order)" if "length order = length hashes"
    proof -
      from order(2) [OF that] obtain f where
        f: "assign_reverse bl bits order (replicate (3 * unat bl) 0) = Some f"
        "length f = 3 * unat bl" "\<forall>i < length f. take_bit bits (f ! i) = f ! i"
        "\<forall>h \<in> set hashes. slot_xor bl f (MixHash h seed) = Fingerprint (MixHash h seed) bits" by auto
      then show ?thesis using HashMayMatch_table [OF b bl(1) f(2,3)] by (simp add: P_def)
    qed
    with order(1) show ?thesis by (simp add: rocks_try_def)
  qed
  note tries = try_seeds_spec [where P = P and build = "rocks_try bl (3 * unat bl) hashes" and tries = kMaxSeedTries and seed = 0, OF this]
  have top: "\<not> 3 * bl > 0xffffffff" using word_le_nat_alt [of "3 * bl" "0xffffffff"]
    unsigned_less [of "3 * bl", where ?'a = nat] by (simp add: not_less)
  from tries consider "try_seeds (rocks_try bl (3 * unat bl) hashes) kMaxSeedTries 0 = Some None"
    | seed order f where "try_seeds (rocks_try bl (3 * unat bl) hashes) kMaxSeedTries 0 = Some (Some (seed, order))"
      "assign_reverse bl bits order (replicate (3 * unat bl) 0) = Some f"
      "\<forall>h \<in> set hashes. HashMayMatch (NewXorFilterBitsReader
          (AppendPackedValues f bits [] @ rocks_trailer seed bl (of_nat bits))) h = Some True"
    by (auto simp: P_def)
  then show ?thesis
    by cases (use bf bloom top bl in \<open>simp_all add: FinishData_def Let_def bl_def [symmetric] bits_def [symmetric]\<close>)
qed

lemma RocksAddKey_entries:
  "set (xb_hash_entries (RocksAddKey H key b)) = insert (H key) (set (xb_hash_entries b))"
  "xb_bits_per_key (RocksAddKey H key b) = xb_bits_per_key b"
  "length (xb_hash_entries (RocksAddKey H key b)) \<le> Suc (length (xb_hash_entries b))"
  by (auto simp: RocksAddKey_def Let_def)

lemma add_keys_entries:
  "set (xb_hash_entries (fold (RocksAddKey H) keys b)) = H ` set keys \<union> set (xb_hash_entries b)
    \<and> xb_bits_per_key (fold (RocksAddKey H) keys b) = xb_bits_per_key b
    \<and> length (xb_hash_entries (fold (RocksAddKey H) keys b)) \<le> length keys + length (xb_hash_entries b)"
proof (induction keys arbitrary: b)
  case (Cons key keys)
  from Cons [of "RocksAddKey H key b"] RocksAddKey_entries [of H key b] show ?case by auto
qed simp

lemma rocks_accepts_mono: "rocks_accepts b n \<Longrightarrow> m \<le> n \<Longrightarrow> rocks_accepts b m"
  using mult_right_mono [of "int m" "int n" b] by (auto simp: rocks_accepts_def)

lemma rocks_finish_match:
  assumes "rocks_accepts b (length keys)"
  shows "\<exists>f. snd (RocksFinish (fold (RocksAddKey H) keys (NewXorFilterBitsBuilder b))) = Some f
    \<and> (\<forall>key \<in> set keys. MayMatch H (NewXorFilterBitsReader f) key = Some True)"
proof -
  define bld where "bld = fold (RocksAddKey H) keys (NewXorFilterBitsBuilder b)"
  define hs where "hs = remdups_adj (sort (xb_hash_entries bld))"
  have bld: "set (xb_hash_entries bld) = H ` set keys" "xb_bits_per_key bld = b"
    "length (xb_hash_entries bld) \<le> length keys"
    using add_keys_entries [of H keys "NewXorFilterBitsBuilder b"]
    by (simp_all add: bld_def NewXorFilterBitsBuilder_def)
  have "length hs \<le> length keys"
    using remdups_adj_length [of "sort (xb_hash_entries bld)"] bld(3) by (simp add: hs_def)
  then have "rocks_accepts b (length hs)" by (rule rocks_accepts_mono [OF assms])
  from FinishData_spec [OF this] obtain f where
    "FinishData b hs = Some f" "\<forall>h \<in> set hs. HashMayMatch (NewXorFilterBitsReader f) h = Some True" by blast
  then show ?thesis
    using bld by (simp add: RocksFinish_def Let_def hs_def bld_def MayMatch_def)
qed

section \<open>Outside the accepted range\<close>

text \<open>
  A hundred bits for each of 42,949,673 keys is more than \<open>2 ^ 32 - 8\<close> bits: \<open>BloomBitCount\<close>
  reports 0 and \<open>BuildBloomFallback\<close>, which does not test for it, divides by it.
\<close>

lemma rocks_fallback_divides_by_zero:
  assumes "length hashes = 42949673"
  shows "FinishData 100 hashes = None"
proof -
  have "BloomBitCount 42949673 100 = 0" by (simp add: BloomBitCount_def)
  moreover have "hashes \<noteq> []" using assms by auto
  ultimately show ?thesis using assms by (simp add: FinishData_def BuildBloomFallback_def)
qed

text \<open>The reader takes the bit count of the trailer at its word, whatever the size of the payload.\<close>

lemma rocks_reader_out_of_bounds:
  "HashMayMatch (NewXorFilterBitsReader (0xff # rocks_trailer 200 0 1)) 150 = None"
  by code_simp

section \<open>Properties\<close>

text \<open>
  C17: the Xor filter of the RocksDB engine has no false negatives. For every hash function, every
  non-negative number of bits per key and every key list whose Bloom fallback would fit 32 bits,
  \<open>Finish\<close> after one \<open>AddKey\<close> for each key returns a filter that \<open>MayMatch\<close> accepts every key of.
\<close>

theorem rocks_xor_no_false_negatives:
  assumes "rocks_accepts bits_per_key (length keys)"
  shows "\<exists>f. snd (RocksFinish (fold (RocksAddKey H) keys (NewXorFilterBitsBuilder bits_per_key))) = Some f
    \<and> (\<forall>key \<in> set keys. MayMatch H (NewXorFilterBitsReader f) key = Some True)"
  using assms by (rule rocks_finish_match)

theorem rocks_xor_no_false_negatives_witness:
  "\<exists>f. snd (RocksFinish (fold (RocksAddKey (\<lambda>k. of_nat (length k))) [[1], [2, 3]] (NewXorFilterBitsBuilder 10)))
      = Some f
    \<and> MayMatch (\<lambda>k. of_nat (length k)) (NewXorFilterBitsReader f) [2, 3] = Some True"
  using rocks_xor_no_false_negatives [of 10 "[[1], [2, 3]]" "\<lambda>k. of_nat (length k)"]
  by (auto simp: rocks_accepts_def)



end
