(* ===== verification/Key_Order.thy ===== *)
theory Key_Order
  imports Main
begin

text \<open>
  The contract of a comparator as the ordered structures rely on it, and what it gives for sorted
  lists: a total preorder on the keys it is given. Keys that compare equal need not be equal.
\<close>

locale key_order =
  fixes compare_keys :: "'k \<Rightarrow> 'k \<Rightarrow> int" and valid :: "'k \<Rightarrow> bool"
  assumes order_swap: "valid a \<Longrightarrow> valid b \<Longrightarrow> compare_keys a b < 0 \<longleftrightarrow> compare_keys b a > 0"
    and order_le_trans: "valid a \<Longrightarrow> valid b \<Longrightarrow> valid c \<Longrightarrow> compare_keys a b \<le> 0
      \<Longrightarrow> compare_keys b c \<le> 0 \<Longrightarrow> compare_keys a c \<le> 0"
begin

lemma less_trans_order:
  assumes "valid a" "valid b" "valid c" "compare_keys a b < 0" "compare_keys b c < 0"
  shows "compare_keys a c < 0"
proof (rule ccontr)
  assume "\<not> compare_keys a c < 0"
  then have "compare_keys c a \<le> 0" using order_swap [of a c] assms by linarith
  then have "compare_keys b a \<le> 0" using order_le_trans [of b c a] assms by simp
  with assms order_swap [of a b] show False by simp
qed

lemma takeWhile_sorted:
  assumes "sorted_wrt (\<lambda>a b. compare_keys (f a) (f b) < 0) xs" "\<forall>a \<in> set xs. valid (f a)" "valid k"
  shows "takeWhile (\<lambda>a. compare_keys (f a) k < 0) xs = filter (\<lambda>a. compare_keys (f a) k < 0) xs"
    and "dropWhile (\<lambda>a. compare_keys (f a) k < 0) xs = filter (\<lambda>a. \<not> compare_keys (f a) k < 0) xs"
  using assms
proof (induction xs)
  case (Cons x xs)
  { case 1
    show ?case
    proof (cases "compare_keys (f x) k < 0")
      case False
      have "\<not> compare_keys (f a) k < 0" if "a \<in> set xs" for a
        using less_trans_order [of "f x" "f a" k] 1 that False by auto
      with False show ?thesis by simp
    qed (use 1 Cons.IH in simp)
  next
    case 2
    show ?case
    proof (cases "compare_keys (f x) k < 0")
      case False
      have "\<not> compare_keys (f a) k < 0" if "a \<in> set xs" for a
        using less_trans_order [of "f x" "f a" k] 2 that False by auto
      with False show ?thesis by simp
    qed (use 2 Cons.IH in simp)
  }
qed simp_all

end

end
