(* ===== verification/Comparator.thy ===== *)
theory Comparator
  imports Coding Key_Order
begin

text \<open>
  \<open>include/leveldb/slice.h\<close>, the contract of \<open>include/leveldb/comparator.h\<close> as a locale, and the
  bytewise comparator of \<open>util/comparator.cc\<close>, which provides it. \<open>memcmp\<close> is modelled by the sign
  of its result, which is all the standard fixes and all the callers use.
\<close>

section \<open>Slices\<close>

fun memcmp :: "bytes \<Rightarrow> bytes \<Rightarrow> int" where
  "memcmp (x # xs) (y # ys) = (if x < y then -1 else if y < x then 1 else memcmp xs ys)"
| "memcmp xs ys = 0"

definition slice_compare :: "bytes \<Rightarrow> bytes \<Rightarrow> int" where
  "slice_compare a b =
     (let min_len = (if length a < length b then length a else length b);
          r = memcmp (take min_len a) (take min_len b)
      in if r = 0 then (if length a < length b then -1 else if length a > length b then 1 else r)
         else r)"

definition slice_starts_with :: "bytes \<Rightarrow> bytes \<Rightarrow> bool" where
  "slice_starts_with s x \<longleftrightarrow> length s \<ge> length x \<and> memcmp (take (length x) s) x = 0"

definition slice_equal :: "bytes \<Rightarrow> bytes \<Rightarrow> bool" where
  "slice_equal x y \<longleftrightarrow> length x = length y \<and> memcmp x y = 0"

definition remove_prefix :: "nat \<Rightarrow> bytes \<Rightarrow> bytes option" where
  "remove_prefix n s = (if n \<le> length s then Some (drop n s) else None)"

section \<open>The bytewise comparator\<close>

definition BytewiseCompare :: "bytes \<Rightarrow> bytes \<Rightarrow> int" where
  "BytewiseCompare a b = slice_compare a b"

function diff_index_loop :: "bytes \<Rightarrow> bytes \<Rightarrow> nat \<Rightarrow> nat \<Rightarrow> nat" where
  "diff_index_loop start limit min_length diff_index =
     (if diff_index < min_length \<and> start ! diff_index = limit ! diff_index
      then diff_index_loop start limit min_length (diff_index + 1) else diff_index)"
  by pat_completeness auto
termination by (relation "measure (\<lambda>(_, _, min_length, diff_index). min_length - diff_index)") auto

declare diff_index_loop.simps [simp del]

text \<open>The sum \<open>diff_byte + 1\<close> is computed as an \<open>int\<close>; the increment stays within the byte.\<close>

definition BytewiseFindShortestSeparator :: "bytes \<Rightarrow> bytes \<Rightarrow> bytes" where
  "BytewiseFindShortestSeparator start limit =
     (let min_length = min (length start) (length limit);
          diff_index = diff_index_loop start limit min_length 0
      in if diff_index \<ge> min_length then start
         else
           let diff_byte = start ! diff_index
           in if diff_byte < 0xff \<and> unat diff_byte + 1 < unat (limit ! diff_index)
              then take (diff_index + 1) (start[diff_index := diff_byte + 1])
              else start)"

function successor_loop :: "bytes \<Rightarrow> nat \<Rightarrow> bytes" where
  "successor_loop key i =
     (if i < length key then
        let byte = key ! i
        in if byte \<noteq> 0xff then take (i + 1) (key[i := byte + 1]) else successor_loop key (i + 1)
      else key)"
  by pat_completeness auto
termination by (relation "measure (\<lambda>(key, i). length key - i)") auto

declare successor_loop.simps [simp del]

definition BytewiseFindShortSuccessor :: "bytes \<Rightarrow> bytes" where
  "BytewiseFindShortSuccessor key = successor_loop key 0"

section \<open>The contract of a comparator\<close>

text \<open>
  \<open>Compare\<close> is a total order on the keys it is meant for. \<open>FindShortestSeparator\<close> moves a key that
  is below its limit within the half-open interval and leaves a key that equals its limit alone;
  \<open>FindShortSuccessor\<close> moves a key upwards.
\<close>

locale comparator =
  fixes compare_keys :: "bytes \<Rightarrow> bytes \<Rightarrow> int"
    and separator :: "bytes \<Rightarrow> bytes \<Rightarrow> bytes"
    and successor :: "bytes \<Rightarrow> bytes"
    and valid :: "bytes \<Rightarrow> bool"
  assumes compare_zero: "valid a \<Longrightarrow> valid b \<Longrightarrow> compare_keys a b = 0 \<longleftrightarrow> a = b"
    and compare_swap: "valid a \<Longrightarrow> valid b \<Longrightarrow> compare_keys a b < 0 \<longleftrightarrow> compare_keys b a > 0"
    and compare_trans: "valid a \<Longrightarrow> valid b \<Longrightarrow> valid c \<Longrightarrow> compare_keys a b < 0
      \<Longrightarrow> compare_keys b c < 0 \<Longrightarrow> compare_keys a c < 0"
    and separator_between: "valid a \<Longrightarrow> valid b \<Longrightarrow> compare_keys a b < 0
      \<Longrightarrow> valid (separator a b) \<and> compare_keys a (separator a b) \<le> 0 \<and> compare_keys (separator a b) b < 0"
    and separator_same: "valid a \<Longrightarrow> separator a a = a"
    and successor_above: "valid a \<Longrightarrow> valid (successor a) \<and> compare_keys a (successor a) \<le> 0"
begin

lemma compare_refl: "valid a \<Longrightarrow> compare_keys a a = 0"
  by (simp add: compare_zero)

lemma compare_asym: "valid a \<Longrightarrow> valid b \<Longrightarrow> compare_keys a b < 0 \<Longrightarrow> \<not> compare_keys b a < 0"
  by (auto dest: compare_swap [THEN iffD1])

lemma compare_total: "valid a \<Longrightarrow> valid b \<Longrightarrow> compare_keys a b < 0 \<or> a = b \<or> compare_keys b a < 0"
  using compare_zero [of a b] compare_swap [of b a] by linarith

lemma compare_le_trans:
  assumes "valid a" "valid b" "valid c" "compare_keys a b \<le> 0" "compare_keys b c < 0"
  shows "compare_keys a c < 0"
  using assms compare_trans [of a b c] compare_zero [of a b] by (cases "compare_keys a b = 0") auto

lemma compare_less_le_trans:
  assumes "valid a" "valid b" "valid c" "compare_keys a b < 0" "compare_keys b c \<le> 0"
  shows "compare_keys a c < 0"
  using assms compare_trans [of a b c] compare_zero [of b c] by (cases "compare_keys b c = 0") auto

end

sublocale comparator \<subseteq> order: key_order compare_keys valid
proof
  fix a b c assume "valid a" "valid b"
  then show "compare_keys a b < 0 \<longleftrightarrow> compare_keys b a > 0" by (rule compare_swap)
  assume "valid c" "compare_keys a b \<le> 0" "compare_keys b c \<le> 0"
  then show "compare_keys a c \<le> 0"
    using \<open>valid a\<close> \<open>valid b\<close> compare_le_trans [of a b c] compare_zero [of b c] by (cases "compare_keys b c = 0") auto
qed

section \<open>The bytewise comparator meets it\<close>

fun lex_less :: "bytes \<Rightarrow> bytes \<Rightarrow> bool" where
  "lex_less xs [] = False"
| "lex_less [] (y # ys) = True"
| "lex_less (x # xs) (y # ys) = (x < y \<or> x = y \<and> lex_less xs ys)"

lemma BytewiseCompare_Cons:
  "BytewiseCompare (x # xs) (y # ys) = (if x < y then -1 else if y < x then 1 else BytewiseCompare xs ys)"
  by (simp add: BytewiseCompare_def slice_compare_def Let_def)

lemma BytewiseCompare_Nil [simp]:
  "BytewiseCompare [] [] = 0" "BytewiseCompare [] (y # ys) = -1" "BytewiseCompare (x # xs) [] = 1"
  by (simp_all add: BytewiseCompare_def slice_compare_def)

lemma BytewiseCompare_less: "BytewiseCompare a b < 0 \<longleftrightarrow> lex_less a b"
proof (induction a b rule: lex_less.induct)
  case (1 xs)
  then show ?case by (cases xs) simp_all
qed (auto simp: BytewiseCompare_Cons)

lemma BytewiseCompare_greater: "BytewiseCompare a b > 0 \<longleftrightarrow> lex_less b a"
proof (induction a b rule: lex_less.induct)
  case (1 xs)
  then show ?case by (cases xs) simp_all
qed (auto simp: BytewiseCompare_Cons)

lemma lex_less_trans: "lex_less a b \<Longrightarrow> lex_less b c \<Longrightarrow> lex_less a c"
proof (induction a b arbitrary: c rule: lex_less.induct)
  case (2 y ys)
  then show ?case by (cases c) auto
next
  case (3 x xs y ys)
  then show ?case by (cases c) auto
qed simp

lemma lex_less_irrefl: "\<not> lex_less a a"
  by (induction a) simp_all

lemma lex_less_total: "lex_less a b \<or> a = b \<or> lex_less b a"
proof (induction a b rule: lex_less.induct)
  case (1 xs)
  then show ?case by (cases xs) simp_all
qed auto

lemma BytewiseCompare_zero: "BytewiseCompare a b = 0 \<longleftrightarrow> a = b"
proof -
  have "BytewiseCompare a b = 0 \<longleftrightarrow> \<not> lex_less a b \<and> \<not> lex_less b a"
    using BytewiseCompare_less [of a b] BytewiseCompare_greater [of a b] by linarith
  then show ?thesis using lex_less_total [of a b] lex_less_irrefl by metis
qed

lemma lex_less_at:
  assumes "i < length a" "i < length b" "take i a = take i b" "a ! i < b ! i"
  shows "lex_less a b"
  using assms
proof (induction i arbitrary: a b)
  case 0
  then show ?case by (cases a; cases b) auto
next
  case (Suc i)
  then show ?case by (cases a; cases b) auto
qed

lemma diff_index_spec:
  assumes "i \<le> m" "m = min (length a) (length b)" "take i a = take i b"
  shows "diff_index_loop a b m i \<le> m
    \<and> take (diff_index_loop a b m i) a = take (diff_index_loop a b m i) b
    \<and> (diff_index_loop a b m i < m \<longrightarrow> a ! diff_index_loop a b m i \<noteq> b ! diff_index_loop a b m i)"
  using assms
proof (induction a b m i rule: diff_index_loop.induct)
  case (1 a b m i)
  show ?case
  proof (cases "i < m \<and> a ! i = b ! i")
    case True
    then have "take (i + 1) a = take (i + 1) b" using 1(3,4) by (simp add: take_Suc_conv_app_nth)
    moreover have "diff_index_loop a b m i = diff_index_loop a b m (i + 1)"
      using True by (subst diff_index_loop.simps) simp
    ultimately show ?thesis using 1(1) [OF True _ 1(3)] True by simp
  next
    case False
    then have "diff_index_loop a b m i = i" by (subst diff_index_loop.simps) auto
    with False 1 show ?thesis by auto
  qed
qed

lemma unat_inc: "unat (b :: u8) < 255 \<Longrightarrow> unat (b + 1) = unat b + 1"
  using unat_add_lem [of b 1] by simp

lemma separator_cases:
  assumes "BytewiseFindShortestSeparator a b \<noteq> a"
  obtains d where "d < length a" "d < length b" "take d a = take d b"
    and "unat (a ! d) + 1 < unat (b ! d)" "BytewiseFindShortestSeparator a b = take d a @ [a ! d + 1]"
proof -
  define m where "m = min (length a) (length b)"
  define d where "d = diff_index_loop a b m 0"
  have d: "d \<le> m" "take d a = take d b"
    using diff_index_spec [of 0 m a b] by (simp_all add: d_def m_def)
  have "d < m" and gap: "unat (a ! d) + 1 < unat (b ! d)"
    and eq: "BytewiseFindShortestSeparator a b = take (d + 1) (a[d := a ! d + 1])"
    using assms by (auto simp: BytewiseFindShortestSeparator_def Let_def m_def [symmetric] d_def [symmetric]
        split: if_splits)
  moreover from \<open>d < m\<close> have "d < length a" "d < length b" by (simp_all add: m_def)
  moreover from this have "take (d + 1) (a[d := a ! d + 1]) = take d a @ [a ! d + 1]"
    by (simp add: take_Suc_conv_app_nth)
  ultimately show ?thesis using that [of d] d(2) by metis
qed

lemma separator_bounds:
  assumes "lex_less a b"
  shows "(BytewiseFindShortestSeparator a b = a \<or> lex_less a (BytewiseFindShortestSeparator a b))
    \<and> lex_less (BytewiseFindShortestSeparator a b) b"
proof (cases "BytewiseFindShortestSeparator a b = a")
  case False
  then obtain d where d: "d < length a" "d < length b" "take d a = take d b"
    "unat (a ! d) + 1 < unat (b ! d)" "BytewiseFindShortestSeparator a b = take d a @ [a ! d + 1]"
    by (rule separator_cases)
  have "unat (b ! d) < 256" using unsigned_less [of "b ! d", where ?'a = nat] by simp
  then have "unat (a ! d + 1) = unat (a ! d) + 1" using d(4) by (intro unat_inc) simp
  then have lt: "a ! d < a ! d + 1" "a ! d + 1 < b ! d" using d(4) by (simp_all add: word_less_nat_alt)
  have "lex_less a (take d a @ [a ! d + 1])"
    using d(1) lt(1) by (intro lex_less_at [of d]) (simp_all add: nth_append)
  moreover have "lex_less (take d a @ [a ! d + 1]) b"
    using d lt(2) by (intro lex_less_at [of d]) (simp_all add: nth_append)
  ultimately show ?thesis by (simp add: d(5))
qed (simp add: assms)

lemma separator_of_same: "BytewiseFindShortestSeparator a a = a"
proof (rule ccontr)
  assume "BytewiseFindShortestSeparator a a \<noteq> a"
  then show False by (rule separator_cases) simp
qed

lemma successor_loop_above: "successor_loop key i = key \<or> lex_less key (successor_loop key i)"
proof (induction key i rule: successor_loop.induct)
  case (1 key i)
  show ?case
  proof (cases "i < length key \<and> key ! i \<noteq> 0xff")
    case True
    have "unat (key ! i) \<noteq> unat (0xff :: u8)" using True by (metis unsigned_word_eqI)
    moreover have "unat (key ! i) < 256" using unsigned_less [of "key ! i", where ?'a = nat] by simp
    ultimately have "unat (key ! i + 1) = unat (key ! i) + 1" by (intro unat_inc) simp
    then have "key ! i < key ! i + 1" by (simp add: word_less_nat_alt)
    then have "lex_less key (take i key @ [key ! i + 1])"
      using True by (intro lex_less_at [of i]) (simp_all add: nth_append)
    with True show ?thesis
      by (simp add: successor_loop.simps [of key i] take_Suc_conv_app_nth Let_def)
  next
    case False
    show ?thesis
    proof (cases "i < length key")
      case True
      with False 1 show ?thesis by (simp add: successor_loop.simps [of key i])
    qed (simp add: successor_loop.simps [of key i])
  qed
qed

interpretation bytewise: comparator BytewiseCompare BytewiseFindShortestSeparator
  BytewiseFindShortSuccessor "\<lambda>_. True"
proof
  fix a b c :: bytes
  show "BytewiseCompare a b = 0 \<longleftrightarrow> a = b" by (rule BytewiseCompare_zero)
  show "BytewiseCompare a b < 0 \<longleftrightarrow> BytewiseCompare b a > 0"
    by (simp add: BytewiseCompare_less BytewiseCompare_greater)
  show "BytewiseCompare a b < 0 \<Longrightarrow> BytewiseCompare b c < 0 \<Longrightarrow> BytewiseCompare a c < 0"
    unfolding BytewiseCompare_less by (rule lex_less_trans)
  show "BytewiseCompare a b < 0 \<Longrightarrow> True \<and> BytewiseCompare a (BytewiseFindShortestSeparator a b) \<le> 0
      \<and> BytewiseCompare (BytewiseFindShortestSeparator a b) b < 0"
    using separator_bounds [of a b] BytewiseCompare_zero [of a a]
    by (auto simp: BytewiseCompare_less order_le_less)
  show "BytewiseFindShortestSeparator a a = a" by (rule separator_of_same)
  show "True \<and> BytewiseCompare a (BytewiseFindShortSuccessor a) \<le> 0"
    using successor_loop_above [of a 0] BytewiseCompare_zero [of a a]
    by (auto simp: BytewiseFindShortSuccessor_def BytewiseCompare_less order_le_less)
qed

lemma length_separator: "length (BytewiseFindShortestSeparator a b) \<le> length a"
  by (auto simp: BytewiseFindShortestSeparator_def Let_def)

section \<open>Properties\<close>

text \<open>
  \<open>FindShortestSeparator\<close> of the bytewise comparator returns, for \<open>start < limit\<close>, a string of
  \<open>[start, limit)\<close> that is no longer than \<open>start\<close>; the assertion after the change cannot fail.
\<close>

lemma bytewise_separator_between:
  assumes "BytewiseCompare start limit < 0"
  shows "BytewiseCompare start (BytewiseFindShortestSeparator start limit) \<le> 0
    \<and> BytewiseCompare (BytewiseFindShortestSeparator start limit) limit < 0
    \<and> length (BytewiseFindShortestSeparator start limit) \<le> length start"
  using bytewise.separator_between [of start limit] assms length_separator [of start limit] by simp

text \<open>
  \<open>Slice::compare\<close> is a total order on byte strings: zero exactly for equal slices, antisymmetric
  in its sign, and transitive; \<open>operator==\<close> agrees with it.
\<close>

lemma slice_compare_total_order:
  "(slice_compare a b = 0 \<longleftrightarrow> a = b) \<and> (slice_compare a b < 0 \<longleftrightarrow> slice_compare b a > 0)
    \<and> (slice_compare a b < 0 \<and> slice_compare b c < 0 \<longrightarrow> slice_compare a c < 0)
    \<and> (slice_equal a b \<longleftrightarrow> slice_compare a b = 0)"
proof -
  have "slice_equal a b \<longleftrightarrow> slice_compare a b = 0"
    by (auto simp: slice_equal_def slice_compare_def Let_def)
  then show ?thesis
    using bytewise.compare_zero [of a b] bytewise.compare_swap [of a b] bytewise.compare_trans [of a b c]
    by (simp add: BytewiseCompare_def)
qed

end
