(* ===== verification/Db_Format.thy ===== *)
theory Db_Format
  imports Comparator Filter_Policy
begin

text \<open>
  \<open>db/dbformat.{h,cc}\<close>: internal keys are user keys followed by a 64-bit word of sequence number and
  value type; their comparator orders by user key, then by decreasing sequence number; the internal
  filter policy strips the suffix; a lookup key is the memtable's search key. The user comparator
  and the user policy are arguments; that the derived comparator and policy satisfy the contracts
  the user ones satisfy is shown from the locales. \<open>None\<close> is a failed assertion.
\<close>

section \<open>Internal keys\<close>

datatype ValueType = kTypeDeletion | kTypeValue

fun type_code :: "ValueType \<Rightarrow> u64" where
  "type_code kTypeDeletion = 0"
| "type_code kTypeValue = 1"

definition kValueTypeForSeek :: ValueType where
  "kValueTypeForSeek = kTypeValue"

definition kMaxSequenceNumber :: u64 where
  "kMaxSequenceNumber = push_bit 56 1 - 1"

record ParsedInternalKey =
  ik_user_key :: bytes
  ik_sequence :: u64
  ik_type :: ValueType

definition InternalKeyEncodingLength :: "ParsedInternalKey \<Rightarrow> nat" where
  "InternalKeyEncodingLength key = length (ik_user_key key) + 8"

definition PackSequenceAndType :: "u64 \<Rightarrow> ValueType \<Rightarrow> u64 option" where
  "PackSequenceAndType seq t =
     (if seq \<le> kMaxSequenceNumber then Some (push_bit 8 seq OR type_code t) else None)"

definition AppendInternalKey :: "bytes \<Rightarrow> ParsedInternalKey \<Rightarrow> bytes option" where
  "AppendInternalKey result key =
     map_option (PutFixed64 (result @ ik_user_key key))
       (PackSequenceAndType (ik_sequence key) (ik_type key))"

definition ParseInternalKey :: "bytes \<Rightarrow> ParsedInternalKey option" where
  "ParseInternalKey internal_key =
     (let n = length internal_key in
      if n < 8 then None
      else
        let num = DecodeFixed64 (drop (n - 8) internal_key);
            c = ucast (num AND 0xff) :: u8
        in if c \<le> 1 then
             Some \<lparr>ik_user_key = take (n - 8) internal_key, ik_sequence = drop_bit 8 num,
                   ik_type = (if c = 0 then kTypeDeletion else kTypeValue)\<rparr>
           else None)"

text \<open>\<open>ExtractUserKey\<close> asserts \<open>internal_key_ok\<close>.\<close>

definition internal_key_ok :: "bytes \<Rightarrow> bool" where
  "internal_key_ok internal_key \<longleftrightarrow> length internal_key \<ge> 8"

definition ExtractUserKey :: "bytes \<Rightarrow> bytes" where
  "ExtractUserKey internal_key = take (length internal_key - 8) internal_key"

section \<open>The internal key comparator\<close>

definition InternalKeyCompare :: "(bytes \<Rightarrow> bytes \<Rightarrow> int) \<Rightarrow> bytes \<Rightarrow> bytes \<Rightarrow> int" where
  "InternalKeyCompare user_compare akey bkey =
     (let r = user_compare (ExtractUserKey akey) (ExtractUserKey bkey) in
      if r = 0 then
        let anum = DecodeFixed64 (drop (length akey - 8) akey);
            bnum = DecodeFixed64 (drop (length bkey - 8) bkey)
        in if anum > bnum then -1 else if anum < bnum then 1 else r
      else r)"

definition seek_tag :: u64 where
  "seek_tag = push_bit 8 kMaxSequenceNumber OR type_code kValueTypeForSeek"

text \<open>The key that replaces \<open>start\<close>, before the assertions are tested.\<close>

definition internal_separator ::
    "(bytes \<Rightarrow> bytes \<Rightarrow> int) \<Rightarrow> (bytes \<Rightarrow> bytes \<Rightarrow> bytes) \<Rightarrow> bytes \<Rightarrow> bytes \<Rightarrow> bytes" where
  "internal_separator user_compare user_separator start limit =
     (let user_start = ExtractUserKey start;
          user_limit = ExtractUserKey limit;
          tmp = user_separator user_start user_limit
      in if length tmp < length user_start \<and> user_compare user_start tmp < 0
         then PutFixed64 tmp seek_tag else start)"

definition InternalFindShortestSeparator ::
    "(bytes \<Rightarrow> bytes \<Rightarrow> int) \<Rightarrow> (bytes \<Rightarrow> bytes \<Rightarrow> bytes) \<Rightarrow> bytes \<Rightarrow> bytes \<Rightarrow> bytes option" where
  "InternalFindShortestSeparator user_compare user_separator start limit =
     (let tmp = internal_separator user_compare user_separator start limit in
      if tmp = start then Some start
      else if InternalKeyCompare user_compare start tmp < 0 \<and> InternalKeyCompare user_compare tmp limit < 0
      then Some tmp else None)"

definition internal_successor ::
    "(bytes \<Rightarrow> bytes \<Rightarrow> int) \<Rightarrow> (bytes \<Rightarrow> bytes) \<Rightarrow> bytes \<Rightarrow> bytes" where
  "internal_successor user_compare user_successor key =
     (let user_key = ExtractUserKey key;
          tmp = user_successor user_key
      in if length tmp < length user_key \<and> user_compare user_key tmp < 0
         then PutFixed64 tmp seek_tag else key)"

definition InternalFindShortSuccessor ::
    "(bytes \<Rightarrow> bytes \<Rightarrow> int) \<Rightarrow> (bytes \<Rightarrow> bytes) \<Rightarrow> bytes \<Rightarrow> bytes option" where
  "InternalFindShortSuccessor user_compare user_successor key =
     (let tmp = internal_successor user_compare user_successor key in
      if tmp = key \<or> InternalKeyCompare user_compare key tmp < 0 then Some tmp else None)"

section \<open>The internal filter policy\<close>

definition InternalCreateFilter ::
    "(bytes list \<Rightarrow> bytes \<Rightarrow> bytes option) \<Rightarrow> bytes list \<Rightarrow> bytes \<Rightarrow> bytes option" where
  "InternalCreateFilter user_create keys dst =
     (if \<forall>key \<in> set keys. internal_key_ok key then user_create (map ExtractUserKey keys) dst else None)"

definition InternalKeyMayMatch :: "(bytes \<Rightarrow> bytes \<Rightarrow> bool option) \<Rightarrow> bytes \<Rightarrow> bytes \<Rightarrow> bool option" where
  "InternalKeyMayMatch user_match key f =
     (if internal_key_ok key then user_match (ExtractUserKey key) f else None)"

section \<open>Lookup keys\<close>

record LookupKey =
  lk_data :: bytes
  lk_kstart :: nat

text \<open>The length \<open>usize + 8\<close> is converted to 32 bits by the call.\<close>

definition NewLookupKey :: "bytes \<Rightarrow> u64 \<Rightarrow> LookupKey option" where
  "NewLookupKey user_key s =
     (let usize = length user_key;
          prefix = EncodeVarint32 (of_nat (usize + 8))
      in map_option (\<lambda>tag. \<lparr>lk_data = prefix @ user_key @ EncodeFixed64 tag, lk_kstart = length prefix\<rparr>)
           (PackSequenceAndType s kValueTypeForSeek))"

definition memtable_key :: "LookupKey \<Rightarrow> bytes" where
  "memtable_key k = lk_data k"

definition internal_key :: "LookupKey \<Rightarrow> bytes" where
  "internal_key k = drop (lk_kstart k) (lk_data k)"

definition lookup_user_key :: "LookupKey \<Rightarrow> bytes" where
  "lookup_user_key k = take (length (lk_data k) - lk_kstart k - 8) (drop (lk_kstart k) (lk_data k))"

section \<open>Packing and parsing\<close>

lemma EncodeFixed64_Decode:
  assumes "length bs = 8"
  shows "EncodeFixed64 (DecodeFixed64 bs) = bs"
proof -
  obtain b0 b1 b2 b3 b4 b5 b6 b7 where bs: "bs = [b0, b1, b2, b3, b4, b5, b6, b7]"
    using assms by (auto simp: length_Suc_conv numeral_eq_Suc)
  show ?thesis
    unfolding bs EncodeFixed64_def DecodeFixed64_def
    by (simp, intro conjI; rule bit_word_eqI) (auto simp: bit_simps dest: bit_imp_le_length)
qed

lemma DecodeFixed64_inj:
  "length xs = 8 \<Longrightarrow> length ys = 8 \<Longrightarrow> DecodeFixed64 xs = DecodeFixed64 ys \<Longrightarrow> xs = ys"
  by (metis EncodeFixed64_Decode)

lemma kMaxSequenceNumber_unat: "s \<le> kMaxSequenceNumber \<longleftrightarrow> unat s < 2 ^ 56"
  by (simp add: kMaxSequenceNumber_def word_le_nat_alt) linarith

lemma pack_split:
  assumes "unat s < 2 ^ 56"
  shows "drop_bit 8 (push_bit 8 s OR type_code t) = s" "(push_bit 8 s OR type_code t) AND 0xff = type_code t"
proof -
  have high: "n < 56" if "bit s n" for n using bit_word_unat_less [OF assms, of n] that by linarith
  show "drop_bit 8 (push_bit 8 s OR type_code t) = s"
    by (rule bit_word_eqI) (cases t; auto simp: bit_simps bit_1_iff dest: high)
  show "(push_bit 8 s OR type_code t) AND 0xff = type_code t"
    unfolding and_255_eq by (rule bit_word_eqI) (cases t; auto simp: bit_simps bit_1_iff)
qed

lemma ParseInternalKey_Append:
  assumes "AppendInternalKey [] key = Some k"
  shows "ParseInternalKey k = Some key" "ExtractUserKey k = ik_user_key key"
    "length k = InternalKeyEncodingLength key" "internal_key_ok k"
proof -
  define tag where "tag = push_bit 8 (ik_sequence key) OR type_code (ik_type key)"
  have seq: "unat (ik_sequence key) < 2 ^ 56" and k: "k = ik_user_key key @ EncodeFixed64 tag"
    using assms by (auto simp: AppendInternalKey_def PackSequenceAndType_def PutFixed64_def tag_def
        kMaxSequenceNumber_unat split: if_splits)
  have "drop_bit 8 tag = ik_sequence key" "tag AND 0xff = type_code (ik_type key)"
    using pack_split [OF seq] by (simp_all add: tag_def)
  then show "ParseInternalKey k = Some key"
    by (cases "ik_type key") (simp_all add: ParseInternalKey_def k)
  show "ExtractUserKey k = ik_user_key key" "length k = InternalKeyEncodingLength key" "internal_key_ok k"
    by (simp_all add: ExtractUserKey_def InternalKeyEncodingLength_def internal_key_ok_def k)
qed

section \<open>The derived comparator\<close>

lemma internal_key_split:
  assumes "internal_key_ok k"
  shows "k = ExtractUserKey k @ drop (length k - 8) k" "length (drop (length k - 8) k) = 8"
  using assms by (simp_all add: ExtractUserKey_def internal_key_ok_def)

abbreviation key_num :: "bytes \<Rightarrow> u64" where
  "key_num k \<equiv> DecodeFixed64 (drop (length k - 8) k)"

lemma internal_key_eqI:
  assumes "internal_key_ok a" "internal_key_ok b" "ExtractUserKey a = ExtractUserKey b" "key_num a = key_num b"
  shows "a = b"
proof -
  have "drop (length a - 8) a = drop (length b - 8) b"
    using internal_key_split(2) [OF assms(1)] internal_key_split(2) [OF assms(2)] assms(4)
    by (rule DecodeFixed64_inj)
  then show ?thesis
    using internal_key_split(1) [OF assms(1)] internal_key_split(1) [OF assms(2)] assms(3) by metis
qed

lemma tagged_key [simp]:
  "ExtractUserKey (PutFixed64 u tag) = u" "internal_key_ok (PutFixed64 u tag)"
  "length (PutFixed64 u tag) = length u + 8"
  by (simp_all add: PutFixed64_def ExtractUserKey_def internal_key_ok_def)

context comparator
begin

abbreviation internal_valid :: "bytes \<Rightarrow> bool" where
  "internal_valid k \<equiv> internal_key_ok k \<and> valid (ExtractUserKey k)"

abbreviation internal_compare :: "bytes \<Rightarrow> bytes \<Rightarrow> int" where
  "internal_compare \<equiv> InternalKeyCompare compare_keys"

lemma internal_less_iff:
  assumes "internal_valid a" "internal_valid b"
  shows "internal_compare a b < 0 \<longleftrightarrow> compare_keys (ExtractUserKey a) (ExtractUserKey b) < 0
    \<or> ExtractUserKey a = ExtractUserKey b \<and> key_num b < key_num a"
  using assms compare_zero [of "ExtractUserKey a" "ExtractUserKey b"]
  by (auto simp: InternalKeyCompare_def Let_def)

lemma internal_greater_iff:
  assumes "internal_valid a" "internal_valid b"
  shows "internal_compare a b > 0 \<longleftrightarrow> compare_keys (ExtractUserKey a) (ExtractUserKey b) > 0
    \<or> ExtractUserKey a = ExtractUserKey b \<and> key_num a < key_num b"
  using assms compare_zero [of "ExtractUserKey a" "ExtractUserKey b"]
  by (auto simp: InternalKeyCompare_def Let_def)

lemma internal_zero_iff:
  assumes "internal_valid a" "internal_valid b"
  shows "internal_compare a b = 0 \<longleftrightarrow> a = b"
proof
  assume z: "internal_compare a b = 0"
  then have n: "\<not> internal_compare a b < 0" "\<not> internal_compare a b > 0" by simp_all
  have user: "compare_keys (ExtractUserKey a) (ExtractUserKey b) = 0"
  proof (rule ccontr)
    assume "compare_keys (ExtractUserKey a) (ExtractUserKey b) \<noteq> 0"
    then have "internal_compare a b = compare_keys (ExtractUserKey a) (ExtractUserKey b)"
      by (simp add: InternalKeyCompare_def)
    with z \<open>compare_keys (ExtractUserKey a) (ExtractUserKey b) \<noteq> 0\<close> show False by simp
  qed
  then have same: "ExtractUserKey a = ExtractUserKey b" using compare_zero assms by blast
  have "\<not> key_num b < key_num a" "\<not> key_num a < key_num b"
    using n same internal_less_iff [OF assms] internal_greater_iff [OF assms] by blast+
  then have "key_num a = key_num b" by (simp only: not_less order_antisym)
  then show "a = b" by (rule internal_key_eqI [OF conjunct1 [OF assms(1)] conjunct1 [OF assms(2)] same])
qed (use assms in \<open>simp add: InternalKeyCompare_def compare_refl\<close>)

lemma internal_swap:
  assumes "internal_valid a" "internal_valid b"
  shows "internal_compare a b < 0 \<longleftrightarrow> internal_compare b a > 0"
  unfolding internal_less_iff [OF assms] internal_greater_iff [OF assms(2,1)]
  using compare_swap [of "ExtractUserKey a" "ExtractUserKey b"] assms by metis

lemma internal_trans:
  assumes "internal_valid a" "internal_valid b" "internal_valid c"
    and "internal_compare a b < 0" "internal_compare b c < 0"
  shows "internal_compare a c < 0"
  using assms compare_trans [of "ExtractUserKey a" "ExtractUserKey b" "ExtractUserKey c"]
  by (auto simp: internal_less_iff)

lemma internal_separator_between:
  assumes a: "internal_valid a" and b: "internal_valid b" and lt: "internal_compare a b < 0"
  defines "r \<equiv> internal_separator compare_keys separator a b"
  shows "internal_valid r" "r = a \<or> internal_compare a r < 0" "internal_compare r b < 0"
proof -
  define ua where "ua = ExtractUserKey a"
  define ub where "ub = ExtractUserKey b"
  have v: "valid ua" "valid ub" using a b by (simp_all add: ua_def ub_def)
  have "internal_valid r \<and> (r = a \<or> internal_compare a r < 0) \<and> internal_compare r b < 0"
  proof (cases "r = a")
    case False
    then have taken: "length (separator ua ub) < length ua" "compare_keys ua (separator ua ub) < 0"
      and r: "r = PutFixed64 (separator ua ub) seek_tag"
      by (auto simp: r_def internal_separator_def Let_def ua_def ub_def split: if_splits)
    have "ua \<noteq> ub" using taken(1) separator_same [OF v(1)] by auto
    then have "compare_keys ua ub < 0" using lt internal_less_iff [OF a b] by (simp add: ua_def ub_def)
    with separator_between [OF v] have sep: "valid (separator ua ub)" "compare_keys (separator ua ub) ub < 0"
      by simp_all
    then have "internal_valid r" by (simp add: r)
    moreover have "internal_compare a r < 0"
      using internal_less_iff [OF a \<open>internal_valid r\<close>] taken(2) by (simp add: r ua_def)
    moreover have "internal_compare r b < 0"
      using internal_less_iff [OF \<open>internal_valid r\<close> b] sep(2) by (simp add: r ub_def)
    ultimately show ?thesis by simp
  qed (use a lt in simp)
  then show "internal_valid r" "r = a \<or> internal_compare a r < 0" "internal_compare r b < 0" by simp_all
qed

lemma internal_successor_above:
  assumes a: "internal_valid a"
  defines "r \<equiv> internal_successor compare_keys successor a"
  shows "internal_valid r \<and> (r = a \<or> internal_compare a r < 0)"
proof (cases "r = a")
  case False
  then have taken: "compare_keys (ExtractUserKey a) (successor (ExtractUserKey a)) < 0"
    and r: "r = PutFixed64 (successor (ExtractUserKey a)) seek_tag"
    by (auto simp: r_def internal_successor_def Let_def split: if_splits)
  have "internal_valid r" using successor_above [of "ExtractUserKey a"] a by (simp add: r)
  then show ?thesis using internal_less_iff [OF a] taken by (simp add: r)
qed (use a in simp)

text \<open>Neither assertion of the two shortening functions can fail.\<close>

lemma internal_separator_defined:
  assumes "internal_valid a" "internal_valid b" "internal_compare a b < 0"
  shows "InternalFindShortestSeparator compare_keys separator a b
    = Some (internal_separator compare_keys separator a b)"
  using internal_separator_between [OF assms] by (auto simp: InternalFindShortestSeparator_def Let_def)

lemma internal_successor_defined:
  assumes "internal_valid a"
  shows "InternalFindShortSuccessor compare_keys successor a
    = Some (internal_successor compare_keys successor a)"
  using internal_successor_above [OF assms] by (auto simp: InternalFindShortSuccessor_def Let_def)

lemma internal_comparator:
  "comparator internal_compare (internal_separator compare_keys separator)
    (internal_successor compare_keys successor) internal_valid"
proof
  fix a b c
  assume a: "internal_valid a"
  show "internal_separator compare_keys separator a a = a"
    using a separator_same [of "ExtractUserKey a"] by (simp add: internal_separator_def Let_def)
  show "internal_valid (internal_successor compare_keys successor a)
      \<and> internal_compare a (internal_successor compare_keys successor a) \<le> 0"
    using internal_successor_above [OF a] internal_zero_iff [OF a a] by (auto simp: order_le_less)
  assume b: "internal_valid b"
  show "internal_compare a b = 0 \<longleftrightarrow> a = b" using a b by (rule internal_zero_iff)
  show "internal_compare a b < 0 \<longleftrightarrow> internal_compare b a > 0" using a b by (rule internal_swap)
  show "internal_valid (internal_separator compare_keys separator a b)
      \<and> internal_compare a (internal_separator compare_keys separator a b) \<le> 0
      \<and> internal_compare (internal_separator compare_keys separator a b) b < 0"
    if "internal_compare a b < 0"
    using internal_separator_between [OF a b that] internal_zero_iff [OF a a] by (auto simp: order_le_less)
  show "internal_compare a c < 0" if "internal_valid c" "internal_compare a b < 0" "internal_compare b c < 0"
    using internal_trans [OF a b that] .
qed

end

interpretation internal: comparator "InternalKeyCompare BytewiseCompare"
  "internal_separator BytewiseCompare BytewiseFindShortestSeparator"
  "internal_successor BytewiseCompare BytewiseFindShortSuccessor" internal_key_ok
  using bytewise.internal_comparator by simp

lemma internal_less_iff_bytewise:
  assumes "internal_key_ok a" "internal_key_ok b"
  shows "InternalKeyCompare BytewiseCompare a b < 0 \<longleftrightarrow> BytewiseCompare (ExtractUserKey a) (ExtractUserKey b) < 0
    \<or> ExtractUserKey a = ExtractUserKey b \<and> key_num b < key_num a"
  using bytewise.internal_less_iff [of a b] assms by simp

lemma lex_byte:
  fixes x y a b :: nat
  assumes "x < 256" "y < 256"
  shows "256 * a + x < 256 * b + y \<longleftrightarrow> a < b \<or> a = b \<and> x < y"
  using assms by (cases a b rule: linorder_cases) linarith+

lemma packed_less_iff:
  assumes "unat s < 2 ^ 56" "unat r < 2 ^ 56"
  shows "(push_bit 8 s OR type_code t < push_bit 8 r OR type_code u)
    \<longleftrightarrow> s < r \<or> r = s \<and> t = kTypeDeletion \<and> u = kTypeValue"
proof -
  have val: "unat (push_bit 8 x OR type_code v) = 256 * unat x + unat (type_code v)" if "unat x < 2 ^ 56" for x v
  proof -
    have "unat (type_code v) < 2 ^ 8" by (cases v) simp_all
    moreover have "2 ^ 8 * unat x < 2 ^ LENGTH(64)" using that by simp
    ultimately have "unat (type_code v OR push_bit 8 x) = unat (type_code v) + 2 ^ 8 * unat x"
      by (rule unat_or_push_bit)
    then show ?thesis by (simp add: or.commute add.commute)
  qed
  have code: "unat (type_code v) = (if v = kTypeValue then 1 else 0)" for v by (cases v) simp_all
  have eq: "r = s \<longleftrightarrow> unat r = unat s" by (rule word_unat_eq_iff)
  show ?thesis
    unfolding word_less_nat_alt val [OF assms(1)] val [OF assms(2)] code eq
    using lex_byte [of "if t = kTypeValue then 1 else 0" "if u = kTypeValue then 1 else 0" "unat s" "unat r"]
    by (cases t; cases u) (simp_all add: eq_commute)
qed

section \<open>The derived filter policy\<close>

definition internal_accepts :: "(bytes list \<Rightarrow> bool) \<Rightarrow> bytes list \<Rightarrow> bool" where
  "internal_accepts user_accepts keys \<longleftrightarrow>
     (\<forall>key \<in> set keys. internal_key_ok key) \<and> user_accepts (map ExtractUserKey keys)"

lemma internal_filter_policy:
  assumes "filter_policy create match user_accepts"
  shows "filter_policy (InternalCreateFilter create) (InternalKeyMayMatch match) (internal_accepts user_accepts)"
proof
  fix keys dst key f
  show "InternalCreateFilter create keys [] \<noteq> None" if "internal_accepts user_accepts keys"
    using that filter_policy.create_defined [OF assms]
    by (simp add: InternalCreateFilter_def internal_accepts_def del: not_None_eq)
  show "InternalCreateFilter create keys dst = map_option ((@) dst) (InternalCreateFilter create keys [])"
    using filter_policy.create_appends [OF assms, of "map ExtractUserKey keys" dst]
    by (simp add: InternalCreateFilter_def)
  show "InternalKeyMayMatch match key f = Some True"
    if "internal_accepts user_accepts keys" "key \<in> set keys" "InternalCreateFilter create keys [] = Some f"
    using that filter_policy.no_false_negative [OF assms, of "map ExtractUserKey keys" "ExtractUserKey key" f]
    by (simp add: InternalCreateFilter_def InternalKeyMayMatch_def internal_accepts_def)
qed

lemma internal_sized_policy:
  assumes "sized_filter_policy create match user_accepts (\<lambda>_. True) per_key fixed_size"
  shows "sized_filter_policy (InternalCreateFilter create) (InternalKeyMayMatch match) (internal_accepts user_accepts)
    internal_key_ok per_key fixed_size"
proof -
  have user: "filter_policy create match user_accepts" using assms by (rule sized_filter_policy.axioms(1))
  show ?thesis
  proof (intro sized_filter_policy.intro internal_filter_policy [OF user] sized_filter_policy_axioms.intro)
    fix key keys f
    show "InternalKeyMayMatch match key [] \<noteq> None" if "internal_key_ok key"
      using that sized_filter_policy.match_empty [OF assms] by (simp add: InternalKeyMayMatch_def del: not_None_eq)
    assume k: "internal_accepts user_accepts keys" "InternalCreateFilter create keys [] = Some f"
    then have u: "user_accepts (map ExtractUserKey keys)" "create (map ExtractUserKey keys) [] = Some f"
      by (simp_all add: internal_accepts_def InternalCreateFilter_def)
    show "InternalKeyMayMatch match key f \<noteq> None" if "internal_key_ok key"
      using that sized_filter_policy.match_created [OF assms u] by (simp add: InternalKeyMayMatch_def del: not_None_eq)
    show "length f \<le> per_key * length keys + fixed_size"
      using sized_filter_policy.filter_size [OF assms u] by simp
  qed
qed

lemma InternalKeyMayMatch_cong:
  "internal_key_ok a \<Longrightarrow> internal_key_ok b \<Longrightarrow> ExtractUserKey a = ExtractUserKey b
    \<Longrightarrow> InternalKeyMayMatch m a f = InternalKeyMayMatch m b f"
  by (simp add: InternalKeyMayMatch_def)

section \<open>The parts of a lookup key\<close>

lemma NewLookupKey_parts:
  assumes "NewLookupKey u s = Some lk"
  shows "AppendInternalKey [] \<lparr>ik_user_key = u, ik_sequence = s, ik_type = kTypeValue\<rparr> = Some (internal_key lk)"
    and "lookup_user_key lk = u" "length (memtable_key lk) \<le> length u + 13"
    and "memtable_key lk = PutLengthPrefixedSlice [] (internal_key lk)"
    and "internal_key_ok (internal_key lk)" "ExtractUserKey (internal_key lk) = u"
proof -
  obtain tag where tag: "PackSequenceAndType s kValueTypeForSeek = Some tag"
    and lk: "lk = \<lparr>lk_data = EncodeVarint32 (of_nat (length u + 8)) @ u @ EncodeFixed64 tag,
      lk_kstart = length (EncodeVarint32 (of_nat (length u + 8)))\<rparr>"
    using assms by (auto simp: NewLookupKey_def Let_def)
  have ik: "internal_key lk = PutFixed64 u tag" by (simp add: internal_key_def lk PutFixed64_def)
  show "AppendInternalKey [] \<lparr>ik_user_key = u, ik_sequence = s, ik_type = kTypeValue\<rparr> = Some (internal_key lk)"
    using tag by (simp add: AppendInternalKey_def ik kValueTypeForSeek_def)
  show "lookup_user_key lk = u" by (simp add: lookup_user_key_def lk)
  show "length (memtable_key lk) \<le> length u + 13"
    using length_EncodeVarint32_le_5 by (simp add: memtable_key_def lk)
  show "memtable_key lk = PutLengthPrefixedSlice [] (internal_key lk)"
    by (simp add: memtable_key_def ik, simp add: lk PutLengthPrefixedSlice_def PutVarint32_def PutFixed64_def)
  show "internal_key_ok (internal_key lk)" "ExtractUserKey (internal_key lk) = u" by (simp_all add: ik)
qed

section \<open>Properties\<close>

text \<open>
  \<open>ParseInternalKey\<close> returns what \<open>AppendInternalKey\<close> wrote: user key, sequence number and
  type; the encoding has the predicted length and \<open>ExtractUserKey\<close> returns its user key.
\<close>

lemma internal_key_roundtrip:
  assumes "ik_sequence key \<le> kMaxSequenceNumber"
  shows "\<exists>k. AppendInternalKey [] key = Some k \<and> ParseInternalKey k = Some key
    \<and> ExtractUserKey k = ik_user_key key \<and> length k = InternalKeyEncodingLength key"
proof -
  obtain k where "AppendInternalKey [] key = Some k"
    using assms by (auto simp: AppendInternalKey_def PackSequenceAndType_def)
  with ParseInternalKey_Append [OF this] show ?thesis by blast
qed

text \<open>
  Among the versions of one user key the internal comparator puts the newer first: for two
  internal keys with the same user key the one with the larger sequence number is smaller, and for
  different user keys the user comparator decides.
\<close>

lemma internal_order_newest_first:
  assumes "AppendInternalKey [] a = Some ka" "AppendInternalKey [] b = Some kb"
  shows "InternalKeyCompare BytewiseCompare ka kb < 0 \<longleftrightarrow>
    BytewiseCompare (ik_user_key a) (ik_user_key b) < 0
    \<or> ik_user_key a = ik_user_key b
      \<and> (ik_sequence b < ik_sequence a
          \<or> ik_sequence a = ik_sequence b \<and> ik_type b = kTypeDeletion \<and> ik_type a = kTypeValue)"
proof -
  have nums: "key_num ka = push_bit 8 (ik_sequence a) OR type_code (ik_type a)"
    "key_num kb = push_bit 8 (ik_sequence b) OR type_code (ik_type b)"
    and seqs: "unat (ik_sequence a) < 2 ^ 56" "unat (ik_sequence b) < 2 ^ 56"
    using assms by (auto simp: AppendInternalKey_def PackSequenceAndType_def PutFixed64_def
        kMaxSequenceNumber_unat split: if_splits)
  have "key_num kb < key_num ka \<longleftrightarrow> ik_sequence b < ik_sequence a
      \<or> ik_sequence a = ik_sequence b \<and> ik_type b = kTypeDeletion \<and> ik_type a = kTypeValue"
    unfolding nums by (rule packed_less_iff [OF seqs(2,1)])
  then show ?thesis
    using internal_less_iff_bytewise [OF ParseInternalKey_Append(4) [OF assms(1)] ParseInternalKey_Append(4) [OF assms(2)]]
      ParseInternalKey_Append(2) [OF assms(1)] ParseInternalKey_Append(2) [OF assms(2)] by simp
qed

text \<open>
  \<open>FindShortestSeparator\<close> of the internal comparator returns, for internal keys \<open>start < limit\<close>, an
  internal key of \<open>[start, limit)\<close>; neither of its assertions fails.
\<close>

lemma internal_separator_correct:
  assumes "internal_key_ok start" "internal_key_ok limit" "InternalKeyCompare BytewiseCompare start limit < 0"
  shows "\<exists>r. InternalFindShortestSeparator BytewiseCompare BytewiseFindShortestSeparator start limit = Some r
    \<and> internal_key_ok r \<and> InternalKeyCompare BytewiseCompare start r \<le> 0
    \<and> InternalKeyCompare BytewiseCompare r limit < 0"
  using bytewise.internal_separator_defined [of start limit] internal.separator_between [of start limit] assms
  by simp



end
