(* ===== verification/Skip_List.thy ===== *)
theory Skip_List
  imports Prelude Key_Order "HOL-Library.Multiset"
begin

text \<open>
  The skip list of \<open>db/skiplist.h\<close> and the generator of \<open>util/random.h\<close> that chooses its heights.
  Nodes live in a list and a pointer is an index into it; node 0 is \<open>head_\<close>. A node has one link
  per level. Following a link that a node does not have, and a failed assertion, is \<open>None\<close>. The
  loops are partial functions; the invariant makes them end. Concurrent readers and the memory
  orders of the atomic links are not modelled: every operation sees the result of the last one.
\<close>

section \<open>The generator\<close>

definition NewRandom :: "u32 \<Rightarrow> u32" where
  "NewRandom s = (let seed = s AND 0x7fffffff in if seed = 0 \<or> seed = 2147483647 then 1 else seed)"

definition RandomNext :: "u32 \<Rightarrow> u32" where
  "RandomNext seed =
     (let M = 2147483647; A = 16807 :: u64;
          product = ucast seed * A;
          seed = ucast (drop_bit 31 product + (product AND ucast M))
      in if seed > M then seed - M else seed)"

definition RandomUniform :: "u32 \<Rightarrow> u32 \<Rightarrow> u32 \<times> u32" where
  "RandomUniform n seed = (let seed = RandomNext seed in (seed mod n, seed))"

definition RandomOneIn :: "u32 \<Rightarrow> u32 \<Rightarrow> bool \<times> u32" where
  "RandomOneIn n seed = (let seed = RandomNext seed in (seed mod n = 0, seed))"

section \<open>The list\<close>

record 'k skip_node =
  sn_key :: 'k
  sn_next :: "nat option list"

record 'k SkipList =
  sl_nodes :: "'k skip_node list"
  sl_max_height :: nat
  sl_rnd :: u32

definition kMaxHeight :: nat where
  "kMaxHeight = 12"

definition NewNode :: "'k \<Rightarrow> nat \<Rightarrow> 'k skip_node" where
  "NewNode key height = \<lparr>sn_key = key, sn_next = replicate height None\<rparr>"

definition NewSkipList :: "'k \<Rightarrow> 'k SkipList" where
  "NewSkipList any_key =
     \<lparr>sl_nodes = [NewNode any_key kMaxHeight], sl_max_height = 1, sl_rnd = NewRandom 0xdeadbeef\<rparr>"

definition NodeNext :: "'k SkipList \<Rightarrow> nat \<Rightarrow> nat \<Rightarrow> nat option option" where
  "NodeNext s x n = Option.bind (rd (sl_nodes s) x) (\<lambda>node. rd (sn_next node) n)"

definition SetNext :: "nat \<Rightarrow> nat \<Rightarrow> nat option \<Rightarrow> 'k SkipList \<Rightarrow> 'k SkipList option" where
  "SetNext x n y s = do {
     node \<leftarrow> rd (sl_nodes s) x;
     next \<leftarrow> upd (sn_next node) n (\<lambda>_. y);
     nodes \<leftarrow> upd (sl_nodes s) x (\<lambda>node. node\<lparr>sn_next := next\<rparr>);
     Some (s\<lparr>sl_nodes := nodes\<rparr>)
   }"

definition NodeKey :: "'k SkipList \<Rightarrow> nat \<Rightarrow> 'k option" where
  "NodeKey s x = map_option sn_key (rd (sl_nodes s) x)"

function random_height_loop :: "nat \<Rightarrow> u32 \<Rightarrow> nat \<times> u32" where
  "random_height_loop height rnd =
     (if height < kMaxHeight then
        let rnd = RandomNext rnd in
        if rnd mod 4 = 0 then random_height_loop (height + 1) rnd else (height, rnd)
      else (height, rnd))"
  by pat_completeness auto
termination by (relation "measure (\<lambda>(height, _). kMaxHeight - height)") auto

declare random_height_loop.simps [simp del]

definition RandomHeight :: "u32 \<Rightarrow> nat \<times> u32" where
  "RandomHeight rnd = random_height_loop 1 rnd"

definition KeyIsAfterNode :: "('k \<Rightarrow> 'k \<Rightarrow> int) \<Rightarrow> 'k SkipList \<Rightarrow> 'k \<Rightarrow> nat option \<Rightarrow> bool option" where
  "KeyIsAfterNode compare s key n =
     (case n of None \<Rightarrow> Some False | Some n \<Rightarrow> map_option (\<lambda>k. compare k key < 0) (NodeKey s n))"

text \<open>The loop always fills \<open>prev\<close>; callers that pass a null pointer drop it.\<close>

partial_function (option) find_ge_loop ::
    "('k \<Rightarrow> 'k \<Rightarrow> int) \<Rightarrow> 'k SkipList \<Rightarrow> 'k \<Rightarrow> nat \<Rightarrow> nat \<Rightarrow> nat option list
      \<Rightarrow> (nat option \<times> nat option list) option" where
  "find_ge_loop compare s key x level prev =
     Option.bind (NodeNext s x level) (\<lambda>next.
     Option.bind (KeyIsAfterNode compare s key next) (\<lambda>after.
       if after then find_ge_loop compare s key (the next) level prev
       else
         let prev = prev[level := Some x] in
         if level = 0 then Some (next, prev) else find_ge_loop compare s key x (level - 1) prev))"

definition FindGreaterOrEqual ::
    "('k \<Rightarrow> 'k \<Rightarrow> int) \<Rightarrow> 'k SkipList \<Rightarrow> 'k \<Rightarrow> (nat option \<times> nat option list) option" where
  "FindGreaterOrEqual compare s key =
     find_ge_loop compare s key 0 (sl_max_height s - 1) (replicate kMaxHeight None)"

partial_function (option) find_lt_loop ::
    "('k \<Rightarrow> 'k \<Rightarrow> int) \<Rightarrow> 'k SkipList \<Rightarrow> 'k \<Rightarrow> nat \<Rightarrow> nat \<Rightarrow> nat option" where
  "find_lt_loop compare s key x level =
     Option.bind (if x = 0 then Some True else map_option (\<lambda>k. compare k key < 0) (NodeKey s x)) (\<lambda>assertion.
     if \<not> assertion then None
     else
       Option.bind (NodeNext s x level) (\<lambda>next.
       Option.bind (case next of None \<Rightarrow> Some True | Some n \<Rightarrow> map_option (\<lambda>k. compare k key \<ge> 0) (NodeKey s n))
         (\<lambda>stop.
           if stop then (if level = 0 then Some x else find_lt_loop compare s key x (level - 1))
           else find_lt_loop compare s key (the next) level)))"

definition FindLessThan :: "('k \<Rightarrow> 'k \<Rightarrow> int) \<Rightarrow> 'k SkipList \<Rightarrow> 'k \<Rightarrow> nat option" where
  "FindLessThan compare s key = find_lt_loop compare s key 0 (sl_max_height s - 1)"

partial_function (option) find_last_loop :: "'k SkipList \<Rightarrow> nat \<Rightarrow> nat \<Rightarrow> nat option" where
  "find_last_loop s x level =
     Option.bind (NodeNext s x level) (\<lambda>next.
       case next of
         None \<Rightarrow> if level = 0 then Some x else find_last_loop s x (level - 1)
       | Some n \<Rightarrow> find_last_loop s n level)"

definition FindLast :: "'k SkipList \<Rightarrow> nat option" where
  "FindLast s = find_last_loop s 0 (sl_max_height s - 1)"

declare find_ge_loop.simps [code] find_lt_loop.simps [code] find_last_loop.simps [code]

text \<open>The loop of \<open>Insert\<close> that splices the node \<open>x\<close> into the levels from \<open>i\<close> on.\<close>

fun link_levels :: "nat option list \<Rightarrow> nat \<Rightarrow> nat list \<Rightarrow> 'k SkipList \<Rightarrow> 'k SkipList option" where
  "link_levels prev x [] s = Some s"
| "link_levels prev x (i # is) s = do {
     p \<leftarrow> rd prev i;
     p \<leftarrow> p;
     next \<leftarrow> NodeNext s p i;
     s \<leftarrow> SetNext x i next s;
     s \<leftarrow> SetNext p i (Some x) s;
     link_levels prev x is s
   }"

definition SkipListInsert :: "('k \<Rightarrow> 'k \<Rightarrow> int) \<Rightarrow> 'k \<Rightarrow> 'k SkipList \<Rightarrow> 'k SkipList option" where
  "SkipListInsert compare key s =
     Option.bind (FindGreaterOrEqual compare s key) (\<lambda>(x, prev).
     Option.bind (case x of None \<Rightarrow> Some False | Some x \<Rightarrow> map_option (\<lambda>k. compare key k = 0) (NodeKey s x))
       (\<lambda>duplicate.
         if duplicate then None
         else
           let (height, rnd) = RandomHeight (sl_rnd s);
               max_height = sl_max_height s;
               prev = fold (\<lambda>i prev. prev[i := Some 0]) [max_height..<height] prev;
               x = length (sl_nodes s);
               s = s\<lparr>sl_nodes := sl_nodes s @ [NewNode key height],
                     sl_max_height := (if height > max_height then height else max_height),
                     sl_rnd := rnd\<rparr>
           in link_levels prev x [0..<height] s))"

definition SkipListContains :: "('k \<Rightarrow> 'k \<Rightarrow> int) \<Rightarrow> 'k SkipList \<Rightarrow> 'k \<Rightarrow> bool option" where
  "SkipListContains compare s key =
     Option.bind (FindGreaterOrEqual compare s key) (\<lambda>(x, _).
       case x of None \<Rightarrow> Some False | Some x \<Rightarrow> map_option (\<lambda>k. compare key k = 0) (NodeKey s x))"

text \<open>An iterator is the pointer \<open>node_\<close>.\<close>

definition SkipIterSeek :: "('k \<Rightarrow> 'k \<Rightarrow> int) \<Rightarrow> 'k SkipList \<Rightarrow> 'k \<Rightarrow> nat option option" where
  "SkipIterSeek compare s target = map_option fst (FindGreaterOrEqual compare s target)"

definition SkipIterSeekToFirst :: "'k SkipList \<Rightarrow> nat option option" where
  "SkipIterSeekToFirst s = NodeNext s 0 0"

definition SkipIterSeekToLast :: "'k SkipList \<Rightarrow> nat option option" where
  "SkipIterSeekToLast s = map_option (\<lambda>n. if n = 0 then None else Some n) (FindLast s)"

definition SkipIterNext :: "'k SkipList \<Rightarrow> nat option \<Rightarrow> nat option option" where
  "SkipIterNext s node = Option.bind node (\<lambda>n. NodeNext s n 0)"

definition SkipIterPrev :: "('k \<Rightarrow> 'k \<Rightarrow> int) \<Rightarrow> 'k SkipList \<Rightarrow> nat option \<Rightarrow> nat option option" where
  "SkipIterPrev compare s node =
     Option.bind node (\<lambda>n.
     Option.bind (NodeKey s n) (\<lambda>key.
       map_option (\<lambda>n. if n = 0 then None else Some n) (FindLessThan compare s key)))"

definition SkipIterKey :: "'k SkipList \<Rightarrow> nat option \<Rightarrow> 'k option" where
  "SkipIterKey s node = Option.bind node (NodeKey s)"

section \<open>The generator is the minimal standard one\<close>

lemma random_reduce:
  fixes p :: nat
  assumes "0 < p mod 2147483647" "p < 2 ^ 46"
  defines "q \<equiv> p div 2 ^ 31 + p mod 2 ^ 31"
  shows "(if q > 2147483647 then q - 2147483647 else q) = p mod 2147483647"
proof -
  have "p = (p div 2 ^ 31) * 2147483647 + q" unfolding q_def by (simp add: div_mult_mod_eq)
  then have mod: "p mod 2147483647 = q mod 2147483647" by (metis mod_mult_self3)
  have "p div 2 ^ 31 < 2 ^ 15" using assms(2) by (simp add: less_mult_imp_div_less)
  then have "q < 2 * 2147483647" unfolding q_def
    using mod_less_divisor [of "2 ^ 31" p] by simp
  then consider "q < 2147483647" | "q = 2147483647" | "2147483647 < q" "q - 2147483647 < 2147483647" by linarith
  then show ?thesis
  proof cases
    case 3
    then have "q mod 2147483647 = q - 2147483647" by (metis le_mod_geq less_imp_le_nat mod_less)
    with 3 mod show ?thesis by simp
  qed (use mod assms(1) in simp_all)
qed

lemma random_nonzero:
  fixes n :: nat
  assumes "0 < n" "n < 2147483647"
  shows "0 < n * 16807 mod 2147483647"
proof (rule ccontr)
  assume "\<not> ?thesis"
  then have "2147483647 dvd n * 16807" by (simp add: dvd_eq_mod_eq_0)
  moreover have "coprime (2147483647 :: nat) 16807"
    by (simp add: coprime_iff_gcd_eq_1 gcd_non_0_nat)
  ultimately have "2147483647 dvd n" by (simp add: coprime_dvd_mult_left_iff)
  with assms show False by (auto dest: dvd_imp_le)
qed

lemma RandomNext_mod:
  assumes "0 < seed" "seed < 2147483647"
  shows "unat (RandomNext seed) = unat seed * 16807 mod 2147483647"
proof -
  define product where "product = (ucast seed :: u64) * 16807"
  have sd: "0 < unat seed" "unat seed < 2147483647"
    using assms by (simp_all add: word_less_nat_alt unat_gt_0)
  have u: "unat (ucast seed :: u64) = unat seed" by (rule unsigned_ucast_eq [THEN trans])
      (use unat_of_nat_small sd in \<open>simp add: take_bit_nat_eq_self\<close>)
  have p: "unat product = unat seed * 16807"
    unfolding product_def using sd by (subst unat_mult_lem [THEN iffD1]) (simp_all add: u)
  define q where "q = unat product div 2 ^ 31 + unat product mod 2 ^ 31"
  have m: "product AND 2147483647 = take_bit 31 product" by (simp add: take_bit_eq_mask mask_eq_exp_minus_1)
  have small: "unat product < 2 ^ 46" using p sd by simp
  then have q32: "q < 2 ^ 32" unfolding q_def
    using less_mult_imp_div_less [of "unat product" "2 ^ 15" "2 ^ 31"] mod_less_divisor [of "2 ^ 31" "unat product"] by simp
  have "unat (drop_bit 31 product + (product AND 2147483647)) = q"
    unfolding q_def m using q32 by (subst unat_add_lem [THEN iffD1])
      (simp_all add: unat_drop_bit_div unat_take_bit_mod q_def)
  then have "unat (ucast (drop_bit 31 product + (product AND 2147483647)) :: u32) = q"
    using q32 by (simp add: unsigned_ucast_eq take_bit_nat_eq_self)
  then have "unat (RandomNext seed) = (if q > 2147483647 then q - 2147483647 else q)"
    unfolding RandomNext_def Let_def product_def [symmetric]
    by (simp add: word_less_nat_alt unat_sub word_le_nat_alt)
  also have "\<dots> = unat product mod 2147483647"
    unfolding q_def using random_nonzero [OF sd] p small by (intro random_reduce) simp_all
  finally show ?thesis using p by simp
qed

lemma random_height_bounds:
  "random_height_loop h rnd = (height, rnd') \<Longrightarrow> h \<le> kMaxHeight \<Longrightarrow> h \<le> height \<and> height \<le> kMaxHeight"
proof (induction h rnd rule: random_height_loop.induct)
  case (1 h rnd)
  then show ?case
    by (cases "h < kMaxHeight \<and> RandomNext rnd mod 4 = 0")
      (auto simp: random_height_loop.simps [of h] Let_def split: if_splits)
qed

lemma RandomHeight_bounds: "RandomHeight rnd = (height, rnd') \<Longrightarrow> 1 \<le> height \<and> height \<le> kMaxHeight"
  unfolding RandomHeight_def using random_height_bounds [of 1 rnd height rnd'] by (simp add: kMaxHeight_def)

section \<open>Chains of links\<close>

text \<open>The nodes \<open>xs\<close> follow the node \<open>a\<close> and the last of them has no successor.\<close>

fun linked :: "(nat \<Rightarrow> nat option) \<Rightarrow> nat \<Rightarrow> nat list \<Rightarrow> bool" where
  "linked nx a [] = (nx a = None)"
| "linked nx a (b # bs) = (nx a = Some b \<and> linked nx b bs)"

lemma linked_append: "linked nx a (xs @ y # ys) \<Longrightarrow> linked nx y ys"
  by (induction xs arbitrary: a) auto

lemma linked_cong: "(\<And>b. b \<in> insert a (set xs) \<Longrightarrow> nx b = nx' b) \<Longrightarrow> linked nx a xs = linked nx' a xs"
  by (induction xs arbitrary: a) auto

lemma linked_last: "linked nx a (xs @ ys) \<Longrightarrow> nx (last (a # xs)) = (case ys of [] \<Rightarrow> None | y # _ \<Rightarrow> Some y)"
  by (induction xs arbitrary: a) (auto split: list.splits)

text \<open>Splicing a new node in.\<close>

lemma linked_insert:
  assumes "linked nx a (xs @ ys)" "distinct (a # xs @ ys)" "z \<notin> set (a # xs @ ys)"
    and "p = last (a # xs)"
  shows "linked (\<lambda>b. if b = z then nx p else if b = p then Some z else nx b) a (xs @ z # ys)"
  using assms
proof (induction xs arbitrary: a)
  case Nil
  then have "linked nx a ys" "p = a" by simp_all
  moreover have "linked (\<lambda>b. if b = z then nx a else if b = a then Some z else nx b) z ys"
  proof (cases ys)
    case (Cons y ys')
    with Nil have "linked (\<lambda>b. if b = z then nx a else if b = a then Some z else nx b) y ys' = linked nx y ys'"
      by (intro linked_cong) auto
    with Nil Cons show ?thesis by auto
  qed (use Nil in auto)
  ultimately show ?case using Nil.prems by auto
next
  case (Cons x xs)
  from Cons.prems have "linked nx x (xs @ ys)" "distinct (x # xs @ ys)" "z \<notin> set (x # xs @ ys)" "p = last (x # xs)"
    by simp_all
  from Cons.IH [OF this] have "linked (\<lambda>b. if b = z then nx p else if b = p then Some z else nx b) x (xs @ z # ys)" .
  moreover have "p \<noteq> a" "a \<noteq> z" "nx a = Some x"
    using Cons.prems last_in_set [of "x # xs"] by auto
  ultimately show ?case by simp
qed

section \<open>The invariant\<close>

abbreviation node_height :: "'k SkipList \<Rightarrow> nat \<Rightarrow> nat" where
  "node_height s a \<equiv> length (sn_next (sl_nodes s ! a))"

abbreviation node_key :: "'k SkipList \<Rightarrow> nat \<Rightarrow> 'k" where
  "node_key s a \<equiv> sn_key (sl_nodes s ! a)"

abbreviation link :: "'k SkipList \<Rightarrow> nat \<Rightarrow> nat \<Rightarrow> nat option" where
  "link s l a \<equiv> sn_next (sl_nodes s ! a) ! l"

abbreviation on_level :: "'k SkipList \<Rightarrow> nat \<Rightarrow> nat list \<Rightarrow> nat list" where
  "on_level s l P \<equiv> filter (\<lambda>a. l < node_height s a) P"

text \<open>The shape: \<open>P\<close> lists the nodes other than the head, and every level links those that reach it.\<close>

definition skip_shape :: "'k SkipList \<Rightarrow> nat list \<Rightarrow> bool" where
  "skip_shape s P \<longleftrightarrow>
     sl_nodes s \<noteq> [] \<and> node_height s 0 = kMaxHeight
   \<and> 1 \<le> sl_max_height s \<and> sl_max_height s \<le> kMaxHeight
   \<and> distinct P \<and> set P = {1..<length (sl_nodes s)}
   \<and> (\<forall>a \<in> set P. 1 \<le> node_height s a \<and> node_height s a \<le> sl_max_height s)
   \<and> (\<forall>l < kMaxHeight. linked (link s l) 0 (on_level s l P))"

definition skip_keys :: "'k SkipList \<Rightarrow> nat list \<Rightarrow> 'k list" where
  "skip_keys s P = map (node_key s) P"

lemma NodeNext_in: "a < length (sl_nodes s) \<Longrightarrow> l < node_height s a \<Longrightarrow> NodeNext s a l = Some (link s l a)"
  by (simp add: NodeNext_def rd_in)

lemma NodeKey_in: "a < length (sl_nodes s) \<Longrightarrow> NodeKey s a = Some (node_key s a)"
  by (simp add: NodeKey_def rd_in)

lemma skip_shape_new: "skip_shape (NewSkipList k) []"
  by (simp add: skip_shape_def NewSkipList_def NewNode_def kMaxHeight_def)

text \<open>A node of a level and its links.\<close>

definition level_node :: "'k SkipList \<Rightarrow> nat list \<Rightarrow> nat \<Rightarrow> nat \<Rightarrow> bool" where
  "level_node s P l a \<longleftrightarrow> l < kMaxHeight \<and> (a = 0 \<or> a \<in> set P \<and> l < node_height s a)"

lemma level_node_next:
  assumes "skip_shape s P" "level_node s P l a"
  shows "NodeNext s a l = Some (link s l a)"
  using assms by (intro NodeNext_in) (auto simp: skip_shape_def level_node_def)

lemma level_node_down: "level_node s P (Suc l) a \<Longrightarrow> level_node s P l a"
  by (auto simp: level_node_def)

text \<open>The rest of a level after one of its nodes.\<close>

lemma level_split:
  assumes "skip_shape s P" "level_node s P l a"
  obtains A B where "0 # on_level s l P = A @ a # B" "linked (link s l) a B"
proof (cases "a = 0")
  case True
  with assms that [of "[]"] show ?thesis by (simp add: skip_shape_def level_node_def)
next
  case False
  with assms have "a \<in> set (on_level s l P)" by (simp add: level_node_def)
  then obtain A B where "on_level s l P = A @ a # B" by (meson split_list)
  moreover have "linked (link s l) 0 (on_level s l P)" using assms by (simp add: skip_shape_def level_node_def)
  ultimately show ?thesis using that [of "0 # A" B] by (simp add: linked_append)
qed

section \<open>Searching\<close>

abbreviation first_of :: "nat list \<Rightarrow> nat option" where
  "first_of xs \<equiv> (case xs of [] \<Rightarrow> None | x # _ \<Rightarrow> Some x)"

definition before :: "('k \<Rightarrow> 'k \<Rightarrow> int) \<Rightarrow> 'k SkipList \<Rightarrow> 'k \<Rightarrow> nat \<Rightarrow> bool" where
  "before compare s k a \<longleftrightarrow> compare (node_key s a) k < 0"

definition pred_at :: "('k \<Rightarrow> 'k \<Rightarrow> int) \<Rightarrow> 'k SkipList \<Rightarrow> nat list \<Rightarrow> 'k \<Rightarrow> nat \<Rightarrow> nat" where
  "pred_at compare s P k l = last (0 # takeWhile (before compare s k) (on_level s l P))"

lemma KeyIsAfterNode_in:
  "skip_shape s P \<Longrightarrow> n \<in> set P \<Longrightarrow> KeyIsAfterNode compare s k (Some n) = Some (before compare s k n)"
  by (auto simp: KeyIsAfterNode_def NodeKey_in skip_shape_def before_def)

lemma find_ge_walk:
  assumes "skip_shape s P" "level_node s P l x" "linked (link s l) x B" "set B \<subseteq> set (on_level s l P)"
  shows "find_ge_loop compare s k x l prev =
    (let x' = last (x # takeWhile (before compare s k) B);
         prev' = prev[l := Some x']
     in if l = 0 then Some (first_of (dropWhile (before compare s k) B), prev')
        else find_ge_loop compare s k x' (l - 1) prev')"
  using assms(2-)
proof (induction B arbitrary: x)
  case Nil
  then show ?case
    by (subst find_ge_loop.simps) (simp add: level_node_next [OF assms(1)] KeyIsAfterNode_def Let_def)
next
  case (Cons b B)
  then have b: "b \<in> set P" "level_node s P l b" "link s l x = Some b" by (auto simp: level_node_def)
  show ?case
  proof (cases "before compare s k b")
    case True
    with Cons b show ?thesis
      by (subst find_ge_loop.simps)
        (simp add: level_node_next [OF assms(1)] KeyIsAfterNode_in [OF assms(1)] Let_def)
  next
    case False
    with Cons b show ?thesis
      by (subst find_ge_loop.simps)
        (simp add: level_node_next [OF assms(1)] KeyIsAfterNode_in [OF assms(1)] Let_def)
  qed
qed

lemma find_lt_walk:
  assumes "skip_shape s P" "level_node s P l x" "linked (link s l) x B" "set B \<subseteq> set (on_level s l P)"
    and "x = 0 \<or> before compare s k x"
  shows "find_lt_loop compare s k x l =
    (let x' = last (x # takeWhile (before compare s k) B)
     in if l = 0 then Some x' else find_lt_loop compare s k x' (l - 1))"
  using assms(2-)
proof (induction B arbitrary: x)
  case Nil
  have key: "x = 0 \<or> NodeKey s x = Some (node_key s x)"
    using Nil.prems(1) assms(1) by (auto simp: level_node_def skip_shape_def intro: NodeKey_in)
  from Nil key show ?case
    by (subst find_lt_loop.simps) (auto simp: level_node_next [OF assms(1)] before_def Let_def)
next
  case (Cons b B)
  then have b: "b \<in> set P" "level_node s P l b" "link s l x = Some b" by (auto simp: level_node_def)
  then have kb: "NodeKey s b = Some (node_key s b)" using assms(1) by (auto simp: skip_shape_def intro: NodeKey_in)
  have key: "x = 0 \<or> NodeKey s x = Some (node_key s x)"
    using Cons.prems(1) assms(1) by (auto simp: level_node_def skip_shape_def intro: NodeKey_in)
  have start: "find_lt_loop compare s k x l = (if before compare s k b then find_lt_loop compare s k b l
      else if l = 0 then Some x else find_lt_loop compare s k x (l - 1))"
    using Cons.prems(1,4) b key kb
    by (subst find_lt_loop.simps) (auto simp: level_node_next [OF assms(1)] before_def Let_def)
  show ?case
  proof (cases "before compare s k b")
    case True
    with Cons.IH [of b] Cons.prems b start show ?thesis by simp
  qed (simp add: start)
qed

lemma find_last_walk:
  assumes "skip_shape s P" "level_node s P l x" "linked (link s l) x B" "set B \<subseteq> set (on_level s l P)"
  shows "find_last_loop s x l =
    (let x' = last (x # B) in if l = 0 then Some x' else find_last_loop s x' (l - 1))"
  using assms(2-)
proof (induction B arbitrary: x)
  case Nil
  then show ?case by (subst find_last_loop.simps) (simp add: level_node_next [OF assms(1)])
next
  case (Cons b B)
  then have "level_node s P l b" "link s l x = Some b" by (auto simp: level_node_def)
  with Cons show ?case
    by (subst find_last_loop.simps) (simp add: level_node_next [OF assms(1)])
qed

section \<open>The invariant\<close>

definition skip_inv :: "('k \<Rightarrow> 'k \<Rightarrow> int) \<Rightarrow> ('k \<Rightarrow> bool) \<Rightarrow> 'k SkipList \<Rightarrow> nat list \<Rightarrow> bool" where
  "skip_inv compare valid s P \<longleftrightarrow> skip_shape s P \<and> (\<forall>a \<in> set P. valid (node_key s a))
     \<and> sorted_wrt (\<lambda>a b. compare (node_key s a) (node_key s b) < 0) P"

lemma skip_inv_new: "skip_inv compare valid (NewSkipList k) []"
  by (simp add: skip_inv_def skip_shape_new)

lemma on_level_0: "skip_shape s P \<Longrightarrow> on_level s 0 P = P"
  by (auto simp: skip_shape_def intro!: filter_True)

context key_order
begin

lemma level_sorted:
  assumes "skip_inv compare_keys valid s P" "valid k"
  shows "takeWhile (before compare_keys s k) (on_level s l P) = filter (before compare_keys s k) (on_level s l P)"
    and "dropWhile (before compare_keys s k) (on_level s l P) = filter (\<lambda>a. \<not> before compare_keys s k a) (on_level s l P)"
  using takeWhile_sorted [of "node_key s" "on_level s l P" k] assms
  unfolding skip_inv_def before_def by (auto intro: sorted_wrt_filter)

text \<open>Starting anywhere before the key on a level, the walk ends where it would end from the head.\<close>

lemma level_from:
  assumes "skip_inv compare_keys valid s P" "valid k" "level_node s P l x" "x = 0 \<or> before compare_keys s k x"
  obtains B where "linked (link s l) x B" "set B \<subseteq> set (on_level s l P)"
    "last (x # takeWhile (before compare_keys s k) B) = pred_at compare_keys s P k l"
    "dropWhile (before compare_keys s k) B = dropWhile (before compare_keys s k) (on_level s l P)"
proof -
  have sh: "skip_shape s P" using assms(1) by (simp add: skip_inv_def)
  from level_split [OF sh assms(3)] obtain A B where
    AB: "0 # on_level s l P = A @ x # B" and B: "linked (link s l) x B" by blast
  have n0: "0 \<notin> set (on_level s l P)" using sh by (auto simp: skip_shape_def)
  show ?thesis
  proof (cases A)
    case Nil
    with AB that [OF B] show ?thesis by (simp add: pred_at_def)
  next
    case (Cons a A')
    with AB have F: "on_level s l P = A' @ x # B" by simp
    with n0 assms(4) have x: "before compare_keys s k x" by (metis in_set_conv_decomp)
    have "before compare_keys s k a" if "a \<in> set A'" for a
    proof -
      have "sorted_wrt (\<lambda>a b. compare_keys (node_key s a) (node_key s b) < 0) (A' @ x # B)"
        unfolding F [symmetric] using assms(1) by (auto simp: skip_inv_def intro: sorted_wrt_filter)
      then have "compare_keys (node_key s a) (node_key s x) < 0" using that by (simp add: sorted_wrt_append)
      moreover have "valid (node_key s a)" "valid (node_key s x)"
        using assms(1) F that filter_is_subset [of "\<lambda>a. l < node_height s a" P]
        by (auto simp: skip_inv_def)
      ultimately show ?thesis using x assms(2) less_trans_order unfolding before_def by blast
    qed
    with x F have "takeWhile (before compare_keys s k) (on_level s l P) = A' @ x # takeWhile (before compare_keys s k) B"
      "dropWhile (before compare_keys s k) (on_level s l P) = dropWhile (before compare_keys s k) B"
      by (simp_all add: takeWhile_append2 dropWhile_append2)
    moreover have "set B \<subseteq> set (on_level s l P)" by (auto simp: F)
    ultimately show ?thesis using that [OF B] by (simp add: pred_at_def)
  qed
qed


lemma pred_at_node:
  assumes "skip_inv compare_keys valid s P" "l < kMaxHeight"
  shows "level_node s P l (pred_at compare_keys s P k l)"
    and "pred_at compare_keys s P k l = 0 \<or> before compare_keys s k (pred_at compare_keys s P k l)"
proof -
  have "pred_at compare_keys s P k l = 0
      \<or> pred_at compare_keys s P k l \<in> set (takeWhile (before compare_keys s k) (on_level s l P))"
    unfolding pred_at_def using last_in_set by auto
  then show "level_node s P l (pred_at compare_keys s P k l)"
    "pred_at compare_keys s P k l = 0 \<or> before compare_keys s k (pred_at compare_keys s P k l)"
    using assms(2) by (auto simp: level_node_def dest: set_takeWhileD)
qed

lemma find_ge_levels:
  assumes "skip_inv compare_keys valid s P" "valid k" "level_node s P l x" "x = 0 \<or> before compare_keys s k x"
  shows "find_ge_loop compare_keys s k x l prev =
    Some (first_of (dropWhile (before compare_keys s k) P),
      map (\<lambda>j. if j \<le> l then Some (pred_at compare_keys s P k j) else prev ! j) [0..<length prev])"
  using assms(3,4)
proof (induction l arbitrary: x prev)
  case 0
  have sh: "skip_shape s P" using assms(1) by (simp add: skip_inv_def)
  from level_from [OF assms(1,2) 0] obtain B where B: "linked (link s 0) x B" "set B \<subseteq> set (on_level s 0 P)"
    "last (x # takeWhile (before compare_keys s k) B) = pred_at compare_keys s P k 0"
    "dropWhile (before compare_keys s k) B = dropWhile (before compare_keys s k) (on_level s 0 P)" .
  have "find_ge_loop compare_keys s k x 0 prev = Some (first_of (dropWhile (before compare_keys s k) P),
      prev[0 := Some (pred_at compare_keys s P k 0)])"
    unfolding find_ge_walk [OF sh 0(1) B(1,2)] B(3,4) on_level_0 [OF sh] Let_def by (simp only: refl if_True)
  moreover have "prev[0 := Some y] = map (\<lambda>j. if j \<le> 0 then Some y else prev ! j) [0..<length prev]" for y
    by (rule nth_equalityI) (auto simp: nth_list_update)
  moreover have "map (\<lambda>j. if j \<le> 0 then Some (pred_at compare_keys s P k j) else prev ! j) [0..<length prev]
      = map (\<lambda>j. if j \<le> 0 then Some (pred_at compare_keys s P k 0) else prev ! j) [0..<length prev]"
    by (rule map_cong) simp_all
  ultimately show ?case by (simp only:)
next
  case (Suc l)
  have sh: "skip_shape s P" using assms(1) by (simp add: skip_inv_def)
  from level_from [OF assms(1,2) Suc.prems] obtain B where B: "linked (link s (Suc l)) x B" "set B \<subseteq> set (on_level s (Suc l) P)"
    "last (x # takeWhile (before compare_keys s k) B) = pred_at compare_keys s P k (Suc l)" .
  define y where "y = pred_at compare_keys s P k (Suc l)"
  have "Suc l < kMaxHeight" using Suc.prems by (simp add: level_node_def)
  then have y: "level_node s P l y" "y = 0 \<or> before compare_keys s k y"
    unfolding y_def using pred_at_node [OF assms(1)] level_node_down by blast+
  have "find_ge_loop compare_keys s k x (Suc l) prev = find_ge_loop compare_keys s k y l (prev[Suc l := Some y])"
    using find_ge_walk [OF sh Suc.prems(1) B(1,2)] B(3) by (simp add: Let_def y_def)
  also have "\<dots> = Some (first_of (dropWhile (before compare_keys s k) P),
      map (\<lambda>j. if j \<le> Suc l then Some (pred_at compare_keys s P k j) else prev ! j) [0..<length prev])"
    unfolding Suc.IH [OF y] by (auto simp: nth_list_update le_Suc_eq y_def)
  finally show ?case .
qed

lemma skip_start:
  assumes "skip_inv compare_keys valid s P"
  shows "level_node s P (sl_max_height s - 1) 0"
  using assms by (auto simp: skip_inv_def skip_shape_def level_node_def)

lemma FindGreaterOrEqual_correct:
  assumes "skip_inv compare_keys valid s P" "valid k"
  shows "FindGreaterOrEqual compare_keys s k = Some (first_of (dropWhile (before compare_keys s k) P),
    map (\<lambda>j. if j < sl_max_height s then Some (pred_at compare_keys s P k j) else None) [0..<kMaxHeight])"
proof -
  have "1 \<le> sl_max_height s" using assms(1) by (simp add: skip_inv_def skip_shape_def)
  then have "j \<le> sl_max_height s - 1 \<longleftrightarrow> j < sl_max_height s" for j by auto
  then show ?thesis
    unfolding FindGreaterOrEqual_def find_ge_levels [OF assms skip_start [OF assms(1)] disjI1 [OF refl]]
    by (auto intro!: map_cong)
qed

lemma find_lt_levels:
  assumes "skip_inv compare_keys valid s P" "valid k" "level_node s P l x" "x = 0 \<or> before compare_keys s k x"
  shows "find_lt_loop compare_keys s k x l = Some (pred_at compare_keys s P k 0)"
  using assms(3,4)
proof (induction l arbitrary: x)
  case 0
  have sh: "skip_shape s P" using assms(1) by (simp add: skip_inv_def)
  from level_from [OF assms(1,2) 0] obtain B where B: "linked (link s 0) x B" "set B \<subseteq> set (on_level s 0 P)"
    "last (x # takeWhile (before compare_keys s k) B) = pred_at compare_keys s P k 0" .
  then show ?case by (simp add: find_lt_walk [OF sh 0(1) B(1,2) 0(2)] Let_def)
next
  case (Suc l)
  have sh: "skip_shape s P" using assms(1) by (simp add: skip_inv_def)
  from level_from [OF assms(1,2) Suc.prems] obtain B where B: "linked (link s (Suc l)) x B" "set B \<subseteq> set (on_level s (Suc l) P)"
    "last (x # takeWhile (before compare_keys s k) B) = pred_at compare_keys s P k (Suc l)" .
  have "Suc l < kMaxHeight" using Suc.prems by (simp add: level_node_def)
  from pred_at_node [OF assms(1) this] B show ?case
    by (simp add: find_lt_walk [OF sh Suc.prems(1) B(1,2) Suc.prems(2)] Suc.IH level_node_down Let_def)
qed

lemma FindLessThan_correct:
  assumes "skip_inv compare_keys valid s P" "valid k"
  shows "FindLessThan compare_keys s k = Some (last (0 # takeWhile (before compare_keys s k) P))"
proof -
  have "on_level s 0 P = P" using assms(1) by (intro on_level_0) (simp add: skip_inv_def)
  then have "pred_at compare_keys s P k 0 = last (0 # takeWhile (before compare_keys s k) P)"
    by (simp only: pred_at_def)
  then show ?thesis
    unfolding FindLessThan_def using find_lt_levels [OF assms skip_start [OF assms(1)]] by simp
qed

end

lemma split_head: "y # F = A @ x # B \<Longrightarrow> set B \<subseteq> set F \<and> last (x # B) = last (y # F)"
  by (cases A) auto

lemma find_last_levels:
  assumes "skip_shape s P" "level_node s P l x"
  shows "find_last_loop s x l = Some (last (0 # P))"
  using assms(2)
proof (induction l arbitrary: x)
  case 0
  from level_split [OF assms(1) 0] obtain A B where
    AB: "0 # on_level s 0 P = A @ x # B" and B: "linked (link s 0) x B" by blast
  have "set B \<subseteq> set (on_level s 0 P)" "last (x # B) = last (0 # P)"
    using split_head [OF AB] unfolding on_level_0 [OF assms(1)] by simp_all
  then show ?case by (simp add: find_last_walk [OF assms(1) 0 B])
next
  case (Suc l)
  from level_split [OF assms(1) Suc.prems] obtain A B where
    AB: "0 # on_level s (Suc l) P = A @ x # B" and B: "linked (link s (Suc l)) x B" by blast
  have sub: "set B \<subseteq> set (on_level s (Suc l) P)" using split_head [OF AB] by simp
  have "last (x # B) = x \<or> last (x # B) \<in> set (on_level s (Suc l) P)" using sub last_in_set by auto
  then have "level_node s P (Suc l) (last (x # B))" using Suc.prems by (auto simp: level_node_def)
  with sub Suc.IH show ?case by (simp add: find_last_walk [OF assms(1) Suc.prems B] level_node_down Let_def)
qed

lemma FindLast_correct: "skip_shape s P \<Longrightarrow> FindLast s = Some (last (0 # P))"
  unfolding FindLast_def by (rule find_last_levels) (auto simp: skip_shape_def level_node_def)

section \<open>Insertion\<close>

definition same_nodes :: "'k SkipList \<Rightarrow> 'k SkipList \<Rightarrow> bool" where
  "same_nodes s s' \<longleftrightarrow> length (sl_nodes s') = length (sl_nodes s) \<and> sl_max_height s' = sl_max_height s
     \<and> (\<forall>a. node_key s' a = node_key s a \<and> node_height s' a = node_height s a)"

lemma SetNext_in:
  assumes "a < length (sl_nodes s)" "l < node_height s a"
  shows "\<exists>s'. SetNext a l y s = Some s' \<and> same_nodes s s'
    \<and> (\<forall>m b. link s' m b = (if m = l \<and> b = a then y else link s m b))"
proof -
  define s' where "s' = s\<lparr>sl_nodes := (sl_nodes s)[a := (sl_nodes s ! a)\<lparr>sn_next := (sn_next (sl_nodes s ! a))[l := y]\<rparr>]\<rparr>"
  have "SetNext a l y s = Some s'"
    using assms by (simp add: SetNext_def s'_def rd_in upd_in)
  moreover have "same_nodes s s'"
    using assms by (auto simp: same_nodes_def s'_def nth_list_update)
  moreover have "link s' m b = (if m = l \<and> b = a then y else link s m b)" for m b
    using assms by (auto simp: s'_def nth_list_update)
  ultimately show ?thesis by blast
qed

lemma same_nodes_trans: "same_nodes s t \<Longrightarrow> same_nodes t u \<Longrightarrow> same_nodes s u"
  by (auto simp: same_nodes_def)

lemma link_levels_correct:
  assumes "x < length (sl_nodes s)" "\<forall>i \<in> set is. i < node_height s x \<and> i < length prev
      \<and> prev ! i = Some (p i) \<and> p i < length (sl_nodes s) \<and> i < node_height s (p i) \<and> p i \<noteq> x"
    and "distinct is"
  shows "\<exists>s'. link_levels prev x is s = Some s' \<and> same_nodes s s' \<and> (\<forall>l a. link s' l a =
    (if l \<in> set is then (if a = x then link s l (p l) else if a = p l then Some x else link s l a) else link s l a))"
  using assms
proof (induction "is" arbitrary: s)
  case (Cons i "is")
  have i: "rd prev i = Some (Some (p i))" "NodeNext s (p i) i = Some (link s i (p i))"
    using Cons.prems by (simp_all add: rd_in NodeNext_in)
  from SetNext_in [of x s i "link s i (p i)"] Cons.prems obtain t where
    t: "SetNext x i (link s i (p i)) s = Some t" "same_nodes s t"
    "\<And>m b. link t m b = (if m = i \<and> b = x then link s i (p i) else link s m b)" by auto
  from SetNext_in [of "p i" t i "Some x"] Cons.prems t(2) obtain u where
    u: "SetNext (p i) i (Some x) t = Some u" "same_nodes t u"
    "\<And>m b. link u m b = (if m = i \<and> b = p i then Some x else link t m b)" by (auto simp: same_nodes_def)
  have su: "same_nodes s u" using t(2) u(2) by (rule same_nodes_trans)
  then have "x < length (sl_nodes u)" "\<forall>j \<in> set is. j < node_height u x \<and> j < length prev
      \<and> prev ! j = Some (p j) \<and> p j < length (sl_nodes u) \<and> j < node_height u (p j) \<and> p j \<noteq> x" "distinct is"
    using Cons.prems by (auto simp: same_nodes_def)
  from Cons.IH [OF this] obtain s' where s': "link_levels prev x is u = Some s'" "same_nodes u s'"
    "\<And>l a. link s' l a = (if l \<in> set is then (if a = x then link u l (p l) else if a = p l then Some x
      else link u l a) else link u l a)" by auto
  have "link_levels prev x (i # is) s = Some s'" using i t(1) u(1) s'(1) by simp
  moreover have "same_nodes s s'" using su s'(2) by (rule same_nodes_trans)
  moreover have "link s' l a = (if l \<in> set (i # is) then (if a = x then link s l (p l)
      else if a = p l then Some x else link s l a) else link s l a)" for l a
    using Cons.prems by (cases "l = i") (auto simp: s'(3) u(3) t(3))
  ultimately show ?case by blast
qed (simp add: same_nodes_def)

lemma fold_set_nth:
  "length (fold (\<lambda>i prev. prev[i := v]) is prev) = length prev"
  "j < length prev \<Longrightarrow> fold (\<lambda>i prev. prev[i := v]) is prev ! j = (if j \<in> set is then v else prev ! j)"
  by (induction "is" arbitrary: prev) (auto simp: nth_list_update)

text \<open>The list with the new node added at the end of the store, before it is linked.\<close>

definition with_node :: "'k \<Rightarrow> nat \<Rightarrow> u32 \<Rightarrow> 'k SkipList \<Rightarrow> 'k SkipList" where
  "with_node key height rnd s =
     s\<lparr>sl_nodes := sl_nodes s @ [NewNode key height],
       sl_max_height := (if height > sl_max_height s then height else sl_max_height s), sl_rnd := rnd\<rparr>"

lemma with_node_old:
  assumes "a < length (sl_nodes s)"
  shows "node_key (with_node key height rnd s) a = node_key s a"
    "node_height (with_node key height rnd s) a = node_height s a"
    "link (with_node key height rnd s) l a = link s l a"
  using assms by (simp_all add: with_node_def nth_append)

lemma with_node_new:
  "node_key (with_node key height rnd s) (length (sl_nodes s)) = key"
  "node_height (with_node key height rnd s) (length (sl_nodes s)) = height"
  "length (sl_nodes (with_node key height rnd s)) = Suc (length (sl_nodes s))"
  by (simp_all add: with_node_def NewNode_def)

text \<open>What the loop leaves behind: the old nodes, the new one, and it after its predecessor on every level.\<close>

definition spliced :: "('k \<Rightarrow> 'k \<Rightarrow> int) \<Rightarrow> 'k SkipList \<Rightarrow> nat list \<Rightarrow> 'k \<Rightarrow> nat \<Rightarrow> u32 \<Rightarrow> 'k SkipList \<Rightarrow> bool" where
  "spliced compare s P k height rnd s' \<longleftrightarrow> same_nodes (with_node k height rnd s) s' \<and> (\<forall>l a. link s' l a =
     (if l < height then
        (if a = length (sl_nodes s) then link s l (pred_at compare s P k l)
         else if a = pred_at compare s P k l then Some (length (sl_nodes s))
         else link (with_node k height rnd s) l a)
      else link (with_node k height rnd s) l a))"

lemma spliced_old:
  assumes "spliced compare s P k height rnd s'" "a < length (sl_nodes s)"
  shows "node_key s' a = node_key s a" "node_height s' a = node_height s a"
  using assms with_node_old [of a s k height rnd] by (simp_all add: spliced_def same_nodes_def)

lemma spliced_new:
  assumes "spliced compare s P k height rnd s'"
  shows "node_key s' (length (sl_nodes s)) = k" "node_height s' (length (sl_nodes s)) = height"
    "length (sl_nodes s') = Suc (length (sl_nodes s))" "sl_max_height s' = max (sl_max_height s) height"
  using assms with_node_new [of k height rnd s]
  by (simp_all add: spliced_def same_nodes_def with_node_def max_def)

lemma spliced_link:
  assumes "spliced compare s P k height rnd s'" "a < length (sl_nodes s) \<or> l < height \<and> a = length (sl_nodes s)"
  shows "link s' l a = (if l < height then
      (if a = length (sl_nodes s) then link s l (pred_at compare s P k l)
       else if a = pred_at compare s P k l then Some (length (sl_nodes s)) else link s l a)
    else link s l a)"
  using assms with_node_old(3) [where a = a and s = s and key = k and height = height and rnd = rnd and l = l]
  by (auto simp: spliced_def)

lemma spliced_level:
  assumes "spliced compare s P k height rnd s'" "set xs \<subseteq> {1..<length (sl_nodes s)}"
  shows "on_level s' l xs = on_level s l xs"
  using assms spliced_old(2) [OF assms(1)] by (intro filter_cong) auto

text \<open>The order of the nodes after an insertion.\<close>

definition insert_nodes :: "('k \<Rightarrow> 'k \<Rightarrow> int) \<Rightarrow> 'k SkipList \<Rightarrow> nat list \<Rightarrow> 'k \<Rightarrow> nat list" where
  "insert_nodes compare s P k =
     takeWhile (before compare s k) P @ length (sl_nodes s) # dropWhile (before compare s k) P"

lemma insert_nodes_split:
  obtains T D where "P = T @ D" "insert_nodes compare s P k = T @ length (sl_nodes s) # D"
  using insert_nodes_def takeWhile_dropWhile_id by metis

lemma set_insert_nodes: "set (insert_nodes compare s P k) = insert (length (sl_nodes s)) (set P)"
  by (rule insert_nodes_split [of P compare s k]) auto

lemma distinct_insert_nodes:
  "distinct P \<Longrightarrow> length (sl_nodes s) \<notin> set P \<Longrightarrow> distinct (insert_nodes compare s P k)"
  by (rule insert_nodes_split [of P compare s k]) auto

context key_order
begin

lemma split_levels:
  assumes "skip_inv compare_keys valid s P" "valid k"
  defines "T \<equiv> takeWhile (before compare_keys s k) P" and "D \<equiv> dropWhile (before compare_keys s k) P"
  shows "pred_at compare_keys s P k l = last (0 # on_level s l T)"
    and "on_level s l P = on_level s l T @ on_level s l D"
proof -
  have sh: "skip_shape s P" using assms(1) by (simp add: skip_inv_def)
  have "takeWhile (before compare_keys s k) P = filter (before compare_keys s k) P"
    using level_sorted(1) [OF assms(1,2), of 0] on_level_0 [OF sh] by (simp only:)
  then have "takeWhile (before compare_keys s k) (on_level s l P) = on_level s l T"
    unfolding T_def level_sorted(1) [OF assms(1,2)] by (simp add: conj_commute)
  then show "pred_at compare_keys s P k l = last (0 # on_level s l T)" by (simp only: pred_at_def)
  show "on_level s l P = on_level s l T @ on_level s l D"
    unfolding T_def D_def filter_append [symmetric] takeWhile_dropWhile_id ..
qed

lemma insert_linked:
  assumes inv: "skip_inv compare_keys valid s P" and k: "valid k" and l: "l < kMaxHeight"
  defines "T \<equiv> takeWhile (before compare_keys s k) P" and "D \<equiv> dropWhile (before compare_keys s k) P"
    and "x \<equiv> length (sl_nodes s)" and "p \<equiv> pred_at compare_keys s P k l"
  shows "linked (\<lambda>a. if a = x then link s l p else if a = p then Some x else link s l a) 0
    (on_level s l T @ x # on_level s l D)"
proof -
  have sh: "skip_shape s P" using inv by (simp add: skip_inv_def)
  have TD: "on_level s l P = on_level s l T @ on_level s l D" "p = last (0 # on_level s l T)"
    unfolding T_def D_def p_def using split_levels [OF inv k] by blast+
  have P: "distinct (on_level s l P)" "0 \<notin> set (on_level s l P)" "x \<notin> set (on_level s l P)" "x \<noteq> 0"
    using sh by (auto simp: skip_shape_def x_def)
  have "linked (link s l) 0 (on_level s l P)" using sh l by (simp add: skip_shape_def)
  then show ?thesis
    using P unfolding TD(1) by (intro linked_insert [OF _ _ _ TD(2)]) simp_all
qed


lemma insert_prev:
  assumes inv: "skip_inv compare_keys valid s P" and k: "valid k" and h: "height \<le> kMaxHeight" and i: "i < height"
  shows "fold (\<lambda>i prev. prev[i := Some 0]) [sl_max_height s..<height]
      (map (\<lambda>j. if j < sl_max_height s then Some (pred_at compare_keys s P k j) else None) [0..<kMaxHeight]) ! i
    = Some (pred_at compare_keys s P k i)"
proof (cases "i < sl_max_height s")
  case False
  have "node_height s a \<le> i" if "a \<in> set P" for a
    using inv that False by (meson le_trans not_less skip_inv_def skip_shape_def)
  then have "on_level s i P = []" by (auto simp: filter_empty_conv not_less)
  then have "pred_at compare_keys s P k i = 0" by (simp add: pred_at_def)
  with False h i show ?thesis by (simp add: fold_set_nth)
qed (use h i in \<open>simp add: fold_set_nth\<close>)

lemma insert_structure:
  assumes inv: "skip_inv compare_keys valid s P" and k: "valid k"
    and fresh: "\<forall>a \<in> set P. compare_keys k (node_key s a) \<noteq> 0"
    and rh: "RandomHeight (sl_rnd s) = (height, rnd)"
  shows "\<exists>s'. SkipListInsert compare_keys k s = Some s' \<and> spliced compare_keys s P k height rnd s'"
proof -
  define s1 x p prev where "s1 = with_node k height rnd s" and "x = length (sl_nodes s)"
    and "p = pred_at compare_keys s P k" and "prev = fold (\<lambda>i prev. prev[i := Some 0]) [sl_max_height s..<height]
      (map (\<lambda>j. if j < sl_max_height s then Some (p j) else None) [0..<kMaxHeight])"
  have h: "1 \<le> height" "height \<le> kMaxHeight" using RandomHeight_bounds [OF rh] by simp_all
  have sh: "skip_shape s P" using inv by (simp add: skip_inv_def)
  have dup: "(case first_of (dropWhile (before compare_keys s k) P) of None \<Rightarrow> Some False
      | Some y \<Rightarrow> map_option (\<lambda>k'. compare_keys k k' = 0) (NodeKey s y)) = Some False"
  proof (cases "dropWhile (before compare_keys s k) P")
    case (Cons d D)
    then have "d \<in> set P" using set_dropWhileD [of d "before compare_keys s k" P] by simp
    with sh fresh Cons show ?thesis by (auto simp: NodeKey_in skip_shape_def)
  qed (simp only: list.case option.case)
  have "SkipListInsert compare_keys k s = link_levels prev x [0..<height] s1"
    unfolding SkipListInsert_def FindGreaterOrEqual_correct [OF inv k] prev_def p_def s1_def x_def with_node_def
    by (simp add: dup rh Let_def)
  moreover have lv: "p i < x \<and> i < node_height s (p i)" if "i < height" for i
    using pred_at_node(1) [OF inv, of i k] that h sh by (auto simp: level_node_def skip_shape_def p_def x_def)
  moreover have "i < length prev \<and> prev ! i = Some (p i)" if "i < height" for i
    using insert_prev [OF inv k h(2) that] that h unfolding prev_def p_def by (simp add: fold_set_nth(1))
  moreover have "x < length (sl_nodes s1)" "node_height s1 x = height"
    using with_node_new [of k height rnd s] by (simp_all add: s1_def x_def)
  moreover have "i < node_height s1 (p i)" "p i < length (sl_nodes s1)" if "i < height" for i
    using lv [OF that] with_node_old(2) [of "p i" s k height rnd] with_node_new(3) [of k height rnd s]
    by (simp_all add: s1_def x_def)
  ultimately have "\<exists>s'. link_levels prev x [0..<height] s1 = Some s' \<and> same_nodes s1 s' \<and> (\<forall>l a. link s' l a =
      (if l \<in> set [0..<height] then (if a = x then link s1 l (p l) else if a = p l then Some x else link s1 l a)
       else link s1 l a))"
    by (intro link_levels_correct) (auto simp: less_imp_neq)
  then obtain s' where s': "SkipListInsert compare_keys k s = Some s'" "same_nodes s1 s'"
    "\<And>l a. link s' l a = (if l < height then (if a = x then link s1 l (p l) else if a = p l then Some x
       else link s1 l a) else link s1 l a)"
    using \<open>SkipListInsert compare_keys k s = link_levels prev x [0..<height] s1\<close> by auto
  have "link s1 l (p l) = link s l (p l)" if "l < height" for l
    using with_node_old(3) [of "p l" s] lv [OF that] by (simp add: s1_def x_def)
  with s' show ?thesis by (auto simp: spliced_def s1_def x_def p_def)
qed

lemma spliced_linked:
  assumes inv: "skip_inv compare_keys valid s P" and k: "valid k" and sp: "spliced compare_keys s P k height rnd s'"
    and l: "l < kMaxHeight"
  shows "linked (link s' l) 0 (on_level s' l (insert_nodes compare_keys s P k))"
proof -
  define T D x p where "T = takeWhile (before compare_keys s k) P" and "D = dropWhile (before compare_keys s k) P"
    and "x = length (sl_nodes s)" and "p = pred_at compare_keys s P k l"
  have sh: "skip_shape s P" using inv by (simp add: skip_inv_def)
  have TD: "P = T @ D" by (simp add: T_def D_def)
  then have sub: "set T \<subseteq> {1..<x}" "set D \<subseteq> {1..<x}" "0 < x" using sh by (auto simp: skip_shape_def x_def)
  have lev: "on_level s' l (T @ x # D) = on_level s l T @ (if l < height then [x] else []) @ on_level s l D"
    using spliced_level [OF sp, of T l] spliced_level [OF sp, of D l] sub spliced_new(2) [OF sp] by (simp add: x_def)
  show ?thesis
  proof (cases "l < height")
    case True
    have "linked (link s' l) 0 (on_level s l T @ x # on_level s l D)
        = linked (\<lambda>a. if a = x then link s l p else if a = p then Some x else link s l a) 0
            (on_level s l T @ x # on_level s l D)"
      using sub True spliced_link [OF sp, where l = l] unfolding x_def p_def
      by (intro linked_cong) (auto simp: subset_eq)
    with lev True insert_linked [OF inv k l] show ?thesis
      by (simp only: insert_nodes_def T_def D_def x_def p_def if_True append_Cons append_Nil)
  next
    case False
    have "linked (link s' l) 0 (on_level s l P) = linked (link s l) 0 (on_level s l P)"
      using sub TD False spliced_link [OF sp, where l = l] unfolding x_def
      by (intro linked_cong) (auto simp: subset_eq)
    moreover have "linked (link s l) 0 (on_level s l P)" using sh l by (simp add: skip_shape_def)
    moreover have "on_level s l P = on_level s' l (T @ x # D)" using lev False TD by simp
    ultimately show ?thesis by (simp only: insert_nodes_def T_def D_def x_def)
  qed
qed

lemma spliced_shape:
  assumes inv: "skip_inv compare_keys valid s P" and k: "valid k" and sp: "spliced compare_keys s P k height rnd s'"
    and h: "1 \<le> height" "height \<le> kMaxHeight"
  shows "skip_shape s' (insert_nodes compare_keys s P k)"
  unfolding skip_shape_def
proof (intro conjI)
  have sh: "skip_shape s P" using inv by (simp add: skip_inv_def)
  then have P: "set P = {1..<length (sl_nodes s)}" "distinct P" "sl_nodes s \<noteq> []" by (auto simp: skip_shape_def)
  show "distinct (insert_nodes compare_keys s P k)" using P by (intro distinct_insert_nodes) auto
  show "set (insert_nodes compare_keys s P k) = {1..<length (sl_nodes s')}"
    using P by (auto simp: set_insert_nodes spliced_new [OF sp] Suc_le_eq)
  show "\<forall>a \<in> set (insert_nodes compare_keys s P k). 1 \<le> node_height s' a \<and> node_height s' a \<le> sl_max_height s'"
    using sh h P(1) spliced_old(2) [OF sp]
    by (auto simp: set_insert_nodes spliced_new [OF sp] skip_shape_def le_max_iff_disj)
  show "\<forall>l < kMaxHeight. linked (link s' l) 0 (on_level s' l (insert_nodes compare_keys s P k))"
    using spliced_linked [OF inv k sp] by blast
  show "sl_nodes s' \<noteq> []" using spliced_new(3) [OF sp] by auto
  show "node_height s' 0 = kMaxHeight"
    using spliced_old(2) [OF sp, of 0] P(3) sh by (simp add: skip_shape_def)
  show "1 \<le> sl_max_height s'" "sl_max_height s' \<le> kMaxHeight"
    using spliced_new(4) [OF sp] h sh by (simp_all add: skip_shape_def)
qed

lemma insert_sorted:
  assumes inv: "skip_inv compare_keys valid s P" and k: "valid k"
    and fresh: "\<forall>a \<in> set P. compare_keys k (node_key s a) \<noteq> 0"
    and keys: "f (length (sl_nodes s)) = k" "\<forall>a \<in> set P. f a = node_key s a"
  shows "sorted_wrt (\<lambda>a b. compare_keys (f a) (f b) < 0) (insert_nodes compare_keys s P k)"
proof -
  define T D where "T = takeWhile (before compare_keys s k) P" and "D = dropWhile (before compare_keys s k) P"
  have TD: "P = T @ D" by (simp add: T_def D_def)
  have lt: "compare_keys (f a) k < 0" if "a \<in> set T" for a
    using that set_takeWhileD [of a "before compare_keys s k" P] keys(2) by (simp add: T_def before_def)
  have gt: "compare_keys k (f a) < 0" if "a \<in> set D" for a
  proof -
    have a: "a \<in> set P" using that TD by simp
    have "on_level s 0 P = P" using inv by (intro on_level_0) (simp add: skip_inv_def)
    then have "\<not> before compare_keys s k a"
      using that level_sorted(2) [OF inv k, of 0] unfolding D_def by simp
    moreover have "valid (node_key s a)" "compare_keys k (node_key s a) \<noteq> 0"
      using inv fresh a by (auto simp: skip_inv_def)
    ultimately show ?thesis
      using order_swap [of "node_key s a" k] order_swap [of k "node_key s a"] k keys(2) a
      unfolding before_def by fastforce
  qed
  have "sorted_wrt (\<lambda>a b. compare_keys (node_key s a) (node_key s b) < 0) P" using inv by (simp add: skip_inv_def)
  then have "sorted_wrt (\<lambda>a b. compare_keys (f a) (f b) < 0) P"
    using keys(2) by (auto intro: sorted_wrt_mono_rel [rotated])
  then show ?thesis
    unfolding insert_nodes_def T_def [symmetric] D_def [symmetric] using lt gt keys(1) TD
    by (auto simp: sorted_wrt_append)
qed

lemma SkipListInsert_correct:
  assumes inv: "skip_inv compare_keys valid s P" and k: "valid k"
    and fresh: "\<forall>a \<in> set P. compare_keys k (node_key s a) \<noteq> 0"
  shows "\<exists>s'. SkipListInsert compare_keys k s = Some s'
    \<and> skip_inv compare_keys valid s' (insert_nodes compare_keys s P k)
    \<and> node_key s' (length (sl_nodes s)) = k \<and> (\<forall>a \<in> set P. node_key s' a = node_key s a)"
proof -
  obtain height rnd where rh: "RandomHeight (sl_rnd s) = (height, rnd)" by (cases "RandomHeight (sl_rnd s)")
  from insert_structure [OF inv k fresh rh] obtain s' where
    s': "SkipListInsert compare_keys k s = Some s'" and sp: "spliced compare_keys s P k height rnd s'" by blast
  have "set P = {1..<length (sl_nodes s)}" using inv by (simp add: skip_inv_def skip_shape_def)
  then have keys: "node_key s' (length (sl_nodes s)) = k" "\<forall>a \<in> set P. node_key s' a = node_key s a"
    using spliced_old(1) [OF sp] spliced_new(1) [OF sp] by auto
  moreover have "skip_shape s' (insert_nodes compare_keys s P k)"
    using RandomHeight_bounds [OF rh] by (intro spliced_shape [OF inv k sp]) simp_all
  moreover have "\<forall>a \<in> set (insert_nodes compare_keys s P k). valid (node_key s' a)"
    using inv k keys by (auto simp: set_insert_nodes skip_inv_def)
  ultimately show ?thesis
    using s' insert_sorted [OF inv k fresh keys] unfolding skip_inv_def by blast
qed

lemma find_first_equal:
  assumes inv: "skip_inv compare_keys valid s P" and k: "valid k"
  shows "(case first_of (dropWhile (before compare_keys s k) P) of None \<Rightarrow> Some False
      | Some y \<Rightarrow> map_option (\<lambda>k'. compare_keys k k' = 0) (NodeKey s y))
    = Some (\<exists>a \<in> set P. compare_keys k (node_key s a) = 0)"
proof -
  define D where "D = dropWhile (before compare_keys s k) P"
  have sh: "skip_shape s P" using inv by (simp add: skip_inv_def)
  have D: "D = filter (\<lambda>a. \<not> before compare_keys s k a) P"
    using level_sorted(2) [OF inv k, of 0] on_level_0 [OF sh] by (simp only: D_def)
  have v: "valid (node_key s a)" if "a \<in> set P" for a using inv that by (simp add: skip_inv_def)
  have eq: "a \<in> set D" if "a \<in> set P" "compare_keys k (node_key s a) = 0" for a
    using that order_swap [OF v [OF that(1)] k] by (simp add: D before_def)
  show ?thesis
  proof (cases D)
    case Nil
    with eq have "\<not> (\<exists>a \<in> set P. compare_keys k (node_key s a) = 0)" by auto
    with Nil show ?thesis by (simp only: D_def [symmetric] list.case option.case)
  next
    case (Cons d D')
    then have d: "d \<in> set P" "\<not> before compare_keys s k d"
      using D filter_is_subset [of "\<lambda>a. \<not> before compare_keys s k a" P]
      by (auto dest: filter_eq_ConsD)
    have "compare_keys k (node_key s d) = 0" if a: "a \<in> set P" "compare_keys k (node_key s a) = 0" for a
    proof (cases "a = d")
      case False
      with eq [OF a] Cons have "a \<in> set D'" by simp
      moreover have "sorted_wrt (\<lambda>a b. compare_keys (node_key s a) (node_key s b) < 0) D"
        unfolding D using inv by (auto simp: skip_inv_def intro: sorted_wrt_filter)
      ultimately have "compare_keys (node_key s d) (node_key s a) < 0" using Cons by simp
      moreover have "compare_keys (node_key s a) k \<le> 0" using order_swap [OF k v [OF a(1)]] a(2) by simp
      ultimately have le: "compare_keys (node_key s d) k \<le> 0"
        using order_le_trans [OF v [OF d(1)] v [OF a(1)] k] by simp
      with d(2) have "compare_keys (node_key s d) k = 0" by (simp add: before_def)
      then show ?thesis
        using order_swap [OF v [OF d(1)] k] order_swap [OF k v [OF d(1)]] by linarith
    qed (use a in simp)
    moreover have "NodeKey s d = Some (node_key s d)" using d(1) sh by (auto simp: NodeKey_in skip_shape_def)
    ultimately show ?thesis using Cons d(1) by (auto simp: D_def [symmetric])
  qed
qed

lemma SkipListInsert_duplicate:
  assumes "skip_inv compare_keys valid s P" "valid k" "\<exists>a \<in> set P. compare_keys k (node_key s a) = 0"
  shows "SkipListInsert compare_keys k s = None"
  unfolding SkipListInsert_def FindGreaterOrEqual_correct [OF assms(1,2)]
  using find_first_equal [OF assms(1,2)] assms(3) by simp

lemma SkipListContains_correct:
  assumes "skip_inv compare_keys valid s P" "valid k"
  shows "SkipListContains compare_keys s k = Some (\<exists>a \<in> set P. compare_keys k (node_key s a) = 0)"
  unfolding SkipListContains_def FindGreaterOrEqual_correct [OF assms]
  using find_first_equal [OF assms] by simp

end

section \<open>Iterators\<close>

text \<open>The iterator at position \<open>i\<close> of the list; past the end it is the null pointer.\<close>

abbreviation iter_at_pos :: "nat list \<Rightarrow> nat \<Rightarrow> nat option" where
  "iter_at_pos P i \<equiv> first_of (drop i P)"

lemma linked_level_0: "skip_shape s P \<Longrightarrow> linked (link s 0) 0 P"
proof -
  assume sh: "skip_shape s P"
  then have "\<forall>l < kMaxHeight. linked (link s l) 0 (on_level s l P)" unfolding skip_shape_def by blast
  moreover have "0 < kMaxHeight" by (simp add: kMaxHeight_def)
  ultimately have "linked (link s 0) 0 (on_level s 0 P)" by blast
  then show ?thesis by (simp only: on_level_0 [OF sh])
qed

lemma linked_nth:
  "linked nx a xs \<Longrightarrow> i < length xs \<Longrightarrow> nx (xs ! i) = first_of (drop (Suc i) xs)"
proof (induction xs arbitrary: a i)
  case (Cons x xs)
  then show ?case by (cases i; cases xs) auto
qed simp

lemma iter_at_pos_in: "i < length P \<Longrightarrow> iter_at_pos P i = Some (P ! i)"
  by (simp add: Cons_nth_drop_Suc [symmetric])

lemma SkipIterNext_correct:
  assumes "skip_shape s P" "i < length P"
  shows "SkipIterNext s (iter_at_pos P i) = Some (iter_at_pos P (Suc i))"
proof -
  have l: "linked (link s 0) 0 P" by (rule linked_level_0 [OF assms(1)])
  have "P ! i \<in> set P" using assms(2) by simp
  with assms(1) have "NodeNext s (P ! i) 0 = Some (link s 0 (P ! i))"
    by (intro level_node_next [of s P]) (fastforce simp: level_node_def skip_shape_def kMaxHeight_def Suc_le_eq)+
  then show ?thesis using linked_nth [OF l assms(2)] assms(2) by (simp add: SkipIterNext_def iter_at_pos_in)
qed

lemma SkipIterSeekToFirst_correct: "skip_shape s P \<Longrightarrow> SkipIterSeekToFirst s = Some (iter_at_pos P 0)"
proof -
  assume sh: "skip_shape s P"
  then have "linked (link s 0) 0 P" by (rule linked_level_0)
  then have "link s 0 0 = first_of P" by (cases P) simp_all
  moreover have "NodeNext s 0 0 = Some (link s 0 0)"
    by (rule level_node_next [OF sh]) (simp add: level_node_def kMaxHeight_def)
  ultimately show ?thesis by (simp add: SkipIterSeekToFirst_def)
qed

lemma SkipIterSeekToLast_correct:
  assumes "skip_shape s P"
  shows "SkipIterSeekToLast s = Some (if P = [] then None else iter_at_pos P (length P - 1))"
proof (cases "P = []")
  case False
  then have "last P \<in> set P" by simp
  with assms have "last P \<noteq> 0" by (auto simp: skip_shape_def)
  with False assms show ?thesis
    by (simp add: SkipIterSeekToLast_def FindLast_correct iter_at_pos_in last_conv_nth)
qed (use assms in \<open>simp add: SkipIterSeekToLast_def FindLast_correct\<close>)

context key_order
begin

lemma SkipIterSeek_correct:
  assumes "skip_inv compare_keys valid s P" "valid k"
  shows "SkipIterSeek compare_keys s k = Some (iter_at_pos P (length (takeWhile (before compare_keys s k) P)))"
  unfolding SkipIterSeek_def FindGreaterOrEqual_correct [OF assms] by (simp add: dropWhile_eq_drop)

lemma SkipIterPrev_correct:
  assumes "skip_inv compare_keys valid s P" "i < length P"
  shows "SkipIterPrev compare_keys s (iter_at_pos P i) = Some (if i = 0 then None else iter_at_pos P (i - 1))"
proof -
  define k where "k = node_key s (P ! i)"
  have P: "P ! i \<in> set P" "set P = {1..<length (sl_nodes s)}"
    using assms nth_mem [OF assms(2)] unfolding skip_inv_def skip_shape_def by blast+
  then have k: "valid k" "NodeKey s (P ! i) = Some k"
    using assms(1) by (auto simp: skip_inv_def k_def NodeKey_in)
  have "takeWhile (before compare_keys s k) P = take i P"
  proof (rule takeWhile_eq_take_P_nth)
    fix j assume "j < i" "j < length P"
    with assms show "before compare_keys s k (P ! j)"
      by (simp add: before_def k_def skip_inv_def sorted_wrt_iff_nth_less)
  next
    assume "i < length P"
    then show "\<not> before compare_keys s k (P ! i)"
      using order_swap [of k k] k(1) by (auto simp: before_def k_def)
  qed
  then have "FindLessThan compare_keys s k = Some (last (0 # take i P))"
    using FindLessThan_correct [OF assms(1) k(1)] by simp
  moreover have "last (0 # take i P) = (if i = 0 then 0 else P ! (i - 1))"
    using assms(2) by (cases i) (auto simp: take_Suc_conv_app_nth)
  moreover have "P ! (i - 1) \<noteq> 0"
  proof -
    have "P ! (i - 1) \<in> set P" using assms(2) by (intro nth_mem) simp
    with P(2) show ?thesis by auto
  qed
  ultimately show ?thesis using k(2) assms(2) by (auto simp: SkipIterPrev_def iter_at_pos_in)
qed

end

section \<open>The specification: a sorted list of keys\<close>

definition skip_abs :: "('k \<Rightarrow> 'k \<Rightarrow> int) \<Rightarrow> ('k \<Rightarrow> bool) \<Rightarrow> 'k SkipList \<Rightarrow> 'k list \<Rightarrow> bool" where
  "skip_abs compare valid s keys \<longleftrightarrow> (\<exists>P. skip_inv compare valid s P \<and> keys = map (node_key s) P)"

definition insert_key :: "('k \<Rightarrow> 'k \<Rightarrow> int) \<Rightarrow> 'k \<Rightarrow> 'k list \<Rightarrow> 'k list" where
  "insert_key compare k keys =
     takeWhile (\<lambda>x. compare x k < 0) keys @ k # dropWhile (\<lambda>x. compare x k < 0) keys"

lemma skip_abs_new: "skip_abs compare valid (NewSkipList k) []"
  unfolding skip_abs_def using skip_inv_new by (intro exI [of _ "[]"]) simp

text \<open>The keys from the iterator on, read with \<open>Next\<close>.\<close>

fun skip_scan :: "nat \<Rightarrow> 'k SkipList \<Rightarrow> nat option \<Rightarrow> 'k list option" where
  "skip_scan 0 s node = None"
| "skip_scan (Suc fuel) s node =
     (case node of
        None \<Rightarrow> Some []
      | Some n \<Rightarrow> Option.bind (NodeKey s n) (\<lambda>k.
          Option.bind (SkipIterNext s node) (\<lambda>node. map_option ((#) k) (skip_scan fuel s node))))"

lemma skip_scan_correct:
  assumes "skip_shape s P" "length P < fuel + i" "i \<le> length P"
  shows "skip_scan fuel s (iter_at_pos P i) = Some (map (node_key s) (drop i P))"
  using assms(2,3)
proof (induction fuel arbitrary: i)
  case (Suc fuel)
  show ?case
  proof (cases "i < length P")
    case True
    moreover have "NodeKey s (P ! i) = Some (node_key s (P ! i))"
      using assms(1) nth_mem [OF True] by (auto simp: skip_shape_def intro: NodeKey_in)
    ultimately show ?thesis
      using Suc.IH [of "Suc i"] Suc.prems SkipIterNext_correct [OF assms(1) True]
      by (simp add: iter_at_pos_in Cons_nth_drop_Suc [symmetric])
  qed simp
qed simp

context key_order
begin

lemma skip_abs_insert:
  assumes "skip_abs compare_keys valid s keys" "valid k"
  shows "if \<exists>x \<in> set keys. compare_keys k x = 0 then SkipListInsert compare_keys k s = None
    else \<exists>s'. SkipListInsert compare_keys k s = Some s' \<and> skip_abs compare_keys valid s' (insert_key compare_keys k keys)"
proof -
  from assms(1) obtain P where P: "skip_inv compare_keys valid s P" "keys = map (node_key s) P"
    by (auto simp: skip_abs_def)
  show ?thesis
  proof (cases "\<exists>x \<in> set keys. compare_keys k x = 0")
    case True
    with P SkipListInsert_duplicate [OF P(1) assms(2)] show ?thesis by auto
  next
    case False
    with P(2) have "\<forall>a \<in> set P. compare_keys k (node_key s a) \<noteq> 0" by auto
    from SkipListInsert_correct [OF P(1) assms(2) this] obtain s' where
      s': "SkipListInsert compare_keys k s = Some s'" "skip_inv compare_keys valid s' (insert_nodes compare_keys s P k)"
      "node_key s' (length (sl_nodes s)) = k" "\<And>a. a \<in> set P \<Longrightarrow> node_key s' a = node_key s a" by blast
    have "map (node_key s') (insert_nodes compare_keys s P k) = insert_key compare_keys k keys"
      using s'(3,4) set_takeWhileD [of _ "before compare_keys s k" P] set_dropWhileD [of _ "before compare_keys s k" P]
      by (simp add: insert_nodes_def insert_key_def P(2) takeWhile_map dropWhile_map comp_def before_def [abs_def])
    with False s'(1,2) show ?thesis unfolding skip_abs_def by auto
  qed
qed

lemma skip_abs_contains:
  "skip_abs compare_keys valid s keys \<Longrightarrow> valid k \<Longrightarrow>
    SkipListContains compare_keys s k = Some (\<exists>x \<in> set keys. compare_keys k x = 0)"
  by (auto simp: skip_abs_def SkipListContains_correct)

text \<open>Seeking yields the keys that are not before the target.\<close>

lemma skip_abs_seek:
  assumes "skip_abs compare_keys valid s keys" "valid k"
  shows "\<exists>node. SkipIterSeek compare_keys s k = Some node
    \<and> skip_scan (Suc (length keys)) s node = Some (dropWhile (\<lambda>x. compare_keys x k < 0) keys)"
proof -
  from assms(1) obtain P where P: "skip_inv compare_keys valid s P" "keys = map (node_key s) P"
    by (auto simp: skip_abs_def)
  then have sh: "skip_shape s P" by (simp add: skip_inv_def)
  show ?thesis
    using SkipIterSeek_correct [OF P(1) assms(2)]
      skip_scan_correct [OF sh, of "Suc (length keys)" "length (takeWhile (before compare_keys s k) P)"]
      length_takeWhile_le [of "before compare_keys s k" P]
    by (simp add: P(2) dropWhile_map comp_def before_def [abs_def] dropWhile_eq_drop [symmetric])
qed

lemma skip_abs_sorted:
  "skip_abs compare_keys valid s keys \<Longrightarrow> sorted_wrt (\<lambda>a b. compare_keys a b < 0) keys \<and> (\<forall>k \<in> set keys. valid k)"
  by (auto simp: skip_abs_def skip_inv_def sorted_wrt_map)

end

section \<open>Histories\<close>

text \<open>The states that a list reaches by insertions whose assertions hold, with the keys in order of insertion.\<close>

inductive skip_history :: "('k \<Rightarrow> 'k \<Rightarrow> int) \<Rightarrow> 'k SkipList \<Rightarrow> 'k list \<Rightarrow> bool" for compare where
  created: "skip_history compare (NewSkipList any_key) []"
| inserted: "skip_history compare s ks \<Longrightarrow> SkipListInsert compare k s = Some s' \<Longrightarrow> skip_history compare s' (ks @ [k])"

inductive_cases skip_history_snocE: "skip_history compare s (ks @ [k])"

lemma mset_insert_key: "mset (insert_key compare k keys) = add_mset k (mset keys)"
proof -
  have "mset (takeWhile P keys) + mset (dropWhile P keys) = mset keys" for P
    by (simp flip: mset_append)
  then show ?thesis by (simp add: insert_key_def)
qed

lemma skip_history_abs:
  assumes "key_order cmp valid" "skip_history cmp s ks" "\<forall>k \<in> set ks. valid k"
  shows "\<exists>keys. skip_abs cmp valid s keys \<and> mset keys = mset ks"
  using assms(2,3)
proof (induction rule: skip_history.induct)
  case (created any_key)
  then show ?case using skip_abs_new by (intro exI [of _ "[]"]) simp
next
  case (inserted s ks k s')
  then obtain keys where "skip_abs cmp valid s keys" "mset keys = mset ks" "valid k" by auto
  with key_order.skip_abs_insert [OF assms(1), of s keys k] inserted(2) show ?case
    by (auto simp: mset_insert_key split: if_splits)
qed

lemma key_order_nat: "key_order (\<lambda>a b. int a - int b) (\<lambda>_. True)"
  by unfold_locales auto

section \<open>Properties\<close>

text \<open>
  C10: the skip list refines a sorted list of keys. In a state that represents the list \<open>keys\<close>,
  \<open>Insert\<close> ends, and its assertion fails exactly when an equal key is present; otherwise the new
  state represents \<open>keys\<close> with the key at its place, whatever heights the generator chooses.
\<close>

theorem skip_insert_refines:
  assumes "key_order cmp valid" "skip_abs cmp valid s keys" "valid k"
  shows "if \<exists>x \<in> set keys. cmp k x = 0 then SkipListInsert cmp k s = None
    else \<exists>s'. SkipListInsert cmp k s = Some s' \<and> skip_abs cmp valid s' (insert_key cmp k keys)"
  by (rule key_order.skip_abs_insert [OF assms])

theorem skip_insert_refines_witness:
  "\<exists>s'. SkipListInsert (\<lambda>a b. int a - int b) 5 (NewSkipList 0) = Some s'
    \<and> skip_abs (\<lambda>a b. int a - int b) (\<lambda>_. True) s' [5]"
  using skip_insert_refines [OF key_order_nat skip_abs_new, of 5 0] by (simp add: insert_key_def)

text \<open>
  C28: searching a skip list. \<open>Contains\<close> and \<open>Seek\<close> end in every represented state; \<open>Contains\<close>
  tells whether an equal key is present, and reading on from \<open>Seek\<close> with \<open>Next\<close> gives the keys
  from the first one that is not before the target to the end, in order.
\<close>

theorem skip_search_correct:
  assumes "key_order cmp valid" "skip_abs cmp valid s keys" "valid k"
  shows "SkipListContains cmp s k = Some (\<exists>x \<in> set keys. cmp k x = 0)
    \<and> (\<exists>node. SkipIterSeek cmp s k = Some node
        \<and> skip_scan (Suc (length keys)) s node = Some (dropWhile (\<lambda>x. cmp x k < 0) keys))"
  using key_order.skip_abs_contains [OF assms] key_order.skip_abs_seek [OF assms] by simp

theorem skip_search_correct_witness:
  "SkipListContains (\<lambda>a b. int a - int b) (NewSkipList 0) 7 = Some False"
  using skip_search_correct [OF key_order_nat skip_abs_new, of 0 7] by simp

text \<open>
  C27: after any sequence of insertions, however the levels came out, the list holds exactly the
  inserted keys, in strictly increasing order.
\<close>

theorem skip_history_sorted:
  assumes "key_order cmp valid" "skip_history cmp s ks" "\<forall>k \<in> set ks. valid k"
  shows "\<exists>node keys. SkipIterSeekToFirst s = Some node \<and> skip_scan (Suc (length ks)) s node = Some keys
    \<and> mset keys = mset ks \<and> sorted_wrt (\<lambda>a b. cmp a b < 0) keys"
proof -
  from skip_history_abs [OF assms] obtain keys where k: "skip_abs cmp valid s keys" "mset keys = mset ks" by blast
  then obtain P where P: "skip_shape s P" "keys = map (node_key s) P" by (auto simp: skip_abs_def skip_inv_def)
  have "length P = length ks" using k(2) P(2) by (metis length_map mset_eq_length)
  then have "skip_scan (Suc (length ks)) s (iter_at_pos P 0) = Some keys"
    using skip_scan_correct [OF P(1), of "Suc (length ks)" 0] P(2) by simp
  then show ?thesis
    using SkipIterSeekToFirst_correct [OF P(1)] k(2) key_order.skip_abs_sorted [OF assms(1) k(1)] by blast
qed

theorem skip_history_sorted_witness:
  "\<exists>s. skip_history (\<lambda>a b. int a - int b) s [5]
    \<and> (\<exists>node. SkipIterSeekToFirst s = Some node \<and> skip_scan 2 s node = Some [5])"
proof -
  obtain s where "SkipListInsert (\<lambda>a b. int a - int b) 5 (NewSkipList 0) = Some s"
    using key_order.skip_abs_insert [OF key_order_nat skip_abs_new, of 5 0] by auto
  then have h: "skip_history (\<lambda>a b. int a - int b) s [5]"
    using skip_history.inserted [OF skip_history.created] by fastforce
  from skip_history_sorted [OF key_order_nat h] h show ?thesis
    by (auto simp: numeral_2_eq_2)
qed

end
