(* ===== verification/Status.thy ===== *)
theory Status
  imports Prelude
begin

text \<open>
  The result of an operation, \<open>include/leveldb/status.h\<close> and \<open>util/status.cc\<close>. The components
  use the datatype; the byte array that the C++ keeps for an error is modelled below and
  printed by \<open>ToString\<close>. An operation with a result returns \<open>Status + 'a\<close>, \<open>Inl\<close> for an error.
\<close>

datatype Status =
    OK
  | NotFound string
  | Corruption string
  | NotSupported string
  | InvalidArgument string
  | IOError string

fun ok :: "Status \<Rightarrow> bool" where
  "ok OK = True"
| "ok _ = False"

lemma ok_iff: "ok s \<longleftrightarrow> s = OK"
  by (cases s) simp_all

section \<open>The stored state\<close>

datatype Code = kOk | kNotFound | kCorruption | kNotSupported | kInvalidArgument | kIOError

fun code_number :: "Code \<Rightarrow> nat" where
  "code_number kOk = 0"
| "code_number kNotFound = 1"
| "code_number kCorruption = 2"
| "code_number kNotSupported = 3"
| "code_number kInvalidArgument = 4"
| "code_number kIOError = 5"

text \<open>
  \<open>state_[0..3]\<close> is the message length in the byte order of the machine, which is only read back
  by \<open>memcpy\<close>; it is kept as a number. \<open>None\<close> stands for a failed assertion.
\<close>

record status_state =
  ss_size :: u32
  ss_code :: Code
  ss_message :: string

definition NewStatus :: "Code \<Rightarrow> string \<Rightarrow> string \<Rightarrow> status_state option" where
  "NewStatus code msg msg2 =
     (if code = kOk then None
      else
        let len1 = of_nat (length msg) :: u32;
            len2 = of_nat (length msg2) :: u32;
            size = len1 + (if len2 \<noteq> 0 then 2 + len2 else 0)
        in Some \<lparr>ss_size = size, ss_code = code,
             ss_message = take (unat len1) msg @ (if len2 \<noteq> 0 then '': '' @ take (unat len2) msg2 else [])\<rparr>)"

fun code_prefix :: "Code \<Rightarrow> string" where
  "code_prefix kOk = ''OK''"
| "code_prefix kNotFound = ''NotFound: ''"
| "code_prefix kCorruption = ''Corruption: ''"
| "code_prefix kNotSupported = ''Not implemented: ''"
| "code_prefix kInvalidArgument = ''Invalid argument: ''"
| "code_prefix kIOError = ''IO error: ''"

definition StatusToString :: "status_state option \<Rightarrow> string" where
  "StatusToString state =
     (case state of
        None \<Rightarrow> ''OK''
      | Some s \<Rightarrow> code_prefix (ss_code s) @ take (unat (ss_size s)) (ss_message s))"

lemma StatusToString_NewStatus:
  assumes "code \<noteq> kOk" "length msg + length msg2 + 2 < 2 ^ 32"
  shows "map_option (\<lambda>s. StatusToString (Some s)) (NewStatus code msg msg2)
    = Some (code_prefix code @ msg @ (if msg2 = [] then [] else '': '' @ msg2))"
proof -
  define len1 len2 where "len1 = (of_nat (length msg) :: u32)" and "len2 = (of_nat (length msg2) :: u32)"
  have l: "unat len1 = length msg" "unat len2 = length msg2"
    unfolding len1_def len2_def using assms(2) by (intro unat_of_nat_small, simp)+
  have z: "len2 = 0 \<longleftrightarrow> msg2 = []"
    using l(2) by (simp add: unat_eq_0 [symmetric])
  have "len1 + (2 + len2) = of_nat (length msg + (2 + length msg2))"
    by (simp add: len1_def len2_def)
  moreover have "unat (of_nat (length msg + (2 + length msg2)) :: u32) = length msg + (2 + length msg2)"
    using assms(2) by (intro unat_of_nat_small) simp
  ultimately have "unat (len1 + (2 + len2)) = length msg + (2 + length msg2)" by (simp only:)
  then show ?thesis
    unfolding NewStatus_def StatusToString_def len1_def [symmetric] len2_def [symmetric] Let_def
    using assms(1) l by (cases "msg2 = []") (simp_all add: z)
qed

section \<open>Files in memory\<close>

text \<open>A file for writing that never fails; the writers take the calls of a file as arguments.\<close>

definition mem_append :: "bytes \<Rightarrow> bytes \<Rightarrow> Status \<times> bytes" where
  "mem_append x file = (OK, file @ x)"

definition mem_flush :: "bytes \<Rightarrow> Status \<times> bytes" where
  "mem_flush file = (OK, file)"

end
