(* ===== verification/Memtable.thy ===== *)
theory Memtable
  imports Db_Format Skip_List Status
begin

text \<open>
  The memory table of \<open>db/memtable.h\<close> and \<open>db/memtable.cc\<close>: entries are byte strings that hold a
  length-prefixed internal key and a length-prefixed value, kept in a skip list that compares the
  internal keys. The arena that owns the entries only allocates and is left out. The user
  comparator is an argument. \<open>None\<close> is a failed assertion or a read outside an entry.
\<close>

section \<open>Entries\<close>

text \<open>
  The static \<open>GetLengthPrefixedSlice\<close> of the file: it looks at up to five bytes for the length and
  does not know where the entry ends. The bytes after the slice are returned with it.
\<close>

definition entry_slice :: "bytes \<Rightarrow> (bytes \<times> bytes) option" where
  "entry_slice data =
     (case GetVarint32Ptr (take 5 data) of
        None \<Rightarrow> None
      | Some (len, rest) \<Rightarrow>
          let p = drop (length (take 5 data) - length rest) data in
          if unat len \<le> length p then Some (take (unat len) p, drop (unat len) p) else None)"

text \<open>Entries are always well formed, so the value for a malformed one does not matter.\<close>

definition KeyComparator :: "(bytes \<Rightarrow> bytes \<Rightarrow> int) \<Rightarrow> bytes \<Rightarrow> bytes \<Rightarrow> int" where
  "KeyComparator user_compare aptr bptr =
     (case (entry_slice aptr, entry_slice bptr) of
        (Some (a, _), Some (b, _)) \<Rightarrow> InternalKeyCompare user_compare a b
      | _ \<Rightarrow> 0)"

definition EncodeKey :: "bytes \<Rightarrow> bytes" where
  "EncodeKey target = PutVarint32 [] (of_nat (length target)) @ target"

section \<open>The table\<close>

record MemTable =
  mt_refs :: int
  mt_table :: "bytes SkipList"

definition NewMemTable :: MemTable where
  "NewMemTable = \<lparr>mt_refs = 0, mt_table = NewSkipList []\<rparr>"

definition MemTableRef :: "MemTable \<Rightarrow> MemTable" where
  "MemTableRef m = m\<lparr>mt_refs := mt_refs m + 1\<rparr>"

text \<open>The inner \<open>None\<close>: the table has been deleted.\<close>

definition MemTableUnref :: "MemTable \<Rightarrow> MemTable option option" where
  "MemTableUnref m =
     (let m = m\<lparr>mt_refs := mt_refs m - 1\<rparr> in
      if mt_refs m < 0 then None else if mt_refs m \<le> 0 then Some None else Some (Some m))"

definition MemTableAdd ::
    "(bytes \<Rightarrow> bytes \<Rightarrow> int) \<Rightarrow> u64 \<Rightarrow> ValueType \<Rightarrow> bytes \<Rightarrow> bytes \<Rightarrow> MemTable \<Rightarrow> MemTable option" where
  "MemTableAdd user_compare s type key val m =
     (let key_size = length key;
          val_size = length val;
          internal_key_size = key_size + 8;
          encoded_len = VarintLength (of_nat internal_key_size) + internal_key_size
            + VarintLength (of_nat val_size) + val_size;
          buf = EncodeVarint32 (of_nat internal_key_size) @ key
            @ EncodeFixed64 (push_bit 8 s OR type_code type)
            @ EncodeVarint32 (of_nat val_size) @ val
      in if length buf = encoded_len
         then map_option (\<lambda>t. m\<lparr>mt_table := t\<rparr>) (SkipListInsert (KeyComparator user_compare) buf (mt_table m))
         else None)"

text \<open>What \<open>Get\<close> reports: \<open>false\<close>, a value, or \<open>true\<close> with the status \<open>NotFound\<close>.\<close>

datatype memtable_result = Missing | Found bytes | Deleted Status

definition MemTableGet :: "(bytes \<Rightarrow> bytes \<Rightarrow> int) \<Rightarrow> LookupKey \<Rightarrow> MemTable \<Rightarrow> memtable_result option" where
  "MemTableGet user_compare key m =
     Option.bind (SkipIterSeek (KeyComparator user_compare) (mt_table m) (memtable_key key)) (\<lambda>iter.
       case iter of
         None \<Rightarrow> Some Missing
       | Some _ \<Rightarrow>
           Option.bind (SkipIterKey (mt_table m) iter) (\<lambda>entry.
           Option.bind (entry_slice entry) (\<lambda>(k, rest).
             let key_length = length k in
             if user_compare (take (key_length - 8) k) (lookup_user_key key) = 0 then
               let tag = DecodeFixed64 (drop (key_length - 8) k) in
               if tag AND 0xff = type_code kTypeValue then
                 map_option (\<lambda>(v, _). Found v) (entry_slice rest)
               else if tag AND 0xff = type_code kTypeDeletion then Some (Deleted (NotFound []))
               else Some Missing
             else Some Missing)))"

section \<open>Its iterator\<close>

definition MemIterSeek :: "(bytes \<Rightarrow> bytes \<Rightarrow> int) \<Rightarrow> MemTable \<Rightarrow> bytes \<Rightarrow> nat option option" where
  "MemIterSeek user_compare m k = SkipIterSeek (KeyComparator user_compare) (mt_table m) (EncodeKey k)"

definition MemIterSeekToFirst :: "MemTable \<Rightarrow> nat option option" where
  "MemIterSeekToFirst m = SkipIterSeekToFirst (mt_table m)"

definition MemIterSeekToLast :: "MemTable \<Rightarrow> nat option option" where
  "MemIterSeekToLast m = SkipIterSeekToLast (mt_table m)"

definition MemIterNext :: "MemTable \<Rightarrow> nat option \<Rightarrow> nat option option" where
  "MemIterNext m it = SkipIterNext (mt_table m) it"

definition MemIterPrev :: "(bytes \<Rightarrow> bytes \<Rightarrow> int) \<Rightarrow> MemTable \<Rightarrow> nat option \<Rightarrow> nat option option" where
  "MemIterPrev user_compare m it = SkipIterPrev (KeyComparator user_compare) (mt_table m) it"

definition MemIterKey :: "MemTable \<Rightarrow> nat option \<Rightarrow> bytes option" where
  "MemIterKey m it = map_option fst (Option.bind (SkipIterKey (mt_table m) it) entry_slice)"

definition MemIterValue :: "MemTable \<Rightarrow> nat option \<Rightarrow> bytes option" where
  "MemIterValue m it =
     Option.bind (Option.bind (SkipIterKey (mt_table m) it) entry_slice) (\<lambda>(_, rest).
       map_option fst (entry_slice rest))"

section \<open>Encoded entries\<close>

record mem_entry =
  me_seq :: u64
  me_type :: ValueType
  me_key :: bytes
  me_value :: bytes

definition entry_tag :: "mem_entry \<Rightarrow> u64" where
  "entry_tag e = push_bit 8 (me_seq e) OR type_code (me_type e)"

definition entry_key :: "mem_entry \<Rightarrow> bytes" where
  "entry_key e = PutFixed64 (me_key e) (entry_tag e)"

definition encode_entry :: "mem_entry \<Rightarrow> bytes" where
  "encode_entry e = PutLengthPrefixedSlice [] (entry_key e) @ PutLengthPrefixedSlice [] (me_value e)"

definition entry_ok :: "mem_entry \<Rightarrow> bool" where
  "entry_ok e \<longleftrightarrow> length (me_key e) + 8 < 2 ^ 32 \<and> length (me_value e) < 2 ^ 32 \<and> me_seq e \<le> kMaxSequenceNumber"

lemma entry_slice_prefixed [simp]:
  assumes "length k < 2 ^ 32"
  shows "entry_slice (PutLengthPrefixedSlice [] k @ rest) = Some (k, rest)"
proof -
  define e where "e = EncodeVarint32 (of_nat (length k))"
  have le: "length e \<le> 5" unfolding e_def by (rule length_EncodeVarint32_le_5)
  then have "take 5 (e @ k @ rest) = e @ take (5 - length e) (k @ rest)" by simp
  moreover have "GetVarint32Ptr (e @ take (5 - length e) (k @ rest)) = Some (of_nat (length k), take (5 - length e) (k @ rest))"
    unfolding e_def by simp
  moreover have "length (take 5 (e @ k @ rest)) - length (take (5 - length e) (k @ rest)) = length e"
    using le by simp
  moreover have "unat (of_nat (length k) :: u32) = length k" using assms by (simp add: unat_of_nat_small)
  ultimately show ?thesis
    by (simp add: entry_slice_def PutLengthPrefixedSlice_def PutVarint32_def e_def [symmetric])
qed

lemma entry_slice_prefixed_only [simp]:
  "length k < 2 ^ 32 \<Longrightarrow> entry_slice (PutLengthPrefixedSlice [] k) = Some (k, [])"
  using entry_slice_prefixed [of k "[]"] by simp

lemma length_entry_key: "length (entry_key e) = length (me_key e) + 8"
  by (simp add: entry_key_def)

lemma entry_slice_encode:
  "entry_ok e \<Longrightarrow> entry_slice (encode_entry e) = Some (entry_key e, PutLengthPrefixedSlice [] (me_value e))"
  by (simp add: encode_entry_def entry_ok_def length_entry_key)

lemma entry_key_facts:
  "ExtractUserKey (entry_key e) = me_key e" "internal_key_ok (entry_key e)" "key_num (entry_key e) = entry_tag e"
  by (simp_all add: entry_key_def PutFixed64_def ExtractUserKey_def internal_key_ok_def)

section \<open>The order of the entries\<close>

definition mem_key_ok :: "bytes \<Rightarrow> bool" where
  "mem_key_ok b \<longleftrightarrow> (\<exists>k rest. entry_slice b = Some (k, rest) \<and> internal_key_ok k)"

abbreviation mem_compare :: "bytes \<Rightarrow> bytes \<Rightarrow> int" where
  "mem_compare \<equiv> KeyComparator BytewiseCompare"

lemma mem_compare_slices:
  "entry_slice a = Some (x, r) \<Longrightarrow> entry_slice b = Some (y, q) \<Longrightarrow> mem_compare a b = InternalKeyCompare BytewiseCompare x y"
  by (simp add: KeyComparator_def)

interpretation mem: key_order mem_compare mem_key_ok
proof
  fix a b c
  assume "mem_key_ok a" "mem_key_ok b"
  then obtain x y r q where ab: "entry_slice a = Some (x, r)" "internal_key_ok x" "entry_slice b = Some (y, q)" "internal_key_ok y"
    by (auto simp: mem_key_ok_def)
  then show "mem_compare a b < 0 \<longleftrightarrow> mem_compare b a > 0"
    using internal.compare_swap [of x y] by (simp add: mem_compare_slices)
  assume "mem_key_ok c"
  then obtain z p where c: "entry_slice c = Some (z, p)" "internal_key_ok z" by (auto simp: mem_key_ok_def)
  show "mem_compare a b \<le> 0 \<Longrightarrow> mem_compare b c \<le> 0 \<Longrightarrow> mem_compare a c \<le> 0"
    using ab c internal.compare_trans [of x y z] internal.compare_zero [of x y] internal.compare_zero [of y z]
    by (auto simp: mem_compare_slices order_le_less)
qed

section \<open>The specification: the newest visible version\<close>

definition visible :: "bytes \<Rightarrow> u64 \<Rightarrow> mem_entry \<Rightarrow> bool" where
  "visible u s e \<longleftrightarrow> me_key e = u \<and> me_seq e \<le> s"

fun newest_visible :: "bytes \<Rightarrow> u64 \<Rightarrow> mem_entry list \<Rightarrow> mem_entry option" where
  "newest_visible u s [] = None"
| "newest_visible u s (e # es) =
     (case newest_visible u s es of
        None \<Rightarrow> if visible u s e then Some e else None
      | Some e' \<Rightarrow> if visible u s e \<and> entry_tag e > entry_tag e' then Some e else Some e')"

fun result_of :: "mem_entry option \<Rightarrow> memtable_result" where
  "result_of None = Missing"
| "result_of (Some e) =
     (case me_type e of kTypeValue \<Rightarrow> Found (me_value e) | kTypeDeletion \<Rightarrow> Deleted (NotFound []))"

lemma newest_visible_None: "newest_visible u s es = None \<longleftrightarrow> (\<forall>e \<in> set es. \<not> visible u s e)"
  by (induction es) (auto split: option.splits)

lemma newest_visible_Some:
  "newest_visible u s es = Some e \<Longrightarrow> e \<in> set es \<and> visible u s e \<and> (\<forall>e' \<in> set es. visible u s e' \<longrightarrow> entry_tag e' \<le> entry_tag e)"
proof (induction es arbitrary: e)
  case (Cons x es)
  show ?case
  proof (cases "newest_visible u s es")
    case None
    with Cons.prems show ?thesis by (auto simp: newest_visible_None split: if_splits)
  next
    case (Some e')
    with Cons.prems Cons.IH [OF Some] show ?thesis by (auto split: if_splits)
  qed
qed simp

text \<open>A table that holds the entries \<open>es\<close>, no two of them with the same user key and tag.\<close>

definition mem_abs :: "MemTable \<Rightarrow> mem_entry list \<Rightarrow> bool" where
  "mem_abs m es \<longleftrightarrow> (\<forall>e \<in> set es. entry_ok e) \<and> inj_on (\<lambda>e. (me_key e, entry_tag e)) (set es)
     \<and> (\<exists>keys. skip_abs mem_compare mem_key_ok (mt_table m) keys \<and> set keys = encode_entry ` set es)"

lemma mem_abs_new: "mem_abs NewMemTable []"
  using skip_abs_new by (auto simp: mem_abs_def NewMemTable_def)

lemma mem_key_ok_entry: "entry_ok e \<Longrightarrow> mem_key_ok (encode_entry e)"
  by (simp add: mem_key_ok_def entry_slice_encode entry_key_facts)

lemma mem_compare_entries:
  "entry_ok e \<Longrightarrow> entry_ok f \<Longrightarrow>
    mem_compare (encode_entry e) (encode_entry f) = InternalKeyCompare BytewiseCompare (entry_key e) (entry_key f)"
  by (rule mem_compare_slices [OF entry_slice_encode entry_slice_encode])

lemma entry_key_eq: "entry_key e = entry_key f \<longleftrightarrow> me_key e = me_key f \<and> entry_tag e = entry_tag f"
  using entry_key_facts [of e] entry_key_facts [of f] internal_key_eqI [of "entry_key e" "entry_key f"] by metis

lemma VarintLength_32: "n < 2 ^ 32 \<Longrightarrow> VarintLength (of_nat n) = length (EncodeVarint32 (of_nat n))"
proof -
  assume "n < 2 ^ 32"
  then have "(of_nat n :: u64) = ucast (of_nat n :: u32)"
    by (intro word_unat_eq_iff [THEN iffD2]) (simp add: unat_of_nat_small)
  then show ?thesis by (simp add: EncodeVarint32_eq_64 length_EncodeVarint64)
qed

lemma MemTableAdd_encode:
  assumes "entry_ok e"
  shows "MemTableAdd cmp (me_seq e) (me_type e) (me_key e) (me_value e) m
    = map_option (\<lambda>t. m\<lparr>mt_table := t\<rparr>) (SkipListInsert (KeyComparator cmp) (encode_entry e) (mt_table m))"
proof -
  have "VarintLength (of_nat (length (me_key e) + 8)) = length (EncodeVarint32 (of_nat (length (me_key e) + 8)))"
    "VarintLength (of_nat (length (me_value e))) = length (EncodeVarint32 (of_nat (length (me_value e))))"
    using assms by (intro VarintLength_32; simp add: entry_ok_def)+
  moreover have "EncodeVarint32 (of_nat (length (me_key e) + 8)) @ me_key e
      @ EncodeFixed64 (push_bit 8 (me_seq e) OR type_code (me_type e))
      @ EncodeVarint32 (of_nat (length (me_value e))) @ me_value e = encode_entry e"
    by (simp add: encode_entry_def entry_key_def PutLengthPrefixedSlice_def PutVarint32_def PutFixed64_def entry_tag_def)
  moreover have "length (encode_entry e) = length (EncodeVarint32 (of_nat (length (me_key e) + 8)))
      + (length (me_key e) + 8) + length (EncodeVarint32 (of_nat (length (me_value e)))) + length (me_value e)"
    by (simp add: encode_entry_def PutLengthPrefixedSlice_def PutVarint32_def length_entry_key)
  ultimately show ?thesis
    unfolding MemTableAdd_def Let_def by (simp only: refl if_True)
qed

lemma MemTableAdd_correct:
  assumes "mem_abs m es" "entry_ok e"
  shows "if \<exists>f \<in> set es. me_key f = me_key e \<and> entry_tag f = entry_tag e
    then MemTableAdd BytewiseCompare (me_seq e) (me_type e) (me_key e) (me_value e) m = None
    else \<exists>m'. MemTableAdd BytewiseCompare (me_seq e) (me_type e) (me_key e) (me_value e) m = Some m'
      \<and> mem_abs m' (e # es)"
proof -
  from assms(1) obtain keys where keys: "skip_abs mem_compare mem_key_ok (mt_table m) keys"
    "set keys = encode_entry ` set es" "\<forall>f \<in> set es. entry_ok f" "inj_on (\<lambda>e. (me_key e, entry_tag e)) (set es)"
    by (auto simp: mem_abs_def)
  have eq: "mem_compare (encode_entry e) (encode_entry f) = 0 \<longleftrightarrow> me_key f = me_key e \<and> entry_tag f = entry_tag e"
    if "f \<in> set es" for f
    using that keys(3) assms(2) internal.compare_zero [of "entry_key e" "entry_key f"]
    by (auto simp: mem_compare_entries entry_key_facts entry_key_eq)
  have dup: "(\<exists>x \<in> set keys. mem_compare (encode_entry e) x = 0)
      \<longleftrightarrow> (\<exists>f \<in> set es. me_key f = me_key e \<and> entry_tag f = entry_tag e)"
    by (auto simp: keys(2) eq)
  have set: "set (insert_key mem_compare (encode_entry e) keys) = insert (encode_entry e) (set keys)"
    using arg_cong [OF mset_insert_key [of mem_compare "encode_entry e" keys], of set_mset] by simp
  note ins = mem.skip_abs_insert [OF keys(1) mem_key_ok_entry [OF assms(2)]]
  show ?thesis
  proof (cases "\<exists>f \<in> set es. me_key f = me_key e \<and> entry_tag f = entry_tag e")
    case True
    with ins dup show ?thesis by (simp add: MemTableAdd_encode [OF assms(2)])
  next
    case False
    with ins dup obtain t where t: "SkipListInsert mem_compare (encode_entry e) (mt_table m) = Some t"
      "skip_abs mem_compare mem_key_ok t (insert_key mem_compare (encode_entry e) keys)" by auto
    have "inj_on (\<lambda>e. (me_key e, entry_tag e)) (set (e # es))"
      using keys(4) False by (auto simp: inj_on_def)
    then have "mem_abs (m\<lparr>mt_table := t\<rparr>) (e # es)"
      unfolding mem_abs_def using t(2) set keys(2,3) assms(2) by auto
    with False t(1) show ?thesis by (simp add: MemTableAdd_encode [OF assms(2)])
  qed
qed

section \<open>Lookups\<close>

lemma seek_first:
  assumes "skip_abs mem_compare mem_key_ok t keys" "mem_key_ok k"
  shows "\<exists>node. SkipIterSeek mem_compare t k = Some node
    \<and> (case filter (\<lambda>x. \<not> mem_compare x k < 0) keys of [] \<Rightarrow> node = None
        | x # _ \<Rightarrow> \<exists>n. node = Some n \<and> NodeKey t n = Some x)"
proof -
  have "sorted_wrt (\<lambda>a b. mem_compare a b < 0) keys" "\<forall>x \<in> set keys. mem_key_ok x"
    using mem.skip_abs_sorted [OF assms(1)] by simp_all
  then have d: "dropWhile (\<lambda>x. mem_compare x k < 0) keys = filter (\<lambda>x. \<not> mem_compare x k < 0) keys"
    using mem.takeWhile_sorted(2) [where f = id and xs = keys and k = k] assms(2) by simp
  from mem.skip_abs_seek [OF assms] obtain node where
    node: "SkipIterSeek mem_compare t k = Some node" "skip_scan (Suc (length keys)) t node = Some (filter (\<lambda>x. \<not> mem_compare x k < 0) keys)"
    unfolding d by blast
  then show ?thesis
    by (cases node) (auto split: bind_splits list.splits)
qed

lemma tag_less_iff:
  assumes "unat s < 2 ^ 56" "entry_ok e"
  shows "push_bit 8 s OR type_code kTypeValue < entry_tag e \<longleftrightarrow> s < me_seq e"
  using packed_less_iff [of s "me_seq e" kTypeValue "me_type e"] assms
  by (simp add: entry_tag_def entry_ok_def kMaxSequenceNumber_unat)

text \<open>Which entries a lookup key lies before: later user keys, and the visible versions of its own.\<close>

lemma entry_before_lookup:
  assumes "NewLookupKey u s = Some lk" "length u + 8 < 2 ^ 32" "entry_ok e"
  shows "mem_compare (encode_entry e) (memtable_key lk) < 0 \<longleftrightarrow>
    BytewiseCompare (me_key e) u < 0 \<or> me_key e = u \<and> \<not> visible u s e"
proof -
  have s: "unat s < 2 ^ 56" and ik: "internal_key lk = PutFixed64 u (push_bit 8 s OR type_code kTypeValue)"
    using NewLookupKey_parts(1) [OF assms(1)]
    by (auto simp: AppendInternalKey_def PackSequenceAndType_def kMaxSequenceNumber_unat PutFixed64_def split: if_splits)
  have num: "key_num (internal_key lk) = push_bit 8 s OR type_code kTypeValue"
    by (simp add: ik PutFixed64_def)
  have "entry_slice (memtable_key lk) = Some (internal_key lk, [])"
    using NewLookupKey_parts(4) [OF assms(1)] assms(2) by (simp add: ik)
  then have "mem_compare (encode_entry e) (memtable_key lk)
      = InternalKeyCompare BytewiseCompare (entry_key e) (internal_key lk)"
    by (rule mem_compare_slices [OF entry_slice_encode [OF assms(3)]])
  then show ?thesis
    using internal_less_iff_bytewise [OF entry_key_facts(2) NewLookupKey_parts(5) [OF assms(1)], of e]
      tag_less_iff [OF s assms(3)] NewLookupKey_parts(6) [OF assms(1)]
    by (auto simp: entry_key_facts num visible_def not_le)
qed

lemma entries_ordered:
  assumes "entry_ok e" "entry_ok f"
  shows "mem_compare (encode_entry e) (encode_entry f) < 0 \<longleftrightarrow>
    BytewiseCompare (me_key e) (me_key f) < 0 \<or> me_key e = me_key f \<and> entry_tag f < entry_tag e"
  using internal_less_iff_bytewise [OF entry_key_facts(2) entry_key_facts(2), of e f]
  by (simp add: mem_compare_entries assms entry_key_facts)

lemma newest_visibleI:
  assumes "inj_on (\<lambda>e. (me_key e, entry_tag e)) (set es)" "e \<in> set es" "visible u s e"
    and "\<And>f. f \<in> set es \<Longrightarrow> visible u s f \<Longrightarrow> entry_tag f \<le> entry_tag e"
  shows "newest_visible u s es = Some e"
proof -
  from assms(2,3) have "newest_visible u s es \<noteq> None" unfolding newest_visible_None by blast
  then obtain n where n: "newest_visible u s es = Some n" by blast
  from newest_visible_Some [OF n] have "n \<in> set es" "visible u s n" "entry_tag n = entry_tag e"
    using assms by (auto intro: order_antisym)
  then have "n = e" using inj_onD [OF assms(1), of n e] assms(2,3) by (simp add: visible_def)
  with n show ?thesis by simp
qed

text \<open>What \<open>Get\<close> does with the entry it finds.\<close>

lemma get_at_entry:
  assumes "SkipIterSeek mem_compare (mt_table m) (memtable_key lk) = Some (Some n)"
    and "NodeKey (mt_table m) n = Some (encode_entry e)" "entry_ok e" "lookup_user_key lk = u"
  shows "MemTableGet BytewiseCompare lk m = Some (if me_key e = u then result_of (Some e) else Missing)"
proof -
  have seq: "unat (me_seq e) < 2 ^ 56" using assms(3) by (simp add: entry_ok_def kMaxSequenceNumber_unat)
  have k: "take (length (entry_key e) - 8) (entry_key e) = me_key e" "key_num (entry_key e) = entry_tag e"
    using entry_key_facts [of e] by (simp_all add: ExtractUserKey_def)
  have tag: "entry_tag e AND 0xff = type_code (me_type e)"
    using pack_split(2) [OF seq] by (simp add: entry_tag_def)
  have v: "entry_slice (PutLengthPrefixedSlice [] (me_value e)) = Some (me_value e, [])"
    using assms(3) by (simp add: entry_ok_def)
  show ?thesis
    unfolding MemTableGet_def SkipIterKey_def assms(1)
    by (cases "me_type e")
      (simp_all add: assms(2,4) entry_slice_encode [OF assms(3)] k tag v bytewise.compare_zero Let_def)
qed

lemma same_encoding:
  "entry_ok e \<Longrightarrow> entry_ok f \<Longrightarrow> encode_entry f = encode_entry e \<Longrightarrow> me_key f = me_key e \<and> entry_tag f = entry_tag e"
  using entry_slice_encode [of e] entry_slice_encode [of f] entry_key_eq [of f e] by simp

lemma mem_key_ok_lookup: "NewLookupKey u s = Some lk \<Longrightarrow> length u + 8 < 2 ^ 32 \<Longrightarrow> mem_key_ok (memtable_key lk)"
  using NewLookupKey_parts(1,4,5) [of u s lk] ParseInternalKey_Append(3) [OF NewLookupKey_parts(1), of u s lk]
  by (auto simp: mem_key_ok_def InternalKeyEncodingLength_def)

lemma MemTableGet_correct:
  assumes "mem_abs m es" "NewLookupKey u s = Some lk" "length u + 8 < 2 ^ 32"
  shows "MemTableGet BytewiseCompare lk m = Some (result_of (newest_visible u s es))"
proof -
  from assms(1) obtain keys where keys: "skip_abs mem_compare mem_key_ok (mt_table m) keys"
    "set keys = encode_entry ` set es" and ok: "\<And>f. f \<in> set es \<Longrightarrow> entry_ok f"
    and inj: "inj_on (\<lambda>e. (me_key e, entry_tag e)) (set es)" by (auto simp: mem_abs_def)
  note lk = entry_before_lookup [OF assms(2,3) ok]
  define D where "D = filter (\<lambda>x. \<not> mem_compare x (memtable_key lk) < 0) keys"
  from seek_first [OF keys(1) mem_key_ok_lookup [OF assms(2,3)]] obtain node where
    node: "SkipIterSeek mem_compare (mt_table m) (memtable_key lk) = Some node"
    "case D of [] \<Rightarrow> node = None | x # _ \<Rightarrow> \<exists>n. node = Some n \<and> NodeKey (mt_table m) n = Some x"
    unfolding D_def by blast
  have vis: "encode_entry e \<in> set D" if "e \<in> set es" "visible u s e" for e
    using that lk [OF that(1)] keys(2) bytewise.compare_zero [of u u] by (auto simp: D_def visible_def)
  show ?thesis
  proof (cases D)
    case Nil
    then have "newest_visible u s es = None" using vis by (auto simp: newest_visible_None)
    with Nil node show ?thesis by (simp add: MemTableGet_def)
  next
    case (Cons d D')
    with node obtain n where n: "node = Some n" "NodeKey (mt_table m) n = Some d" by auto
    have "d \<in> set D" using Cons by simp
    then obtain e where e: "e \<in> set es" "d = encode_entry e" "\<not> mem_compare d (memtable_key lk) < 0"
      using keys(2) by (auto simp: D_def)
    have get: "MemTableGet BytewiseCompare lk m = Some (if me_key e = u then result_of (Some e) else Missing)"
      using node(1) n e ok NewLookupKey_parts(2) [OF assms(2)] by (intro get_at_entry) simp_all
    have first: "encode_entry f = encode_entry e \<or> BytewiseCompare (me_key e) (me_key f) < 0
        \<or> me_key e = me_key f \<and> entry_tag f < entry_tag e" if "f \<in> set es" "visible u s f" for f
    proof -
      have "sorted_wrt (\<lambda>a b. mem_compare a b < 0) D"
        unfolding D_def using mem.skip_abs_sorted [OF keys(1)] by (auto intro: sorted_wrt_filter)
      then show ?thesis
        using vis [OF that] Cons e(1,2) entries_ordered [OF ok [OF e(1)] ok [OF that(1)]] by auto
    qed
    note same = same_encoding [OF ok [OF e(1)] ok]
    show ?thesis
    proof (cases "me_key e = u")
      case True
      then have "visible u s e" using lk [OF e(1)] e(2,3) by auto
      moreover have "entry_tag f \<le> entry_tag e" if "f \<in> set es" "visible u s f" for f
        using first [OF that] same [OF that(1)] that(2) True bytewise.compare_zero [of u u] by (auto simp: visible_def)
      ultimately have "newest_visible u s es = Some e" using inj e(1) by (intro newest_visibleI)
      with get True show ?thesis by simp
    next
      case False
      have "\<not> visible u s f" if "f \<in> set es" for f
        using first [OF that] same [OF that] False lk [OF e(1)] e(2,3) by (auto simp: visible_def)
      then have "newest_visible u s es = None" by (simp add: newest_visible_None)
      with get False show ?thesis by simp
    qed
  qed
qed

section \<open>Histories\<close>

text \<open>The tables that additions and new references lead to, with the entries added, the last one first.\<close>

inductive mem_history :: "MemTable \<Rightarrow> mem_entry list \<Rightarrow> bool" where
  created: "mem_history NewMemTable []"
| added: "mem_history m es
    \<Longrightarrow> MemTableAdd BytewiseCompare (me_seq e) (me_type e) (me_key e) (me_value e) m = Some m'
    \<Longrightarrow> mem_history m' (e # es)"
| referenced: "mem_history m es \<Longrightarrow> mem_history (MemTableRef m) es"

lemma mem_history_abs: "mem_history m es \<Longrightarrow> \<forall>e \<in> set es. entry_ok e \<Longrightarrow> mem_abs m es"
proof (induction rule: mem_history.induct)
  case created
  show ?case by (rule mem_abs_new)
next
  case (added m es e m')
  then show ?case using MemTableAdd_correct [of m es e] by (auto split: if_splits)
next
  case (referenced m es)
  then show ?case by (simp add: mem_abs_def MemTableRef_def)
qed

section \<open>Properties\<close>

text \<open>
  C8: \<open>MemTable::Get\<close> returns the newest version that the snapshot sees. After any additions, a
  lookup of a user key at a sequence number reports the value or the deletion of the entry for that
  key with the largest sequence number that is not above the snapshot, and reports nothing found
  when there is none; the search ends and stays inside the entries.
\<close>

theorem memtable_get_newest:
  assumes "mem_history m es" "\<forall>e \<in> set es. entry_ok e" "NewLookupKey u s = Some lk" "length u + 8 < 2 ^ 32"
  shows "MemTableGet BytewiseCompare lk m = Some (result_of (newest_visible u s es))"
  by (rule MemTableGet_correct [OF mem_history_abs [OF assms(1,2)] assms(3,4)])

theorem memtable_get_newest_witness:
  "\<exists>m lk. MemTableAdd BytewiseCompare 3 kTypeValue [1] [7] NewMemTable = Some m \<and> NewLookupKey [1] 5 = Some lk
    \<and> MemTableGet BytewiseCompare lk m = Some (Found [7])"
proof -
  define e where "e = \<lparr>me_seq = 3, me_type = kTypeValue, me_key = [1], me_value = [7]\<rparr>"
  have ok: "entry_ok e" by (simp add: e_def entry_ok_def kMaxSequenceNumber_def)
  obtain m where m: "MemTableAdd BytewiseCompare 3 kTypeValue [1] [7] NewMemTable = Some m"
    using MemTableAdd_correct [OF mem_abs_new ok] by (auto simp: e_def)
  then have h: "mem_history m [e]" using mem_history.added [OF mem_history.created, of e m] by (simp add: e_def)
  obtain lk where lk: "NewLookupKey [1] 5 = Some lk"
    by (auto simp: NewLookupKey_def PackSequenceAndType_def kMaxSequenceNumber_def Let_def)
  have "newest_visible [1] 5 [e] = Some e" by (simp add: visible_def e_def)
  with memtable_get_newest [OF h _ lk] ok m lk show ?thesis by (auto simp: e_def)
qed

text \<open>
  C31: \<open>MemTable::Add\<close> never fails on a new version: its length assertion holds for every key and
  value below 4 GB, and the insertion is refused exactly when the table already holds an entry with
  the same user key, sequence number and type.
\<close>

theorem memtable_add_defined:
  assumes "mem_history m es" "\<forall>f \<in> set es. entry_ok f" "entry_ok e"
  shows "MemTableAdd BytewiseCompare (me_seq e) (me_type e) (me_key e) (me_value e) m \<noteq> None
    \<longleftrightarrow> \<not> (\<exists>f \<in> set es. me_key f = me_key e \<and> me_seq f = me_seq e \<and> me_type f = me_type e)"
proof -
  have "entry_tag f = entry_tag e \<longleftrightarrow> me_seq f = me_seq e \<and> me_type f = me_type e" if "f \<in> set es" for f
    using packed_less_iff [of "me_seq f" "me_seq e" "me_type f" "me_type e"]
      packed_less_iff [of "me_seq e" "me_seq f" "me_type e" "me_type f"] assms(2,3) that
    by (cases "me_type f"; cases "me_type e")
      (auto simp: entry_tag_def entry_ok_def kMaxSequenceNumber_unat)
  then have "(\<exists>f \<in> set es. me_key f = me_key e \<and> entry_tag f = entry_tag e)
      \<longleftrightarrow> (\<exists>f \<in> set es. me_key f = me_key e \<and> me_seq f = me_seq e \<and> me_type f = me_type e)" by blast
  then show ?thesis
    using MemTableAdd_correct [OF mem_history_abs [OF assms(1,2)] assms(3)]
    by (cases "\<exists>f \<in> set es. me_key f = me_key e \<and> entry_tag f = entry_tag e") (simp_all del: not_None_eq, blast)
qed

theorem memtable_add_defined_witness:
  "MemTableAdd BytewiseCompare 3 kTypeValue [1] [7] NewMemTable \<noteq> None"
  using memtable_add_defined [OF mem_history.created, of "\<lparr>me_seq = 3, me_type = kTypeValue, me_key = [1], me_value = [7]\<rparr>"]
  by (simp add: entry_ok_def kMaxSequenceNumber_def)

end
