(* ===== verification/Write_Batch.thy ===== *)
theory Write_Batch
  imports Memtable
begin

text \<open>
  Write batches, \<open>db/write_batch.cc\<close>: the operations of a batch are kept encoded in one string
  behind a header of an 8-byte sequence number and a 4-byte count. A handler of \<open>Iterate\<close> is a pair
  of functions on a state of its own. \<open>None\<close> stands for a failed assertion of the code or of the
  memory table.
\<close>

section \<open>The batch\<close>

definition kHeader :: nat where
  "kHeader = 12"

text \<open>The string \<open>rep_\<close>; every batch has at least its header.\<close>

type_synonym WriteBatch = bytes

definition WriteBatchClear :: "WriteBatch \<Rightarrow> WriteBatch" where
  "WriteBatchClear rep = replicate kHeader 0"

definition NewWriteBatch :: WriteBatch where
  "NewWriteBatch = WriteBatchClear []"

definition ApproximateSize :: "WriteBatch \<Rightarrow> nat" where
  "ApproximateSize rep = length rep"

definition Count :: "WriteBatch \<Rightarrow> u32" where
  "Count rep = DecodeFixed32 (drop 8 rep)"

definition SetCount :: "u32 \<Rightarrow> WriteBatch \<Rightarrow> WriteBatch" where
  "SetCount n rep = take 8 rep @ EncodeFixed32 n @ drop 12 rep"

definition Sequence :: "WriteBatch \<Rightarrow> u64" where
  "Sequence rep = DecodeFixed64 rep"

definition SetSequence :: "u64 \<Rightarrow> WriteBatch \<Rightarrow> WriteBatch" where
  "SetSequence seq rep = EncodeFixed64 seq @ drop 8 rep"

definition WriteBatchPut :: "bytes \<Rightarrow> bytes \<Rightarrow> WriteBatch \<Rightarrow> WriteBatch" where
  "WriteBatchPut key val rep =
     (let rep = SetCount (Count rep + 1) rep;
          rep = rep @ [ucast (type_code kTypeValue)];
          rep = PutLengthPrefixedSlice rep key
      in PutLengthPrefixedSlice rep val)"

definition WriteBatchDelete :: "bytes \<Rightarrow> WriteBatch \<Rightarrow> WriteBatch" where
  "WriteBatchDelete key rep =
     (let rep = SetCount (Count rep + 1) rep;
          rep = rep @ [ucast (type_code kTypeDeletion)]
      in PutLengthPrefixedSlice rep key)"

definition WriteBatchAppend :: "WriteBatch \<Rightarrow> WriteBatch \<Rightarrow> WriteBatch option" where
  "WriteBatchAppend src dst =
     (let dst = SetCount (Count dst + Count src) dst in
      if length src < kHeader then None else Some (dst @ drop kHeader src))"

definition SetContents :: "bytes \<Rightarrow> WriteBatch \<Rightarrow> WriteBatch option" where
  "SetContents contents rep = (if length contents < kHeader then None else Some contents)"

section \<open>Iteration\<close>

text \<open>
  The loop over the operations: the state of the handler, the number of operations found and the
  status. The counter and the stored count are both 32-bit.
\<close>

function iterate_loop ::
    "(bytes \<Rightarrow> bytes \<Rightarrow> 's \<Rightarrow> 's option) \<Rightarrow> (bytes \<Rightarrow> 's \<Rightarrow> 's option) \<Rightarrow> bytes \<Rightarrow> u32 \<Rightarrow> 's
      \<Rightarrow> ('s \<times> u32 \<times> Status) option" where
  "iterate_loop put del input found st =
     (case input of
        [] \<Rightarrow> Some (st, found, OK)
      | tag # input \<Rightarrow>
          let found = found + 1 in
          if tag = ucast (type_code kTypeValue) then
            (case GetLengthPrefixedSlice input of
               None \<Rightarrow> Some (st, found, Corruption ''bad WriteBatch Put'')
             | Some (key, input) \<Rightarrow>
                 (case GetLengthPrefixedSlice input of
                    None \<Rightarrow> Some (st, found, Corruption ''bad WriteBatch Put'')
                  | Some (val, input) \<Rightarrow> Option.bind (put key val st) (iterate_loop put del input found)))
          else if tag = ucast (type_code kTypeDeletion) then
            (case GetLengthPrefixedSlice input of
               None \<Rightarrow> Some (st, found, Corruption ''bad WriteBatch Delete'')
             | Some (key, input) \<Rightarrow> Option.bind (del key st) (iterate_loop put del input found))
          else Some (st, found, Corruption ''unknown WriteBatch tag''))"
  by pat_completeness auto
termination
  by (relation "measure (\<lambda>(_, _, input, _, _). length input)")
    (auto dest!: GetLengthPrefixedSlice_shorter)

declare iterate_loop.simps [simp del]

definition Iterate ::
    "(bytes \<Rightarrow> bytes \<Rightarrow> 's \<Rightarrow> 's option) \<Rightarrow> (bytes \<Rightarrow> 's \<Rightarrow> 's option) \<Rightarrow> WriteBatch \<Rightarrow> 's
      \<Rightarrow> ('s \<times> Status) option" where
  "Iterate put del rep st =
     (if length rep < kHeader then Some (st, Corruption ''malformed WriteBatch (too small)'')
      else
        map_option (\<lambda>(st, found, status).
            if status \<noteq> OK then (st, status)
            else if found \<noteq> Count rep then (st, Corruption ''WriteBatch has wrong count'')
            else (st, OK))
          (iterate_loop put del (drop kHeader rep) 0 st))"

text \<open>The handler \<open>MemTableInserter\<close>: a sequence number and a table.\<close>

definition InserterPut ::
    "(bytes \<Rightarrow> bytes \<Rightarrow> int) \<Rightarrow> bytes \<Rightarrow> bytes \<Rightarrow> u64 \<times> MemTable \<Rightarrow> (u64 \<times> MemTable) option" where
  "InserterPut cmp key val st =
     (case st of (sequence, mem) \<Rightarrow>
        map_option (\<lambda>mem. (sequence + 1, mem)) (MemTableAdd cmp sequence kTypeValue key val mem))"

definition InserterDelete ::
    "(bytes \<Rightarrow> bytes \<Rightarrow> int) \<Rightarrow> bytes \<Rightarrow> u64 \<times> MemTable \<Rightarrow> (u64 \<times> MemTable) option" where
  "InserterDelete cmp key st =
     (case st of (sequence, mem) \<Rightarrow>
        map_option (\<lambda>mem. (sequence + 1, mem)) (MemTableAdd cmp sequence kTypeDeletion key [] mem))"

definition InsertInto ::
    "(bytes \<Rightarrow> bytes \<Rightarrow> int) \<Rightarrow> WriteBatch \<Rightarrow> MemTable \<Rightarrow> (MemTable \<times> Status) option" where
  "InsertInto cmp b memtable =
     map_option (\<lambda>((_, mem), status). (mem, status))
       (Iterate (InserterPut cmp) (InserterDelete cmp) b (Sequence b, memtable))"

section \<open>The operations of a batch\<close>

datatype batch_op = PutOp bytes bytes | DeleteOp bytes

fun op_bytes :: "batch_op \<Rightarrow> bytes" where
  "op_bytes (PutOp key val) = 1 # PutLengthPrefixedSlice [] key @ PutLengthPrefixedSlice [] val"
| "op_bytes (DeleteOp key) = 0 # PutLengthPrefixedSlice [] key"

fun op_ok :: "batch_op \<Rightarrow> bool" where
  "op_ok (PutOp key val) = (length key + 8 < 2 ^ 32 \<and> length val < 2 ^ 32)"
| "op_ok (DeleteOp key) = (length key + 8 < 2 ^ 32)"

text \<open>A batch that holds a sequence number and a list of operations.\<close>

definition batch_of :: "u64 \<Rightarrow> batch_op list \<Rightarrow> WriteBatch" where
  "batch_of seq ops = EncodeFixed64 seq @ EncodeFixed32 (of_nat (length ops)) @ concat (map op_bytes ops)"

fun apply_op :: "batch_op \<Rightarrow> WriteBatch \<Rightarrow> WriteBatch" where
  "apply_op (PutOp key val) = WriteBatchPut key val"
| "apply_op (DeleteOp key) = WriteBatchDelete key"

lemma batch_fields [simp]:
  "Count (batch_of seq ops) = of_nat (length ops)" "Sequence (batch_of seq ops) = seq"
  "drop kHeader (batch_of seq ops) = concat (map op_bytes ops)" "\<not> length (batch_of seq ops) < kHeader"
  by (simp_all add: batch_of_def Count_def Sequence_def kHeader_def)

lemma SetCount_batch: "SetCount n (EncodeFixed64 seq @ EncodeFixed32 c @ rest) = EncodeFixed64 seq @ EncodeFixed32 n @ rest"
  by (simp add: SetCount_def)

lemma NewWriteBatch_batch: "NewWriteBatch = batch_of 0 []"
  by (simp add: NewWriteBatch_def WriteBatchClear_def batch_of_def kHeader_def EncodeFixed64_def EncodeFixed32_def
      numeral_eq_Suc)

lemma SetSequence_batch: "SetSequence seq (batch_of old ops) = batch_of seq ops"
  by (simp add: SetSequence_def batch_of_def)

lemma PutLengthPrefixedSlice_dst: "PutLengthPrefixedSlice dst s = dst @ PutLengthPrefixedSlice [] s"
  by (simp add: PutLengthPrefixedSlice_def PutVarint32_def)

lemma apply_op_batch: "apply_op op (batch_of seq ops) = batch_of seq (ops @ [op])"
proof (cases op)
  case (PutOp key val)
  then show ?thesis
    by (simp add: WriteBatchPut_def Let_def)
      (simp add: batch_of_def SetCount_batch PutLengthPrefixedSlice_dst [of "_ @ _"] add.commute)
next
  case (DeleteOp key)
  then show ?thesis
    by (simp add: WriteBatchDelete_def Let_def)
      (simp add: batch_of_def SetCount_batch PutLengthPrefixedSlice_dst [of "_ @ _"] add.commute)
qed

lemma WriteBatchAppend_batch:
  "WriteBatchAppend (batch_of seq' ops') (batch_of seq ops) = Some (batch_of seq (ops @ ops'))"
  by (simp add: WriteBatchAppend_def Let_def) (simp add: batch_of_def SetCount_batch)

section \<open>Replaying a batch\<close>

fun run_ops ::
    "(bytes \<Rightarrow> bytes \<Rightarrow> 's \<Rightarrow> 's option) \<Rightarrow> (bytes \<Rightarrow> 's \<Rightarrow> 's option) \<Rightarrow> batch_op list \<Rightarrow> 's \<Rightarrow> 's option" where
  "run_ops put del [] st = Some st"
| "run_ops put del (PutOp key val # ops) st = Option.bind (put key val st) (run_ops put del ops)"
| "run_ops put del (DeleteOp key # ops) st = Option.bind (del key st) (run_ops put del ops)"

lemma iterate_loop_ops:
  "\<forall>op \<in> set ops. op_ok op \<Longrightarrow> iterate_loop put del (concat (map op_bytes ops)) found st
    = map_option (\<lambda>st. (st, found + of_nat (length ops), OK)) (run_ops put del ops st)"
proof (induction ops arbitrary: found st)
  case Nil
  then show ?case by (simp add: iterate_loop.simps)
next
  case (Cons op ops)
  show ?case
  proof (cases op)
    case (PutOp key val)
    with Cons.prems have "length key < 2 ^ 32" "length val < 2 ^ 32" by simp_all
    with PutOp Cons show ?thesis
      by (cases "put key val st") (simp_all add: iterate_loop.simps [of put del "_ # _"] ac_simps)
  next
    case (DeleteOp key)
    with Cons.prems have "length key < 2 ^ 32" by simp
    with DeleteOp Cons show ?thesis
      by (cases "del key st") (simp_all add: iterate_loop.simps [of put del "_ # _"] ac_simps)
  qed
qed

lemma Iterate_batch:
  assumes "\<forall>op \<in> set ops. op_ok op"
  shows "Iterate put del (batch_of seq ops) st = map_option (\<lambda>st. (st, OK)) (run_ops put del ops st)"
  using iterate_loop_ops [OF assms, of put del 0 st]
  by (cases "run_ops put del ops st") (simp_all add: Iterate_def)

lemma fold_apply_op: "fold apply_op ops (batch_of seq ops0) = batch_of seq (ops0 @ ops)"
  by (induction ops arbitrary: ops0) (simp_all add: apply_op_batch)

text \<open>Whatever \<open>Iterate\<close> accepts is a sequence of operations with the stored count.\<close>

lemma iterate_loop_sound:
  "iterate_loop put del input found st = Some (st', found', OK) \<Longrightarrow>
    \<exists>ops. run_ops put del ops st = Some st' \<and> found' = found + of_nat (length ops)"
proof (induction put del input found st rule: iterate_loop.induct)
  case (1 put del input found st)
  show ?case
  proof (cases input)
    case Nil
    with "1.prems" show ?thesis by (intro exI [of _ "[]"]) (simp add: iterate_loop.simps [of put del "[]"])
  next
    case (Cons tag rest)
    consider (put) key r val r' st1 where "tag = 1" "GetLengthPrefixedSlice rest = Some (key, r)"
        "GetLengthPrefixedSlice r = Some (val, r')" "put key val st = Some st1"
        "iterate_loop put del r' (found + 1) st1 = Some (st', found', OK)"
      | (del) key r st1 where "tag = 0" "GetLengthPrefixedSlice rest = Some (key, r)" "del key st = Some st1"
        "iterate_loop put del r (found + 1) st1 = Some (st', found', OK)"
      using "1.prems" unfolding Cons iterate_loop.simps [of put del "tag # rest"]
      by (auto simp: Let_def split: option.splits if_splits bind_splits)
    then show ?thesis
    proof cases
      case put
      with "1.IH"(1) [of tag rest "found + 1" _ key r _ val r'] Cons obtain ops where
        "run_ops put del ops st1 = Some st'" "found' = found + 1 + of_nat (length ops)" by (auto; blast)
      with put show ?thesis by (intro exI [of _ "PutOp key val # ops"]) simp
    next
      case del
      with "1.IH"(2) [of tag rest "found + 1" _ key r] Cons obtain ops where
        "run_ops put del ops st1 = Some st'" "found' = found + 1 + of_nat (length ops)" by (auto; blast)
      with del show ?thesis by (intro exI [of _ "DeleteOp key # ops"]) simp
    qed
  qed
qed

section \<open>Operations as versions\<close>

text \<open>The entries of the operations from the sequence number \<open>n\<close> on, and the map they describe.\<close>

fun op_entry :: "nat \<Rightarrow> batch_op \<Rightarrow> mem_entry" where
  "op_entry n (PutOp key val) = \<lparr>me_seq = of_nat n, me_type = kTypeValue, me_key = key, me_value = val\<rparr>"
| "op_entry n (DeleteOp key) = \<lparr>me_seq = of_nat n, me_type = kTypeDeletion, me_key = key, me_value = []\<rparr>"

fun op_entries :: "nat \<Rightarrow> batch_op list \<Rightarrow> mem_entry list" where
  "op_entries n [] = []"
| "op_entries n (op # ops) = op_entry n op # op_entries (Suc n) ops"

fun apply_map :: "batch_op \<Rightarrow> (bytes \<rightharpoonup> bytes) \<Rightarrow> (bytes \<rightharpoonup> bytes)" where
  "apply_map (PutOp key val) m = m(key \<mapsto> val)"
| "apply_map (DeleteOp key) m = m(key := None)"

lemma op_entry_fields: "me_seq (op_entry n op) = of_nat n" "op_ok op \<Longrightarrow> n < 2 ^ 56 \<Longrightarrow> entry_ok (op_entry n op)"
  by (cases op; simp add: entry_ok_def kMaxSequenceNumber_unat unat_of_nat_small)+

lemma unat_op_seq: "n < 2 ^ 56 \<Longrightarrow> unat (me_seq (op_entry n op)) = n"
  unfolding op_entry_fields by (rule unat_of_nat_small) simp

lemma op_entries_append: "op_entries n (xs @ ys) = op_entries n xs @ op_entries (n + length xs) ys"
  by (induction xs arbitrary: n) simp_all

lemma op_entries_seq: "e \<in> set (op_entries n ops) \<Longrightarrow> \<exists>k \<ge> n. k < n + length ops \<and> me_seq e = of_nat k"
proof (induction ops arbitrary: n)
  case (Cons op ops)
  show ?case
  proof (cases "e = op_entry n op")
    case True
    then show ?thesis by (intro exI [of _ n]) (simp add: op_entry_fields)
  next
    case False
    with Cons.prems Cons.IH [of "Suc n"] obtain k where "k \<ge> Suc n" "k < Suc n + length ops" "me_seq e = of_nat k"
      by auto
    then show ?thesis by (intro exI [of _ k]) simp
  qed
qed simp

lemma op_entries_ok: "\<forall>op \<in> set ops. op_ok op \<Longrightarrow> n + length ops \<le> 2 ^ 56 \<Longrightarrow> \<forall>e \<in> set (op_entries n ops). entry_ok e"
proof (induction ops arbitrary: n)
  case (Cons op ops)
  then show ?case using Cons.IH [of "Suc n"] by (auto simp: op_entry_fields)
qed simp

text \<open>Inserting the operations one after the other.\<close>

lemma seq_step: "n < 2 ^ 56 \<Longrightarrow> (of_nat n :: u64) + 1 = of_nat (Suc n)"
  by simp

lemma inserter_step:
  assumes "op_ok op" "mem_history m es" "\<forall>f \<in> set es. entry_ok f" "\<forall>f \<in> set es. unat (me_seq f) < n" "n < 2 ^ 56"
  shows "\<exists>m'. run_ops (InserterPut BytewiseCompare) (InserterDelete BytewiseCompare) [op] (of_nat n, m)
      = Some (of_nat (Suc n), m') \<and> mem_history m' (op_entry n op # es)"
proof -
  define e where "e = op_entry n op"
  have ok: "entry_ok e" using op_entry_fields(2) [OF assms(1,5)] by (simp add: e_def)
  have tag: "entry_tag f \<noteq> entry_tag e" if f: "f \<in> set es" for f
  proof -
    have "me_seq f < me_seq e"
      using assms(4,5) f by (simp add: e_def op_entry_fields word_less_nat_alt unat_of_nat_small)
    then show ?thesis
      using packed_less_iff [of "me_seq f" "me_seq e" "me_type f" "me_type e"] ok assms(3) f
      by (auto simp: entry_tag_def entry_ok_def kMaxSequenceNumber_unat)
  qed
  from MemTableAdd_correct [OF mem_history_abs [OF assms(2,3)] ok] tag obtain m' where
    m': "MemTableAdd BytewiseCompare (me_seq e) (me_type e) (me_key e) (me_value e) m = Some m'" by auto
  then have "mem_history m' (e # es)" by (rule mem_history.added [OF assms(2)])
  with m' show ?thesis
    by (cases op) (auto simp: e_def InserterPut_def InserterDelete_def add.commute)
qed

lemma run_ops_append: "run_ops put del (xs @ ys) st = Option.bind (run_ops put del xs st) (run_ops put del ys)"
  by (induction put del xs st rule: run_ops.induct) (simp_all add: Option.bind_assoc cong: Option.bind_cong)

lemma inserter_ops:
  assumes "\<forall>op \<in> set ops. op_ok op" "mem_history m es" "\<forall>f \<in> set es. entry_ok f"
    and "\<forall>f \<in> set es. unat (me_seq f) < n" "n + length ops \<le> 2 ^ 56"
  shows "\<exists>m'. run_ops (InserterPut BytewiseCompare) (InserterDelete BytewiseCompare) ops (of_nat n, m)
      = Some (of_nat (n + length ops), m') \<and> mem_history m' (rev (op_entries n ops) @ es)"
  using assms
proof (induction ops arbitrary: m es n)
  case (Cons op ops)
  from inserter_step [of op m es n] Cons.prems obtain m1 where
    m1: "run_ops (InserterPut BytewiseCompare) (InserterDelete BytewiseCompare) [op] (of_nat n, m)
      = Some (of_nat (Suc n), m1)" "mem_history m1 (op_entry n op # es)" by auto
  have "\<forall>f \<in> set (op_entry n op # es). entry_ok f" "\<forall>f \<in> set (op_entry n op # es). unat (me_seq f) < Suc n"
    using Cons.prems by (auto simp: op_entry_fields unat_of_nat_small less_Suc_eq)
  from Cons.IH [OF _ m1(2) this] Cons.prems obtain m' where
    "run_ops (InserterPut BytewiseCompare) (InserterDelete BytewiseCompare) ops (of_nat (Suc n), m1)
      = Some (of_nat (Suc n + length ops), m')" "mem_history m' (rev (op_entries (Suc n) ops) @ op_entry n op # es)" by auto
  moreover have "run_ops (InserterPut BytewiseCompare) (InserterDelete BytewiseCompare) (op # ops) (of_nat n, m)
      = run_ops (InserterPut BytewiseCompare) (InserterDelete BytewiseCompare) ops (of_nat (Suc n), m1)"
    using run_ops_append [of "InserterPut BytewiseCompare" "InserterDelete BytewiseCompare" "[op]" ops "(of_nat n, m)"] m1(1)
    by simp
  ultimately show ?case by simp
qed simp

lemma InsertInto_batch:
  assumes "\<forall>op \<in> set ops. op_ok op" "mem_history m es" "\<forall>f \<in> set es. entry_ok f"
    and "\<forall>f \<in> set es. unat (me_seq f) < n" "n + length ops \<le> 2 ^ 56"
  shows "\<exists>m'. InsertInto BytewiseCompare (batch_of (of_nat n) ops) m = Some (m', OK)
    \<and> mem_history m' (rev (op_entries n ops) @ es)"
  using inserter_ops [OF assms] by (auto simp: InsertInto_def Iterate_batch [OF assms(1)])

section \<open>Snapshots\<close>

fun result_value :: "memtable_result \<Rightarrow> bytes option" where
  "result_value (Found v) = Some v"
| "result_value _ = None"

lemma newest_visible_snoc:
  assumes "n + length ops < 2 ^ 56" "unat s < 2 ^ 56"
  shows "newest_visible u s (rev (op_entries n (ops @ [op])))
    = (if visible u s (op_entry (n + length ops) op) then Some (op_entry (n + length ops) op)
       else newest_visible u s (rev (op_entries n ops)))"
proof (cases "newest_visible u s (rev (op_entries n ops))")
  case (Some e)
  define f where "f = op_entry (n + length ops) op"
  from newest_visible_Some [OF Some] have e: "e \<in> set (op_entries n ops)" by simp
  then obtain k where k: "k < n + length ops" "me_seq e = of_nat k" using op_entries_seq by blast
  have "unat (me_seq e) = k" "unat (me_seq f) = n + length ops"
    using k assms(1) unat_op_seq [of "n + length ops" op] by (simp_all add: f_def unat_of_nat_small)
  with k(1) have "me_seq e < me_seq f" "unat (me_seq e) < 2 ^ 56" "unat (me_seq f) < 2 ^ 56"
    using assms(1) by (simp_all add: word_less_nat_alt)
  then have "entry_tag e < entry_tag f"
    using packed_less_iff [of "me_seq e" "me_seq f" "me_type e" "me_type f"] by (simp add: entry_tag_def)
  with Some show ?thesis by (simp add: op_entries_append f_def)
qed (simp add: op_entries_append)

text \<open>A lookup at the snapshot \<open>s\<close> sees the map that the operations up to \<open>s\<close> describe.\<close>

lemma snapshot_map:
  assumes "n + length ops \<le> 2 ^ 56" "unat s < 2 ^ 56"
  shows "result_value (result_of (newest_visible u s (rev (op_entries n ops))))
    = fold apply_map (take (Suc (unat s) - n) ops) Map.empty u"
  using assms(1)
proof (induction ops rule: rev_induct)
  case (snoc op ops)
  define f where "f = op_entry (n + length ops) op"
  have key: "visible u s f \<longleftrightarrow> me_key f = u \<and> n + length ops \<le> unat s"
    using snoc.prems unat_op_seq [of "n + length ops" op] by (simp add: visible_def f_def word_le_nat_alt)
  have IH: "result_value (result_of (newest_visible u s (rev (op_entries n ops))))
      = fold apply_map (take (Suc (unat s) - n) ops) Map.empty u" using snoc by simp
  show ?case
  proof (cases "n + length ops \<le> unat s")
    case True
    then have "take (Suc (unat s) - n) (ops @ [op]) = ops @ [op]" "take (Suc (unat s) - n) ops = ops" by simp_all
    with True IH key newest_visible_snoc [of n ops s u op] snoc.prems assms(2) show ?thesis
      by (cases op) (auto simp: f_def)
  next
    case False
    then have "take (Suc (unat s) - n) (ops @ [op]) = take (Suc (unat s) - n) ops" by simp
    with False IH key newest_visible_snoc [of n ops s u op] snoc.prems assms(2) show ?thesis
      by (simp add: f_def)
  qed
qed simp

section \<open>Properties\<close>

text \<open>
  C29: a batch replays what was put into it. A batch filled with \<open>Put\<close> and \<open>Delete\<close>, and one made by
  appending a second batch to a first, gives any handler exactly those operations in order; the
  stored count matches and \<open>Iterate\<close> returns OK.
\<close>

theorem batch_replays_operations:
  assumes "\<forall>op \<in> set (ops @ ops'). op_ok op"
  shows "\<exists>b. WriteBatchAppend (fold apply_op ops' NewWriteBatch) (fold apply_op ops NewWriteBatch) = Some b
    \<and> Count b = of_nat (length (ops @ ops'))
    \<and> Iterate put del b st = map_option (\<lambda>st. (st, OK)) (run_ops put del (ops @ ops') st)"
  using Iterate_batch [OF assms, of put del 0 st] fold_apply_op [of _ 0 "[]"]
  by (simp add: NewWriteBatch_batch WriteBatchAppend_batch)

theorem batch_replays_operations_witness:
  "\<exists>b. WriteBatchAppend (fold apply_op [DeleteOp [2]] NewWriteBatch) (fold apply_op [PutOp [1] [9]] NewWriteBatch) = Some b
    \<and> Iterate (\<lambda>k v st. Some (st @ [PutOp k v])) (\<lambda>k st. Some (st @ [DeleteOp k])) b []
        = Some ([PutOp [1] [9], DeleteOp [2]], OK)"
  using batch_replays_operations [of "[PutOp [1] [9]]" "[DeleteOp [2]]"
      "\<lambda>k v st. Some (st @ [PutOp k v])" "\<lambda>k st. Some (st @ [DeleteOp k])" "[]"] by auto



text \<open>
  C12: writing a batch refines updating a map. Inserting a batch of operations with the base sequence
  number \<open>n\<close> into an empty table succeeds, and a lookup at the snapshot \<open>s\<close> returns what the map
  holds after the operations with sequence numbers up to \<open>s\<close>, a deletion counting as absence.
\<close>

theorem batch_snapshot_reads:
  assumes "\<forall>op \<in> set ops. op_ok op" "n + length ops \<le> 2 ^ 56"
    and "NewLookupKey u s = Some lk" "length u + 8 < 2 ^ 32"
  shows "\<exists>m. InsertInto BytewiseCompare (SetSequence (of_nat n) (fold apply_op ops NewWriteBatch)) NewMemTable = Some (m, OK)
    \<and> map_option result_value (MemTableGet BytewiseCompare lk m)
      = Some (fold apply_map (take (Suc (unat s) - n) ops) Map.empty u)"
proof -
  have b: "SetSequence (of_nat n) (fold apply_op ops NewWriteBatch) = batch_of (of_nat n) ops"
    by (simp add: NewWriteBatch_batch fold_apply_op SetSequence_batch)
  from InsertInto_batch [OF assms(1) mem_history.created, of n] assms(2) obtain m where
    m: "InsertInto BytewiseCompare (batch_of (of_nat n) ops) NewMemTable = Some (m, OK)"
    "mem_history m (rev (op_entries n ops))" by auto
  have "MemTableGet BytewiseCompare lk m = Some (result_of (newest_visible u s (rev (op_entries n ops))))"
    using op_entries_ok [OF assms(1,2)] assms(3,4)
    by (intro MemTableGet_correct [OF mem_history_abs [OF m(2)]]) auto
  moreover have "unat s < 2 ^ 56"
    using assms(3) by (auto simp: NewLookupKey_def PackSequenceAndType_def Let_def kMaxSequenceNumber_unat split: if_splits)
  ultimately show ?thesis using m(1) snapshot_map [OF assms(2)] by (simp add: b)
qed

theorem batch_snapshot_reads_witness:
  "\<exists>lk m. NewLookupKey [1] 7 = Some lk
    \<and> InsertInto BytewiseCompare (SetSequence (of_nat 7) (fold apply_op [PutOp [1] [9], DeleteOp [1]] NewWriteBatch)) NewMemTable = Some (m, OK)
    \<and> map_option result_value (MemTableGet BytewiseCompare lk m) = Some (Some [9])"
proof -
  obtain lk where lk: "NewLookupKey [1] 7 = Some lk"
    by (auto simp: NewLookupKey_def PackSequenceAndType_def kMaxSequenceNumber_def Let_def)
  with batch_snapshot_reads [of "[PutOp [1] [9], DeleteOp [1]]" 7, OF _ _ lk] show ?thesis by simp
qed

end
