(* ===== verification/Log.thy ===== *)
theory Log
  imports Crc32c Status
begin

text \<open>
  The write-ahead log: \<open>db/log_format.h\<close>, \<open>db/log_writer.cc\<close> and \<open>db/log_reader.cc\<close>. A record is
  cut into fragments so that no fragment crosses a boundary of 32768-byte blocks; each fragment has
  a header of a masked checksum, a length and a type. Files are arguments: \<open>file_append\<close> and \<open>file_flush\<close>
  for the writer, \<open>file_read\<close> and \<open>file_skip\<close> for the reader, as is the checksum routine. A failed
  assertion is \<open>None\<close>; the loops of the reader are partial functions.
\<close>

section \<open>The format\<close>

definition kZeroType :: u32 where "kZeroType = 0"
definition kFullType :: u32 where "kFullType = 1"
definition kFirstType :: u32 where "kFirstType = 2"
definition kMiddleType :: u32 where "kMiddleType = 3"
definition kLastType :: u32 where "kLastType = 4"

definition kMaxRecordType :: u32 where
  "kMaxRecordType = kLastType"

definition kBlockSize :: nat where
  "kBlockSize = 32768"

definition kHeaderSize :: nat where
  "kHeaderSize = 4 + 2 + 1"

lemmas record_types = kZeroType_def kFullType_def kFirstType_def kMiddleType_def kLastType_def kMaxRecordType_def

section \<open>The writer\<close>

record 'f LogWriter =
  lw_dest :: 'f
  lw_block_offset :: nat
  lw_type_crc :: "u32 list"

definition InitTypeCrc :: "(u32 \<Rightarrow> bytes \<Rightarrow> u32) \<Rightarrow> u32 list" where
  "InitTypeCrc extend_crc = map (\<lambda>i. extend_crc 0 [of_nat i]) [0..<Suc (unat kMaxRecordType)]"

definition NewLogWriter :: "(u32 \<Rightarrow> bytes \<Rightarrow> u32) \<Rightarrow> 'f \<Rightarrow> 'f LogWriter" where
  "NewLogWriter extend_crc dest =
     \<lparr>lw_dest = dest, lw_block_offset = 0, lw_type_crc = InitTypeCrc extend_crc\<rparr>"

definition ReopenLogWriter :: "(u32 \<Rightarrow> bytes \<Rightarrow> u32) \<Rightarrow> 'f \<Rightarrow> u64 \<Rightarrow> 'f LogWriter" where
  "ReopenLogWriter extend_crc dest dest_length =
     \<lparr>lw_dest = dest, lw_block_offset = unat dest_length mod kBlockSize, lw_type_crc = InitTypeCrc extend_crc\<rparr>"

definition EmitPhysicalRecord ::
    "(u32 \<Rightarrow> bytes \<Rightarrow> u32) \<Rightarrow> (bytes \<Rightarrow> 'f \<Rightarrow> Status \<times> 'f) \<Rightarrow> ('f \<Rightarrow> Status \<times> 'f) \<Rightarrow> u32 \<Rightarrow> bytes \<Rightarrow> 'f LogWriter
      \<Rightarrow> (Status \<times> 'f LogWriter) option" where
  "EmitPhysicalRecord extend_crc file_append file_flush t payload w =
     (let len = length payload in
      if len > 0xffff \<or> lw_block_offset w + kHeaderSize + len > kBlockSize then None
      else
        let crc = extend_crc (lw_type_crc w ! unat t) payload;
            crc = Mask crc;
            buf = EncodeFixed32 crc @ [of_nat (len mod 256), of_nat (len div 256), ucast t];
            (s, dest) = file_append buf (lw_dest w);
            (s, dest) = (if s = OK then file_append payload dest else (s, dest));
            (s, dest) = (if s = OK then file_flush dest else (s, dest))
        in Some (s, w\<lparr>lw_dest := dest, lw_block_offset := lw_block_offset w + kHeaderSize + len\<rparr>))"

text \<open>The head of the loop: switch to a new block when the header does not fit. The status is ignored.\<close>

definition switch_block :: "(bytes \<Rightarrow> 'f \<Rightarrow> Status \<times> 'f) \<Rightarrow> 'f LogWriter \<Rightarrow> 'f LogWriter" where
  "switch_block file_append w =
     (let leftover = kBlockSize - lw_block_offset w in
      if leftover < kHeaderSize then
        (if leftover > 0 then w\<lparr>lw_dest := snd (file_append (replicate leftover 0) (lw_dest w)), lw_block_offset := 0\<rparr>
         else w\<lparr>lw_block_offset := 0\<rparr>)
      else w)"

definition record_type_of :: "bool \<Rightarrow> bool \<Rightarrow> u32" where
  "record_type_of begin end =
     (if begin \<and> end then kFullType else if begin then kFirstType else if end then kLastType else kMiddleType)"

lemma emit_offset:
  "EmitPhysicalRecord extend_crc file_append file_flush t payload w = Some (s, w') \<Longrightarrow>
    lw_block_offset w' = lw_block_offset w + kHeaderSize + length payload \<and> lw_block_offset w' \<le> kBlockSize"
  by (auto simp: EmitPhysicalRecord_def Let_def split: if_splits prod.splits)

text \<open>The loop of \<open>AddRecord\<close>; \<open>ptr\<close> is what is left of the record.\<close>

function add_record_loop ::
    "(u32 \<Rightarrow> bytes \<Rightarrow> u32) \<Rightarrow> (bytes \<Rightarrow> 'f \<Rightarrow> Status \<times> 'f) \<Rightarrow> ('f \<Rightarrow> Status \<times> 'f) \<Rightarrow> bytes \<Rightarrow> bool \<Rightarrow> 'f LogWriter
      \<Rightarrow> (Status \<times> 'f LogWriter) option" where
  "add_record_loop extend_crc file_append file_flush ptr begin w =
     (if lw_block_offset w > kBlockSize then None
      else
        let w = switch_block file_append w;
            avail = kBlockSize - lw_block_offset w - kHeaderSize;
            fragment_length = (if length ptr < avail then length ptr else avail);
            type = record_type_of begin (length ptr = fragment_length)
        in case EmitPhysicalRecord extend_crc file_append file_flush type (take fragment_length ptr) w of
             None \<Rightarrow> None
           | Some (s, w) \<Rightarrow>
               if s = OK \<and> length (drop fragment_length ptr) > 0
               then add_record_loop extend_crc file_append file_flush (drop fragment_length ptr) False w
               else Some (s, w))"
  by pat_completeness auto

termination
proof (relation "measures [\<lambda>(_, _, _, ptr, _, _). length ptr, \<lambda>(_, _, _, _, _, w). kBlockSize - lw_block_offset w]")
  fix extend_crc file_append file_flush and ptr :: bytes and start and w w1 w2 w3 :: "'f LogWriter" and avail n type x s
  assume a: "\<not> kBlockSize < lw_block_offset w" "w1 = switch_block file_append w"
    "avail = kBlockSize - lw_block_offset w1 - kHeaderSize"
    "n = (if length ptr < avail then length ptr else avail)"
    "EmitPhysicalRecord extend_crc file_append file_flush type (take n ptr) w1 = Some x" "(s, w3) = x"
    "s = OK \<and> 0 < length (drop n ptr)"
  have off: "lw_block_offset w3 = lw_block_offset w1 + kHeaderSize + n" "lw_block_offset w3 \<le> kBlockSize"
    using emit_offset [of extend_crc file_append file_flush type "take n ptr" w1 s w3] a by (auto split: if_splits)
  show "((extend_crc, file_append, file_flush, drop n ptr, False, w3), extend_crc, file_append, file_flush, ptr, start, w)
    \<in> measures [\<lambda>(_, _, _, ptr, _, _). length ptr, \<lambda>(_, _, _, _, _, w). kBlockSize - lw_block_offset w]"
  proof (cases "n = 0")
    case True
    then have "lw_block_offset w1 = lw_block_offset w"
      using a off by (auto simp: switch_block_def kBlockSize_def kHeaderSize_def Let_def split: if_splits)
    with True off a(1) show ?thesis by (simp add: kHeaderSize_def)
  qed (use a in auto)
qed simp

declare add_record_loop.simps [simp del]

definition AddRecord ::
    "(u32 \<Rightarrow> bytes \<Rightarrow> u32) \<Rightarrow> (bytes \<Rightarrow> 'f \<Rightarrow> Status \<times> 'f) \<Rightarrow> ('f \<Rightarrow> Status \<times> 'f) \<Rightarrow> bytes \<Rightarrow> 'f LogWriter
      \<Rightarrow> (Status \<times> 'f LogWriter) option" where
  "AddRecord extend_crc file_append file_flush contents w = add_record_loop extend_crc file_append file_flush contents True w"

section \<open>The reader\<close>

definition kEof :: u32 where "kEof = kMaxRecordType + 1"
definition kBadRecord :: u32 where "kBadRecord = kMaxRecordType + 2"

text \<open>
  The fields that change, and the corruptions given to the reporter. The reader's parameters, the
  checksum flag, whether there is a reporter, and \<open>initial_offset_\<close>, are a record of their own.
\<close>

record 'f LogReader =
  lr_file :: 'f
  lr_buffer :: bytes
  lr_eof :: bool
  lr_last_record_offset :: u64
  lr_end_of_buffer_offset :: u64
  lr_resyncing :: bool
  lr_reports :: "(u64 \<times> Status) list"

record 'f reader_env =
  re_read :: "nat \<Rightarrow> 'f \<Rightarrow> Status \<times> bytes \<times> 'f"
  re_skip :: "u64 \<Rightarrow> 'f \<Rightarrow> Status \<times> 'f"
  re_extend :: "u32 \<Rightarrow> bytes \<Rightarrow> u32"
  re_checksum :: bool
  re_has_reporter :: bool
  re_initial_offset :: u64

definition NewLogReader :: "'f reader_env \<Rightarrow> 'f \<Rightarrow> 'f LogReader" where
  "NewLogReader env file =
     \<lparr>lr_file = file, lr_buffer = [], lr_eof = False, lr_last_record_offset = 0, lr_end_of_buffer_offset = 0,
      lr_resyncing = (re_initial_offset env > 0), lr_reports = []\<rparr>"

definition ReportDrop :: "'f reader_env \<Rightarrow> u64 \<Rightarrow> Status \<Rightarrow> 'f LogReader \<Rightarrow> 'f LogReader" where
  "ReportDrop env bytes reason r =
     (if re_has_reporter env
         \<and> lr_end_of_buffer_offset r - of_nat (length (lr_buffer r)) - bytes \<ge> re_initial_offset env
      then r\<lparr>lr_reports := lr_reports r @ [(bytes, reason)]\<rparr> else r)"

definition ReportCorruption :: "'f reader_env \<Rightarrow> u64 \<Rightarrow> string \<Rightarrow> 'f LogReader \<Rightarrow> 'f LogReader" where
  "ReportCorruption env bytes reason r = ReportDrop env bytes (Corruption reason) r"

definition SkipToInitialBlock :: "'f reader_env \<Rightarrow> 'f LogReader \<Rightarrow> bool \<times> 'f LogReader" where
  "SkipToInitialBlock env r =
     (let offset_in_block = unat (re_initial_offset env) mod kBlockSize;
          block_start_location = re_initial_offset env - of_nat offset_in_block;
          block_start_location =
            (if offset_in_block > kBlockSize - 6 then block_start_location + of_nat kBlockSize
             else block_start_location);
          r = r\<lparr>lr_end_of_buffer_offset := block_start_location\<rparr>
      in if block_start_location > 0 then
           (case re_skip env block_start_location (lr_file r) of (skip_status, file) \<Rightarrow>
              let r = r\<lparr>lr_file := file\<rparr> in
              if skip_status \<noteq> OK then (False, ReportDrop env block_start_location skip_status r) else (True, r))
         else (True, r))"

text \<open>The part of \<open>ReadPhysicalRecord\<close> after the buffer holds a header: the type and the fragment.\<close>

definition parse_physical :: "'f reader_env \<Rightarrow> 'f LogReader \<Rightarrow> u32 \<times> bytes \<times> 'f LogReader" where
  "parse_physical env r =
     (let header = lr_buffer r;
          a = ucast (header ! 4) :: u32;
          b = ucast (header ! 5) :: u32;
          type = scast (header ! 6) :: u32;
          len = unat (a OR push_bit 8 b)
      in if kHeaderSize + len > length (lr_buffer r) then
           let drop_size = of_nat (length (lr_buffer r));
               r = r\<lparr>lr_buffer := []\<rparr>
           in if \<not> lr_eof r then (kBadRecord, [], ReportCorruption env drop_size ''bad record length'' r)
              else (kEof, [], r)
         else if type = kZeroType \<and> len = 0 then (kBadRecord, [], r\<lparr>lr_buffer := []\<rparr>)
         else
           let expected_crc = Unmask (DecodeFixed32 header);
               actual_crc = re_extend env 0 (take (1 + len) (drop 6 header))
           in if re_checksum env \<and> actual_crc \<noteq> expected_crc then
                let drop_size = of_nat (length (lr_buffer r));
                    r = r\<lparr>lr_buffer := []\<rparr>
                in (kBadRecord, [], ReportCorruption env drop_size ''checksum mismatch'' r)
              else
                let r = r\<lparr>lr_buffer := drop (kHeaderSize + len) (lr_buffer r)\<rparr> in
                if lr_end_of_buffer_offset r - of_nat (length (lr_buffer r)) - of_nat kHeaderSize - of_nat len
                     < re_initial_offset env
                then (kBadRecord, [], r)
                else (type, take len (drop kHeaderSize header), r))"

partial_function (option) ReadPhysicalRecord ::
    "'f reader_env \<Rightarrow> 'f LogReader \<Rightarrow> (u32 \<times> bytes \<times> 'f LogReader) option" where
  "ReadPhysicalRecord env r =
     (if length (lr_buffer r) < kHeaderSize then
        (if \<not> lr_eof r then
           (case re_read env kBlockSize (lr_file r) of (status, buffer, file) \<Rightarrow>
              let r = r\<lparr>lr_file := file, lr_buffer := buffer,
                    lr_end_of_buffer_offset := lr_end_of_buffer_offset r + of_nat (length buffer)\<rparr>
              in if status \<noteq> OK then
                   let r = ReportDrop env (of_nat kBlockSize) status (r\<lparr>lr_buffer := []\<rparr>)
                   in Some (kEof, [], r\<lparr>lr_eof := True\<rparr>)
                 else ReadPhysicalRecord env (if length buffer < kBlockSize then r\<lparr>lr_eof := True\<rparr> else r))
         else Some (kEof, [], r\<lparr>lr_buffer := []\<rparr>))
      else Some (parse_physical env r))"

text \<open>
  The loop of \<open>ReadRecord\<close> with its local variables. When a physical record is bad the variable
  \<open>fragment\<close> keeps its old value, which is not used before the next fragment replaces it; the
  model returns an empty fragment there. The number printed after ''unknown record type'' is left out.
\<close>

partial_function (option) read_record_loop ::
    "'f reader_env \<Rightarrow> bool \<Rightarrow> bytes \<Rightarrow> u64 \<Rightarrow> 'f LogReader \<Rightarrow> (bytes option \<times> 'f LogReader) option" where
  "read_record_loop env in_fragmented_record scratch prospective r =
     Option.bind (ReadPhysicalRecord env r) (\<lambda>(record_type, fragment, r).
       let physical = lr_end_of_buffer_offset r - of_nat (length (lr_buffer r)) - of_nat kHeaderSize
             - of_nat (length fragment) in
       if lr_resyncing r \<and> record_type = kMiddleType then
         read_record_loop env in_fragmented_record scratch prospective r
       else if lr_resyncing r \<and> record_type = kLastType then
         read_record_loop env in_fragmented_record scratch prospective (r\<lparr>lr_resyncing := False\<rparr>)
       else
         let r = r\<lparr>lr_resyncing := False\<rparr> in
         if record_type = kFullType then
           let r = (if in_fragmented_record \<and> scratch \<noteq> []
                 then ReportCorruption env (of_nat (length scratch)) ''partial record without end(1)'' r else r)
           in Some (Some fragment, r\<lparr>lr_last_record_offset := physical\<rparr>)
         else if record_type = kFirstType then
           let r = (if in_fragmented_record \<and> scratch \<noteq> []
                 then ReportCorruption env (of_nat (length scratch)) ''partial record without end(2)'' r else r)
           in read_record_loop env True fragment physical r
         else if record_type = kMiddleType then
           (if \<not> in_fragmented_record then
              read_record_loop env in_fragmented_record scratch prospective
                (ReportCorruption env (of_nat (length fragment)) ''missing start of fragmented record(1)'' r)
            else read_record_loop env in_fragmented_record (scratch @ fragment) prospective r)
         else if record_type = kLastType then
           (if \<not> in_fragmented_record then
              read_record_loop env in_fragmented_record scratch prospective
                (ReportCorruption env (of_nat (length fragment)) ''missing start of fragmented record(2)'' r)
            else Some (Some (scratch @ fragment), r\<lparr>lr_last_record_offset := prospective\<rparr>))
         else if record_type = kEof then Some (None, r)
         else if record_type = kBadRecord then
           (if in_fragmented_record then
              read_record_loop env False [] prospective
                (ReportCorruption env (of_nat (length scratch)) ''error in middle of record'' r)
            else read_record_loop env in_fragmented_record scratch prospective r)
         else
           read_record_loop env False [] prospective
             (ReportCorruption env (of_nat (length fragment + (if in_fragmented_record then length scratch else 0)))
               ''unknown record type'' r))"

declare ReadPhysicalRecord.simps [code] read_record_loop.simps [code]

definition ReadRecord :: "'f reader_env \<Rightarrow> 'f LogReader \<Rightarrow> (bytes option \<times> 'f LogReader) option" where
  "ReadRecord env r =
     (if lr_last_record_offset r < re_initial_offset env then
        (case SkipToInitialBlock env r of (skipped, r) \<Rightarrow>
           if skipped then read_record_loop env False [] 0 r else Some (None, r))
      else read_record_loop env False [] 0 r)"

section \<open>Files in memory\<close>

text \<open>A file that never fails, for the reader.\<close>

definition mem_read :: "nat \<Rightarrow> bytes \<Rightarrow> Status \<times> bytes \<times> bytes" where
  "mem_read n file = (OK, take n file, drop n file)"

definition mem_skip :: "u64 \<Rightarrow> bytes \<Rightarrow> Status \<times> bytes" where
  "mem_skip n file = (OK, drop (unat n) file)"

definition log_env :: "(u32 \<Rightarrow> bytes \<Rightarrow> u32) \<Rightarrow> bool \<Rightarrow> bytes reader_env" where
  "log_env extend_crc verify =
     \<lparr>re_read = mem_read, re_skip = mem_skip, re_extend = extend_crc, re_checksum = verify,
      re_has_reporter = True, re_initial_offset = 0\<rparr>"

section \<open>Fragments\<close>

definition frag_bytes :: "(u32 \<Rightarrow> bytes \<Rightarrow> u32) \<Rightarrow> u32 \<Rightarrow> bytes \<Rightarrow> bytes" where
  "frag_bytes extend_crc t p =
     EncodeFixed32 (Mask (extend_crc 0 (ucast t # p)))
       @ [of_nat (length p mod 256), of_nat (length p div 256), ucast t] @ p"

lemma length_frag_bytes [simp]: "length (frag_bytes extend_crc t p) = kHeaderSize + length p"
  by (simp add: frag_bytes_def kHeaderSize_def)

definition frag_type :: "u32 \<Rightarrow> bool" where
  "frag_type t \<longleftrightarrow> t \<in> {1, 2, 3, 4}"

lemma record_type_of_ok: "frag_type (record_type_of a b)"
  by (simp add: record_type_of_def frag_type_def record_types)

lemma fragment_length_field:
  assumes "n \<le> 0xffff"
  shows "unat ((ucast (of_nat (n mod 256) :: u8) :: u32) OR push_bit 8 (ucast (of_nat (n div 256) :: u8))) = n"
proof -
  have a: "unat (ucast (of_nat (n mod 256) :: u8) :: u32) = n mod 256"
    by (simp add: unsigned_ucast_eq unat_of_nat_small take_bit_nat_eq_self)
  have b: "unat (ucast (of_nat (n div 256) :: u8) :: u32) = n div 256"
    using assms by (simp add: unsigned_ucast_eq unat_of_nat_small take_bit_nat_eq_self)
  show ?thesis
    using assms by (subst unat_or_push_bit) (simp_all add: a b)
qed

text \<open>What a header looks like to the reader, also when the payload is cut off.\<close>

lemma frag_header:
  assumes "length p \<le> 0xffff" "frag_type t" "kHeaderSize \<le> length b" "b @ rem = frag_bytes extend_crc t p @ post"
  shows "unat ((ucast (b ! 4) :: u32) OR push_bit 8 (ucast (b ! 5))) = length p"
    and "(scast (b ! 6) :: u32) = t" "DecodeFixed32 b = Mask (extend_crc 0 (ucast t # p))"
proof -
  define h where "h = EncodeFixed32 (Mask (extend_crc 0 (ucast t # p)))
    @ [of_nat (length p mod 256), of_nat (length p div 256), ucast t]"
  have "b @ rem = h @ p @ post" "length h = kHeaderSize"
    using assms(4) by (simp_all add: frag_bytes_def h_def kHeaderSize_def)
  then have "take kHeaderSize b = h" using assms(3) by (metis append_eq_append_conv_if append_take_drop_id take_append)
  then obtain rest where b: "b = h @ rest" by (metis append_take_drop_id)
  show "unat ((ucast (b ! 4) :: u32) OR push_bit 8 (ucast (b ! 5))) = length p"
    using fragment_length_field [OF assms(1)] by (simp add: b h_def nth_append)
  show "(scast (b ! 6) :: u32) = t" using assms(2) by (auto simp: b h_def nth_append frag_type_def)
  show "DecodeFixed32 b = Mask (extend_crc 0 (ucast t # p))" by (simp add: b h_def)
qed

lemma drop_append_eq: "drop (length a) (a @ b) = b"
  by simp

lemma parse_fragment:
  assumes "length p \<le> 0xffff" "frag_type t" "lr_buffer r = frag_bytes extend_crc t p @ rest"
  shows "parse_physical (log_env extend_crc verify) r = (t, p, r\<lparr>lr_buffer := rest\<rparr>)"
proof -
  note h = frag_header [OF assms(1,2), of "lr_buffer r" "[]" extend_crc rest]
  have l: "kHeaderSize \<le> length (lr_buffer r)" "kHeaderSize + length p \<le> length (lr_buffer r)"
    using assms(3) by simp_all
  have d: "drop (kHeaderSize + length p) (lr_buffer r) = rest" "take (length p) (drop kHeaderSize (lr_buffer r)) = p"
    "take (Suc (length p)) (drop 6 (lr_buffer r)) = ucast t # p"
    using assms(3) drop_append_eq [of "frag_bytes extend_crc t p" rest]
    by (simp_all add: frag_bytes_def kHeaderSize_def)
  have "t \<noteq> kZeroType" using assms(2) by (auto simp: frag_type_def kZeroType_def)
  with h l d assms(3) show ?thesis
    by (simp add: parse_physical_def Let_def log_env_def)
qed

lemma parse_torn:
  assumes "length p \<le> 0xffff" "frag_type t" "lr_buffer r @ rem = frag_bytes extend_crc t p"
    and "kHeaderSize \<le> length (lr_buffer r)" "rem \<noteq> []" "lr_eof r"
  shows "parse_physical (log_env extend_crc verify) r = (kEof, [], r\<lparr>lr_buffer := []\<rparr>)"
proof -
  note h = frag_header [OF assms(1,2,4), of rem extend_crc "[]"]
  have "length (lr_buffer r) < kHeaderSize + length p"
    using arg_cong [OF assms(3), of length] assms(5) by (cases rem) auto
  with h assms(3,6) show ?thesis by (simp add: parse_physical_def Let_def)
qed

section \<open>What one step of the writer appends\<close>

definition writer_ok :: "(u32 \<Rightarrow> bytes \<Rightarrow> u32) \<Rightarrow> bytes LogWriter \<Rightarrow> bool" where
  "writer_ok extend_crc w \<longleftrightarrow> lw_type_crc w = InitTypeCrc extend_crc \<and> lw_block_offset w \<le> kBlockSize
     \<and> length (lw_dest w) mod kBlockSize = lw_block_offset w mod kBlockSize"

text \<open>A fragment at an offset of the file, after the zeros that fill up the block when it does not fit.\<close>

definition chunk_at :: "(u32 \<Rightarrow> bytes \<Rightarrow> u32) \<Rightarrow> nat \<Rightarrow> u32 \<Rightarrow> bytes \<Rightarrow> bytes \<Rightarrow> bool" where
  "chunk_at extend_crc pos t p c \<longleftrightarrow> frag_type t \<and> kHeaderSize + length p \<le> kBlockSize
     \<and> (c = frag_bytes extend_crc t p \<and> pos mod kBlockSize + kHeaderSize + length p \<le> kBlockSize
        \<or> kBlockSize < pos mod kBlockSize + kHeaderSize
          \<and> c = replicate (kBlockSize - pos mod kBlockSize) 0 @ frag_bytes extend_crc t p)"

inductive record_bytes :: "(u32 \<Rightarrow> bytes \<Rightarrow> u32) \<Rightarrow> nat \<Rightarrow> bool \<Rightarrow> bytes \<Rightarrow> bytes \<Rightarrow> bool" for extend_crc where
  last_chunk: "chunk_at extend_crc pos (record_type_of b True) p c \<Longrightarrow> record_bytes extend_crc pos b p c"
| next_chunk: "chunk_at extend_crc pos (record_type_of b False) p c \<Longrightarrow>
    record_bytes extend_crc (pos + length c) False q cs \<Longrightarrow> record_bytes extend_crc pos b (p @ q) (c @ cs)"

lemma block_header_pos: "0 < kBlockSize" "kHeaderSize < kBlockSize" "kBlockSize \<le> 0xffff" "0 < kHeaderSize"
  by (simp_all add: kBlockSize_def kHeaderSize_def)

lemma chunk_at_nonempty: "chunk_at extend_crc pos t p c \<Longrightarrow> c \<noteq> []"
  by (auto simp: chunk_at_def frag_bytes_def)

lemma chunk_at_ex: "\<exists>c. chunk_at extend_crc pos kFullType [] c"
proof -
  have "frag_type kFullType" by (simp add: frag_type_def record_types)
  then show ?thesis
    using block_header_pos by (cases "kBlockSize < pos mod kBlockSize + kHeaderSize") (auto simp: chunk_at_def)
qed

lemma record_bytes_nonempty: "record_bytes extend_crc pos b p c \<Longrightarrow> c \<noteq> []"
  by (induction rule: record_bytes.induct) (auto dest: chunk_at_nonempty)

context checksum
begin

lemma emit_fragment:
  assumes "writer_ok extend_crc w" "frag_type t" "lw_block_offset w + kHeaderSize + length p \<le> kBlockSize"
  shows "EmitPhysicalRecord extend_crc mem_append mem_flush t p w
    = Some (OK, w\<lparr>lw_dest := lw_dest w @ frag_bytes extend_crc t p, lw_block_offset := lw_block_offset w + kHeaderSize + length p\<rparr>)"
proof -
  have "lw_type_crc w ! unat t = extend_crc 0 [ucast t]"
    using assms(1,2) by (auto simp: writer_ok_def InitTypeCrc_def frag_type_def record_types simp del: upt_Suc)
  then have "extend_crc (lw_type_crc w ! unat t) p = extend_crc 0 (ucast t # p)"
    by (simp add: extend_append)
  with assms(3) block_header_pos show ?thesis
    by (simp add: EmitPhysicalRecord_def Let_def mem_append_def mem_flush_def frag_bytes_def)
qed

end

lemma switch_block_mem:
  assumes "writer_ok extend_crc w"
  shows "\<exists>pad off. switch_block mem_append w = w\<lparr>lw_dest := lw_dest w @ pad, lw_block_offset := off\<rparr>
    \<and> off + kHeaderSize \<le> kBlockSize
    \<and> (pad = [] \<and> length (lw_dest w) mod kBlockSize = off
       \<or> off = 0 \<and> kBlockSize < length (lw_dest w) mod kBlockSize + kHeaderSize
         \<and> pad = replicate (kBlockSize - length (lw_dest w) mod kBlockSize) 0)"
proof (cases "lw_block_offset w + kHeaderSize \<le> kBlockSize")
  case True
  then have "switch_block mem_append w = w\<lparr>lw_dest := lw_dest w @ [], lw_block_offset := lw_block_offset w\<rparr>"
    by (simp add: switch_block_def Let_def)
  moreover have "length (lw_dest w) mod kBlockSize = lw_block_offset w"
    using True assms block_header_pos by (simp add: writer_ok_def)
  ultimately show ?thesis using True by blast
next
  case False
  show ?thesis
  proof (cases "lw_block_offset w = kBlockSize")
    case True
    then have "switch_block mem_append w = w\<lparr>lw_dest := lw_dest w @ [], lw_block_offset := 0\<rparr>"
      using block_header_pos by (simp add: switch_block_def Let_def)
    moreover have "length (lw_dest w) mod kBlockSize = 0" using True assms by (simp add: writer_ok_def)
    ultimately show ?thesis using block_header_pos by (metis add_0 less_imp_le)
  next
    case ne: False
    with assms have len: "length (lw_dest w) mod kBlockSize = lw_block_offset w" "lw_block_offset w < kBlockSize"
      by (simp_all add: writer_ok_def)
    then have "switch_block mem_append w = w\<lparr>lw_dest := lw_dest w
        @ replicate (kBlockSize - length (lw_dest w) mod kBlockSize) 0, lw_block_offset := 0\<rparr>"
      using False by (auto simp: switch_block_def Let_def mem_append_def)
    with False len block_header_pos show ?thesis by (metis add_0 less_imp_le not_le)
  qed
qed

context checksum
begin

text \<open>One round of the loop: a chunk is appended and the writer stays in order.\<close>

lemma add_record_round:
  assumes ok: "writer_ok extend_crc w"
  shows "\<exists>n c w'. n \<le> length ptr \<and> chunk_at extend_crc (length (lw_dest w)) (record_type_of b (n = length ptr)) (take n ptr) c
    \<and> writer_ok extend_crc w' \<and> lw_dest w' = lw_dest w @ c
    \<and> (n = 0 \<and> n \<noteq> length ptr \<longrightarrow> lw_block_offset w \<noteq> kBlockSize \<and> lw_block_offset w' = kBlockSize)
    \<and> add_record_loop extend_crc mem_append mem_flush ptr b w
      = (if n = length ptr then Some (OK, w') else add_record_loop extend_crc mem_append mem_flush (drop n ptr) False w')"
proof -
  obtain pad off where sb: "switch_block mem_append w = w\<lparr>lw_dest := lw_dest w @ pad, lw_block_offset := off\<rparr>"
    and off: "off + kHeaderSize \<le> kBlockSize"
    and pad: "pad = [] \<and> length (lw_dest w) mod kBlockSize = off
       \<or> off = 0 \<and> kBlockSize < length (lw_dest w) mod kBlockSize + kHeaderSize
         \<and> pad = replicate (kBlockSize - length (lw_dest w) mod kBlockSize) 0"
    using switch_block_mem [OF ok] by blast
  define w1 where "w1 = w\<lparr>lw_dest := lw_dest w @ pad, lw_block_offset := off\<rparr>"
  define n where "n = (if length ptr < kBlockSize - off - kHeaderSize then length ptr else kBlockSize - off - kHeaderSize)"
  define t where "t = record_type_of b (n = length ptr)"
  define w' where "w' = w1\<lparr>lw_dest := lw_dest w1 @ frag_bytes extend_crc t (take n ptr),
    lw_block_offset := lw_block_offset w1 + kHeaderSize + length (take n ptr)\<rparr>"
  have n: "n \<le> length ptr" "off + kHeaderSize + n \<le> kBlockSize" using off by (auto simp: n_def)
  have t: "frag_type t" by (simp add: t_def record_type_of_ok)
  have padlen: "(length (lw_dest w) + length pad) mod kBlockSize = off"
    using pad
  proof (elim disjE conjE)
    assume a: "off = 0" "pad = replicate (kBlockSize - length (lw_dest w) mod kBlockSize) 0"
    have "length (lw_dest w) mod kBlockSize \<le> kBlockSize" using block_header_pos(1) by (simp add: less_imp_le)
    with a show ?thesis
      by (metis length_replicate le_add_diff_inverse mod_add_left_eq mod_self)
  qed simp
  have ok1: "writer_ok extend_crc w1" using ok off padlen block_header_pos by (simp add: writer_ok_def w1_def)
  have emit: "EmitPhysicalRecord extend_crc mem_append mem_flush t (take n ptr) w1 = Some (OK, w')"
    unfolding w'_def using n t by (intro emit_fragment [OF ok1]) (simp_all add: w1_def)
  have "chunk_at extend_crc (length (lw_dest w)) t (take n ptr) (pad @ frag_bytes extend_crc t (take n ptr))"
    using pad n t off by (auto simp: chunk_at_def)
  moreover have "writer_ok extend_crc w'"
  proof -
    have "(length (lw_dest w) + length pad + (kHeaderSize + n)) mod kBlockSize = (off + (kHeaderSize + n)) mod kBlockSize"
      using padlen by (metis mod_add_left_eq)
    then show ?thesis using ok n by (simp add: writer_ok_def w'_def w1_def ac_simps)
  qed
  moreover have "lw_dest w' = lw_dest w @ pad @ frag_bytes extend_crc t (take n ptr)" by (simp add: w'_def w1_def)
  moreover have "add_record_loop extend_crc mem_append mem_flush ptr b w
      = (if n = length ptr then Some (OK, w') else add_record_loop extend_crc mem_append mem_flush (drop n ptr) False w')"
  proof -
    have nn: "(if length ptr < kBlockSize - lw_block_offset w1 - kHeaderSize then length ptr
        else kBlockSize - lw_block_offset w1 - kHeaderSize) = n" by (simp add: w1_def n_def)
    have "\<not> kBlockSize < lw_block_offset w" using ok by (simp add: writer_ok_def)
    moreover have "(length ptr = n) = (n = length ptr)" by auto
    ultimately show ?thesis
      using emit n(1) unfolding add_record_loop.simps [of _ _ _ ptr b w] sb [folded w1_def] Let_def nn t_def
      by simp
  qed
  moreover have "lw_block_offset w \<noteq> kBlockSize \<and> lw_block_offset w' = kBlockSize" if "n = 0" "n \<noteq> length ptr"
  proof -
    from that off have o: "off + kHeaderSize = kBlockSize" by (auto simp: n_def split: if_splits)
    with pad block_header_pos have "length (lw_dest w) mod kBlockSize \<noteq> 0" by auto
    with ok have "lw_block_offset w \<noteq> kBlockSize" by (auto simp: writer_ok_def)
    with o that show ?thesis by (simp add: w'_def w1_def)
  qed
  ultimately show ?thesis using n(1) unfolding t_def by blast
qed

lemma add_record_loop_bytes:
  assumes "writer_ok extend_crc w"
  shows "\<exists>w' bs. add_record_loop extend_crc mem_append mem_flush ptr b w = Some (OK, w') \<and> writer_ok extend_crc w'
    \<and> lw_dest w' = lw_dest w @ bs \<and> record_bytes extend_crc (length (lw_dest w)) b ptr bs"
  using assms
proof (induction "2 * length ptr + (if lw_block_offset w = kBlockSize then 0 else 1)" arbitrary: ptr b w rule: less_induct)
  case less
  obtain n c w' where r: "n \<le> length ptr"
      "chunk_at extend_crc (length (lw_dest w)) (record_type_of b (n = length ptr)) (take n ptr) c"
      "writer_ok extend_crc w'" "lw_dest w' = lw_dest w @ c"
      "n = 0 \<and> n \<noteq> length ptr \<longrightarrow> lw_block_offset w \<noteq> kBlockSize \<and> lw_block_offset w' = kBlockSize"
      "add_record_loop extend_crc mem_append mem_flush ptr b w
        = (if n = length ptr then Some (OK, w') else add_record_loop extend_crc mem_append mem_flush (drop n ptr) False w')"
    using add_record_round [OF less.prems, of ptr b] by blast
  show ?case
  proof (cases "n = length ptr")
    case True
    with r show ?thesis by (auto intro: last_chunk)
  next
    case False
    have "2 * length (drop n ptr) + (if lw_block_offset w' = kBlockSize then 0 else 1)
        < 2 * length ptr + (if lw_block_offset w = kBlockSize then 0 else 1)"
      using r(1,5) False by (cases "n = 0") auto
    from less.hyps [OF this r(3), of False] obtain w'' bs where
      "add_record_loop extend_crc mem_append mem_flush (drop n ptr) False w' = Some (OK, w'')" "writer_ok extend_crc w''"
      "lw_dest w'' = lw_dest w' @ bs" "record_bytes extend_crc (length (lw_dest w')) False (drop n ptr) bs" by blast
    with r False show ?thesis
      using next_chunk [of extend_crc "length (lw_dest w)" b "take n ptr" c "drop n ptr" bs] by auto
  qed
qed

end

section \<open>What the reader does with it\<close>

definition reader_at :: "bytes \<Rightarrow> nat \<Rightarrow> bytes LogReader \<Rightarrow> bool" where
  "reader_at data pos r \<longleftrightarrow> lr_buffer r @ lr_file r = drop pos data \<and> pos \<le> length data \<and> \<not> lr_resyncing r
     \<and> length (lr_buffer r) + pos mod kBlockSize \<le> kBlockSize
     \<and> (if lr_eof r then lr_file r = [] else (pos + length (lr_buffer r)) mod kBlockSize = 0)"

lemma mod_block: "pos mod kBlockSize < kBlockSize"
  by (simp add: block_header_pos)

lemma reader_at_buffer:
  assumes "reader_at data pos r" "\<not> lr_eof r"
  shows "lr_buffer r = [] \<and> pos mod kBlockSize = 0 \<or> length (lr_buffer r) + pos mod kBlockSize = kBlockSize"
proof -
  have m: "(length (lr_buffer r) + pos mod kBlockSize) mod kBlockSize = 0"
    using assms by (simp add: reader_at_def mod_simps add.commute)
  have le: "length (lr_buffer r) + pos mod kBlockSize \<le> kBlockSize" using assms by (simp add: reader_at_def)
  show ?thesis
  proof (cases "length (lr_buffer r) + pos mod kBlockSize = kBlockSize")
    case False
    with le m have "length (lr_buffer r) + pos mod kBlockSize = 0" by simp
    then show ?thesis by simp
  qed simp
qed

lemma reader_fill:
  assumes at: "reader_at data pos r" and "\<not> lr_eof r" "length (lr_buffer r) < kHeaderSize"
  obtains r' where "ReadPhysicalRecord (log_env extend_crc verify) r = ReadPhysicalRecord (log_env extend_crc verify) r'"
    and "reader_at data (pos + length (lr_buffer r)) r'" "lr_reports r' = lr_reports r"
    and "lr_buffer r' = take kBlockSize (drop (pos + length (lr_buffer r)) data)"
    and "lr_eof r' \<longleftrightarrow> length data < pos + length (lr_buffer r) + kBlockSize"
proof -
  let ?pos = "pos + length (lr_buffer r)"
  let ?b = "take kBlockSize (lr_file r)"
  define r1 where "r1 = r\<lparr>lr_file := drop kBlockSize (lr_file r), lr_buffer := ?b,
    lr_end_of_buffer_offset := lr_end_of_buffer_offset r + of_nat (length ?b)\<rparr>"
  define r' where "r' = (if length ?b < kBlockSize then r1\<lparr>lr_eof := True\<rparr> else r1)"
  have "drop (length (lr_buffer r)) (lr_buffer r @ lr_file r) = drop (length (lr_buffer r)) (drop pos data)"
    using at by (simp only: reader_at_def)
  then have f: "lr_file r = drop ?pos data" by (simp add: add.commute)
  have "length (lr_buffer r @ lr_file r) = length (drop pos data)" using at by (simp only: reader_at_def)
  moreover have "pos \<le> length data" using at by (simp add: reader_at_def)
  ultimately have len: "length data = ?pos + length (lr_file r)" by simp
  have al: "?pos mod kBlockSize = 0" using at assms(2) by (simp add: reader_at_def)
  have r': "lr_buffer r' = ?b" "lr_file r' = drop kBlockSize (lr_file r)" "lr_reports r' = lr_reports r"
      "lr_resyncing r' = lr_resyncing r" "lr_eof r' \<longleftrightarrow> length (lr_file r) < kBlockSize"
    using assms(2) by (auto simp: r'_def r1_def)
  have m: "(?pos + kBlockSize) mod kBlockSize = 0" using al by simp
  have "reader_at data ?pos r'"
    unfolding reader_at_def r' append_take_drop_id f [symmetric]
    using at al m len by (simp add: reader_at_def min_def)
  moreover have "ReadPhysicalRecord (log_env extend_crc verify) r = ReadPhysicalRecord (log_env extend_crc verify) r'"
    unfolding ReadPhysicalRecord.simps [of _ r] using assms(2,3)
    by (simp only: log_env_def mem_read_def Let_def r'_def r1_def reader_env.simps prod.case if_True if_False simp_thms)
  moreover have "lr_eof r' \<longleftrightarrow> length data < ?pos + kBlockSize" using r'(5) len by simp
  ultimately show ?thesis using that r'(1,3) unfolding f by blast
qed

text \<open>A whole fragment at the reader's position, once the buffer holds its header.\<close>

lemma read_ready:
  assumes at: "reader_at data pos r" and c: "chunk_at extend_crc pos t p c" "drop pos data = c @ rest"
    and h: "kHeaderSize \<le> length (lr_buffer r)"
  shows "ReadPhysicalRecord (log_env extend_crc verify) r = Some (t, p, r\<lparr>lr_buffer := drop (length c) (lr_buffer r)\<rparr>)
    \<and> reader_at data (pos + length c) (r\<lparr>lr_buffer := drop (length c) (lr_buffer r)\<rparr>)"
proof -
  have b: "lr_buffer r @ lr_file r = c @ rest" "length (lr_buffer r) + pos mod kBlockSize \<le> kBlockSize" "pos \<le> length data"
    using at c by (simp_all add: reader_at_def)
  have frag: "c = frag_bytes extend_crc t p" "pos mod kBlockSize + kHeaderSize + length p \<le> kBlockSize" "frag_type t"
    using c(1) b(2) h by (auto simp: chunk_at_def)
  have lc: "length c \<le> length (lr_buffer r)"
  proof (cases "lr_eof r")
    case True
    with at have "lr_file r = []" by (simp add: reader_at_def)
    with arg_cong [OF b(1), of length] show ?thesis by simp
  next
    case False
    with reader_at_buffer [OF at] h frag block_header_pos show ?thesis by auto
  qed
  with b(1) have bc: "lr_buffer r = c @ drop (length c) (lr_buffer r)"
    by (metis append_eq_append_conv_if append_take_drop_id)
  have p: "length p \<le> 0xffff" using frag(2) block_header_pos by linarith
  have "ReadPhysicalRecord (log_env extend_crc verify) r = Some (parse_physical (log_env extend_crc verify) r)"
    using h by (subst ReadPhysicalRecord.simps) simp
  also have "parse_physical (log_env extend_crc verify) r = (t, p, r\<lparr>lr_buffer := drop (length c) (lr_buffer r)\<rparr>)"
    using parse_fragment [OF p frag(3)] bc frag(1) by blast
  finally have 1: "ReadPhysicalRecord (log_env extend_crc verify) r
    = Some (t, p, r\<lparr>lr_buffer := drop (length c) (lr_buffer r)\<rparr>)" .
  have "pos + length c \<le> length data" using b(3) arg_cong [OF c(2), of length] by simp
  moreover have "drop (length c) (lr_buffer r) @ lr_file r = drop (pos + length c) data"
  proof -
    have "drop (length c) (lr_buffer r) @ lr_file r = drop (length c) (lr_buffer r @ lr_file r)" using lc by simp
    also have "\<dots> = drop (length c) (drop pos data)" using at by (simp only: reader_at_def)
    finally show ?thesis by (simp add: add.commute)
  qed
  moreover have "length (drop (length c) (lr_buffer r)) + (pos + length c) mod kBlockSize \<le> kBlockSize"
  proof (cases "length (lr_buffer r) = length c")
    case False
    with lc b(2) have "pos mod kBlockSize + length c < kBlockSize" by simp
    then have "(pos + length c) mod kBlockSize = pos mod kBlockSize + length c"
      by (metis mod_add_left_eq mod_less)
    with b(2) lc show ?thesis by simp
  qed (simp add: mod_block less_imp_le)
  moreover have "(pos + length c + length (drop (length c) (lr_buffer r))) = pos + length (lr_buffer r)" using lc by simp
  ultimately have "reader_at data (pos + length c) (r\<lparr>lr_buffer := drop (length c) (lr_buffer r)\<rparr>)"
    using at by (simp add: reader_at_def)
  with 1 show ?thesis by blast
qed

text \<open>A chunk behind a buffer with no header left, and not at the end of the file, is read from a new block.\<close>

lemma chunk_after_fill:
  assumes at: "reader_at data pos r" and c: "chunk_at extend_crc pos t p c"
    and "length (lr_buffer r) < kHeaderSize" "\<not> lr_eof r"
  obtains pad where "c = pad @ frag_bytes extend_crc t p" "length pad = length (lr_buffer r)"
    and "chunk_at extend_crc (pos + length (lr_buffer r)) t p (frag_bytes extend_crc t p)"
proof -
  have al: "(pos + length (lr_buffer r)) mod kBlockSize = 0" using at assms(4) by (simp add: reader_at_def)
  have fr: "frag_type t" "kHeaderSize + length p \<le> kBlockSize" using c by (simp_all add: chunk_at_def)
  then have new: "chunk_at extend_crc (pos + length (lr_buffer r)) t p (frag_bytes extend_crc t p)"
    using al by (simp add: chunk_at_def)
  consider "c = frag_bytes extend_crc t p" "pos mod kBlockSize + kHeaderSize + length p \<le> kBlockSize"
    | "kBlockSize < pos mod kBlockSize + kHeaderSize" "c = replicate (kBlockSize - pos mod kBlockSize) 0 @ frag_bytes extend_crc t p"
    using c by (auto simp: chunk_at_def)
  then show ?thesis
  proof cases
    case 1
    then have "lr_buffer r = []" using reader_at_buffer [OF at assms(4)] assms(3) by auto
    with 1 new that [of "[]"] show ?thesis by simp
  next
    case 2
    then have "length (lr_buffer r) + pos mod kBlockSize = kBlockSize"
      using reader_at_buffer [OF at assms(4)] block_header_pos by auto
    with 2 new that show ?thesis by simp
  qed
qed

lemma read_chunk:
  assumes at: "reader_at data pos r" and c: "chunk_at extend_crc pos t p c" "drop pos data = c @ rest"
  obtains r' where "ReadPhysicalRecord (log_env extend_crc verify) r = Some (t, p, r')"
    and "reader_at data (pos + length c) r'" "lr_reports r' = lr_reports r"
proof (cases "kHeaderSize \<le> length (lr_buffer r)")
  case True
  from read_ready [OF at c True, of verify] that show ?thesis by auto
next
  case small: False
  have "\<not> lr_eof r"
  proof
    assume e: "lr_eof r"
    with at c(2) have "lr_buffer r = c @ rest" by (auto simp: reader_at_def)
    moreover have "kHeaderSize \<le> length c" using c(1) by (auto simp: chunk_at_def)
    ultimately show False using small by simp
  qed
  then obtain r1 where r1: "ReadPhysicalRecord (log_env extend_crc verify) r = ReadPhysicalRecord (log_env extend_crc verify) r1"
      "reader_at data (pos + length (lr_buffer r)) r1" "lr_reports r1 = lr_reports r"
      "lr_buffer r1 = take kBlockSize (drop (pos + length (lr_buffer r)) data)"
    and pad: "\<exists>pad. c = pad @ frag_bytes extend_crc t p \<and> length pad = length (lr_buffer r)"
      "chunk_at extend_crc (pos + length (lr_buffer r)) t p (frag_bytes extend_crc t p)"
    using reader_fill [OF at, of extend_crc verify] chunk_after_fill [OF at c(1)] small by (metis not_le)
  from pad obtain z where z: "c = z @ frag_bytes extend_crc t p" "length z = length (lr_buffer r)" by blast
  have d: "drop (pos + length (lr_buffer r)) data = frag_bytes extend_crc t p @ rest"
    using arg_cong [OF c(2), of "drop (length z)"] z by (simp add: add.commute)
  have "kHeaderSize \<le> length (lr_buffer r1)" using r1(4) block_header_pos by (simp add: d)
  from read_ready [OF r1(2) pad(2) d this, of verify] that r1 z show ?thesis by (auto simp: add.assoc)
qed

text \<open>A chunk that the file ends inside: the reader sees the end of the file and reports nothing.\<close>

lemma read_torn_ready:
  assumes at: "reader_at data pos r" and c: "chunk_at extend_crc pos t p c" "c = drop pos data @ rem" "rem \<noteq> []"
    and h: "lr_eof r \<or> kHeaderSize \<le> length (lr_buffer r)"
  shows "ReadPhysicalRecord (log_env extend_crc verify) r = Some (kEof, [], r\<lparr>lr_buffer := []\<rparr>)"
proof (cases "kHeaderSize \<le> length (lr_buffer r)")
  case True
  have b: "length (lr_buffer r) + pos mod kBlockSize \<le> kBlockSize" "lr_buffer r @ lr_file r = drop pos data"
    using at by (simp_all add: reader_at_def)
  have frag: "c = frag_bytes extend_crc t p" "pos mod kBlockSize + kHeaderSize + length p \<le> kBlockSize" "frag_type t"
    using c(1) b(1) True by (auto simp: chunk_at_def)
  have len: "length (lr_buffer r) + length (lr_file r) + length rem = kHeaderSize + length p"
    using arg_cong [OF c(2), of length] frag(1) unfolding b(2) [symmetric] by simp
  have e: "lr_eof r"
  proof (rule ccontr)
    assume "\<not> lr_eof r"
    then have "length (lr_buffer r) + pos mod kBlockSize = kBlockSize"
      using reader_at_buffer [OF at] True block_header_pos by auto
    with frag(2) len c(3) show False by (cases rem) auto
  qed
  with at have "lr_file r = []" by (simp add: reader_at_def)
  with b(2) c(2) frag(1) have "lr_buffer r @ rem = frag_bytes extend_crc t p" by simp
  moreover have "length p \<le> 0xffff" using frag(2) block_header_pos by linarith
  ultimately show ?thesis
    using parse_torn [OF _ frag(3) _ True c(3) e] True by (subst ReadPhysicalRecord.simps) simp
qed (use h in \<open>subst ReadPhysicalRecord.simps, simp\<close>)

lemma read_torn:
  assumes at: "reader_at data pos r" and c: "chunk_at extend_crc pos t p c" "c = drop pos data @ rem" "rem \<noteq> []"
  shows "\<exists>r'. ReadPhysicalRecord (log_env extend_crc verify) r = Some (kEof, [], r')
    \<and> lr_reports r' = lr_reports r \<and> \<not> lr_resyncing r'"
proof (cases "lr_eof r \<or> kHeaderSize \<le> length (lr_buffer r)")
  case True
  have "\<not> lr_resyncing r" using at by (simp add: reader_at_def)
  with read_torn_ready [OF at c True] show ?thesis by simp
next
  case False
  obtain r1 where r1: "ReadPhysicalRecord (log_env extend_crc verify) r = ReadPhysicalRecord (log_env extend_crc verify) r1"
      "reader_at data (pos + length (lr_buffer r)) r1" "lr_reports r1 = lr_reports r"
      "lr_eof r1 \<longleftrightarrow> length data < pos + length (lr_buffer r) + kBlockSize"
    using reader_fill [OF at] False by (metis not_le)
  obtain z where z: "c = z @ frag_bytes extend_crc t p" "length z = length (lr_buffer r)"
      "chunk_at extend_crc (pos + length (lr_buffer r)) t p (frag_bytes extend_crc t p)"
    using chunk_after_fill [OF at c(1)] False by (metis not_le)
  have le: "length (lr_buffer r) \<le> length (drop pos data)"
    using at unfolding reader_at_def by (metis length_append le_add1)
  have "drop (length z) c = drop (length z) (drop pos data) @ rem" using le z(2) by (simp add: c(2))
  then have d: "frag_bytes extend_crc t p = drop (pos + length (lr_buffer r)) data @ rem"
    using z by (simp add: add.commute)
  have "kHeaderSize + length p \<le> kBlockSize" using c(1) by (simp add: chunk_at_def)
  then have "lr_eof r1" using arg_cong [OF d, of length] c(3) r1(4) by (cases rem) auto
  then have "ReadPhysicalRecord (log_env extend_crc verify) r1 = Some (kEof, [], r1\<lparr>lr_buffer := []\<rparr>)"
    using read_torn_ready [OF r1(2) z(3) d c(3)] by blast
  moreover have "\<not> lr_resyncing r1" using r1(2) by (simp add: reader_at_def)
  ultimately show ?thesis using r1 by simp
qed

section \<open>Records\<close>

lemma resync_id: "\<not> lr_resyncing r \<Longrightarrow> r\<lparr>lr_resyncing := False\<rparr> = r"
  by (cases r) simp

lemma reader_at_last [simp]: "reader_at data pos (r\<lparr>lr_last_record_offset := x\<rparr>) = reader_at data pos r"
  by (simp add: reader_at_def)

lemma read_last_chunk:
  assumes "ReadPhysicalRecord env r = Some (record_type_of b True, p, r')" "\<not> lr_resyncing r'" "mid = (\<not> b)" "b \<longrightarrow> acc = []"
  shows "\<exists>x. read_record_loop env mid acc pros r = Some (Some (acc @ p), r'\<lparr>lr_last_record_offset := x\<rparr>)"
  unfolding read_record_loop.simps [of env mid acc pros r]
  using assms by (cases b) (simp_all add: Let_def record_type_of_def record_types resync_id, blast+)

lemma read_next_chunk:
  assumes "ReadPhysicalRecord env r = Some (record_type_of b False, p, r')" "\<not> lr_resyncing r'" "mid = (\<not> b)" "b \<longrightarrow> acc = []"
  shows "\<exists>x. read_record_loop env mid acc pros r = read_record_loop env True (acc @ p) x r'"
  unfolding read_record_loop.simps [of env mid acc pros r]
  using assms by (cases b) (simp_all add: Let_def record_type_of_def record_types resync_id, blast+)

lemma read_eof:
  assumes "ReadPhysicalRecord env r = Some (kEof, [], r')" "\<not> lr_resyncing r'"
  shows "read_record_loop env mid acc pros r = Some (None, r')"
  unfolding read_record_loop.simps [of env mid acc pros r]
  using assms by (simp add: Let_def kEof_def record_types resync_id)

lemma read_whole_record:
  assumes "record_bytes extend_crc pos b p bs" "reader_at data pos r" "drop pos data = bs @ rest"
    and "mid = (\<not> b)" "b \<longrightarrow> acc = []"
  shows "\<exists>r'. read_record_loop (log_env extend_crc verify) mid acc pros r = Some (Some (acc @ p), r')
    \<and> reader_at data (pos + length bs) r' \<and> lr_reports r' = lr_reports r"
  using assms
proof (induction arbitrary: r rest mid acc pros rule: record_bytes.induct)
  case (last_chunk pos b p c)
  obtain r' where r': "ReadPhysicalRecord (log_env extend_crc verify) r = Some (record_type_of b True, p, r')"
      "reader_at data (pos + length c) r'" "lr_reports r' = lr_reports r"
    using read_chunk [OF last_chunk.prems(1) last_chunk.hyps last_chunk.prems(2)] by blast
  then have "\<not> lr_resyncing r'" by (simp add: reader_at_def)
  from read_last_chunk [OF r'(1) this last_chunk.prems(3,4)] r' show ?case by fastforce
next
  case (next_chunk pos b p c q cs)
  have d: "drop pos data = c @ cs @ rest" using next_chunk.prems(2) by simp
  obtain r' where r': "ReadPhysicalRecord (log_env extend_crc verify) r = Some (record_type_of b False, p, r')"
      "reader_at data (pos + length c) r'" "lr_reports r' = lr_reports r"
    using read_chunk [OF next_chunk.prems(1) next_chunk.hyps(1) d] by blast
  then have "\<not> lr_resyncing r'" by (simp add: reader_at_def)
  from read_next_chunk [OF r'(1) this next_chunk.prems(3,4)] obtain x where
    x: "read_record_loop (log_env extend_crc verify) mid acc pros r = read_record_loop (log_env extend_crc verify) True (acc @ p) x r'"
    by blast
  have "drop (pos + length c) data = cs @ rest" using arg_cong [OF d, of "drop (length c)"] by (simp add: add.commute)
  from next_chunk.IH [OF r'(2) this, of True "acc @ p" x] x r'(3) show ?case by (auto simp: add.assoc)
qed

lemma read_torn_record:
  assumes "record_bytes extend_crc pos b p bs" "reader_at data pos r" "bs = drop pos data @ rem" "rem \<noteq> []"
    and "mid = (\<not> b)" "b \<longrightarrow> acc = []"
  shows "\<exists>r'. read_record_loop (log_env extend_crc verify) mid acc pros r = Some (None, r') \<and> lr_reports r' = lr_reports r"
  using assms
proof (induction arbitrary: r mid acc pros rule: record_bytes.induct)
  case (last_chunk pos b p c)
  show ?case
    using read_torn [OF last_chunk.prems(1) last_chunk.hyps last_chunk.prems(2,3), of verify] read_eof by blast
next
  case (next_chunk pos b p c q cs)
  show ?case
  proof (cases "length (drop pos data) < length c")
    case True
    then have "c = drop pos data @ drop (length (drop pos data)) c"
      using next_chunk.prems(2) by (metis append_eq_append_conv_if append_take_drop_id less_imp_le not_le)
    moreover have "drop (length (drop pos data)) c \<noteq> []" using True by simp
    ultimately show ?thesis
      using read_torn [OF next_chunk.prems(1) next_chunk.hyps(1), of _ verify] read_eof by blast
  next
    case False
    then obtain z where z: "drop pos data = c @ z"
      using next_chunk.prems(2) by (metis append_eq_append_conv_if append_take_drop_id not_le)
    obtain r' where r': "ReadPhysicalRecord (log_env extend_crc verify) r = Some (record_type_of b False, p, r')"
        "reader_at data (pos + length c) r'" "lr_reports r' = lr_reports r"
      using read_chunk [OF next_chunk.prems(1) next_chunk.hyps(1) z] by blast
    then have "\<not> lr_resyncing r'" by (simp add: reader_at_def)
    from read_next_chunk [OF r'(1) this next_chunk.prems(4,5)] obtain x where
      x: "read_record_loop (log_env extend_crc verify) mid acc pros r = read_record_loop (log_env extend_crc verify) True (acc @ p) x r'"
      by blast
    have "drop (pos + length c) data = z" using arg_cong [OF z, of "drop (length c)"] by (simp add: add.commute)
    with z next_chunk.prems(2) have "cs = drop (pos + length c) data @ rem" by simp
    from next_chunk.IH [OF r'(2) this next_chunk.prems(3), of True "acc @ p" x] x r'(3) show ?thesis by simp
  qed
qed

section \<open>Logs\<close>

text \<open>A sequence of records added one after the other, and a reader asked for records until there are no more.\<close>

fun AddRecords :: "(u32 \<Rightarrow> bytes \<Rightarrow> u32) \<Rightarrow> bytes list \<Rightarrow> bytes LogWriter \<Rightarrow> bytes LogWriter option" where
  "AddRecords extend_crc [] w = Some w"
| "AddRecords extend_crc (x # xs) w =
     (case AddRecord extend_crc mem_append mem_flush x w of
        Some (OK, w') \<Rightarrow> AddRecords extend_crc xs w'
      | _ \<Rightarrow> None)"

fun ReadRecords :: "'f reader_env \<Rightarrow> nat \<Rightarrow> 'f LogReader \<Rightarrow> (bytes list \<times> bool \<times> 'f LogReader) option" where
  "ReadRecords env 0 r = Some ([], False, r)"
| "ReadRecords env (Suc n) r =
     (case ReadRecord env r of
        None \<Rightarrow> None
      | Some (None, r') \<Rightarrow> Some ([], True, r')
      | Some (Some x, r') \<Rightarrow>
          (case ReadRecords env n r' of None \<Rightarrow> None | Some (xs, e, r'') \<Rightarrow> Some (x # xs, e, r'')))"

fun log_of :: "(u32 \<Rightarrow> bytes \<Rightarrow> u32) \<Rightarrow> nat \<Rightarrow> bytes list \<Rightarrow> bytes list \<Rightarrow> bool" where
  "log_of extend_crc pos [] [] \<longleftrightarrow> True"
| "log_of extend_crc pos (x # xs) (b # bs) \<longleftrightarrow> record_bytes extend_crc pos True x b \<and> log_of extend_crc (pos + length b) xs bs"
| "log_of extend_crc pos _ _ \<longleftrightarrow> False"

lemma log_of_append:
  "log_of extend_crc pos xs as \<Longrightarrow> log_of extend_crc (pos + length (concat as)) ys bs \<Longrightarrow> log_of extend_crc pos (xs @ ys) (as @ bs)"
  by (induction extend_crc pos xs as rule: log_of.induct) (auto simp: add.assoc)

lemma log_of_length: "log_of extend_crc pos xs as \<Longrightarrow> length as = length xs"
  by (induction extend_crc pos xs as rule: log_of.induct) auto

lemma ReadRecord_log_env: "ReadRecord (log_env extend_crc verify) r = read_record_loop (log_env extend_crc verify) False [] 0 r"
  by (simp add: ReadRecord_def log_env_def)

context checksum
begin

lemma AddRecords_bytes:
  "writer_ok extend_crc w \<Longrightarrow> \<exists>w' bs. AddRecords extend_crc xs w = Some w' \<and> writer_ok extend_crc w'
    \<and> lw_dest w' = lw_dest w @ concat bs \<and> log_of extend_crc (length (lw_dest w)) xs bs"
proof (induction xs arbitrary: w)
  case Nil
  then show ?case by (intro exI [of _ w] exI [of _ "[]"]) simp
next
  case (Cons x xs)
  obtain w1 b where w1: "AddRecord extend_crc mem_append mem_flush x w = Some (OK, w1)" "writer_ok extend_crc w1"
      "lw_dest w1 = lw_dest w @ b" "record_bytes extend_crc (length (lw_dest w)) True x b"
    using add_record_loop_bytes [OF Cons.prems, of x True] by (auto simp: AddRecord_def)
  obtain w2 bs where "AddRecords extend_crc xs w1 = Some w2" "writer_ok extend_crc w2"
      "lw_dest w2 = lw_dest w1 @ concat bs" "log_of extend_crc (length (lw_dest w1)) xs bs"
    using Cons.IH [OF w1(2)] by blast
  with w1 show ?case by (intro exI [of _ w2] exI [of _ "b # bs"]) simp
qed

end

lemma writer_ok_new: "writer_ok extend_crc (NewLogWriter extend_crc [])"
  by (simp add: writer_ok_def NewLogWriter_def)

lemma writer_ok_reopen: "writer_ok extend_crc (ReopenLogWriter extend_crc d (of_nat (length d)))"
proof -
  have "unat (of_nat (length d) :: u64) mod kBlockSize = length d mod 2 ^ 64 mod 2 ^ 15"
    by (simp add: unsigned_of_nat take_bit_eq_mod kBlockSize_def)
  also have "\<dots> = length d mod kBlockSize" by (subst mod_mod_cancel) (simp_all add: kBlockSize_def)
  finally show ?thesis
    using mod_block by (simp add: writer_ok_def ReopenLogWriter_def less_imp_le)
qed

lemma reader_at_new: "reader_at data 0 (NewLogReader (log_env extend_crc verify) data)"
  by (simp add: reader_at_def NewLogReader_def log_env_def)

text \<open>Reading a log cut off after \<open>k\<close> bytes: every whole record is read, and nothing is reported.\<close>

lemma read_cut_log:
  assumes "log_of extend_crc pos xs bs" "reader_at data pos r" "drop pos data = take k (concat bs)"
    and "length (concat (take m bs)) \<le> k" "m \<le> length xs"
  shows "\<exists>n r'. m \<le> n \<and> ReadRecords (log_env extend_crc verify) (Suc (length xs)) r = Some (take n xs, True, r')
    \<and> lr_reports r' = lr_reports r"
  using assms
proof (induction extend_crc pos xs bs arbitrary: r k m rule: log_of.induct)
  case (1 extend_crc pos)
  obtain c where c: "chunk_at extend_crc pos kFullType [] c" using chunk_at_ex by blast
  from read_torn [OF 1(2) c, of c verify] 1 chunk_at_nonempty [OF c] obtain r' where
    "ReadPhysicalRecord (log_env extend_crc verify) r = Some (kEof, [], r')" "lr_reports r' = lr_reports r" "\<not> lr_resyncing r'"
    by auto
  with read_eof [of _ r r'] 1 show ?case by (simp add: ReadRecord_log_env)
next
  case (2 extend_crc pos x xs b bs)
  have rb: "record_bytes extend_crc pos True x b" and l: "log_of extend_crc (pos + length b) xs bs" using "2.prems"(1) by simp_all
  show ?case
  proof (cases "k < length b")
    case True
    then have "b = drop pos data @ drop k b" "drop k b \<noteq> []" using "2.prems"(3) by simp_all
    from read_torn_record [OF rb "2.prems"(2) this] obtain r' where
      "read_record_loop (log_env extend_crc verify) False [] 0 r = Some (None, r')" "lr_reports r' = lr_reports r"
      by fastforce
    moreover have "m = 0" using "2.prems"(4) True by (cases m) auto
    ultimately show ?thesis by (intro exI [of _ 0] exI [of _ r']) (simp add: ReadRecord_log_env)
  next
    case False
    then have d: "drop pos data = b @ take (k - length b) (concat bs)" using "2.prems"(3) by simp
    obtain r' where r': "read_record_loop (log_env extend_crc verify) False [] 0 r = Some (Some x, r')"
        "reader_at data (pos + length b) r'" "lr_reports r' = lr_reports r"
      using read_whole_record [OF rb "2.prems"(2) d, of False "[]" verify 0] by auto
    have d': "drop (pos + length b) data = take (k - length b) (concat bs)"
      using arg_cong [OF d, of "drop (length b)"] by (simp add: add.commute)
    have "length (concat (take (m - 1) bs)) \<le> k - length b" "m - 1 \<le> length xs"
      using "2.prems"(4,5) False by (cases m; simp)+
    from "2.IH" [OF l r'(2) d' this] obtain n r'' where "m - 1 \<le> n"
        "ReadRecords (log_env extend_crc verify) (Suc (length xs)) r' = Some (take n xs, True, r'')" "lr_reports r'' = lr_reports r'"
      by blast
    with r' show ?thesis by (intro exI [of _ "Suc n"] exI [of _ r'']) (simp add: ReadRecord_log_env)
  qed
qed simp_all

section \<open>Properties\<close>

lemma Extend_address: "accelerator_ok accel \<Longrightarrow> Extend accel a = Extend accel b"
  by (intro ext) (simp add: Extend_reference)

context checksum
begin

lemma reopened_log:
  shows "\<exists>w bs w' cs. AddRecords extend_crc xs (NewLogWriter extend_crc []) = Some w
    \<and> lw_dest w = concat bs \<and> log_of extend_crc 0 xs bs
    \<and> AddRecords extend_crc ys (ReopenLogWriter extend_crc (lw_dest w) (of_nat (length (lw_dest w)))) = Some w'
    \<and> lw_dest w' = concat (bs @ cs) \<and> log_of extend_crc 0 (xs @ ys) (bs @ cs)"
proof -
  obtain w bs where w: "AddRecords extend_crc xs (NewLogWriter extend_crc []) = Some w"
      "lw_dest w = concat bs" "log_of extend_crc 0 xs bs"
    using AddRecords_bytes [OF writer_ok_new] by (fastforce simp: NewLogWriter_def)
  obtain w' cs where w': "AddRecords extend_crc ys (ReopenLogWriter extend_crc (lw_dest w) (of_nat (length (lw_dest w)))) = Some w'"
      "lw_dest w' = lw_dest w @ concat cs" "log_of extend_crc (length (lw_dest w)) ys cs"
    using AddRecords_bytes [OF writer_ok_reopen, of ys "lw_dest w"] by (fastforce simp: ReopenLogWriter_def)
  have "log_of extend_crc 0 (xs @ ys) (bs @ cs)" using w w' by (intro log_of_append) simp_all
  with w w' show ?thesis by auto
qed

lemma read_reopened_log:
  assumes "AddRecords extend_crc xs (NewLogWriter extend_crc []) = Some w"
    and "AddRecords extend_crc ys (ReopenLogWriter extend_crc (lw_dest w) (of_nat (length (lw_dest w)))) = Some w'"
    and "length (lw_dest w) \<le> k"
  shows "\<exists>n r. ReadRecords (log_env extend_crc verify) (Suc (length (xs @ ys)))
      (NewLogReader (log_env extend_crc verify) (take k (lw_dest w'))) = Some (xs @ take n ys, True, r)
    \<and> (length (lw_dest w') \<le> k \<longrightarrow> length ys \<le> n) \<and> lr_reports r = []"
proof -
  obtain bs cs where l: "lw_dest w = concat bs" "log_of extend_crc 0 xs bs" "lw_dest w' = concat (bs @ cs)"
      "log_of extend_crc 0 (xs @ ys) (bs @ cs)"
    using reopened_log [of xs ys] assms(1,2) by auto
  define m where "m = (if length (lw_dest w') \<le> k then length (xs @ ys) else length xs)"
  have "length bs = length xs" "length cs = length ys"
    using log_of_length [OF l(2)] log_of_length [OF l(4)] by simp_all
  then have m: "length (concat (take m (bs @ cs))) \<le> k" "m \<le> length (xs @ ys)"
    using assms(3) l by (auto simp: m_def)
  obtain n r where "m \<le> n" "ReadRecords (log_env extend_crc verify) (Suc (length (xs @ ys)))
      (NewLogReader (log_env extend_crc verify) (take k (lw_dest w'))) = Some (take n (xs @ ys), True, r)"
      "lr_reports r = lr_reports (NewLogReader (log_env extend_crc verify) (take k (lw_dest w')))"
    using read_cut_log [OF l(4) reader_at_new [of _ extend_crc verify], where k = k and m = m and verify = verify] m l(3) by auto
  then show ?thesis
    by (intro exI [of _ "n - length xs"] exI [of _ r]) (auto simp: m_def NewLogReader_def split: if_splits)
qed

end

text \<open>
  C18: records written to a new log, and further ones by a writer that reopens the file at its length,
  are all accepted and are read back in their order, whatever their sizes and however the fragments
  fall on the blocks; the reader then sees the end of the log and reports no corruption.
\<close>

theorem log_roundtrip:
  assumes "accelerator_ok accel"
  shows "\<exists>w w' r. AddRecords (Extend accel a) xs (NewLogWriter (Extend accel a) []) = Some w
    \<and> AddRecords (Extend accel b) ys (ReopenLogWriter (Extend accel b) (lw_dest w) (of_nat (length (lw_dest w)))) = Some w'
    \<and> ReadRecords (log_env (Extend accel c) verify) (Suc (length (xs @ ys)))
        (NewLogReader (log_env (Extend accel c) verify) (lw_dest w')) = Some (xs @ ys, True, r)
    \<and> lr_reports r = []"
proof -
  have ab: "Extend accel b = Extend accel a" "Extend accel c = Extend accel a" by (rule Extend_address [OF assms])+
  obtain w w' where w: "AddRecords (Extend accel a) xs (NewLogWriter (Extend accel a) []) = Some w"
      "AddRecords (Extend accel a) ys (ReopenLogWriter (Extend accel a) (lw_dest w) (of_nat (length (lw_dest w)))) = Some w'"
      "length (lw_dest w) \<le> length (lw_dest w')"
    using checksum.reopened_log [OF checksum_Extend [OF assms]] by fastforce
  from checksum.read_reopened_log [OF checksum_Extend [OF assms] w, of verify] w show ?thesis
    unfolding ab by auto
qed

theorem log_roundtrip_witness:
  "\<exists>w w' r. AddRecords (Extend (\<lambda>_ _. 0) 1) [[1, 2], []] (NewLogWriter (Extend (\<lambda>_ _. 0) 1) []) = Some w
    \<and> AddRecords (Extend (\<lambda>_ _. 0) 2) [replicate 70000 7]
        (ReopenLogWriter (Extend (\<lambda>_ _. 0) 2) (lw_dest w) (of_nat (length (lw_dest w)))) = Some w'
    \<and> ReadRecords (log_env (Extend (\<lambda>_ _. 0) 3) True) (Suc (length ([[1 :: u8, 2], []] @ [replicate 70000 7])))
        (NewLogReader (log_env (Extend (\<lambda>_ _. 0) 3) True) (lw_dest w')) = Some ([[1, 2], []] @ [replicate 70000 7], True, r)
    \<and> lr_reports r = []"
  by (rule log_roundtrip [OF accelerator_ok_none])

text \<open>
  C7: recovery after a crash. If only the first \<open>k\<close> bytes of the log reached the disk, and \<open>k\<close> is at
  least the length the log had after the records \<open>xs\<close>, the reader returns all of \<open>xs\<close>, then a prefix
  of the records written later, and then the end of the log, with no corruption reported: an
  incomplete tail is never an error and never a wrong record.
\<close>

theorem log_torn_tail_recovery:
  assumes "accelerator_ok accel"
    and "AddRecords (Extend accel a) xs (NewLogWriter (Extend accel a) []) = Some w"
    and "AddRecords (Extend accel b) ys (ReopenLogWriter (Extend accel b) (lw_dest w) (of_nat (length (lw_dest w)))) = Some w'"
    and "length (lw_dest w) \<le> k"
  shows "\<exists>n r. ReadRecords (log_env (Extend accel c) verify) (Suc (length (xs @ ys)))
      (NewLogReader (log_env (Extend accel c) verify) (take k (lw_dest w'))) = Some (xs @ take n ys, True, r)
    \<and> lr_reports r = []"
proof -
  have ab: "Extend accel b = Extend accel a" "Extend accel c = Extend accel a" by (rule Extend_address [OF assms(1)])+
  show ?thesis
    using checksum.read_reopened_log [OF checksum_Extend [OF assms(1)], of a xs w ys w' k verify] assms(2-) unfolding ab
    by blast
qed

theorem log_torn_tail_recovery_witness:
  "\<exists>w w' n r. AddRecords (Extend (\<lambda>_ _. 0) 1) [[1, 2], []] (NewLogWriter (Extend (\<lambda>_ _. 0) 1) []) = Some w
    \<and> AddRecords (Extend (\<lambda>_ _. 0) 1) [replicate 70000 7]
        (ReopenLogWriter (Extend (\<lambda>_ _. 0) 1) (lw_dest w) (of_nat (length (lw_dest w)))) = Some w'
    \<and> ReadRecords (log_env (Extend (\<lambda>_ _. 0) 3) True) (Suc (length ([[1 :: u8, 2], []] @ [replicate 70000 7])))
        (NewLogReader (log_env (Extend (\<lambda>_ _. 0) 3) True) (take (length (lw_dest w) + 40000) (lw_dest w')))
      = Some ([[1, 2], []] @ take n [replicate 70000 7], True, r)
    \<and> lr_reports r = []"
proof -
  obtain w w' where w: "AddRecords (Extend (\<lambda>_ _. 0) 1) [[1, 2], []] (NewLogWriter (Extend (\<lambda>_ _. 0) 1) []) = Some w"
    "AddRecords (Extend (\<lambda>_ _. 0) 1) [replicate 70000 7]
      (ReopenLogWriter (Extend (\<lambda>_ _. 0) 1) (lw_dest w) (of_nat (length (lw_dest w)))) = Some w'"
    using checksum.reopened_log [OF checksum_Extend [OF accelerator_ok_none]] by blast
  from log_torn_tail_recovery [OF accelerator_ok_none w, of "length (lw_dest w) + 40000" 3 True]
  obtain n r where "ReadRecords (log_env (Extend (\<lambda>_ _. 0) 3) True) (Suc (length ([[1 :: u8, 2], []] @ [replicate 70000 7])))
        (NewLogReader (log_env (Extend (\<lambda>_ _. 0) 3) True) (take (length (lw_dest w) + 40000) (lw_dest w')))
      = Some ([[1, 2], []] @ take n [replicate 70000 7], True, r)" "lr_reports r = []"
    using le_add1 by blast
  with w show ?thesis by blast
qed

end
