(* ===== verification/Version_Edit.thy ===== *)
theory Version_Edit
  imports Db_Format Status "HOL-Library.Product_Lexorder"
begin

text \<open>
  The records of the manifest: \<open>db/version_edit.h\<close> and \<open>db/version_edit.cc\<close>. An edit collects the
  changes of a version; it is written as a sequence of tagged fields and read back in a loop. The
  ordered set of deleted files is the sorted list of its elements. A failed assertion is \<open>None\<close>;
  decoding returns the edit with its status, since a failed call leaves the fields read so far.
\<close>

section \<open>Internal keys that stand alone\<close>

definition InternalKeyDecodeFrom :: "bytes \<Rightarrow> bytes \<times> bool" where
  "InternalKeyDecodeFrom s = (s, s \<noteq> [])"

definition InternalKeyEncode :: "bytes \<Rightarrow> bytes option" where
  "InternalKeyEncode rep = (if rep = [] then None else Some rep)"

definition kNumLevels :: u32 where
  "kNumLevels = 7"

section \<open>Edits\<close>

datatype Tag = kComparator | kLogNumber | kNextFileNumber | kLastSequence | kCompactPointer | kDeletedFile
  | kNewFile | kPrevLogNumber

fun tag_number :: "Tag \<Rightarrow> u32" where
  "tag_number kComparator = 1"
| "tag_number kLogNumber = 2"
| "tag_number kNextFileNumber = 3"
| "tag_number kLastSequence = 4"
| "tag_number kCompactPointer = 5"
| "tag_number kDeletedFile = 6"
| "tag_number kNewFile = 7"
| "tag_number kPrevLogNumber = 9"

record FileMetaData =
  fm_refs :: int
  fm_allowed_seeks :: int
  fm_number :: u64
  fm_file_size :: u64
  fm_smallest :: bytes
  fm_largest :: bytes

record VersionEdit =
  ve_comparator :: bytes
  ve_log_number :: u64
  ve_prev_log_number :: u64
  ve_next_file_number :: u64
  ve_last_sequence :: u64
  ve_has_comparator :: bool
  ve_has_log_number :: bool
  ve_has_prev_log_number :: bool
  ve_has_next_file_number :: bool
  ve_has_last_sequence :: bool
  ve_compact_pointers :: "(int \<times> bytes) list"
  ve_deleted_files :: "(int \<times> u64) list"
  ve_new_files :: "(int \<times> FileMetaData) list"

text \<open>\<open>Clear\<close> leaves the compaction pointers alone.\<close>

definition VersionEditClear :: "VersionEdit \<Rightarrow> VersionEdit" where
  "VersionEditClear e =
     \<lparr>ve_comparator = [], ve_log_number = 0, ve_prev_log_number = 0, ve_next_file_number = 0, ve_last_sequence = 0,
      ve_has_comparator = False, ve_has_log_number = False, ve_has_prev_log_number = False,
      ve_has_next_file_number = False, ve_has_last_sequence = False,
      ve_compact_pointers = ve_compact_pointers e, ve_deleted_files = [], ve_new_files = []\<rparr>"

definition NewVersionEdit :: VersionEdit where
  "NewVersionEdit =
     \<lparr>ve_comparator = [], ve_log_number = 0, ve_prev_log_number = 0, ve_next_file_number = 0, ve_last_sequence = 0,
      ve_has_comparator = False, ve_has_log_number = False, ve_has_prev_log_number = False,
      ve_has_next_file_number = False, ve_has_last_sequence = False,
      ve_compact_pointers = [], ve_deleted_files = [], ve_new_files = []\<rparr>"

definition SetComparatorName :: "bytes \<Rightarrow> VersionEdit \<Rightarrow> VersionEdit" where
  "SetComparatorName name e = e\<lparr>ve_has_comparator := True, ve_comparator := name\<rparr>"

definition SetLogNumber :: "u64 \<Rightarrow> VersionEdit \<Rightarrow> VersionEdit" where
  "SetLogNumber num e = e\<lparr>ve_has_log_number := True, ve_log_number := num\<rparr>"

definition SetPrevLogNumber :: "u64 \<Rightarrow> VersionEdit \<Rightarrow> VersionEdit" where
  "SetPrevLogNumber num e = e\<lparr>ve_has_prev_log_number := True, ve_prev_log_number := num\<rparr>"

definition SetNextFile :: "u64 \<Rightarrow> VersionEdit \<Rightarrow> VersionEdit" where
  "SetNextFile num e = e\<lparr>ve_has_next_file_number := True, ve_next_file_number := num\<rparr>"

definition SetLastSequence :: "u64 \<Rightarrow> VersionEdit \<Rightarrow> VersionEdit" where
  "SetLastSequence seq e = e\<lparr>ve_has_last_sequence := True, ve_last_sequence := seq\<rparr>"

definition SetCompactPointer :: "int \<Rightarrow> bytes \<Rightarrow> VersionEdit \<Rightarrow> VersionEdit" where
  "SetCompactPointer level key e = e\<lparr>ve_compact_pointers := ve_compact_pointers e @ [(level, key)]\<rparr>"

definition NewFileMetaData :: "u64 \<Rightarrow> u64 \<Rightarrow> bytes \<Rightarrow> bytes \<Rightarrow> FileMetaData" where
  "NewFileMetaData number file_size smallest largest =
     \<lparr>fm_refs = 0, fm_allowed_seeks = 2 ^ 30, fm_number = number, fm_file_size = file_size,
      fm_smallest = smallest, fm_largest = largest\<rparr>"

definition AddFile :: "int \<Rightarrow> u64 \<Rightarrow> u64 \<Rightarrow> bytes \<Rightarrow> bytes \<Rightarrow> VersionEdit \<Rightarrow> VersionEdit" where
  "AddFile level file file_size smallest largest e =
     e\<lparr>ve_new_files := ve_new_files e @ [(level, NewFileMetaData file file_size smallest largest)]\<rparr>"

definition RemoveFile :: "int \<Rightarrow> u64 \<Rightarrow> VersionEdit \<Rightarrow> VersionEdit" where
  "RemoveFile level file e = e\<lparr>ve_deleted_files := insort_insert (level, file) (ve_deleted_files e)\<rparr>"

section \<open>Encoding\<close>

text \<open>The bodies of the three loops of \<open>EncodeTo\<close>.\<close>

definition put_compact_pointer :: "bytes \<Rightarrow> int \<times> bytes \<Rightarrow> bytes option" where
  "put_compact_pointer dst p =
     (let dst = PutVarint32 dst (tag_number kCompactPointer);
          dst = PutVarint32 dst (word_of_int (fst p))
      in map_option (PutLengthPrefixedSlice dst) (InternalKeyEncode (snd p)))"

definition put_deleted_file :: "bytes \<Rightarrow> int \<times> u64 \<Rightarrow> bytes" where
  "put_deleted_file dst p =
     (let dst = PutVarint32 dst (tag_number kDeletedFile);
          dst = PutVarint32 dst (word_of_int (fst p))
      in PutVarint64 dst (snd p))"

definition put_new_file :: "bytes \<Rightarrow> int \<times> FileMetaData \<Rightarrow> bytes option" where
  "put_new_file dst p =
     (let f = snd p;
          dst = PutVarint32 dst (tag_number kNewFile);
          dst = PutVarint32 dst (word_of_int (fst p));
          dst = PutVarint64 dst (fm_number f);
          dst = PutVarint64 dst (fm_file_size f)
      in Option.bind (InternalKeyEncode (fm_smallest f)) (\<lambda>smallest.
           let dst = PutLengthPrefixedSlice dst smallest in
           map_option (PutLengthPrefixedSlice dst) (InternalKeyEncode (fm_largest f))))"

fun put_all :: "(bytes \<Rightarrow> 'a \<Rightarrow> bytes option) \<Rightarrow> bytes \<Rightarrow> 'a list \<Rightarrow> bytes option" where
  "put_all put dst [] = Some dst"
| "put_all put dst (x # xs) = Option.bind (put dst x) (\<lambda>dst. put_all put dst xs)"

definition VersionEditEncodeTo :: "VersionEdit \<Rightarrow> bytes \<Rightarrow> bytes option" where
  "VersionEditEncodeTo e dst =
     (let dst = (if ve_has_comparator e
            then PutLengthPrefixedSlice (PutVarint32 dst (tag_number kComparator)) (ve_comparator e) else dst);
          dst = (if ve_has_log_number e
            then PutVarint64 (PutVarint32 dst (tag_number kLogNumber)) (ve_log_number e) else dst);
          dst = (if ve_has_prev_log_number e
            then PutVarint64 (PutVarint32 dst (tag_number kPrevLogNumber)) (ve_prev_log_number e) else dst);
          dst = (if ve_has_next_file_number e
            then PutVarint64 (PutVarint32 dst (tag_number kNextFileNumber)) (ve_next_file_number e) else dst);
          dst = (if ve_has_last_sequence e
            then PutVarint64 (PutVarint32 dst (tag_number kLastSequence)) (ve_last_sequence e) else dst)
      in Option.bind (put_all put_compact_pointer dst (ve_compact_pointers e)) (\<lambda>dst.
           let dst = foldl put_deleted_file dst (ve_deleted_files e) in
           put_all put_new_file dst (ve_new_files e)))"

section \<open>Decoding\<close>

definition GetInternalKey :: "bytes \<Rightarrow> (bytes \<times> bytes) option" where
  "GetInternalKey input =
     (case GetLengthPrefixedSlice input of
        None \<Rightarrow> None
      | Some (str, input) \<Rightarrow>
          (case InternalKeyDecodeFrom str of (key, valid) \<Rightarrow> if valid then Some (key, input) else None))"

definition GetLevel :: "bytes \<Rightarrow> (int \<times> bytes) option" where
  "GetLevel input =
     (case GetVarint32 input of
        None \<Rightarrow> None
      | Some (v, input) \<Rightarrow> if v < kNumLevels then Some (uint v, input) else None)"

text \<open>One round of the loop: the edit and the rest of the input, or the message.\<close>

definition decode_field :: "u32 \<Rightarrow> bytes \<Rightarrow> VersionEdit \<Rightarrow> string + VersionEdit \<times> bytes" where
  "decode_field tag input e =
     (if tag = tag_number kComparator then
        (case GetLengthPrefixedSlice input of
           Some (str, input) \<Rightarrow> Inr (e\<lparr>ve_comparator := str, ve_has_comparator := True\<rparr>, input)
         | None \<Rightarrow> Inl ''comparator name'')
      else if tag = tag_number kLogNumber then
        (case GetVarint64 input of
           Some (n, input) \<Rightarrow> Inr (e\<lparr>ve_log_number := n, ve_has_log_number := True\<rparr>, input)
         | None \<Rightarrow> Inl ''log number'')
      else if tag = tag_number kPrevLogNumber then
        (case GetVarint64 input of
           Some (n, input) \<Rightarrow> Inr (e\<lparr>ve_prev_log_number := n, ve_has_prev_log_number := True\<rparr>, input)
         | None \<Rightarrow> Inl ''previous log number'')
      else if tag = tag_number kNextFileNumber then
        (case GetVarint64 input of
           Some (n, input) \<Rightarrow> Inr (e\<lparr>ve_next_file_number := n, ve_has_next_file_number := True\<rparr>, input)
         | None \<Rightarrow> Inl ''next file number'')
      else if tag = tag_number kLastSequence then
        (case GetVarint64 input of
           Some (n, input) \<Rightarrow> Inr (e\<lparr>ve_last_sequence := n, ve_has_last_sequence := True\<rparr>, input)
         | None \<Rightarrow> Inl ''last sequence number'')
      else if tag = tag_number kCompactPointer then
        (case do { (level, input) \<leftarrow> GetLevel input; (key, input) \<leftarrow> GetInternalKey input; Some (level, key, input) } of
           Some (level, key, input) \<Rightarrow> Inr (e\<lparr>ve_compact_pointers := ve_compact_pointers e @ [(level, key)]\<rparr>, input)
         | None \<Rightarrow> Inl ''compaction pointer'')
      else if tag = tag_number kDeletedFile then
        (case do { (level, input) \<leftarrow> GetLevel input; (number, input) \<leftarrow> GetVarint64 input; Some (level, number, input) } of
           Some (level, number, input) \<Rightarrow>
             Inr (e\<lparr>ve_deleted_files := insort_insert (level, number) (ve_deleted_files e)\<rparr>, input)
         | None \<Rightarrow> Inl ''deleted file'')
      else if tag = tag_number kNewFile then
        (case do { (level, input) \<leftarrow> GetLevel input; (number, input) \<leftarrow> GetVarint64 input;
                   (file_size, input) \<leftarrow> GetVarint64 input; (smallest, input) \<leftarrow> GetInternalKey input;
                   (largest, input) \<leftarrow> GetInternalKey input;
                   Some (level, NewFileMetaData number file_size smallest largest, input) } of
           Some (level, f, input) \<Rightarrow> Inr (e\<lparr>ve_new_files := ve_new_files e @ [(level, f)]\<rparr>, input)
         | None \<Rightarrow> Inl ''new-file entry'')
      else Inl ''unknown tag'')"

lemma GetInternalKey_shorter: "GetInternalKey input = Some (k, rest) \<Longrightarrow> length rest < length input"
  by (auto simp: GetInternalKey_def InternalKeyDecodeFrom_def split: option.splits if_splits dest: decoders_shorter)

lemma GetLevel_shorter: "GetLevel input = Some (l, rest) \<Longrightarrow> length rest < length input"
  by (auto simp: GetLevel_def split: option.splits if_splits dest: decoders_shorter)

lemma decode_field_shorter: "decode_field tag input e = Inr (e', rest) \<Longrightarrow> length rest < length input"
  by (fastforce simp: decode_field_def bind_eq_Some_conv split: if_splits option.splits
      dest!: decoders_shorter GetInternalKey_shorter GetLevel_shorter)

function decode_edit_loop :: "bytes \<Rightarrow> VersionEdit \<Rightarrow> VersionEdit \<times> string option \<times> bytes" where
  "decode_edit_loop input e =
     (case GetVarint32 input of
        None \<Rightarrow> (e, None, input)
      | Some (tag, input) \<Rightarrow>
          (case decode_field tag input e of
             Inl msg \<Rightarrow> (e, Some msg, input)
           | Inr (e, input) \<Rightarrow> decode_edit_loop input e))"
  by pat_completeness auto
termination
  by (relation "measure (\<lambda>(input, _). length input)") (auto dest!: decoders_shorter decode_field_shorter)

declare decode_edit_loop.simps [simp del]

definition VersionEditDecodeFrom :: "bytes \<Rightarrow> VersionEdit \<Rightarrow> VersionEdit \<times> Status" where
  "VersionEditDecodeFrom src e =
     (case decode_edit_loop src (VersionEditClear e) of (e, msg, input) \<Rightarrow>
        let msg = (if msg = None \<and> input \<noteq> [] then Some ''invalid tag'' else msg)
        in (e, case msg of None \<Rightarrow> OK | Some m \<Rightarrow> Corruption (''VersionEdit'' @ '': '' @ m)))"

section \<open>Edits as sequences of changes\<close>

datatype edit_op =
    ComparatorOp bytes | LogNumberOp u64 | PrevLogNumberOp u64 | NextFileOp u64 | LastSequenceOp u64
  | CompactPointerOp int bytes | RemoveFileOp int u64 | AddFileOp int u64 u64 bytes bytes

fun apply_edit :: "edit_op \<Rightarrow> VersionEdit \<Rightarrow> VersionEdit" where
  "apply_edit (ComparatorOp name) e = SetComparatorName name e"
| "apply_edit (LogNumberOp n) e = SetLogNumber n e"
| "apply_edit (PrevLogNumberOp n) e = SetPrevLogNumber n e"
| "apply_edit (NextFileOp n) e = SetNextFile n e"
| "apply_edit (LastSequenceOp n) e = SetLastSequence n e"
| "apply_edit (CompactPointerOp l k) e = SetCompactPointer l k e"
| "apply_edit (RemoveFileOp l n) e = RemoveFile l n e"
| "apply_edit (AddFileOp l n sz a b) e = AddFile l n sz a b e"

definition edit_key_ok :: "bytes \<Rightarrow> bool" where
  "edit_key_ok k \<longleftrightarrow> k \<noteq> [] \<and> length k < 2 ^ 32"

definition level_ok :: "int \<Rightarrow> bool" where
  "level_ok l \<longleftrightarrow> 0 \<le> l \<and> l < 7"

fun edit_op_ok :: "edit_op \<Rightarrow> bool" where
  "edit_op_ok (ComparatorOp name) \<longleftrightarrow> length name < 2 ^ 32"
| "edit_op_ok (CompactPointerOp l k) \<longleftrightarrow> level_ok l \<and> edit_key_ok k"
| "edit_op_ok (RemoveFileOp l n) \<longleftrightarrow> level_ok l"
| "edit_op_ok (AddFileOp l n sz a b) \<longleftrightarrow> level_ok l \<and> edit_key_ok a \<and> edit_key_ok b"
| "edit_op_ok _ \<longleftrightarrow> True"

abbreviation sliced :: "bytes \<Rightarrow> bytes" where
  "sliced s \<equiv> EncodeVarint32 (of_nat (length s)) @ s"

fun edit_op_tag :: "edit_op \<Rightarrow> u32" where
  "edit_op_tag (ComparatorOp _) = 1"
| "edit_op_tag (LogNumberOp _) = 2"
| "edit_op_tag (PrevLogNumberOp _) = 9"
| "edit_op_tag (NextFileOp _) = 3"
| "edit_op_tag (LastSequenceOp _) = 4"
| "edit_op_tag (CompactPointerOp _ _) = 5"
| "edit_op_tag (RemoveFileOp _ _) = 6"
| "edit_op_tag (AddFileOp _ _ _ _ _) = 7"

fun edit_op_body :: "edit_op \<Rightarrow> bytes" where
  "edit_op_body (ComparatorOp name) = sliced name"
| "edit_op_body (LogNumberOp n) = EncodeVarint64 n"
| "edit_op_body (PrevLogNumberOp n) = EncodeVarint64 n"
| "edit_op_body (NextFileOp n) = EncodeVarint64 n"
| "edit_op_body (LastSequenceOp n) = EncodeVarint64 n"
| "edit_op_body (CompactPointerOp l k) = EncodeVarint32 (word_of_int l) @ sliced k"
| "edit_op_body (RemoveFileOp l n) = EncodeVarint32 (word_of_int l) @ EncodeVarint64 n"
| "edit_op_body (AddFileOp l n sz a b) =
     EncodeVarint32 (word_of_int l) @ EncodeVarint64 n @ EncodeVarint64 sz @ sliced a @ sliced b"

definition edit_op_bytes :: "edit_op \<Rightarrow> bytes" where
  "edit_op_bytes op = EncodeVarint32 (edit_op_tag op) @ edit_op_body op"

lemmas edit_setters = SetComparatorName_def SetLogNumber_def SetPrevLogNumber_def SetNextFile_def SetLastSequence_def
  SetCompactPointer_def RemoveFile_def AddFile_def

lemma GetSlice_sliced: "length s < 2 ^ 32 \<Longrightarrow> GetLengthPrefixedSlice (EncodeVarint32 (of_nat (length s)) @ s @ rest) = Some (s, rest)"
  by (simp add: GetLengthPrefixedSlice_def unat_of_nat_small)

lemma GetInternalKey_sliced:
  "edit_key_ok k \<Longrightarrow> GetInternalKey (EncodeVarint32 (of_nat (length k)) @ k @ rest) = Some (k, rest)"
  by (simp add: GetInternalKey_def InternalKeyDecodeFrom_def GetSlice_sliced edit_key_ok_def)

lemma GetLevel_encode: "level_ok l \<Longrightarrow> GetLevel (EncodeVarint32 (word_of_int l) @ rest) = Some (l, rest)"
proof -
  assume l: "level_ok l"
  then have u: "uint (word_of_int l :: u32) = l"
    by (auto simp: level_ok_def uint_word_of_int)
  with l have "(word_of_int l :: u32) < kNumLevels" by (simp add: kNumLevels_def word_less_alt level_ok_def)
  with u show ?thesis by (simp add: GetLevel_def)
qed

lemma decode_op:
  "edit_op_ok op \<Longrightarrow> decode_field (edit_op_tag op) (edit_op_body op @ rest) e = Inr (apply_edit op e, rest)"
  by (cases op)
    (simp_all add: decode_field_def edit_setters GetSlice_sliced GetInternalKey_sliced GetLevel_encode)

lemma decode_edit_loop_ops:
  "\<forall>op \<in> set ops. edit_op_ok op \<Longrightarrow>
    decode_edit_loop (concat (map edit_op_bytes ops)) e = (fold apply_edit ops e, None, [])"
proof (induction ops arbitrary: e)
  case Nil
  then show ?case by (simp add: decode_edit_loop.simps [of "[]"] GetVarint32_def GetVarint32Ptr_def GetVarint32PtrFallback_def)
next
  case (Cons op ops)
  then show ?case by (subst decode_edit_loop.simps) (simp add: edit_op_bytes_def [of op] decode_op)
qed

text \<open>The changes that \<open>EncodeTo\<close> writes, in its order, and the edits it writes completely.\<close>

definition scalar_ops :: "VersionEdit \<Rightarrow> edit_op list" where
  "scalar_ops e =
     (if ve_has_comparator e then [ComparatorOp (ve_comparator e)] else [])
     @ (if ve_has_log_number e then [LogNumberOp (ve_log_number e)] else [])
     @ (if ve_has_prev_log_number e then [PrevLogNumberOp (ve_prev_log_number e)] else [])
     @ (if ve_has_next_file_number e then [NextFileOp (ve_next_file_number e)] else [])
     @ (if ve_has_last_sequence e then [LastSequenceOp (ve_last_sequence e)] else [])"

definition edit_ops :: "VersionEdit \<Rightarrow> edit_op list" where
  "edit_ops e = scalar_ops e
     @ map (\<lambda>(l, k). CompactPointerOp l k) (ve_compact_pointers e)
     @ map (\<lambda>(l, n). RemoveFileOp l n) (ve_deleted_files e)
     @ map (\<lambda>(l, f). AddFileOp l (fm_number f) (fm_file_size f) (fm_smallest f) (fm_largest f)) (ve_new_files e)"

definition edit_wf :: "VersionEdit \<Rightarrow> bool" where
  "edit_wf e \<longleftrightarrow> (if ve_has_comparator e then length (ve_comparator e) < 2 ^ 32 else ve_comparator e = [])
     \<and> (ve_has_log_number e \<or> ve_log_number e = 0) \<and> (ve_has_prev_log_number e \<or> ve_prev_log_number e = 0)
     \<and> (ve_has_next_file_number e \<or> ve_next_file_number e = 0) \<and> (ve_has_last_sequence e \<or> ve_last_sequence e = 0)
     \<and> (\<forall>(l, k) \<in> set (ve_compact_pointers e). level_ok l \<and> edit_key_ok k)
     \<and> (\<forall>(l, n) \<in> set (ve_deleted_files e). level_ok l)
     \<and> sorted (ve_deleted_files e) \<and> distinct (ve_deleted_files e)
     \<and> (\<forall>(l, f) \<in> set (ve_new_files e). level_ok l \<and> edit_key_ok (fm_smallest f) \<and> edit_key_ok (fm_largest f)
          \<and> fm_refs f = 0 \<and> fm_allowed_seeks f = 2 ^ 30)"

lemma edit_wf_new: "edit_wf NewVersionEdit"
  by (simp add: edit_wf_def NewVersionEdit_def)

lemma edit_wf_apply: "edit_wf e \<Longrightarrow> edit_op_ok op \<Longrightarrow> edit_wf (apply_edit op e)"
  by (cases op) (auto simp: edit_wf_def edit_setters NewFileMetaData_def sorted_insort_insert
      distinct_insort_insert set_insort_insert)

lemma edit_wf_fold: "edit_wf e \<Longrightarrow> \<forall>op \<in> set ops. edit_op_ok op \<Longrightarrow> edit_wf (fold apply_edit ops e)"
  by (induction ops arbitrary: e) (auto simp: edit_wf_apply)

lemma edit_ops_ok: "edit_wf e \<Longrightarrow> \<forall>op \<in> set (edit_ops e). edit_op_ok op"
  by (auto simp: edit_wf_def edit_ops_def scalar_ops_def split: if_splits)

lemma put_compact_pointers:
  "\<forall>(l, k) \<in> set xs. level_ok l \<and> edit_key_ok k \<Longrightarrow>
    put_all put_compact_pointer dst xs = Some (dst @ concat (map (edit_op_bytes \<circ> (\<lambda>(l, k). CompactPointerOp l k)) xs))"
  by (induction xs arbitrary: dst)
    (auto simp: put_compact_pointer_def InternalKeyEncode_def edit_key_ok_def PutVarint32_def
      PutLengthPrefixedSlice_def edit_op_bytes_def)

lemma put_deleted_files:
  "foldl put_deleted_file dst xs = dst @ concat (map (edit_op_bytes \<circ> (\<lambda>(l, n). RemoveFileOp l n)) xs)"
  by (induction xs arbitrary: dst)
    (auto simp: put_deleted_file_def PutVarint32_def PutVarint64_def edit_op_bytes_def)

lemma put_new_files:
  "\<forall>(l, f) \<in> set xs. edit_key_ok (fm_smallest f) \<and> edit_key_ok (fm_largest f) \<Longrightarrow>
    put_all put_new_file dst xs = Some (dst @ concat (map (edit_op_bytes
      \<circ> (\<lambda>(l, f). AddFileOp l (fm_number f) (fm_file_size f) (fm_smallest f) (fm_largest f))) xs))"
  by (induction xs arbitrary: dst)
    (auto simp: put_new_file_def InternalKeyEncode_def edit_key_ok_def PutVarint32_def PutVarint64_def
      PutLengthPrefixedSlice_def edit_op_bytes_def Let_def)

lemma EncodeTo_ops:
  assumes "edit_wf e"
  shows "VersionEditEncodeTo e dst = Some (dst @ concat (map edit_op_bytes (edit_ops e)))"
proof -
  have c: "\<forall>(l, k) \<in> set (ve_compact_pointers e). level_ok l \<and> edit_key_ok k"
    and n: "\<forall>(l, f) \<in> set (ve_new_files e). edit_key_ok (fm_smallest f) \<and> edit_key_ok (fm_largest f)"
    using assms by (auto simp: edit_wf_def)
  show ?thesis
    unfolding VersionEditEncodeTo_def Let_def put_compact_pointers [OF c] bind.bind_lunit put_new_files [OF n] put_deleted_files
    by (simp add: edit_ops_def scalar_ops_def edit_op_bytes_def PutVarint32_def PutVarint64_def PutLengthPrefixedSlice_def)
qed

lemma replay_compact_pointers:
  "fold apply_edit (map (\<lambda>(l, k). CompactPointerOp l k) xs) e = e\<lparr>ve_compact_pointers := ve_compact_pointers e @ xs\<rparr>"
  by (induction xs arbitrary: e) (auto simp: edit_setters)

lemma insort_insert_last:
  "sorted (ys @ [x]) \<Longrightarrow> distinct (ys @ [x]) \<Longrightarrow> insort_insert x ys = ys @ [x]"
  by (simp add: insort_insert_key_def sorted_append sorted_insort_is_snoc)

lemma replay_deleted_files:
  "sorted (ve_deleted_files e @ xs) \<Longrightarrow> distinct (ve_deleted_files e @ xs) \<Longrightarrow>
    fold apply_edit (map (\<lambda>(l, n). RemoveFileOp l n) xs) e = e\<lparr>ve_deleted_files := ve_deleted_files e @ xs\<rparr>"
proof (induction xs arbitrary: e)
  case (Cons x xs)
  have "insort_insert x (ve_deleted_files e) = ve_deleted_files e @ [x]"
    using Cons.prems by (intro insort_insert_last) (auto simp: sorted_append)
  then show ?case
    using Cons.prems Cons.IH [of "RemoveFile (fst x) (snd x) e"] by (simp add: edit_setters case_prod_unfold)
qed simp

lemma replay_new_files:
  "\<forall>(l, f) \<in> set xs. fm_refs f = 0 \<and> fm_allowed_seeks f = 2 ^ 30 \<Longrightarrow>
    fold apply_edit (map (\<lambda>(l, f). AddFileOp l (fm_number f) (fm_file_size f) (fm_smallest f) (fm_largest f)) xs) e
      = e\<lparr>ve_new_files := ve_new_files e @ xs\<rparr>"
  by (induction xs arbitrary: e) (auto simp: edit_setters NewFileMetaData_def)

lemma replay_scalars:
  assumes "edit_wf e"
  shows "fold apply_edit (scalar_ops e) (VersionEditClear e0)
    = e\<lparr>ve_compact_pointers := ve_compact_pointers e0, ve_deleted_files := [], ve_new_files := []\<rparr>"
  using assms by (cases e) (auto simp: scalar_ops_def VersionEditClear_def edit_setters edit_wf_def)

lemma replay_edit:
  assumes "edit_wf e"
  shows "fold apply_edit (edit_ops e) (VersionEditClear e0)
    = e\<lparr>ve_compact_pointers := ve_compact_pointers e0 @ ve_compact_pointers e\<rparr>"
proof -
  have n: "\<forall>(l, f) \<in> set (ve_new_files e). fm_refs f = 0 \<and> fm_allowed_seeks f = 2 ^ 30"
    and d: "sorted (ve_deleted_files e)" "distinct (ve_deleted_files e)"
    using assms by (auto simp: edit_wf_def)
  show ?thesis
    using d replay_deleted_files [of "e\<lparr>ve_deleted_files := [], ve_new_files := [],
      ve_compact_pointers := ve_compact_pointers e0 @ ve_compact_pointers e\<rparr>" "ve_deleted_files e"]
    by (simp add: edit_ops_def replay_scalars [OF assms] replay_compact_pointers replay_new_files [OF n])
qed

text \<open>Conversely, every round of the decoder makes a change that the setters allow.\<close>

definition edit_step :: "VersionEdit \<Rightarrow> VersionEdit \<Rightarrow> bool" where
  "edit_step e e' \<longleftrightarrow> (\<exists>op. edit_op_ok op \<and> e' = apply_edit op e)"

lemma edit_stepI: "edit_op_ok op \<Longrightarrow> edit_step e (apply_edit op e)"
  by (auto simp: edit_step_def)

lemma scalar_steps:
  "length s < 2 ^ 32 \<Longrightarrow> edit_step e (e\<lparr>ve_comparator := s, ve_has_comparator := True\<rparr>)"
  "edit_step e (e\<lparr>ve_log_number := n, ve_has_log_number := True\<rparr>)"
  "edit_step e (e\<lparr>ve_prev_log_number := n, ve_has_prev_log_number := True\<rparr>)"
  "edit_step e (e\<lparr>ve_next_file_number := n, ve_has_next_file_number := True\<rparr>)"
  "edit_step e (e\<lparr>ve_last_sequence := n, ve_has_last_sequence := True\<rparr>)"
  using edit_stepI [of "ComparatorOp s" e] edit_stepI [of "LogNumberOp n" e] edit_stepI [of "PrevLogNumberOp n" e]
    edit_stepI [of "NextFileOp n" e] edit_stepI [of "LastSequenceOp n" e]
  by (cases e; simp add: edit_setters)+

lemmas edit_steps = scalar_steps
  edit_stepI [of "CompactPointerOp _ _", unfolded apply_edit.simps edit_setters edit_op_ok.simps]
  edit_stepI [of "RemoveFileOp _ _", unfolded apply_edit.simps edit_setters edit_op_ok.simps]
  edit_stepI [of "AddFileOp _ _ _ _ _", unfolded apply_edit.simps edit_setters edit_op_ok.simps]

lemma GetSlice_ok: "GetLengthPrefixedSlice input = Some (str, rest) \<Longrightarrow> length str < 2 ^ 32"
  using unsigned_less [where 'a = nat and 'b = 32]
  by (auto simp: GetLengthPrefixedSlice_def min_def split: option.splits if_splits)

lemma GetInternalKey_ok: "GetInternalKey input = Some (k, rest) \<Longrightarrow> edit_key_ok k"
  by (auto simp: GetInternalKey_def InternalKeyDecodeFrom_def edit_key_ok_def split: option.splits if_splits dest: GetSlice_ok)

lemma GetLevel_ok: "GetLevel input = Some (l, rest) \<Longrightarrow> level_ok l"
  by (auto simp: GetLevel_def level_ok_def kNumLevels_def word_less_alt split: option.splits if_splits)

lemma decode_field_step: "decode_field tag input e = Inr (e', rest) \<Longrightarrow> edit_step e e'"
  unfolding decode_field_def
  by (auto simp: bind_eq_Some_conv split: if_splits option.splits
      intro!: edit_steps dest: GetSlice_ok GetInternalKey_ok GetLevel_ok)

lemma decode_edit_loop_steps:
  "decode_edit_loop input e = (e', msg, rest) \<Longrightarrow> \<exists>ops. (\<forall>op \<in> set ops. edit_op_ok op) \<and> e' = fold apply_edit ops e"
proof (induction input e rule: decode_edit_loop.induct)
  case (1 input e)
  show ?case
  proof (cases "\<exists>tag rest1 e1 rest2. GetVarint32 input = Some (tag, rest1) \<and> decode_field tag rest1 e = Inr (e1, rest2)")
    case True
    then obtain tag rest1 e1 rest2 where
      s: "GetVarint32 input = Some (tag, rest1)" "decode_field tag rest1 e = Inr (e1, rest2)" by blast
    from decode_field_step [OF s(2)] obtain op where op: "edit_op_ok op" "e1 = apply_edit op e" by (auto simp: edit_step_def)
    have "decode_edit_loop rest2 e1 = (e', msg, rest)" using "1.prems" s by (simp add: decode_edit_loop.simps [of input])
    with "1.IH" [OF s(1) refl s(2) refl] obtain ops where "\<forall>op \<in> set ops. edit_op_ok op" "e' = fold apply_edit ops e1" by blast
    with op show ?thesis by (intro exI [of _ "op # ops"]) simp
  next
    case False
    with "1.prems" have "e' = e"
      by (auto simp: decode_edit_loop.simps [of input] split: option.splits sum.splits)
    then show ?thesis by (intro exI [of _ "[]"]) simp
  qed
qed

lemma decode_wf:
  assumes "VersionEditDecodeFrom src NewVersionEdit = (e, s)"
  shows "edit_wf e"
proof -
  obtain e' msg rest where "decode_edit_loop src (VersionEditClear NewVersionEdit) = (e', msg, rest)"
    by (metis prod_cases3)
  moreover from this assms have "e' = e" by (auto simp: VersionEditDecodeFrom_def Let_def)
  moreover have "VersionEditClear NewVersionEdit = NewVersionEdit" by (simp add: VersionEditClear_def NewVersionEdit_def)
  ultimately show ?thesis using decode_edit_loop_steps edit_wf_fold [OF edit_wf_new] by metis
qed

lemma encode_decode_wf:
  assumes "edit_wf e"
  shows "\<exists>b. VersionEditEncodeTo e [] = Some b
    \<and> VersionEditDecodeFrom b e0 = (e\<lparr>ve_compact_pointers := ve_compact_pointers e0 @ ve_compact_pointers e\<rparr>, OK)"
  using EncodeTo_ops [OF assms, of "[]"] decode_edit_loop_ops [OF edit_ops_ok [OF assms], of "VersionEditClear e0"]
  by (simp add: VersionEditDecodeFrom_def replay_edit [OF assms])

section \<open>Properties\<close>

text \<open>
  C39: an edit is read back as it was written. Whatever the setters put into an edit, with levels
  below \<open>kNumLevels\<close> and keys that are not empty, \<open>EncodeTo\<close> writes it without a failed assertion and
  \<open>DecodeFrom\<close> returns OK with the same fields, the same files in the same order and the deleted files
  as an ordered set. The compaction pointers are added to those the receiving edit already has.
\<close>

theorem version_edit_roundtrip:
  assumes "\<forall>op \<in> set ops. edit_op_ok op" "e = fold apply_edit ops NewVersionEdit"
  shows "\<exists>b. VersionEditEncodeTo e [] = Some b
    \<and> VersionEditDecodeFrom b e0 = (e\<lparr>ve_compact_pointers := ve_compact_pointers e0 @ ve_compact_pointers e\<rparr>, OK)"
  using encode_decode_wf [OF edit_wf_fold [OF edit_wf_new assms(1)]] assms(2) by simp

theorem version_edit_roundtrip_witness:
  "\<exists>b. VersionEditEncodeTo (AddFile 2 7 100 [1] [2] (RemoveFile 1 5 (SetLogNumber 9 NewVersionEdit))) [] = Some b
    \<and> VersionEditDecodeFrom b NewVersionEdit
      = (AddFile 2 7 100 [1] [2] (RemoveFile 1 5 (SetLogNumber 9 NewVersionEdit)), OK)"
  using version_edit_roundtrip [of "[LogNumberOp 9, RemoveFileOp 1 5, AddFileOp 2 7 100 [1] [2]]" _ NewVersionEdit, OF _ refl]
  by (simp add: level_ok_def edit_key_ok_def edit_setters NewVersionEdit_def)

text \<open>
  C40: decoding ends on every byte string, corrupt or not, and what it leaves in a new edit is always
  an edit that can be written: encoding it succeeds and decoding that gives the same edit and OK.
\<close>

theorem version_edit_decode_stable:
  "case VersionEditDecodeFrom src NewVersionEdit of (e, s) \<Rightarrow>
     \<exists>b. VersionEditEncodeTo e [] = Some b \<and> VersionEditDecodeFrom b NewVersionEdit = (e, OK)"
proof -
  obtain e s where d: "VersionEditDecodeFrom src NewVersionEdit = (e, s)" by fastforce
  have "ve_compact_pointers NewVersionEdit = []" by (simp add: NewVersionEdit_def)
  with encode_decode_wf [OF decode_wf [OF d], of NewVersionEdit] show ?thesis by (simp add: d)
qed

end
