(* ===== verification/Cache.thy ===== *)
theory Cache
  imports "HOL-Library.Word"
begin

text \<open>
  The interface of a cache, \<open>include/leveldb/cache.h\<close>: the operations as a record, which a table
  reader takes as an argument, and their contract as a locale. \<open>None\<close> is a failed assertion or an
  access to freed memory. \<open>held c h\<close> counts the handles given out for an entry and not released,
  \<open>cached c k v\<close> says that a lookup of \<open>k\<close> returns \<open>v\<close>, and \<open>room\<close> bounds what the counters of the
  cache can take.
\<close>

record ('k, 'v, 'h, 'c) cache_ops =
  co_insert :: "'k \<Rightarrow> 'v \<Rightarrow> nat \<Rightarrow> 'c \<Rightarrow> ('h \<times> 'c) option"
  co_lookup :: "'k \<Rightarrow> 'c \<Rightarrow> ('h option \<times> 'c) option"
  co_release :: "'h \<Rightarrow> 'c \<Rightarrow> 'c option"
  co_value :: "'h \<Rightarrow> 'c \<Rightarrow> 'v option"
  co_new_id :: "'c \<Rightarrow> 64 word \<times> 'c"

locale cache =
  fixes ops :: "('k, 'v, 'h, 'c) cache_ops"
    and cinv :: "'c \<Rightarrow> bool"
    and room :: "'c \<Rightarrow> bool"
    and held :: "'c \<Rightarrow> 'h \<Rightarrow> nat"
    and cached :: "'c \<Rightarrow> 'k \<Rightarrow> 'v \<Rightarrow> bool"
  assumes lookup: "cinv c \<Longrightarrow> room c \<Longrightarrow> \<exists>r c'. co_lookup ops k c = Some (r, c') \<and> cinv c' \<and> cached c' = cached c
      \<and> (case r of
           None \<Rightarrow> c' = c \<and> (\<forall>v. \<not> cached c k v)
         | Some h \<Rightarrow> held c' = (held c)(h := Suc (held c h)) \<and> (\<exists>v. co_value ops h c' = Some v \<and> cached c k v))"
    and insert: "cinv c \<Longrightarrow> room c \<Longrightarrow> \<exists>h c'. co_insert ops k v n c = Some (h, c') \<and> cinv c' \<and> held c h = 0
      \<and> held c' = (held c)(h := 1) \<and> co_value ops h c' = Some v
      \<and> (\<forall>k' v'. cached c' k' v' \<longrightarrow> cached c k' v' \<or> k' = k \<and> v' = v)"
    and release: "cinv c \<Longrightarrow> 0 < held c h \<Longrightarrow> \<exists>c'. co_release ops h c = Some c' \<and> cinv c'
      \<and> held c' = (held c)(h := held c h - 1) \<and> cached c' = cached c"
begin

text \<open>A lookup, and an insertion, that is released again leaves the handles as they were.\<close>

lemma lookup_release:
  assumes "cinv c" "room c" "co_lookup ops k c = Some (Some h, c')"
  shows "\<exists>v c''. co_value ops h c' = Some v \<and> cached c k v \<and> co_release ops h c' = Some c'' \<and> cinv c''
    \<and> held c'' = held c \<and> cached c'' = cached c"
proof -
  from lookup [OF assms(1,2), of k] assms(3) obtain v where
    c': "cinv c'" "cached c' = cached c" "held c' = (held c)(h := Suc (held c h))" "co_value ops h c' = Some v" "cached c k v"
    by auto
  moreover from this release [of c' h] obtain c'' where "co_release ops h c' = Some c''" "cinv c''"
    "held c'' = (held c')(h := held c' h - 1)" "cached c'' = cached c'" by auto
  ultimately show ?thesis by auto
qed

lemma insert_release:
  assumes "cinv c" "room c"
  shows "\<exists>h c' c''. co_insert ops k v n c = Some (h, c') \<and> co_value ops h c' = Some v \<and> co_release ops h c' = Some c''
    \<and> cinv c'' \<and> held c'' = held c \<and> (\<forall>k' v'. cached c'' k' v' \<longrightarrow> cached c k' v' \<or> k' = k \<and> v' = v)"
proof -
  from insert [OF assms, of k v n] obtain h c' where c': "co_insert ops k v n c = Some (h, c')" "cinv c'" "held c h = 0"
    "held c' = (held c)(h := 1)" "co_value ops h c' = Some v"
    "\<forall>k' v'. cached c' k' v' \<longrightarrow> cached c k' v' \<or> k' = k \<and> v' = v" by blast
  moreover from release [OF c'(2), of h] c'(4) obtain c'' where "co_release ops h c' = Some c''" "cinv c''"
    "held c'' = (held c')(h := held c' h - 1)" "cached c'' = cached c'" by auto
  moreover from this(3) have "held c'' = held c" using c'(3,4) by auto
  ultimately show ?thesis by auto
qed

end

end
