(* ===== verification/Block.thy ===== *)
theory Block
  imports Db_Format
begin

text \<open>
  Prefix-compressed key-value blocks: \<open>table/block_builder.cc\<close> and \<open>table/block.cc\<close>. The builder
  stores each key without the prefix it shares with its predecessor and notes an uncompressed
  restart point at every \<open>block_restart_interval\<close> entries; the iterator decodes entries in order and
  seeks by binary search over the restart points. The comparator is an argument. \<open>None\<close> is a failed
  assertion or a read outside the block. Offsets are natural numbers, truncated where the C++
  converts to \<open>uint32_t\<close>.
\<close>

section \<open>The builder\<close>

record BlockBuilder =
  bb_buffer :: bytes
  bb_restarts :: "u32 list"
  bb_counter :: nat
  bb_finished :: bool
  bb_last_key :: bytes

definition NewBlockBuilder :: BlockBuilder where
  "NewBlockBuilder = \<lparr>bb_buffer = [], bb_restarts = [0], bb_counter = 0, bb_finished = False, bb_last_key = []\<rparr>"

definition BlockBuilderReset :: "BlockBuilder \<Rightarrow> BlockBuilder" where
  "BlockBuilderReset b =
     b\<lparr>bb_buffer := [], bb_restarts := [0], bb_counter := 0, bb_finished := False, bb_last_key := []\<rparr>"

definition CurrentSizeEstimate :: "BlockBuilder \<Rightarrow> nat" where
  "CurrentSizeEstimate b = length (bb_buffer b) + length (bb_restarts b) * 4 + 4"

definition BlockBuilderFinish :: "BlockBuilder \<Rightarrow> BlockBuilder \<times> bytes" where
  "BlockBuilderFinish b =
     (let buffer = fold (\<lambda>r buf. PutFixed32 buf r) (bb_restarts b) (bb_buffer b);
          buffer = PutFixed32 buffer (of_nat (length (bb_restarts b)))
      in (b\<lparr>bb_buffer := buffer, bb_finished := True\<rparr>, buffer))"

function shared_loop :: "bytes \<Rightarrow> bytes \<Rightarrow> nat \<Rightarrow> nat \<Rightarrow> nat" where
  "shared_loop last_key_piece key min_length shared =
     (if shared < min_length \<and> last_key_piece ! shared = key ! shared
      then shared_loop last_key_piece key min_length (shared + 1) else shared)"
  by pat_completeness auto
termination by (relation "measure (\<lambda>(_, _, min_length, shared). min_length - shared)") auto

declare shared_loop.simps [simp del]

definition BlockBuilderAdd ::
    "nat \<Rightarrow> (bytes \<Rightarrow> bytes \<Rightarrow> int) \<Rightarrow> bytes \<Rightarrow> bytes \<Rightarrow> BlockBuilder \<Rightarrow> BlockBuilder option" where
  "BlockBuilderAdd block_restart_interval compare key value b =
     (let last_key_piece = bb_last_key b in
      if bb_finished b \<or> bb_counter b > block_restart_interval
         \<or> \<not> (bb_buffer b = [] \<or> compare key last_key_piece > 0) then None
      else
        let compress = bb_counter b < block_restart_interval;
            shared = (if compress
              then shared_loop last_key_piece key (min (length last_key_piece) (length key)) 0 else 0);
            restarts = (if compress then bb_restarts b
              else bb_restarts b @ [of_nat (length (bb_buffer b))]);
            counter = (if compress then bb_counter b else 0);
            non_shared = length key - shared;
            buffer = PutVarint32 (bb_buffer b) (of_nat shared);
            buffer = PutVarint32 buffer (of_nat non_shared);
            buffer = PutVarint32 buffer (of_nat (length value));
            buffer = buffer @ drop shared key;
            buffer = buffer @ value;
            last_key = take shared last_key_piece @ drop shared key
        in if last_key \<noteq> key then None
           else Some \<lparr>bb_buffer = buffer, bb_restarts = restarts, bb_counter = counter + 1,
                      bb_finished = bb_finished b, bb_last_key = last_key\<rparr>)"

section \<open>The block and its iterator\<close>

record Block =
  blk_data :: bytes
  blk_size :: nat
  blk_restart_offset :: nat

definition NumRestarts :: "Block \<Rightarrow> nat" where
  "NumRestarts b = unat (DecodeFixed32 (drop (blk_size b - 4) (blk_data b)))"

definition NewBlock :: "bytes \<Rightarrow> Block" where
  "NewBlock contents =
     (let b = \<lparr>blk_data = contents, blk_size = length contents, blk_restart_offset = 0\<rparr> in
      if blk_size b < 4 then b\<lparr>blk_size := 0\<rparr>
      else
        let max_restarts_allowed = (blk_size b - 4) div 4 in
        if NumRestarts b > max_restarts_allowed then b\<lparr>blk_size := 0\<rparr>
        else b\<lparr>blk_restart_offset := blk_size b - (1 + NumRestarts b) * 4\<rparr>)"

text \<open>
  \<open>DecodeEntry\<close> on the bytes between \<open>p\<close> and \<open>limit\<close>: the three lengths and the bytes after them.
  The sum of the last two lengths is a 32-bit one.
\<close>

definition DecodeEntry :: "bytes \<Rightarrow> (u32 \<times> u32 \<times> u32 \<times> bytes) option" where
  "DecodeEntry p =
     (if length p < 3 then None
      else
        let shared = ucast (p ! 0); non_shared = ucast (p ! 1); value_length = ucast (p ! 2) in
        Option.bind
          (if (shared OR non_shared OR value_length :: u32) < 128
           then Some (shared, non_shared, value_length, drop 3 p)
           else do {
             (shared, p) \<leftarrow> GetVarint32Ptr p;
             (non_shared, p) \<leftarrow> GetVarint32Ptr p;
             (value_length, p) \<leftarrow> GetVarint32Ptr p;
             Some (shared, non_shared, value_length, p)
           })
          (\<lambda>(shared, non_shared, value_length, p).
             if of_nat (length p) < non_shared + value_length then None
             else Some (shared, non_shared, value_length, p)))"

datatype block_status = BlockOk | BlockCorruption

record BlockIter =
  bi_current :: nat
  bi_restart_index :: nat
  bi_key :: bytes
  bi_value_offset :: nat
  bi_value_size :: nat
  bi_status :: block_status

text \<open>The parts of a block that do not change: contents, offset and number of restart points.\<close>

record block_view =
  bv_data :: bytes
  bv_restarts :: nat
  bv_num_restarts :: nat

definition NextEntryOffset :: "BlockIter \<Rightarrow> nat" where
  "NextEntryOffset it = (bi_value_offset it + bi_value_size it) mod 2 ^ 32"

definition GetRestartPoint :: "block_view \<Rightarrow> nat \<Rightarrow> nat option" where
  "GetRestartPoint v index =
     (if index < bv_num_restarts v
      then Some (unat (DecodeFixed32 (drop (bv_restarts v + index * 4) (bv_data v)))) else None)"

definition SeekToRestartPoint :: "block_view \<Rightarrow> nat \<Rightarrow> BlockIter \<Rightarrow> BlockIter option" where
  "SeekToRestartPoint v index it =
     map_option (\<lambda>offset. it\<lparr>bi_key := [], bi_restart_index := index,
         bi_value_offset := offset, bi_value_size := 0\<rparr>)
       (GetRestartPoint v index)"

definition NewBlockIter :: "block_view \<Rightarrow> BlockIter" where
  "NewBlockIter v = \<lparr>bi_current = bv_restarts v, bi_restart_index = bv_num_restarts v, bi_key = [],
     bi_value_offset = 0, bi_value_size = 0, bi_status = BlockOk\<rparr>"

definition IterValid :: "block_view \<Rightarrow> BlockIter \<Rightarrow> bool" where
  "IterValid v it \<longleftrightarrow> bi_current it < bv_restarts v"

definition IterValue :: "block_view \<Rightarrow> BlockIter \<Rightarrow> bytes" where
  "IterValue v it = take (bi_value_size it) (drop (bi_value_offset it) (bv_data v))"

definition CorruptionError :: "block_view \<Rightarrow> BlockIter \<Rightarrow> BlockIter" where
  "CorruptionError v it = it\<lparr>bi_current := bv_restarts v, bi_restart_index := bv_num_restarts v,
     bi_status := BlockCorruption, bi_key := [], bi_value_offset := 0, bi_value_size := 0\<rparr>"

function restart_index_loop :: "block_view \<Rightarrow> nat \<Rightarrow> nat \<Rightarrow> nat option" where
  "restart_index_loop v current restart_index =
     (if restart_index + 1 < bv_num_restarts v then
        (case GetRestartPoint v (restart_index + 1) of
           None \<Rightarrow> None
         | Some point \<Rightarrow>
             if point < current then restart_index_loop v current (restart_index + 1)
             else Some restart_index)
      else Some restart_index)"
  by pat_completeness auto
termination by (relation "measure (\<lambda>(v, _, restart_index). bv_num_restarts v - restart_index)") auto

declare restart_index_loop.simps [simp del]

text \<open>
  \<open>None\<close> when the key bytes are not all inside the block: \<open>DecodeEntry\<close> lets lengths through whose
  32-bit sum wraps.
\<close>

definition ParseNextKey :: "block_view \<Rightarrow> BlockIter \<Rightarrow> (BlockIter \<times> bool) option" where
  "ParseNextKey v it =
     (let current = NextEntryOffset it;
          it = it\<lparr>bi_current := current\<rparr>
      in if current \<ge> bv_restarts v then
           Some (it\<lparr>bi_current := bv_restarts v, bi_restart_index := bv_num_restarts v\<rparr>, False)
         else
           case DecodeEntry (take (bv_restarts v - current) (drop current (bv_data v))) of
             None \<Rightarrow> Some (CorruptionError v it, False)
           | Some (shared, non_shared, value_length, rest) \<Rightarrow>
               if length (bi_key it) < unat shared then Some (CorruptionError v it, False)
               else
                 let p = bv_restarts v - length rest in
                 if p + unat non_shared > length (bv_data v) then None
                 else
                   map_option (\<lambda>restart_index.
                       (it\<lparr>bi_key := take (unat shared) (bi_key it)
                             @ take (unat non_shared) (drop p (bv_data v)),
                           bi_value_offset := p + unat non_shared,
                           bi_value_size := unat value_length,
                           bi_restart_index := restart_index\<rparr>, True))
                     (restart_index_loop v current (bi_restart_index it)))"

definition IterNext :: "block_view \<Rightarrow> BlockIter \<Rightarrow> BlockIter option" where
  "IterNext v it = (if IterValid v it then map_option fst (ParseNextKey v it) else None)"

definition IterSeekToFirst :: "block_view \<Rightarrow> BlockIter \<Rightarrow> BlockIter option" where
  "IterSeekToFirst v it =
     Option.bind (SeekToRestartPoint v 0 it) (\<lambda>it. map_option fst (ParseNextKey v it))"

text \<open>\<open>while (ParseNextKey() && NextEntryOffset() < bound) {}\<close>, of \<open>SeekToLast\<close> and \<open>Prev\<close>.\<close>

partial_function (option) parse_until :: "block_view \<Rightarrow> nat \<Rightarrow> BlockIter \<Rightarrow> BlockIter option" where
  "parse_until v bound it =
     (case ParseNextKey v it of
        None \<Rightarrow> None
      | Some (it, ok) \<Rightarrow> if ok \<and> NextEntryOffset it < bound then parse_until v bound it else Some it)"

declare parse_until.simps [code]

definition IterSeekToLast :: "block_view \<Rightarrow> BlockIter \<Rightarrow> BlockIter option" where
  "IterSeekToLast v it =
     Option.bind (SeekToRestartPoint v (bv_num_restarts v - 1) it) (parse_until v (bv_restarts v))"

text \<open>The scan back to a restart point before \<open>original\<close>; the inner \<open>None\<close>: there is none.\<close>

fun prev_scan :: "block_view \<Rightarrow> nat \<Rightarrow> nat \<Rightarrow> nat option option" where
  "prev_scan v original restart_index =
     (case GetRestartPoint v restart_index of
        None \<Rightarrow> None
      | Some point \<Rightarrow>
          if point \<ge> original then
            (if restart_index = 0 then Some None else prev_scan v original (restart_index - 1))
          else Some (Some restart_index))"

declare prev_scan.simps [simp del]

definition IterPrev :: "block_view \<Rightarrow> BlockIter \<Rightarrow> BlockIter option" where
  "IterPrev v it =
     (if IterValid v it then
        let original = bi_current it in
        case prev_scan v original (bi_restart_index it) of
          None \<Rightarrow> None
        | Some None \<Rightarrow> Some (it\<lparr>bi_current := bv_restarts v, bi_restart_index := bv_num_restarts v\<rparr>)
        | Some (Some index) \<Rightarrow> Option.bind (SeekToRestartPoint v index it) (parse_until v original)
      else None)"

text \<open>The binary search; the inner \<open>None\<close> is the corruption it reports.\<close>

function seek_binary ::
    "block_view \<Rightarrow> (bytes \<Rightarrow> bytes \<Rightarrow> int) \<Rightarrow> bytes \<Rightarrow> nat \<Rightarrow> nat \<Rightarrow> nat option option" where
  "seek_binary v compare target left right =
     (if left < right then
        let mid = (left + right + 1) div 2 in
        case GetRestartPoint v mid of
          None \<Rightarrow> None
        | Some region_offset \<Rightarrow>
            (case DecodeEntry (take (bv_restarts v - region_offset) (drop region_offset (bv_data v))) of
               None \<Rightarrow> Some None
             | Some (shared, non_shared, value_length, rest) \<Rightarrow>
                 if shared \<noteq> 0 then Some None
                 else
                   let key_ptr = bv_restarts v - length rest in
                   if key_ptr + unat non_shared > length (bv_data v) then None
                   else
                     let mid_key = take (unat non_shared) (drop key_ptr (bv_data v))
                     in if compare mid_key target < 0 then seek_binary v compare target mid right
                        else seek_binary v compare target left (mid - 1))
      else Some (Some left))"
  by pat_completeness auto
termination by (relation "measure (\<lambda>(_, _, _, left, right). right - left)") auto

declare seek_binary.simps [simp del]

partial_function (option) seek_linear ::
    "block_view \<Rightarrow> (bytes \<Rightarrow> bytes \<Rightarrow> int) \<Rightarrow> bytes \<Rightarrow> BlockIter \<Rightarrow> BlockIter option" where
  "seek_linear v compare target it =
     (case ParseNextKey v it of
        None \<Rightarrow> None
      | Some (it, ok) \<Rightarrow>
          if \<not> ok then Some it
          else if compare (bi_key it) target \<ge> 0 then Some it
          else seek_linear v compare target it)"

declare seek_linear.simps [code]

definition IterSeek ::
    "block_view \<Rightarrow> (bytes \<Rightarrow> bytes \<Rightarrow> int) \<Rightarrow> bytes \<Rightarrow> BlockIter \<Rightarrow> BlockIter option" where
  "IterSeek v compare target it =
     (let current_key_compare = (if IterValid v it then compare (bi_key it) target else 0);
          left = (if IterValid v it \<and> current_key_compare < 0 then bi_restart_index it else 0);
          right = (if IterValid v it \<and> current_key_compare > 0 then bi_restart_index it
            else bv_num_restarts v - 1)
      in if IterValid v it \<and> current_key_compare = 0 then Some it
         else
           case seek_binary v compare target left right of
             None \<Rightarrow> None
           | Some None \<Rightarrow> Some (CorruptionError v it)
           | Some (Some left) \<Rightarrow>
               let skip_seek = (left = bi_restart_index it \<and> current_key_compare < 0)
               in Option.bind (if skip_seek then Some it else SeekToRestartPoint v left it)
                    (seek_linear v compare target))"

datatype block_iterator = ErrorIterator | EmptyIterator | EntryIterator block_view BlockIter

definition NewIterator :: "Block \<Rightarrow> block_iterator" where
  "NewIterator b =
     (if blk_size b < 4 then ErrorIterator
      else
        let num_restarts = NumRestarts b in
        if num_restarts = 0 then EmptyIterator
        else
          let v = \<lparr>bv_data = blk_data b, bv_restarts = blk_restart_offset b, bv_num_restarts = num_restarts\<rparr>
          in EntryIterator v (NewBlockIter v))"

section \<open>Decoding entries\<close>

definition decode_lengths :: "bytes \<Rightarrow> (u32 \<times> u32 \<times> u32 \<times> bytes) option" where
  "decode_lengths p = do {
     (shared, p) \<leftarrow> GetVarint32Ptr p;
     (non_shared, p) \<leftarrow> GetVarint32Ptr p;
     (value_length, p) \<leftarrow> GetVarint32Ptr p;
     Some (shared, non_shared, value_length, p)
   }"

lemma ucast_less_128: "(ucast (b :: u8) :: u32) < 128 \<longleftrightarrow> \<not> bit b 7"
proof -
  have "(ucast b :: u32) < 128 \<longleftrightarrow> unat b < 128"
    by (simp add: word_less_nat_alt unsigned_ucast_eq take_bit_nat_eq_self order_less_trans [OF unsigned_less])
  also have "\<dots> \<longleftrightarrow> unat b div 128 = 0" by auto
  also have "\<dots> \<longleftrightarrow> \<not> bit b 7"
  proof -
    have "unat b div 128 < 2" using unsigned_less [of b, where ?'a = nat] by auto
    then have "unat b div 128 = 0 \<longleftrightarrow> even (unat b div 2 ^ 7)" by (auto simp: less_2_cases_iff)
    also have "\<dots> \<longleftrightarrow> \<not> bit (unat b) 7" by (simp only: bit_iff_odd) simp
    also have "\<dots> \<longleftrightarrow> \<not> bit b 7" by (simp only: bit_unsigned_iff) simp
    finally show ?thesis .
  qed
  finally show ?thesis .
qed

lemma GetVarint32Ptr_one_byte: "\<not> bit b 7 \<Longrightarrow> GetVarint32Ptr (b # p) = Some (ucast b, p)"
proof -
  assume "\<not> bit b 7"
  then have "\<not> bit (ucast b :: u32) 7" by (simp add: bit_ucast_iff)
  then show ?thesis by (simp add: GetVarint32Ptr_def mask_simps)
qed

text \<open>The fast path of \<open>DecodeEntry\<close> agrees with decoding three varints.\<close>

lemma DecodeEntry_eq:
  "DecodeEntry p = (if length p < 3 then None else
     Option.bind (decode_lengths p) (\<lambda>(shared, non_shared, value_length, p).
       if of_nat (length p) < non_shared + value_length then None
       else Some (shared, non_shared, value_length, p)))"
proof (cases "length p < 3")
  case False
  then obtain b0 b1 b2 q where p: "p = b0 # b1 # b2 # q"
    by (metis One_nat_def Suc_1 length_Cons less_Suc_eq list.exhaust list.size(3) numeral_3_eq_3 zero_less_Suc)
  have "decode_lengths p = Some (ucast b0, ucast b1, ucast b2, q)"
    if "(ucast b0 OR ucast b1 OR ucast b2 :: u32) < 128"
  proof -
    have "(ucast b0 OR ucast b1 OR ucast b2 :: u32) = ucast (b0 OR b1 OR b2)"
      by (rule bit_word_eqI) (auto simp: bit_simps)
    with that have "\<not> bit (b0 OR b1 OR b2) 7" using ucast_less_128 [of "b0 OR b1 OR b2"] by metis
    then show ?thesis by (simp add: p decode_lengths_def GetVarint32Ptr_one_byte bit_or_iff)
  qed
  then show ?thesis by (simp add: DecodeEntry_def p Let_def, simp add: decode_lengths_def)
qed (simp add: DecodeEntry_def)

section \<open>The layout of a block\<close>

text \<open>An entry as it is stored: the length of the shared prefix, the key and the value.\<close>

type_synonym item = "nat \<times> bytes \<times> bytes"

fun enc_item :: "item \<Rightarrow> bytes" where
  "enc_item (s, k, v) = EncodeVarint32 (of_nat s) @ EncodeVarint32 (of_nat (length k - s))
     @ EncodeVarint32 (of_nat (length v)) @ drop s k @ v"

abbreviation item_key :: "item \<Rightarrow> bytes" where
  "item_key i \<equiv> fst (snd i)"

abbreviation item_value :: "item \<Rightarrow> bytes" where
  "item_value i \<equiv> snd (snd i)"

definition items_bytes :: "item list \<Rightarrow> bytes" where
  "items_bytes items = concat (map enc_item items)"

abbreviation item_offset :: "item list \<Rightarrow> nat \<Rightarrow> nat" where
  "item_offset items i \<equiv> length (items_bytes (take i items))"

definition key_before :: "item list \<Rightarrow> nat \<Rightarrow> bytes" where
  "key_before items i = (if i = 0 then [] else item_key (items ! (i - 1)))"

text \<open>Every shared prefix is a prefix of the key before and the lengths fit their 32 bits.\<close>

definition items_ok :: "item list \<Rightarrow> bool" where
  "items_ok items \<longleftrightarrow> length (items_bytes items) < 2 ^ 32
     \<and> (\<forall>i < length items. let (s, k, v) = items ! i in
          s \<le> length (key_before items i) \<and> s \<le> length k \<and> length k < 2 ^ 32
          \<and> take s (key_before items i) = take s k)"

lemma items_bytes_decomp:
  assumes "i < length items"
  shows "items_bytes items = items_bytes (take i items) @ enc_item (items ! i) @ items_bytes (drop (Suc i) items)"
proof -
  have "items = take i items @ items ! i # drop (Suc i) items" using assms by (rule id_take_nth_drop)
  then show ?thesis by (metis concat.simps(2) concat_append items_bytes_def list.simps(9) map_append)
qed

lemma items_bytes_split:
  assumes "i < length items"
  shows "drop (item_offset items i) (items_bytes items) = enc_item (items ! i) @ items_bytes (drop (Suc i) items)"
    and "item_offset items (Suc i) = item_offset items i + length (enc_item (items ! i))"
proof -
  show "drop (item_offset items i) (items_bytes items) = enc_item (items ! i) @ items_bytes (drop (Suc i) items)"
    using items_bytes_decomp [OF assms] by (metis append_eq_conv_conj)
  show "item_offset items (Suc i) = item_offset items i + length (enc_item (items ! i))"
    using assms by (simp add: items_bytes_def take_Suc_conv_app_nth)
qed

lemma item_offset_le: "item_offset items i \<le> length (items_bytes items)"
proof -
  have "items_bytes items = items_bytes (take i items) @ items_bytes (drop i items)"
    by (simp add: items_bytes_def flip: concat_append map_append)
  then show ?thesis by simp
qed

lemma item_offset_less: "i < length items \<Longrightarrow> item_offset items i < length (items_bytes items)"
proof -
  assume i: "i < length items"
  obtain s k v where "items ! i = (s, k, v)" by (cases "items ! i")
  moreover have "0 < length (EncodeVarint32 w)" for w by (simp add: EncodeVarint32_def)
  ultimately have "item_offset items i < item_offset items (Suc i)"
    using items_bytes_split(2) [OF i] by simp
  also have "\<dots> \<le> length (items_bytes items)" by (rule item_offset_le)
  finally show ?thesis .
qed

lemma DecodeEntry_item:
  assumes "s < 2 ^ 32" "s \<le> length k" "length k - s + length v < 2 ^ 32" "length rest + length k - s + length v < 2 ^ 32"
  shows "DecodeEntry (enc_item (s, k, v) @ rest)
    = Some (of_nat s, of_nat (length k - s), of_nat (length v), drop s k @ v @ rest)"
proof -
  have one: "1 \<le> length (EncodeVarint32 w)" for w by (simp add: EncodeVarint32_def)
  have "3 \<le> length (enc_item (s, k, v) @ rest)"
    using one [of "of_nat s"] one [of "of_nat (length k - s)"] one [of "of_nat (length v)"] by simp
  moreover have "decode_lengths (enc_item (s, k, v) @ rest)
      = Some (of_nat s, of_nat (length k - s), of_nat (length v), drop s k @ v @ rest)"
    by (simp add: decode_lengths_def)
  moreover have "\<not> (of_nat (length (drop s k @ v @ rest)) :: u32) < of_nat (length k - s) + of_nat (length v)"
  proof -
    have "(of_nat (length k - s) + of_nat (length v) :: u32) = of_nat (length k - s + length v)" by simp
    moreover have "unat (of_nat (length k - s + length v) :: u32) = length k - s + length v"
      using assms by (intro unat_of_nat_small) simp
    moreover have "unat (of_nat (length (drop s k @ v @ rest)) :: u32) = length (drop s k @ v @ rest)"
      using assms by (intro unat_of_nat_small) simp
    ultimately show ?thesis by (simp add: word_less_nat_alt del: of_nat_add)
  qed
  ultimately show ?thesis by (simp add: DecodeEntry_eq del: enc_item.simps)
qed

section \<open>Scanning\<close>

text \<open>The contents of a finished block: items, restart array, number of restart points.\<close>

definition block_contents :: "item list \<Rightarrow> u32 list \<Rightarrow> bytes" where
  "block_contents items rs = items_bytes items @ concat (map EncodeFixed32 rs) @ EncodeFixed32 (of_nat (length rs))"

definition view_of :: "item list \<Rightarrow> u32 list \<Rightarrow> block_view" where
  "view_of items rs = \<lparr>bv_data = block_contents items rs, bv_restarts = length (items_bytes items),
     bv_num_restarts = length rs\<rparr>"

lemma length_fixed32s: "length (concat (map EncodeFixed32 rs)) = 4 * length rs"
  by (induction rs) simp_all

lemma decode_fixed32s:
  "i < length rs \<Longrightarrow> DecodeFixed32 (drop (length pre + i * 4) (pre @ concat (map EncodeFixed32 rs) @ post)) = rs ! i"
proof (induction rs arbitrary: i pre)
  case (Cons r rs)
  show ?case
  proof (cases i)
    case (Suc j)
    with Cons.IH [of j "pre @ EncodeFixed32 r"] Cons.prems show ?thesis by simp
  qed simp
qed simp

lemma NewIterator_contents:
  assumes "rs \<noteq> []" "length (block_contents items rs) < 2 ^ 32"
  shows "NewIterator (NewBlock (block_contents items rs))
    = EntryIterator (view_of items rs) (NewBlockIter (view_of items rs))"
proof -
  define n where "n = length (block_contents items rs)"
  have n: "n = length (items_bytes items) + 4 * length rs + 4"
    by (simp add: n_def block_contents_def length_fixed32s)
  have "drop (n - 4) (block_contents items rs) = EncodeFixed32 (of_nat (length rs))"
    unfolding n by (simp add: block_contents_def length_fixed32s)
  moreover have "unat (of_nat (length rs) :: u32) = length rs"
    using assms(2) n by (intro unat_of_nat_small) (simp add: n_def)
  ultimately have num: "NumRestarts \<lparr>blk_data = block_contents items rs, blk_size = n, blk_restart_offset = r\<rparr>
      = length rs" for r
    by (simp add: NumRestarts_def)
  have "NewBlock (block_contents items rs)
      = \<lparr>blk_data = block_contents items rs, blk_size = n, blk_restart_offset = length (items_bytes items)\<rparr>"
    using num n by (simp add: NewBlock_def n_def [symmetric] Let_def)
  then show ?thesis using num n assms(1) by (simp add: NewIterator_def view_of_def Let_def)
qed

lemma GetRestartPoint_view: "i < length rs \<Longrightarrow> GetRestartPoint (view_of items rs) i = Some (unat (rs ! i))"
  by (simp only: GetRestartPoint_def view_of_def block_contents_def block_view.simps decode_fixed32s if_True)

lemma restart_index_loop_defined: "\<exists>j. restart_index_loop v c i = Some j"
proof (induction v c i rule: restart_index_loop.induct)
  case (1 v c i)
  show ?case
    using 1 by (subst restart_index_loop.simps) (auto simp: GetRestartPoint_def)
qed

lemma region_bytes:
  assumes "i < length items"
  shows "take (length (items_bytes items) - item_offset items i) (drop (item_offset items i) (block_contents items rs))
    = enc_item (items ! i) @ items_bytes (drop (Suc i) items)"
proof -
  have "take (length (items_bytes items) - item_offset items i) (drop (item_offset items i) (items_bytes items @ x))
      = drop (item_offset items i) (items_bytes items)" for x
    using item_offset_le [where items = items and i = i] by simp
  then show ?thesis by (simp only: block_contents_def items_bytes_split(1) [OF assms])
qed

text \<open>
  One step of the scan: standing after the items before \<open>i\<close>, the iterator moves to item \<open>i\<close>.
\<close>

definition iter_after :: "item list \<Rightarrow> nat \<Rightarrow> BlockIter \<Rightarrow> bool" where
  "iter_after items i it \<longleftrightarrow> NextEntryOffset it = item_offset items i"

definition iter_at :: "item list \<Rightarrow> u32 list \<Rightarrow> nat \<Rightarrow> BlockIter \<Rightarrow> bool" where
  "iter_at items rs i it \<longleftrightarrow> i < length items \<and> iter_after items (Suc i) it
     \<and> bi_current it = item_offset items i \<and> bi_key it = item_key (items ! i)
     \<and> IterValue (view_of items rs) it = item_value (items ! i)"

lemma item_decoded:
  assumes ok: "items_ok items" and i: "i < length items" and item: "items ! i = (s, k, v)"
  defines "rest \<equiv> drop s k @ v @ items_bytes (drop (Suc i) items)"
  shows "DecodeEntry (enc_item (items ! i) @ items_bytes (drop (Suc i) items))
      = Some (of_nat s, of_nat (length k - s), of_nat (length v), rest)"
    and "unat (of_nat s :: u32) = s" "unat (of_nat (length k - s) :: u32) = length k - s"
    and "unat (of_nat (length v) :: u32) = length v" "s \<le> length k"
    and "drop (length (items_bytes items) - length rest) (block_contents items rs)
      = rest @ concat (map EncodeFixed32 rs) @ EncodeFixed32 (of_nat (length rs))"
    and "length rest \<le> length (items_bytes items)"
    and "item_offset items (Suc i) = length (items_bytes items) - length rest + (length k - s) + length v"
proof -
  define hd3 where "hd3 = EncodeVarint32 (of_nat s) @ EncodeVarint32 (of_nat (length k - s)) @ EncodeVarint32 (of_nat (length v))"
  have all: "items_bytes items = (items_bytes (take i items) @ hd3) @ rest"
    using items_bytes_decomp [OF i] by (simp add: hd3_def rest_def item)
  have size: "length (items_bytes items) < 2 ^ 32" using ok by (simp add: items_ok_def)
  show s: "s \<le> length k" using ok i item by (auto simp: items_ok_def)
  have k: "length k < 2 ^ 32" using ok i item by (auto simp: items_ok_def)
  have sum: "length rest < 2 ^ 32" using all size by simp
  then have sum': "length k - s + length v + length (items_bytes (drop (Suc i) items)) < 2 ^ 32"
    by (simp add: rest_def)
  show "DecodeEntry (enc_item (items ! i) @ items_bytes (drop (Suc i) items))
      = Some (of_nat s, of_nat (length k - s), of_nat (length v), rest)"
    unfolding item rest_def using s k sum' by (intro DecodeEntry_item) simp_all
  show "unat (of_nat s :: u32) = s" "unat (of_nat (length k - s) :: u32) = length k - s"
    "unat (of_nat (length v) :: u32) = length v"
    by (rule unat_of_nat_small; use s k sum' in simp)+
  show le: "length rest \<le> length (items_bytes items)" using all by simp
  have "length (items_bytes items) - length rest = length (items_bytes (take i items) @ hd3)" using all by simp
  then show "drop (length (items_bytes items) - length rest) (block_contents items rs)
      = rest @ concat (map EncodeFixed32 rs) @ EncodeFixed32 (of_nat (length rs))"
    unfolding block_contents_def by (simp add: all)
  show "item_offset items (Suc i) = length (items_bytes items) - length rest + (length k - s) + length v"
    using items_bytes_split(2) [OF i] all by (simp add: item hd3_def rest_def)
qed

lemma ParseNextKey_item:
  assumes ok: "items_ok items" and i: "i < length items" and it: "iter_after items i it"
    and key: "bi_key it = key_before items i \<or> fst (items ! i) = 0"
  shows "\<exists>it'. ParseNextKey (view_of items rs) it = Some (it', True) \<and> iter_at items rs i it'
    \<and> bi_status it' = bi_status it"
proof -
  obtain s k v where item: "items ! i = (s, k, v)" by (cases "items ! i")
  define rest where "rest = drop s k @ v @ items_bytes (drop (Suc i) items)"
  note d = item_decoded [OF ok i item, folded rest_def]
  define p where "p = length (items_bytes items) - length rest"
  have cur: "NextEntryOffset it = item_offset items i" using it by (simp add: iter_after_def)
  have len: "s \<le> length (bi_key it)" "take s (bi_key it) = take s k"
    using ok i item key by (auto simp: items_ok_def)
  obtain j where j: "restart_index_loop (view_of items rs) (item_offset items i) (bi_restart_index it) = Some j"
    using restart_index_loop_defined by blast
  have inside: "p + (length k - s) \<le> length (block_contents items rs)"
    using d(7) by (simp add: p_def rest_def block_contents_def)
  have keyb: "take (length k - s) (drop p (block_contents items rs)) = drop s k"
    using d(6) by (simp add: p_def rest_def)
  define it' where "it' = it\<lparr>bi_current := item_offset items i, bi_key := k, bi_value_offset := p + (length k - s),
      bi_value_size := length v, bi_restart_index := j\<rparr>"
  have "ParseNextKey (view_of items rs) it = Some (it', True)"
    using item_offset_less [OF i] d(1-4) region_bytes [OF i, of rs] len j inside keyb
    by (simp add: ParseNextKey_def cur view_of_def [of items rs] Let_def it'_def p_def [symmetric])
  moreover have "drop (p + (length k - s)) (block_contents items rs)
      = v @ items_bytes (drop (Suc i) items) @ concat (map EncodeFixed32 rs) @ EncodeFixed32 (of_nat (length rs))"
    using d(6) drop_drop [of "length k - s" p "block_contents items rs"]
    by (simp only: p_def [symmetric]) (simp add: rest_def add.commute)
  then have "IterValue (view_of items rs) it' = v"
    by (simp add: IterValue_def view_of_def it'_def)
  moreover have "NextEntryOffset it' = item_offset items (Suc i)"
  proof -
    have "item_offset items (Suc i) < 2 ^ 32"
      using ok item_offset_le [where items = items and i = "Suc i"] by (simp add: items_ok_def)
    then show ?thesis using d(8) by (simp add: NextEntryOffset_def it'_def p_def)
  qed
  ultimately show ?thesis
    using i item by (auto simp: iter_at_def iter_after_def it'_def)
qed

text \<open>Behind the last item the iterator becomes invalid and keeps its status.\<close>

lemma ParseNextKey_end:
  assumes "iter_after items (length items) it"
  shows "\<exists>it'. ParseNextKey (view_of items rs) it = Some (it', False) \<and> \<not> IterValid (view_of items rs) it'
    \<and> bi_status it' = bi_status it"
  using assms by (simp add: ParseNextKey_def iter_after_def view_of_def IterValid_def Let_def)

lemma iter_at_valid: "iter_at items rs i it \<Longrightarrow> IterValid (view_of items rs) it"
  using item_offset_less [of i items] by (simp add: iter_at_def IterValid_def view_of_def)

text \<open>All entries from the current one on, as a caller collects them with \<open>key\<close>, \<open>value\<close> and \<open>Next\<close>.\<close>

fun collect :: "nat \<Rightarrow> block_view \<Rightarrow> BlockIter \<Rightarrow> (bytes \<times> bytes) list option" where
  "collect 0 v it = None"
| "collect (Suc fuel) v it =
     (if IterValid v it
      then Option.bind (IterNext v it) (\<lambda>it'. map_option ((#) (bi_key it, IterValue v it)) (collect fuel v it'))
      else Some [])"

lemma collect_items:
  assumes "items_ok items" "iter_at items rs i it" "length items - i < fuel"
  shows "collect fuel (view_of items rs) it = Some (map snd (drop i items))"
  using assms(2,3)
proof (induction fuel arbitrary: i it)
  case (Suc fuel)
  have i: "i < length items" "iter_after items (Suc i) it" "bi_key it = item_key (items ! i)"
    "IterValue (view_of items rs) it = item_value (items ! i)"
    using Suc.prems(1) by (simp_all add: iter_at_def)
  have split: "drop i items = items ! i # drop (Suc i) items" using i(1) by (simp add: Cons_nth_drop_Suc)
  show ?case
  proof (cases "Suc i < length items")
    case True
    from ParseNextKey_item [OF assms(1) True i(2), of rs] i(3) obtain it' where
      "ParseNextKey (view_of items rs) it = Some (it', True)" "iter_at items rs (Suc i) it'"
      by (auto simp: key_before_def)
    with Suc.IH [of "Suc i" it'] Suc.prems i show ?thesis
      by (simp add: iter_at_valid [OF Suc.prems(1)] IterNext_def split)
  next
    case False
    with i have last: "Suc i = length items" by simp
    with ParseNextKey_end [of items it rs] i(2) obtain it' where
      "ParseNextKey (view_of items rs) it = Some (it', False)" "\<not> IterValid (view_of items rs) it'" by auto
    moreover from Suc.prems(2) i(1) obtain f where "fuel = Suc f" by (cases fuel) auto
    ultimately show ?thesis
      using last i by (simp add: iter_at_valid [OF Suc.prems(1)] IterNext_def split)
  qed
qed simp

section \<open>What the builder writes\<close>

definition items_linked :: "item list \<Rightarrow> bool" where
  "items_linked items \<longleftrightarrow> (\<forall>i < length items. let (s, k, v) = items ! i in
     s \<le> length (key_before items i) \<and> s \<le> length k \<and> take s (key_before items i) = take s k)"

text \<open>\<open>js\<close> are the indices of the restart points.\<close>

definition restarts_at :: "item list \<Rightarrow> nat list \<Rightarrow> bool" where
  "restarts_at items js \<longleftrightarrow> js \<noteq> [] \<and> hd js = 0 \<and> sorted js
     \<and> (\<forall>j \<in> set js. j < length items \<longrightarrow> fst (items ! j) = 0)
     \<and> (if items = [] then js = [0] else (\<forall>j \<in> set js. j < length items))"

definition restart_words :: "item list \<Rightarrow> nat list \<Rightarrow> u32 list" where
  "restart_words items js = map (\<lambda>j. of_nat (item_offset items j)) js"

definition builder_items :: "item list \<Rightarrow> nat list \<Rightarrow> BlockBuilder \<Rightarrow> bool" where
  "builder_items items js b \<longleftrightarrow> bb_buffer b = items_bytes items \<and> bb_last_key b = key_before items (length items)
     \<and> bb_restarts b = restart_words items js \<and> restarts_at items js \<and> items_linked items \<and> \<not> bb_finished b"

lemma builder_items_new: "builder_items [] [0] NewBlockBuilder"
  by (simp add: builder_items_def NewBlockBuilder_def items_bytes_def key_before_def restart_words_def
      restarts_at_def items_linked_def)

lemma shared_loop_eq: "shared_loop a b m i = diff_index_loop a b m i"
proof (induction a b m i rule: shared_loop.induct)
  case (1 a b m i)
  then show ?case by (subst shared_loop.simps, subst diff_index_loop.simps) auto
qed

lemma key_before_snoc: "i \<le> length items \<Longrightarrow> key_before (items @ [x]) i = key_before items i"
  by (auto simp: key_before_def nth_append)

lemma items_linked_snoc:
  assumes "items_linked items" "s \<le> length (key_before items (length items))" "s \<le> length k"
    and "take s (key_before items (length items)) = take s k"
  shows "items_linked (items @ [(s, k, v)])"
  unfolding items_linked_def
proof (intro allI impI)
  fix i assume "i < length (items @ [(s, k, v)])"
  then consider "i < length items" | "i = length items" by fastforce
  then show "let (s', k', v') = (items @ [(s, k, v)]) ! i in s' \<le> length (key_before (items @ [(s, k, v)]) i)
      \<and> s' \<le> length k' \<and> take s' (key_before (items @ [(s, k, v)]) i) = take s' k'"
  proof cases
    case 1
    with assms(1) show ?thesis by (simp add: items_linked_def key_before_snoc nth_append)
  qed (use assms in \<open>simp add: key_before_snoc\<close>)
qed

lemma restart_words_snoc:
  assumes "\<forall>j \<in> set js. j \<le> length items"
  shows "restart_words (items @ [x]) js = restart_words items js"
  using assms by (auto simp: restart_words_def)

lemma restarts_le: "restarts_at items js \<Longrightarrow> \<forall>j \<in> set js. j \<le> length items"
  by (auto simp: restarts_at_def split: if_splits)

lemma items_bytes_eq_Nil: "items_bytes items = [] \<longleftrightarrow> items = []"
proof
  assume "items_bytes items = []"
  then show "items = []" using item_offset_less [of 0 items] by (cases items) auto
qed (simp add: items_bytes_def)

lemma BlockBuilderAdd_items:
  assumes b: "builder_items items js b" and interval: "1 \<le> interval" "bb_counter b \<le> interval"
    and order: "items = [] \<or> cmp key (key_before items (length items)) > 0"
    and js0: "items = [] \<longrightarrow> bb_counter b = 0"
  shows "\<exists>s js' b'. BlockBuilderAdd interval cmp key val b = Some b'
    \<and> builder_items (items @ [(s, key, val)]) js' b' \<and> bb_counter b' \<le> interval"
proof -
  define lk where "lk = key_before items (length items)"
  define compress where "compress \<longleftrightarrow> bb_counter b < interval"
  define s where "s = (if compress then shared_loop lk key (min (length lk) (length key)) 0 else 0)"
  define js' where "js' = (if compress then js else js @ [length items])"
  have shared: "s \<le> length lk" "s \<le> length key" "take s lk = take s key"
    using diff_index_spec [of 0 "min (length lk) (length key)" lk key]
    by (auto simp: s_def shared_loop_eq)
  have key: "take s lk @ drop s key = key" using shared(3) by (simp add: append_take_drop_id)
  have inv: "bb_buffer b = items_bytes items" "bb_last_key b = lk" "bb_restarts b = restart_words items js"
    "restarts_at items js" "items_linked items" "\<not> bb_finished b"
    using b by (simp_all add: builder_items_def lk_def)
  define b' where "b' = \<lparr>bb_buffer = items_bytes (items @ [(s, key, val)]), bb_restarts = restart_words (items @ [(s, key, val)]) js',
      bb_counter = (if compress then bb_counter b else 0) + 1, bb_finished = False, bb_last_key = key\<rparr>"
  have rs: "(if compress then bb_restarts b else bb_restarts b @ [of_nat (length (bb_buffer b))])
      = restart_words (items @ [(s, key, val)]) js'"
    using restart_words_snoc [OF restarts_le [OF inv(4)]] inv by (auto simp: js'_def restart_words_def)
  have "BlockBuilderAdd interval cmp key val b = Some b'"
    using inv interval order key rs
    by (simp add: BlockBuilderAdd_def Let_def compress_def [symmetric] s_def [symmetric] b'_def
        items_bytes_eq_Nil lk_def [symmetric] PutVarint32_def, simp add: items_bytes_def)
  moreover have "restarts_at (items @ [(s, key, val)]) js'"
  proof (cases "items = []")
    case True
    with js0 interval inv(4) have "js' = [0]" "s = 0" using shared(1)
      by (auto simp: js'_def compress_def lk_def key_before_def restarts_at_def)
    with True show ?thesis by (simp add: restarts_at_def)
  next
    case False
    have "\<not> compress \<Longrightarrow> s = 0" by (simp add: s_def)
    moreover have "hd (js @ [x]) = hd js" for x using inv(4) by (simp add: restarts_at_def)
    ultimately show ?thesis
      using inv(4) False restarts_le [OF inv(4)]
      by (auto simp: restarts_at_def js'_def nth_append sorted_append less_Suc_eq)
  qed
  moreover have "key_before (items @ [(s, key, val)]) (length (items @ [(s, key, val)])) = key"
    by (simp add: key_before_def)
  ultimately have "builder_items (items @ [(s, key, val)]) js' b'"
    using items_linked_snoc [OF inv(5), of s key val] shared
    by (simp add: builder_items_def b'_def lk_def)
  moreover have "bb_counter b' \<le> interval" using interval by (auto simp: b'_def compress_def)
  ultimately show ?thesis using \<open>BlockBuilderAdd interval cmp key val b = Some b'\<close> by blast
qed

text \<open>A whole block from a list of entries.\<close>

fun add_entries ::
    "nat \<Rightarrow> (bytes \<Rightarrow> bytes \<Rightarrow> int) \<Rightarrow> (bytes \<times> bytes) list \<Rightarrow> BlockBuilder \<Rightarrow> BlockBuilder option" where
  "add_entries interval compare [] b = Some b"
| "add_entries interval compare ((key, val) # entries) b =
     Option.bind (BlockBuilderAdd interval compare key val b) (add_entries interval compare entries)"

definition build_block ::
    "nat \<Rightarrow> (bytes \<Rightarrow> bytes \<Rightarrow> int) \<Rightarrow> (bytes \<times> bytes) list \<Rightarrow> bytes option" where
  "build_block interval compare entries =
     map_option (snd \<circ> BlockBuilderFinish) (add_entries interval compare entries NewBlockBuilder)"

definition increasing :: "(bytes \<Rightarrow> bytes \<Rightarrow> int) \<Rightarrow> bytes list \<Rightarrow> bool" where
  "increasing compare keys \<longleftrightarrow> (\<forall>i. Suc i < length keys \<longrightarrow> compare (keys ! Suc i) (keys ! i) > 0)"

lemma add_entries_items:
  assumes "1 \<le> interval" "builder_items items js b" "bb_counter b \<le> interval"
    and "items = [] \<longrightarrow> bb_counter b = 0" "increasing cmp (map item_key items @ map fst entries)"
  shows "\<exists>items' js' b'. add_entries interval cmp entries b = Some b' \<and> builder_items items' js' b'
    \<and> map snd items' = map snd items @ entries"
  using assms(2-)
proof (induction entries arbitrary: items js b)
  case (Cons e entries)
  obtain key val where e: "e = (key, val)" by (cases e)
  have order: "items = [] \<or> cmp key (key_before items (length items)) > 0"
  proof (cases "items = []")
    case False
    then have "Suc (length items - 1) < length (map item_key items @ map fst (e # entries))" by simp
    with Cons.prems(4) have "cmp ((map item_key items @ map fst (e # entries)) ! Suc (length items - 1))
        ((map item_key items @ map fst (e # entries)) ! (length items - 1)) > 0"
      unfolding increasing_def by blast
    with False show ?thesis by (simp add: key_before_def nth_append e)
  qed simp
  from BlockBuilderAdd_items [where cmp = cmp and key = key and val = val,
      OF Cons.prems(1) assms(1) Cons.prems(2) order Cons.prems(3)]
  obtain s js1 b1 where b1: "BlockBuilderAdd interval cmp key val b = Some b1"
    "builder_items (items @ [(s, key, val)]) js1 b1" "bb_counter b1 \<le> interval" by blast
  have "increasing cmp (map item_key (items @ [(s, key, val)]) @ map fst entries)"
    using Cons.prems(4) by (simp add: e)
  from Cons.IH [OF b1(2,3) _ this] b1(1) show ?case by (auto simp: e)
qed auto

lemma finish_contents:
  "builder_items items js b \<Longrightarrow> snd (BlockBuilderFinish b) = block_contents items (restart_words items js)"
proof -
  have "fold (\<lambda>r buf. PutFixed32 buf r) rs buf = buf @ concat (map EncodeFixed32 rs)" for rs buf
    by (induction rs arbitrary: buf) (simp_all add: PutFixed32_def)
  then show "builder_items items js b \<Longrightarrow> ?thesis"
    by (simp add: BlockBuilderFinish_def builder_items_def block_contents_def Let_def PutFixed32_def)
qed

lemma items_ok_linked:
  assumes "items_linked items" "length (items_bytes items) < 2 ^ 32" "\<forall>item \<in> set items. length (item_key item) < 2 ^ 32"
  shows "items_ok items"
proof -
  have "length (item_key (items ! i)) < 2 ^ 32" if "i < length items" for i using assms(3) that by simp
  with assms(1,2) show ?thesis
    unfolding items_ok_def items_linked_def by (auto simp: case_prod_beta Let_def)
qed

text \<open>What is known of every block built from entries in increasing order.\<close>

lemma build_block_layout:
  assumes "1 \<le> interval" "increasing cmp (map fst entries)"
  obtains items js where "build_block interval cmp entries = Some (block_contents items (restart_words items js))"
    and "map snd items = entries" "restarts_at items js" "items_linked items"
proof -
  from add_entries_items [OF assms(1) builder_items_new, of cmp entries] assms(2) obtain items js b where
    b: "add_entries interval cmp entries NewBlockBuilder = Some b" "builder_items items js b" "map snd items = entries"
    by (auto simp: NewBlockBuilder_def)
  then show ?thesis
    using that [of items js] finish_contents [OF b(2)] by (simp add: build_block_def builder_items_def)
qed

lemma layout_ok:
  assumes "items_linked items" "map snd items = entries" "length (block_contents items rs) < 2 ^ 32"
    and "\<forall>(key, val) \<in> set entries. length key < 2 ^ 32"
  shows "items_ok items"
proof (rule items_ok_linked [OF assms(1)])
  show "length (items_bytes items) < 2 ^ 32" using assms(3) by (simp add: block_contents_def)
  show "\<forall>item \<in> set items. length (item_key item) < 2 ^ 32" using assms(2,4) by force
qed

lemma seek_restart_item:
  assumes ok: "items_ok items" and js: "restarts_at items js" and j: "j < length js"
  shows "\<exists>it'. SeekToRestartPoint (view_of items (restart_words items js)) j it = Some it'
    \<and> iter_after items (js ! j) it' \<and> bi_key it' = [] \<and> bi_status it' = bi_status it"
proof -
  have "item_offset items (js ! j) < 2 ^ LENGTH(32)"
    using ok item_offset_le [where items = items and i = "js ! j"] by (simp add: items_ok_def)
  then have "unat (restart_words items js ! j) = item_offset items (js ! j)"
    using j by (simp add: restart_words_def unat_of_nat_small)
  with \<open>item_offset items (js ! j) < 2 ^ LENGTH(32)\<close> j show ?thesis
    by (simp add: SeekToRestartPoint_def GetRestartPoint_view restart_words_def iter_after_def NextEntryOffset_def)
qed

lemma seek_to_first_items:
  assumes ok: "items_ok items" and js: "restarts_at items js" and items: "items \<noteq> []"
  shows "\<exists>it'. IterSeekToFirst (view_of items (restart_words items js)) it = Some it'
    \<and> iter_at items (restart_words items js) 0 it'"
proof -
  have "0 < length js" "js ! 0 = 0" using js by (auto simp: restarts_at_def hd_conv_nth)
  with seek_restart_item [OF ok js, of 0 it] obtain it1 where
    it1: "SeekToRestartPoint (view_of items (restart_words items js)) 0 it = Some it1" "iter_after items 0 it1" "bi_key it1 = []"
    by auto
  from ParseNextKey_item [OF ok _ it1(2), of "restart_words items js"] items it1(1,3) show ?thesis
    by (fastforce simp: IterSeekToFirst_def key_before_def)
qed

section \<open>Seeking\<close>

context comparator
begin

definition sorted_items :: "item list \<Rightarrow> bool" where
  "sorted_items items \<longleftrightarrow> (\<forall>item \<in> set items. valid (item_key item))
     \<and> (\<forall>i j. i < j \<longrightarrow> j < length items \<longrightarrow> compare_keys (item_key (items ! i)) (item_key (items ! j)) < 0)"

lemma sorted_itemsI:
  assumes "increasing compare_keys (map item_key items)" "\<forall>item \<in> set items. valid (item_key item)"
  shows "sorted_items items"
proof -
  have v: "valid (item_key (items ! i))" if "i < length items" for i using assms(2) that by simp
  have "compare_keys (item_key (items ! i)) (item_key (items ! j)) < 0" if "i < j" "j < length items" for i j
    using that
  proof (induction j)
    case (Suc j)
    have step: "compare_keys (item_key (items ! j)) (item_key (items ! Suc j)) < 0"
      using assms(1) Suc.prems v [of j] v [of "Suc j"] compare_swap by (auto simp: increasing_def)
    show ?case
    proof (cases "i = j")
      case False
      with Suc have "compare_keys (item_key (items ! i)) (item_key (items ! j)) < 0" by simp
      from compare_trans [OF v v v this step] Suc.prems show ?thesis by simp
    qed (use step in simp)
  qed simp
  with assms(2) show ?thesis by (simp add: sorted_items_def)
qed

lemma seek_linear_items:
  assumes ok: "items_ok items" and "i \<le> length items" "iter_after items i it"
    and "bi_key it = key_before items i \<or> i < length items \<and> fst (items ! i) = 0"
    and "\<forall>m < i. compare_keys (item_key (items ! m)) target < 0"
  shows "\<exists>it'. seek_linear (view_of items rs) compare_keys target it = Some it' \<and> bi_status it' = bi_status it
    \<and> (case find (\<lambda>item. compare_keys (item_key item) target \<ge> 0) items of
          None \<Rightarrow> \<not> IterValid (view_of items rs) it'
        | Some item \<Rightarrow> IterValid (view_of items rs) it' \<and> bi_key it' = item_key item
            \<and> IterValue (view_of items rs) it' = item_value item)"
  using assms(2-)
proof (induction "length items - i" arbitrary: i it)
  case 0
  then have i: "i = length items" by simp
  from ParseNextKey_end [of items it rs] 0(3) i obtain it' where
    "ParseNextKey (view_of items rs) it = Some (it', False)" "\<not> IterValid (view_of items rs) it'" "bi_status it' = bi_status it"
    by auto
  moreover have "find (\<lambda>item. compare_keys (item_key item) target \<ge> 0) items = None"
    using 0(5) i by (auto simp: find_None_iff in_set_conv_nth)
  ultimately show ?case by (subst seek_linear.simps) simp
next
  case (Suc n)
  then have i: "i < length items" by simp
  with Suc.prems(3) have "bi_key it = key_before items i \<or> fst (items ! i) = 0" by auto
  from ParseNextKey_item [OF ok i Suc.prems(2) this, of rs] obtain it1 where
    it1: "ParseNextKey (view_of items rs) it = Some (it1, True)" "iter_at items rs i it1" "bi_status it1 = bi_status it"
    by blast
  have key: "bi_key it1 = item_key (items ! i)" using it1(2) by (simp add: iter_at_def)
  show ?case
  proof (cases "compare_keys (item_key (items ! i)) target \<ge> 0")
    case True
    then have "find (\<lambda>item. compare_keys (item_key item) target \<ge> 0) items = Some (items ! i)"
      using i Suc.prems(4) by (auto simp: find_Some_iff intro!: exI [of _ i] simp: not_le)
    then show ?thesis
      using True it1 key iter_at_valid [OF it1(2)]
      by (subst seek_linear.simps) (simp add: iter_at_def)
  next
    case False
    have "seek_linear (view_of items rs) compare_keys target it = seek_linear (view_of items rs) compare_keys target it1"
      using False it1(1) key by (subst seek_linear.simps) simp
    moreover have "\<forall>m < Suc i. compare_keys (item_key (items ! m)) target < 0"
      using False Suc.prems(4) by (auto simp: less_Suc_eq not_le)
    moreover have "iter_after items (Suc i) it1" "bi_key it1 = key_before items (Suc i)"
      using it1(2) by (simp_all add: iter_at_def key_before_def)
    ultimately show ?thesis
      using Suc.hyps(1) [of "Suc i" it1] Suc.hyps(2) i it1(3) by auto
  qed
qed

lemma seek_binary_items:
  assumes ok: "items_ok items" and js: "restarts_at items js" and items: "items \<noteq> []"
    and "left \<le> right" "right < length js"
    and "left = 0 \<or> compare_keys (item_key (items ! (js ! left))) target < 0"
  shows "\<exists>l. seek_binary (view_of items (restart_words items js)) compare_keys target left right = Some (Some l)
    \<and> l < length js \<and> (l = 0 \<or> compare_keys (item_key (items ! (js ! l))) target < 0)"
  using assms(4-)
proof (induction "right - left" arbitrary: left right rule: less_induct)
  case less
  define v where "v = view_of items (restart_words items js)"
  show ?case
  proof (cases "left < right")
    case False
    with less.prems show ?thesis by (subst seek_binary.simps) auto
  next
    case True
    define mid where "mid = (left + right + 1) div 2"
    have mid: "left < mid" "mid \<le> right" using True by (auto simp: mid_def)
    define i where "i = js ! mid"
    have "i \<in> set js" using mid less.prems(2) by (simp add: i_def)
    then have i: "i < length items" "fst (items ! i) = 0"
      using js items by (auto simp: restarts_at_def split: if_splits)
    obtain k w where item: "items ! i = (0, k, w)" using i(2) by (cases "items ! i") auto
    note d = item_decoded [OF ok i(1) item]
    define rest where "rest = drop 0 k @ w @ items_bytes (drop (Suc i) items)"
    have off: "item_offset items i < 2 ^ LENGTH(32)"
      using ok item_offset_le [where items = items and i = i] by (simp add: items_ok_def)
    then have "unat (restart_words items js ! mid) = item_offset items i"
      using mid less.prems(2) by (simp add: restart_words_def unat_of_nat_small i_def)
    then have point: "GetRestartPoint v mid = Some (item_offset items i)"
      using mid less.prems(2) by (simp add: v_def GetRestartPoint_view restart_words_def)
    have dec: "DecodeEntry (take (bv_restarts v - item_offset items i) (drop (item_offset items i) (bv_data v)))
        = Some (0, of_nat (length k), of_nat (length w), rest)"
      using d(1) region_bytes [OF i(1), of "restart_words items js"] by (simp add: v_def view_of_def rest_def)
    have ptr: "take (length k) (drop (bv_restarts v - length rest) (bv_data v)) = k"
      using d(6) [of "restart_words items js"] by (simp add: v_def view_of_def rest_def)
    have inside: "bv_restarts v - length rest + length k \<le> length (bv_data v)"
      using d(7) by (simp add: v_def view_of_def rest_def block_contents_def)
    have len: "unat (of_nat (length k) :: u32) = length k" using d(3) by simp
    have mid_eq: "Suc (left + right) div 2 = mid" by (simp add: mid_def)
    have step: "seek_binary v compare_keys target left right
        = (if compare_keys k target < 0 then seek_binary v compare_keys target mid right
           else seek_binary v compare_keys target left (mid - 1))"
      using True point dec ptr inside len
      by (subst seek_binary.simps) (simp add: mid_eq Let_def)
    show ?thesis
    proof (cases "compare_keys k target < 0")
      case True
      then have "compare_keys (item_key (items ! (js ! mid))) target < 0" using item by (simp add: i_def)
      with less.hyps [of right mid] mid less.prems True step show ?thesis by (simp add: v_def)
    next
      case False
      with less.hyps [of "mid - 1" left] mid less.prems step show ?thesis by (simp add: v_def)
    qed
  qed
qed

lemma iter_seek_fresh:
  assumes ok: "items_ok items" and js: "restarts_at items js"
    and sorted: "sorted_items items" and target: "valid target"
  defines "v \<equiv> view_of items (restart_words items js)"
  shows "\<exists>it. IterSeek v compare_keys target (NewBlockIter v) = Some it \<and> bi_status it = BlockOk
    \<and> (case find (\<lambda>item. compare_keys (item_key item) target \<ge> 0) items of
          None \<Rightarrow> \<not> IterValid v it
        | Some item \<Rightarrow> IterValid v it \<and> bi_key it = item_key item \<and> IterValue v it = item_value item)"
proof -
  have fresh: "\<not> IterValid v (NewBlockIter v)" "bi_status (NewBlockIter v) = BlockOk"
    by (simp_all add: IterValid_def NewBlockIter_def)
  have n: "0 < length js" "js ! 0 = 0" "bv_num_restarts v = length js"
    using js by (auto simp: restarts_at_def hd_conv_nth v_def view_of_def restart_words_def)
  have "\<exists>l. seek_binary v compare_keys target 0 (length js - 1) = Some (Some l) \<and> l < length js
      \<and> (\<forall>m < js ! l. compare_keys (item_key (items ! m)) target < 0)
      \<and> js ! l \<le> length items \<and> (js ! l < length items \<longrightarrow> fst (items ! (js ! l)) = 0)
      \<and> (length items \<le> js ! l \<longrightarrow> items = [])"
  proof (cases "items = []")
    case True
    then have "js = [0]" using js by (simp add: restarts_at_def)
    with True show ?thesis by (subst seek_binary.simps) simp
  next
    case False
    from seek_binary_items [OF ok js False, of 0 "length js - 1" target] n obtain l where
      l: "seek_binary v compare_keys target 0 (length js - 1) = Some (Some l)" "l < length js"
      "l = 0 \<or> compare_keys (item_key (items ! (js ! l))) target < 0" by (auto simp: v_def)
    have jl: "js ! l < length items" "fst (items ! (js ! l)) = 0"
      using js False l(2) by (auto simp: restarts_at_def split: if_splits)
    have "compare_keys (item_key (items ! m)) target < 0" if "m < js ! l" for m
    proof -
      have "l \<noteq> 0" using that n(2) by (metis not_less_zero)
      then have "compare_keys (item_key (items ! (js ! l))) target < 0" using l(3) by simp
      moreover have "compare_keys (item_key (items ! m)) (item_key (items ! (js ! l))) < 0"
        "valid (item_key (items ! m))" "valid (item_key (items ! (js ! l)))"
        using sorted that jl(1) by (simp_all add: sorted_items_def)
      ultimately show ?thesis using compare_trans target by blast
    qed
    with l jl show ?thesis by auto
  qed
  then obtain l where l: "seek_binary v compare_keys target 0 (length js - 1) = Some (Some l)" "l < length js"
    "\<forall>m < js ! l. compare_keys (item_key (items ! m)) target < 0" "js ! l \<le> length items"
    "js ! l < length items \<longrightarrow> fst (items ! (js ! l)) = 0" "length items \<le> js ! l \<longrightarrow> items = []" by blast
  from seek_restart_item [OF ok js l(2), of "NewBlockIter v"] obtain it1 where
    it1: "SeekToRestartPoint v l (NewBlockIter v) = Some it1" "iter_after items (js ! l) it1" "bi_key it1 = []"
      "bi_status it1 = BlockOk"
    using fresh(2) by (auto simp: v_def)
  have "bi_key it1 = key_before items (js ! l) \<or> js ! l < length items \<and> fst (items ! (js ! l)) = 0"
    using it1(3) l(4-6) by (cases "js ! l < length items") (auto simp: key_before_def)
  note linear = seek_linear_items [OF ok l(4) it1(2) this l(3), of "restart_words items js", folded v_def]
  have "IterSeek v compare_keys target (NewBlockIter v) = seek_linear v compare_keys target it1"
    using it1(1) l(1) fresh n(3) by (simp add: IterSeek_def)
  with linear it1(4) show ?thesis by simp
qed

lemma block_seek_correct:
  assumes "1 \<le> interval" "increasing compare_keys (map fst entries)" "valid target"
    and "\<forall>(key, val) \<in> set entries. valid key \<and> length key < 2 ^ 32"
  shows "\<exists>contents. build_block interval compare_keys entries = Some contents
    \<and> (length contents < 2 ^ 32 \<longrightarrow> (\<exists>v fresh it. NewIterator (NewBlock contents) = EntryIterator v fresh
        \<and> IterSeek v compare_keys target fresh = Some it \<and> bi_status it = BlockOk
        \<and> (case find (\<lambda>(key, val). compare_keys key target \<ge> 0) entries of
              None \<Rightarrow> \<not> IterValid v it
            | Some (key, val) \<Rightarrow> IterValid v it \<and> bi_key it = key \<and> IterValue v it = val)))"
proof -
  from build_block_layout [OF assms(1,2)] obtain items js where
    b: "build_block interval compare_keys entries = Some (block_contents items (restart_words items js))"
    "map snd items = entries" "restarts_at items js" "items_linked items" by blast
  have find_eq: "find (\<lambda>(key, val). compare_keys key target \<ge> 0) entries
      = map_option snd (find (\<lambda>item. compare_keys (item_key item) target \<ge> 0) items)"
    unfolding b(2) [symmetric] by (induction items) (auto simp: case_prod_beta)
  have sorted: "sorted_items items"
  proof (rule sorted_itemsI)
    show "increasing compare_keys (map item_key items)" using assms(2) b(2) by (auto simp: o_def)
    show "\<forall>item \<in> set items. valid (item_key item)" using assms(4) b(2) by force
  qed
  have "\<exists>v fresh it. NewIterator (NewBlock contents) = EntryIterator v fresh
        \<and> IterSeek v compare_keys target fresh = Some it \<and> bi_status it = BlockOk
        \<and> (case find (\<lambda>(key, val). compare_keys key target \<ge> 0) entries of
              None \<Rightarrow> \<not> IterValid v it
            | Some (key, val) \<Rightarrow> IterValid v it \<and> bi_key it = key \<and> IterValue v it = val)"
    if c: "contents = block_contents items (restart_words items js)" and small: "length contents < 2 ^ 32" for contents
  proof -
    have ok: "items_ok items"
      using layout_ok [OF b(4,2), of "restart_words items js"] small c assms(4) by auto
    have "restart_words items js \<noteq> []" using b(3) by (simp add: restart_words_def restarts_at_def)
    with NewIterator_contents [of "restart_words items js" items] small c
    have new: "NewIterator (NewBlock contents) = EntryIterator (view_of items (restart_words items js))
        (NewBlockIter (view_of items (restart_words items js)))" by simp
    from iter_seek_fresh [OF ok b(3) sorted assms(3)] new show ?thesis
      unfolding find_eq by (fastforce split: option.splits simp: case_prod_beta)
  qed
  with b(1) show ?thesis by blast
qed

end

section \<open>Properties\<close>

text \<open>
  C15: a block gives back what was put into it. For every comparator function, every restart
  interval of at least 1 and entries in increasing order, no assertion of \<open>Add\<close> fails, and scanning
  the finished block from \<open>SeekToFirst\<close> with \<open>Next\<close> yields exactly the entries, in order.
\<close>

theorem block_scan_roundtrip:
  assumes "1 \<le> interval" "increasing cmp (map fst entries)" "entries \<noteq> []"
    and "\<forall>(key, val) \<in> set entries. length key < 2 ^ 32"
  shows "\<exists>contents. build_block interval cmp entries = Some contents
    \<and> (length contents < 2 ^ 32 \<longrightarrow> (\<exists>v fresh it. NewIterator (NewBlock contents) = EntryIterator v fresh
        \<and> IterSeekToFirst v fresh = Some it \<and> collect (Suc (length entries)) v it = Some entries))"
proof -
  from build_block_layout [OF assms(1,2)] obtain items js where
    b: "build_block interval cmp entries = Some (block_contents items (restart_words items js))"
    "map snd items = entries" "restarts_at items js" "items_linked items" by blast
  define v where "v = view_of items (restart_words items js)"
  have "\<exists>it. NewIterator (NewBlock (block_contents items (restart_words items js))) = EntryIterator v (NewBlockIter v)
      \<and> IterSeekToFirst v (NewBlockIter v) = Some it \<and> collect (Suc (length entries)) v it = Some entries"
    if small: "length (block_contents items (restart_words items js)) < 2 ^ 32"
  proof -
    have ok: "items_ok items" by (rule layout_ok [OF b(4,2) small assms(4)])
    have ne: "restart_words items js \<noteq> []" "items \<noteq> []"
      using b(2,3) assms(3) by (auto simp: restart_words_def restarts_at_def)
    from seek_to_first_items [OF ok b(3) ne(2)] obtain it where
      it: "IterSeekToFirst v (NewBlockIter v) = Some it" "iter_at items (restart_words items js) 0 it"
      by (auto simp: v_def)
    have "length entries = length items" using b(2) by auto
    with collect_items [OF ok it(2), of "Suc (length entries)"] b(2) it(1)
      NewIterator_contents [OF ne(1) small] show ?thesis by (simp add: v_def)
  qed
  with b(1) show ?thesis by blast
qed

theorem block_scan_roundtrip_witness:
  "\<exists>contents. build_block 2 BytewiseCompare [([1], [7]), ([1, 2], [8]), ([3], [])] = Some contents
    \<and> (length contents < 2 ^ 32 \<longrightarrow> (\<exists>v fresh it. NewIterator (NewBlock contents) = EntryIterator v fresh
        \<and> IterSeekToFirst v fresh = Some it
        \<and> collect (Suc (Suc (Suc (Suc 0)))) v it = Some [([1], [7]), ([1, 2], [8]), ([3], [])]))"
proof -
  have "increasing BytewiseCompare (map fst [([1], [7 :: u8]), ([1, 2], [8]), ([3], [])])"
    by (auto simp: increasing_def less_Suc_eq BytewiseCompare_Cons)
  from block_scan_roundtrip [OF _ this, of 2] show ?thesis by (simp del: collect.simps)
qed




end
