(* ===== verification/Format.thy ===== *)
theory Format
  imports Crc32c Status
begin

text \<open>
  The framing of a table file, \<open>table/format.h\<close> and \<open>table/format.cc\<close>: block handles, the
  footer, and blocks followed by a type byte and a masked checksum. A failed assertion or a read
  outside the input is \<open>None\<close>; a \<open>Status\<close> other than OK is \<open>Inl\<close>. The random access file, the
  decompressor and the checksum routine are arguments of \<open>ReadBlock\<close>.
\<close>

section \<open>Block handles\<close>

record BlockHandle =
  bh_offset :: u64
  bh_size :: u64

definition NewBlockHandle :: BlockHandle where
  "NewBlockHandle = \<lparr>bh_offset = NOT 0, bh_size = NOT 0\<rparr>"

definition kMaxEncodedLength :: nat where
  "kMaxEncodedLength = 10 + 10"

definition BlockHandleEncodeTo :: "BlockHandle \<Rightarrow> bytes \<Rightarrow> bytes option" where
  "BlockHandleEncodeTo h dst =
     (if bh_offset h = NOT 0 \<or> bh_size h = NOT 0 then None
      else Some (PutVarint64 (PutVarint64 dst (bh_offset h)) (bh_size h)))"

definition BlockHandleDecodeFrom :: "bytes \<Rightarrow> Status + BlockHandle \<times> bytes" where
  "BlockHandleDecodeFrom input =
     (case GetVarint64 input of
        None \<Rightarrow> Inl (Corruption ''bad block handle'')
      | Some (offset, input) \<Rightarrow>
          (case GetVarint64 input of
             None \<Rightarrow> Inl (Corruption ''bad block handle'')
           | Some (handle_size, input) \<Rightarrow> Inr (\<lparr>bh_offset = offset, bh_size = handle_size\<rparr>, input)))"

section \<open>The footer\<close>

record Footer =
  ft_metaindex_handle :: BlockHandle
  ft_index_handle :: BlockHandle

definition kEncodedLength :: nat where
  "kEncodedLength = 2 * kMaxEncodedLength + 8"

definition kTableMagicNumber :: u64 where
  "kTableMagicNumber = 0xdb4775248b80fb57"

text \<open>\<open>std::string::resize\<close>: cut off, or padded with null bytes.\<close>

definition resize :: "bytes \<Rightarrow> nat \<Rightarrow> bytes" where
  "resize s n = take n s @ replicate (n - length s) 0"

definition FooterEncodeTo :: "Footer \<Rightarrow> bytes \<Rightarrow> bytes option" where
  "FooterEncodeTo f dst =
     (let original_size = length dst in
      Option.bind (BlockHandleEncodeTo (ft_metaindex_handle f) dst) (\<lambda>dst.
      Option.bind (BlockHandleEncodeTo (ft_index_handle f) dst) (\<lambda>dst.
        let dst = resize dst (2 * kMaxEncodedLength);
            dst = PutFixed32 dst (ucast (kTableMagicNumber AND 0xffffffff));
            dst = PutFixed32 dst (ucast (drop_bit 32 kTableMagicNumber))
        in if length dst = original_size + kEncodedLength then Some dst else None)))"

definition FooterDecodeFrom :: "bytes \<Rightarrow> (Status + Footer \<times> bytes) option" where
  "FooterDecodeFrom input =
     (if length input < kEncodedLength then None
      else
        let magic_ptr = drop (kEncodedLength - 8) input;
            magic_lo = DecodeFixed32 magic_ptr;
            magic_hi = DecodeFixed32 (drop 4 magic_ptr);
            magic = push_bit 32 (ucast magic_hi) OR ucast magic_lo
        in if magic \<noteq> kTableMagicNumber
           then Some (Inl (Corruption ''not an sstable (bad magic number)''))
           else
             Some (case BlockHandleDecodeFrom input of
                 Inl e \<Rightarrow> Inl e
               | Inr (metaindex_handle, rest) \<Rightarrow>
                   (case BlockHandleDecodeFrom rest of
                      Inl e \<Rightarrow> Inl e
                    | Inr (index_handle, rest) \<Rightarrow>
                        Inr (\<lparr>ft_metaindex_handle = metaindex_handle, ft_index_handle = index_handle\<rparr>,
                             drop 8 magic_ptr))))"

section \<open>Blocks with their trailer\<close>

definition kBlockTrailerSize :: nat where
  "kBlockTrailerSize = 5"

definition kNoCompression :: u8 where
  "kNoCompression = 0"

definition kSnappyCompression :: u8 where
  "kSnappyCompression = 1"

text \<open>
  The file is \<open>read offset n\<close>, which returns at most \<open>n\<close> bytes or an error; \<open>uncompress\<close> is the
  pair of Snappy calls, \<open>None\<close> when either fails.
\<close>

type_synonym random_access_file = "u64 \<Rightarrow> nat \<Rightarrow> Status + bytes"

definition ReadBlock ::
    "(u32 \<Rightarrow> bytes \<Rightarrow> u32) \<Rightarrow> (bytes \<Rightarrow> bytes option) \<Rightarrow> random_access_file \<Rightarrow> bool \<Rightarrow> BlockHandle
      \<Rightarrow> Status + bytes" where
  "ReadBlock extend_crc uncompress read verify_checksums handle =
     (let n = unat (bh_size handle) in
      case read (bh_offset handle) (n + kBlockTrailerSize) of
        Inl e \<Rightarrow> Inl e
      | Inr contents \<Rightarrow>
          if length contents \<noteq> n + kBlockTrailerSize then Inl (Corruption ''truncated block read'')
          else
            let crc = Unmask (DecodeFixed32 (drop (n + 1) contents));
                actual = extend_crc 0 (take (n + 1) contents)
            in if verify_checksums \<and> actual \<noteq> crc then Inl (Corruption ''block checksum mismatch'')
               else if contents ! n = kNoCompression then Inr (take n contents)
               else if contents ! n = kSnappyCompression then
                 (case uncompress (take n contents) of
                    None \<Rightarrow> Inl (Corruption ''corrupted compressed block contents'')
                  | Some ubuf \<Rightarrow> Inr ubuf)
               else Inl (Corruption ''bad block type''))"

text \<open>The five bytes that \<open>TableBuilder::WriteRawBlock\<close> puts after a block.\<close>

definition block_trailer :: "(u32 \<Rightarrow> bytes \<Rightarrow> u32) \<Rightarrow> bytes \<Rightarrow> u8 \<Rightarrow> bytes" where
  "block_trailer extend_crc block_contents type =
     (let crc = extend_crc 0 block_contents;
          crc = extend_crc crc [type]
      in type # EncodeFixed32 (Mask crc))"

section \<open>Handles and footers are read back\<close>

lemma length_block_trailer [simp]: "length (block_trailer extend_crc c t) = kBlockTrailerSize"
  by (simp add: block_trailer_def kBlockTrailerSize_def Let_def)

definition handle_set :: "BlockHandle \<Rightarrow> bool" where
  "handle_set h \<longleftrightarrow> bh_offset h \<noteq> NOT 0 \<and> bh_size h \<noteq> NOT 0"

definition handle_bytes :: "BlockHandle \<Rightarrow> bytes" where
  "handle_bytes h = EncodeVarint64 (bh_offset h) @ EncodeVarint64 (bh_size h)"

lemma BlockHandleEncodeTo_eq:
  "BlockHandleEncodeTo h dst = (if handle_set h then Some (dst @ handle_bytes h) else None)"
  by (simp add: BlockHandleEncodeTo_def handle_set_def handle_bytes_def PutVarint64_def)

lemma BlockHandleDecodeFrom_bytes [simp, roundtrip]:
  "BlockHandleDecodeFrom (handle_bytes h @ rest) = Inr (h, rest)"
  by (simp add: BlockHandleDecodeFrom_def handle_bytes_def)

lemma length_handle_bytes: "length (handle_bytes h) \<le> kMaxEncodedLength"
  using length_EncodeVarint64_le_10 [of "bh_offset h"] length_EncodeVarint64_le_10 [of "bh_size h"]
  by (simp add: handle_bytes_def kMaxEncodedLength_def)

lemma resize_pad: "length s \<le> n \<Longrightarrow> resize s n = s @ replicate (n - length s) 0"
  by (simp add: resize_def)

definition footer_bytes :: "Footer \<Rightarrow> bytes" where
  "footer_bytes f =
     resize (handle_bytes (ft_metaindex_handle f) @ handle_bytes (ft_index_handle f)) (2 * kMaxEncodedLength)
       @ EncodeFixed32 (ucast (kTableMagicNumber AND 0xffffffff))
       @ EncodeFixed32 (ucast (drop_bit 32 kTableMagicNumber))"

lemma length_resize [simp]: "length (resize s n) = n"
  by (simp add: resize_def min_def)

lemma length_footer_bytes [simp]: "length (footer_bytes f) = kEncodedLength"
  by (simp add: footer_bytes_def kEncodedLength_def)

lemma FooterEncodeTo_eq:
  "FooterEncodeTo f [] = (if handle_set (ft_metaindex_handle f) \<and> handle_set (ft_index_handle f)
     then Some (footer_bytes f) else None)"
  by (simp add: FooterEncodeTo_def BlockHandleEncodeTo_eq footer_bytes_def PutFixed32_def Let_def
      kEncodedLength_def)

lemma magic_parts:
  "push_bit 32 (ucast (ucast (drop_bit 32 kTableMagicNumber) :: u32)) OR
     ucast (ucast (kTableMagicNumber AND 0xffffffff) :: u32) = kTableMagicNumber"
  by (simp add: kTableMagicNumber_def)

lemma FooterDecodeFrom_bytes [simp, roundtrip]:
  "FooterDecodeFrom (footer_bytes f @ rest) = Some (Inr (f, rest))"
proof -
  define m where "m = EncodeFixed32 (ucast (kTableMagicNumber AND 0xffffffff))
    @ EncodeFixed32 (ucast (drop_bit 32 kTableMagicNumber))"
  have "length (handle_bytes (ft_metaindex_handle f) @ handle_bytes (ft_index_handle f)) \<le> 2 * kMaxEncodedLength"
    using length_handle_bytes [of "ft_metaindex_handle f"] length_handle_bytes [of "ft_index_handle f"] by simp
  then obtain pad where f: "footer_bytes f
      = handle_bytes (ft_metaindex_handle f) @ handle_bytes (ft_index_handle f) @ pad @ m"
    by (simp add: footer_bytes_def resize_pad m_def)
  have "drop (kEncodedLength - 8) (footer_bytes f @ rest) = m @ rest"
    by (simp add: footer_bytes_def kEncodedLength_def m_def)
  moreover have "BlockHandleDecodeFrom (footer_bytes f @ rest)
      = Inr (ft_metaindex_handle f, handle_bytes (ft_index_handle f) @ pad @ m @ rest)"
    by (simp add: f)
  ultimately show ?thesis
    by (simp add: FooterDecodeFrom_def m_def magic_parts Let_def)
qed

section \<open>Blocks are read back\<close>

text \<open>A file that holds the given bytes at an offset, wherever the rest of it comes from.\<close>

definition file_of :: "bytes \<Rightarrow> random_access_file" where
  "file_of data offset n = Inr (take n (drop (unat offset) data))"

context checksum
begin

lemma block_trailer_crc: "Unmask (DecodeFixed32 (drop 1 (block_trailer extend_crc c t))) = extend_crc 0 (c @ [t])"
  by (simp add: block_trailer_def Let_def extend_append)

lemma ReadBlock_contents:
  assumes "read (bh_offset h) (length c + kBlockTrailerSize) = Inr (c @ block_trailer extend_crc c t)"
    and "unat (bh_size h) = length c"
  shows "ReadBlock extend_crc uncompress read verify h =
    (if t = kNoCompression then Inr c
     else if t = kSnappyCompression then
       (case uncompress c of None \<Rightarrow> Inl (Corruption ''corrupted compressed block contents'') | Some u \<Rightarrow> Inr u)
     else Inl (Corruption ''bad block type''))"
proof -
  have "(c @ block_trailer extend_crc c t) ! length c = t" "take (length c + 1) (c @ block_trailer extend_crc c t) = c @ [t]"
    by (simp_all add: block_trailer_def Let_def nth_append)
  then show ?thesis
    using assms block_trailer_crc [of c t]
    by (simp add: ReadBlock_def Let_def)
qed

end

section \<open>Error detection\<close>

lemma EncodeFixed32_DecodeFixed32: "length p = 4 \<Longrightarrow> EncodeFixed32 (DecodeFixed32 p) = p"
proof -
  assume "length p = 4"
  then obtain a b c d where p: "p = [a, b, c, d]"
    by (auto simp: numeral_eq_Suc length_Suc_conv)
  have l: "\<not> bit x n" if "8 \<le> n" for x :: u8 and n using bit_imp_le_length [of x n] that by auto
  show ?thesis
    unfolding p EncodeFixed32_def DecodeFixed32_def
    by (simp, intro conjI; rule bit_word_eqI) (auto simp: bit_simps l)
qed


lemma DecodeFixed32_inject:
  "length p = 4 \<Longrightarrow> length q = 4 \<Longrightarrow> DecodeFixed32 p = DecodeFixed32 q \<longleftrightarrow> p = q"
  by (metis EncodeFixed32_DecodeFixed32)

lemma Unmask_inject: "Unmask a = Unmask b \<longleftrightarrow> a = b"
proof
  define r where "r = (\<lambda>w :: u32. drop_bit 17 w OR push_bit 15 w)"
  have inv: "drop_bit 15 (r w) OR push_bit 17 (r w) = w" for w
  proof (rule bit_word_eqI)
    fix n assume "n < LENGTH(32)"
    then show "bit (drop_bit 15 (r w) OR push_bit 17 (r w)) n = bit w n"
      unfolding r_def by (cases "n < 17") (auto simp: bit_simps dest: bit_imp_le_length)
  qed
  assume "Unmask a = Unmask b"
  then have "r (a - kMaskDelta) = r (b - kMaskDelta)" by (simp add: Unmask_def r_def Let_def)
  then have "a - kMaskDelta = b - kMaskDelta" by (metis inv)
  then show "a = b" by simp
qed simp

text \<open>One wrong byte anywhere in a stored block, its type byte or its checksum.\<close>

lemma stored_block_mismatch:
  assumes "i < length c + kBlockTrailerSize" "stored = c @ block_trailer crc32c_reference c t" "x \<noteq> stored ! i"
  shows "Unmask (DecodeFixed32 (drop (length c + 1) (stored[i := x])))
    \<noteq> crc32c_reference 0 (take (length c + 1) (stored[i := x]))"
proof (cases "i < length c + 1")
  case True
  have st: "take (length c + 1) stored = c @ [t]" "drop (length c + 1) stored = drop 1 (block_trailer crc32c_reference c t)"
    by (simp_all add: assms(2) block_trailer_def Let_def)
  have "x \<noteq> (c @ [t]) ! i" using assms(3) True st(1) by (metis nth_take)
  then have "crc32c_reference 0 ((c @ [t])[i := x]) \<noteq> crc32c_reference 0 (c @ [t])"
    using True by (intro crc_detects_byte) simp_all
  then show ?thesis
    using reference.block_trailer_crc [of c t] True st by (simp add: take_update_swap)
next
  case False
  define tr where "tr = drop (length c + 1) stored"
  have tr: "length tr = 4" "Unmask (DecodeFixed32 tr) = crc32c_reference 0 (c @ [t])"
    using reference.block_trailer_crc [of c t]
    by (simp_all add: tr_def assms(2) block_trailer_def Let_def)
  have d: "drop (length c + 1) (stored[i := x]) = tr[i - (length c + 1) := x]"
    using False by (simp add: tr_def drop_update_swap)
  have "tr ! (i - (length c + 1)) \<noteq> x" "i - (length c + 1) < length tr"
    using assms(1,3) False tr(1) by (simp_all add: tr_def kBlockTrailerSize_def)
  then have "tr[i - (length c + 1) := x] \<noteq> tr" by (metis nth_list_update_eq)
  then have "Unmask (DecodeFixed32 (tr[i - (length c + 1) := x])) \<noteq> crc32c_reference 0 (c @ [t])"
    using tr by (simp add: Unmask_inject DecodeFixed32_inject flip: tr(2))
  moreover have "take (length c + 1) (stored[i := x]) = c @ [t]"
    using False by (simp add: assms(2) block_trailer_def Let_def)
  ultimately show ?thesis using d by simp
qed

section \<open>Properties\<close>

text \<open>
  A block written with its trailer at an offset of a file is read back by the handle: an
  uncompressed block as it was, a compressed one through the decompressor, with or without
  checksum verification and wherever the buffers of the checksum lie.
\<close>

lemma read_block_roundtrip:
  assumes "accelerator_ok accel" "type = kNoCompression \<or> type = kSnappyCompression \<and> uncompress c = Some raw"
    and "bh_offset h = of_nat (length before)" "bh_size h = of_nat (length c)"
    and "length before < 2 ^ 64" "length c < 2 ^ 64"
  shows "ReadBlock (Extend accel address) uncompress
      (file_of (before @ c @ block_trailer (Extend accel address) c type @ after)) verify h
    = Inr (if type = kNoCompression then c else raw)"
proof -
  have "unat (bh_offset h) = length before" "unat (bh_size h) = length c"
    using assms(3-) by (simp_all add: unat_of_nat_small)
  then show ?thesis
    using assms(2) by (subst checksum.ReadBlock_contents [OF checksum_Extend [OF assms(1)], where c = c and t = type])
      (auto simp: file_of_def kBlockTrailerSize_def kNoCompression_def kSnappyCompression_def)
qed

text \<open>
  C19: with checksum verification a single wrong byte is always detected. If the file returns the
  stored block with one byte changed, in its contents, its type or its checksum, \<open>ReadBlock\<close>
  reports a checksum mismatch.
\<close>

theorem read_block_detects_byte_error:
  assumes "accelerator_ok accel" "stored = c @ block_trailer (Extend accel address) c type"
    and "i < length stored" "x \<noteq> stored ! i" "bh_size h = of_nat (length c)" "length c < 2 ^ 64"
    and "read (bh_offset h) (length c + kBlockTrailerSize) = Inr (stored[i := x])"
  shows "ReadBlock (Extend accel address) uncompress read True h
    = Inl (Corruption ''block checksum mismatch'')"
proof -
  have e: "Extend accel address = crc32c_reference"
    using Extend_reference [OF assms(1)] by (simp add: fun_eq_iff)
  have "unat (bh_size h) = length c" using assms(5,6) by (simp add: unat_of_nat_small)
  moreover have "i < length c + kBlockTrailerSize" "stored = c @ block_trailer crc32c_reference c type"
    using assms(2,3) e by simp_all
  ultimately show ?thesis
    using stored_block_mismatch [OF _ _ assms(4), of c type] assms(7)
    by (simp add: ReadBlock_def e Let_def)
qed

theorem read_block_detects_byte_error_witness:
  "ReadBlock (Extend (\<lambda>_ _. 0) 0) (\<lambda>_. None)
     (\<lambda>_ _. Inr (([1, 2] @ block_trailer (Extend (\<lambda>_ _. 0) 0) [1, 2] 0)[1 := 3])) True
     \<lparr>bh_offset = 0, bh_size = 2\<rparr> = Inl (Corruption ''block checksum mismatch'')"
  using read_block_detects_byte_error [OF accelerator_ok_none refl, of 1 "[1, 2]" 0 0 3
      "\<lparr>bh_offset = 0, bh_size = 2\<rparr>"
      "\<lambda>_ _. Inr (([1, 2] @ block_trailer (Extend (\<lambda>_ _. 0) 0) [1, 2] 0)[1 := 3])"]
  by simp

text \<open>
  A footer whose handles are set encodes to 48 bytes, and \<open>DecodeFrom\<close> returns both handles
  and what follows the footer; a handle that was never set fails the assertion of \<open>EncodeTo\<close>.
\<close>

lemma footer_roundtrip:
  "if handle_set (ft_metaindex_handle f) \<and> handle_set (ft_index_handle f)
   then \<exists>b. FooterEncodeTo f [] = Some b \<and> length b = 48 \<and> FooterDecodeFrom (b @ rest) = Some (Inr (f, rest))
   else FooterEncodeTo f [] = None"
  by (simp add: FooterEncodeTo_eq kEncodedLength_def kMaxEncodedLength_def)

end
