(* ===== verification/Table_Builder.thy ===== *)
theory Table_Builder
  imports Block Filter_Block Format
begin

text \<open>
  The table builder, \<open>table/table_builder.cc\<close>: entries in increasing order become data blocks, a
  filter block, the metaindex, the index and the footer. The options are a record; the file, the
  checksum routine and the compressor are arguments. A failed assertion, and a call on a null
  pointer, is \<open>None\<close>; an error of the file is kept in the status.
\<close>

section \<open>State\<close>

text \<open>
  The comparator is its functions and its address, which \<open>ChangeOptions\<close> compares; a filter policy
  is its \<open>CreateFilter\<close> and its name. \<open>index_block_options\<close> differ in the restart interval only,
  which is 1.
\<close>

record table_options =
  to_comparator :: nat
  to_compare :: "bytes \<Rightarrow> bytes \<Rightarrow> int"
  to_separator :: "bytes \<Rightarrow> bytes \<Rightarrow> bytes option"
  to_successor :: "bytes \<Rightarrow> bytes option"
  to_block_size :: nat
  to_restart_interval :: nat
  to_compression :: u8
  to_filter :: "((bytes list \<Rightarrow> bytes \<Rightarrow> bytes option) \<times> bytes) option"

record 'f table_env =
  te_append :: "bytes \<Rightarrow> 'f \<Rightarrow> Status \<times> 'f"
  te_flush :: "'f \<Rightarrow> Status \<times> 'f"
  te_extend :: "u32 \<Rightarrow> bytes \<Rightarrow> u32"
  te_compress :: "bytes \<Rightarrow> bytes option"

record 'f TableBuilder =
  tb_options :: table_options
  tb_file :: 'f
  tb_offset :: u64
  tb_status :: Status
  tb_data_block :: BlockBuilder
  tb_index_block :: BlockBuilder
  tb_last_key :: bytes
  tb_num_entries :: nat
  tb_closed :: bool
  tb_filter_block :: "((bytes list \<Rightarrow> bytes \<Rightarrow> bytes option) \<times> FilterBlockBuilder) option"
  tb_pending_index_entry :: bool
  tb_pending_handle :: BlockHandle

section \<open>Operations\<close>

definition start_filter_block :: "'f TableBuilder \<Rightarrow> 'f TableBuilder option" where
  "start_filter_block r =
     (case tb_filter_block r of
        None \<Rightarrow> Some r
      | Some (create, fb) \<Rightarrow>
          map_option (\<lambda>fb. r\<lparr>tb_filter_block := Some (create, fb)\<rparr>) (StartBlock create (tb_offset r) fb))"

text \<open>The restart interval is asserted by the constructor of a block builder.\<close>

definition NewTableBuilder :: "table_options \<Rightarrow> 'f \<Rightarrow> 'f TableBuilder option" where
  "NewTableBuilder opts file =
     (if to_restart_interval opts < 1 then None
      else start_filter_block
        \<lparr>tb_options = opts, tb_file = file, tb_offset = 0, tb_status = OK, tb_data_block = NewBlockBuilder,
         tb_index_block = NewBlockBuilder, tb_last_key = [], tb_num_entries = 0, tb_closed = False,
         tb_filter_block = map_option (\<lambda>(create, _). (create, NewFilterBlockBuilder)) (to_filter opts),
         tb_pending_index_entry = False, tb_pending_handle = NewBlockHandle\<rparr>)"

definition ChangeOptions :: "table_options \<Rightarrow> 'f TableBuilder \<Rightarrow> Status \<times> 'f TableBuilder" where
  "ChangeOptions opts r =
     (if to_comparator opts \<noteq> to_comparator (tb_options r)
      then (InvalidArgument ''changing comparator while building table'', r)
      else (OK, r\<lparr>tb_options := opts\<rparr>))"

definition WriteRawBlock :: "'f table_env \<Rightarrow> bytes \<Rightarrow> u8 \<Rightarrow> 'f TableBuilder \<Rightarrow> BlockHandle \<times> 'f TableBuilder" where
  "WriteRawBlock env contents type r =
     (let handle = \<lparr>bh_offset = tb_offset r, bh_size = of_nat (length contents)\<rparr> in
      case te_append env contents (tb_file r) of (status, file) \<Rightarrow>
        if status = OK then
          (case te_append env (block_trailer (te_extend env) contents type) file of (status, file) \<Rightarrow>
             (handle, r\<lparr>tb_file := file, tb_status := status,
                tb_offset := (if status = OK then tb_offset r + of_nat (length contents + kBlockTrailerSize)
                  else tb_offset r)\<rparr>))
        else (handle, r\<lparr>tb_file := file, tb_status := status\<rparr>))"

text \<open>What is stored for a block, and its type.\<close>

definition block_to_store :: "'f table_env \<Rightarrow> u8 \<Rightarrow> bytes \<Rightarrow> bytes \<times> u8" where
  "block_to_store env type raw =
     (if type = kNoCompression then (raw, type)
      else if type = kSnappyCompression then
        (case te_compress env raw of
           Some compressed \<Rightarrow>
             if length compressed < length raw - length raw div 8 then (compressed, type) else (raw, kNoCompression)
         | None \<Rightarrow> (raw, kNoCompression))
      else ([], type))"

definition WriteBlock ::
    "'f table_env \<Rightarrow> BlockBuilder \<Rightarrow> 'f TableBuilder \<Rightarrow> (BlockHandle \<times> BlockBuilder \<times> 'f TableBuilder) option" where
  "WriteBlock env block r =
     (if tb_status r \<noteq> OK then None
      else
        case BlockBuilderFinish block of (block, raw) \<Rightarrow>
        case block_to_store env (to_compression (tb_options r)) raw of (contents, type) \<Rightarrow>
        case WriteRawBlock env contents type r of (handle, r) \<Rightarrow>
          Some (handle, BlockBuilderReset block, r))"

definition TableFlush :: "'f table_env \<Rightarrow> 'f TableBuilder \<Rightarrow> 'f TableBuilder option" where
  "TableFlush env r =
     (if tb_closed r then None
      else if tb_status r \<noteq> OK then Some r
      else if bb_buffer (tb_data_block r) = [] then Some r
      else if tb_pending_index_entry r then None
      else
        Option.bind (WriteBlock env (tb_data_block r) r) (\<lambda>(handle, block, r).
          let r = r\<lparr>tb_data_block := block, tb_pending_handle := handle\<rparr>;
              r = (if tb_status r = OK then
                     (case te_flush env (tb_file r) of (status, file) \<Rightarrow>
                        r\<lparr>tb_pending_index_entry := True, tb_status := status, tb_file := file\<rparr>)
                   else r)
          in start_filter_block r))"

text \<open>An index entry for the block that was written last, under the key \<open>last_key\<close>.\<close>

definition add_index_entry :: "bytes \<Rightarrow> 'f TableBuilder \<Rightarrow> 'f TableBuilder option" where
  "add_index_entry last_key r =
     Option.bind (BlockHandleEncodeTo (tb_pending_handle r) []) (\<lambda>handle_encoding.
       map_option (\<lambda>index_block. r\<lparr>tb_last_key := last_key, tb_index_block := index_block, tb_pending_index_entry := False\<rparr>)
         (BlockBuilderAdd 1 (to_compare (tb_options r)) last_key handle_encoding (tb_index_block r)))"

definition add_filter_key :: "bytes \<Rightarrow> 'f TableBuilder \<Rightarrow> 'f TableBuilder" where
  "add_filter_key key r =
     r\<lparr>tb_filter_block := map_option (\<lambda>(create, fb). (create, FilterAddKey key fb)) (tb_filter_block r)\<rparr>"

definition TableAdd :: "'f table_env \<Rightarrow> bytes \<Rightarrow> bytes \<Rightarrow> 'f TableBuilder \<Rightarrow> 'f TableBuilder option" where
  "TableAdd env key value r =
     (if tb_closed r then None
      else if tb_status r \<noteq> OK then Some r
      else if tb_num_entries r > 0 \<and> \<not> to_compare (tb_options r) key (tb_last_key r) > 0 then None
      else
        Option.bind
          (if tb_pending_index_entry r then
             (if bb_buffer (tb_data_block r) \<noteq> [] then None
              else Option.bind (to_separator (tb_options r) (tb_last_key r) key) (\<lambda>last_key. add_index_entry last_key r))
           else Some r) (\<lambda>r.
        let r = add_filter_key key r;
            r = r\<lparr>tb_last_key := key, tb_num_entries := tb_num_entries r + 1\<rparr>
        in Option.bind (BlockBuilderAdd (to_restart_interval (tb_options r)) (to_compare (tb_options r)) key value
               (tb_data_block r)) (\<lambda>data_block.
             let r = r\<lparr>tb_data_block := data_block\<rparr> in
             if CurrentSizeEstimate data_block \<ge> to_block_size (tb_options r) then TableFlush env r else Some r)))"

text \<open>The four parts of \<open>Finish\<close> after the flush. A handle that was not written keeps its initial value.\<close>

definition finish_filter :: "'f table_env \<Rightarrow> 'f TableBuilder \<Rightarrow> (BlockHandle \<times> 'f TableBuilder) option" where
  "finish_filter env r =
     (case tb_filter_block r of
        Some (create, fb) \<Rightarrow>
          if tb_status r = OK
          then map_option (\<lambda>contents. WriteRawBlock env contents kNoCompression r) (FilterBlockFinish create fb)
          else Some (NewBlockHandle, r)
      | None \<Rightarrow> Some (NewBlockHandle, r))"

definition finish_metaindex :: "'f table_env \<Rightarrow> BlockHandle \<Rightarrow> 'f TableBuilder \<Rightarrow> (BlockHandle \<times> 'f TableBuilder) option" where
  "finish_metaindex env filter_block_handle r =
     (if tb_status r \<noteq> OK then Some (NewBlockHandle, r)
      else if to_restart_interval (tb_options r) < 1 then None
      else
        Option.bind
          (if tb_filter_block r \<noteq> None then
             Option.bind (to_filter (tb_options r)) (\<lambda>(_, name).
             Option.bind (BlockHandleEncodeTo filter_block_handle []) (\<lambda>handle_encoding.
               BlockBuilderAdd (to_restart_interval (tb_options r)) (to_compare (tb_options r))
                 (map (of_nat \<circ> of_char) ''filter.'' @ name) handle_encoding NewBlockBuilder))
           else Some NewBlockBuilder) (\<lambda>meta_index_block.
        map_option (\<lambda>(handle, _, r). (handle, r)) (WriteBlock env meta_index_block r)))"

definition finish_index :: "'f table_env \<Rightarrow> 'f TableBuilder \<Rightarrow> (BlockHandle \<times> 'f TableBuilder) option" where
  "finish_index env r =
     (if tb_status r \<noteq> OK then Some (NewBlockHandle, r)
      else
        Option.bind
          (if tb_pending_index_entry r
           then Option.bind (to_successor (tb_options r) (tb_last_key r)) (\<lambda>last_key. add_index_entry last_key r)
           else Some r) (\<lambda>r.
        map_option (\<lambda>(handle, index_block, r). (handle, r\<lparr>tb_index_block := index_block\<rparr>))
          (WriteBlock env (tb_index_block r) r)))"

definition finish_footer ::
    "'f table_env \<Rightarrow> BlockHandle \<Rightarrow> BlockHandle \<Rightarrow> 'f TableBuilder \<Rightarrow> 'f TableBuilder option" where
  "finish_footer env metaindex_block_handle index_block_handle r =
     (if tb_status r \<noteq> OK then Some r
      else
        map_option (\<lambda>footer_encoding.
            case te_append env footer_encoding (tb_file r) of (status, file) \<Rightarrow>
              r\<lparr>tb_file := file, tb_status := status,
                tb_offset := (if status = OK then tb_offset r + of_nat (length footer_encoding) else tb_offset r)\<rparr>)
          (FooterEncodeTo \<lparr>ft_metaindex_handle = metaindex_block_handle, ft_index_handle = index_block_handle\<rparr> []))"

definition TableFinish :: "'f table_env \<Rightarrow> 'f TableBuilder \<Rightarrow> (Status \<times> 'f TableBuilder) option" where
  "TableFinish env r =
     Option.bind (TableFlush env r) (\<lambda>r.
       if tb_closed r then None
       else
         let r = r\<lparr>tb_closed := True\<rparr> in
         Option.bind (finish_filter env r) (\<lambda>(filter_block_handle, r).
         Option.bind (finish_metaindex env filter_block_handle r) (\<lambda>(metaindex_block_handle, r).
         Option.bind (finish_index env r) (\<lambda>(index_block_handle, r).
         map_option (\<lambda>r. (tb_status r, r)) (finish_footer env metaindex_block_handle index_block_handle r)))))"

definition TableAbandon :: "'f TableBuilder \<Rightarrow> 'f TableBuilder option" where
  "TableAbandon r = (if tb_closed r then None else Some (r\<lparr>tb_closed := True\<rparr>))"

definition NumEntries :: "'f TableBuilder \<Rightarrow> u64" where
  "NumEntries r = of_nat (tb_num_entries r)"

definition FileSize :: "'f TableBuilder \<Rightarrow> u64" where
  "FileSize r = tb_offset r"

text \<open>A table from a list of entries.\<close>

fun add_table_entries :: "'f table_env \<Rightarrow> (bytes \<times> bytes) list \<Rightarrow> 'f TableBuilder \<Rightarrow> 'f TableBuilder option" where
  "add_table_entries env [] r = Some r"
| "add_table_entries env ((key, val) # entries) r = Option.bind (TableAdd env key val r) (add_table_entries env entries)"

definition build_table ::
    "'f table_env \<Rightarrow> table_options \<Rightarrow> 'f \<Rightarrow> (bytes \<times> bytes) list \<Rightarrow> (Status \<times> 'f TableBuilder) option" where
  "build_table env opts file entries =
     Option.bind (NewTableBuilder opts file) (\<lambda>r.
     Option.bind (add_table_entries env entries r) (TableFinish env))"

section \<open>Blocks built entry by entry\<close>

lemma add_entries_snoc:
  "add_entries n cmp (xs @ [(k, v)]) b = Option.bind (add_entries n cmp xs b) (BlockBuilderAdd n cmp k v)"
proof (induction xs arbitrary: b)
  case (Cons x xs)
  then have "add_entries n cmp (xs @ [(k, v)]) = (\<lambda>b. Option.bind (add_entries n cmp xs b) (BlockBuilderAdd n cmp k v))"
    by blast
  then show ?case by (cases x) simp
next
  case Nil
  have "add_entries n cmp [] = Some" by (rule ext) simp
  then show ?case by simp
qed

lemma add_entries_defined:
  assumes "1 \<le> n" "increasing cmp (map fst xs)"
  obtains b items js where "add_entries n cmp xs NewBlockBuilder = Some b" "builder_items items js b" "map snd items = xs"
  using add_entries_items [OF assms(1) builder_items_new, of cmp xs] assms(2)
  by (auto simp: NewBlockBuilder_def)

lemma add_entries_next:
  assumes "1 \<le> n" "increasing cmp (map fst (xs @ [(k, v)]))" "add_entries n cmp xs NewBlockBuilder = Some b"
  obtains b' where "BlockBuilderAdd n cmp k v b = Some b'" "add_entries n cmp (xs @ [(k, v)]) NewBlockBuilder = Some b'"
  using add_entries_defined [OF assms(1,2)] assms(3) by (auto simp: add_entries_snoc)

lemma increasing_Nil: "increasing cmp []"
  by (simp add: increasing_def)

lemma increasing_append1: "increasing cmp (xs @ ys) \<Longrightarrow> increasing cmp xs"
  by (auto simp: increasing_def nth_append split: if_splits dest: Suc_lessD)

lemma increasing_append2:
  assumes "increasing cmp (xs @ ys)"
  shows "increasing cmp ys"
  unfolding increasing_def
proof (intro allI impI)
  fix i assume "Suc i < length ys"
  then have "Suc (length xs + i) < length (xs @ ys)" by simp
  with assms have "cmp ((xs @ ys) ! Suc (length xs + i)) ((xs @ ys) ! (length xs + i)) > 0"
    unfolding increasing_def by blast
  then show "cmp (ys ! Suc i) (ys ! i) > 0" by (simp add: nth_append)
qed

lemma increasing_snoc: "increasing cmp (xs @ [x]) \<longleftrightarrow> increasing cmp xs \<and> (xs = [] \<or> cmp x (last xs) > 0)"
proof (intro iffI conjI)
  assume a: "increasing cmp (xs @ [x])"
  then show "increasing cmp xs" by (rule increasing_append1)
  show "xs = [] \<or> cmp x (last xs) > 0"
  proof (cases "xs = []")
    case False
    then have "Suc (length xs - 1) < length (xs @ [x])" by simp
    with a have "cmp ((xs @ [x]) ! Suc (length xs - 1)) ((xs @ [x]) ! (length xs - 1)) > 0"
      unfolding increasing_def by blast
    with False show ?thesis by (simp add: nth_append last_conv_nth)
  qed simp
next
  assume a: "increasing cmp xs \<and> (xs = [] \<or> cmp x (last xs) > 0)"
  show "increasing cmp (xs @ [x])"
    unfolding increasing_def
  proof (intro allI impI)
    fix i assume "Suc i < length (xs @ [x])"
    then consider "Suc i < length xs" | "Suc i = length xs" by fastforce
    then show "cmp ((xs @ [x]) ! Suc i) ((xs @ [x]) ! i) > 0"
    proof cases
      case 2
      then have "xs \<noteq> []" by auto
      then have "last xs = xs ! i" using 2 by (metis last_conv_nth diff_Suc_1)
      with a 2 \<open>xs \<noteq> []\<close> show ?thesis by (simp add: nth_append)
    qed (use a in \<open>simp add: increasing_def nth_append\<close>)
  qed
qed

definition entries_size :: "(bytes \<times> bytes) list \<Rightarrow> nat" where
  "entries_size xs = (\<Sum>(k, v) \<leftarrow> xs. 19 + length k + length v)"

lemma entries_size_simps [simp]: "entries_size [] = 0" "entries_size (xs @ ys) = entries_size xs + entries_size ys"
  "entries_size ((k, v) # xs) = 19 + length k + length v + entries_size xs"
  by (simp_all add: entries_size_def)

lemma BlockBuilderAdd_size:
  assumes "BlockBuilderAdd n cmp k v b = Some b'"
  shows "CurrentSizeEstimate b' \<le> CurrentSizeEstimate b + (19 + length k + length v)"
proof -
  define s where "s = (if bb_counter b < n then shared_loop (bb_last_key b) k (min (length (bb_last_key b)) (length k)) 0 else 0)"
  have "length (bb_restarts b') \<le> length (bb_restarts b) + 1"
    and "bb_buffer b' = bb_buffer b @ EncodeVarint32 (of_nat s) @ EncodeVarint32 (of_nat (length k - s))
      @ EncodeVarint32 (of_nat (length v)) @ drop s k @ v"
    using assms by (auto simp: BlockBuilderAdd_def Let_def s_def PutVarint32_def split: if_splits)
  then show ?thesis
    using length_EncodeVarint32_le_5 [of "of_nat s"] length_EncodeVarint32_le_5 [of "of_nat (length k - s)"]
      length_EncodeVarint32_le_5 [of "of_nat (length v)"]
    by (simp add: CurrentSizeEstimate_def)
qed

lemma add_entries_estimate:
  "add_entries n cmp xs b = Some b' \<Longrightarrow> CurrentSizeEstimate b' \<le> CurrentSizeEstimate b + entries_size xs"
proof (induction xs arbitrary: b)
  case (Cons x xs)
  obtain k v where x: "x = (k, v)" by (cases x)
  with Cons.prems obtain b1 where "BlockBuilderAdd n cmp k v b = Some b1" "add_entries n cmp xs b1 = Some b'"
    by (auto simp: bind_eq_Some_conv)
  with Cons.IH [of b1] BlockBuilderAdd_size [of n cmp k v b b1] show ?case by (simp add: x)
qed simp

lemma length_BlockBuilderFinish: "length (snd (BlockBuilderFinish b)) = CurrentSizeEstimate b"
proof -
  have "length (fold (\<lambda>r buf. PutFixed32 buf r) rs buf) = length buf + 4 * length rs" for rs buf
    by (induction rs arbitrary: buf) (simp_all add: PutFixed32_def)
  then show ?thesis by (simp add: BlockBuilderFinish_def Let_def PutFixed32_def CurrentSizeEstimate_def)
qed

lemma length_build_block: "build_block n cmp xs = Some raw \<Longrightarrow> length raw \<le> entries_size xs + 8"
proof -
  assume "build_block n cmp xs = Some raw"
  then obtain b where "add_entries n cmp xs NewBlockBuilder = Some b" "raw = snd (BlockBuilderFinish b)"
    by (auto simp: build_block_def)
  moreover have "CurrentSizeEstimate NewBlockBuilder = 8" by (simp add: CurrentSizeEstimate_def NewBlockBuilder_def)
  ultimately show ?thesis using add_entries_estimate [of n cmp xs NewBlockBuilder b] by (simp add: length_BlockBuilderFinish)
qed

lemma add_entries_empty:
  assumes "1 \<le> n" "increasing cmp (map fst xs)" "add_entries n cmp xs NewBlockBuilder = Some b"
  shows "bb_buffer b = [] \<longleftrightarrow> xs = []"
proof -
  obtain b' items js where "add_entries n cmp xs NewBlockBuilder = Some b'" "builder_items items js b'" "map snd items = xs"
    by (rule add_entries_defined [OF assms(1,2)])
  moreover from this(1) assms(3) have "b' = b" by simp
  ultimately have "builder_items items js b" "map snd items = xs" by simp_all
  then show ?thesis by (auto simp: builder_items_def items_bytes_eq_Nil)
qed

lemma BlockBuilderReset_new [simp]: "BlockBuilderReset b = NewBlockBuilder"
  by (cases b) (simp add: BlockBuilderReset_def NewBlockBuilder_def)

end
