(* ===== verification/Table_Layout.thy ===== *)
theory Table_Layout
  imports Table_Builder
begin

text \<open>
  The file that a table builder writes for increasing internal keys into a file in memory: an
  invariant of the builder that every operation keeps, and from it the layout of the finished file,
  data blocks, filter block, metaindex, index and footer, with the keys of the index between the
  blocks. Table sizes below \<open>2 ^ 31\<close> keep every handle and restart offset in range.
\<close>

section \<open>The data part of a table\<close>

definition internal_options ::
    "nat \<Rightarrow> nat \<Rightarrow> u8 \<Rightarrow> ((bytes list \<Rightarrow> bytes \<Rightarrow> bytes option) \<times> bytes) option \<Rightarrow> table_options" where
  "internal_options block_size interval compression flt =
     \<lparr>to_comparator = 0, to_compare = InternalKeyCompare BytewiseCompare,
      to_separator = InternalFindShortestSeparator BytewiseCompare BytewiseFindShortestSeparator,
      to_successor = InternalFindShortSuccessor BytewiseCompare BytewiseFindShortSuccessor,
      to_block_size = block_size, to_restart_interval = interval, to_compression = compression, to_filter = flt\<rparr>"

definition mem_env :: "(u32 \<Rightarrow> bytes \<Rightarrow> u32) \<Rightarrow> (bytes \<Rightarrow> bytes option) \<Rightarrow> bytes table_env" where
  "mem_env extend_crc compress =
     \<lparr>te_append = mem_append, te_flush = mem_flush, te_extend = extend_crc, te_compress = compress\<rparr>"

abbreviation icmp :: "bytes \<Rightarrow> bytes \<Rightarrow> int" where
  "icmp \<equiv> InternalKeyCompare BytewiseCompare"

definition raw_block :: "table_options \<Rightarrow> (bytes \<times> bytes) list \<Rightarrow> bytes" where
  "raw_block opts blk = the (build_block (to_restart_interval opts) (to_compare opts) blk)"

definition stored_bytes :: "'f table_env \<Rightarrow> u8 \<Rightarrow> bytes \<Rightarrow> bytes" where
  "stored_bytes env type raw =
     (case block_to_store env type raw of (c, t) \<Rightarrow> c @ block_trailer (te_extend env) c t)"

definition data_bytes :: "'f table_env \<Rightarrow> table_options \<Rightarrow> (bytes \<times> bytes) list list \<Rightarrow> bytes" where
  "data_bytes env opts blks = concat (map (stored_bytes env (to_compression opts) \<circ> raw_block opts) blks)"

definition block_handle :: "'f table_env \<Rightarrow> table_options \<Rightarrow> (bytes \<times> bytes) list list \<Rightarrow> nat \<Rightarrow> BlockHandle" where
  "block_handle env opts blks i =
     \<lparr>bh_offset = of_nat (length (data_bytes env opts (take i blks))),
      bh_size = of_nat (length (fst (block_to_store env (to_compression opts) (raw_block opts (blks ! i)))))\<rparr>"

definition index_entries ::
    "'f table_env \<Rightarrow> table_options \<Rightarrow> (bytes \<times> bytes) list list \<Rightarrow> bytes list \<Rightarrow> (bytes \<times> bytes) list" where
  "index_entries env opts blks seps = map (\<lambda>i. (seps ! i, handle_bytes (block_handle env opts blks i))) [0..<length seps]"

definition filter_blocks ::
    "'f table_env \<Rightarrow> table_options \<Rightarrow> (bytes \<times> bytes) list list \<Rightarrow> (bytes \<times> bytes) list \<Rightarrow> (u64 \<times> bytes list) list" where
  "filter_blocks env opts blks cur =
     map (\<lambda>i. (of_nat (length (data_bytes env opts (take i blks))), map fst (blks ! i))) [0..<length blks]
       @ [(of_nat (length (data_bytes env opts blks)), map fst cur)]"

text \<open>
  A separator lies between the last key of its block and the first key of the next, and its user
  key is below that of the next block unless it is the last key itself.
\<close>

definition sep_ok :: "bytes \<Rightarrow> bytes \<Rightarrow> bytes \<Rightarrow> bool" where
  "sep_ok a s b \<longleftrightarrow> internal_key_ok s \<and> icmp a s \<le> 0 \<and> icmp s b < 0 \<and> length s \<le> length a
     \<and> (s = a \<or> BytewiseCompare (ExtractUserKey s) (ExtractUserKey b) < 0)"

definition seps_ok :: "(bytes \<times> bytes) list list \<Rightarrow> bytes list \<Rightarrow> bool" where
  "seps_ok blks seps \<longleftrightarrow> (\<forall>i < length seps. sep_ok (fst (last (blks ! i))) (seps ! i) (fst (hd (blks ! Suc i))))"

lemma seps_ok_append: "length seps < length blks \<Longrightarrow> seps_ok (blks @ more_blks) seps \<longleftrightarrow> seps_ok blks seps"
  by (auto simp: seps_ok_def nth_append)

definition filter_state ::
    "'f table_env \<Rightarrow> table_options \<Rightarrow> (bytes \<times> bytes) list list \<Rightarrow> (bytes \<times> bytes) list \<Rightarrow> 'f TableBuilder \<Rightarrow> bool" where
  "filter_state env opts blks cur r \<longleftrightarrow>
     (case to_filter opts of
        None \<Rightarrow> tb_filter_block r = None
      | Some (create, _) \<Rightarrow>
          \<exists>fb. tb_filter_block r = Some (create, fb)
            \<and> add_blocks create (filter_blocks env opts blks cur) NewFilterBlockBuilder = Some fb)"

text \<open>
  The builder after some entries: \<open>blks\<close> are the blocks written, \<open>cur\<close> the entries of the block under
  construction and \<open>seps\<close> the keys of the index so far.
\<close>

definition table_inv ::
    "bytes table_env \<Rightarrow> table_options \<Rightarrow> (bytes \<times> bytes) list list \<Rightarrow> (bytes \<times> bytes) list \<Rightarrow> bytes list
      \<Rightarrow> bytes TableBuilder \<Rightarrow> bool" where
  "table_inv env opts blks cur seps r \<longleftrightarrow>
     tb_options r = opts \<and> tb_status r = OK \<and> \<not> tb_closed r
     \<and> tb_file r = data_bytes env opts blks \<and> tb_offset r = of_nat (length (data_bytes env opts blks))
     \<and> add_entries (to_restart_interval opts) icmp cur NewBlockBuilder = Some (tb_data_block r)
     \<and> add_entries 1 icmp (index_entries env opts blks seps) NewBlockBuilder = Some (tb_index_block r)
     \<and> tb_num_entries r = length (concat blks @ cur)
     \<and> (concat blks @ cur \<noteq> [] \<longrightarrow> tb_last_key r = fst (last (concat blks @ cur)))
     \<and> [] \<notin> set blks
     \<and> seps_ok (blks @ [cur]) seps
     \<and> (if tb_pending_index_entry r
        then cur = [] \<and> blks \<noteq> [] \<and> Suc (length seps) = length blks
          \<and> tb_pending_handle r = block_handle env opts blks (length seps)
        else length seps = length blks \<and> (blks = [] \<or> cur \<noteq> []))
     \<and> filter_state env opts blks cur r"

text \<open>What the entries have to satisfy, and the policy for them.\<close>

definition table_size :: "(bytes \<times> bytes) list \<Rightarrow> nat" where
  "table_size xs = (\<Sum>(k, v) \<leftarrow> xs. 64 + length k + length v)"

definition table_entries_ok :: "(bytes \<times> bytes) list \<Rightarrow> bool" where
  "table_entries_ok xs \<longleftrightarrow> increasing icmp (map fst xs) \<and> (\<forall>(k, v) \<in> set xs. internal_key_ok k) \<and> table_size xs < 2 ^ 31"

definition policy_ok :: "table_options \<Rightarrow> (bytes \<times> bytes) list \<Rightarrow> bool" where
  "policy_ok opts xs \<longleftrightarrow>
     (case to_filter opts of
        None \<Rightarrow> True
      | Some (create, name) \<Rightarrow> length name < 2 ^ 31 \<and> (
          \<forall>bs n. sorted (map (filter_index \<circ> fst) bs) \<and> (\<forall>(off, keys) \<in> set bs. unat off < 2 ^ 31)
              \<and> concat (map snd bs) = map fst (take n xs)
            \<longrightarrow> (\<exists>contents. build_filter_block create bs = Some contents \<and> length contents < 2 ^ 31)))"

lemma table_size_simps [simp]: "table_size [] = 0" "table_size (xs @ ys) = table_size xs + table_size ys"
  "table_size ((k, v) # xs) = 64 + length k + length v + table_size xs"
  by (simp_all add: table_size_def)

lemma entries_size_le: "entries_size xs + 45 * length xs \<le> table_size xs"
  by (induction xs) auto

lemma data_bytes_snoc: "data_bytes env opts (blks @ [blk]) = data_bytes env opts blks @ stored_bytes env (to_compression opts) (raw_block opts blk)"
  by (simp add: data_bytes_def)

lemma length_block_to_store: "length (fst (block_to_store env type raw)) \<le> length raw"
  by (auto simp: block_to_store_def split: option.splits)

lemma length_stored_bytes: "length (stored_bytes env type raw) = length (fst (block_to_store env type raw)) + 5"
  by (simp add: stored_bytes_def case_prod_beta kBlockTrailerSize_def)

lemma raw_block_defined:
  assumes "1 \<le> to_restart_interval opts" "increasing (to_compare opts) (map fst blk)"
  shows "build_block (to_restart_interval opts) (to_compare opts) blk = Some (raw_block opts blk)"
  using add_entries_defined [OF assms] by (fastforce simp: raw_block_def build_block_def)

lemma length_raw_block:
  assumes "1 \<le> to_restart_interval opts" "increasing (to_compare opts) (map fst blk)"
  shows "length (raw_block opts blk) \<le> entries_size blk + 8"
  using length_build_block [OF raw_block_defined [OF assms]] .

lemma length_data_bytes:
  assumes "1 \<le> to_restart_interval opts" "increasing (to_compare opts) (map fst (concat blks))" "[] \<notin> set blks"
  shows "length (data_bytes env opts blks) \<le> table_size (concat blks)"
  using assms(2,3)
proof (induction blks rule: rev_induct)
  case (snoc blk blks)
  have inc: "increasing (to_compare opts) (map fst blk)" using snoc.prems(1) by (auto dest: increasing_append2)
  have "length (stored_bytes env (to_compression opts) (raw_block opts blk)) \<le> entries_size blk + 13"
    using length_block_to_store [of env "to_compression opts" "raw_block opts blk"] length_raw_block [OF assms(1) inc]
    by (simp add: length_stored_bytes)
  moreover have "1 \<le> length blk" using snoc.prems(2) by (cases blk) auto
  ultimately have "length (stored_bytes env (to_compression opts) (raw_block opts blk)) \<le> table_size blk"
    using entries_size_le [of blk] by linarith
  moreover have "increasing (to_compare opts) (map fst (concat blks))" using snoc.prems(1) by (auto dest: increasing_append1)
  ultimately show ?case using snoc by (simp add: data_bytes_snoc)
qed (simp add: data_bytes_def)

lemma add_blocks_append: "add_blocks create (xs @ ys) b = Option.bind (add_blocks create xs b) (add_blocks create ys)"
proof (induction xs arbitrary: b)
  case (Cons x xs)
  then show ?case by (cases x) (simp split: option.split)
qed simp

lemma add_blocks_one: "add_blocks create [(off, keys)] b = map_option (fold FilterAddKey keys) (StartBlock create off b)"
  by (simp split: option.split)

lemma filter_blocks_flush:
  "filter_blocks env opts (blks @ [cur]) []
    = filter_blocks env opts blks cur @ [(of_nat (length (data_bytes env opts (blks @ [cur]))), [])]"
  by (simp add: filter_blocks_def nth_append)

lemma filter_blocks_key:
  "add_blocks create (filter_blocks env opts blks (cur @ [(k, v)])) b
    = map_option (FilterAddKey k) (add_blocks create (filter_blocks env opts blks cur) b)"
  unfolding filter_blocks_def add_blocks_append add_blocks_one
  by (simp add: option.map_comp comp_def map_option_bind del: add_blocks.simps)

lemma filter_blocks_keys: "concat (map snd (filter_blocks env opts blks cur)) = map fst (concat blks @ cur)"
proof -
  have "map (\<lambda>i. map fst (blks ! i)) [0..<length blks] = map (map fst) blks"
    using map_map [of "map fst" "(!) blks" "[0..<length blks]"] by (simp add: map_nth comp_def)
  then show ?thesis by (simp add: filter_blocks_def comp_def map_concat)
qed

lemma filter_index_mono: "unat a \<le> unat b \<Longrightarrow> filter_index a \<le> filter_index b"
proof -
  have k: "unat (x div kFilterBase) = unat x div 2048" for x
    by (simp add: unat_div kFilterBase_def kFilterBaseLg_def)
  show "unat a \<le> unat b \<Longrightarrow> ?thesis" by (simp add: filter_index_def k div_le_mono)
qed

lemma data_bytes_take_mono: "i \<le> j \<Longrightarrow> length (data_bytes env opts (take i blks)) \<le> length (data_bytes env opts (take j blks))"
proof -
  assume "i \<le> j"
  then have "take j blks = take i blks @ take (j - i) (drop i blks)" by (metis le_add_diff_inverse take_add)
  then show ?thesis by (simp add: data_bytes_def)
qed

lemma filter_blocks_sorted:
  assumes "length (data_bytes env opts blks) < 2 ^ 31"
  shows "sorted (map (filter_index \<circ> fst) (filter_blocks env opts blks cur))"
    "\<forall>(off, keys) \<in> set (filter_blocks env opts blks cur). unat off < 2 ^ 31"
proof -
  define off where "off i = (of_nat (length (data_bytes env opts (take i blks))) :: u64)" for i
  have le: "length (data_bytes env opts (take i blks)) < 2 ^ 31" for i
    using data_bytes_take_mono [of i "max i (length blks)" env opts blks] assms by simp
  then have small: "unat (off i) = length (data_bytes env opts (take i blks))" for i
    by (simp add: off_def unat_of_nat_small less_trans [OF le])
  have "map (filter_index \<circ> fst) (filter_blocks env opts blks cur) = map (filter_index \<circ> off) [0..<Suc (length blks)]"
    by (simp add: filter_blocks_def off_def)
  moreover have "filter_index (off i) \<le> filter_index (off j)" if "i \<le> j" for i j
    using data_bytes_take_mono [OF that] by (intro filter_index_mono) (simp only: small)
  ultimately show "sorted (map (filter_index \<circ> fst) (filter_blocks env opts blks cur))"
    by (simp add: sorted_iff_nth_mono del: upt_Suc)
  have "off (length blks) = of_nat (length (data_bytes env opts blks))" by (simp add: off_def)
  then show "\<forall>(off, keys) \<in> set (filter_blocks env opts blks cur). unat off < 2 ^ 31"
    using small le small [of "length blks"] assms by (auto simp: filter_blocks_def simp flip: off_def)
qed

lemma policy_ok_blocks:
  assumes "policy_ok opts xs" "to_filter opts = Some (create, name)" "concat blks @ cur = take n xs"
    and "length (data_bytes env opts blks) < 2 ^ 31"
  obtains contents where "build_filter_block create (filter_blocks env opts blks cur) = Some contents"
    "length contents < 2 ^ 31"
proof -
  have "concat (map snd (filter_blocks env opts blks cur)) = map fst (take n xs)"
    by (simp only: filter_blocks_keys assms(3))
  with assms(1) filter_blocks_sorted [OF assms(4), of cur] that show ?thesis
    unfolding policy_ok_def assms(2) option.case prod.case by blast
qed

lemma block_handle_snoc: "i < length blks \<Longrightarrow> block_handle env opts (blks @ [blk]) i = block_handle env opts blks i"
  by (simp add: block_handle_def nth_append)

lemma index_entries_block:
  "length seps \<le> length blks \<Longrightarrow> index_entries env opts (blks @ [blk]) seps = index_entries env opts blks seps"
  by (auto simp: index_entries_def block_handle_snoc)

lemma index_entries_snoc:
  "index_entries env opts blks (seps @ [s]) = index_entries env opts blks seps @ [(s, handle_bytes (block_handle env opts blks (length seps)))]"
  by (simp add: index_entries_def nth_append)

lemma index_entries_keys [simp]: "map fst (index_entries env opts blks seps) = seps"
  by (simp add: index_entries_def comp_def map_nth)

section \<open>Every step keeps the invariant\<close>

lemma StartBlock_state:
  assumes "policy_ok opts xs" "concat blks @ cur = take n xs" "length (data_bytes env opts (blks @ [cur])) < 2 ^ 31"
    and "filter_state env opts blks cur r" "tb_offset r = of_nat (length (data_bytes env opts (blks @ [cur])))"
  shows "\<exists>r'. start_filter_block r = Some r' \<and> filter_state env opts (blks @ [cur]) [] r'
    \<and> r' = r\<lparr>tb_filter_block := tb_filter_block r'\<rparr>"
proof (cases "to_filter opts")
  case None
  with assms(4) show ?thesis by (simp add: start_filter_block_def filter_state_def)
next
  case (Some p)
  obtain create name where p: "p = (create, name)" by (cases p)
  from assms(4) Some p obtain fb where fb: "tb_filter_block r = Some (create, fb)"
    "add_blocks create (filter_blocks env opts blks cur) NewFilterBlockBuilder = Some fb"
    by (auto simp: filter_state_def)
  obtain contents where "build_filter_block create (filter_blocks env opts (blks @ [cur]) []) = Some contents"
    using policy_ok_blocks [of opts xs create name "blks @ [cur]" "[]" n env] assms(1-3) Some p by auto
  then have "add_blocks create (filter_blocks env opts (blks @ [cur]) []) NewFilterBlockBuilder \<noteq> None"
    by (auto simp: build_filter_block_def bind_eq_Some_conv)
  then obtain fb' where "StartBlock create (tb_offset r) fb = Some fb'"
    "add_blocks create (filter_blocks env opts (blks @ [cur]) []) NewFilterBlockBuilder = Some fb'"
    unfolding filter_blocks_flush add_blocks_append add_blocks_one using fb(2) assms(5) by auto
  with fb Some p show ?thesis
    by (simp add: start_filter_block_def filter_state_def)
qed


text \<open>The files are in memory, the keys are internal keys, and the policy makes a filter for every group.\<close>

definition table_setting :: "bytes table_env \<Rightarrow> table_options \<Rightarrow> (bytes \<times> bytes) list \<Rightarrow> bool" where
  "table_setting env opts xs \<longleftrightarrow>
     (\<exists>crc compress. env = mem_env crc compress)
     \<and> (\<exists>bs interval comp flt. opts = internal_options bs interval comp flt)
     \<and> 1 \<le> to_restart_interval opts \<and> table_entries_ok xs \<and> policy_ok opts xs"

lemma table_setting_simps:
  assumes "table_setting env opts xs"
  shows "te_append env b f = (OK, f @ b)" "te_flush env f = (OK, f)" "to_compare opts = icmp"
    "to_separator opts = InternalFindShortestSeparator BytewiseCompare BytewiseFindShortestSeparator"
    "to_successor opts = InternalFindShortSuccessor BytewiseCompare BytewiseFindShortSuccessor"
    "1 \<le> to_restart_interval opts"
  using assms by (auto simp: table_setting_def mem_env_def internal_options_def mem_append_def mem_flush_def)

lemma table_prefix:
  assumes "table_setting env opts xs" "concat blks @ cur = take n xs"
  shows "increasing icmp (map fst (concat blks @ cur))" "increasing icmp (map fst cur)"
    "\<And>k v. (k, v) \<in> set (concat blks @ cur) \<Longrightarrow> internal_key_ok k"
    "table_size (concat blks @ cur) < 2 ^ 31"
proof -
  have xs: "xs = (concat blks @ cur) @ drop n xs" using assms(2) by simp
  have ok: "table_entries_ok xs" using assms(1) by (simp add: table_setting_def)
  then have "increasing icmp (map fst ((concat blks @ cur) @ drop n xs))"
    using xs by (simp add: table_entries_ok_def)
  then show inc: "increasing icmp (map fst (concat blks @ cur))" by (simp only: map_append increasing_append1)
  then show "increasing icmp (map fst cur)" by (simp only: map_append increasing_append2)
  show "table_size (concat blks @ cur) < 2 ^ 31"
    using ok arg_cong [OF xs, of table_size] by (simp add: table_entries_ok_def)
  show "internal_key_ok k" if "(k, v) \<in> set (concat blks @ cur)" for k v
    using ok that arg_cong [OF xs, of set] by (auto simp: table_entries_ok_def)
qed

lemma data_bytes_small:
  assumes "table_setting env opts xs" "concat blks = take n xs" "[] \<notin> set blks"
  shows "length (data_bytes env opts blks) < 2 ^ 31"
  using table_prefix [OF assms(1), of blks "[]" n] length_data_bytes [of opts blks env] assms table_setting_simps [OF assms(1)]
  by simp

lemma WriteRawBlock_mem:
  assumes "table_setting env opts xs"
  shows "WriteRawBlock env c t r = (\<lparr>bh_offset = tb_offset r, bh_size = of_nat (length c)\<rparr>,
     r\<lparr>tb_file := tb_file r @ c @ block_trailer (te_extend env) c t, tb_status := OK,
       tb_offset := tb_offset r + of_nat (length c + 5)\<rparr>)"
  by (simp add: WriteRawBlock_def table_setting_simps [OF assms] kBlockTrailerSize_def)

lemma WriteBlock_mem:
  assumes "table_setting env opts xs" "tb_status r = OK" "tb_options r = opts"
  shows "WriteBlock env b r = Some (\<lparr>bh_offset = tb_offset r,
       bh_size = of_nat (length (fst (block_to_store env (to_compression opts) (snd (BlockBuilderFinish b)))))\<rparr>, NewBlockBuilder,
     r\<lparr>tb_file := tb_file r @ stored_bytes env (to_compression opts) (snd (BlockBuilderFinish b)), tb_status := OK,
       tb_offset := tb_offset r + of_nat (length (stored_bytes env (to_compression opts) (snd (BlockBuilderFinish b))))\<rparr>)"
  by (simp add: WriteBlock_def assms WriteRawBlock_mem [OF assms(1)] case_prod_beta stored_bytes_def
      kBlockTrailerSize_def)

lemma raw_block_finish:
  "add_entries (to_restart_interval opts) (to_compare opts) xs NewBlockBuilder = Some b \<Longrightarrow> snd (BlockBuilderFinish b) = raw_block opts xs"
  by (simp add: raw_block_def build_block_def)

lemma filter_state_cong:
  "tb_filter_block r = tb_filter_block r' \<Longrightarrow> filter_state env opts blks cur r = filter_state env opts blks cur r'"
  by (auto simp: filter_state_def split: option.splits)

lemma TableFlush_inv:
  assumes set: "table_setting env opts xs" and inv: "table_inv env opts blks cur seps r"
    and cur: "cur \<noteq> []" "concat blks @ cur = take n xs"
  shows "\<exists>r'. TableFlush env r = Some r' \<and> table_inv env opts (blks @ [cur]) [] seps r'"
proof -
  note pre = table_prefix [OF set cur(2)]
  note simps = table_setting_simps [OF set]
  have r: "tb_options r = opts" "tb_status r = OK" "\<not> tb_closed r" "tb_file r = data_bytes env opts blks"
    "tb_offset r = of_nat (length (data_bytes env opts blks))" "[] \<notin> set blks"
    "add_entries (to_restart_interval opts) icmp cur NewBlockBuilder = Some (tb_data_block r)"
    "filter_state env opts blks cur r"
    using inv by (simp_all add: table_inv_def)
  have seps: "\<not> tb_pending_index_entry r" "length seps = length blks"
    using inv cur(1) by (auto simp: table_inv_def split: if_splits)
  have buf: "bb_buffer (tb_data_block r) \<noteq> []"
    using add_entries_empty [OF simps(6) pre(2) r(7)] cur(1) by simp
  define raw where "raw = raw_block opts cur"
  have raw: "snd (BlockBuilderFinish (tb_data_block r)) = raw"
    using raw_block_finish [of opts cur] r(7) simps(3) by (simp add: raw_def)
  have db: "data_bytes env opts (blks @ [cur]) = data_bytes env opts blks @ stored_bytes env (to_compression opts) raw"
    by (simp add: data_bytes_snoc raw_def)
  define r1 where "r1 = r\<lparr>tb_file := data_bytes env opts (blks @ [cur]),
     tb_offset := of_nat (length (data_bytes env opts (blks @ [cur]))), tb_data_block := NewBlockBuilder,
     tb_pending_handle := block_handle env opts (blks @ [cur]) (length blks), tb_pending_index_entry := True, tb_status := OK\<rparr>"
  have flush: "TableFlush env r = start_filter_block r1"
    by (simp add: TableFlush_def r seps buf WriteBlock_mem [OF set] raw simps r1_def db block_handle_def raw_def)
  have small: "length (data_bytes env opts (blks @ [cur])) < 2 ^ 31"
    using data_bytes_small [OF set, of "blks @ [cur]" n] cur r(6) by simp
  have "filter_state env opts blks cur r1" using r(8) filter_state_cong [of r1 r] by (simp add: r1_def)
  then obtain r' where r': "start_filter_block r1 = Some r'" "filter_state env opts (blks @ [cur]) [] r'"
    "r' = r1\<lparr>tb_filter_block := tb_filter_block r'\<rparr>"
    using StartBlock_state [OF _ cur(2) small, of r1] set by (auto simp: table_setting_def r1_def)
  have tb: "tb_options r' = opts" "tb_status r' = OK" "\<not> tb_closed r'" "tb_file r' = data_bytes env opts (blks @ [cur])"
    "tb_offset r' = of_nat (length (data_bytes env opts (blks @ [cur])))" "tb_data_block r' = NewBlockBuilder"
    "tb_pending_handle r' = block_handle env opts (blks @ [cur]) (length blks)" "tb_pending_index_entry r'"
    "tb_index_block r' = tb_index_block r" "tb_num_entries r' = tb_num_entries r" "tb_last_key r' = tb_last_key r"
    by (subst r'(3), simp add: r1_def r)+
  have "table_inv env opts (blks @ [cur]) [] seps r'"
    unfolding table_inv_def tb
    using inv cur r'(2) seps tb(3,8) seps_ok_append [of seps "blks @ [cur]" "[[]]"]
    by (simp add: table_inv_def index_entries_block)
  with flush r'(1) show ?thesis by simp
qed


lemma internal_sorted:
  assumes "\<And>k. k \<in> set ks \<Longrightarrow> internal_key_ok k"
  shows "increasing icmp ks \<longleftrightarrow> sorted_wrt (\<lambda>a b. icmp a b < 0) ks"
  using assms
proof (induction ks rule: rev_induct)
  case (snoc k ks)
  have "icmp a k < 0" if "a \<in> set ks" "sorted_wrt (\<lambda>a b. icmp a b < 0) ks" "icmp (last ks) k < 0" for a
  proof -
    have "ks \<noteq> []" using that(1) by auto
    then have ks: "ks = butlast ks @ [last ks]" by simp
    have "sorted_wrt (\<lambda>a b. icmp a b < 0) (butlast ks @ [last ks])" "a \<in> set (butlast ks @ [last ks])"
      using that(1,2) ks by simp_all
    then have "a = last ks \<or> icmp a (last ks) < 0" by (auto simp: sorted_wrt_append)
    moreover have "internal_key_ok (last ks)" using \<open>ks \<noteq> []\<close> snoc.prems by simp
    ultimately show ?thesis using internal.compare_trans [of a "last ks" k] that snoc.prems by auto
  qed
  note below = this
  show ?case
  proof (cases "ks = []")
    case False
    have "icmp k (last ks) > 0 \<longleftrightarrow> icmp (last ks) k < 0"
      using internal.compare_swap [of "last ks" k] snoc.prems False by simp
    moreover have "icmp (last ks) k < 0 \<longleftrightarrow> (\<forall>a \<in> set ks. icmp a k < 0)" if "sorted_wrt (\<lambda>a b. icmp a b < 0) ks"
      using below [OF _ that] last_in_set [OF False] by blast
    moreover have "increasing icmp ks \<longleftrightarrow> sorted_wrt (\<lambda>a b. icmp a b < 0) ks" using snoc by simp
    ultimately show ?thesis unfolding increasing_snoc sorted_wrt_append using False by auto
  qed (simp add: increasing_def)
qed (simp add: increasing_Nil)

lemma separator_sep_ok:
  assumes "internal_key_ok a" "internal_key_ok b" "icmp a b < 0"
  shows "sep_ok a (internal_separator BytewiseCompare BytewiseFindShortestSeparator a b) b"
proof -
  define s where "s = internal_separator BytewiseCompare BytewiseFindShortestSeparator a b"
  note btw = bytewise.internal_separator_between [of a b, folded s_def] assms
  have "length s \<le> length a \<and> BytewiseCompare (ExtractUserKey s) (ExtractUserKey b) < 0" if ne: "s \<noteq> a"
  proof -
    define t where "t = BytewiseFindShortestSeparator (ExtractUserKey a) (ExtractUserKey b)"
    have t: "length t < length (ExtractUserKey a)" "s = PutFixed64 t seek_tag"
      using ne by (auto simp: s_def internal_separator_def Let_def t_def split: if_splits)
    then have "ExtractUserKey a \<noteq> ExtractUserKey b" by (auto simp: t_def separator_of_same)
    then have "BytewiseCompare (ExtractUserKey a) (ExtractUserKey b) < 0"
      using assms by (simp add: internal_less_iff_bytewise)
    then have "BytewiseCompare t (ExtractUserKey b) < 0"
      using bytewise.separator_between by (simp add: t_def)
    moreover have "length (ExtractUserKey a) = length a - 8" by (simp add: ExtractUserKey_def)
    ultimately show ?thesis using t by simp
  qed
  then show ?thesis using btw internal.compare_refl [of a] by (auto simp: sep_ok_def s_def [symmetric])
qed


lemma block_ends_ordered:
  assumes "increasing icmp (map fst (concat blks))" "\<And>k v. (k, v) \<in> set (concat blks) \<Longrightarrow> internal_key_ok k"
    and "i < length blks" "[] \<notin> set blks"
  shows "icmp (fst (hd (blks ! i))) (fst (last (blks ! i))) \<le> 0"
    "internal_key_ok (fst (hd (blks ! i)))" "internal_key_ok (fst (last (blks ! i)))"
proof -
  have b: "blks ! i \<in> set blks" "blks ! i \<noteq> []" using assms(3,4) nth_mem by force+
  then have ok: "internal_key_ok k" if "k \<in> set (map fst (blks ! i))" for k
    using that assms(2) by fastforce
  have mem: "fst (hd (blks ! i)) \<in> set (map fst (blks ! i))" "fst (last (blks ! i)) \<in> set (map fst (blks ! i))"
    using b(2) by simp_all
  then show "internal_key_ok (fst (hd (blks ! i)))" "internal_key_ok (fst (last (blks ! i)))"
    using ok by blast+
  have "map fst (concat blks) = map fst (concat (take i blks)) @ map fst (blks ! i) @ map fst (concat (drop (Suc i) blks))"
    using assms(3) by (metis concat.simps(2) concat_append id_take_nth_drop map_append)
  then have "increasing icmp (map fst (blks ! i))" using assms(1) by (metis increasing_append1 increasing_append2)
  then have srt: "sorted_wrt (\<lambda>a b. icmp a b < 0) (map fst (blks ! i))" using internal_sorted [of "map fst (blks ! i)"] ok by blast
  obtain x xs where x: "blks ! i = x # xs" using b(2) by (cases "blks ! i") auto
  show "icmp (fst (hd (blks ! i))) (fst (last (blks ! i))) \<le> 0"
  proof (cases "xs = []")
    case True
    then show ?thesis using x internal.compare_refl [of "fst x"] ok [of "fst x"] by simp
  next
    case False
    then show ?thesis using srt x by (auto simp: less_imp_le)
  qed
qed

lemma seps_increasing:
  assumes "increasing icmp (map fst (concat blks))" "\<And>k v. (k, v) \<in> set (concat blks) \<Longrightarrow> internal_key_ok k"
    and "seps_ok blks seps" "length seps < length blks" "[] \<notin> set blks"
  shows "increasing icmp seps"
  unfolding increasing_def
proof (intro allI impI)
  fix i assume i: "Suc i < length seps"
  then have s: "sep_ok (fst (last (blks ! i))) (seps ! i) (fst (hd (blks ! Suc i)))"
    "sep_ok (fst (last (blks ! Suc i))) (seps ! Suc i) (fst (hd (blks ! Suc (Suc i))))"
    using assms(3) by (simp_all add: seps_ok_def)
  have "Suc i < length blks" using i assms(4) by simp
  note ends = block_ends_ordered [OF assms(1,2) this assms(5)]
  have "icmp (seps ! i) (fst (last (blks ! Suc i))) < 0"
    using internal.compare_less_le_trans [OF _ ends(2,3) _ ends(1)] s(1) by (simp add: sep_ok_def)
  then have "icmp (seps ! i) (seps ! Suc i) < 0"
    using internal.compare_less_le_trans [OF _ ends(3)] s by (simp add: sep_ok_def)
  then show "icmp (seps ! Suc i) (seps ! i) > 0"
    using internal.compare_swap s by (simp add: sep_ok_def)
qed


lemma data_bytes_split:
  assumes "i < length blks"
  shows "data_bytes env opts blks = data_bytes env opts (take i blks)
    @ stored_bytes env (to_compression opts) (raw_block opts (blks ! i)) @ data_bytes env opts (drop (Suc i) blks)"
proof -
  have "data_bytes env opts (xs @ y # ys) = data_bytes env opts xs
      @ stored_bytes env (to_compression opts) (raw_block opts y) @ data_bytes env opts ys" for xs y ys
    by (simp add: data_bytes_def)
  from this [of "take i blks" "blks ! i" "drop (Suc i) blks"] show ?thesis
    by (simp add: assms flip: id_take_nth_drop)
qed

lemma of_nat_handle_set: "n < 2 ^ 63 \<Longrightarrow> of_nat n \<noteq> (NOT 0 :: u64)"
proof
  assume n: "n < 2 ^ 63" and eq: "of_nat n = (NOT 0 :: u64)"
  have "unat (of_nat n :: u64) = n" using n by (simp add: unat_of_nat_small)
  moreover have "unat (NOT 0 :: u64) = 2 ^ 64 - 1" by (simp add: unsigned_minus_1_eq_mask mask_eq_exp_minus_1)
  ultimately show False using n eq by simp
qed

lemma block_handle_small:
  assumes "i < length blks" "length (data_bytes env opts blks) < 2 ^ 31"
  shows "unat (bh_offset (block_handle env opts blks i)) = length (data_bytes env opts (take i blks))"
    "unat (bh_size (block_handle env opts blks i)) = length (fst (block_to_store env (to_compression opts) (raw_block opts (blks ! i))))"
    "handle_set (block_handle env opts blks i)"
proof -
  define a where "a = length (data_bytes env opts (take i blks))"
  define b where "b = length (fst (block_to_store env (to_compression opts) (raw_block opts (blks ! i))))"
  have small: "a < 2 ^ 31" "b < 2 ^ 31"
    using assms(2) data_bytes_split [OF assms(1), of env opts] by (simp_all add: a_def b_def length_stored_bytes)
  then have un: "unat (of_nat a :: u64) = a" "unat (of_nat b :: u64) = b" by (simp_all add: unat_of_nat_small)
  then show "unat (bh_offset (block_handle env opts blks i)) = length (data_bytes env opts (take i blks))"
    "unat (bh_size (block_handle env opts blks i)) = length (fst (block_to_store env (to_compression opts) (raw_block opts (blks ! i))))"
    by (simp_all add: block_handle_def a_def b_def)
  have "a < 2 ^ 63" "b < 2 ^ 63" using small by simp_all
  then show "handle_set (block_handle env opts blks i)"
    by (simp only: handle_set_def block_handle_def a_def b_def BlockHandle.simps of_nat_handle_set not_False_eq_True simp_thms)
qed

lemma add_index_entry_mem:
  assumes set: "table_setting env opts xs" and n: "concat blks = take n xs" and inc: "increasing icmp (seps @ [s])"
    and i: "length seps < length blks" "tb_pending_handle r = block_handle env opts blks (length seps)" "tb_options r = opts"
      "add_entries 1 icmp (index_entries env opts blks seps) NewBlockBuilder = Some (tb_index_block r)" "[] \<notin> set blks"
  shows "\<exists>ib. add_index_entry s r = Some (r\<lparr>tb_last_key := s, tb_index_block := ib, tb_pending_index_entry := False\<rparr>)
    \<and> add_entries 1 icmp (index_entries env opts blks (seps @ [s])) NewBlockBuilder = Some ib"
proof -
  have "handle_set (block_handle env opts blks (length seps))"
    by (rule block_handle_small(3) [OF i(1) data_bytes_small [OF set n i(5)]])
  moreover obtain ib where
    "BlockBuilderAdd 1 icmp s (handle_bytes (block_handle env opts blks (length seps))) (tb_index_block r) = Some ib"
    "add_entries 1 icmp (index_entries env opts blks (seps @ [s])) NewBlockBuilder = Some ib"
    using add_entries_next [OF _ _ i(4), of s "handle_bytes (block_handle env opts blks (length seps))"] inc
    by (auto simp: index_entries_snoc)
  ultimately show ?thesis
    by (simp add: add_index_entry_def i(2,3) BlockHandleEncodeTo_eq table_setting_simps [OF set])
qed


lemma seps_ok_longer:
  assumes "cur \<noteq> []" "length seps = length blks" "seps_ok (blks @ [cur]) seps"
  shows "seps_ok (blks @ [cur @ ys]) seps"
  unfolding seps_ok_def
proof (intro allI impI)
  fix i assume i: "i < length seps"
  then have "hd ((blks @ [cur @ ys]) ! Suc i) = hd ((blks @ [cur]) ! Suc i)"
    "(blks @ [cur @ ys]) ! i = (blks @ [cur]) ! i"
    using assms(1,2) by (auto simp: nth_append less_Suc_eq)
  with assms(3) i show "sep_ok (fst (last ((blks @ [cur @ ys]) ! i))) (seps ! i) (fst (hd ((blks @ [cur @ ys]) ! Suc i)))"
    by (simp only: seps_ok_def)
qed

lemma seps_ok_snoc:
  "Suc (length seps) < length blks \<Longrightarrow> seps_ok blks (seps @ [s]) \<longleftrightarrow> seps_ok blks seps
    \<and> sep_ok (fst (last (blks ! length seps))) s (fst (hd (blks ! Suc (length seps))))"
  by (auto simp: seps_ok_def nth_append less_Suc_eq)

lemma last_concat:
  assumes "blks \<noteq> []" "last blks \<noteq> []"
  shows "last (concat blks) = last (last blks)"
proof -
  have "concat blks = concat (butlast blks) @ last blks"
    using assms(1) by (metis append_butlast_last_id concat.simps concat_append append_Nil2)
  then show ?thesis using assms(2) by simp
qed

text \<open>The index entry of the block before, if it is pending, when the next key is known.\<close>

lemma pending_entry_added:
  assumes set: "table_setting env opts xs" and inv: "table_inv env opts blks cur seps r"
    and n: "concat blks @ cur = take n xs" and next_key: "n < length xs" "xs ! n = (k, v)"
  shows "\<exists>lk ib seps'.
    (if tb_pending_index_entry r then
       (if bb_buffer (tb_data_block r) \<noteq> [] then None
        else Option.bind (to_separator (tb_options r) (tb_last_key r) k) (\<lambda>last_key. add_index_entry last_key r))
     else Some r) = Some (r\<lparr>tb_last_key := lk, tb_index_block := ib, tb_pending_index_entry := False\<rparr>)
    \<and> add_entries 1 icmp (index_entries env opts blks seps') NewBlockBuilder = Some ib
    \<and> length seps' = length blks \<and> seps_ok (blks @ [cur @ [(k, v)]]) seps'"
proof (cases "tb_pending_index_entry r")
  case False
  have seps: "seps_ok (blks @ [cur @ [(k, v)]]) seps"
  proof (cases "blks = []")
    case True
    with inv False have "seps = []" by (simp add: table_inv_def)
    then show ?thesis by (simp add: seps_ok_def)
  next
    case blks: False
    then have "cur \<noteq> []" "length seps = length blks" "seps_ok (blks @ [cur]) seps"
      using inv False by (auto simp: table_inv_def)
    then show ?thesis by (simp add: seps_ok_longer)
  qed
  have same: "Some r = Some (r\<lparr>tb_last_key := tb_last_key r, tb_index_block := tb_index_block r, tb_pending_index_entry := False\<rparr>)"
    using False by simp
  have "add_entries 1 icmp (index_entries env opts blks seps) NewBlockBuilder = Some (tb_index_block r)"
    "length seps = length blks" using inv False by (simp_all add: table_inv_def)
  then show ?thesis unfolding if_not_P [OF False] by (intro exI conjI) (rule same, assumption+, rule seps)
next
  case True
  then have cur: "cur = []" "blks \<noteq> []" "Suc (length seps) = length blks" "tb_data_block r = NewBlockBuilder"
    "[] \<notin> set blks" "seps_ok (blks @ [[]]) seps"
    using inv by (auto simp: table_inv_def)
  define a where "a = fst (last (last blks))"
  have ends: "last blks \<noteq> []" using cur(2,5) last_in_set by metis
  have last_key: "tb_last_key r = a"
    using inv ends cur last_concat [OF cur(2) ends] by (auto simp: table_inv_def a_def)
  have pre: "concat (blks @ [[(k, v)]]) @ [] = take (Suc n) xs"
    using n cur(1) next_key by (simp add: take_Suc_conv_app_nth)
  note pre = table_prefix [OF set pre]
  have ok: "internal_key_ok a" "internal_key_ok k"
  proof -
    have "last (last blks) \<in> set (concat blks)" using ends cur(2) by (metis last_in_set set_concat UN_I)
    then show "internal_key_ok a" using pre(3) [of a "snd (last (last blks))"] by (simp add: a_def)
    show "internal_key_ok k" using pre(3) [of k v] by simp
  qed
  have "icmp k a > 0"
  proof -
    have ne: "concat blks \<noteq> []" using ends last_in_set [OF cur(2)] by auto
    then have "map fst (concat blks) \<noteq> []" "last (map fst (concat blks)) = a"
      using last_concat [OF cur(2) ends] by (simp_all only: last_map [OF ne] a_def map_is_Nil_conv not_False_eq_True)
    moreover have "increasing icmp (map fst (concat blks) @ [k])" using pre(1) by simp
    ultimately show ?thesis unfolding increasing_snoc by blast
  qed
  then have "icmp a k < 0" using internal.compare_swap ok by simp
  define s where "s = internal_separator BytewiseCompare BytewiseFindShortestSeparator a k"
  have sep: "to_separator opts a k = Some s"
    using bytewise.internal_separator_defined [of a k] ok \<open>icmp a k < 0\<close> by (simp add: s_def table_setting_simps [OF set])
  have "seps_ok (blks @ [[(k, v)]]) seps"
    using cur(3,6) seps_ok_append [of seps blks] by simp
  moreover have "(blks @ [[(k, v)]]) ! length seps = last blks"
    using cur(2,3) by (metis diff_Suc_1 last_conv_nth lessI nth_append)
  moreover have "(blks @ [[(k, v)]]) ! Suc (length seps) = [(k, v)]" by (simp add: cur(3))
  ultimately have seps: "seps_ok (blks @ [[(k, v)]]) (seps @ [s])"
    using separator_sep_ok [OF ok \<open>icmp a k < 0\<close>] cur(3) by (simp add: seps_ok_snoc s_def a_def)
  then have "increasing icmp (seps @ [s])"
    using seps_increasing [OF _ _ seps] pre(1,3) cur(3,5) by simp
  from add_index_entry_mem [OF set _ this, of blks n r] n cur inv True obtain ib where
    "add_index_entry s r = Some (r\<lparr>tb_last_key := s, tb_index_block := ib, tb_pending_index_entry := False\<rparr>)"
    "add_entries 1 icmp (index_entries env opts blks (seps @ [s])) NewBlockBuilder = Some ib"
    by (auto simp: table_inv_def)
  moreover have "tb_options r = opts" using inv by (simp add: table_inv_def)
  ultimately show ?thesis using True cur seps sep last_key
    by (intro exI [of _ s] exI [of _ ib] exI [of _ "seps @ [s]"]) (simp add: NewBlockBuilder_def)
qed


lemma TableAdd_inv:
  assumes set: "table_setting env opts xs" and inv: "table_inv env opts blks cur seps r"
    and n: "concat blks @ cur = take n xs" and next_key: "n < length xs" "xs ! n = (k, v)"
  shows "\<exists>r' blks' cur' seps'. TableAdd env k v r = Some r' \<and> table_inv env opts blks' cur' seps' r'
    \<and> concat blks' @ cur' = take (Suc n) xs"
proof -
  have n': "concat blks @ cur @ [(k, v)] = take (Suc n) xs"
    using n next_key by (simp add: take_Suc_conv_app_nth)
  note pre = table_prefix [OF set n'] and simps = table_setting_simps [OF set]
  have r: "tb_options r = opts" "tb_status r = OK" "\<not> tb_closed r" "tb_num_entries r = n"
    "tb_file r = data_bytes env opts blks" "tb_offset r = of_nat (length (data_bytes env opts blks))" "[] \<notin> set blks"
    "add_entries (to_restart_interval opts) icmp cur NewBlockBuilder = Some (tb_data_block r)"
    "filter_state env opts blks cur r"
    using inv n next_key by (simp_all add: table_inv_def)
  have order: "icmp k (tb_last_key r) > 0" if "n > 0"
  proof -
    have ne: "concat blks @ cur \<noteq> []" using that n next_key by auto
    then have "tb_last_key r = last (map fst (concat blks @ cur))"
      using inv unfolding table_inv_def last_map [OF ne] by blast
    moreover have "increasing icmp (map fst (concat blks @ cur) @ [k])" using pre(1) by simp
    moreover have "map fst (concat blks @ cur) \<noteq> []" using ne by simp
    ultimately show ?thesis unfolding increasing_snoc by metis
  qed
  obtain lk ib seps' where pend:
    "(if tb_pending_index_entry r then
       (if bb_buffer (tb_data_block r) \<noteq> [] then None
        else Option.bind (to_separator (tb_options r) (tb_last_key r) k) (\<lambda>last_key. add_index_entry last_key r))
     else Some r) = Some (r\<lparr>tb_last_key := lk, tb_index_block := ib, tb_pending_index_entry := False\<rparr>)"
    "add_entries 1 icmp (index_entries env opts blks seps') NewBlockBuilder = Some ib"
    "length seps' = length blks" "seps_ok (blks @ [cur @ [(k, v)]]) seps'"
    using pending_entry_added [OF assms] by blast
  obtain db where db: "BlockBuilderAdd (to_restart_interval opts) icmp k v (tb_data_block r) = Some db"
    "add_entries (to_restart_interval opts) icmp (cur @ [(k, v)]) NewBlockBuilder = Some db"
    by (rule add_entries_next [OF simps(6) pre(2) r(8)])
  define r1 where "r1 = r\<lparr>tb_index_block := ib, tb_pending_index_entry := False,
     tb_filter_block := map_option (\<lambda>(create, fb). (create, FilterAddKey k fb)) (tb_filter_block r),
     tb_last_key := k, tb_num_entries := Suc n, tb_data_block := db\<rparr>"
  have add: "TableAdd env k v r = (if CurrentSizeEstimate db \<ge> to_block_size opts then TableFlush env r1 else Some r1)"
    using order unfolding TableAdd_def pend(1) by (auto simp: r simps db add_filter_key_def Let_def r1_def)
  have "filter_state env opts blks (cur @ [(k, v)]) r1"
    using r(9) by (auto simp: filter_state_def r1_def filter_blocks_key split: option.splits)
  moreover have "length (concat blks @ cur @ [(k, v)]) = Suc n" unfolding n' using next_key(1) by simp
  ultimately have inv1: "table_inv env opts blks (cur @ [(k, v)]) seps' r1"
    unfolding table_inv_def using r pend(2-) db by (simp add: r1_def)
  show ?thesis
  proof (cases "CurrentSizeEstimate db \<ge> to_block_size opts")
    case True
    then show ?thesis using TableFlush_inv [OF set inv1, of "Suc n"] n' add by fastforce
  next
    case False
    then show ?thesis using inv1 n' add by fastforce
  qed
qed


lemma NewTableBuilder_inv:
  assumes set: "table_setting env opts xs"
  shows "\<exists>r. NewTableBuilder opts [] = Some r \<and> table_inv env opts [] [] [] r"
proof (cases "to_filter opts")
  case None
  then show ?thesis using table_setting_simps(6) [OF set]
    by (simp add: NewTableBuilder_def start_filter_block_def table_inv_def data_bytes_def index_entries_def seps_ok_def
        filter_state_def)
next
  case (Some p)
  obtain create name where p: "p = (create, name)" by (cases p)
  obtain contents where "build_filter_block create (filter_blocks env opts [] []) = Some contents"
    using policy_ok_blocks [of opts xs create name "[]" "[]" 0 env] set Some p
    by (auto simp: table_setting_def data_bytes_def)
  then obtain fb where "StartBlock create 0 NewFilterBlockBuilder = Some fb"
    "add_blocks create (filter_blocks env opts [] []) NewFilterBlockBuilder = Some fb"
    by (auto simp: build_filter_block_def filter_blocks_def bind_eq_Some_conv data_bytes_def split: option.splits)
  then show ?thesis using Some p table_setting_simps(6) [OF set]
    by (simp add: NewTableBuilder_def start_filter_block_def table_inv_def data_bytes_def index_entries_def seps_ok_def
        filter_state_def)
qed

lemma add_table_entries_inv:
  assumes set: "table_setting env opts xs" and inv: "table_inv env opts blks cur seps r" and n: "concat blks @ cur = take n xs"
  shows "\<exists>r' blks' cur' seps'. add_table_entries env (drop n xs) r = Some r' \<and> table_inv env opts blks' cur' seps' r'
    \<and> concat blks' @ cur' = xs"
  using inv n
proof (induction "length xs - n" arbitrary: n blks cur seps r)
  case 0
  then show ?case by fastforce
next
  case (Suc m)
  then have len: "n < length xs" by simp
  obtain k v where kv: "xs ! n = (k, v)" by (cases "xs ! n")
  obtain r' blks' cur' seps' where r': "TableAdd env k v r = Some r'" "table_inv env opts blks' cur' seps' r'"
    "concat blks' @ cur' = take (Suc n) xs"
    using TableAdd_inv [OF set Suc.prems len kv] by blast
  have "drop n xs = (k, v) # drop (Suc n) xs" using len kv by (metis Cons_nth_drop_Suc)
  then show ?case using Suc.hyps(1) [OF _ r'(2,3)] Suc.hyps(2) r'(1) by simp
qed


section \<open>The finished file\<close>

definition index_ok :: "(bytes \<times> bytes) list list \<Rightarrow> bytes list \<Rightarrow> bool" where
  "index_ok blks seps \<longleftrightarrow> length seps = length blks \<and> increasing icmp seps
     \<and> (\<forall>i < length blks. internal_key_ok (seps ! i) \<and> icmp (fst (last (blks ! i))) (seps ! i) \<le> 0
          \<and> length (seps ! i) \<le> length (fst (last (blks ! i)))
          \<and> (Suc i < length blks \<longrightarrow> sep_ok (fst (last (blks ! i))) (seps ! i) (fst (hd (blks ! Suc i)))))"

definition filter_key :: "bytes \<Rightarrow> bytes" where
  "filter_key name = map (of_nat \<circ> of_char) ''filter.'' @ name"

definition meta_entries :: "table_options \<Rightarrow> BlockHandle \<Rightarrow> (bytes \<times> bytes) list" where
  "meta_entries opts fh = (case to_filter opts of None \<Rightarrow> [] | Some (_, name) \<Rightarrow> [(filter_key name, handle_bytes fh)])"

definition filter_part :: "'f table_env \<Rightarrow> bytes option \<Rightarrow> bytes" where
  "filter_part env fc = (case fc of None \<Rightarrow> [] | Some c \<Rightarrow> c @ block_trailer (te_extend env) c kNoCompression)"

definition filter_contents ::
    "'f table_env \<Rightarrow> table_options \<Rightarrow> (bytes \<times> bytes) list list \<Rightarrow> bytes option \<Rightarrow> bool" where
  "filter_contents env opts blks fc \<longleftrightarrow>
     (case to_filter opts of
        None \<Rightarrow> fc = None
      | Some (create, _) \<Rightarrow> \<exists>c. fc = Some c \<and> build_filter_block create (filter_blocks env opts blks []) = Some c \<and> length c < 2 ^ 31)"

definition stored_handle :: "'f table_env \<Rightarrow> u8 \<Rightarrow> nat \<Rightarrow> bytes \<Rightarrow> BlockHandle" where
  "stored_handle env type off raw =
     \<lparr>bh_offset = of_nat off, bh_size = of_nat (length (fst (block_to_store env type raw)))\<rparr>"

definition filter_part_handle :: "'f table_env \<Rightarrow> table_options \<Rightarrow> (bytes \<times> bytes) list list \<Rightarrow> bytes option \<Rightarrow> BlockHandle" where
  "filter_part_handle env opts blks fc =
     \<lparr>bh_offset = of_nat (length (data_bytes env opts blks)), bh_size = of_nat (length (the fc))\<rparr>"

text \<open>The parts of the file, from the blocks, the keys of the index and the contents of the filter block.\<close>

definition table_file ::
    "'f table_env \<Rightarrow> table_options \<Rightarrow> (bytes \<times> bytes) list list \<Rightarrow> bytes list \<Rightarrow> bytes option \<Rightarrow> bytes" where
  "table_file env opts blks seps fc =
     (let type = to_compression opts;
          data = data_bytes env opts blks @ filter_part env fc;
          meta = raw_block opts (meta_entries opts (filter_part_handle env opts blks fc));
          index = the (build_block 1 icmp (index_entries env opts blks seps))
      in data @ stored_bytes env type meta @ stored_bytes env type index
         @ footer_bytes \<lparr>ft_metaindex_handle = stored_handle env type (length data) meta,
             ft_index_handle = stored_handle env type (length (data @ stored_bytes env type meta)) index\<rparr>)"

lemma TableFlush_end:
  assumes set: "table_setting env opts xs" and inv: "table_inv env opts blks cur seps r" and n: "concat blks @ cur = xs"
  shows "\<exists>r' blks'. TableFlush env r = Some r' \<and> table_inv env opts blks' [] seps r' \<and> concat blks' = xs"
proof (cases "cur = []")
  case True
  then have "tb_data_block r = NewBlockBuilder" "tb_status r = OK" "\<not> tb_closed r" using inv by (simp_all add: table_inv_def)
  then have "TableFlush env r = Some r" by (simp add: TableFlush_def NewBlockBuilder_def)
  then show ?thesis using inv n True by auto
next
  case False
  then show ?thesis using TableFlush_inv [OF set inv False, of "length xs"] n by fastforce
qed

lemma finish_filter_mem:
  assumes set: "table_setting env opts xs" and n: "concat blks = xs" "[] \<notin> set blks"
    and r: "tb_options r = opts" "tb_status r = OK" "tb_file r = data_bytes env opts blks"
      "tb_offset r = of_nat (length (data_bytes env opts blks))" "filter_state env opts blks [] r"
  shows "\<exists>fc h. finish_filter env r = Some (h, r\<lparr>tb_file := data_bytes env opts blks @ filter_part env fc, tb_status := OK,
        tb_offset := of_nat (length (data_bytes env opts blks @ filter_part env fc))\<rparr>)
    \<and> filter_contents env opts blks fc \<and> (to_filter opts \<noteq> None \<longrightarrow> h = filter_part_handle env opts blks fc)"
proof (cases "to_filter opts")
  case None
  then have "finish_filter env r = Some (NewBlockHandle, r)" using r(5) by (simp add: finish_filter_def filter_state_def)
  then show ?thesis using None r by (intro exI [of _ None]) (auto simp: filter_part_def filter_contents_def)
next
  case (Some p)
  obtain create name where p: "p = (create, name)" by (cases p)
  have small: "length (data_bytes env opts blks) < 2 ^ 31" using data_bytes_small [OF set, of blks "length xs"] n by simp
  obtain c where c: "build_filter_block create (filter_blocks env opts blks []) = Some c" "length c < 2 ^ 31"
    using policy_ok_blocks [of opts xs create name blks "[]" "length xs" env] set Some p n small
    by (auto simp: table_setting_def)
  obtain fb where fb: "tb_filter_block r = Some (create, fb)" "FilterBlockFinish create fb = Some c"
    using r(5) c(1) Some p by (auto simp: filter_state_def build_filter_block_def)
  show ?thesis using c fb Some p r
    by (intro exI [of _ "Some c"])
      (simp add: finish_filter_def WriteRawBlock_mem [OF set] filter_part_def filter_contents_def filter_part_handle_def
        kBlockTrailerSize_def)
qed


lemma finish_metaindex_mem:
  assumes set: "table_setting env opts xs" and r: "tb_options r = opts" "tb_status r = OK" "tb_file r = data"
      "tb_offset r = of_nat (length data)" "tb_filter_block r = None \<longleftrightarrow> to_filter opts = None"
    and h: "to_filter opts \<noteq> None \<longrightarrow> h = fh \<and> handle_set fh"
  defines "meta \<equiv> raw_block opts (meta_entries opts fh)"
  shows "finish_metaindex env h r = Some (stored_handle env (to_compression opts) (length data) meta,
      r\<lparr>tb_file := data @ stored_bytes env (to_compression opts) meta, tb_status := OK,
        tb_offset := of_nat (length (data @ stored_bytes env (to_compression opts) meta))\<rparr>)"
proof -
  have inc: "increasing icmp (map fst (meta_entries opts fh))"
    by (auto simp: meta_entries_def increasing_def split: option.splits)
  obtain b where b: "add_entries (to_restart_interval opts) icmp (meta_entries opts fh) NewBlockBuilder = Some b"
    using add_entries_defined [OF table_setting_simps(6) [OF set] inc] by blast
  have "(if tb_filter_block r \<noteq> None then
             Option.bind (to_filter (tb_options r)) (\<lambda>(_, name).
             Option.bind (BlockHandleEncodeTo h []) (\<lambda>handle_encoding.
               BlockBuilderAdd (to_restart_interval (tb_options r)) (to_compare (tb_options r))
                 (map (of_nat \<circ> of_char) ''filter.'' @ name) handle_encoding NewBlockBuilder))
           else Some NewBlockBuilder) = Some b"
    using b h r(1,5) table_setting_simps(3) [OF set]
    by (auto simp: meta_entries_def BlockHandleEncodeTo_eq filter_key_def bind_eq_Some_conv split: option.splits)
  moreover have "snd (BlockBuilderFinish b) = meta"
    using raw_block_finish [of opts "meta_entries opts fh" b] b table_setting_simps(3) [OF set] by (simp add: meta_def)
  ultimately show ?thesis using r
    using table_setting_simps(6) [OF set] by (simp add: finish_metaindex_def WriteBlock_mem [OF set] stored_handle_def)
qed

lemma internal_successor_length: "length (internal_successor BytewiseCompare BytewiseFindShortSuccessor a) \<le> length a"
  by (auto simp: internal_successor_def Let_def ExtractUserKey_def)

text \<open>The index after the entry of the last block: every block has its key.\<close>

lemma last_separator:
  assumes pre: "increasing icmp (map fst (concat blks))" "\<And>k v. (k, v) \<in> set (concat blks) \<Longrightarrow> internal_key_ok k"
    and seps: "seps_ok blks seps" "Suc (length seps) = length blks" "[] \<notin> set blks"
  defines "s \<equiv> internal_successor BytewiseCompare BytewiseFindShortSuccessor (fst (last (last blks)))"
  shows "index_ok blks (seps @ [s])"
proof -
  have m: "length seps < length blks" using seps(2) by simp
  have "blks \<noteq> []" "length blks - 1 = length seps" using seps(2) by auto
  then have "blks ! length seps = last blks" by (simp add: last_conv_nth)
  note m = m this
  define a where "a = fst (last (last blks))"
  note ends = block_ends_ordered [OF pre m(1) seps(3), unfolded m(2), folded a_def]
  have s: "internal_key_ok s" "icmp a s \<le> 0" "length s \<le> length a"
    using internal.successor_above [OF ends(3)] internal_successor_length [of a] by (simp_all add: s_def a_def)
  have inc: "increasing icmp seps" by (rule seps_increasing [OF pre seps(1) m(1) seps(3)])
  have "seps = [] \<or> icmp s (last seps) > 0"
  proof (cases seps rule: rev_cases)
    case (snoc ys y)
    then have i: "length ys < length seps" "seps ! length ys = y" "Suc (length ys) = length seps" by simp_all
    then have y: "sep_ok (fst (last (blks ! length ys))) y (fst (hd (last blks)))"
      using seps(1) m(2) by (metis seps_ok_def)
    then have "icmp y a < 0" "internal_key_ok y"
      using internal.compare_less_le_trans [OF _ ends(2,3) _ ends(1)] by (simp_all add: sep_ok_def)
    then have "icmp y s < 0" using internal.compare_less_le_trans [OF _ ends(3) s(1) _ s(2)] by simp
    then show ?thesis using internal.compare_swap [OF \<open>internal_key_ok y\<close> s(1)] snoc by simp
  qed simp
  with inc have "increasing icmp (seps @ [s])" by (simp add: increasing_snoc)
  moreover have "internal_key_ok ((seps @ [s]) ! i) \<and> icmp (fst (last (blks ! i))) ((seps @ [s]) ! i) \<le> 0
      \<and> length ((seps @ [s]) ! i) \<le> length (fst (last (blks ! i)))
      \<and> (Suc i < length blks \<longrightarrow> sep_ok (fst (last (blks ! i))) ((seps @ [s]) ! i) (fst (hd (blks ! Suc i))))"
    if "i < length blks" for i
  proof (cases "i < length seps")
    case True
    then have "sep_ok (fst (last (blks ! i))) (seps ! i) (fst (hd (blks ! Suc i)))" using seps(1) by (simp add: seps_ok_def)
    then show ?thesis using True by (simp add: nth_append sep_ok_def)
  next
    case False
    then have "i = length seps" using that seps(2) by simp
    then show ?thesis using s m seps(2) by (simp add: a_def)
  qed
  ultimately show ?thesis using seps(2) by (simp add: index_ok_def)
qed

lemma last_index_entry:
  assumes set: "table_setting env opts xs" and n: "concat blks = xs" "[] \<notin> set blks"
    and r: "tb_options r = opts" "tb_status r = OK" "tb_file r = data" "tb_offset r = of_nat (length data)"
      "add_entries 1 icmp (index_entries env opts blks seps) NewBlockBuilder = Some (tb_index_block r)"
      "blks \<noteq> [] \<longrightarrow> tb_last_key r = fst (last (last blks))" "seps_ok (blks @ [[]]) seps"
      "if tb_pending_index_entry r then blks \<noteq> [] \<and> Suc (length seps) = length blks
          \<and> tb_pending_handle r = block_handle env opts blks (length seps)
        else seps = [] \<and> blks = []"
  shows "\<exists>seps' r'. (if tb_pending_index_entry r
           then Option.bind (to_successor (tb_options r) (tb_last_key r)) (\<lambda>last_key. add_index_entry last_key r)
           else Some r) = Some r' \<and> index_ok blks seps'
     \<and> tb_options r' = opts \<and> tb_status r' = OK \<and> tb_file r' = data \<and> tb_offset r' = of_nat (length data)
     \<and> add_entries 1 icmp (index_entries env opts blks seps') NewBlockBuilder = Some (tb_index_block r')"
proof (cases "tb_pending_index_entry r")
  case False
  then have "index_ok blks []" using r(8) by (simp add: index_ok_def increasing_Nil)
  then show ?thesis using False r by (intro exI [of _ "[]"]) simp
next
  case True
  then have p: "blks \<noteq> []" "Suc (length seps) = length blks" "tb_pending_handle r = block_handle env opts blks (length seps)"
    using r(8) by simp_all
  have seps: "seps_ok blks seps" using r(7) p(2) seps_ok_append [of seps blks "[[]]"] by simp
  define s where "s = internal_successor BytewiseCompare BytewiseFindShortSuccessor (fst (last (last blks)))"
  have pre: "increasing icmp (map fst (concat blks))" "\<And>k v. (k, v) \<in> set (concat blks) \<Longrightarrow> internal_key_ok k"
    using table_prefix [OF set, of blks "[]" "length xs"] n(1) by simp_all
  have idx: "index_ok blks (seps @ [s])" unfolding s_def by (rule last_separator [OF pre seps p(2) n(2)])
  have "internal_key_ok (fst (last (blks ! length seps)))"
    using block_ends_ordered(3) [OF pre _ n(2)] p(2) by simp
  then have "internal_key_ok (fst (last (last blks)))" using p by (metis diff_Suc_1 last_conv_nth)
  then have "to_successor opts (tb_last_key r) = Some s"
    using bytewise.internal_successor_defined r(6) p(1) by (simp add: s_def table_setting_simps [OF set])
  moreover obtain ib where "add_index_entry s r = Some (r\<lparr>tb_last_key := s, tb_index_block := ib, tb_pending_index_entry := False\<rparr>)"
    "add_entries 1 icmp (index_entries env opts blks (seps @ [s])) NewBlockBuilder = Some ib"
    using add_index_entry_mem [OF set, of blks "length xs" seps s r] n idx p r(1,5) by (auto simp: index_ok_def)
  ultimately show ?thesis using True idx r by (intro exI [of _ "seps @ [s]"]) simp
qed

lemma finish_index_mem:
  assumes set: "table_setting env opts xs" and n: "concat blks = xs" "[] \<notin> set blks"
    and r: "tb_options r = opts" "tb_status r = OK" "tb_file r = data" "tb_offset r = of_nat (length data)"
      "add_entries 1 icmp (index_entries env opts blks seps) NewBlockBuilder = Some (tb_index_block r)"
      "blks \<noteq> [] \<longrightarrow> tb_last_key r = fst (last (last blks))" "seps_ok (blks @ [[]]) seps"
      "if tb_pending_index_entry r then blks \<noteq> [] \<and> Suc (length seps) = length blks
          \<and> tb_pending_handle r = block_handle env opts blks (length seps)
        else seps = [] \<and> blks = []"
  shows "\<exists>seps' r'. finish_index env r = Some (stored_handle env (to_compression opts) (length data)
        (the (build_block 1 icmp (index_entries env opts blks seps'))), r')
    \<and> index_ok blks seps' \<and> tb_status r' = OK \<and> tb_options r' = opts
    \<and> tb_file r' = data @ stored_bytes env (to_compression opts) (the (build_block 1 icmp (index_entries env opts blks seps')))"
proof -
  obtain seps' r' where r': "(if tb_pending_index_entry r
           then Option.bind (to_successor (tb_options r) (tb_last_key r)) (\<lambda>last_key. add_index_entry last_key r)
           else Some r) = Some r'" "index_ok blks seps'"
     "tb_options r' = opts" "tb_status r' = OK" "tb_file r' = data" "tb_offset r' = of_nat (length data)"
     "add_entries 1 icmp (index_entries env opts blks seps') NewBlockBuilder = Some (tb_index_block r')"
    using last_index_entry [OF assms] by blast
  have "snd (BlockBuilderFinish (tb_index_block r')) = the (build_block 1 icmp (index_entries env opts blks seps'))"
    using r'(7) by (simp add: build_block_def)
  then show ?thesis using r' r(2)
    by (intro exI [of _ seps']) (simp add: finish_index_def r'(1) WriteBlock_mem [OF set] stored_handle_def)
qed


text \<open>All handles of a file of this size are set, so the footer can be encoded.\<close>

lemma finish_footer_mem:
  assumes set: "table_setting env opts xs" and r: "tb_status r = OK" and h: "handle_set mh" "handle_set ih"
  shows "\<exists>r'. finish_footer env mh ih r = Some r' \<and> tb_status r' = OK
    \<and> tb_file r' = tb_file r @ footer_bytes \<lparr>ft_metaindex_handle = mh, ft_index_handle = ih\<rparr>"
  using h r by (simp add: finish_footer_def FooterEncodeTo_eq table_setting_simps [OF set])

lemma stored_handle_set: "off < 2 ^ 63 \<Longrightarrow> length raw < 2 ^ 63 \<Longrightarrow> handle_set (stored_handle env type off raw)"
  using length_block_to_store [of env type raw] of_nat_handle_set [of off]
    of_nat_handle_set [of "length (fst (block_to_store env type raw))"]
  by (simp add: handle_set_def stored_handle_def)

lemma table_size_member: "(k, v) \<in> set xs \<Longrightarrow> 64 + length k + length v \<le> table_size xs"
  by (induction xs) auto

lemma index_size:
  assumes "index_ok blks seps" "[] \<notin> set blks"
  shows "entries_size (index_entries env opts blks seps) \<le> table_size (concat blks)"
proof -
  have "19 + length (seps ! i) + length (handle_bytes (block_handle env opts blks i)) \<le> table_size (blks ! i)"
    if "i < length blks" for i
  proof -
    have "last (blks ! i) \<in> set (blks ! i)" using assms(2) nth_mem [OF that] by (metis last_in_set)
    then have "64 + length (fst (last (blks ! i))) \<le> table_size (blks ! i)"
      using table_size_member [of "fst (last (blks ! i))" "snd (last (blks ! i))" "blks ! i"] by simp
    moreover have "length (seps ! i) \<le> length (fst (last (blks ! i)))" using assms(1) that by (simp add: index_ok_def)
    ultimately show ?thesis
      using length_handle_bytes [of "block_handle env opts blks i"] by (simp add: kMaxEncodedLength_def)
  qed
  then have "(\<Sum>i \<leftarrow> [0..<length blks]. 19 + length (seps ! i) + length (handle_bytes (block_handle env opts blks i)))
      \<le> (\<Sum>i \<leftarrow> [0..<length blks]. table_size (blks ! i))"
    by (intro sum_list_mono) auto
  moreover have "table_size (concat bs) = (\<Sum>b \<leftarrow> bs. table_size b)" for bs by (induction bs) simp_all
  then have "table_size (concat blks) = (\<Sum>i \<leftarrow> [0..<length blks]. table_size (blks ! i))"
    using map_map [of table_size "(!) blks" "[0..<length blks]"] by (simp add: map_nth comp_def)
  ultimately show ?thesis
    using assms(1) by (simp add: index_ok_def index_entries_def entries_size_def comp_def)
qed

text \<open>The sizes of the parts of the file.\<close>

lemma table_parts_small:
  assumes set: "table_setting env opts xs" and n: "concat blks = xs" "[] \<notin> set blks"
    and idx: "index_ok blks seps" and fc: "filter_contents env opts blks fc"
  defines "meta \<equiv> raw_block opts (meta_entries opts (filter_part_handle env opts blks fc))"
    and "index \<equiv> the (build_block 1 icmp (index_entries env opts blks seps))"
  shows "length (data_bytes env opts blks) < 2 ^ 31" "length (filter_part env fc) < 2 ^ 31 + 5"
    "to_filter opts \<noteq> None \<Longrightarrow> length (the fc) < 2 ^ 31" "length meta < 2 ^ 31 + 54" "length index < 2 ^ 31 + 8"
    "build_block 1 icmp (index_entries env opts blks seps) = Some index"
    "build_block (to_restart_interval opts) icmp (meta_entries opts (filter_part_handle env opts blks fc)) = Some meta"
proof -
  show "length (data_bytes env opts blks) < 2 ^ 31" using data_bytes_small [OF set, of blks "length xs"] n by simp
  show "length (filter_part env fc) < 2 ^ 31 + 5"
    using fc by (auto simp: filter_contents_def filter_part_def kBlockTrailerSize_def split: option.splits)
  show "length (the fc) < 2 ^ 31" if "to_filter opts \<noteq> None"
    using fc that by (auto simp: filter_contents_def split: option.splits)
  have inc: "increasing icmp (map fst (meta_entries opts (filter_part_handle env opts blks fc)))"
    by (auto simp: meta_entries_def increasing_def split: option.splits)
  note m = raw_block_defined [OF table_setting_simps(6) [OF set], unfolded table_setting_simps(3) [OF set], OF inc]
  then show "build_block (to_restart_interval opts) icmp (meta_entries opts (filter_part_handle env opts blks fc)) = Some meta"
    by (simp add: meta_def)
  have "entries_size (meta_entries opts (filter_part_handle env opts blks fc)) < 2 ^ 31 + 46"
    using set length_handle_bytes [of "filter_part_handle env opts blks fc"]
    by (auto simp: meta_entries_def filter_key_def kMaxEncodedLength_def table_setting_def policy_ok_def split: option.splits)
  with length_build_block [OF m] show "length meta < 2 ^ 31 + 54" by (simp add: meta_def)
  have "increasing icmp (map fst (index_entries env opts blks seps))" using idx by (simp add: index_ok_def)
  then obtain b where "add_entries 1 icmp (index_entries env opts blks seps) NewBlockBuilder = Some b"
    using add_entries_defined [of 1 icmp "index_entries env opts blks seps"] by auto
  then show ib: "build_block 1 icmp (index_entries env opts blks seps) = Some index" by (simp add: build_block_def index_def)
  have "table_size xs < 2 ^ 31" using set by (simp add: table_setting_def table_entries_ok_def)
  then show "length index < 2 ^ 31 + 8" using length_build_block [OF ib] index_size [OF idx n(2), of env opts] n(1) by simp
qed


lemma table_inv_index:
  assumes "table_inv env opts blks [] seps r"
  shows "blks \<noteq> [] \<longrightarrow> tb_last_key r = fst (last (last blks))"
    "if tb_pending_index_entry r then blks \<noteq> [] \<and> Suc (length seps) = length blks
        \<and> tb_pending_handle r = block_handle env opts blks (length seps)
      else seps = [] \<and> blks = []"
proof -
  have "tb_last_key r = fst (last (last blks))" if "blks \<noteq> []"
  proof -
    have "last blks \<noteq> []" using assms last_in_set [OF that] by (auto simp: table_inv_def)
    moreover from this have "concat blks \<noteq> []" using last_in_set [OF that] by auto
    ultimately show ?thesis using assms last_concat [OF that] by (simp add: table_inv_def)
  qed
  then show "blks \<noteq> [] \<longrightarrow> tb_last_key r = fst (last (last blks))" by blast
  show "if tb_pending_index_entry r then blks \<noteq> [] \<and> Suc (length seps) = length blks
        \<and> tb_pending_handle r = block_handle env opts blks (length seps)
      else seps = [] \<and> blks = []"
    using assms by (auto simp: table_inv_def)
qed

text \<open>A builder that has all the entries finishes, with the file laid out as described.\<close>

lemma TableFinish_layout:
  assumes set: "table_setting env opts xs" and inv: "table_inv env opts blks cur seps r" and n: "concat blks @ cur = xs"
  shows "\<exists>r' blks' seps' fc. TableFinish env r = Some (OK, r') \<and> tb_file r' = table_file env opts blks' seps' fc
    \<and> concat blks' = xs \<and> [] \<notin> set blks' \<and> index_ok blks' seps' \<and> filter_contents env opts blks' fc"
proof -
  obtain r1 bs where flush: "TableFlush env r = Some r1" and inv1: "table_inv env opts bs [] seps r1" and bs: "concat bs = xs"
    using TableFlush_end [OF assms] by blast
  have r1: "tb_options r1 = opts" "tb_status r1 = OK" "\<not> tb_closed r1" "tb_file r1 = data_bytes env opts bs"
    "tb_offset r1 = of_nat (length (data_bytes env opts bs))" "filter_state env opts bs [] r1" "[] \<notin> set bs"
    "add_entries 1 icmp (index_entries env opts bs seps) NewBlockBuilder = Some (tb_index_block r1)"
    "seps_ok (bs @ [[]]) seps"
    using inv1 by (simp_all add: table_inv_def)
  note idx = table_inv_index [OF inv1]
  define r2 where "r2 = r1\<lparr>tb_closed := True\<rparr>"
  have "filter_state env opts bs [] r2" using r1(6) filter_state_cong [of r2 r1] by (simp add: r2_def)
  then obtain fc h where f: "filter_contents env opts bs fc" "to_filter opts \<noteq> None \<longrightarrow> h = filter_part_handle env opts bs fc"
    and ff: "finish_filter env r2 = Some (h, r2\<lparr>tb_file := data_bytes env opts bs @ filter_part env fc, tb_status := OK,
        tb_offset := of_nat (length (data_bytes env opts bs @ filter_part env fc))\<rparr>)"
    using finish_filter_mem [OF set bs r1(7), of r2] r1 by (auto simp: r2_def)
  define data where "data = data_bytes env opts bs @ filter_part env fc"
  define r3 where "r3 = r2\<lparr>tb_file := data, tb_status := OK, tb_offset := of_nat (length data)\<rparr>"
  define meta where "meta = raw_block opts (meta_entries opts (filter_part_handle env opts bs fc))"
  define data2 where "data2 = data @ stored_bytes env (to_compression opts) meta"
  define r4 where "r4 = r3\<lparr>tb_file := data2, tb_status := OK, tb_offset := of_nat (length data2)\<rparr>"
  have small: "length (data_bytes env opts bs) < 2 ^ 31" "to_filter opts \<noteq> None \<Longrightarrow> length (the fc) < 2 ^ 31"
    using data_bytes_small [OF set, of bs "length xs"] bs r1(7) f(1)
    by (auto simp: filter_contents_def split: option.splits)
  have "handle_set (filter_part_handle env opts bs fc)" if "to_filter opts \<noteq> None"
    using small that of_nat_handle_set [of "length (data_bytes env opts bs)"] of_nat_handle_set [of "length (the fc)"]
    by (simp add: handle_set_def filter_part_handle_def)
  moreover have "tb_filter_block r3 = None \<longleftrightarrow> to_filter opts = None"
    using r1(6) by (auto simp: r3_def r2_def filter_state_def split: option.splits)
  ultimately have fm: "finish_metaindex env h r3 = Some (stored_handle env (to_compression opts) (length data) meta, r4)"
    using finish_metaindex_mem [OF set, of r3 data h "filter_part_handle env opts bs fc"] f(2) r1
    by (simp add: r3_def r2_def r4_def data2_def meta_def)
  have fi: "\<exists>seps' r5. finish_index env r4 = Some (stored_handle env (to_compression opts) (length data2)
        (the (build_block 1 icmp (index_entries env opts bs seps'))), r5)
    \<and> index_ok bs seps' \<and> tb_status r5 = OK \<and> tb_options r5 = opts
    \<and> tb_file r5 = data2 @ stored_bytes env (to_compression opts) (the (build_block 1 icmp (index_entries env opts bs seps')))"
    by (rule finish_index_mem [OF set bs r1(7), where seps = seps])
      (use r1 idx in \<open>simp_all add: r4_def r3_def r2_def split: if_splits\<close>)
  then obtain seps' r5 index where r5:
    "finish_index env r4 = Some (stored_handle env (to_compression opts) (length data2) index, r5)"
    "index_ok bs seps'" "tb_status r5 = OK" "tb_file r5 = data2 @ stored_bytes env (to_compression opts) index"
    "index = the (build_block 1 icmp (index_entries env opts bs seps'))"
    by blast
  note parts = table_parts_small [OF set bs r1(7) r5(2) f(1), folded meta_def r5(5)]
  have "length data < 2 ^ 63" "length data2 < 2 ^ 63"
    using parts length_block_to_store [of env "to_compression opts" meta]
    by (simp_all add: data_def data2_def length_stored_bytes)
  moreover have "length meta < 2 ^ 63" "length index < 2 ^ 63" using parts by simp_all
  ultimately have set_h: "handle_set (stored_handle env (to_compression opts) (length data) meta)"
    "handle_set (stored_handle env (to_compression opts) (length data2) index)"
    by (simp_all only: stored_handle_set)
  obtain r6 where r6: "finish_footer env (stored_handle env (to_compression opts) (length data) meta)
      (stored_handle env (to_compression opts) (length data2) index) r5 = Some r6" "tb_status r6 = OK"
    "tb_file r6 = tb_file r5 @ footer_bytes \<lparr>ft_metaindex_handle = stored_handle env (to_compression opts) (length data) meta,
       ft_index_handle = stored_handle env (to_compression opts) (length data2) index\<rparr>"
    using finish_footer_mem [OF set r5(3) set_h] by blast
  have layout: "tb_file r6 = table_file env opts bs seps' fc"
    by (simp add: r6(3) r5(4) table_file_def Let_def flip: data_def meta_def) (simp add: data2_def r5(5))
  have "TableFinish env r = Some (OK, r6)"
    using flush r1(3) ff fm r5(1) r6
    by (simp add: TableFinish_def Let_def flip: r2_def data_def) (simp flip: r3_def)
  then show ?thesis using layout bs r1(7) r5(2) f(1) by blast
qed

lemma build_table_layout:
  assumes set: "table_setting env opts xs"
  shows "\<exists>r blks seps fc. build_table env opts [] xs = Some (OK, r) \<and> tb_file r = table_file env opts blks seps fc
    \<and> concat blks = xs \<and> [] \<notin> set blks \<and> index_ok blks seps \<and> filter_contents env opts blks fc"
proof -
  obtain r where r: "NewTableBuilder opts [] = Some r" "table_inv env opts [] [] [] r"
    using NewTableBuilder_inv [OF set] by blast
  obtain r' blks cur seps where "add_table_entries env xs r = Some r'" "table_inv env opts blks cur seps r'" "concat blks @ cur = xs"
    using add_table_entries_inv [OF set r(2), of 0] by auto
  with r(1) TableFinish_layout [OF set this(2,3)] show ?thesis by (simp add: build_table_def)
qed

end
