(* ===== verification/Table.thy ===== *)
theory Table
  imports Cache Table_Layout
begin

text \<open>
  The table reader, \<open>table/table.cc\<close>: opening a table file, the filter and the index it keeps, the
  reader of data blocks with its block cache, the lookup of one key and the approximate offset of a
  key. The file, the checksum routine, the decompressor and the cache are arguments. A failed
  assertion is \<open>None\<close>; a \<open>Status\<close> other than OK is a value.
\<close>

section \<open>State\<close>

text \<open>
  What \<open>Options\<close> and the file give a reader. A policy is its \<open>KeyMayMatch\<close> and its name;
  \<open>re_direct\<close> says that the file returns a pointer into its own memory instead of filling the
  buffer, in which case \<open>ReadBlock\<close> marks an uncompressed block as not cachable.
\<close>

record ('h, 'c) read_env =
  re_compare :: "bytes \<Rightarrow> bytes \<Rightarrow> int"
  re_filter :: "((bytes \<Rightarrow> bytes \<Rightarrow> bool option) \<times> bytes) option"
  re_paranoid_checks :: bool
  re_extend :: "u32 \<Rightarrow> bytes \<Rightarrow> u32"
  re_uncompress :: "bytes \<Rightarrow> bytes option"
  re_read :: random_access_file
  re_direct :: bool
  re_cache :: "(bytes, Block, 'h, 'c) cache_ops option"

record ReadOptions =
  ro_verify_checksums :: bool
  ro_fill_cache :: bool

record Table =
  t_cache_id :: u64
  t_filter :: "FilterBlockReader option"
  t_metaindex_handle :: BlockHandle
  t_index_block :: Block

section \<open>Iterators of a block\<close>

text \<open>The calls of the iterator interface on the iterator of a block, of an empty one, or of an error.\<close>

fun iter_seek :: "(bytes \<Rightarrow> bytes \<Rightarrow> int) \<Rightarrow> bytes \<Rightarrow> block_iterator \<Rightarrow> block_iterator option" where
  "iter_seek compare target (EntryIterator v it) = map_option (EntryIterator v) (IterSeek v compare target it)"
| "iter_seek compare target it = Some it"

fun iter_valid :: "block_iterator \<Rightarrow> bool" where
  "iter_valid (EntryIterator v it) = IterValid v it"
| "iter_valid _ = False"

fun iter_key :: "block_iterator \<Rightarrow> bytes option" where
  "iter_key (EntryIterator v it) = (if IterValid v it then Some (bi_key it) else None)"
| "iter_key _ = None"

fun iter_value :: "block_iterator \<Rightarrow> bytes option" where
  "iter_value (EntryIterator v it) = (if IterValid v it then Some (IterValue v it) else None)"
| "iter_value _ = None"

fun iter_status :: "block_iterator \<Rightarrow> Status" where
  "iter_status (EntryIterator v it) = (if bi_status it = BlockOk then OK else Corruption ''bad entry in block'')"
| "iter_status EmptyIterator = OK"
| "iter_status ErrorIterator = Corruption ''bad block contents''"

section \<open>Opening a table\<close>

definition read_block :: "('h, 'c) read_env \<Rightarrow> bool \<Rightarrow> BlockHandle \<Rightarrow> Status + bytes" where
  "read_block env verify_checksums handle = ReadBlock (re_extend env) (re_uncompress env) (re_read env) verify_checksums handle"

text \<open>The flag \<open>cachable\<close> that \<open>ReadBlock\<close> sets when it succeeds.\<close>

definition block_cachable :: "('h, 'c) read_env \<Rightarrow> BlockHandle \<Rightarrow> bool" where
  "block_cachable env handle =
     (case re_read env (bh_offset handle) (unat (bh_size handle) + kBlockTrailerSize) of
        Inl _ \<Rightarrow> False
      | Inr contents \<Rightarrow> \<not> (re_direct env \<and> contents ! unat (bh_size handle) = kNoCompression))"

definition ReadFilter :: "('h, 'c) read_env \<Rightarrow> bytes \<Rightarrow> Table \<Rightarrow> Table" where
  "ReadFilter env filter_handle_value t =
     (case BlockHandleDecodeFrom filter_handle_value of
        Inl _ \<Rightarrow> t
      | Inr (filter_handle, _) \<Rightarrow>
          (case read_block env (re_paranoid_checks env) filter_handle of
             Inl _ \<Rightarrow> t
           | Inr block \<Rightarrow> t\<lparr>t_filter := Some (NewFilterBlockReader block)\<rparr>))"

definition ReadMeta :: "('h, 'c) read_env \<Rightarrow> Footer \<Rightarrow> Table \<Rightarrow> Table option" where
  "ReadMeta env footer t =
     (case re_filter env of
        None \<Rightarrow> Some t
      | Some (_, name) \<Rightarrow>
          (case read_block env (re_paranoid_checks env) (ft_metaindex_handle footer) of
             Inl _ \<Rightarrow> Some t
           | Inr contents \<Rightarrow>
               let key = map (of_nat \<circ> of_char) ''filter.'' @ name in
               Option.bind (iter_seek BytewiseCompare key (NewIterator (NewBlock contents))) (\<lambda>iter.
                 if iter_valid iter then
                   Option.bind (iter_key iter) (\<lambda>k.
                   Option.bind (iter_value iter) (\<lambda>v.
                     Some (if slice_equal k key then ReadFilter env v t else t)))
                 else Some t)))"

text \<open>The result is the status when it is not OK, or the table.\<close>

definition TableOpen :: "('h, 'c) read_env \<Rightarrow> nat \<Rightarrow> 'c \<Rightarrow> ((Status + Table) \<times> 'c) option" where
  "TableOpen env file_size c =
     (if file_size < kEncodedLength then Some (Inl (Corruption ''file is too short to be an sstable''), c)
      else
        case re_read env (of_nat (file_size - kEncodedLength)) kEncodedLength of
          Inl s \<Rightarrow> Some (Inl s, c)
        | Inr footer_input \<Rightarrow>
            Option.bind (FooterDecodeFrom footer_input) (\<lambda>result.
              case result of
                Inl s \<Rightarrow> Some (Inl s, c)
              | Inr (footer, _) \<Rightarrow>
                  (case read_block env (re_paranoid_checks env) (ft_index_handle footer) of
                     Inl s \<Rightarrow> Some (Inl s, c)
                   | Inr index_block_contents \<Rightarrow>
                       (case (case re_cache env of Some ops \<Rightarrow> co_new_id ops c | None \<Rightarrow> (0, c)) of
                          (cache_id, c) \<Rightarrow>
                            map_option (\<lambda>t. (Inr t, c))
                              (ReadMeta env footer
                                \<lparr>t_cache_id = cache_id, t_filter = None,
                                 t_metaindex_handle = ft_metaindex_handle footer,
                                 t_index_block = NewBlock index_block_contents\<rparr>)))))"

section \<open>Reading\<close>

text \<open>
  The iterator of the block an index value names, or the status of an error iterator, with the
  handle that is released when the iterator is deleted.
\<close>

definition BlockReader ::
    "('h, 'c) read_env \<Rightarrow> Table \<Rightarrow> ReadOptions \<Rightarrow> bytes \<Rightarrow> 'c \<Rightarrow> ((Status + block_iterator) \<times> 'h option \<times> 'c) option" where
  "BlockReader env t options index_value c =
     (case BlockHandleDecodeFrom index_value of
        Inl s \<Rightarrow> Some (Inl s, None, c)
      | Inr (handle, _) \<Rightarrow>
          (case re_cache env of
             Some block_cache \<Rightarrow>
               let key = EncodeFixed64 (t_cache_id t) @ EncodeFixed64 (bh_offset handle) in
               Option.bind (co_lookup block_cache key c) (\<lambda>(cache_handle, c).
                 case cache_handle of
                   Some h \<Rightarrow> map_option (\<lambda>block. (Inr (NewIterator block), Some h, c)) (co_value block_cache h c)
                 | None \<Rightarrow>
                     (case read_block env (ro_verify_checksums options) handle of
                        Inl s \<Rightarrow> Some (Inl s, None, c)
                      | Inr contents \<Rightarrow>
                          let block = NewBlock contents in
                          if block_cachable env handle \<and> ro_fill_cache options
                          then map_option (\<lambda>(h, c). (Inr (NewIterator block), Some h, c))
                            (co_insert block_cache key block (blk_size block) c)
                          else Some (Inr (NewIterator block), None, c)))
           | None \<Rightarrow>
               Some (map_sum id (\<lambda>contents. NewIterator (NewBlock contents))
                       (read_block env (ro_verify_checksums options) handle), None, c)))"

text \<open>The deletion of an iterator runs its cleanup: a cached block is released, any other deleted.\<close>

definition delete_iterator :: "('h, 'c) read_env \<Rightarrow> 'h option \<Rightarrow> 'c \<Rightarrow> 'c option" where
  "delete_iterator env cache_handle c =
     (case (re_cache env, cache_handle) of
        (Some block_cache, Some h) \<Rightarrow> co_release block_cache h c
      | _ \<Rightarrow> Some c)"

text \<open>The condition of the filter: without one, or with a bad handle, the block is read.\<close>

definition block_may_match :: "('h, 'c) read_env \<Rightarrow> Table \<Rightarrow> bytes \<Rightarrow> bytes \<Rightarrow> bool option" where
  "block_may_match env t handle_value k =
     (case (t_filter t, re_filter env, BlockHandleDecodeFrom handle_value) of
        (Some flt, Some (KeyMayMatch, _), Inr (handle, _)) \<Rightarrow>
          FilterBlockKeyMayMatch KeyMayMatch flt (bh_offset handle) k
      | _ \<Rightarrow> Some True)"

text \<open>The status, and the entry that \<open>handle_result\<close> is called with.\<close>

definition InternalGet ::
    "('h, 'c) read_env \<Rightarrow> Table \<Rightarrow> ReadOptions \<Rightarrow> bytes \<Rightarrow> 'c \<Rightarrow> (Status \<times> (bytes \<times> bytes) option \<times> 'c) option" where
  "InternalGet env t options k c =
     Option.bind (iter_seek (re_compare env) k (NewIterator (t_index_block t))) (\<lambda>iiter.
     Option.bind
       (if iter_valid iiter then
          Option.bind (iter_value iiter) (\<lambda>handle_value.
          Option.bind (block_may_match env t handle_value k) (\<lambda>may_match.
          if \<not> may_match then Some (OK, None, c)
          else
            Option.bind (BlockReader env t options handle_value c) (\<lambda>(block_iter, cache_handle, c).
              case block_iter of
                Inl s \<Rightarrow> map_option (\<lambda>c. (s, None, c)) (delete_iterator env cache_handle c)
              | Inr it \<Rightarrow>
                  Option.bind (iter_seek (re_compare env) k it) (\<lambda>it.
                  map_option (\<lambda>c. (iter_status it,
                      if iter_valid it then Some (the (iter_key it), the (iter_value it)) else None, c))
                    (delete_iterator env cache_handle c)))))
        else Some (OK, None, c))
       (\<lambda>(s, result, c). Some (if s = OK then iter_status iiter else s, result, c)))"

definition ApproximateOffsetOf :: "('h, 'c) read_env \<Rightarrow> Table \<Rightarrow> bytes \<Rightarrow> u64 option" where
  "ApproximateOffsetOf env t key =
     Option.bind (iter_seek (re_compare env) key (NewIterator (t_index_block t))) (\<lambda>index_iter.
       if iter_valid index_iter then
         Option.bind (iter_value index_iter) (\<lambda>input.
           Some (case BlockHandleDecodeFrom input of
               Inr (handle, _) \<Rightarrow> bh_offset handle
             | Inl _ \<Rightarrow> bh_offset (t_metaindex_handle t)))
       else Some (bh_offset (t_metaindex_handle t)))"


section \<open>Blocks of the file\<close>

text \<open>What a reader relies on: its checksum and decompressor undo what the builder did.\<close>

definition codec_ok :: "'f table_env \<Rightarrow> u8 \<Rightarrow> (bytes \<Rightarrow> bytes option) \<Rightarrow> bool" where
  "codec_ok env type uncompress \<longleftrightarrow> checksum (te_extend env)
     \<and> (type = kNoCompression \<or> type = kSnappyCompression \<and> (\<forall>raw c. te_compress env raw = Some c \<longrightarrow> uncompress c = Some raw))"

lemma read_stored:
  assumes ok: "codec_ok env type uncompress" and d: "data = pre @ stored_bytes env type raw @ post"
    and small: "length pre < 2 ^ 63" "length raw < 2 ^ 63"
  shows "ReadBlock (te_extend env) uncompress (file_of data) verify (stored_handle env type (length pre) raw) = Inr raw"
proof -
  obtain c t where ct: "block_to_store env type raw = (c, t)" by (cases "block_to_store env type raw")
  have c: "t = kNoCompression \<and> c = raw \<or> t = kSnappyCompression \<and> uncompress c = Some raw" "length c \<le> length raw"
    using ok ct length_block_to_store [of env type raw]
    by (auto simp: block_to_store_def codec_ok_def split: if_splits option.splits)
  define h where "h = stored_handle env type (length pre) raw"
  have h: "unat (bh_offset h) = length pre" "unat (bh_size h) = length c"
    using small c(2) by (simp_all add: h_def stored_handle_def ct unat_of_nat_small)
  have "file_of data (bh_offset h) (length c + kBlockTrailerSize) = Inr (c @ block_trailer (te_extend env) c t)"
    using h by (simp add: file_of_def d stored_bytes_def ct kBlockTrailerSize_def)
  from checksum.ReadBlock_contents [where extend_crc = "te_extend env" and read = "file_of data" and h = h and c = c and t = t,
      OF _ this h(2)] ok c(1) show ?thesis
    by (auto simp: codec_ok_def h_def kNoCompression_def kSnappyCompression_def)
qed

context comparator
begin

lemma iter_seek_block:
  assumes "1 \<le> interval" "increasing compare_keys (map fst entries)" "valid target"
    and "\<forall>(key, val) \<in> set entries. valid key \<and> length key < 2 ^ 32"
    and "build_block interval compare_keys entries = Some raw" "length raw < 2 ^ 32"
  shows "\<exists>it. iter_seek compare_keys target (NewIterator (NewBlock raw)) = Some it \<and> iter_status it = OK
    \<and> (case find (\<lambda>(key, val). compare_keys key target \<ge> 0) entries of
          None \<Rightarrow> \<not> iter_valid it
        | Some (key, val) \<Rightarrow> iter_valid it \<and> iter_key it = Some key \<and> iter_value it = Some val)"
proof -
  obtain v fresh it where "NewIterator (NewBlock raw) = EntryIterator v fresh"
    "IterSeek v compare_keys target fresh = Some it" "bi_status it = BlockOk"
    "case find (\<lambda>(key, val). compare_keys key target \<ge> 0) entries of
        None \<Rightarrow> \<not> IterValid v it
      | Some (key, val) \<Rightarrow> IterValid v it \<and> bi_key it = key \<and> IterValue v it = val"
    using block_seek_correct [OF assms(1-4)] assms(5,6) by auto
  then show ?thesis by (intro exI [of _ "EntryIterator v it"]) (auto split: option.splits)
qed

end

section \<open>The search through the index\<close>

abbreviation at_least :: "bytes \<Rightarrow> bytes \<times> bytes \<Rightarrow> bool" where
  "at_least k \<equiv> \<lambda>(key, val). icmp key k \<ge> 0"

definition same_user :: "bytes \<Rightarrow> (bytes \<times> bytes) option \<Rightarrow> (bytes \<times> bytes) option" where
  "same_user k r =
     (case r of
        Some (key, val) \<Rightarrow> if ExtractUserKey key = ExtractUserKey k then Some (key, val) else None
      | None \<Rightarrow> None)"

lemma find_append: "find P (xs @ ys) = (case find P xs of None \<Rightarrow> find P ys | Some x \<Rightarrow> Some x)"
  by (induction xs) auto

lemma find_NoneD: "find P xs = None \<Longrightarrow> x \<in> set xs \<Longrightarrow> \<not> P x"
  by (auto simp: find_None_iff)

lemma find_SomeD: "find P xs = Some x \<Longrightarrow> x \<in> set xs"
  by (auto simp: find_Some_iff)

lemma find_nth_map:
  assumes "find P (map f [0..<n]) = Some y"
  obtains i where "i < n" "y = f i" "P (f i)" "\<forall>j < i. \<not> P (f j)"
  using assms by (auto simp: find_Some_iff)

text \<open>The entries of a block that starts before the target are looked up in that block, or not at all.\<close>

lemma blocks_below:
  assumes inc: "increasing icmp (map fst (concat blks))" and ok: "\<And>k v. (k, v) \<in> set (concat blks) \<Longrightarrow> internal_key_ok k"
    and i: "i < length blks" "[] \<notin> set blks" and t: "internal_key_ok t" and lt: "icmp (fst (last (blks ! i))) t < 0"
    and kv: "(k, v) \<in> set (blks ! i)"
  shows "icmp k t < 0"
proof -
  have mem: "(k, v) \<in> set (concat blks)" using i(1) kv nth_mem by fastforce
  have "map fst (concat blks) = map fst (concat (take i blks)) @ map fst (blks ! i) @ map fst (concat (drop (Suc i) blks))"
    using i(1) by (metis concat.simps(2) concat_append id_take_nth_drop map_append)
  then have "increasing icmp (map fst (blks ! i))" using inc by (metis increasing_append1 increasing_append2)
  moreover have oki: "internal_key_ok a" if "a \<in> set (map fst (blks ! i))" for a
    using that ok i(1) nth_mem by fastforce
  ultimately have "sorted_wrt (\<lambda>a b. icmp a b < 0) (map fst (blks ! i))" using internal_sorted by blast
  moreover have ne: "map fst (blks ! i) \<noteq> []" using kv by auto
  then have "map fst (blks ! i) = butlast (map fst (blks ! i)) @ [last (map fst (blks ! i))]" by simp
  ultimately have "sorted_wrt (\<lambda>a b. icmp a b < 0) (butlast (map fst (blks ! i)) @ [last (map fst (blks ! i))])" by simp
  moreover have "k \<in> set (butlast (map fst (blks ! i)) @ [last (map fst (blks ! i))])" using kv ne by (metis append_butlast_last_id fst_conv image_eqI set_map)
  ultimately have "k = last (map fst (blks ! i)) \<or> icmp k (last (map fst (blks ! i))) < 0"
    by (auto simp: sorted_wrt_append)
  moreover have "last (map fst (blks ! i)) = fst (last (blks ! i))" using ne by (simp add: last_map)
  ultimately show ?thesis using lt internal.compare_trans [of k "fst (last (blks ! i))" t] ok [OF mem] oki ne t
    by (metis last_in_set)
qed


lemma concat_split:
  "i < length blks \<Longrightarrow> concat blks = concat (take i blks) @ blks ! i @ concat (drop (Suc i) blks)"
  by (metis concat.simps(2) concat_append id_take_nth_drop)

lemma internal_user_le:
  assumes "internal_key_ok a" "internal_key_ok b" "icmp a b \<le> 0"
  shows "BytewiseCompare (ExtractUserKey a) (ExtractUserKey b) \<le> 0"
proof (cases "icmp a b = 0")
  case True
  then have "a = b" using internal.compare_zero assms by simp
  then show ?thesis using bytewise.compare_refl by simp
next
  case False
  then have "icmp a b < 0" using assms(3) by simp
  then show ?thesis using assms internal_less_iff_bytewise [of a b] bytewise.compare_refl [of "ExtractUserKey b"] by auto
qed

lemma index_search_none:
  assumes inc: "increasing icmp (map fst (concat blks))" and ok: "\<And>k v. (k, v) \<in> set (concat blks) \<Longrightarrow> internal_key_ok k"
    and ne: "[] \<notin> set blks" and idx: "index_ok blks seps" and k: "internal_key_ok k" and i: "i < length blks" "icmp (seps ! i) k < 0"
    and mem: "(key, v) \<in> set (blks ! i)"
  shows "icmp key k < 0"
proof (rule blocks_below [OF inc ok i(1) ne k _ mem])
  have "internal_key_ok (fst (last (blks ! i)))" by (rule block_ends_ordered(3) [OF inc ok i(1) ne])
  moreover have "internal_key_ok (seps ! i)" "icmp (fst (last (blks ! i))) (seps ! i) \<le> 0"
    using idx i(1) by (simp_all add: index_ok_def)
  ultimately show "icmp (fst (last (blks ! i))) k < 0" using internal.compare_le_trans k i(2) by blast
qed

lemma index_search:
  assumes inc: "increasing icmp (map fst (concat blks))" and ok: "\<And>k v. (k, v) \<in> set (concat blks) \<Longrightarrow> internal_key_ok k"
    and ne: "[] \<notin> set blks" and idx: "index_ok blks seps" and k: "internal_key_ok k"
    and i: "i < length blks" "icmp (seps ! i) k \<ge> 0" "\<And>j. j < i \<Longrightarrow> icmp (seps ! j) k < 0"
  shows "find (at_least k) (blks ! i) = find (at_least k) (concat blks)
    \<or> find (at_least k) (blks ! i) = None \<and> same_user k (find (at_least k) (concat blks)) = None"
proof -
  define rest where "rest = concat (drop (Suc i) blks)"
  note all = concat_split [OF i(1), folded rest_def]
  have "icmp key k < 0" if mem: "(key, v) \<in> set (concat (take i blks))" for key v
  proof -
    obtain b where "b \<in> set (take i blks)" "(key, v) \<in> set b" using mem by auto
    moreover from this(1) obtain j where "j < length (take i blks)" "take i blks ! j = b" by (metis in_set_conv_nth)
    ultimately have "j < i" "j < length blks" "(key, v) \<in> set (blks ! j)" using i(1) by auto
    then show ?thesis by (intro index_search_none [OF inc _ ne idx k, where i = j and key = key and v = v] i(3) ok)
  qed
  then have "find (at_least k) (concat (take i blks)) = None" by (fastforce simp: find_None_iff)
  then have e: "find (at_least k) (concat blks)
      = (case find (at_least k) (blks ! i) of None \<Rightarrow> find (at_least k) rest | Some x \<Rightarrow> Some x)"
    by (simp add: all find_append del: concat_append)
  have "same_user k (find (at_least k) rest) = None" if none: "find (at_least k) (blks ! i) = None"
  proof (cases rest)
    case (Cons x ys)
    have last: "last (blks ! i) \<in> set (blks ! i)" using ne i(1) nth_mem by (metis last_in_set)
    have okl: "internal_key_ok (fst (last (blks ! i)))" by (rule block_ends_ordered(3) [OF inc ok i(1) ne])
    have s: "internal_key_ok (seps ! i)" using idx i(1) by (simp add: index_ok_def)
    have "\<not> at_least k (last (blks ! i))" by (rule find_NoneD [OF none last])
    then have "icmp (fst (last (blks ! i))) k < 0" by (simp add: case_prod_beta)
    then have "seps ! i \<noteq> fst (last (blks ! i))" using i(2) by auto
    have Suc: "Suc i < length blks" using Cons by (cases "Suc i < length blks") (simp_all add: rest_def)
    then have hd: "hd (blks ! Suc i) = x"
    proof -
      have "blks ! Suc i \<noteq> []" using ne nth_mem [OF Suc] by metis
      moreover have "rest = blks ! Suc i @ concat (drop (Suc (Suc i)) blks)"
        using Suc by (simp add: rest_def flip: Cons_nth_drop_Suc)
      ultimately show ?thesis using Cons by (cases "blks ! Suc i") simp_all
    qed
    have "sep_ok (fst (last (blks ! i))) (seps ! i) (fst (hd (blks ! Suc i)))"
      using idx i(1) Suc by (simp add: index_ok_def)
    then have "BytewiseCompare (ExtractUserKey (seps ! i)) (ExtractUserKey (fst x)) < 0"
      using \<open>seps ! i \<noteq> fst (last (blks ! i))\<close> hd by (simp add: sep_ok_def)
    moreover have "BytewiseCompare (ExtractUserKey k) (ExtractUserKey (seps ! i)) \<le> 0"
      using internal_user_le [OF k s] i(2) internal.compare_swap [OF s k] by linarith
    ultimately have below: "BytewiseCompare (ExtractUserKey k) (ExtractUserKey (fst x)) < 0"
      using bytewise.compare_le_trans by blast
    have okr: "internal_key_ok (fst p)" if "p \<in> set rest" for p using that ok [of "fst p" "snd p"] all by auto
    have "increasing icmp (map fst rest)" using inc all by (metis increasing_append2 map_append)
    moreover have "internal_key_ok a" if "a \<in> set (map fst rest)" for a using that okr by auto
    ultimately have srt: "sorted_wrt (\<lambda>a b. icmp a b < 0) (map fst rest)" using internal_sorted by blast
    have "ExtractUserKey (fst p) \<noteq> ExtractUserKey k" if p: "p \<in> set rest" for p
    proof -
      have "icmp (fst x) (fst p) \<le> 0"
        using p srt Cons internal.compare_refl [OF okr [OF p]] by (auto simp: less_imp_le)
      then have "BytewiseCompare (ExtractUserKey (fst x)) (ExtractUserKey (fst p)) \<le> 0"
        using internal_user_le okr p Cons by simp
      then have "BytewiseCompare (ExtractUserKey k) (ExtractUserKey (fst p)) < 0"
        using bytewise.compare_less_le_trans below by blast
      then show ?thesis using BytewiseCompare_zero by (metis less_irrefl)
    qed
    then show ?thesis
      by (auto simp: same_user_def find_Some_iff split: option.splits dest!: nth_mem)
  qed (simp add: same_user_def)
  then show ?thesis using e by (auto split: option.splits)
qed


lemma block_increasing: "increasing cmp (map fst (concat blks)) \<Longrightarrow> i < length blks \<Longrightarrow> increasing cmp (map fst (blks ! i))"
  unfolding concat_split map_append by (drule increasing_append2) (rule increasing_append1)

section \<open>The parts of the file are read back\<close>

definition meta_block :: "'f table_env \<Rightarrow> table_options \<Rightarrow> (bytes \<times> bytes) list list \<Rightarrow> bytes option \<Rightarrow> bytes" where
  "meta_block env opts blks fc = raw_block opts (meta_entries opts (filter_part_handle env opts blks fc))"

definition index_block :: "'f table_env \<Rightarrow> table_options \<Rightarrow> (bytes \<times> bytes) list list \<Rightarrow> bytes list \<Rightarrow> bytes" where
  "index_block env opts blks seps = the (build_block 1 icmp (index_entries env opts blks seps))"

definition table_footer ::
    "'f table_env \<Rightarrow> table_options \<Rightarrow> (bytes \<times> bytes) list list \<Rightarrow> bytes list \<Rightarrow> bytes option \<Rightarrow> Footer" where
  "table_footer env opts blks seps fc =
     (let data = data_bytes env opts blks @ filter_part env fc;
          meta = meta_block env opts blks fc
      in \<lparr>ft_metaindex_handle = stored_handle env (to_compression opts) (length data) meta,
          ft_index_handle = stored_handle env (to_compression opts)
            (length (data @ stored_bytes env (to_compression opts) meta)) (index_block env opts blks seps)\<rparr>)"

lemma table_file_parts:
  "table_file env opts blks seps fc = data_bytes env opts blks @ filter_part env fc
     @ stored_bytes env (to_compression opts) (meta_block env opts blks fc)
     @ stored_bytes env (to_compression opts) (index_block env opts blks seps)
     @ footer_bytes (table_footer env opts blks seps fc)"
  by (simp add: table_file_def table_footer_def meta_block_def index_block_def Let_def)

text \<open>A finished table: what \<open>build_table\<close> establishes.\<close>

definition finished_table ::
    "bytes table_env \<Rightarrow> table_options \<Rightarrow> (bytes \<times> bytes) list list \<Rightarrow> bytes list \<Rightarrow> bytes option \<Rightarrow> bool" where
  "finished_table env opts blks seps fc \<longleftrightarrow> table_setting env opts (concat blks) \<and> [] \<notin> set blks
     \<and> index_ok blks seps \<and> filter_contents env opts blks fc"

lemma finished_table_keys:
  assumes "finished_table env opts blks seps fc"
  shows "increasing icmp (map fst (concat blks))" "\<And>k v. (k, v) \<in> set (concat blks) \<Longrightarrow> internal_key_ok k"
    "[] \<notin> set blks" "index_ok blks seps" "table_size (concat blks) < 2 ^ 31"
  using assms by (auto simp: finished_table_def table_setting_def table_entries_ok_def)

lemma finished_parts:
  assumes "finished_table env opts blks seps fc"
  shows "length (data_bytes env opts blks) < 2 ^ 31" "length (filter_part env fc) < 2 ^ 31 + 5"
    "to_filter opts \<noteq> None \<Longrightarrow> length (the fc) < 2 ^ 31"
    "length (meta_block env opts blks fc) < 2 ^ 31 + 54" "length (index_block env opts blks seps) < 2 ^ 31 + 8"
    "build_block 1 icmp (index_entries env opts blks seps) = Some (index_block env opts blks seps)"
    "build_block (to_restart_interval opts) icmp (meta_entries opts (filter_part_handle env opts blks fc))
      = Some (meta_block env opts blks fc)"
  unfolding meta_block_def index_block_def
  using table_parts_small [of env opts "concat blks" blks seps fc] assms by (simp_all add: finished_table_def)

lemma codec_ok_plain: "codec_ok env type u \<Longrightarrow> codec_ok env kNoCompression u"
  by (simp add: codec_ok_def)

lemma finished_reads:
  assumes fin: "finished_table env opts blks seps fc" and ok: "codec_ok env (to_compression opts) u"
  defines "data \<equiv> table_file env opts blks seps fc"
  shows "ReadBlock (te_extend env) u (file_of data) verify (ft_index_handle (table_footer env opts blks seps fc))
      = Inr (index_block env opts blks seps)"
    "ReadBlock (te_extend env) u (file_of data) verify (ft_metaindex_handle (table_footer env opts blks seps fc))
      = Inr (meta_block env opts blks fc)"
    "to_filter opts \<noteq> None \<Longrightarrow> ReadBlock (te_extend env) u (file_of data) verify (filter_part_handle env opts blks fc) = Inr (the fc)"
    "i < length blks \<Longrightarrow> ReadBlock (te_extend env) u (file_of data) verify (block_handle env opts blks i) = Inr (raw_block opts (blks ! i))"
    "kEncodedLength \<le> length data"
    "file_of data (of_nat (length data - kEncodedLength)) kEncodedLength = Inr (footer_bytes (table_footer env opts blks seps fc))"
proof -
  note parts = finished_parts [OF fin] and d = table_file_parts [of env opts blks seps fc, folded data_def]
  define pre where "pre = data_bytes env opts blks @ filter_part env fc
    @ stored_bytes env (to_compression opts) (meta_block env opts blks fc)"
  have store: "length (stored_bytes env t raw) \<le> length raw + 5" for t raw
    using length_block_to_store [of env t raw] by (simp add: length_stored_bytes)
  have lp: "length pre < 2 ^ 34"
    using parts(1,2,4) store [of "to_compression opts" "meta_block env opts blks fc"] by (simp add: pre_def)
  have "data = pre @ stored_bytes env (to_compression opts) (index_block env opts blks seps)
      @ footer_bytes (table_footer env opts blks seps fc)" by (simp add: d pre_def)
  from read_stored [OF ok this] lp parts(5)
  show "ReadBlock (te_extend env) u (file_of data) verify (ft_index_handle (table_footer env opts blks seps fc))
      = Inr (index_block env opts blks seps)"
    by (simp add: table_footer_def pre_def Let_def add.assoc)
  have "data = (data_bytes env opts blks @ filter_part env fc)
      @ stored_bytes env (to_compression opts) (meta_block env opts blks fc)
      @ stored_bytes env (to_compression opts) (index_block env opts blks seps)
      @ footer_bytes (table_footer env opts blks seps fc)" by (simp add: d)
  from read_stored [OF ok this] parts(1,2,4)
  show "ReadBlock (te_extend env) u (file_of data) verify (ft_metaindex_handle (table_footer env opts blks seps fc))
      = Inr (meta_block env opts blks fc)"
    by (simp add: table_footer_def Let_def)
  show "ReadBlock (te_extend env) u (file_of data) verify (filter_part_handle env opts blks fc) = Inr (the fc)"
    if f: "to_filter opts \<noteq> None"
  proof -
    obtain c where c: "fc = Some c" using fin f by (auto simp: finished_table_def filter_contents_def split: option.splits)
    have "data = data_bytes env opts blks @ stored_bytes env kNoCompression c
        @ stored_bytes env (to_compression opts) (meta_block env opts blks fc)
        @ stored_bytes env (to_compression opts) (index_block env opts blks seps)
        @ footer_bytes (table_footer env opts blks seps fc)"
      by (simp add: d c filter_part_def stored_bytes_def block_to_store_def)
    from read_stored [OF codec_ok_plain [OF ok] this] parts(1) parts(3) [OF f] c show ?thesis
      by (simp add: stored_handle_def filter_part_handle_def block_to_store_def)
  qed
  show "ReadBlock (te_extend env) u (file_of data) verify (block_handle env opts blks i) = Inr (raw_block opts (blks ! i))"
    if i: "i < length blks"
  proof -
    have split: "data = data_bytes env opts (take i blks) @ stored_bytes env (to_compression opts) (raw_block opts (blks ! i))
        @ data_bytes env opts (drop (Suc i) blks) @ filter_part env fc
        @ stored_bytes env (to_compression opts) (meta_block env opts blks fc)
        @ stored_bytes env (to_compression opts) (index_block env opts blks seps)
        @ footer_bytes (table_footer env opts blks seps fc)"
      using data_bytes_split [OF i, of env opts] by (simp add: d)
    have "length (raw_block opts (blks ! i)) < 2 ^ 63"
    proof -
      have sz: "table_size (blks ! i) \<le> table_size (concat blks)"
        using arg_cong [OF concat_split [OF i], of table_size] by simp
      have inc: "increasing (to_compare opts) (map fst (blks ! i))"
        using block_increasing [OF finished_table_keys(1) [OF fin] i] fin table_setting_simps(3) [of env opts "concat blks"]
        by (simp add: finished_table_def)
      have "length (raw_block opts (blks ! i)) \<le> entries_size (blks ! i) + 8"
        using fin by (intro length_raw_block inc) (simp add: finished_table_def table_setting_def)
      then show ?thesis using sz entries_size_le [of "blks ! i"] finished_table_keys(5) [OF fin] by simp
    qed
    moreover have "length (data_bytes env opts (take i blks)) < 2 ^ 63"
      using parts(1) data_bytes_split [OF i, of env opts] by simp
    ultimately show ?thesis using read_stored [OF ok split] by (simp add: block_handle_def stored_handle_def)
  qed
  show "kEncodedLength \<le> length data" by (simp add: d)
  obtain q where q: "data = q @ footer_bytes (table_footer env opts blks seps fc)" "length q < 2 ^ 64"
    using lp parts(5) store [of "to_compression opts" "index_block env opts blks seps"]
    by (intro that [of "pre @ stored_bytes env (to_compression opts) (index_block env opts blks seps)"])
      (simp_all add: d pre_def)
  from q(2) have "unat (of_nat (length q) :: u64) = length q" by (simp add: unat_of_nat_small)
  then show "file_of data (of_nat (length data - kEncodedLength)) kEncodedLength
      = Inr (footer_bytes (table_footer env opts blks seps fc))"
    by (simp add: file_of_def q(1))
qed

section \<open>An opened table\<close>

text \<open>
  The reader of a finished table: the same comparator, checksum and file, and the filter policy that
  belongs to the one of the builder.
\<close>

definition reader_of ::
    "bytes table_env \<Rightarrow> table_options \<Rightarrow> (bytes \<times> bytes) list list \<Rightarrow> bytes list \<Rightarrow> bytes option \<Rightarrow> ('h, 'c) read_env \<Rightarrow> bool" where
  "reader_of benv opts blks seps fc env \<longleftrightarrow>
     re_compare env = icmp \<and> re_extend env = te_extend benv \<and> re_read env = file_of (table_file benv opts blks seps fc)
     \<and> codec_ok benv (to_compression opts) (re_uncompress env)
     \<and> (case (to_filter opts, re_filter env) of
          (None, None) \<Rightarrow> True
        | (Some (_, name), Some (_, name')) \<Rightarrow> name = name'
        | _ \<Rightarrow> False)"

definition opened_table ::
    "bytes table_env \<Rightarrow> table_options \<Rightarrow> (bytes \<times> bytes) list list \<Rightarrow> bytes list \<Rightarrow> bytes option \<Rightarrow> u64 \<Rightarrow> Table" where
  "opened_table benv opts blks seps fc cache_id =
     \<lparr>t_cache_id = cache_id, t_filter = map_option NewFilterBlockReader fc,
      t_metaindex_handle = ft_metaindex_handle (table_footer benv opts blks seps fc),
      t_index_block = NewBlock (index_block benv opts blks seps)\<rparr>"

lemma ReadMeta_finished:
  assumes fin: "finished_table benv opts blks seps fc" and rd: "reader_of benv opts blks seps fc env"
  shows "ReadMeta env (table_footer benv opts blks seps fc) (opened_table benv opts blks seps None cache_id\<lparr>t_metaindex_handle := mh\<rparr>)
    = Some (opened_table benv opts blks seps fc cache_id\<lparr>t_metaindex_handle := mh\<rparr>)"
proof (cases "to_filter opts")
  case None
  then have "re_filter env = None" "fc = None"
    using rd fin by (auto simp: reader_of_def finished_table_def filter_contents_def split: option.splits)
  then show ?thesis by (simp add: ReadMeta_def)
next
  case (Some p)
  obtain create name where p: "p = (create, name)" by (cases p)
  obtain m where flt: "re_filter env = Some (m, name)" using rd Some p by (auto simp: reader_of_def split: option.splits)
  obtain c where c: "fc = Some c"
    using fin Some p by (auto simp: finished_table_def filter_contents_def)
  have env: "re_extend env = te_extend benv" "re_read env = file_of (table_file benv opts blks seps fc)"
    "codec_ok benv (to_compression opts) (re_uncompress env)" using rd by (simp_all add: reader_of_def)
  note reads = finished_reads [OF fin env(3)] and parts = finished_parts [OF fin]
  define h where "h = handle_bytes (filter_part_handle benv opts blks fc)"
  have entries: "meta_entries opts (filter_part_handle benv opts blks fc) = [(filter_key name, h)]"
    using Some p by (simp add: meta_entries_def h_def)
  have one: "build_block n cmp [(k, v)] = build_block n cmp' [(k, v)]" for n cmp cmp' k v
  proof -
    have "add_entries n cmp [] = Some" "add_entries n cmp' [] = Some" by (auto intro!: ext)
    then show ?thesis by (simp add: build_block_def BlockBuilderAdd_def NewBlockBuilder_def)
  qed
  have nl: "length name < 2 ^ 31" "1 \<le> to_restart_interval opts"
    using fin Some p by (simp_all add: finished_table_def table_setting_def policy_ok_def)
  have "\<exists>it. iter_seek BytewiseCompare (filter_key name) (NewIterator (NewBlock (meta_block benv opts blks fc))) = Some it
      \<and> iter_status it = OK
      \<and> (case find (\<lambda>(key, val). BytewiseCompare key (filter_key name) \<ge> 0) [(filter_key name, h)] of
          None \<Rightarrow> \<not> iter_valid it
        | Some (key, val) \<Rightarrow> iter_valid it \<and> iter_key it = Some key \<and> iter_value it = Some val)"
  proof (rule bytewise.iter_seek_block [OF nl(2)])
    show "build_block (to_restart_interval opts) BytewiseCompare [(filter_key name, h)] = Some (meta_block benv opts blks fc)"
      using parts(7) one [of _ icmp _ _ BytewiseCompare] by (simp add: entries)
  qed (use parts(4) nl in \<open>auto simp: increasing_def filter_key_def\<close>)
  then obtain it where it: "iter_seek BytewiseCompare (filter_key name) (NewIterator (NewBlock (meta_block benv opts blks fc))) = Some it"
    "iter_valid it" "iter_key it = Some (filter_key name)" "iter_value it = Some h"
    using bytewise.compare_refl [of "filter_key name"] by auto
  have "memcmp a a = 0" for a by (induction a) simp_all
  then have "slice_equal (filter_key name) (filter_key name)" by (simp add: slice_equal_def)
  then show ?thesis
    unfolding ReadMeta_def flt option.case prod.case Let_def filter_key_def [symmetric]
    using it reads(2) reads(3) Some p BlockHandleDecodeFrom_bytes [of "filter_part_handle benv opts blks fc" "[]"]
    by (simp add: read_block_def env ReadFilter_def h_def opened_table_def c)
qed

lemma TableOpen_finished:
  assumes fin: "finished_table benv opts blks seps fc" and rd: "reader_of benv opts blks seps fc env"
  shows "TableOpen env (length (table_file benv opts blks seps fc)) c
    = Some (case (case re_cache env of Some ops \<Rightarrow> co_new_id ops c | None \<Rightarrow> (0, c)) of
        (cache_id, c) \<Rightarrow> (Inr (opened_table benv opts blks seps fc cache_id), c))"
proof -
  have env: "re_extend env = te_extend benv" "re_read env = file_of (table_file benv opts blks seps fc)"
    "codec_ok benv (to_compression opts) (re_uncompress env)" using rd by (simp_all add: reader_of_def)
  note reads = finished_reads [OF fin env(3)]
  have "FooterDecodeFrom (footer_bytes (table_footer benv opts blks seps fc)) = Some (Inr (table_footer benv opts blks seps fc, []))"
    using FooterDecodeFrom_bytes [of _ "[]"] by simp
  moreover have "ReadMeta env (table_footer benv opts blks seps fc)
      \<lparr>t_cache_id = id, t_filter = None, t_metaindex_handle = ft_metaindex_handle (table_footer benv opts blks seps fc),
       t_index_block = NewBlock (index_block benv opts blks seps)\<rparr> = Some (opened_table benv opts blks seps fc id)" for id
    using ReadMeta_finished [OF fin rd, where cache_id = id and mh = "ft_metaindex_handle (table_footer benv opts blks seps fc)"]
    by (simp add: opened_table_def)
  ultimately show ?thesis
    using reads(1,5,6) by (simp add: TableOpen_def env read_block_def split: prod.split)
qed


section \<open>The filter of a table\<close>

text \<open>
  A policy is usable for a list of entries when it accepts every list of at most as many of their
  user keys, and its filters are small enough for a table.
\<close>

definition policy_accepts :: "(bytes list \<Rightarrow> bool) \<Rightarrow> nat \<Rightarrow> nat \<Rightarrow> bytes \<Rightarrow> (bytes \<times> bytes) list \<Rightarrow> bool" where
  "policy_accepts accepts per_key fixed_size name xs \<longleftrightarrow>
     (\<forall>keys. length keys \<le> length xs \<and> set keys \<subseteq> set (map (ExtractUserKey \<circ> fst) xs) \<longrightarrow> accepts keys)
     \<and> per_key * length xs < 2 ^ 30 \<and> fixed_size \<le> 64 \<and> length name < 2 ^ 31"

lemma group_keys_accepted:
  assumes "concat (map snd bs) = map fst (take n xs)" "\<And>k v. (k, v) \<in> set xs \<Longrightarrow> internal_key_ok k"
    and "policy_accepts accepts per_key fixed_size name xs"
  shows "internal_accepts accepts (take m (group_keys i bs))"
proof -
  define ks where "ks = take m (group_keys i bs)"
  have sub: "set ks \<subseteq> set (concat (map snd bs))"
    using set_take_subset [of m "group_keys i bs"] by (auto simp: ks_def group_keys_def)
  also have "\<dots> \<subseteq> set (map fst xs)" unfolding assms(1) by (auto dest: in_set_takeD)
  finally have sub: "set ks \<subseteq> set (map fst xs)" .
  have "length (group_keys i bs) \<le> (\<Sum>j < Suc i. length (group_keys j bs))" by simp
  also have "\<dots> \<le> length (concat (map snd bs))" by (rule group_keys_total)
  also have "\<dots> \<le> length xs" by (simp add: assms(1))
  finally have "length ks \<le> length xs" by (simp add: ks_def)
  moreover have "set (map ExtractUserKey ks) \<subseteq> set (map (ExtractUserKey \<circ> fst) xs)" using sub by auto
  ultimately have "accepts (map ExtractUserKey ks)"
    using assms(3) unfolding policy_accepts_def by (metis length_map)
  moreover have "\<forall>key \<in> set ks. internal_key_ok key" using sub assms(2) by auto
  ultimately show ?thesis by (simp add: internal_accepts_def ks_def)
qed

lemma filter_index_small: "unat off < 2 ^ 31 \<Longrightarrow> filter_index off \<le> 2 ^ 20"
proof -
  assume "unat off < 2 ^ 31"
  then have "unat off div 2048 \<le> 2 ^ 31 div 2048" by (intro div_le_mono) simp
  then show ?thesis by (simp add: filter_index_def unat_div kFilterBase_def kFilterBaseLg_def)
qed

lemma policy_ok_sized:
  assumes pol: "sized_filter_policy create match accepts (\<lambda>_. True) per_key fixed_size"
    and acc: "policy_accepts accepts per_key fixed_size name xs" and ok: "\<And>k v. (k, v) \<in> set xs \<Longrightarrow> internal_key_ok k"
    and opts: "to_filter opts = Some (InternalCreateFilter create, name)"
  shows "policy_ok opts xs"
proof -
  have "\<exists>contents. build_filter_block (InternalCreateFilter create) bs = Some contents \<and> length contents < 2 ^ 31"
    if bs: "sorted (map (filter_index \<circ> fst) bs)" "\<forall>(off, keys) \<in> set bs. unat off < 2 ^ 31"
      "concat (map snd bs) = map fst (take n xs)" for bs n
  proof -
    note int_pol = internal_sized_policy [OF pol]
    have acc': "\<forall>i m. internal_accepts accepts (take m (group_keys i bs))"
      by (intro allI group_keys_accepted [OF bs(3) _ acc]) (rule ok)
    obtain contents where c: "build_filter_block (InternalCreateFilter create) bs = Some contents"
      by (rule filter_policy.filter_block_correct [OF sized_filter_policy.axioms(1) [OF int_pol] acc' bs(1)]) (rule that)
    have "\<forall>block \<in> set bs. filter_index (fst block) \<le> 2 ^ 20"
      using bs(2) filter_index_small by fastforce
    from sized_filter_policy.filter_block_bounded(1) [OF int_pol acc' bs(1) this c]
    have "length contents \<le> per_key * length (concat (map snd bs)) + (fixed_size + 4) * Suc (2 ^ 20) + 5" .
    moreover have "per_key * length (concat (map snd bs)) \<le> per_key * length xs" by (simp add: bs(3))
    moreover have "(fixed_size + 4) * Suc (2 ^ 20) \<le> 68 * Suc (2 ^ 20)"
      using acc by (intro mult_le_mono1) (simp add: policy_accepts_def)
    moreover have "per_key * length xs < 2 ^ 30" using acc by (simp add: policy_accepts_def)
    ultimately have "length contents < 2 ^ 30 + 68 * Suc (2 ^ 20) + 5" by linarith
    then have "length contents < 2 ^ 31" by simp
    with c show ?thesis by blast
  qed
  moreover have "length name < 2 ^ 31" using acc by (simp add: policy_accepts_def)
  ultimately show ?thesis unfolding policy_ok_def opts option.case prod.case by blast
qed

text \<open>The filter of a block answers every query, and answers true for the user keys of the block.\<close>

lemma table_filter_correct:
  assumes pol: "sized_filter_policy create match accepts (\<lambda>_. True) per_key fixed_size"
    and acc: "policy_accepts accepts per_key fixed_size name (concat blks)"
    and fin: "finished_table env opts blks seps fc" and opts: "to_filter opts = Some (InternalCreateFilter create, name)"
    and i: "i < length blks" and k: "internal_key_ok k"
  shows "FilterBlockKeyMayMatch (InternalKeyMayMatch match) (NewFilterBlockReader (the fc)) (bh_offset (block_handle env opts blks i)) k \<noteq> None"
    "(key, v) \<in> set (blks ! i) \<Longrightarrow> ExtractUserKey key = ExtractUserKey k \<Longrightarrow>
      FilterBlockKeyMayMatch (InternalKeyMayMatch match) (NewFilterBlockReader (the fc)) (bh_offset (block_handle env opts blks i)) k = Some True"
proof -
  note int_pol = internal_sized_policy [OF pol] and keys = finished_table_keys [OF fin]
  define bs where "bs = filter_blocks env opts blks []"
  have small: "length (data_bytes env opts blks) < 2 ^ 31" by (rule finished_parts(1) [OF fin])
  obtain c where c: "fc = Some c" "build_filter_block (InternalCreateFilter create) bs = Some c" "length c < 2 ^ 31"
    using fin opts by (auto simp: finished_table_def filter_contents_def bs_def)
  have bk: "concat (map snd bs) = map fst (take (length (concat blks)) (concat blks))"
    by (simp only: bs_def filter_blocks_keys append_Nil2 take_all order_refl)
  have acc': "\<forall>i m. internal_accepts accepts (take m (group_keys i bs))"
    by (intro allI group_keys_accepted [OF bk _ acc]) (rule keys(2))
  have srt: "sorted (map (filter_index \<circ> fst) bs)" "\<forall>(off, keys) \<in> set bs. unat off < 2 ^ 31"
    using filter_blocks_sorted [OF small, of "[]"] by (simp_all add: bs_def)
  have m: "\<forall>block \<in> set bs. filter_index (fst block) \<le> 2 ^ 20"
    using srt(2) filter_index_small by fastforce
  show "FilterBlockKeyMayMatch (InternalKeyMayMatch match) (NewFilterBlockReader (the fc)) (bh_offset (block_handle env opts blks i)) k \<noteq> None"
    using sized_filter_policy.filter_block_bounded(2) [OF int_pol acc' srt(1) m c(2) _ k] c by simp
  assume mem: "(key, v) \<in> set (blks ! i)" and user: "ExtractUserKey key = ExtractUserKey k"
  have okk: "internal_key_ok key" using keys(2) [of key v] mem i nth_mem by fastforce
  have "(bh_offset (block_handle env opts blks i), map fst (blks ! i)) \<in> set bs"
    using i by (auto simp: bs_def filter_blocks_def block_handle_def)
  moreover have "key \<in> set (map fst (blks ! i))" using mem by force
  moreover have "length c < 2 ^ 32" using c(3) by simp
  ultimately have "FilterBlockKeyMayMatch (InternalKeyMayMatch match) (NewFilterBlockReader c) (bh_offset (block_handle env opts blks i)) key = Some True"
    by (intro filter_policy.filter_block_match [OF sized_filter_policy.axioms(1) [OF int_pol] acc' srt(1) c(2)])
  moreover have "FilterBlockKeyMayMatch (InternalKeyMayMatch match) r off key = FilterBlockKeyMayMatch (InternalKeyMayMatch match) r off k" for r off
    using InternalKeyMayMatch_cong [OF okk k user] by (simp add: FilterBlockKeyMayMatch_def Let_def)
  ultimately show "FilterBlockKeyMayMatch (InternalKeyMayMatch match) (NewFilterBlockReader (the fc)) (bh_offset (block_handle env opts blks i)) k = Some True"
    by (simp add: c(1))
qed


section \<open>The reader of a block and its cache\<close>

text \<open>Whatever the cache holds under the keys of this table is the block at that offset.\<close>

definition cache_coherent ::
    "('c \<Rightarrow> bytes \<Rightarrow> Block \<Rightarrow> bool) \<Rightarrow> bytes table_env \<Rightarrow> table_options \<Rightarrow> (bytes \<times> bytes) list list \<Rightarrow> u64 \<Rightarrow> 'c \<Rightarrow> bool" where
  "cache_coherent cached benv opts blks tid c \<longleftrightarrow>
     (\<forall>i b. i < length blks \<longrightarrow> cached c (EncodeFixed64 tid @ EncodeFixed64 (bh_offset (block_handle benv opts blks i))) b
        \<longrightarrow> b = NewBlock (raw_block opts (blks ! i)))"

lemma block_offsets_inj:
  assumes fin: "finished_table benv opts blks seps fc" and i: "i < length blks" and j: "j < length blks"
    and eq: "bh_offset (block_handle benv opts blks i) = bh_offset (block_handle benv opts blks j)"
  shows "i = j"
proof -
  have less: "length (data_bytes benv opts (take a blks)) < length (data_bytes benv opts (take b blks))"
    if ab: "a < b" "b < length blks" for a b
  proof -
    have "take (Suc a) blks = take a blks @ [blks ! a]" using ab by (simp add: take_Suc_conv_app_nth)
    then have "length (data_bytes benv opts (take a blks)) < length (data_bytes benv opts (take (Suc a) blks))"
      by (simp add: data_bytes_snoc length_stored_bytes)
    also have "\<dots> \<le> length (data_bytes benv opts (take b blks))" using ab(1) by (intro data_bytes_take_mono) simp
    finally show ?thesis .
  qed
  note small = block_handle_small(1) [OF _ finished_parts(1) [OF fin]]
  have "length (data_bytes benv opts (take i blks)) = length (data_bytes benv opts (take j blks))"
    using small [OF i] small [OF j] eq by simp
  then show ?thesis using less [of i j] less [of j i] i j by (cases i j rule: linorder_cases) auto
qed

lemma EncodeFixed64_eq: "EncodeFixed64 a = EncodeFixed64 b \<longleftrightarrow> a = b"
  by (metis DecodeFixed64_Encode append_Nil2)

lemma coherent_insert:
  assumes fin: "finished_table benv opts blks seps fc" and i: "i < length blks"
    and co: "cache_coherent cached benv opts blks tid c"
    and new: "\<forall>k v. cached c' k v \<longrightarrow> cached c k v
      \<or> k = EncodeFixed64 tid @ EncodeFixed64 (bh_offset (block_handle benv opts blks i)) \<and> v = NewBlock (raw_block opts (blks ! i))"
  shows "cache_coherent cached benv opts blks tid c'"
  unfolding cache_coherent_def
proof (intro allI impI)
  fix j b
  assume j: "j < length blks" and b: "cached c' (EncodeFixed64 tid @ EncodeFixed64 (bh_offset (block_handle benv opts blks j))) b"
  have "cached c (EncodeFixed64 tid @ EncodeFixed64 (bh_offset (block_handle benv opts blks j))) b
    \<or> bh_offset (block_handle benv opts blks j) = bh_offset (block_handle benv opts blks i) \<and> b = NewBlock (raw_block opts (blks ! i))"
    using new b EncodeFixed64_eq same_append_eq by blast
  then consider "cached c (EncodeFixed64 tid @ EncodeFixed64 (bh_offset (block_handle benv opts blks j))) b"
    | "bh_offset (block_handle benv opts blks j) = bh_offset (block_handle benv opts blks i)" "b = NewBlock (raw_block opts (blks ! i))"
    by blast
  then show "b = NewBlock (raw_block opts (blks ! j))"
  proof cases
    case 1
    then show ?thesis using co j by (simp add: cache_coherent_def)
  next
    case 2
    then show ?thesis using block_offsets_inj [OF fin j i] by simp
  qed
qed

definition cache_ready ::
    "('h, 'c) read_env \<Rightarrow> ('c \<Rightarrow> bool) \<Rightarrow> ('c \<Rightarrow> bool) \<Rightarrow> ('c \<Rightarrow> 'h \<Rightarrow> nat) \<Rightarrow> ('c \<Rightarrow> bytes \<Rightarrow> Block \<Rightarrow> bool)
      \<Rightarrow> bytes table_env \<Rightarrow> table_options \<Rightarrow> (bytes \<times> bytes) list list \<Rightarrow> u64 \<Rightarrow> 'c \<Rightarrow> bool" where
  "cache_ready env cinv room held cached benv opts blks tid c \<longleftrightarrow>
     (\<forall>ops. re_cache env = Some ops \<longrightarrow> cache ops cinv room held cached \<and> cinv c \<and> room c
        \<and> cache_coherent cached benv opts blks tid c)"

text \<open>What a read leaves behind: no handle is kept, and the cache is still coherent.\<close>

definition cache_kept ::
    "('h, 'c) read_env \<Rightarrow> ('c \<Rightarrow> bool) \<Rightarrow> ('c \<Rightarrow> 'h \<Rightarrow> nat) \<Rightarrow> ('c \<Rightarrow> bytes \<Rightarrow> Block \<Rightarrow> bool)
      \<Rightarrow> bytes table_env \<Rightarrow> table_options \<Rightarrow> (bytes \<times> bytes) list list \<Rightarrow> u64 \<Rightarrow> 'c \<Rightarrow> 'c \<Rightarrow> bool" where
  "cache_kept env cinv held cached benv opts blks tid c c' \<longleftrightarrow>
     (if re_cache env = None then c' = c
      else cinv c' \<and> held c' = held c \<and> cache_coherent cached benv opts blks tid c')"

lemma BlockReader_finished:
  assumes fin: "finished_table benv opts blks seps fc" and rd: "reader_of benv opts blks seps fc env"
    and i: "i < length blks" and t: "t_cache_id t = tid"
    and ready: "cache_ready env cinv room held cached benv opts blks tid c"
  shows "\<exists>h c' c''. BlockReader env t options (handle_bytes (block_handle benv opts blks i)) c
      = Some (Inr (NewIterator (NewBlock (raw_block opts (blks ! i)))), h, c')
    \<and> delete_iterator env h c' = Some c'' \<and> cache_kept env cinv held cached benv opts blks tid c c''"
proof -
  have env: "re_extend env = te_extend benv" "re_read env = file_of (table_file benv opts blks seps fc)"
    "codec_ok benv (to_compression opts) (re_uncompress env)" using rd by (simp_all add: reader_of_def)
  have read: "read_block env v (block_handle benv opts blks i) = Inr (raw_block opts (blks ! i))" for v
    using finished_reads(4) [OF fin env(3) i] by (simp add: read_block_def env)
  have dec: "BlockHandleDecodeFrom (handle_bytes (block_handle benv opts blks i)) = Inr (block_handle benv opts blks i, [])"
    using BlockHandleDecodeFrom_bytes [of _ "[]"] by simp
  show ?thesis
  proof (cases "re_cache env")
    case None
    then show ?thesis using read by (simp add: BlockReader_def dec delete_iterator_def cache_kept_def)
  next
    case (Some ops)
    define key where "key = EncodeFixed64 tid @ EncodeFixed64 (bh_offset (block_handle benv opts blks i))"
    define block where "block = NewBlock (raw_block opts (blks ! i))"
    have c: "cache ops cinv room held cached" "cinv c" "room c" "cache_coherent cached benv opts blks tid c"
      using ready Some by (simp_all add: cache_ready_def)
    obtain r c1 where look: "co_lookup ops key c = Some (r, c1)" using cache.lookup [OF c(1-3), of key] by blast
    show ?thesis
    proof (cases r)
      case (Some h)
      with cache.lookup_release [OF c(1-3)] look obtain v c2 where
        v: "co_value ops h c1 = Some v" "cached c key v" "co_release ops h c1 = Some c2" "cinv c2" "held c2 = held c" "cached c2 = cached c"
        by metis
      moreover have "v = block" using v(2) c(4) i by (simp add: cache_coherent_def key_def block_def)
      moreover have "cache_coherent cached benv opts blks tid c2" using c(4) v(6) by (simp add: cache_coherent_def)
      ultimately show ?thesis using \<open>re_cache env = Some ops\<close> look Some
        by (simp add: BlockReader_def dec t Let_def delete_iterator_def cache_kept_def flip: key_def block_def)
    next
      case None
      then have c1: "c1 = c" using cache.lookup [OF c(1-3), of key] look by auto
      show ?thesis
      proof (cases "block_cachable env (block_handle benv opts blks i) \<and> ro_fill_cache options")
        case True
        obtain h c2 c3 where ins: "co_insert ops key block (blk_size block) c = Some (h, c2)" "co_release ops h c2 = Some c3"
          "cinv c3" "held c3 = held c" "\<forall>k' v'. cached c3 k' v' \<longrightarrow> cached c k' v' \<or> k' = key \<and> v' = block"
          using cache.insert_release [OF c(1-3), of key block "blk_size block"] by blast
        moreover have "cache_coherent cached benv opts blks tid c3"
          using coherent_insert [OF fin i c(4)] ins(5) by (simp add: key_def block_def)
        ultimately show ?thesis using \<open>re_cache env = Some ops\<close> look None True read c1
          by (simp add: BlockReader_def dec t Let_def delete_iterator_def cache_kept_def flip: key_def block_def)
      next
        case False
        then show ?thesis using \<open>re_cache env = Some ops\<close> look None read c1 c
          by (simp add: if_not_P [OF False] BlockReader_def dec t Let_def delete_iterator_def cache_kept_def flip: key_def block_def)
      qed
    qed
  qed
qed


section \<open>Lookups\<close>

text \<open>The filter of the reader, if any, never rejects a user key of a block, and is always defined.\<close>

definition table_filter_ok ::
    "bytes table_env \<Rightarrow> table_options \<Rightarrow> (bytes \<times> bytes) list list \<Rightarrow> bytes option \<Rightarrow> ('h, 'c) read_env \<Rightarrow> bool" where
  "table_filter_ok benv opts blks fc env \<longleftrightarrow>
     (\<forall>c KeyMayMatch name i k. fc = Some c \<longrightarrow> re_filter env = Some (KeyMayMatch, name) \<longrightarrow> i < length blks \<longrightarrow> internal_key_ok k \<longrightarrow>
        (let r = FilterBlockKeyMayMatch KeyMayMatch (NewFilterBlockReader c) (bh_offset (block_handle benv opts blks i)) k
         in r \<noteq> None \<and> ((\<exists>(key, v) \<in> set (blks ! i). ExtractUserKey key = ExtractUserKey k) \<longrightarrow> r = Some True)))"

lemma index_seek:
  assumes fin: "finished_table benv opts blks seps fc" and k: "internal_key_ok k"
  shows "\<exists>it. iter_seek icmp k (NewIterator (NewBlock (index_block benv opts blks seps))) = Some it \<and> iter_status it = OK
    \<and> (if iter_valid it
       then \<exists>i < length blks. iter_value it = Some (handle_bytes (block_handle benv opts blks i))
         \<and> icmp (seps ! i) k \<ge> 0 \<and> (\<forall>j < i. icmp (seps ! j) k < 0)
       else \<forall>i < length blks. icmp (seps ! i) k < 0)"
proof -
  note keys = finished_table_keys [OF fin] and parts = finished_parts [OF fin]
  have len: "length seps = length blks" using keys(4) by (simp add: index_ok_def)
  have small: "\<forall>(key, val) \<in> set (index_entries benv opts blks seps). internal_key_ok key \<and> length key < 2 ^ 32"
  proof -
    have "internal_key_ok (seps ! i) \<and> length (seps ! i) < 2 ^ 32" if i: "i < length seps" for i
    proof -
      have b: "blks ! i \<in> set blks" "blks ! i \<noteq> []" using i len keys(3) nth_mem by (simp, metis)
      then have "last (blks ! i) \<in> set (concat blks)" using last_in_set by auto
      then have "64 + length (fst (last (blks ! i))) < 2 ^ 31"
        using table_size_member [of "fst (last (blks ! i))" "snd (last (blks ! i))" "concat blks"] keys(5) by simp
      moreover have "internal_key_ok (seps ! i)" "length (seps ! i) \<le> length (fst (last (blks ! i)))"
        using keys(4) i len by (simp_all add: index_ok_def)
      ultimately show ?thesis by simp
    qed
    then show ?thesis by (auto simp: index_entries_def)
  qed
  have inc: "increasing icmp (map fst (index_entries benv opts blks seps))" using keys(4) by (simp add: index_ok_def)
  have "length (index_block benv opts blks seps) < 2 ^ 32" using parts(5) by simp
  from internal.iter_seek_block [OF order_refl inc k small parts(6) this] obtain it where
    it: "iter_seek icmp k (NewIterator (NewBlock (index_block benv opts blks seps))) = Some it" "iter_status it = OK"
      "case find (at_least k) (index_entries benv opts blks seps) of
          None \<Rightarrow> \<not> iter_valid it
        | Some (key, val) \<Rightarrow> iter_valid it \<and> iter_key it = Some key \<and> iter_value it = Some val" by blast
  show ?thesis
  proof (cases "find (at_least k) (index_entries benv opts blks seps)")
    case None
    then have "\<not> at_least k (seps ! i, handle_bytes (block_handle benv opts blks i))" if "i < length blks" for i
      using that len by (intro find_NoneD [OF None]) (auto simp: index_entries_def)
    then show ?thesis using it None by (auto simp: not_le)
  next
    case (Some e)
    then obtain i where i: "i < length seps" "e = (seps ! i, handle_bytes (block_handle benv opts blks i))"
      "at_least k (seps ! i, handle_bytes (block_handle benv opts blks i))"
      "\<forall>j < i. \<not> at_least k (seps ! j, handle_bytes (block_handle benv opts blks j))"
      unfolding index_entries_def by (rule find_nth_map)
    then show ?thesis using it Some len by (auto simp: not_le intro!: exI [of _ i])
  qed
qed

lemma block_seek:
  assumes fin: "finished_table benv opts blks seps fc" and k: "internal_key_ok k" and i: "i < length blks"
  shows "\<exists>it. iter_seek icmp k (NewIterator (NewBlock (raw_block opts (blks ! i)))) = Some it \<and> iter_status it = OK
    \<and> (if iter_valid it then Some (the (iter_key it), the (iter_value it)) else None) = find (at_least k) (blks ! i)"
proof -
  note keys = finished_table_keys [OF fin]
  have set: "table_setting benv opts (concat blks)" using fin by (simp add: finished_table_def)
  have inc: "increasing icmp (map fst (blks ! i))" by (rule block_increasing [OF keys(1) i])
  have sub: "set (blks ! i) \<subseteq> set (concat blks)" using i nth_mem by auto
  have small: "\<forall>(key, val) \<in> set (blks ! i). internal_key_ok key \<and> length key < 2 ^ 32"
  proof (intro ballI, clarify)
    fix key val assume "(key, val) \<in> set (blks ! i)"
    then have "(key, val) \<in> set (concat blks)" using sub by blast
    then show "internal_key_ok key \<and> length key < 2 ^ 32"
      using keys(2) [of key val] table_size_member [of key val "concat blks"] keys(5) by simp
  qed
  have b: "build_block (to_restart_interval opts) icmp (blks ! i) = Some (raw_block opts (blks ! i))"
    using raw_block_defined [of opts "blks ! i"] inc table_setting_simps(3,6) [OF set] by simp
  have "table_size (blks ! i) \<le> table_size (concat blks)"
    using arg_cong [OF concat_split [OF i], of table_size] by simp
  then have "length (raw_block opts (blks ! i)) < 2 ^ 32"
    using length_build_block [OF b] entries_size_le [of "blks ! i"] keys(5) by simp
  from internal.iter_seek_block [OF table_setting_simps(6) [OF set] inc k small b this] obtain it where
    it: "iter_seek icmp k (NewIterator (NewBlock (raw_block opts (blks ! i)))) = Some it" "iter_status it = OK"
      "case find (at_least k) (blks ! i) of
          None \<Rightarrow> \<not> iter_valid it
        | Some (key, val) \<Rightarrow> iter_valid it \<and> iter_key it = Some key \<and> iter_value it = Some val" by blast
  then show ?thesis by (cases "find (at_least k) (blks ! i)") auto
qed


lemma InternalGet_finished:
  assumes fin: "finished_table benv opts blks seps fc" and rd: "reader_of benv opts blks seps fc env"
    and flt: "table_filter_ok benv opts blks fc env" and k: "internal_key_ok k"
    and ready: "cache_ready env cinv room held cached benv opts blks tid c"
  shows "\<exists>r c'. InternalGet env (opened_table benv opts blks seps fc tid) options k c = Some (OK, r, c')
    \<and> (r = find (at_least k) (concat blks) \<or> r = None \<and> same_user k (find (at_least k) (concat blks)) = None)
    \<and> cache_kept env cinv held cached benv opts blks tid c c'"
proof -
  note keys = finished_table_keys [OF fin]
  define t where "t = opened_table benv opts blks seps fc tid"
  have t: "t_filter t = map_option NewFilterBlockReader fc" "t_cache_id t = tid"
    "t_index_block t = NewBlock (index_block benv opts blks seps)" by (simp_all add: t_def opened_table_def)
  have env: "re_compare env = icmp" using rd by (simp add: reader_of_def)
  have kept: "cache_kept env cinv held cached benv opts blks tid c c"
    using ready by (auto simp: cache_ready_def cache_kept_def)
  obtain it where it: "iter_seek icmp k (NewIterator (t_index_block t)) = Some it" "iter_status it = OK"
    "if iter_valid it
       then \<exists>i < length blks. iter_value it = Some (handle_bytes (block_handle benv opts blks i))
         \<and> icmp (seps ! i) k \<ge> 0 \<and> (\<forall>j < i. icmp (seps ! j) k < 0)
       else \<forall>i < length blks. icmp (seps ! i) k < 0"
    using index_seek [OF fin k] unfolding t(3) by blast
  show ?thesis
  proof (cases "iter_valid it")
    case False
    have "icmp key k < 0" if "(key, v) \<in> set (concat blks)" for key v
    proof -
      from that obtain b where "b \<in> set blks" "(key, v) \<in> set b" by auto
      then obtain i where "i < length blks" "(key, v) \<in> set (blks ! i)" by (metis in_set_conv_nth)
      then show ?thesis using it(3) False
        by (intro index_search_none [OF keys(1) _ keys(3,4) k, where i = i and key = key and v = v] keys(2)) auto
    qed
    then have "find (at_least k) (concat blks) = None" by (fastforce simp: find_None_iff)
    then show ?thesis using False it kept by (simp add: InternalGet_def env flip: t_def)
  next
    case True
    then obtain i where i: "i < length blks" "iter_value it = Some (handle_bytes (block_handle benv opts blks i))"
      "icmp (seps ! i) k \<ge> 0" "\<And>j. j < i \<Longrightarrow> icmp (seps ! j) k < 0" using it(3) by auto
    have search: "find (at_least k) (blks ! i) = find (at_least k) (concat blks)
        \<or> find (at_least k) (blks ! i) = None \<and> same_user k (find (at_least k) (concat blks)) = None"
      by (intro index_search [OF keys(1) _ keys(3,4) k i(1,3)] i(4) keys(2))
    have dec: "BlockHandleDecodeFrom (handle_bytes (block_handle benv opts blks i)) = Inr (block_handle benv opts blks i, [])"
      using BlockHandleDecodeFrom_bytes [of _ "[]"] by simp
    define may where "may = block_may_match env t (handle_bytes (block_handle benv opts blks i)) k"
    have may: "may \<noteq> None" "\<exists>(key, v) \<in> set (blks ! i). ExtractUserKey key = ExtractUserKey k \<Longrightarrow> may = Some True"
      using flt i(1) k by (auto simp: may_def block_may_match_def t(1) dec table_filter_ok_def Let_def split: option.splits)
    from may(1) obtain m where m: "may = Some m" by blast
    show ?thesis
    proof (cases m)
      case False
      then have "\<not> (\<exists>(key, v) \<in> set (blks ! i). ExtractUserKey key = ExtractUserKey k)" using may(2) m by auto
      then have "same_user k (find (at_least k) (blks ! i)) = None"
        using find_SomeD [of "at_least k" "blks ! i"] by (cases "find (at_least k) (blks ! i)") (auto simp: same_user_def)
      then have "same_user k (find (at_least k) (concat blks)) = None" using search by auto
      then show ?thesis using True False it i(2) m kept
        by (simp add: InternalGet_def env flip: t_def may_def)
    next
      case m': True
      obtain h c' c'' where br: "BlockReader env t options (handle_bytes (block_handle benv opts blks i)) c
          = Some (Inr (NewIterator (NewBlock (raw_block opts (blks ! i)))), h, c')"
        "delete_iterator env h c' = Some c''" "cache_kept env cinv held cached benv opts blks tid c c''"
        using BlockReader_finished [OF fin rd i(1) t(2) ready, of options] by blast
      obtain bi where bi: "iter_seek icmp k (NewIterator (NewBlock (raw_block opts (blks ! i)))) = Some bi" "iter_status bi = OK"
        "(if iter_valid bi then Some (the (iter_key bi), the (iter_value bi)) else None) = find (at_least k) (blks ! i)"
        using block_seek [OF fin k i(1)] by blast
      have "InternalGet env t options k c = Some (OK, find (at_least k) (blks ! i), c'')"
        using True m m' it i(2) br bi by (simp add: InternalGet_def env flip: may_def)
      then show ?thesis using search br(3) by (auto simp: t_def)
    qed
  qed
qed


section \<open>A table from its entries\<close>

text \<open>A policy of user keys, as its \<open>CreateFilter\<close>, its \<open>KeyMayMatch\<close> and its name.\<close>

type_synonym user_policy = "(bytes list \<Rightarrow> bytes \<Rightarrow> bytes option) \<times> (bytes \<Rightarrow> bytes \<Rightarrow> bool option) \<times> bytes"

definition policy_contract :: "user_policy option \<Rightarrow> (bytes \<times> bytes) list \<Rightarrow> bool" where
  "policy_contract p xs \<longleftrightarrow>
     (case p of
        None \<Rightarrow> True
      | Some (create, match, name) \<Rightarrow> \<exists>accepts per_key fixed_size.
          sized_filter_policy create match accepts (\<lambda>_. True) per_key fixed_size
          \<and> policy_accepts accepts per_key fixed_size name xs)"

definition builder_options :: "nat \<Rightarrow> nat \<Rightarrow> u8 \<Rightarrow> user_policy option \<Rightarrow> table_options" where
  "builder_options block_size interval compression p =
     internal_options block_size interval compression (map_option (\<lambda>(create, _, name). (InternalCreateFilter create, name)) p)"

definition mem_reader ::
    "(u32 \<Rightarrow> bytes \<Rightarrow> u32) \<Rightarrow> (bytes \<Rightarrow> bytes option) \<Rightarrow> user_policy option \<Rightarrow> bool \<Rightarrow> bool
      \<Rightarrow> (bytes, Block, 'h, 'c) cache_ops option \<Rightarrow> bytes \<Rightarrow> ('h, 'c) read_env" where
  "mem_reader extend_crc uncompress p paranoid direct block_cache data =
     \<lparr>re_compare = icmp, re_filter = map_option (\<lambda>(_, match, name). (InternalKeyMayMatch match, name)) p,
      re_paranoid_checks = paranoid, re_extend = extend_crc, re_uncompress = uncompress, re_read = file_of data,
      re_direct = direct, re_cache = block_cache\<rparr>"

lemma table_filter_ok_contract:
  assumes fin: "finished_table benv opts blks seps fc" and p: "policy_contract p (concat blks)"
    and opts: "to_filter opts = map_option (\<lambda>(create, _, name). (InternalCreateFilter create, name)) p"
    and env: "re_filter env = map_option (\<lambda>(_, match, name). (InternalKeyMayMatch match, name)) p"
  shows "table_filter_ok benv opts blks fc env"
proof (cases p)
  case None
  then show ?thesis by (simp add: table_filter_ok_def env)
next
  case (Some q)
  obtain create match name where q: "q = (create, match, name)" by (cases q)
  obtain accepts per_key fixed_size where pol: "sized_filter_policy create match accepts (\<lambda>_. True) per_key fixed_size"
    "policy_accepts accepts per_key fixed_size name (concat blks)"
    using p Some q by (auto simp: policy_contract_def)
  have "to_filter opts = Some (InternalCreateFilter create, name)" using opts Some q by simp
  from table_filter_correct [OF pol fin this] show ?thesis
    by (fastforce simp: table_filter_ok_def env Some q Let_def)
qed

lemma table_built:
  assumes xs: "table_entries_ok xs" "1 \<le> interval" and p: "policy_contract p xs"
    and codec: "codec_ok (mem_env extend_crc compress) compression uncompress"
    and opts_def: "opts = builder_options block_size interval compression p"
  shows "\<exists>r blks seps fc. build_table (mem_env extend_crc compress) opts [] xs = Some (OK, r) \<and> concat blks = xs
    \<and> tb_file r = table_file (mem_env extend_crc compress) opts blks seps fc
    \<and> finished_table (mem_env extend_crc compress) opts blks seps fc
    \<and> (\<forall>paranoid direct block_cache.
        reader_of (mem_env extend_crc compress) opts blks seps fc (mem_reader extend_crc uncompress p paranoid direct block_cache (tb_file r))
        \<and> table_filter_ok (mem_env extend_crc compress) opts blks fc (mem_reader extend_crc uncompress p paranoid direct block_cache (tb_file r)))"
proof -
  have flt: "to_filter opts = map_option (\<lambda>(create, _, name). (InternalCreateFilter create, name)) p"
    by (simp add: opts_def builder_options_def internal_options_def)
  have "policy_ok opts xs"
  proof (cases p)
    case None
    then show ?thesis by (simp add: policy_ok_def flt)
  next
    case (Some q)
    obtain create match name where q: "q = (create, match, name)" by (cases q)
    obtain accepts per_key fixed_size where pol: "sized_filter_policy create match accepts (\<lambda>_. True) per_key fixed_size"
      "policy_accepts accepts per_key fixed_size name xs"
      using p Some q by (auto simp: policy_contract_def)
    have "internal_key_ok k" if "(k, v) \<in> set xs" for k v using xs(1) that by (auto simp: table_entries_ok_def)
    then show ?thesis by (rule policy_ok_sized [OF pol]) (simp_all add: flt Some q)
  qed
  then have set: "table_setting (mem_env extend_crc compress) opts xs"
    using xs by (auto simp: table_setting_def opts_def builder_options_def internal_options_def)
  obtain r blks seps fc where r: "build_table (mem_env extend_crc compress) opts [] xs = Some (OK, r)"
    "tb_file r = table_file (mem_env extend_crc compress) opts blks seps fc" "concat blks = xs" "[] \<notin> set blks"
    "index_ok blks seps" "filter_contents (mem_env extend_crc compress) opts blks fc"
    using build_table_layout [OF set] by blast
  have fin: "finished_table (mem_env extend_crc compress) opts blks seps fc"
    using set r by (simp add: finished_table_def)
  have "to_compression opts = compression" by (simp add: opts_def builder_options_def internal_options_def)
  then have "reader_of (mem_env extend_crc compress) opts blks seps fc (mem_reader extend_crc uncompress p paranoid direct block_cache (tb_file r))"
    for paranoid direct and block_cache :: "(bytes, Block, 'h, 'c) cache_ops option"
    using codec by (auto simp: reader_of_def mem_reader_def flt r(2) mem_env_def split: option.split)
  moreover have "table_filter_ok (mem_env extend_crc compress) opts blks fc (mem_reader extend_crc uncompress p paranoid direct block_cache (tb_file r))"
    for paranoid direct and block_cache :: "(bytes, Block, 'h, 'c) cache_ops option"
    by (rule table_filter_ok_contract [OF fin _ flt]) (use p r(3) in \<open>simp_all add: mem_reader_def\<close>)
  ultimately show ?thesis using r(1-3) fin by blast
qed

end
