(* ===== verification/Table_Get.thy ===== *)
theory Table_Get
  imports Table Bloom
begin

text \<open>
  Tables end to end: entries written by the builder are found again by the reader, through the
  index, the filter and the block cache, for every filter policy that keeps its contract.
\<close>

lemma table_entries_few: "table_entries_ok xs \<Longrightarrow> length xs < 2 ^ 25"
proof -
  assume "table_entries_ok xs"
  moreover have "64 * length xs \<le> table_size xs" by (induction xs) auto
  ultimately show ?thesis by (simp add: table_entries_ok_def)
qed

lemma same_user_result:
  "r = e \<or> r = None \<and> same_user k e = None \<Longrightarrow> (r = None \<or> r = e) \<and> same_user k r = same_user k e"
  by (auto simp: same_user_def)

lemma bloom_contract:
  assumes "table_entries_ok xs" "0 \<le> b" "b \<le> 32" "length name < 2 ^ 31"
  shows "policy_contract (Some (BloomCreateFilter (NewBloomFilterPolicy b), BloomKeyMayMatch, name)) xs"
proof -
  have n: "length xs < 2 ^ 25" by (rule table_entries_few [OF assms(1)])
  have "nat b * length xs \<le> 32 * length xs" using assms(3) by (intro mult_le_mono1) simp
  also have "\<dots> < 2 ^ 30" using n by simp
  finally have "nat b * length xs < 2 ^ 30" .
  then have "policy_accepts (bloom_accepts b) (nat b) 9 name xs"
    using n assms by (auto simp: policy_accepts_def bloom_accepts_def)
  then show ?thesis using bloom_sized.sized_filter_policy_axioms by (auto simp: policy_contract_def)
qed

definition no_cache :: "(bytes, Block, unit, unit) cache_ops option" where
  "no_cache = None"

text \<open>A table of one entry with a Bloom filter, and a key before it.\<close>

lemma example_table:
  "table_entries_ok [([1] @ replicate 8 0, [7])]"
  "policy_contract (Some (BloomCreateFilter (NewBloomFilterPolicy 10), BloomKeyMayMatch, [98])) [([1] @ replicate 8 0, [7])]"
  "codec_ok (mem_env (Extend (\<lambda>_ _. 0) 0) (\<lambda>_. None)) kNoCompression (\<lambda>_. None)"
  "internal_key_ok ([1] @ replicate 8 255)" "(1 :: nat) \<le> 16"
  "find (at_least ([1] @ replicate 8 255)) [([1] @ replicate 8 0, [7])] = Some ([1] @ replicate 8 0, [7 :: u8])"
  "same_user ([1] @ replicate 8 255) (Some ([1] @ replicate 8 0, [7 :: u8])) = Some ([1] @ replicate 8 0, [7])"
proof -
  let ?e = "([1] @ replicate 8 0, [7]) :: bytes \<times> bytes" and ?k = "[1] @ replicate 8 255 :: bytes"
  have "icmp (fst ?e) ?k \<ge> 0"
    by (simp add: InternalKeyCompare_def ExtractUserKey_def BytewiseCompare_Cons DecodeFixed64_def Let_def)
  then show "find (at_least ?k) [?e] = Some ?e" by (simp add: case_prod_beta)
  show "same_user ?k (Some ?e) = Some ?e" by (simp add: same_user_def ExtractUserKey_def)
  show xs: "table_entries_ok [?e]" by (simp add: table_entries_ok_def increasing_def internal_key_ok_def)
  show "codec_ok (mem_env (Extend (\<lambda>_ _. 0) 0) (\<lambda>_. None)) kNoCompression (\<lambda>_. None)"
    using checksum_Extend [OF accelerator_ok_none] by (simp add: codec_ok_def mem_env_def)
  show "policy_contract (Some (BloomCreateFilter (NewBloomFilterPolicy 10), BloomKeyMayMatch, [98])) [?e]"
    by (rule bloom_contract [OF xs]) simp_all
qed (simp_all add: internal_key_ok_def)

section \<open>Properties\<close>

text \<open>
  C1: a table holds its entries. For internal keys in increasing order, with any block size, restart
  interval, compression and filter policy, the builder finishes with OK and the file it wrote can be
  opened. A lookup then reports no error and no entry but the first one at or after the key; and
  when that entry has the user key that is looked for, it is the one reported, with its value, whether
  the key lies at the end of a block, is shortened in the index, or passes the filter.
\<close>

theorem table_get_correct:
  assumes "table_entries_ok xs" "1 \<le> interval" "policy_contract p xs"
    and "codec_ok (mem_env extend_crc compress) compression uncompress"
  shows "\<exists>r t. build_table (mem_env extend_crc compress) (builder_options block_size interval compression p) [] xs = Some (OK, r)
    \<and> TableOpen (mem_reader extend_crc uncompress p paranoid direct no_cache (tb_file r)) (length (tb_file r)) () = Some (Inr t, ())
    \<and> (\<forall>k options. internal_key_ok k \<longrightarrow>
        (\<exists>result. InternalGet (mem_reader extend_crc uncompress p paranoid direct no_cache (tb_file r)) t options k () = Some (OK, result, ())
          \<and> (result = None \<or> result = find (at_least k) xs)
          \<and> same_user k result = same_user k (find (at_least k) xs)))"
proof -
  define benv where "benv = mem_env extend_crc compress"
  define opts where "opts = builder_options block_size interval compression p"
  obtain r blks seps fc where r: "build_table benv opts [] xs = Some (OK, r)" "concat blks = xs"
    "tb_file r = table_file benv opts blks seps fc" "finished_table benv opts blks seps fc"
    and rd: "\<forall>paranoid direct (block_cache :: (bytes, Block, unit, unit) cache_ops option).
        reader_of benv opts blks seps fc (mem_reader extend_crc uncompress p paranoid direct block_cache (tb_file r))
        \<and> table_filter_ok benv opts blks fc (mem_reader extend_crc uncompress p paranoid direct block_cache (tb_file r))"
    using table_built [OF assms opts_def] unfolding benv_def by blast
  define env where "env = mem_reader extend_crc uncompress p paranoid direct no_cache (tb_file r)"
  have env: "reader_of benv opts blks seps fc env" "table_filter_ok benv opts blks fc env" "re_cache env = None"
    using rd by (simp_all add: env_def) (simp add: mem_reader_def no_cache_def)
  have "TableOpen env (length (tb_file r)) () = Some (Inr (opened_table benv opts blks seps fc 0), ())"
    using TableOpen_finished [OF r(4) env(1), of "()"] by (simp add: r(3) env(3))
  moreover have "\<exists>result. InternalGet env (opened_table benv opts blks seps fc 0) options k () = Some (OK, result, ())
      \<and> (result = None \<or> result = find (at_least k) xs) \<and> same_user k result = same_user k (find (at_least k) xs)"
    if "internal_key_ok k" for k options
    using InternalGet_finished [OF r(4) env(1,2) that, of _ _ _ _ 0 "()" options] same_user_result
    by (fastforce simp: cache_ready_def cache_kept_def env(3) r(2))
  ultimately show ?thesis using r(1) by (auto simp: env_def benv_def opts_def)
qed


theorem table_get_correct_witness:
  "\<exists>r t options. build_table (mem_env (Extend (\<lambda>_ _. 0) 0) (\<lambda>_. None))
      (builder_options 4096 16 kNoCompression (Some (BloomCreateFilter (NewBloomFilterPolicy 10), BloomKeyMayMatch, [98])))
      [] [([1] @ replicate 8 0, [7])] = Some (OK, r)
    \<and> TableOpen (mem_reader (Extend (\<lambda>_ _. 0) 0) (\<lambda>_. None)
        (Some (BloomCreateFilter (NewBloomFilterPolicy 10), BloomKeyMayMatch, [98])) True False no_cache (tb_file r))
        (length (tb_file r)) () = Some (Inr t, ())
    \<and> InternalGet (mem_reader (Extend (\<lambda>_ _. 0) 0) (\<lambda>_. None)
        (Some (BloomCreateFilter (NewBloomFilterPolicy 10), BloomKeyMayMatch, [98])) True False no_cache (tb_file r))
        t options ([1] @ replicate 8 255) () = Some (OK, Some ([1] @ replicate 8 0, [7]), ())"
proof -
  let ?e = "([1] @ replicate 8 0, [7]) :: bytes \<times> bytes" and ?k = "[1] @ replicate 8 255 :: bytes"
  note xs = example_table(1) and pc = example_table(2) and codec = example_table(3) and k = example_table(4,5)
    and f = example_table(6) and u = example_table(7)
  from table_get_correct [OF xs k(2) pc codec, of 4096 True False] obtain r t where
    built: "build_table (mem_env (Extend (\<lambda>_ _. 0) 0) (\<lambda>_. None))
      (builder_options 4096 16 kNoCompression (Some (BloomCreateFilter (NewBloomFilterPolicy 10), BloomKeyMayMatch, [98])))
      [] [?e] = Some (OK, r)"
    and opened: "TableOpen (mem_reader (Extend (\<lambda>_ _. 0) 0) (\<lambda>_. None)
        (Some (BloomCreateFilter (NewBloomFilterPolicy 10), BloomKeyMayMatch, [98])) True False no_cache (tb_file r))
        (length (tb_file r)) () = Some (Inr t, ())"
    and get: "\<forall>k options. internal_key_ok k \<longrightarrow> (\<exists>result. InternalGet (mem_reader (Extend (\<lambda>_ _. 0) 0) (\<lambda>_. None)
        (Some (BloomCreateFilter (NewBloomFilterPolicy 10), BloomKeyMayMatch, [98])) True False no_cache (tb_file r))
        t options k () = Some (OK, result, ()) \<and> (result = None \<or> result = find (at_least k) [?e])
        \<and> same_user k result = same_user k (find (at_least k) [?e]))"
    by blast
  from get [rule_format, OF k(1), of "\<lparr>ro_verify_checksums = True, ro_fill_cache = True\<rparr>"] obtain result where
    got: "InternalGet (mem_reader (Extend (\<lambda>_ _. 0) 0) (\<lambda>_. None)
        (Some (BloomCreateFilter (NewBloomFilterPolicy 10), BloomKeyMayMatch, [98])) True False no_cache (tb_file r))
        t \<lparr>ro_verify_checksums = True, ro_fill_cache = True\<rparr> ?k () = Some (OK, result, ())"
    and g: "result = None \<or> result = find (at_least ?k) [?e]" "same_user ?k result = same_user ?k (find (at_least ?k) [?e])"
    by blast
  have "result = Some ?e"
    using g [unfolded f] u by (auto simp: same_user_def)
  with got show ?thesis by (intro exI conjI) (rule built, rule opened, simp)
qed

end
