(* ===== verification/Handle_Table.thy ===== *)
theory Handle_Table
  imports Prelude "HOL-Library.Multiset"
begin

text \<open>
  The hash table of the cache, \<open>HandleTable\<close> in \<open>util/cache.cc\<close>. Entries live in a store from
  addresses to entries; the chain of a bucket, which the source threads through the \<open>next_hash\<close>
  fields of the entries, is the list of the addresses on it. \<open>None\<close> is a failed assertion, an access
  through a dangling pointer or outside the array, or a loop that does not end.
\<close>

section \<open>State\<close>

record 'v LRUHandle =
  lh_value :: 'v
  lh_charge :: u64
  lh_key :: bytes
  lh_in_cache :: bool
  lh_refs :: u32
  lh_hash :: u32

type_synonym 'v handles = "nat \<Rightarrow> 'v LRUHandle option"

record HandleTable =
  ht_length :: u32
  ht_elems :: u32
  ht_list :: "nat list list"

section \<open>Operations\<close>

text \<open>The bucket and the position of the slot in its chain, which is the end of the chain if there is no match.\<close>

fun find_slot :: "'v handles \<Rightarrow> bytes \<Rightarrow> u32 \<Rightarrow> nat list \<Rightarrow> nat option" where
  "find_slot heap key hash [] = Some 0"
| "find_slot heap key hash (a # chain) =
     (case heap a of
        None \<Rightarrow> None
      | Some e \<Rightarrow>
          if lh_hash e \<noteq> hash \<or> key \<noteq> lh_key e then map_option Suc (find_slot heap key hash chain) else Some 0)"

definition FindPointer :: "'v handles \<Rightarrow> bytes \<Rightarrow> u32 \<Rightarrow> HandleTable \<Rightarrow> (nat \<times> nat) option" where
  "FindPointer heap key hash t =
     (let i = unat (hash AND (ht_length t - 1)) in
      if i < length (ht_list t) then map_option (Pair i) (find_slot heap key hash (ht_list t ! i)) else None)"

definition slot_entry :: "HandleTable \<Rightarrow> nat \<times> nat \<Rightarrow> nat option" where
  "slot_entry t ptr =
     (case ptr of (i, j) \<Rightarrow> if j < length (ht_list t ! i) then Some (ht_list t ! i ! j) else None)"

definition HandleTableLookup :: "'v handles \<Rightarrow> bytes \<Rightarrow> u32 \<Rightarrow> HandleTable \<Rightarrow> nat option option" where
  "HandleTableLookup heap key hash t = map_option (slot_entry t) (FindPointer heap key hash t)"

text \<open>The doubling of the length: 32 steps are enough to end or to reach 0, from where it never ends.\<close>

fun resize_length :: "nat \<Rightarrow> u32 \<Rightarrow> u32 \<Rightarrow> u32 option" where
  "resize_length 0 elems new_length = None"
| "resize_length (Suc fuel) elems new_length =
     (if new_length < elems then resize_length fuel elems (new_length * 2) else Some new_length)"

fun rehash_chain :: "'v handles \<Rightarrow> u32 \<Rightarrow> nat list \<Rightarrow> nat list list \<Rightarrow> nat list list option" where
  "rehash_chain heap new_length [] new_list = Some new_list"
| "rehash_chain heap new_length (h # chain) new_list =
     (case heap h of
        None \<Rightarrow> None
      | Some e \<Rightarrow>
          let i = unat (lh_hash e AND (new_length - 1)) in
          if i < length new_list then rehash_chain heap new_length chain (new_list[i := h # new_list ! i]) else None)"

definition Resize :: "'v handles \<Rightarrow> HandleTable \<Rightarrow> HandleTable option" where
  "Resize heap t =
     Option.bind (resize_length 32 (ht_elems t) 4) (\<lambda>new_length.
     Option.bind (rehash_chain heap new_length (concat (ht_list t)) (replicate (unat new_length) [])) (\<lambda>new_list.
       let count = of_nat (length (concat (ht_list t))) in
       if ht_elems t = count then Some (t\<lparr>ht_list := new_list, ht_length := new_length\<rparr>) else None))"

definition NewHandleTable :: "'v handles \<Rightarrow> HandleTable option" where
  "NewHandleTable heap = Resize heap \<lparr>ht_length = 0, ht_elems = 0, ht_list = []\<rparr>"

definition HandleTableInsert :: "'v handles \<Rightarrow> nat \<Rightarrow> HandleTable \<Rightarrow> (nat option \<times> HandleTable) option" where
  "HandleTableInsert heap h t =
     Option.bind (heap h) (\<lambda>e.
     Option.bind (FindPointer heap (lh_key e) (lh_hash e) t) (\<lambda>(i, j).
       let old = slot_entry t (i, j);
           chain = ht_list t ! i;
           chain = take j chain @ h # drop (Suc j) chain;
           t = t\<lparr>ht_list := (ht_list t)[i := chain]\<rparr>
       in if old = None then
            let t = t\<lparr>ht_elems := ht_elems t + 1\<rparr> in
            if ht_elems t > ht_length t then map_option (Pair old) (Resize heap t) else Some (old, t)
          else Some (old, t)))"

definition HandleTableRemove :: "'v handles \<Rightarrow> bytes \<Rightarrow> u32 \<Rightarrow> HandleTable \<Rightarrow> (nat option \<times> HandleTable) option" where
  "HandleTableRemove heap key hash t =
     map_option (\<lambda>(i, j).
         let result = slot_entry t (i, j) in
         if result \<noteq> None then
           let chain = ht_list t ! i in
           (result, t\<lparr>ht_list := (ht_list t)[i := take j chain @ drop (Suc j) chain], ht_elems := ht_elems t - 1\<rparr>)
         else (result, t))
       (FindPointer heap key hash t)"


section \<open>What the table holds\<close>

definition matches :: "'v handles \<Rightarrow> bytes \<Rightarrow> u32 \<Rightarrow> nat \<Rightarrow> bool" where
  "matches heap key hash a \<longleftrightarrow> (\<exists>e. heap a = Some e \<and> lh_key e = key \<and> lh_hash e = hash)"

definition table_entries :: "HandleTable \<Rightarrow> nat set" where
  "table_entries t = set (concat (ht_list t))"

definition unique_keys :: "'v handles \<Rightarrow> nat set \<Rightarrow> bool" where
  "unique_keys heap A \<longleftrightarrow> (\<forall>a \<in> A. \<forall>b \<in> A. \<forall>key hash. matches heap key hash a \<longrightarrow> matches heap key hash b \<longrightarrow> a = b)"

definition bucket_of :: "u32 \<Rightarrow> u32 \<Rightarrow> nat" where
  "bucket_of len hash = unat (hash AND (len - 1))"

definition placed :: "'v handles \<Rightarrow> u32 \<Rightarrow> nat list list \<Rightarrow> bool" where
  "placed heap len xs \<longleftrightarrow> (\<forall>i < length xs. \<forall>a \<in> set (xs ! i). \<exists>e. heap a = Some e \<and> bucket_of len (lh_hash e) = i)"

definition table_ok :: "'v handles \<Rightarrow> HandleTable \<Rightarrow> bool" where
  "table_ok heap t \<longleftrightarrow>
     (\<exists>n. 2 \<le> n \<and> n < 32 \<and> ht_length t = 2 ^ n) \<and> length (ht_list t) = unat (ht_length t)
     \<and> ht_elems t = of_nat (length (concat (ht_list t))) \<and> distinct (concat (ht_list t))
     \<and> placed heap (ht_length t) (ht_list t) \<and> unique_keys heap (table_entries t)"

lemma unat_power_u32: "n < 32 \<Longrightarrow> unat (2 ^ n :: u32) = 2 ^ n"
  by (simp add: unat_2_power)

lemma bucket_of_less: "n < 32 \<Longrightarrow> bucket_of (2 ^ n) hash < 2 ^ n"
proof -
  have "(2 ^ n :: u32) - 1 = mask n" by (simp add: mask_eq_exp_minus_1)
  then have "hash AND (2 ^ n - 1) = take_bit n hash" by (simp add: take_bit_eq_mask)
  then show ?thesis by (simp add: bucket_of_def unat_take_bit_mod)
qed

lemma table_bucket:
  assumes "table_ok heap t"
  shows "bucket_of (ht_length t) hash < length (ht_list t)"
proof -
  obtain n where n: "n < 32" "ht_length t = 2 ^ n" "length (ht_list t) = unat (ht_length t)"
    using assms by (auto simp: table_ok_def)
  moreover have "unat (2 ^ n :: u32) = 2 ^ n" using n(1) by (rule unat_power_u32)
  ultimately show ?thesis using bucket_of_less [OF n(1)] by simp
qed


lemma find_slot_spec:
  assumes "\<forall>a \<in> set chain. heap a \<noteq> None"
  shows "\<exists>j \<le> length chain. find_slot heap key hash chain = Some j \<and> (\<forall>i < j. \<not> matches heap key hash (chain ! i))
    \<and> (j < length chain \<longrightarrow> matches heap key hash (chain ! j))"
  using assms
proof (induction chain)
  case (Cons a chain)
  then obtain e where e: "heap a = Some e" by auto
  show ?case
  proof (cases "matches heap key hash a")
    case True
    then show ?thesis using e by (intro exI [of _ 0]) (auto simp: matches_def)
  next
    case False
    from Cons obtain j where j: "j \<le> length chain" "find_slot heap key hash chain = Some j"
      "\<forall>i < j. \<not> matches heap key hash (chain ! i)" "j < length chain \<longrightarrow> matches heap key hash (chain ! j)" by auto
    have "\<forall>i < Suc j. \<not> matches heap key hash ((a # chain) ! i)"
      using j(3) False by (auto simp: less_Suc_eq_0_disj)
    then show ?thesis using e False j by (intro exI [of _ "Suc j"]) (auto simp: matches_def)
  qed
qed simp

text \<open>The slot that is found, in the form its users need: the chains around it.\<close>

lemma concat_update: "i < length xs \<Longrightarrow> concat (xs[i := c]) = concat (take i xs) @ c @ concat (drop (Suc i) xs)"
  by (simp add: upd_conv_take_nth_drop)

lemma concat_nth: "i < length xs \<Longrightarrow> concat xs = concat (take i xs) @ xs ! i @ concat (drop (Suc i) xs)"
  by (metis concat_update list_update_id)

lemma FindPointer_spec:
  assumes ok: "table_ok heap t"
  obtains i j where "FindPointer heap key hash t = Some (i, j)" "i = bucket_of (ht_length t) hash" "i < length (ht_list t)"
    "j \<le> length (ht_list t ! i)"
    "slot_entry t (i, j) = (if j < length (ht_list t ! i) then Some (ht_list t ! i ! j) else None)"
    "j < length (ht_list t ! i) \<Longrightarrow> matches heap key hash (ht_list t ! i ! j)"
    "j = length (ht_list t ! i) \<Longrightarrow> \<forall>a \<in> table_entries t. \<not> matches heap key hash a"
proof -
  define i where "i = bucket_of (ht_length t) hash"
  have i: "i < length (ht_list t)" using table_bucket [OF ok] by (simp add: i_def)
  have pl: "placed heap (ht_length t) (ht_list t)" using ok by (simp add: table_ok_def)
  then have "\<forall>a \<in> set (ht_list t ! i). heap a \<noteq> None" using i by (force simp: placed_def)
  from find_slot_spec [OF this, of key hash] obtain j where
    j: "j \<le> length (ht_list t ! i)" "find_slot heap key hash (ht_list t ! i) = Some j"
      "\<forall>k < j. \<not> matches heap key hash (ht_list t ! i ! k)"
      "j < length (ht_list t ! i) \<longrightarrow> matches heap key hash (ht_list t ! i ! j)" by blast
  have none: "\<not> matches heap key hash a" if "j = length (ht_list t ! i)" "a \<in> table_entries t" for a
  proof
    assume m: "matches heap key hash a"
    from that(2) obtain c where "c \<in> set (ht_list t)" "a \<in> set c" by (auto simp: table_entries_def)
    then obtain k where k: "k < length (ht_list t)" "a \<in> set (ht_list t ! k)" by (metis in_set_conv_nth)
    then have "k = i" using pl m by (force simp: placed_def matches_def i_def)
    then obtain l where "l < length (ht_list t ! i)" "ht_list t ! i ! l = a" using k(2) by (auto simp: in_set_conv_nth)
    then show False using j(3) that(1) m by blast
  qed
  show ?thesis
  proof (rule that [of i j])
    show "FindPointer heap key hash t = Some (i, j)"
      using i j(2) by (simp add: FindPointer_def i_def bucket_of_def Let_def)
    show "slot_entry t (i, j) = (if j < length (ht_list t ! i) then Some (ht_list t ! i ! j) else None)"
      by (simp add: slot_entry_def)
  qed (use i j none in \<open>auto simp: i_def\<close>)
qed


definition found :: "'v handles \<Rightarrow> bytes \<Rightarrow> u32 \<Rightarrow> HandleTable \<Rightarrow> nat option \<Rightarrow> bool" where
  "found heap key hash t r \<longleftrightarrow> (\<forall>a. r = Some a \<longleftrightarrow> a \<in> table_entries t \<and> matches heap key hash a)"

lemma slot_in_table: "i < length (ht_list t) \<Longrightarrow> j < length (ht_list t ! i) \<Longrightarrow> ht_list t ! i ! j \<in> table_entries t"
  by (auto simp: table_entries_def intro!: bexI [of _ "ht_list t ! i"])

lemma foundI:
  assumes ok: "table_ok heap t" and i: "i < length (ht_list t)" "j \<le> length (ht_list t ! i)"
    and "j < length (ht_list t ! i) \<Longrightarrow> matches heap key hash (ht_list t ! i ! j)"
    and "j = length (ht_list t ! i) \<Longrightarrow> \<forall>a \<in> table_entries t. \<not> matches heap key hash a"
  shows "found heap key hash t (if j < length (ht_list t ! i) then Some (ht_list t ! i ! j) else None)"
proof (cases "j < length (ht_list t ! i)")
  case True
  have "unique_keys heap (table_entries t)" using ok by (simp add: table_ok_def)
  then show ?thesis using True assms(4) [OF True] slot_in_table [OF i(1) True]
    by (auto simp: found_def unique_keys_def)
next
  case False
  then show ?thesis using assms(3,5) by (auto simp: found_def)
qed

lemma HandleTableLookup_spec:
  assumes "table_ok heap t"
  shows "\<exists>r. HandleTableLookup heap key hash t = Some r \<and> found heap key hash t r"
proof (rule FindPointer_spec [OF assms, of key hash])
  fix i j
  assume *: "FindPointer heap key hash t = Some (i, j)" "i < length (ht_list t)" "j \<le> length (ht_list t ! i)"
    "slot_entry t (i, j) = (if j < length (ht_list t ! i) then Some (ht_list t ! i ! j) else None)"
    "j < length (ht_list t ! i) \<Longrightarrow> matches heap key hash (ht_list t ! i ! j)"
    "j = length (ht_list t ! i) \<Longrightarrow> \<forall>a \<in> table_entries t. \<not> matches heap key hash a"
  from foundI [OF assms *(2,3,5,6)] *(1,4) show ?thesis by (simp add: HandleTableLookup_def)
qed

lemma placed_update:
  assumes "placed heap len xs" "i < length xs" "\<And>a. a \<in> set c \<Longrightarrow> \<exists>e. heap a = Some e \<and> bucket_of len (lh_hash e) = i"
  shows "placed heap len (xs[i := c])"
  using assms by (auto simp: placed_def nth_list_update)

lemma placed_nth: "placed heap len xs \<Longrightarrow> i < length xs \<Longrightarrow> a \<in> set (xs ! i) \<Longrightarrow> \<exists>e. heap a = Some e \<and> bucket_of len (lh_hash e) = i"
  by (simp add: placed_def)

lemma unique_keys_subset: "unique_keys heap A \<Longrightarrow> B \<subseteq> A \<Longrightarrow> unique_keys heap B"
  by (auto simp: unique_keys_def)

lemma HandleTableRemove_spec:
  assumes ok: "table_ok heap t"
  shows "\<exists>r t'. HandleTableRemove heap key hash t = Some (r, t') \<and> found heap key hash t r \<and> table_ok heap t'
    \<and> table_entries t' = table_entries t - set_option r"
proof (rule FindPointer_spec [OF ok, of key hash])
  fix i j
  assume fp: "FindPointer heap key hash t = Some (i, j)" and i: "i < length (ht_list t)" "j \<le> length (ht_list t ! i)"
    and slot: "slot_entry t (i, j) = (if j < length (ht_list t ! i) then Some (ht_list t ! i ! j) else None)"
    and m: "j < length (ht_list t ! i) \<Longrightarrow> matches heap key hash (ht_list t ! i ! j)"
      "j = length (ht_list t ! i) \<Longrightarrow> \<forall>a \<in> table_entries t. \<not> matches heap key hash a"
  note found = foundI [OF ok i m]
  show ?thesis
  proof (cases "j < length (ht_list t ! i)")
    case False
    then show ?thesis using found ok fp slot by (intro exI [of _ None] exI [of _ t]) (simp add: HandleTableRemove_def)
  next
    case True
    define chain where "chain = ht_list t ! i"
    define a where "a = chain ! j"
    define t' where "t' = t\<lparr>ht_list := (ht_list t)[i := take j chain @ drop (Suc j) chain], ht_elems := ht_elems t - 1\<rparr>"
    have chain: "chain = take j chain @ a # drop (Suc j) chain" using True by (simp add: a_def chain_def id_take_nth_drop)
    have all: "concat (ht_list t) = concat (take i (ht_list t)) @ (take j chain @ a # drop (Suc j) chain) @ concat (drop (Suc i) (ht_list t))"
      using concat_nth [OF i(1)] chain by (simp add: chain_def)
    have all': "concat (ht_list t') = concat (take i (ht_list t)) @ (take j chain @ drop (Suc j) chain) @ concat (drop (Suc i) (ht_list t))"
      by (simp add: t'_def concat_update [OF i(1)])
    have d: "distinct (concat (ht_list t))" using ok by (simp add: table_ok_def)
    have e: "table_entries t' = table_entries t - {a}"
      using d unfolding table_entries_def all all' by auto
    have pl: "placed heap (ht_length t) (ht_list t)" using ok by (simp add: table_ok_def)
    have "placed heap (ht_length t) ((ht_list t)[i := take j chain @ drop (Suc j) chain])"
    proof (rule placed_update [OF pl i(1)])
      fix b assume "b \<in> set (take j chain @ drop (Suc j) chain)"
      then have "b \<in> set (ht_list t ! i)" by (auto simp: chain_def dest: in_set_takeD in_set_dropD)
      then show "\<exists>e. heap b = Some e \<and> bucket_of (ht_length t) (lh_hash e) = i" by (rule placed_nth [OF pl i(1)])
    qed
    then have "placed heap (ht_length t) (ht_list t')" by (simp add: t'_def)
    moreover have "unique_keys heap (table_entries t')"
      using ok e by (auto simp: table_ok_def intro: unique_keys_subset)
    moreover have "distinct (concat (ht_list t'))" using d unfolding all all' by auto
    moreover have "ht_elems t' = of_nat (length (concat (ht_list t')))"
    proof -
      have "length (concat (ht_list t)) = Suc (length (concat (ht_list t')))" unfolding all all' by simp
      moreover have "ht_elems t' = of_nat (length (concat (ht_list t))) - 1" using ok by (simp add: t'_def table_ok_def)
      ultimately show ?thesis by simp
    qed
    ultimately have "table_ok heap t'" using ok by (simp add: table_ok_def t'_def)
    moreover have "HandleTableRemove heap key hash t = Some (Some a, t')"
      using fp slot True by (simp add: HandleTableRemove_def Let_def a_def chain_def t'_def)
    ultimately show ?thesis using found e True by (simp add: a_def chain_def)
  qed
qed


section \<open>Resizing and insertion\<close>

lemma resize_length_spec:
  assumes "unat elems \<le> 2 ^ 31" "2 \<le> n" "n < 32" "32 \<le> fuel + n"
  shows "\<exists>m. 2 \<le> m \<and> m < 32 \<and> resize_length fuel elems (2 ^ n) = Some (2 ^ m)"
  using assms
proof (induction fuel arbitrary: n)
  case (Suc fuel)
  show ?case
  proof (cases "(2 ^ n :: u32) < elems")
    case True
    then have "(2 :: nat) ^ n < 2 ^ 31" using Suc.prems unat_power_u32 [of n] by (simp add: word_less_nat_alt)
    then have "n < 31" using power_less_imp_less_exp [of "2 :: nat" n 31] by simp
    with True Suc.IH [of "Suc n"] Suc.prems show ?thesis by (simp add: mult.commute)
  next
    case False
    then show ?thesis using Suc.prems by auto
  qed
qed simp

lemma mset_concat_update:
  "i < length xs \<Longrightarrow> mset (concat (xs[i := a # xs ! i])) = add_mset a (mset (concat xs))"
  by (simp add: concat_update concat_nth [of i xs] del: concat_append)

lemma rehash_chain_spec:
  assumes n: "n < 32" and heap: "\<forall>a \<in> set chain. heap a \<noteq> None" and xs: "length xs = 2 ^ n" "placed heap (2 ^ n) xs"
  shows "\<exists>ys. rehash_chain heap (2 ^ n) chain xs = Some ys \<and> length ys = 2 ^ n \<and> placed heap (2 ^ n) ys
    \<and> mset (concat ys) = mset (concat xs) + mset chain"
  using heap xs
proof (induction chain arbitrary: xs)
  case (Cons a chain)
  then obtain e where e: "heap a = Some e" by auto
  define i where "i = bucket_of (2 ^ n) (lh_hash e)"
  have i: "i < length xs" using bucket_of_less [OF n] Cons.prems(2) by (simp add: i_def)
  define xs' where "xs' = xs[i := a # xs ! i]"
  have "placed heap (2 ^ n) xs'"
    unfolding xs'_def
  proof (rule placed_update [OF Cons.prems(3) i])
    fix b assume "b \<in> set (a # xs ! i)"
    then show "\<exists>e. heap b = Some e \<and> bucket_of (2 ^ n) (lh_hash e) = i"
      using placed_nth [OF Cons.prems(3) i] e by (auto simp: i_def)
  qed
  with Cons.IH [of xs'] Cons.prems obtain ys where "rehash_chain heap (2 ^ n) chain xs' = Some ys" "length ys = 2 ^ n"
    "placed heap (2 ^ n) ys" "mset (concat ys) = mset (concat xs') + mset chain" by (auto simp: xs'_def)
  moreover have "mset (concat xs') = add_mset a (mset (concat xs))" unfolding xs'_def by (rule mset_concat_update [OF i])
  ultimately show ?case using e i by (simp add: Let_def xs'_def i_def bucket_of_def)
qed simp

lemma Resize_spec:
  assumes heap: "\<forall>a \<in> table_entries t. heap a \<noteq> None" and d: "distinct (concat (ht_list t))"
    and e: "ht_elems t = of_nat (length (concat (ht_list t)))" "length (concat (ht_list t)) \<le> 2 ^ 31"
    and u: "unique_keys heap (table_entries t)"
  shows "\<exists>t'. Resize heap t = Some t' \<and> table_ok heap t' \<and> table_entries t' = table_entries t"
proof -
  have "unat (ht_elems t) \<le> 2 ^ 31" using e by (simp add: unat_of_nat_small)
  from resize_length_spec [OF this, of 2 32] obtain n where n: "2 \<le> n" "n < 32" "resize_length 32 (ht_elems t) 4 = Some (2 ^ n)"
    by auto
  have pl: "placed heap (2 ^ n) (replicate (2 ^ n) [])" by (simp add: placed_def)
  have emp: "concat (replicate (2 ^ n) []) = ([] :: nat list)" by (simp add: concat_eq_Nil_conv)
  obtain ys where ys: "rehash_chain heap (2 ^ n) (concat (ht_list t)) (replicate (2 ^ n) []) = Some ys" "length ys = 2 ^ n"
    "placed heap (2 ^ n) ys" "mset (concat ys) = mset (concat (ht_list t))"
    using rehash_chain_spec [OF n(2) _ _ pl, of "concat (ht_list t)"] heap emp by (auto simp: table_entries_def)
  define t' where "t' = t\<lparr>ht_list := ys, ht_length := 2 ^ n\<rparr>"
  have "Resize heap t = Some t'"
    using n ys e(1) unat_power_u32 [OF n(2)] by (simp add: Resize_def t'_def)
  moreover have same: "table_entries t' = table_entries t"
    using mset_eq_setD [OF ys(4)] by (simp add: table_entries_def t'_def)
  moreover have "length (concat ys) = length (concat (ht_list t))" using ys(4) by (rule mset_eq_length)
  moreover have "distinct (concat ys)" using ys(4) d by (metis mset_eq_imp_distinct_iff)
  ultimately show ?thesis
    using n ys unat_power_u32 [OF n(2)] e(1) u by (auto simp: table_ok_def t'_def)
qed

lemma NewHandleTable_spec: "\<exists>t. NewHandleTable heap = Some t \<and> table_ok heap t \<and> table_entries t = {}"
  using Resize_spec [of "\<lparr>ht_length = 0, ht_elems = 0, ht_list = []\<rparr>" heap]
  by (simp add: NewHandleTable_def table_entries_def unique_keys_def)

lemma HandleTableInsert_spec:
  assumes ok: "table_ok heap t" and h: "heap h = Some e" "h \<notin> table_entries t" and few: "card (table_entries t) < 2 ^ 31"
  shows "\<exists>r t'. HandleTableInsert heap h t = Some (r, t') \<and> found heap (lh_key e) (lh_hash e) t r \<and> table_ok heap t'
    \<and> table_entries t' = insert h (table_entries t - set_option r)"
proof (rule FindPointer_spec [OF ok, of "lh_key e" "lh_hash e"])
  fix i j
  assume fp: "FindPointer heap (lh_key e) (lh_hash e) t = Some (i, j)" and b: "i = bucket_of (ht_length t) (lh_hash e)"
    and i: "i < length (ht_list t)" "j \<le> length (ht_list t ! i)"
    and slot: "slot_entry t (i, j) = (if j < length (ht_list t ! i) then Some (ht_list t ! i ! j) else None)"
    and m: "j < length (ht_list t ! i) \<Longrightarrow> matches heap (lh_key e) (lh_hash e) (ht_list t ! i ! j)"
      "j = length (ht_list t ! i) \<Longrightarrow> \<forall>a \<in> table_entries t. \<not> matches heap (lh_key e) (lh_hash e) a"
  define r where "r = (if j < length (ht_list t ! i) then Some (ht_list t ! i ! j) else None)"
  have found: "found heap (lh_key e) (lh_hash e) t r" unfolding r_def by (rule foundI [OF ok i m])
  define chain where "chain = ht_list t ! i"
  define xs where "xs = (ht_list t)[i := take j chain @ h # drop (Suc j) chain]"
  have d: "distinct (concat (ht_list t))" and pl: "placed heap (ht_length t) (ht_list t)" using ok by (simp_all add: table_ok_def)
  have chain: "chain = take j chain @ (case r of None \<Rightarrow> [] | Some a \<Rightarrow> [a]) @ drop (Suc j) chain"
    using i(2) by (auto simp: r_def chain_def Cons_nth_drop_Suc)
  have all: "concat (ht_list t) = concat (take i (ht_list t)) @ (take j chain @ (case r of None \<Rightarrow> [] | Some a \<Rightarrow> [a]) @ drop (Suc j) chain)
      @ concat (drop (Suc i) (ht_list t))"
    using concat_nth [OF i(1)] chain by (simp add: chain_def)
  have all': "concat xs = concat (take i (ht_list t)) @ (take j chain @ h # drop (Suc j) chain) @ concat (drop (Suc i) (ht_list t))"
    by (simp add: xs_def concat_update [OF i(1)])
  have ent: "set (concat xs) = insert h (table_entries t - set_option r)"
    using d unfolding table_entries_def all all' by (auto split: option.splits)
  have "h \<notin> set (concat (ht_list t))" using h(2) by (simp add: table_entries_def)
  then have d': "distinct (concat xs)" using d unfolding all all' by (auto split: option.splits)
  have pl': "placed heap (ht_length t) xs"
    unfolding xs_def
  proof (rule placed_update [OF pl i(1)])
    fix a assume "a \<in> set (take j chain @ h # drop (Suc j) chain)"
    then have "a = h \<or> a \<in> set (ht_list t ! i)" by (auto simp: chain_def dest: in_set_takeD in_set_dropD)
    then show "\<exists>e. heap a = Some e \<and> bucket_of (ht_length t) (lh_hash e) = i" using placed_nth [OF pl i(1)] h(1) b by auto
  qed
  have u: "unique_keys heap (set (concat xs))"
  proof -
    have "unique_keys heap (table_entries t)" using ok by (simp add: table_ok_def)
    moreover have "\<not> matches heap key hash a" if "matches heap key hash h" "a \<in> table_entries t - set_option r" for key hash a
      using that found h(1) by (auto simp: found_def matches_def)
    ultimately show ?thesis unfolding ent unique_keys_def by (metis Diff_iff insert_iff)
  qed
  define t1 where "t1 = t\<lparr>ht_list := xs\<rparr>"
  have len: "length xs = length (ht_list t)" by (simp add: xs_def)
  show ?thesis
  proof (cases r)
    case (Some a)
    have "length (concat xs) = length (concat (ht_list t))" unfolding all all' by (simp add: Some)
    then have "table_ok heap t1" using ok pl' d' u len by (simp add: table_ok_def t1_def table_entries_def)
    moreover have "HandleTableInsert heap h t = Some (r, t1)"
      using h(1) fp slot Some by (simp add: HandleTableInsert_def Let_def t1_def xs_def chain_def flip: r_def)
    ultimately show ?thesis using found ent by (simp add: t1_def table_entries_def)
  next
    case None
    have card: "card (table_entries t) = length (concat (ht_list t))" using distinct_card [OF d] by (simp add: table_entries_def)
    have l: "length (concat xs) = Suc (length (concat (ht_list t)))" unfolding all all' by (simp add: None)
    define t2 where "t2 = t1\<lparr>ht_elems := ht_elems t1 + 1\<rparr>"
    have el: "ht_elems t2 = of_nat (length (concat (ht_list t2)))" using ok l by (simp add: t2_def t1_def table_ok_def add.commute)
    have ins: "HandleTableInsert heap h t = (if ht_elems t2 > ht_length t2 then map_option (Pair r) (Resize heap t2) else Some (r, t2))"
      using h(1) fp slot None by (simp add: HandleTableInsert_def Let_def t1_def t2_def xs_def chain_def flip: r_def)
    have e2: "table_entries t2 = insert h (table_entries t - set_option r)" using ent by (simp add: t2_def t1_def table_entries_def)
    show ?thesis
    proof (cases "ht_elems t2 > ht_length t2")
      case False
      have "table_ok heap t2" using ok pl' d' u len el by (simp add: table_ok_def t1_def t2_def table_entries_def)
      then show ?thesis using ins False found e2 by auto
    next
      case True
      have "\<exists>t'. Resize heap t2 = Some t' \<and> table_ok heap t' \<and> table_entries t' = table_entries t2"
      proof (rule Resize_spec [OF _ _ el])
        show "\<forall>a \<in> table_entries t2. heap a \<noteq> None"
        proof
          fix a assume "a \<in> table_entries t2"
          then obtain k where "k < length xs" "a \<in> set (xs ! k)" by (auto simp: t2_def t1_def table_entries_def) (metis in_set_conv_nth)
          then show "heap a \<noteq> None" using placed_nth [OF pl'] by fastforce
        qed
        show "length (concat (ht_list t2)) \<le> 2 ^ 31" using few l card by (simp add: t2_def t1_def)
      qed (use d' u in \<open>simp_all add: t2_def t1_def table_entries_def\<close>)
      then show ?thesis using ins True found e2 by auto
    qed
  qed
qed


text \<open>Only the keys and hashes of the entries matter.\<close>

definition same_key :: "'v handles \<Rightarrow> 'v handles \<Rightarrow> nat \<Rightarrow> bool" where
  "same_key heap heap' a \<longleftrightarrow> (\<exists>e e'. heap a = Some e \<and> heap' a = Some e' \<and> lh_key e' = lh_key e \<and> lh_hash e' = lh_hash e)"

lemma matches_same: "same_key heap heap' a \<Longrightarrow> matches heap' key hash a \<longleftrightarrow> matches heap key hash a"
  by (auto simp: same_key_def matches_def)

lemma table_ok_cong:
  assumes ok: "table_ok heap t" and same: "\<And>a. a \<in> table_entries t \<Longrightarrow> same_key heap heap' a"
  shows "table_ok heap' t"
proof -
  have "placed heap' (ht_length t) (ht_list t)"
    unfolding placed_def
  proof (intro allI impI ballI)
    fix i a assume i: "i < length (ht_list t)" "a \<in> set (ht_list t ! i)"
    have "placed heap (ht_length t) (ht_list t)" using ok by (simp add: table_ok_def)
    moreover have "a \<in> table_entries t" using i by (auto simp: table_entries_def)
    ultimately show "\<exists>e. heap' a = Some e \<and> bucket_of (ht_length t) (lh_hash e) = i"
      using same [of a] placed_nth [of heap "ht_length t" "ht_list t" i a] i by (auto simp: same_key_def)
  qed
  moreover have "unique_keys heap' (table_entries t)"
  proof -
    have "unique_keys heap (table_entries t)" using ok by (simp add: table_ok_def)
    moreover have "matches heap' key hash a \<longleftrightarrow> matches heap key hash a" if "a \<in> table_entries t" for key hash a
      by (rule matches_same [OF same [OF that]])
    ultimately show ?thesis unfolding unique_keys_def by blast
  qed
  ultimately show ?thesis using ok by (simp add: table_ok_def)
qed

lemma found_cong:
  assumes "\<And>a. a \<in> table_entries t \<Longrightarrow> same_key heap heap' a"
  shows "found heap' key hash t r \<longleftrightarrow> found heap key hash t r"
proof -
  have "matches heap' key hash a \<longleftrightarrow> matches heap key hash a" if "a \<in> table_entries t" for a
    by (rule matches_same [OF assms [OF that]])
  then show ?thesis unfolding found_def by blast
qed

end
