(* ===== verification/Lru_Cache.thy ===== *)
theory Lru_Cache
  imports Handle_Table Hash_Function Cache
begin

text \<open>
  The least-recently-used cache, \<open>util/cache.cc\<close>: one shard (\<open>LRUCache\<close>) and the sharded cache over
  sixteen of them. The circular lists \<open>lru_\<close> and \<open>in_use_\<close> are the lists of the addresses on them, the
  oldest first; \<open>LRU_Remove\<close> takes an address off the list it is on and \<open>LRU_Append\<close> adds it at the end.
  Memory is a store with a counter for fresh addresses; a freed address has no entry, so that its
  use is \<open>None\<close>, and the calls of the deleters are recorded.
\<close>

section \<open>One shard\<close>

record 'v LRUCache =
  lru_capacity :: u64
  lru_usage :: u64
  lru_lru :: "nat list"
  lru_in_use :: "nat list"
  lru_table :: HandleTable
  lru_heap :: "'v handles"
  lru_next :: nat
  lru_deleted :: "(bytes \<times> 'v) list"

definition NewLRUCache :: "'v LRUCache option" where
  "NewLRUCache =
     map_option (\<lambda>t. \<lparr>lru_capacity = 0, lru_usage = 0, lru_lru = [], lru_in_use = [], lru_table = t,
         lru_heap = Map.empty, lru_next = 0, lru_deleted = []\<rparr>)
       (NewHandleTable (Map.empty :: 'v handles))"

definition SetCapacity :: "u64 \<Rightarrow> 'v LRUCache \<Rightarrow> 'v LRUCache" where
  "SetCapacity capacity s = s\<lparr>lru_capacity := capacity\<rparr>"

definition LRU_Remove :: "nat \<Rightarrow> 'v LRUCache \<Rightarrow> 'v LRUCache" where
  "LRU_Remove a s = s\<lparr>lru_lru := remove1 a (lru_lru s), lru_in_use := remove1 a (lru_in_use s)\<rparr>"

definition Append_in_use :: "nat \<Rightarrow> 'v LRUCache \<Rightarrow> 'v LRUCache" where
  "Append_in_use a s = s\<lparr>lru_in_use := lru_in_use s @ [a]\<rparr>"

definition Append_lru :: "nat \<Rightarrow> 'v LRUCache \<Rightarrow> 'v LRUCache" where
  "Append_lru a s = s\<lparr>lru_lru := lru_lru s @ [a]\<rparr>"

definition set_entry :: "nat \<Rightarrow> 'v LRUHandle \<Rightarrow> 'v LRUCache \<Rightarrow> 'v LRUCache" where
  "set_entry a e s = s\<lparr>lru_heap := (lru_heap s)(a \<mapsto> e)\<rparr>"

definition Ref :: "nat \<Rightarrow> 'v LRUCache \<Rightarrow> 'v LRUCache option" where
  "Ref a s =
     map_option (\<lambda>e.
         let s = (if lh_refs e = 1 \<and> lh_in_cache e then Append_in_use a (LRU_Remove a s) else s)
         in set_entry a (e\<lparr>lh_refs := lh_refs e + 1\<rparr>) s)
       (lru_heap s a)"

definition Unref :: "nat \<Rightarrow> 'v LRUCache \<Rightarrow> 'v LRUCache option" where
  "Unref a s =
     Option.bind (lru_heap s a) (\<lambda>e.
       if lh_refs e = 0 then None
       else
         let e = e\<lparr>lh_refs := lh_refs e - 1\<rparr> in
         if lh_refs e = 0 then
           (if lh_in_cache e then None
            else Some (s\<lparr>lru_heap := (lru_heap s)(a := None), lru_deleted := lru_deleted s @ [(lh_key e, lh_value e)]\<rparr>))
         else if lh_in_cache e \<and> lh_refs e = 1 then Some (Append_lru a (LRU_Remove a (set_entry a e s)))
         else Some (set_entry a e s))"

definition FinishErase :: "nat option \<Rightarrow> 'v LRUCache \<Rightarrow> 'v LRUCache option" where
  "FinishErase r s =
     (case r of
        None \<Rightarrow> Some s
      | Some a \<Rightarrow>
          Option.bind (lru_heap s a) (\<lambda>e.
            if \<not> lh_in_cache e then None
            else
              let s = set_entry a (e\<lparr>lh_in_cache := False\<rparr>) (LRU_Remove a s)
              in Unref a (s\<lparr>lru_usage := lru_usage s - lh_charge e\<rparr>)))"

definition LRULookup :: "bytes \<Rightarrow> u32 \<Rightarrow> 'v LRUCache \<Rightarrow> (nat option \<times> 'v LRUCache) option" where
  "LRULookup key hash s =
     Option.bind (HandleTableLookup (lru_heap s) key hash (lru_table s)) (\<lambda>r.
       case r of
         None \<Rightarrow> Some (None, s)
       | Some a \<Rightarrow> map_option (Pair (Some a)) (Ref a s))"

definition LRURelease :: "nat \<Rightarrow> 'v LRUCache \<Rightarrow> 'v LRUCache option" where
  "LRURelease a s = Unref a s"

definition LRUErase :: "bytes \<Rightarrow> u32 \<Rightarrow> 'v LRUCache \<Rightarrow> 'v LRUCache option" where
  "LRUErase key hash s =
     Option.bind (HandleTableRemove (lru_heap s) key hash (lru_table s)) (\<lambda>(r, t). FinishErase r (s\<lparr>lru_table := t\<rparr>))"

text \<open>The removal of the oldest entry, and the loops that repeat it; the length of the list is fuel enough.\<close>

definition evict_oldest :: "nat \<Rightarrow> 'v LRUCache \<Rightarrow> 'v LRUCache option" where
  "evict_oldest old s =
     Option.bind (lru_heap s old) (\<lambda>e.
       if lh_refs e \<noteq> 1 then None
       else
         Option.bind (HandleTableRemove (lru_heap s) (lh_key e) (lh_hash e) (lru_table s)) (\<lambda>(r, t).
           if r = None then None else FinishErase r (s\<lparr>lru_table := t\<rparr>)))"

fun evict_loop :: "nat \<Rightarrow> (u64 \<Rightarrow> u64 \<Rightarrow> bool) \<Rightarrow> 'v LRUCache \<Rightarrow> 'v LRUCache option" where
  "evict_loop 0 full s = None"
| "evict_loop (Suc fuel) full s =
     (case lru_lru s of
        old # _ \<Rightarrow> if full (lru_usage s) (lru_capacity s) then Option.bind (evict_oldest old s) (evict_loop fuel full) else Some s
      | [] \<Rightarrow> Some s)"

definition LRUPrune :: "'v LRUCache \<Rightarrow> 'v LRUCache option" where
  "LRUPrune s = evict_loop (Suc (length (lru_lru s))) (\<lambda>_ _. True) s"

text \<open>The first half of \<open>Insert\<close> takes the new entry \<open>e\<close> at \<open>a\<close> into the cache, unless caching is turned off.\<close>

definition admit_entry :: "nat \<Rightarrow> 'v LRUHandle \<Rightarrow> 'v LRUCache \<Rightarrow> 'v LRUCache option" where
  "admit_entry a e s =
     (if lru_capacity s > 0 then
        let s = Append_in_use a (set_entry a (e\<lparr>lh_refs := lh_refs e + 1, lh_in_cache := True\<rparr>) s);
            s = s\<lparr>lru_usage := lru_usage s + lh_charge e\<rparr>
        in Option.bind (HandleTableInsert (lru_heap s) a (lru_table s)) (\<lambda>(old, t). FinishErase old (s\<lparr>lru_table := t\<rparr>))
      else Some s)"

definition LRUInsert :: "bytes \<Rightarrow> u32 \<Rightarrow> 'v \<Rightarrow> u64 \<Rightarrow> 'v LRUCache \<Rightarrow> (nat \<times> 'v LRUCache) option" where
  "LRUInsert key hash value charge s =
     (let a = lru_next s;
          e = \<lparr>lh_value = value, lh_charge = charge, lh_key = key, lh_in_cache = False, lh_refs = 1, lh_hash = hash\<rparr>
      in Option.bind (admit_entry a e ((set_entry a e s)\<lparr>lru_next := Suc a\<rparr>)) (\<lambda>s.
         map_option (Pair a) (evict_loop (Suc (length (lru_lru s))) (\<lambda>usage capacity. usage > capacity) s)))"

definition LRUTotalCharge :: "'v LRUCache \<Rightarrow> u64" where
  "LRUTotalCharge s = lru_usage s"

definition LRUValue :: "nat \<Rightarrow> 'v LRUCache \<Rightarrow> 'v option" where
  "LRUValue a s = map_option lh_value (lru_heap s a)"

text \<open>The destructor: no handle may be left, and every cached entry is deleted.\<close>

fun destroy_loop :: "nat list \<Rightarrow> 'v LRUCache \<Rightarrow> 'v LRUCache option" where
  "destroy_loop [] s = Some s"
| "destroy_loop (a # as) s =
     Option.bind (lru_heap s a) (\<lambda>e.
       if \<not> lh_in_cache e \<or> lh_refs e \<noteq> 1 then None
       else Option.bind (Unref a (set_entry a (e\<lparr>lh_in_cache := False\<rparr>) s)) (destroy_loop as))"

definition DestroyLRUCache :: "'v LRUCache \<Rightarrow> 'v LRUCache option" where
  "DestroyLRUCache s = (if lru_in_use s \<noteq> [] then None else destroy_loop (lru_lru s) s)"

section \<open>The sharded cache\<close>

text \<open>
  A handle points to an entry in the memory of a shard: it is the number of the shard and the address
  there. \<open>Release\<close> finds the shard again by the hash that the entry holds.
\<close>

definition kNumShardBits :: nat where
  "kNumShardBits = 4"

definition kNumShards :: nat where
  "kNumShards = 2 ^ kNumShardBits"

record 'v ShardedLRUCache =
  sc_shard :: "'v LRUCache list"
  sc_last_id :: u64

definition HashSlice :: "bytes \<Rightarrow> u32" where
  "HashSlice s = Hash s 0"

definition Shard :: "u32 \<Rightarrow> nat" where
  "Shard hash = unat (drop_bit (32 - kNumShardBits) hash)"

definition NewShardedLRUCache :: "u64 \<Rightarrow> 'v ShardedLRUCache option" where
  "NewShardedLRUCache capacity =
     (let per_shard = (capacity + (of_nat kNumShards - 1)) div of_nat kNumShards in
      map_option (\<lambda>shard. \<lparr>sc_shard = replicate kNumShards (SetCapacity per_shard shard), sc_last_id = 0\<rparr>) NewLRUCache)"

definition set_shard :: "nat \<Rightarrow> 'v LRUCache \<Rightarrow> 'v ShardedLRUCache \<Rightarrow> 'v ShardedLRUCache" where
  "set_shard i s c = c\<lparr>sc_shard := (sc_shard c)[i := s]\<rparr>"

definition handle_entry :: "nat \<times> nat \<Rightarrow> 'v ShardedLRUCache \<Rightarrow> 'v LRUHandle option" where
  "handle_entry h c = (if fst h < length (sc_shard c) then lru_heap (sc_shard c ! fst h) (snd h) else None)"

definition ShardedInsert :: "bytes \<Rightarrow> 'v \<Rightarrow> u64 \<Rightarrow> 'v ShardedLRUCache \<Rightarrow> ((nat \<times> nat) \<times> 'v ShardedLRUCache) option" where
  "ShardedInsert key value charge c =
     (let hash = HashSlice key; i = Shard hash in
      map_option (\<lambda>(a, s). ((i, a), set_shard i s c)) (LRUInsert key hash value charge (sc_shard c ! i)))"

definition ShardedLookup :: "bytes \<Rightarrow> 'v ShardedLRUCache \<Rightarrow> ((nat \<times> nat) option \<times> 'v ShardedLRUCache) option" where
  "ShardedLookup key c =
     (let hash = HashSlice key; i = Shard hash in
      map_option (\<lambda>(r, s). (map_option (Pair i) r, set_shard i s c)) (LRULookup key hash (sc_shard c ! i)))"

definition ShardedRelease :: "nat \<times> nat \<Rightarrow> 'v ShardedLRUCache \<Rightarrow> 'v ShardedLRUCache option" where
  "ShardedRelease h c =
     Option.bind (handle_entry h c) (\<lambda>e.
       let i = Shard (lh_hash e) in
       if i \<noteq> fst h then None else map_option (\<lambda>s. set_shard i s c) (LRURelease (snd h) (sc_shard c ! i)))"

definition ShardedErase :: "bytes \<Rightarrow> 'v ShardedLRUCache \<Rightarrow> 'v ShardedLRUCache option" where
  "ShardedErase key c =
     (let hash = HashSlice key; i = Shard hash in
      map_option (\<lambda>s. set_shard i s c) (LRUErase key hash (sc_shard c ! i)))"

definition ShardedValue :: "nat \<times> nat \<Rightarrow> 'v ShardedLRUCache \<Rightarrow> 'v option" where
  "ShardedValue h c = map_option lh_value (handle_entry h c)"

text \<open>The shards are members of the cache, and its destructor destroys them, the last one first.\<close>

definition DestroyShardedLRUCache :: "'v ShardedLRUCache \<Rightarrow> 'v ShardedLRUCache option" where
  "DestroyShardedLRUCache c =
     map_option (\<lambda>shards. c\<lparr>sc_shard := rev shards\<rparr>) (those (map DestroyLRUCache (rev (sc_shard c))))"

definition NewId :: "'v ShardedLRUCache \<Rightarrow> u64 \<times> 'v ShardedLRUCache" where
  "NewId c = (let c = c\<lparr>sc_last_id := sc_last_id c + 1\<rparr> in (sc_last_id c, c))"

fun prune_shards :: "'v LRUCache list \<Rightarrow> 'v LRUCache list option" where
  "prune_shards [] = Some []"
| "prune_shards (s # shards) = Option.bind (LRUPrune s) (\<lambda>s. map_option (Cons s) (prune_shards shards))"

definition ShardedPrune :: "'v ShardedLRUCache \<Rightarrow> 'v ShardedLRUCache option" where
  "ShardedPrune c = map_option (\<lambda>shards. c\<lparr>sc_shard := shards\<rparr>) (prune_shards (sc_shard c))"

definition ShardedTotalCharge :: "'v ShardedLRUCache \<Rightarrow> u64" where
  "ShardedTotalCharge c = fold (\<lambda>s total. total + LRUTotalCharge s) (sc_shard c) 0"


section \<open>The invariant of a shard\<close>

text \<open>
  The entries that the cache refers to, the handles given out for an entry, and what is stored for it.
\<close>

definition in_cache_set :: "'v LRUCache \<Rightarrow> nat set" where
  "in_cache_set s = {a. \<exists>e. lru_heap s a = Some e \<and> lh_in_cache e}"

definition shard_held :: "'v LRUCache \<Rightarrow> nat \<Rightarrow> nat" where
  "shard_held s a =
     (case lru_heap s a of None \<Rightarrow> 0 | Some e \<Rightarrow> unat (lh_refs e) - (if lh_in_cache e then 1 else 0))"

definition entry_info :: "'v LRUCache \<Rightarrow> nat \<Rightarrow> ('v \<times> bytes \<times> u32 \<times> u64) option" where
  "entry_info s a = map_option (\<lambda>e. (lh_value e, lh_key e, lh_hash e, lh_charge e)) (lru_heap s a)"

definition info_charge :: "('v \<times> bytes \<times> u32 \<times> u64) option \<Rightarrow> u64" where
  "info_charge i = (case i of None \<Rightarrow> 0 | Some (_, _, _, c) \<Rightarrow> c)"

text \<open>
  Every entry of the cache is on exactly one list, the unused ones, with one reference, on \<open>lru_\<close>; the
  table holds them all, but for those in \<open>X\<close>, which are about to be removed; and \<open>usage_\<close> is the sum
  of their charges.
\<close>

definition shard_inv_but :: "nat set \<Rightarrow> 'v LRUCache \<Rightarrow> bool" where
  "shard_inv_but X s \<longleftrightarrow>
     distinct (lru_lru s @ lru_in_use s) \<and> set (lru_lru s @ lru_in_use s) = in_cache_set s
     \<and> table_ok (lru_heap s) (lru_table s) \<and> table_entries (lru_table s) = in_cache_set s - X
     \<and> (\<forall>a e. lru_heap s a = Some e \<longrightarrow> a < lru_next s \<and> lh_refs e \<noteq> 0
          \<and> (lh_in_cache e \<longrightarrow> (a \<in> set (lru_lru s) \<longleftrightarrow> lh_refs e = 1)))
     \<and> lru_usage s = (\<Sum>a \<in> in_cache_set s. info_charge (entry_info s a))"

abbreviation shard_inv :: "'v LRUCache \<Rightarrow> bool" where
  "shard_inv \<equiv> shard_inv_but {}"

definition shard_cached :: "'v LRUCache \<Rightarrow> bytes \<Rightarrow> u32 \<Rightarrow> 'v \<Rightarrow> bool" where
  "shard_cached s key hash v \<longleftrightarrow> (\<exists>a \<in> in_cache_set s. \<exists>c. entry_info s a = Some (v, key, hash, c))"

lemma in_cache_set_finite: "shard_inv_but X s \<Longrightarrow> finite (in_cache_set s)"
  unfolding shard_inv_but_def by (metis List.finite_set)

lemma same_key_info: "entry_info s' a = entry_info s a \<Longrightarrow> lru_heap s a \<noteq> None \<Longrightarrow> same_key (lru_heap s) (lru_heap s') a"
  by (auto simp: entry_info_def same_key_def)

lemma set_entry_simps [simp]:
  "lru_heap (set_entry a e s) = (lru_heap s)(a \<mapsto> e)" "lru_lru (set_entry a e s) = lru_lru s"
  "lru_in_use (set_entry a e s) = lru_in_use s" "lru_table (set_entry a e s) = lru_table s"
  "lru_usage (set_entry a e s) = lru_usage s" "lru_capacity (set_entry a e s) = lru_capacity s"
  "lru_next (set_entry a e s) = lru_next s" "lru_deleted (set_entry a e s) = lru_deleted s"
  by (simp_all add: set_entry_def)

lemma lru_list_simps [simp]:
  "lru_heap (LRU_Remove a s) = lru_heap s" "lru_table (LRU_Remove a s) = lru_table s"
  "lru_usage (LRU_Remove a s) = lru_usage s" "lru_capacity (LRU_Remove a s) = lru_capacity s"
  "lru_next (LRU_Remove a s) = lru_next s" "lru_deleted (LRU_Remove a s) = lru_deleted s"
  "lru_lru (LRU_Remove a s) = remove1 a (lru_lru s)" "lru_in_use (LRU_Remove a s) = remove1 a (lru_in_use s)"
  "lru_heap (Append_in_use a s) = lru_heap s" "lru_table (Append_in_use a s) = lru_table s"
  "lru_usage (Append_in_use a s) = lru_usage s" "lru_capacity (Append_in_use a s) = lru_capacity s"
  "lru_next (Append_in_use a s) = lru_next s" "lru_deleted (Append_in_use a s) = lru_deleted s"
  "lru_lru (Append_in_use a s) = lru_lru s" "lru_in_use (Append_in_use a s) = lru_in_use s @ [a]"
  "lru_heap (Append_lru a s) = lru_heap s" "lru_table (Append_lru a s) = lru_table s"
  "lru_usage (Append_lru a s) = lru_usage s" "lru_capacity (Append_lru a s) = lru_capacity s"
  "lru_next (Append_lru a s) = lru_next s" "lru_deleted (Append_lru a s) = lru_deleted s"
  "lru_lru (Append_lru a s) = lru_lru s @ [a]" "lru_in_use (Append_lru a s) = lru_in_use s"
  by (simp_all add: LRU_Remove_def Append_in_use_def Append_lru_def)

text \<open>
  One lemma for every step that changes an entry of the cache in its reference count only: the
  invariant follows from the lists.
\<close>

lemma shard_inv_refs:
  assumes inv: "shard_inv_but X s" and a: "lru_heap s a = Some e"
    and heap: "lru_heap s' = (lru_heap s)(a \<mapsto> e\<lparr>lh_refs := n\<rparr>)" and n: "n \<noteq> 0"
    and rest: "lru_table s' = lru_table s" "lru_usage s' = lru_usage s" "lru_next s' = lru_next s"
    and lists: "distinct (lru_lru s' @ lru_in_use s')" "set (lru_lru s' @ lru_in_use s') = set (lru_lru s @ lru_in_use s)"
    and on: "lh_in_cache e \<longrightarrow> (a \<in> set (lru_lru s') \<longleftrightarrow> n = 1)"
      "\<And>b. b \<noteq> a \<Longrightarrow> b \<in> set (lru_lru s') \<longleftrightarrow> b \<in> set (lru_lru s)"
  shows "shard_inv_but X s' \<and> in_cache_set s' = in_cache_set s \<and> entry_info s' = entry_info s
    \<and> shard_held s' = (shard_held s)(a := unat n - (if lh_in_cache e then 1 else 0))"
proof -
  have c: "in_cache_set s' = in_cache_set s" using a by (auto simp: in_cache_set_def heap)
  have i: "entry_info s' = entry_info s" using a by (auto simp: entry_info_def heap)
  have h: "shard_held s' = (shard_held s)(a := unat n - (if lh_in_cache e then 1 else 0))"
    by (auto simp: shard_held_def heap)
  have "table_ok (lru_heap s') (lru_table s)"
  proof (rule table_ok_cong)
    show "table_ok (lru_heap s) (lru_table s)" using inv by (simp add: shard_inv_but_def)
    fix b assume "b \<in> table_entries (lru_table s)"
    then have "lru_heap s b \<noteq> None" using inv by (auto simp: shard_inv_but_def in_cache_set_def)
    then show "same_key (lru_heap s) (lru_heap s') b" by (rule same_key_info [rotated]) (simp add: i)
  qed
  moreover have "\<forall>b e'. lru_heap s' b = Some e' \<longrightarrow> b < lru_next s' \<and> lh_refs e' \<noteq> 0
      \<and> (lh_in_cache e' \<longrightarrow> (b \<in> set (lru_lru s') \<longleftrightarrow> lh_refs e' = 1))"
  proof (intro allI impI)
    fix b e' assume b: "lru_heap s' b = Some e'"
    show "b < lru_next s' \<and> lh_refs e' \<noteq> 0 \<and> (lh_in_cache e' \<longrightarrow> (b \<in> set (lru_lru s') \<longleftrightarrow> lh_refs e' = 1))"
    proof (cases "b = a")
      case True
      then show ?thesis using b inv a n on(1) rest(3) by (auto simp: heap shard_inv_but_def)
    next
      case False
      then show ?thesis using b inv on(2) [OF False] rest(3) by (auto simp: heap shard_inv_but_def)
    qed
  qed
  ultimately show ?thesis using inv c i h rest lists by (simp add: shard_inv_but_def)
qed


lemma word_pred_ne: "(x :: u32) \<noteq> 0 \<Longrightarrow> x \<noteq> 1 \<Longrightarrow> x - 1 \<noteq> 0"
  by (metis eq_iff_diff_eq_0)

lemma unat_pred: "(x :: u32) \<noteq> 0 \<Longrightarrow> unat (x - 1) = unat x - 1"
  by (rule unat_minus_one)

lemma Ref_inv:
  assumes inv: "shard_inv s" and a: "lru_heap s a = Some e" "lh_in_cache e" and few: "unat (lh_refs e) < 2 ^ 32 - 1"
  shows "\<exists>s'. Ref a s = Some s' \<and> shard_inv s' \<and> in_cache_set s' = in_cache_set s \<and> entry_info s' = entry_info s
    \<and> shard_held s' = (shard_held s)(a := Suc (shard_held s a)) \<and> lru_capacity s' = lru_capacity s \<and> lru_deleted s' = lru_deleted s"
proof -
  define s' where "s' = set_entry a (e\<lparr>lh_refs := lh_refs e + 1\<rparr>) (if lh_refs e = 1 then Append_in_use a (LRU_Remove a s) else s)"
  have e: "lh_refs e \<noteq> 0" "a \<in> set (lru_lru s) \<longleftrightarrow> lh_refs e = 1" "distinct (lru_lru s @ lru_in_use s)"
    "a \<in> set (lru_lru s @ lru_in_use s)"
    using inv a by (auto simp: shard_inv_but_def in_cache_set_def)
  have u: "unat (lh_refs e + 1) = Suc (unat (lh_refs e))" using few by (simp add: unat_word_ariths)
  have ne: "lh_refs e + 1 \<noteq> 0" "lh_refs e + 1 \<noteq> 1" using u e(1) by (metis unat_0 nat.distinct(1), simp)
  have "shard_inv_but {} s' \<and> in_cache_set s' = in_cache_set s \<and> entry_info s' = entry_info s
    \<and> shard_held s' = (shard_held s)(a := unat (lh_refs e + 1) - (if lh_in_cache e then 1 else 0))"
    by (rule shard_inv_refs [OF inv a(1)]) (use e ne in \<open>auto simp: s'_def\<close>)
  moreover have "Ref a s = Some s'" using a by (simp add: Ref_def s'_def Let_def)
  moreover have "shard_held s a = unat (lh_refs e) - 1" "unat (lh_refs e) \<noteq> 0" using a e(1) by (simp_all add: shard_held_def unat_eq_0)
  ultimately show ?thesis using a(2) u by (auto simp: s'_def)
qed

text \<open>Dropping a handle frees the entry exactly when the cache does not refer to it and no other handle is left.\<close>

lemma Unref_inv:
  assumes inv: "shard_inv s" and h: "0 < shard_held s a"
  shows "\<exists>s'. Unref a s = Some s' \<and> shard_inv s' \<and> in_cache_set s' = in_cache_set s
    \<and> shard_held s' = (shard_held s)(a := shard_held s a - 1) \<and> lru_capacity s' = lru_capacity s
    \<and> lru_next s' = lru_next s \<and> lru_usage s' = lru_usage s \<and> (a \<notin> in_cache_set s \<longrightarrow> lru_lru s' = lru_lru s)
    \<and> (\<forall>b. b \<noteq> a \<or> 0 < shard_held s' a \<or> a \<in> in_cache_set s \<longrightarrow> entry_info s' b = entry_info s b)"
proof -
  obtain e where e: "lru_heap s a = Some e" using h by (auto simp: shard_held_def split: option.splits)
  have r: "lh_refs e \<noteq> 0" "lh_in_cache e \<longrightarrow> (a \<in> set (lru_lru s) \<longleftrightarrow> lh_refs e = 1)" "distinct (lru_lru s @ lru_in_use s)"
    "set (lru_lru s @ lru_in_use s) = in_cache_set s"
    using inv e by (auto simp: shard_inv_but_def)
  have held: "shard_held s a = unat (lh_refs e) - (if lh_in_cache e then 1 else 0)" by (simp add: shard_held_def e)
  show ?thesis
  proof (cases "lh_refs e = 1")
    case True
    then have nc: "\<not> lh_in_cache e" using h held by (auto split: if_splits)
    define s' where "s' = s\<lparr>lru_heap := (lru_heap s)(a := None), lru_deleted := lru_deleted s @ [(lh_key e, lh_value e)]\<rparr>"
    have c: "in_cache_set s' = in_cache_set s" "a \<notin> in_cache_set s" using e nc by (auto simp: s'_def in_cache_set_def)
    have i: "entry_info s' b = entry_info s b" if "b \<noteq> a" for b using that by (simp add: entry_info_def s'_def)
    have "table_ok (lru_heap s') (lru_table s)"
    proof (rule table_ok_cong)
      show "table_ok (lru_heap s) (lru_table s)" using inv by (simp add: shard_inv_but_def)
      fix b assume "b \<in> table_entries (lru_table s)"
      then have b: "b \<in> in_cache_set s" using inv by (simp add: shard_inv_but_def)
      then have "b \<noteq> a" "lru_heap s b \<noteq> None" using c(2) by (auto simp: in_cache_set_def)
      then show "same_key (lru_heap s) (lru_heap s') b" by (rule same_key_info [OF i])
    qed
    moreover have "(\<Sum>b \<in> in_cache_set s. info_charge (entry_info s' b)) = (\<Sum>b \<in> in_cache_set s. info_charge (entry_info s b))"
    proof (rule sum.cong [OF refl])
      fix b assume "b \<in> in_cache_set s"
      then have "b \<noteq> a" using c(2) by blast
      then show "info_charge (entry_info s' b) = info_charge (entry_info s b)" by (simp add: i)
    qed
    ultimately have "shard_inv s'" using inv c by (auto simp: shard_inv_but_def s'_def split: if_splits)
    moreover have "Unref a s = Some s'" using e True nc by (simp add: Unref_def s'_def Let_def)
    moreover have "shard_held s' = (shard_held s)(a := shard_held s a - 1)" using True nc held by (auto simp: shard_held_def s'_def)
    ultimately show ?thesis using c i held True nc by (auto simp: s'_def)
  next
    case False
    define e' where "e' = e\<lparr>lh_refs := lh_refs e - 1\<rparr>"
    define s' where "s' = (if lh_in_cache e \<and> lh_refs e - 1 = 1 then Append_lru a (LRU_Remove a (set_entry a e' s)) else set_entry a e' s)"
    have ne: "lh_refs e - 1 \<noteq> 0" by (rule word_pred_ne [OF r(1) False])
    have ina: "lh_in_cache e \<longrightarrow> a \<in> set (lru_in_use s) \<and> a \<notin> set (lru_lru s)"
      using r(2-4) e False by (auto simp: in_cache_set_def)
    have "shard_inv_but {} s' \<and> in_cache_set s' = in_cache_set s \<and> entry_info s' = entry_info s
      \<and> shard_held s' = (shard_held s)(a := unat (lh_refs e - 1) - (if lh_in_cache e then 1 else 0))"
      by (rule shard_inv_refs [OF inv e]) (use r(3) ne ina in \<open>auto simp: s'_def e'_def remove1_idem\<close>)
    moreover have "Unref a s = Some s'" using e r(1) ne by (simp add: Unref_def s'_def e'_def Let_def)
    moreover have "a \<notin> in_cache_set s \<Longrightarrow> \<not> lh_in_cache e" using e by (auto simp: in_cache_set_def)
    ultimately show ?thesis using held unat_pred [OF r(1)] by (auto simp: s'_def)
  qed
qed


lemma FinishErase_inv:
  assumes inv: "shard_inv_but {a} s" and a: "a \<in> in_cache_set s"
  shows "\<exists>s'. FinishErase (Some a) s = Some s' \<and> shard_inv s' \<and> in_cache_set s' = in_cache_set s - {a}
    \<and> shard_held s' = shard_held s \<and> lru_capacity s' = lru_capacity s \<and> lru_next s' = lru_next s
    \<and> lru_usage s' = lru_usage s - info_charge (entry_info s a)
    \<and> lru_lru s' = remove1 a (lru_lru s)
    \<and> (\<forall>b. b \<noteq> a \<or> 0 < shard_held s a \<longrightarrow> entry_info s' b = entry_info s b)"
proof -
  obtain e where e: "lru_heap s a = Some e" "lh_in_cache e" using a by (auto simp: in_cache_set_def)
  define s1 where "s1 = (set_entry a (e\<lparr>lh_in_cache := False\<rparr>) (LRU_Remove a s))\<lparr>lru_usage := lru_usage s - lh_charge e\<rparr>"
  have heap: "lru_heap s1 = (lru_heap s)(a \<mapsto> e\<lparr>lh_in_cache := False\<rparr>)" by (simp add: s1_def)
  have r: "lh_refs e \<noteq> 0" "distinct (lru_lru s @ lru_in_use s)" "set (lru_lru s @ lru_in_use s) = in_cache_set s"
    using inv e by (auto simp: shard_inv_but_def)
  have c: "in_cache_set s1 = in_cache_set s - {a}" by (auto simp: in_cache_set_def heap)
  have i: "entry_info s1 = entry_info s" using e by (auto simp: entry_info_def heap)
  have "table_ok (lru_heap s1) (lru_table s1)"
  proof (rule table_ok_cong)
    show "table_ok (lru_heap s) (lru_table s1)" using inv by (simp add: shard_inv_but_def s1_def)
    fix b assume "b \<in> table_entries (lru_table s1)"
    then have "lru_heap s b \<noteq> None" using inv by (auto simp: shard_inv_but_def in_cache_set_def s1_def)
    then show "same_key (lru_heap s) (lru_heap s1) b" by (rule same_key_info [rotated]) (simp add: i)
  qed
  moreover have "lru_usage s1 = (\<Sum>b \<in> in_cache_set s1. info_charge (entry_info s1 b))"
  proof -
    have "(\<Sum>b \<in> in_cache_set s. info_charge (entry_info s b))
        = info_charge (entry_info s a) + (\<Sum>b \<in> in_cache_set s - {a}. info_charge (entry_info s b))"
      by (rule sum.remove [OF in_cache_set_finite [OF inv] a])
    moreover have "info_charge (entry_info s a) = lh_charge e" by (simp add: info_charge_def entry_info_def e)
    moreover have "lru_usage s = (\<Sum>b \<in> in_cache_set s. info_charge (entry_info s b))" using inv by (simp add: shard_inv_but_def)
    moreover have "lru_usage s1 = lru_usage s - lh_charge e" by (simp add: s1_def)
    ultimately show ?thesis unfolding i c by simp
  qed
  moreover have "distinct (lru_lru s1 @ lru_in_use s1)" "set (lru_lru s1 @ lru_in_use s1) = in_cache_set s1"
    using r(2,3) c by (auto simp: s1_def distinct_remove1 dest: notin_set_remove1)
  moreover have "table_entries (lru_table s1) = in_cache_set s1 - {}" using inv c by (simp add: s1_def shard_inv_but_def)
  moreover have "\<forall>b e'. lru_heap s1 b = Some e' \<longrightarrow> b < lru_next s1 \<and> lh_refs e' \<noteq> 0
      \<and> (lh_in_cache e' \<longrightarrow> (b \<in> set (lru_lru s1) \<longleftrightarrow> lh_refs e' = 1))"
  proof (intro allI impI)
    fix b e' assume b: "lru_heap s1 b = Some e'"
    show "b < lru_next s1 \<and> lh_refs e' \<noteq> 0 \<and> (lh_in_cache e' \<longrightarrow> (b \<in> set (lru_lru s1) \<longleftrightarrow> lh_refs e' = 1))"
    proof (cases "b = a")
      case True
      then show ?thesis using b inv e r(1) by (auto simp: heap shard_inv_but_def s1_def)
    next
      case False
      then have "b \<in> set (remove1 a (lru_lru s)) \<longleftrightarrow> b \<in> set (lru_lru s)" by (rule in_set_remove1)
      then show ?thesis using b inv False by (auto simp: heap shard_inv_but_def s1_def)
    qed
  qed
  ultimately have inv1: "shard_inv s1" by (simp add: shard_inv_but_def)
  have h1: "shard_held s1 = (shard_held s)(a := unat (lh_refs e))" by (auto simp: shard_held_def heap)
  then have "0 < shard_held s1 a" using r(1) by (simp add: unat_gt_0)
  from Unref_inv [OF inv1 this] obtain s' where s': "Unref a s1 = Some s'" "shard_inv s'" "in_cache_set s' = in_cache_set s1"
    "shard_held s' = (shard_held s1)(a := shard_held s1 a - 1)" "lru_capacity s' = lru_capacity s1" "lru_next s' = lru_next s1"
    "lru_usage s' = lru_usage s1" "a \<notin> in_cache_set s1 \<longrightarrow> lru_lru s' = lru_lru s1"
    "\<forall>b. b \<noteq> a \<or> 0 < shard_held s' a \<or> a \<in> in_cache_set s1 \<longrightarrow> entry_info s' b = entry_info s1 b" by blast
  have held: "shard_held s a = unat (lh_refs e) - 1" using e by (simp add: shard_held_def)
  then have held': "shard_held s' = shard_held s" using s'(4) h1 by auto
  have "FinishErase (Some a) s = Some s'" using e s'(1) by (simp add: FinishErase_def s1_def Let_def)
  moreover have "lru_usage s1 = lru_usage s - info_charge (entry_info s a)" "lru_capacity s1 = lru_capacity s"
    "lru_next s1 = lru_next s" "lru_lru s1 = remove1 a (lru_lru s)"
    by (simp_all add: s1_def info_charge_def entry_info_def e)
  moreover have "\<forall>b. b \<noteq> a \<or> 0 < shard_held s a \<longrightarrow> entry_info s' b = entry_info s b"
    using s'(9) i held' by metis
  moreover have "lru_lru s' = lru_lru s1" using s'(8) c by simp
  ultimately show ?thesis using s'(2,3,5,6,7) c held' by simp
qed


lemma remove_inv:
  assumes inv: "shard_inv s"
  shows "\<exists>r t. HandleTableRemove (lru_heap s) key hash (lru_table s) = Some (r, t) \<and> found (lru_heap s) key hash (lru_table s) r
    \<and> shard_inv_but (set_option r) (s\<lparr>lru_table := t\<rparr>)"
proof -
  obtain r t where t: "HandleTableRemove (lru_heap s) key hash (lru_table s) = Some (r, t)"
    "found (lru_heap s) key hash (lru_table s) r" "table_ok (lru_heap s) t" "table_entries t = table_entries (lru_table s) - set_option r"
    using HandleTableRemove_spec [of "lru_heap s" "lru_table s" key hash] inv by (auto simp: shard_inv_but_def)
  have "in_cache_set (s\<lparr>lru_table := t\<rparr>) = in_cache_set s" "entry_info (s\<lparr>lru_table := t\<rparr>) = entry_info s"
    by (simp_all add: in_cache_set_def entry_info_def fun_eq_iff)
  then have "shard_inv_but (set_option r) (s\<lparr>lru_table := t\<rparr>)" using inv t(3,4) by (simp add: shard_inv_but_def)
  with t show ?thesis by blast
qed

lemma shard_table_simps [simp]:
  "in_cache_set (s\<lparr>lru_table := t\<rparr>) = in_cache_set s" "entry_info (s\<lparr>lru_table := t\<rparr>) = entry_info s"
  "shard_held (s\<lparr>lru_table := t\<rparr>) = shard_held s"
  by (simp_all add: in_cache_set_def entry_info_def shard_held_def fun_eq_iff)

lemma found_in_cache:
  assumes "shard_inv s" "found (lru_heap s) key hash (lru_table s) r"
  shows "r = Some a \<longleftrightarrow> a \<in> in_cache_set s \<and> matches (lru_heap s) key hash a"
  using assms by (simp add: found_def shard_inv_but_def)

lemma evict_oldest_inv:
  assumes inv: "shard_inv s" and old: "lru_lru s = old # rest"
  shows "\<exists>s'. evict_oldest old s = Some s' \<and> shard_inv s' \<and> in_cache_set s' = in_cache_set s - {old}
    \<and> shard_held s' = shard_held s \<and> lru_capacity s' = lru_capacity s \<and> lru_next s' = lru_next s \<and> lru_lru s' = rest
    \<and> shard_held s old = 0 \<and> (\<forall>b. b \<noteq> old \<longrightarrow> entry_info s' b = entry_info s b)"
proof -
  have "old \<in> in_cache_set s" using inv old by (auto simp: shard_inv_but_def)
  then obtain e where e: "lru_heap s old = Some e" "lh_in_cache e" by (auto simp: in_cache_set_def)
  have r1: "lh_refs e = 1" using inv e old by (auto simp: shard_inv_but_def)
  obtain r t where t: "HandleTableRemove (lru_heap s) (lh_key e) (lh_hash e) (lru_table s) = Some (r, t)"
    "found (lru_heap s) (lh_key e) (lh_hash e) (lru_table s) r" "shard_inv_but (set_option r) (s\<lparr>lru_table := t\<rparr>)"
    using remove_inv [OF inv] by blast
  have r: "r = Some old" using found_in_cache [OF inv t(2)] \<open>old \<in> in_cache_set s\<close> e by (auto simp: matches_def)
  with t(3) have "shard_inv_but {old} (s\<lparr>lru_table := t\<rparr>)" "old \<in> in_cache_set (s\<lparr>lru_table := t\<rparr>)"
    using \<open>old \<in> in_cache_set s\<close> by simp_all
  from FinishErase_inv [OF this] obtain s' where s': "FinishErase (Some old) (s\<lparr>lru_table := t\<rparr>) = Some s'" "shard_inv s'"
    "in_cache_set s' = in_cache_set s - {old}" "shard_held s' = shard_held s" "lru_capacity s' = lru_capacity s" "lru_next s' = lru_next s"
    "lru_lru s' = remove1 old (lru_lru s)" "\<forall>b. b \<noteq> old \<longrightarrow> entry_info s' b = entry_info s b"
    by auto
  have "evict_oldest old s = Some s'" using e r1 t(1) r s'(1) by (simp add: evict_oldest_def)
  moreover have "shard_held s old = 0" using e r1 by (simp add: shard_held_def)
  ultimately show ?thesis using s' old by auto
qed

lemma evict_loop_inv:
  assumes "shard_inv s" "length (lru_lru s) < fuel"
  shows "\<exists>s'. evict_loop fuel full s = Some s' \<and> shard_inv s' \<and> in_cache_set s' \<subseteq> in_cache_set s
    \<and> shard_held s' = shard_held s \<and> lru_capacity s' = lru_capacity s \<and> lru_next s' = lru_next s
    \<and> (lru_lru s' = [] \<or> \<not> full (lru_usage s') (lru_capacity s'))
    \<and> (\<forall>b. 0 < shard_held s b \<longrightarrow> (b \<in> in_cache_set s' \<longleftrightarrow> b \<in> in_cache_set s))
    \<and> (\<forall>b. b \<in> in_cache_set s' \<or> 0 < shard_held s b \<longrightarrow> entry_info s' b = entry_info s b)"
  using assms
proof (induction fuel arbitrary: s)
  case (Suc fuel)
  show ?case
  proof (cases "\<exists>old rest. lru_lru s = old # rest \<and> full (lru_usage s) (lru_capacity s)")
    case True
    then obtain old rest where old: "lru_lru s = old # rest" "full (lru_usage s) (lru_capacity s)" by blast
    from evict_oldest_inv [OF Suc.prems(1) old(1)] obtain s1 where s1: "evict_oldest old s = Some s1" "shard_inv s1"
      "in_cache_set s1 = in_cache_set s - {old}" "shard_held s1 = shard_held s" "lru_capacity s1 = lru_capacity s" "lru_next s1 = lru_next s"
      "lru_lru s1 = rest" "shard_held s old = 0" "\<forall>b. b \<noteq> old \<longrightarrow> entry_info s1 b = entry_info s b" by blast
    have "length (lru_lru s1) < fuel" using Suc.prems(2) s1(7) old(1) by simp
    from Suc.IH [OF s1(2) this] obtain s' where s': "evict_loop fuel full s1 = Some s'" "shard_inv s'" "in_cache_set s' \<subseteq> in_cache_set s1"
      "shard_held s' = shard_held s1" "lru_capacity s' = lru_capacity s1" "lru_next s' = lru_next s1"
      "lru_lru s' = [] \<or> \<not> full (lru_usage s') (lru_capacity s')"
      "\<forall>b. 0 < shard_held s1 b \<longrightarrow> (b \<in> in_cache_set s' \<longleftrightarrow> b \<in> in_cache_set s1)"
      "\<forall>b. b \<in> in_cache_set s' \<or> 0 < shard_held s1 b \<longrightarrow> entry_info s' b = entry_info s1 b" by blast
    have "entry_info s' b = entry_info s b" if "b \<in> in_cache_set s' \<or> 0 < shard_held s b" for b
    proof -
      have "b \<noteq> old" using that s'(3) s1(3,8) by auto
      moreover have "entry_info s' b = entry_info s1 b" using that s'(9) s1(4) by auto
      ultimately show ?thesis using s1(9) by simp
    qed
    moreover have "b \<in> in_cache_set s' \<longleftrightarrow> b \<in> in_cache_set s" if "0 < shard_held s b" for b
      using that s'(8) s1(3,4,8) by auto
    ultimately show ?thesis using old s1 s' by auto
  next
    case False
    then have "evict_loop (Suc fuel) full s = Some s" by (auto split: list.split)
    then show ?thesis using Suc.prems(1) False by (auto simp: neq_Nil_conv)
  qed
qed simp


section \<open>The operations of a shard\<close>

definition shard_room :: "'v LRUCache \<Rightarrow> bool" where
  "shard_room s \<longleftrightarrow> card (in_cache_set s) < 2 ^ 31 \<and> (\<forall>a e. lru_heap s a = Some e \<longrightarrow> unat (lh_refs e) < 2 ^ 32 - 1)"

lemma matches_info: "matches (lru_heap s) key hash a \<longleftrightarrow> (\<exists>v c. entry_info s a = Some (v, key, hash, c))"
  by (auto simp: matches_def entry_info_def)

lemma LRUValue_info: "LRUValue a s = map_option fst (entry_info s a)"
  by (simp add: LRUValue_def entry_info_def option.map_comp comp_def)

lemma LRULookup_inv:
  assumes inv: "shard_inv s" and room: "shard_room s"
  shows "\<exists>r s'. LRULookup key hash s = Some (r, s') \<and> shard_inv s' \<and> in_cache_set s' = in_cache_set s \<and> entry_info s' = entry_info s
    \<and> lru_capacity s' = lru_capacity s
    \<and> (case r of
         None \<Rightarrow> s' = s \<and> (\<forall>v. \<not> shard_cached s key hash v)
       | Some a \<Rightarrow> shard_held s' = (shard_held s)(a := Suc (shard_held s a))
           \<and> (\<exists>v. LRUValue a s' = Some v \<and> shard_cached s key hash v))"
proof -
  obtain r where r: "HandleTableLookup (lru_heap s) key hash (lru_table s) = Some r" "found (lru_heap s) key hash (lru_table s) r"
    using HandleTableLookup_spec [of "lru_heap s" "lru_table s" key hash] inv by (auto simp: shard_inv_but_def)
  note f = found_in_cache [OF inv r(2)]
  show ?thesis
  proof (cases r)
    case None
    then have "\<forall>v. \<not> shard_cached s key hash v" using f by (auto simp: shard_cached_def matches_info)
    then show ?thesis using None r(1) inv by (intro exI [of _ None] exI [of _ s]) (simp add: LRULookup_def)
  next
    case (Some a)
    then have a: "a \<in> in_cache_set s" "matches (lru_heap s) key hash a" using f by auto
    then obtain e where e: "lru_heap s a = Some e" "lh_in_cache e" by (auto simp: in_cache_set_def)
    have "unat (lh_refs e) < 2 ^ 32 - 1" using room e(1) by (simp only: shard_room_def)
    from Ref_inv [OF inv e this] obtain s' where s': "Ref a s = Some s'" "shard_inv s'" "in_cache_set s' = in_cache_set s"
      "entry_info s' = entry_info s" "shard_held s' = (shard_held s)(a := Suc (shard_held s a))" "lru_capacity s' = lru_capacity s" by blast
    from a(2) obtain v c where "entry_info s a = Some (v, key, hash, c)" by (auto simp: matches_info)
    then have "LRUValue a s' = Some v \<and> shard_cached s key hash v" using a(1) s'(4) by (auto simp: LRUValue_info shard_cached_def)
    moreover have "LRULookup key hash s = Some (Some a, s')" using r(1) Some s'(1) by (simp add: LRULookup_def)
    ultimately show ?thesis using s' by auto
  qed
qed

lemma LRUErase_inv:
  assumes inv: "shard_inv s"
  shows "\<exists>s'. LRUErase key hash s = Some s' \<and> shard_inv s' \<and> shard_held s' = shard_held s
    \<and> in_cache_set s' \<subseteq> in_cache_set s
    \<and> (\<forall>k h v. shard_cached s' k h v \<longleftrightarrow> shard_cached s k h v \<and> (k, h) \<noteq> (key, hash))
    \<and> (\<forall>b. b \<in> in_cache_set s' \<or> 0 < shard_held s b \<longrightarrow> entry_info s' b = entry_info s b)"
proof -
  obtain r t where t: "HandleTableRemove (lru_heap s) key hash (lru_table s) = Some (r, t)"
    "found (lru_heap s) key hash (lru_table s) r" "shard_inv_but (set_option r) (s\<lparr>lru_table := t\<rparr>)"
    using remove_inv [OF inv] by blast
  note f = found_in_cache [OF inv t(2)]
  show ?thesis
  proof (cases r)
    case None
    then have "\<not> shard_cached s key hash v" for v using f by (auto simp: shard_cached_def matches_info)
    moreover have "shard_cached (s\<lparr>lru_table := t\<rparr>) = shard_cached s" by (simp add: shard_cached_def fun_eq_iff)
    ultimately show ?thesis using t None by (intro exI [of _ "s\<lparr>lru_table := t\<rparr>"]) (auto simp: LRUErase_def FinishErase_def)
  next
    case (Some a)
    then have a: "a \<in> in_cache_set s" "matches (lru_heap s) key hash a" using f by auto
    have "shard_inv_but {a} (s\<lparr>lru_table := t\<rparr>)" "a \<in> in_cache_set (s\<lparr>lru_table := t\<rparr>)" using t(3) Some a(1) by simp_all
    from FinishErase_inv [OF this] obtain s' where s': "FinishErase (Some a) (s\<lparr>lru_table := t\<rparr>) = Some s'" "shard_inv s'"
      "in_cache_set s' = in_cache_set s - {a}" "shard_held s' = shard_held s"
      "\<forall>b. b \<noteq> a \<or> 0 < shard_held s a \<longrightarrow> entry_info s' b = entry_info s b" by auto
    have "shard_cached s' k h v \<longleftrightarrow> shard_cached s k h v \<and> (k, h) \<noteq> (key, hash)" for k h v
    proof
      assume "shard_cached s' k h v"
      then obtain b c where b: "b \<in> in_cache_set s" "b \<noteq> a" "entry_info s' b = Some (v, k, h, c)" using s'(3) by (auto simp: shard_cached_def)
      then have i: "entry_info s b = Some (v, k, h, c)" using s'(5) by simp
      moreover have "(k, h) \<noteq> (key, hash)" using f [of b] b(1,2) i Some by (auto simp: matches_info)
      ultimately show "shard_cached s k h v \<and> (k, h) \<noteq> (key, hash)" using b(1) by (auto simp: shard_cached_def)
    next
      assume *: "shard_cached s k h v \<and> (k, h) \<noteq> (key, hash)"
      then obtain b c where b: "b \<in> in_cache_set s" "entry_info s b = Some (v, k, h, c)" by (auto simp: shard_cached_def)
      then have "b \<noteq> a" using * a(2) by (auto simp: matches_info)
      then have "b \<in> in_cache_set s'" "entry_info s' b = Some (v, k, h, c)" using s'(3,5) b by auto
      then show "shard_cached s' k h v" by (auto simp: shard_cached_def)
    qed
    moreover have "entry_info s' b = entry_info s b" if "b \<in> in_cache_set s' \<or> 0 < shard_held s b" for b
      using s'(3,5) that by (cases "b = a") auto
    ultimately show ?thesis using s'(1-4) t(1) Some by (intro exI [of _ s']) (auto simp: LRUErase_def)
  qed
qed

lemma evicted_cached:
  assumes "in_cache_set s' \<subseteq> in_cache_set s" "\<forall>b. b \<in> in_cache_set s' \<or> P b \<longrightarrow> entry_info s' b = entry_info s b"
  shows "shard_cached s' k h v \<Longrightarrow> shard_cached s k h v"
proof -
  assume "shard_cached s' k h v"
  then obtain b c where "b \<in> in_cache_set s'" "entry_info s' b = Some (v, k, h, c)" by (auto simp: shard_cached_def)
  with assms have "b \<in> in_cache_set s" "entry_info s b = Some (v, k, h, c)" by auto
  then show ?thesis by (auto simp: shard_cached_def)
qed

lemma LRUPrune_inv:
  assumes "shard_inv s"
  shows "\<exists>s'. LRUPrune s = Some s' \<and> shard_inv s' \<and> shard_held s' = shard_held s \<and> lru_lru s' = []
    \<and> (\<forall>b. b \<in> in_cache_set s' \<or> 0 < shard_held s b \<longrightarrow> entry_info s' b = entry_info s b)
    \<and> (\<forall>k h v. shard_cached s' k h v \<longrightarrow> shard_cached s k h v)"
proof -
  obtain s' where s': "evict_loop (Suc (length (lru_lru s))) (\<lambda>_ _. True) s = Some s'" "shard_inv s'"
    "in_cache_set s' \<subseteq> in_cache_set s" "shard_held s' = shard_held s" "lru_lru s' = []"
    "\<forall>b. b \<in> in_cache_set s' \<or> 0 < shard_held s b \<longrightarrow> entry_info s' b = entry_info s b"
    using evict_loop_inv [OF assms lessI, of "\<lambda>_ _. True"] by auto
  then show ?thesis using evicted_cached [OF s'(3,6)] by (simp add: LRUPrune_def)
qed

text \<open>A new entry that the cache does not refer to, and the same entry taken into the cache.\<close>

lemma fresh_address: "shard_inv s \<Longrightarrow> lru_heap s (lru_next s) = None"
  by (cases "lru_heap s (lru_next s)") (auto simp: shard_inv_but_def)

lemma new_entry_inv:
  assumes inv: "shard_inv s" and a: "a = lru_next s" and e: "\<not> lh_in_cache e" "lh_refs e = 1"
  defines "s1 \<equiv> (set_entry a e s)\<lparr>lru_next := Suc a\<rparr>"
  shows "shard_inv s1" "in_cache_set s1 = in_cache_set s" "shard_held s1 = (shard_held s)(a := 1)" "shard_held s a = 0"
    "\<And>b. b \<noteq> a \<Longrightarrow> entry_info s1 b = entry_info s b"
proof -
  have none: "lru_heap s a = None" using fresh_address [OF inv] a by simp
  have heap: "lru_heap s1 = (lru_heap s)(a \<mapsto> e)" by (simp add: s1_def)
  show c: "in_cache_set s1 = in_cache_set s" using none e by (auto simp: in_cache_set_def heap)
  show "shard_held s1 = (shard_held s)(a := 1)" using e by (auto simp: shard_held_def heap)
  show "shard_held s a = 0" by (simp add: shard_held_def none)
  show i: "entry_info s1 b = entry_info s b" if "b \<noteq> a" for b using that by (simp add: entry_info_def heap)
  have nc: "a \<notin> in_cache_set s" using none by (simp add: in_cache_set_def)
  have "table_ok (lru_heap s1) (lru_table s)"
  proof (rule table_ok_cong)
    show "table_ok (lru_heap s) (lru_table s)" using inv by (simp add: shard_inv_but_def)
    fix b assume "b \<in> table_entries (lru_table s)"
    then have "b \<in> in_cache_set s" using inv by (simp add: shard_inv_but_def)
    then have "b \<noteq> a" "lru_heap s b \<noteq> None" using nc by (auto simp: in_cache_set_def)
    then show "same_key (lru_heap s) (lru_heap s1) b" by (rule same_key_info [OF i])
  qed
  moreover have "(\<Sum>b \<in> in_cache_set s. info_charge (entry_info s1 b)) = (\<Sum>b \<in> in_cache_set s. info_charge (entry_info s b))"
    by (rule sum.cong [OF refl], rule arg_cong [of _ _ info_charge], rule i) (use nc in blast)
  moreover have "\<forall>b e'. lru_heap s1 b = Some e' \<longrightarrow> b < lru_next s1 \<and> lh_refs e' \<noteq> 0
      \<and> (lh_in_cache e' \<longrightarrow> (b \<in> set (lru_lru s1) \<longleftrightarrow> lh_refs e' = 1))"
    using inv a e by (auto simp: heap s1_def shard_inv_but_def less_Suc_eq split: if_splits)
  ultimately show "shard_inv s1" using inv c by (simp add: shard_inv_but_def s1_def)
qed

lemma admit_inv:
  assumes inv: "shard_inv s" and a: "lru_heap s a = Some e" "\<not> lh_in_cache e" "lh_refs e = 1" and few: "card (in_cache_set s) < 2 ^ 31"
  defines "s2 \<equiv> (Append_in_use a (set_entry a (e\<lparr>lh_refs := lh_refs e + 1, lh_in_cache := True\<rparr>) s))\<lparr>lru_usage := lru_usage s + lh_charge e\<rparr>"
  shows "\<exists>old t. HandleTableInsert (lru_heap s2) a (lru_table s2) = Some (old, t)
    \<and> (\<forall>b. old = Some b \<longleftrightarrow> b \<in> in_cache_set s \<and> matches (lru_heap s) (lh_key e) (lh_hash e) b)
    \<and> shard_inv_but (set_option old) (s2\<lparr>lru_table := t\<rparr>)"
    "in_cache_set s2 = insert a (in_cache_set s)" "entry_info s2 = entry_info s" "shard_held s2 = shard_held s"
    "lru_capacity s2 = lru_capacity s" "a \<notin> in_cache_set s"
proof -
  have heap: "lru_heap s2 = (lru_heap s)(a \<mapsto> e\<lparr>lh_refs := lh_refs e + 1, lh_in_cache := True\<rparr>)" by (simp add: s2_def)
  show c: "in_cache_set s2 = insert a (in_cache_set s)" by (auto simp: in_cache_set_def heap)
  show i: "entry_info s2 = entry_info s" using a by (auto simp: entry_info_def heap)
  have two: "unat (lh_refs e + 1) = 2" using a(3) by simp
  show h: "shard_held s2 = shard_held s" using a two by (auto simp: shard_held_def heap)
  show "lru_capacity s2 = lru_capacity s" by (simp add: s2_def)
  show nc: "a \<notin> in_cache_set s" using a by (simp add: in_cache_set_def)
  have ent: "table_entries (lru_table s) = in_cache_set s" and lists: "distinct (lru_lru s @ lru_in_use s)"
    "set (lru_lru s @ lru_in_use s) = in_cache_set s" using inv by (simp_all add: shard_inv_but_def)
  have same: "same_key (lru_heap s) (lru_heap s2) b" if "b \<in> table_entries (lru_table s)" for b
    using that ent i by (intro same_key_info) (auto simp: in_cache_set_def)
  have ok: "table_ok (lru_heap s2) (lru_table s)"
    using inv by (intro table_ok_cong [OF _ same]) (simp add: shard_inv_but_def)
  have "lru_heap s2 a = Some (e\<lparr>lh_refs := lh_refs e + 1, lh_in_cache := True\<rparr>)" "a \<notin> table_entries (lru_table s)"
    "card (table_entries (lru_table s)) < 2 ^ 31" using few nc ent by (simp_all add: heap)
  from HandleTableInsert_spec [OF ok this] obtain old t where t: "HandleTableInsert (lru_heap s2) a (lru_table s) = Some (old, t)"
    "found (lru_heap s2) (lh_key e) (lh_hash e) (lru_table s) old" "table_ok (lru_heap s2) t"
    "table_entries t = insert a (table_entries (lru_table s) - set_option old)" by auto
  have f: "found (lru_heap s) (lh_key e) (lh_hash e) (lru_table s) old" using found_cong [OF same] t(2) by blast
  note f = found_in_cache [OF inv f]
  have "old \<noteq> Some a" using f nc by blast
  then have "table_entries t = in_cache_set s2 - set_option old" using t(4) ent c by (cases old) auto
  moreover have "lru_usage s2 = (\<Sum>b \<in> in_cache_set s2. info_charge (entry_info s2 b))"
  proof -
    have "info_charge (entry_info s a) = lh_charge e" by (simp add: info_charge_def entry_info_def a)
    then have "(\<Sum>b \<in> insert a (in_cache_set s). info_charge (entry_info s b)) = lh_charge e + (\<Sum>b \<in> in_cache_set s. info_charge (entry_info s b))"
      using nc in_cache_set_finite [OF inv] by simp
    moreover have "lru_usage s2 = lru_usage s + lh_charge e" by (simp add: s2_def)
    moreover have "lru_usage s = (\<Sum>b \<in> in_cache_set s. info_charge (entry_info s b))" using inv by (simp add: shard_inv_but_def)
    ultimately show ?thesis unfolding c i by simp
  qed
  moreover have "distinct (lru_lru s2 @ lru_in_use s2)" "set (lru_lru s2 @ lru_in_use s2) = in_cache_set s2"
    using lists nc c by (auto simp: s2_def)
  moreover have "\<forall>b e'. lru_heap s2 b = Some e' \<longrightarrow> b < lru_next s2 \<and> lh_refs e' \<noteq> 0
      \<and> (lh_in_cache e' \<longrightarrow> (b \<in> set (lru_lru s2) \<longleftrightarrow> lh_refs e' = 1))"
  proof (intro allI impI)
    fix b e' assume b: "lru_heap s2 b = Some e'"
    show "b < lru_next s2 \<and> lh_refs e' \<noteq> 0 \<and> (lh_in_cache e' \<longrightarrow> (b \<in> set (lru_lru s2) \<longleftrightarrow> lh_refs e' = 1))"
    proof (cases "b = a")
      case True
      have "a \<notin> set (lru_lru s2)" using lists nc by (auto simp: s2_def)
      moreover have "a < lru_next s2" using inv a(1) by (auto simp: s2_def shard_inv_but_def)
      ultimately show ?thesis using b True a(3) by (auto simp: heap)
    next
      case False
      then show ?thesis using b inv by (auto simp: heap shard_inv_but_def s2_def)
    qed
  qed
  ultimately have "shard_inv_but (set_option old) (s2\<lparr>lru_table := t\<rparr>)" using t(3) by (simp add: shard_inv_but_def)
  moreover have "lru_table s2 = lru_table s" by (simp add: s2_def)
  ultimately show "\<exists>old t. HandleTableInsert (lru_heap s2) a (lru_table s2) = Some (old, t)
    \<and> (\<forall>b. old = Some b \<longleftrightarrow> b \<in> in_cache_set s \<and> matches (lru_heap s) (lh_key e) (lh_hash e) b)
    \<and> shard_inv_but (set_option old) (s2\<lparr>lru_table := t\<rparr>)"
    using t(1) f by auto
qed


text \<open>The step of \<open>Insert\<close> before the eviction: the new entry is held once, and it replaces an entry of its key.\<close>

lemma FinishErase_None [simp]: "FinishErase None s = Some s"
  by (simp add: FinishErase_def)

lemma replace_inv:
  assumes inv: "shard_inv_but (set_option old) s" and old: "set_option old \<subseteq> in_cache_set s"
  shows "\<exists>s'. FinishErase old s = Some s' \<and> shard_inv s' \<and> in_cache_set s' = in_cache_set s - set_option old
    \<and> shard_held s' = shard_held s \<and> lru_capacity s' = lru_capacity s
    \<and> (\<forall>b. b \<notin> set_option old \<or> 0 < shard_held s b \<longrightarrow> entry_info s' b = entry_info s b)"
proof (cases old)
  case (Some a)
  then have "shard_inv_but {a} s" "a \<in> in_cache_set s" using assms by simp_all
  from FinishErase_inv [OF this] show ?thesis using Some by auto
qed (use inv in simp)

lemma admit_entry_inv:
  assumes inv: "shard_inv s" and a: "lru_heap s a = Some e" and e: "\<not> lh_in_cache e" "lh_refs e = 1"
    and few: "card (in_cache_set s) < 2 ^ 31"
  shows "\<exists>s'. admit_entry a e s = Some s' \<and> shard_inv s' \<and> shard_held s' = shard_held s \<and> lru_capacity s' = lru_capacity s
    \<and> entry_info s' a = entry_info s a \<and> (a \<in> in_cache_set s' \<longleftrightarrow> 0 < lru_capacity s)
    \<and> (\<forall>b \<in> in_cache_set s' - {a}. b \<in> in_cache_set s
         \<and> (0 < lru_capacity s \<longrightarrow> \<not> matches (lru_heap s) (lh_key e) (lh_hash e) b))
    \<and> (\<forall>b. b \<in> in_cache_set s' \<or> 0 < shard_held s b \<longrightarrow> entry_info s' b = entry_info s b)"
proof (cases "lru_capacity s > 0")
  case True
  define s2 where "s2 = (Append_in_use a (set_entry a (e\<lparr>lh_refs := lh_refs e + 1, lh_in_cache := True\<rparr>) s))\<lparr>lru_usage := lru_usage s + lh_charge e\<rparr>"
  note ad = admit_inv [OF inv a e few, folded s2_def]
  from ad(1) obtain old t where t: "HandleTableInsert (lru_heap s2) a (lru_table s2) = Some (old, t)"
    "\<And>b. old = Some b \<longleftrightarrow> b \<in> in_cache_set s \<and> matches (lru_heap s) (lh_key e) (lh_hash e) b"
    "shard_inv_but (set_option old) (s2\<lparr>lru_table := t\<rparr>)" by blast
  have "set_option old \<subseteq> in_cache_set (s2\<lparr>lru_table := t\<rparr>)" using t(2) ad(2) by (auto simp: elem_set)
  from replace_inv [OF t(3) this] obtain s3 where s3: "FinishErase old (s2\<lparr>lru_table := t\<rparr>) = Some s3" "shard_inv s3"
    "in_cache_set s3 = in_cache_set s2 - set_option old" "shard_held s3 = shard_held s2" "lru_capacity s3 = lru_capacity s2"
    "\<And>b. b \<notin> set_option old \<or> 0 < shard_held s2 b \<Longrightarrow> entry_info s3 b = entry_info s2 b" by auto
  have olda: "a \<notin> set_option old" using t(2) ad(6) by (auto simp: elem_set)
  have "entry_info s3 b = entry_info s b" if "b \<in> in_cache_set s3 \<or> 0 < shard_held s b" for b
    using that s3(3) s3(6) [of b] ad(3,4) by auto
  moreover have "b \<in> in_cache_set s \<and> \<not> matches (lru_heap s) (lh_key e) (lh_hash e) b" if "b \<in> in_cache_set s3 - {a}" for b
    using that s3(3) ad(2) t(2) [of b] by (auto simp: elem_set)
  moreover have "admit_entry a e s = Some s3" using True s3(1) t(1) by (simp add: admit_entry_def s2_def Let_def)
  moreover have "entry_info s3 a = entry_info s a" using s3(6) [of a] olda ad(3) by simp
  moreover have "a \<in> in_cache_set s3" "shard_held s3 = shard_held s" "lru_capacity s3 = lru_capacity s"
    using s3(3-5) ad(2,4,5) olda by simp_all
  ultimately show ?thesis using True s3(2) by blast
next
  case False
  moreover have "a \<notin> in_cache_set s" using a e by (simp add: in_cache_set_def)
  ultimately show ?thesis using inv by (simp add: admit_entry_def)
qed

lemma LRUInsert_inv:
  assumes inv: "shard_inv s" and room: "shard_room s"
  shows "\<exists>a s'. LRUInsert key hash v charge s = Some (a, s') \<and> shard_inv s' \<and> shard_held s a = 0
    \<and> shard_held s' = (shard_held s)(a := 1) \<and> entry_info s' a = Some (v, key, hash, charge)
    \<and> (a \<in> in_cache_set s' \<longleftrightarrow> 0 < lru_capacity s) \<and> lru_capacity s' = lru_capacity s
    \<and> (\<forall>b \<in> in_cache_set s' - {a}. b \<in> in_cache_set s \<and> (0 < lru_capacity s \<longrightarrow> \<not> matches (lru_heap s) key hash b))
    \<and> (\<forall>b. b \<noteq> a \<and> (b \<in> in_cache_set s' \<or> 0 < shard_held s b) \<longrightarrow> entry_info s' b = entry_info s b)
    \<and> (lru_lru s' = [] \<or> lru_usage s' \<le> lru_capacity s')"
proof -
  define a where "a = lru_next s"
  define e where "e = \<lparr>lh_value = v, lh_charge = charge, lh_key = key, lh_in_cache = False, lh_refs = 1, lh_hash = hash\<rparr>"
  define s1 where "s1 = (set_entry a e s)\<lparr>lru_next := Suc a\<rparr>"
  have e: "\<not> lh_in_cache e" "lh_refs e = 1" and key: "lh_key e = key" "lh_hash e = hash" by (simp_all add: e_def)
  note n = new_entry_inv [OF inv a_def e, folded s1_def]
  have a1: "lru_heap s1 a = Some e" "entry_info s1 a = Some (v, key, hash, charge)" "lru_capacity s1 = lru_capacity s"
    by (simp_all add: s1_def entry_info_def e_def)
  have few: "card (in_cache_set s1) < 2 ^ 31" using room by (simp add: shard_room_def n(2))
  have match: "matches (lru_heap s1) key hash b = matches (lru_heap s) key hash b" if "b \<noteq> a" for b
    using n(5) [OF that] by (simp add: matches_info)
  from admit_entry_inv [OF n(1) a1(1) e few] obtain s3 where s3: "admit_entry a e s1 = Some s3" "shard_inv s3"
    "shard_held s3 = shard_held s1" "lru_capacity s3 = lru_capacity s1"
    "entry_info s3 a = entry_info s1 a" "a \<in> in_cache_set s3 \<longleftrightarrow> 0 < lru_capacity s1"
    "\<And>b. b \<in> in_cache_set s3 - {a} \<Longrightarrow> b \<in> in_cache_set s1 \<and> (0 < lru_capacity s1 \<longrightarrow> \<not> matches (lru_heap s1) key hash b)"
    "\<And>b. b \<in> in_cache_set s3 \<or> 0 < shard_held s1 b \<Longrightarrow> entry_info s3 b = entry_info s1 b" unfolding key by blast
  from evict_loop_inv [OF s3(2) lessI, of "\<lambda>usage capacity. capacity < usage"] obtain s' where
    s': "evict_loop (Suc (length (lru_lru s3))) (\<lambda>usage capacity. capacity < usage) s3 = Some s'" "shard_inv s'"
      "in_cache_set s' \<subseteq> in_cache_set s3" "shard_held s' = shard_held s3" "lru_capacity s' = lru_capacity s3"
      "lru_lru s' = [] \<or> \<not> lru_capacity s' < lru_usage s'"
      "\<And>b. 0 < shard_held s3 b \<Longrightarrow> b \<in> in_cache_set s' \<longleftrightarrow> b \<in> in_cache_set s3"
      "\<And>b. b \<in> in_cache_set s' \<or> 0 < shard_held s3 b \<Longrightarrow> entry_info s' b = entry_info s3 b" by blast
  have "LRUInsert key hash v charge s = Some (a, s')"
    using s3(1) s'(1) by (simp add: LRUInsert_def a_def e_def s1_def Let_def)
  moreover have "0 < shard_held s3 a" by (simp add: s3(3) n(3))
  then have "entry_info s' a = Some (v, key, hash, charge)" "a \<in> in_cache_set s' \<longleftrightarrow> 0 < lru_capacity s"
    using s'(7,8) s3(5,6) a1(2,3) by simp_all
  moreover have "entry_info s' b = entry_info s b" if "b \<noteq> a" "b \<in> in_cache_set s' \<or> 0 < shard_held s b" for b
    using s'(3) s'(8) [of b] s3(8) [of b] s3(3) that n(3) n(5) [of b] by auto
  moreover have "b \<in> in_cache_set s \<and> (0 < lru_capacity s \<longrightarrow> \<not> matches (lru_heap s) key hash b)" if "b \<in> in_cache_set s' - {a}" for b
    using s3(7) [of b] that s'(3) n(2) match [of b] a1(3) by auto
  ultimately show ?thesis using s'(2,4,5,6) s3(3,4) n(3,4) a1(3) by (intro exI [of _ a] exI [of _ s']) (auto simp: not_less)
qed

end
