(* ===== verification/Lru_Deleters.thy ===== *)
theory Lru_Deleters
  imports Lru_Cache
begin

text \<open>
  What becomes of the values that are inserted: a value is in an entry of the memory of its shard, or
  its deleter has been called. Every operation but \<open>Insert\<close> keeps this account, \<open>Insert\<close> adds the new
  value to it, and the destructor of a shard with no handle left empties the memory.
\<close>

definition live_values :: "'v LRUCache \<Rightarrow> (bytes \<times> 'v) multiset" where
  "live_values s = image_mset (\<lambda>a. (lh_key (the (lru_heap s a)), lh_value (the (lru_heap s a)))) (mset_set (dom (lru_heap s)))"

definition accounted :: "'v LRUCache \<Rightarrow> (bytes \<times> 'v) multiset" where
  "accounted s = mset (lru_deleted s) + live_values s"

lemma live_values_cong: "lru_heap s' = lru_heap s \<Longrightarrow> live_values s' = live_values s"
  by (simp add: live_values_def)

lemma live_values_remove:
  assumes "finite (dom (lru_heap s))" "lru_heap s a = Some e" "lru_heap s' = (lru_heap s)(a := None)"
  shows "live_values s = add_mset (lh_key e, lh_value e) (live_values s')"
proof -
  have "dom (lru_heap s) = insert a (dom (lru_heap s) - {a})" using assms(2) by auto
  then have "mset_set (dom (lru_heap s)) = add_mset a (mset_set (dom (lru_heap s) - {a}))"
    using assms(1) by (metis Diff_iff finite_Diff insertI1 mset_set.insert)
  moreover have "live_values s' = image_mset (\<lambda>a. (lh_key (the (lru_heap s a)), lh_value (the (lru_heap s a)))) (mset_set (dom (lru_heap s) - {a}))"
  proof -
    have "dom (lru_heap s') = dom (lru_heap s) - {a}" using assms(3) by auto
    then show ?thesis using assms(1,3) unfolding live_values_def by (auto intro!: image_mset_cong)
  qed
  ultimately show ?thesis using assms(2) by (simp add: live_values_def)
qed

lemma live_values_add:
  assumes "finite (dom (lru_heap s))" "lru_heap s a = None" "lru_heap s' = (lru_heap s)(a \<mapsto> e)"
  shows "live_values s' = add_mset (lh_key e, lh_value e) (live_values s)"
proof -
  have "lru_heap s = (lru_heap s')(a := None)" using assms(2,3) by auto
  then show ?thesis using assms(1,3) by (intro live_values_remove [where a = a]) simp_all
qed

lemma live_values_update:
  assumes "finite (dom (lru_heap s))" "lru_heap s a = Some e" "lru_heap s' = (lru_heap s)(a \<mapsto> e')"
    "lh_key e' = lh_key e" "lh_value e' = lh_value e"
  shows "live_values s' = live_values s"
proof -
  have "dom (lru_heap s') = dom (lru_heap s)" using assms(2,3) by auto
  then show ?thesis using assms unfolding live_values_def by (auto intro!: image_mset_cong)
qed

text \<open>\<open>kept_account\<close> is what every step keeps.\<close>

definition kept_account :: "'v LRUCache \<Rightarrow> 'v LRUCache \<Rightarrow> bool" where
  "kept_account s s' \<longleftrightarrow> finite (dom (lru_heap s)) \<longrightarrow> finite (dom (lru_heap s')) \<and> accounted s' = accounted s"

lemma kept_account_trans [trans]: "kept_account s s' \<Longrightarrow> kept_account s' s'' \<Longrightarrow> kept_account s s''"
  by (simp add: kept_account_def)

lemma kept_account_same: "lru_heap s' = lru_heap s \<Longrightarrow> lru_deleted s' = lru_deleted s \<Longrightarrow> kept_account s s'"
  by (simp add: kept_account_def accounted_def live_values_cong [of s' s])

lemma kept_account_update:
  assumes "lru_heap s a = Some e" "lru_heap s' = (lru_heap s)(a \<mapsto> e')" "lru_deleted s' = lru_deleted s"
    "lh_key e' = lh_key e" "lh_value e' = lh_value e"
  shows "kept_account s s'"
  using assms live_values_update [of s a e s' e'] by (auto simp: kept_account_def accounted_def)

lemma Ref_account: "Ref a s = Some s' \<Longrightarrow> kept_account s s'"
proof -
  assume "Ref a s = Some s'"
  then obtain e where "lru_heap s a = Some e" "lru_heap s' = (lru_heap s)(a \<mapsto> e\<lparr>lh_refs := lh_refs e + 1\<rparr>)" "lru_deleted s' = lru_deleted s"
    by (auto simp: Ref_def Let_def)
  then show ?thesis by (intro kept_account_update [of s a e s' "e\<lparr>lh_refs := lh_refs e + 1\<rparr>"]) simp_all
qed

lemma Unref_account: 
  assumes "Unref a s = Some s'"
  shows "kept_account s s'"
proof -
  from assms obtain e where e: "lru_heap s a = Some e" "lh_refs e \<noteq> 0" by (auto simp: Unref_def bind_eq_Some_conv split: if_splits)
  define e' where "e' = e\<lparr>lh_refs := lh_refs e - 1\<rparr>"
  show ?thesis
  proof (cases "lh_refs e' = 0")
    case True
    then have "s' = s\<lparr>lru_heap := (lru_heap s)(a := None), lru_deleted := lru_deleted s @ [(lh_key e, lh_value e)]\<rparr>"
      using assms e by (auto simp: Unref_def Let_def e'_def split: if_splits)
    then show ?thesis using e live_values_remove [of s a e s'] by (auto simp: kept_account_def accounted_def)
  next
    case False
    then have "lru_heap s' = (lru_heap s)(a \<mapsto> e')" "lru_deleted s' = lru_deleted s"
      using assms e by (auto simp: Unref_def Let_def e'_def split: if_splits)
    then show ?thesis using e by (intro kept_account_update [of s a e s' e']) (simp_all add: e'_def)
  qed
qed

lemma FinishErase_account:
  assumes "FinishErase r s = Some s'"
  shows "kept_account s s'"
proof (cases r)
  case None
  then show ?thesis using assms by (simp add: kept_account_def)
next
  case (Some a)
  then obtain e where e: "lru_heap s a = Some e"
    and u: "Unref a ((set_entry a (e\<lparr>lh_in_cache := False\<rparr>) (LRU_Remove a s))\<lparr>lru_usage := lru_usage s - lh_charge e\<rparr>) = Some s'"
    using assms by (auto simp: FinishErase_def bind_eq_Some_conv Let_def split: if_splits)
  have "kept_account s ((set_entry a (e\<lparr>lh_in_cache := False\<rparr>) (LRU_Remove a s))\<lparr>lru_usage := lru_usage s - lh_charge e\<rparr>)"
    by (rule kept_account_update [OF e, where e' = "e\<lparr>lh_in_cache := False\<rparr>"]) simp_all
  also have "kept_account \<dots> s'" by (rule Unref_account [OF u])
  finally show ?thesis .
qed

lemma remove_account: "FinishErase r (s\<lparr>lru_table := t\<rparr>) = Some s' \<Longrightarrow> kept_account s s'"
  by (rule kept_account_trans [OF kept_account_same FinishErase_account]) simp_all

lemma evict_loop_account: "evict_loop fuel full s = Some s' \<Longrightarrow> kept_account s s'"
proof (induction fuel full s rule: evict_loop.induct)
  case (2 fuel full s)
  show ?case
  proof (cases "s' = s")
    case False
    then obtain old rest s1 where s1: "lru_lru s = old # rest" "full (lru_usage s) (lru_capacity s)" "evict_oldest old s = Some s1"
      "evict_loop fuel full s1 = Some s'"
      using "2.prems" by (auto simp: bind_eq_Some_conv split: list.splits if_splits)
    then have "kept_account s s1" by (auto simp: evict_oldest_def bind_eq_Some_conv split: if_splits intro: remove_account)
    then show ?thesis using "2.IH" [OF s1(1,2,3) s1(4)] by (rule kept_account_trans)
  qed (simp add: kept_account_def)
qed simp

lemma LRULookup_account: "LRULookup key hash s = Some (r, s') \<Longrightarrow> kept_account s s'"
  by (auto simp: LRULookup_def bind_eq_Some_conv split: option.splits dest: Ref_account intro: kept_account_same)

lemma LRUErase_account: "LRUErase key hash s = Some s' \<Longrightarrow> kept_account s s'"
  by (auto simp: LRUErase_def bind_eq_Some_conv intro: remove_account)

lemma LRUPrune_account: "LRUPrune s = Some s' \<Longrightarrow> kept_account s s'"
  unfolding LRUPrune_def by (rule evict_loop_account)

lemma shard_finite: "shard_inv s \<Longrightarrow> finite (dom (lru_heap s))"
  by (rule finite_subset [of _ "{..< lru_next s}"]) (auto simp: shard_inv_but_def)

lemma admit_entry_account:
  assumes "lru_heap s a = Some e" "admit_entry a e s = Some s'"
  shows "kept_account s s'"
proof (cases "lru_capacity s > 0")
  case True
  define s2 where "s2 = (Append_in_use a (set_entry a (e\<lparr>lh_refs := lh_refs e + 1, lh_in_cache := True\<rparr>) s))\<lparr>lru_usage := lru_usage s + lh_charge e\<rparr>"
  have "kept_account s s2" 
    by (rule kept_account_update [OF assms(1), where e' = "e\<lparr>lh_refs := lh_refs e + 1, lh_in_cache := True\<rparr>"]) (simp_all add: s2_def)
  also have "kept_account s2 s'"
    using assms(2) True by (auto simp: admit_entry_def Let_def bind_eq_Some_conv s2_def intro: remove_account)
  finally show ?thesis .
next
  case False
  then show ?thesis using assms(2) by (simp add: admit_entry_def kept_account_def)
qed

lemma LRUInsert_account:
  assumes inv: "shard_inv s" and i: "LRUInsert key hash v charge s = Some (a, s')"
  shows "accounted s' = add_mset (key, v) (accounted s)"
proof -
  define e where "e = \<lparr>lh_value = v, lh_charge = charge, lh_key = key, lh_in_cache = False, lh_refs = 1, lh_hash = hash\<rparr>"
  define s1 where "s1 = (set_entry (lru_next s) e s)\<lparr>lru_next := Suc (lru_next s)\<rparr>"
  have heap: "lru_heap s1 = (lru_heap s)(lru_next s \<mapsto> e)" "lru_deleted s1 = lru_deleted s" by (simp_all add: s1_def)
  from i obtain s2 where s2: "admit_entry (lru_next s) e s1 = Some s2"
    "evict_loop (Suc (length (lru_lru s2))) (\<lambda>usage capacity. usage > capacity) s2 = Some s'"
    by (auto simp: LRUInsert_def Let_def bind_eq_Some_conv e_def s1_def)
  have "kept_account s1 s2" by (rule admit_entry_account [OF _ s2(1)]) (simp add: heap)
  also have "kept_account s2 s'" by (rule evict_loop_account [OF s2(2)])
  finally have "accounted s' = accounted s1" using shard_finite [OF inv] by (simp add: kept_account_def heap)
  also have "\<dots> = add_mset (key, v) (accounted s)"
    using live_values_add [OF shard_finite [OF inv] fresh_address [OF inv] heap(1)] by (simp add: accounted_def heap(2)) (simp add: e_def)
  finally show ?thesis .
qed

text \<open>The destructor.\<close>

lemma destroy_loop_empty:
  assumes "distinct as" "\<forall>a \<in> set as. \<exists>e. lru_heap s a = Some e \<and> lh_in_cache e \<and> lh_refs e = 1" "dom (lru_heap s) = set as"
  shows "\<exists>s'. destroy_loop as s = Some s' \<and> lru_heap s' = Map.empty \<and> mset (lru_deleted s') = accounted s"
  using assms
proof (induction as arbitrary: s)
  case Nil
  then show ?case by (simp add: accounted_def live_values_def)
next
  case (Cons a as)
  from Cons.prems obtain e where e: "lru_heap s a = Some e" "lh_in_cache e" "lh_refs e = 1" by auto
  define s1 where "s1 = s\<lparr>lru_heap := (lru_heap s)(a := None), lru_deleted := lru_deleted s @ [(lh_key e, lh_value e)]\<rparr>"
  have u: "Unref a (set_entry a (e\<lparr>lh_in_cache := False\<rparr>) s) = Some s1" using e by (simp add: Unref_def Let_def s1_def set_entry_def)
  have "finite (dom (lru_heap s))" unfolding Cons.prems(3) by simp
  then have "accounted s1 = accounted s"
    using live_values_remove [OF _ e(1), of s1] by (simp add: accounted_def s1_def)
  moreover have "\<exists>s'. destroy_loop as s1 = Some s' \<and> lru_heap s' = Map.empty \<and> mset (lru_deleted s') = accounted s1"
  proof (rule Cons.IH)
    show "dom (lru_heap s1) = set as" using Cons.prems(1,3) by (simp add: s1_def)
  qed (use Cons.prems in \<open>auto simp: s1_def\<close>)
  ultimately show ?case using e u by simp
qed

lemma DestroyLRUCache_empty:
  assumes inv: "shard_inv s" and none: "shard_held s = (\<lambda>_. 0)"
  shows "\<exists>s'. DestroyLRUCache s = Some s' \<and> lru_heap s' = Map.empty \<and> mset (lru_deleted s') = accounted s"
proof -
  have e: "lh_in_cache e \<and> lh_refs e = 1" if "lru_heap s a = Some e" for a e
  proof -
    have "shard_held s a = 0" "lh_refs e \<noteq> 0" using none inv that by (simp_all add: shard_inv_but_def)
    moreover from this have "unat (lh_refs e) \<noteq> 0" by (simp add: word_unat_eq_iff)
    ultimately have "lh_in_cache e" "unat (lh_refs e) = unat (1 :: u32)" using that by (auto simp: shard_held_def split: if_splits)
    then show ?thesis by (simp add: word_unat_eq_iff)
  qed
  have lists: "distinct (lru_lru s)" "set (lru_lru s @ lru_in_use s) = in_cache_set s" "set (lru_lru s) \<inter> set (lru_in_use s) = {}"
    using inv by (auto simp: shard_inv_but_def)
  have "in_cache_set s \<subseteq> set (lru_lru s)" using e inv by (fastforce simp: in_cache_set_def shard_inv_but_def)
  then have empty: "set (lru_lru s) = in_cache_set s" and sub: "set (lru_in_use s) \<subseteq> set (lru_lru s)" using lists(2) by auto
  have "lru_in_use s = []" using lists(3) Int_absorb1 [OF sub] by simp
  moreover have "dom (lru_heap s) = set (lru_lru s)" unfolding empty using e by (auto simp: in_cache_set_def)
  ultimately show ?thesis unfolding DestroyLRUCache_def
    using destroy_loop_empty [OF lists(1), of s] e by (simp add: empty in_cache_set_def) blast
qed

end
