(* ===== verification/Sharded_Cache.thy ===== *)
theory Sharded_Cache
  imports Lru_Deleters
begin

text \<open>
  The sharded cache keeps the invariant of its shards, and it implements the interface of a cache:
  the locale \<open>cache\<close> is interpreted on its operations. The runs of the cache are an inductive relation.
\<close>

section \<open>The invariant of the cache\<close>

lemma live_entry: "shard_inv s \<Longrightarrow> entry_info s a = Some x \<Longrightarrow> a \<in> in_cache_set s \<or> 0 < shard_held s a"
proof -
  assume inv: "shard_inv s" and "entry_info s a = Some x"
  then obtain e where e: "lru_heap s a = Some e" by (auto simp: entry_info_def)
  moreover have "lh_refs e \<noteq> 0" using inv e by (simp add: shard_inv_but_def)
  ultimately show ?thesis by (auto simp: in_cache_set_def shard_held_def unat_gt_0)
qed

text \<open>Every entry is in the shard that the hash of its key picks.\<close>

definition shard_place :: "nat \<Rightarrow> 'v LRUCache \<Rightarrow> bool" where
  "shard_place i s \<longleftrightarrow> (\<forall>a v k h c. entry_info s a = Some (v, k, h, c) \<longrightarrow> h = HashSlice k \<and> Shard h = i)"

definition sharded_inv :: "'v ShardedLRUCache \<Rightarrow> bool" where
  "sharded_inv c \<longleftrightarrow> length (sc_shard c) = kNumShards
     \<and> (\<forall>i < kNumShards. shard_inv (sc_shard c ! i) \<and> shard_place i (sc_shard c ! i))"

definition sharded_room :: "'v ShardedLRUCache \<Rightarrow> bool" where
  "sharded_room c \<longleftrightarrow> (\<forall>s \<in> set (sc_shard c). shard_room s)"

definition sharded_held :: "'v ShardedLRUCache \<Rightarrow> nat \<times> nat \<Rightarrow> nat" where
  "sharded_held c h = (if fst h < length (sc_shard c) then shard_held (sc_shard c ! fst h) (snd h) else 0)"

definition sharded_cached :: "'v ShardedLRUCache \<Rightarrow> bytes \<Rightarrow> 'v \<Rightarrow> bool" where
  "sharded_cached c k v \<longleftrightarrow> shard_cached (sc_shard c ! Shard (HashSlice k)) k (HashSlice k) v"

lemma Shard_less: "Shard hash < kNumShards"
proof -
  have "unat hash < 2 ^ 32" using unsigned_less [of hash] by simp
  then have "unat hash div 2 ^ 28 < 16" by (simp add: less_mult_imp_div_less)
  then show ?thesis by (simp add: Shard_def kNumShards_def kNumShardBits_def unat_drop_bit_div)
qed

lemma sharded_invD:
  assumes "sharded_inv c"
  shows "shard_inv (sc_shard c ! Shard h)" "shard_place (Shard h) (sc_shard c ! Shard h)" "Shard h < length (sc_shard c)"
  using assms Shard_less by (simp_all add: sharded_inv_def)

lemma sharded_roomD: "sharded_inv c \<Longrightarrow> sharded_room c \<Longrightarrow> shard_room (sc_shard c ! Shard h)"
  by (simp add: sharded_room_def sharded_invD(3))

lemma shard_placeI:
  assumes "shard_inv s'" and "\<And>b v k h c. b \<in> in_cache_set s' \<or> 0 < shard_held s' b \<Longrightarrow> entry_info s' b = Some (v, k, h, c)
    \<Longrightarrow> h = HashSlice k \<and> Shard h = i"
  shows "shard_place i s'"
  using assms live_entry [OF assms(1)] unfolding shard_place_def by blast

lemma shard_place_keep:
  assumes "shard_place i s" "shard_inv s'" "\<And>b. b \<in> in_cache_set s' \<or> 0 < shard_held s' b \<Longrightarrow> entry_info s' b = entry_info s b"
  shows "shard_place i s'"
  using assms(1,3) by (intro shard_placeI [OF assms(2)]) (metis shard_place_def)

lemma set_shard_inv: "sharded_inv c \<Longrightarrow> shard_inv s \<Longrightarrow> shard_place i s \<Longrightarrow> sharded_inv (set_shard i s c)"
  unfolding sharded_inv_def set_shard_def by (simp add: nth_list_update) (metis nth_list_update nth_list_update_neq)

lemma set_shard_held:
  assumes "i < length (sc_shard c)" "shard_held s = (shard_held (sc_shard c ! i))(a := n)"
  shows "sharded_held (set_shard i s c) = (sharded_held c)((i, a) := n)"
  using assms by (auto simp: sharded_held_def set_shard_def fun_eq_iff nth_list_update)

lemma set_shard_same: "i < length (sc_shard c) \<Longrightarrow> shard_held s = shard_held (sc_shard c ! i) \<Longrightarrow> sharded_held (set_shard i s c) = sharded_held c"
  by (auto simp: sharded_held_def set_shard_def fun_eq_iff nth_list_update)

lemma set_shard_cached:
  assumes "i < length (sc_shard c)"
  shows "sharded_cached (set_shard i s c) k v
    \<longleftrightarrow> (if Shard (HashSlice k) = i then shard_cached s k (HashSlice k) v else sharded_cached c k v)"
  using assms by (auto simp: sharded_cached_def set_shard_def)

lemma handle_entry_set: "i < length (sc_shard c) \<Longrightarrow> handle_entry (i, a) (set_shard i s c) = lru_heap s a"
  by (simp add: handle_entry_def set_shard_def)

lemma ShardedValue_set: "i < length (sc_shard c) \<Longrightarrow> ShardedValue (i, a) (set_shard i s c) = LRUValue a s"
  by (simp add: ShardedValue_def handle_entry_set LRUValue_def)

text \<open>The value of a handle does not change as long as the handle is held.\<close>

definition values_kept :: "'v ShardedLRUCache \<Rightarrow> 'v ShardedLRUCache \<Rightarrow> bool" where
  "values_kept c c' \<longleftrightarrow> (\<forall>h. 0 < sharded_held c h \<and> 0 < sharded_held c' h \<longrightarrow> ShardedValue h c' = ShardedValue h c)"

lemma set_shard_values:
  assumes i: "i < length (sc_shard c)"
    and info: "\<And>a. 0 < shard_held (sc_shard c ! i) a \<Longrightarrow> 0 < shard_held s a \<Longrightarrow> entry_info s a = entry_info (sc_shard c ! i) a"
  shows "values_kept c (set_shard i s c)"
  unfolding values_kept_def
proof (intro allI impI)
  fix h assume h: "0 < sharded_held c h \<and> 0 < sharded_held (set_shard i s c) h"
  show "ShardedValue h (set_shard i s c) = ShardedValue h c"
  proof (cases "fst h = i")
    case True
    then have "0 < shard_held (sc_shard c ! i) (snd h)" "0 < shard_held s (snd h)"
      using h i by (simp_all add: sharded_held_def set_shard_def)
    then have "LRUValue (snd h) s = LRUValue (snd h) (sc_shard c ! i)" using info by (simp add: LRUValue_info)
    then show ?thesis using True i
      by (cases h) (simp add: ShardedValue_def LRUValue_def handle_entry_def set_shard_def)
  qed (simp add: ShardedValue_def handle_entry_def set_shard_def)
qed

text \<open>The account of the values of all shards.\<close>

definition sharded_accounted :: "'v ShardedLRUCache \<Rightarrow> (bytes \<times> 'v) multiset" where
  "sharded_accounted c = sum_list (map accounted (sc_shard c))"

lemma sum_list_update_mset:
  assumes "i < length xs"
  shows "sum_list (xs[i := x]) + xs ! i = sum_list xs + (x :: 'a multiset)"
  using assms by (induction xs arbitrary: i) (auto split: nat.split simp: ac_simps)

lemma set_shard_account:
  assumes "i < length (sc_shard c)" "accounted s = N + accounted (sc_shard c ! i)"
  shows "sharded_accounted (set_shard i s c) = N + sharded_accounted c"
  using sum_list_update_mset [of i "map accounted (sc_shard c)" "accounted s"] assms
  by (simp add: sharded_accounted_def set_shard_def map_update)

lemma set_shard_kept:
  assumes "sharded_inv c" "i < length (sc_shard c)" "kept_account (sc_shard c ! i) s"
  shows "sharded_accounted (set_shard i s c) = sharded_accounted c"
proof -
  have "shard_inv (sc_shard c ! i)" using assms(1,2) by (simp add: sharded_inv_def)
  from shard_finite [OF this] show ?thesis using set_shard_account [OF assms(2), of s "{#}"] assms(3) by (simp add: kept_account_def)
qed

lemma ShardedLookup_account: "sharded_inv c \<Longrightarrow> ShardedLookup k c = Some (r, c') \<Longrightarrow> sharded_accounted c' = sharded_accounted c"
  by (auto simp: ShardedLookup_def Let_def intro!: set_shard_kept sharded_invD LRULookup_account)

lemma ShardedInsert_account:
  "sharded_inv c \<Longrightarrow> ShardedInsert k v n c = Some (h, c') \<Longrightarrow> sharded_accounted c' = add_mset (k, v) (sharded_accounted c)"
proof -
  assume inv: "sharded_inv c" and "ShardedInsert k v n c = Some (h, c')"
  then obtain a s' where s': "LRUInsert k (HashSlice k) v n (sc_shard c ! Shard (HashSlice k)) = Some (a, s')"
    "c' = set_shard (Shard (HashSlice k)) s' c" by (auto simp: ShardedInsert_def Let_def)
  note d = sharded_invD [OF inv, of "HashSlice k"]
  show ?thesis using set_shard_account [OF d(3), of s' "{#(k, v)#}"] LRUInsert_account [OF d(1) s'(1)] s'(2) by simp
qed

lemma ShardedErase_account: "sharded_inv c \<Longrightarrow> ShardedErase k c = Some c' \<Longrightarrow> sharded_accounted c' = sharded_accounted c"
  by (auto simp: ShardedErase_def Let_def intro!: set_shard_kept sharded_invD LRUErase_account)

lemma ShardedRelease_account: "sharded_inv c \<Longrightarrow> ShardedRelease h c = Some c' \<Longrightarrow> sharded_accounted c' = sharded_accounted c"
  by (auto simp: ShardedRelease_def bind_eq_Some_conv handle_entry_def Let_def LRURelease_def
      intro!: set_shard_kept Unref_account split: if_splits)

section \<open>The operations\<close>

lemma ShardedLookup_inv:
  assumes inv: "sharded_inv c" and room: "sharded_room c"
  shows "\<exists>r c'. ShardedLookup k c = Some (r, c') \<and> sharded_inv c' \<and> sharded_cached c' = sharded_cached c
    \<and> values_kept c c'
    \<and> (case r of
         None \<Rightarrow> c' = c \<and> (\<forall>v. \<not> sharded_cached c k v)
       | Some h \<Rightarrow> sharded_held c' = (sharded_held c)(h := Suc (sharded_held c h))
           \<and> (\<exists>v. ShardedValue h c' = Some v \<and> sharded_cached c k v))"
proof -
  define i where "i = Shard (HashSlice k)"
  define s where "s = sc_shard c ! i"
  note d = sharded_invD [OF inv, of "HashSlice k", folded i_def, folded s_def]
  have "shard_room s" using sharded_roomD [OF inv room] by (simp add: s_def i_def)
  from LRULookup_inv [OF d(1) this, of k "HashSlice k"] obtain r s' where s': "LRULookup k (HashSlice k) s = Some (r, s')" "shard_inv s'"
    "in_cache_set s' = in_cache_set s" "entry_info s' = entry_info s"
    "case r of None \<Rightarrow> s' = s \<and> (\<forall>v. \<not> shard_cached s k (HashSlice k) v)
       | Some a \<Rightarrow> shard_held s' = (shard_held s)(a := Suc (shard_held s a))
           \<and> (\<exists>v. LRUValue a s' = Some v \<and> shard_cached s k (HashSlice k) v)" by blast
  have eval: "ShardedLookup k c = Some (map_option (Pair i) r, set_shard i s' c)"
    using s'(1) by (simp add: ShardedLookup_def Let_def i_def s_def)
  have inv': "sharded_inv (set_shard i s' c)"
    using s'(4) by (intro set_shard_inv [OF inv s'(2)] shard_place_keep [OF d(2) s'(2)]) simp
  have "shard_cached s' = shard_cached s" using s'(3,4) by (simp add: shard_cached_def fun_eq_iff)
  then have cached: "sharded_cached (set_shard i s' c) = sharded_cached c"
    using d(3) by (intro ext) (simp add: set_shard_cached, simp add: sharded_cached_def s_def)
  have kept: "values_kept c (set_shard i s' c)" using s'(4) by (intro set_shard_values [OF d(3)]) (simp add: s_def)
  have ck: "sharded_cached c k v \<longleftrightarrow> shard_cached s k (HashSlice k) v" for v by (simp add: sharded_cached_def s_def i_def)
  show ?thesis
  proof (cases r)
    case None
    then have "set_shard i s' c = c" using s'(5) by (simp add: set_shard_def s_def)
    then show ?thesis using None s'(5) eval inv' cached kept by (simp add: ck)
  next
    case (Some a)
    then have "sharded_held (set_shard i s' c) = (sharded_held c)((i, a) := Suc (sharded_held c (i, a)))"
      using s'(5) d(3) by (simp add: set_shard_held s_def, simp add: sharded_held_def)
    then show ?thesis using Some s'(5) eval inv' cached kept d(3) by (simp add: ck ShardedValue_set)
  qed
qed

lemma ShardedInsert_inv:
  assumes inv: "sharded_inv c" and room: "sharded_room c"
  shows "\<exists>h c'. ShardedInsert k v n c = Some (h, c') \<and> sharded_inv c' \<and> sharded_held c h = 0
    \<and> sharded_held c' = (sharded_held c)(h := 1) \<and> ShardedValue h c' = Some v
    \<and> (\<forall>k' v'. sharded_cached c' k' v' \<longrightarrow> sharded_cached c k' v'
         \<or> k' = k \<and> v' = v \<and> 0 < lru_capacity (sc_shard c ! Shard (HashSlice k)))
    \<and> (0 < lru_capacity (sc_shard c ! Shard (HashSlice k)) \<longrightarrow> (\<forall>v'. sharded_cached c' k v' \<longleftrightarrow> v' = v))
    \<and> values_kept c c' \<and> fst h = Shard (HashSlice k)
    \<and> (let s = sc_shard c' ! fst h in lru_lru s = [] \<or> lru_usage s \<le> lru_capacity s)"
proof -
  define i where "i = Shard (HashSlice k)"
  define s where "s = sc_shard c ! i"
  note d = sharded_invD [OF inv, of "HashSlice k", folded i_def, folded s_def]
  have "shard_room s" using sharded_roomD [OF inv room] by (simp add: s_def i_def)
  from LRUInsert_inv [OF d(1) this, of k "HashSlice k" v n] obtain a s' where s': "LRUInsert k (HashSlice k) v n s = Some (a, s')"
    "shard_inv s'" "shard_held s a = 0" "shard_held s' = (shard_held s)(a := 1)" "entry_info s' a = Some (v, k, HashSlice k, n)"
    "a \<in> in_cache_set s' \<longleftrightarrow> 0 < lru_capacity s"
    "\<And>b. b \<in> in_cache_set s' - {a} \<Longrightarrow> b \<in> in_cache_set s \<and> (0 < lru_capacity s \<longrightarrow> \<not> matches (lru_heap s) k (HashSlice k) b)"
    "\<And>b. b \<noteq> a \<Longrightarrow> b \<in> in_cache_set s' \<or> 0 < shard_held s b \<Longrightarrow> entry_info s' b = entry_info s b"
    "lru_lru s' = [] \<or> lru_usage s' \<le> lru_capacity s'" by blast
  have eval: "ShardedInsert k v n c = Some ((i, a), set_shard i s' c)"
    using s'(1) by (simp add: ShardedInsert_def Let_def i_def s_def)
  have place: "shard_place i s'"
  proof (rule shard_placeI [OF s'(2)])
    fix b w k' h m assume b: "b \<in> in_cache_set s' \<or> 0 < shard_held s' b" "entry_info s' b = Some (w, k', h, m)"
    show "h = HashSlice k' \<and> Shard h = i"
    proof (cases "b = a")
      case False
      then have "entry_info s b = Some (w, k', h, m)" using b s'(4,8) by simp
      then show ?thesis using d(2) unfolding shard_place_def by blast
    qed (use b(2) s'(5) in \<open>auto simp: i_def\<close>)
  qed
  have cached: "shard_cached s k' (HashSlice k') v'" if "shard_cached s' k' (HashSlice k') v'" "(k', v') \<noteq> (k, v) \<or> lru_capacity s = 0" for k' v'
  proof -
    from that obtain b m where b: "b \<in> in_cache_set s'" "entry_info s' b = Some (v', k', HashSlice k', m)" by (auto simp: shard_cached_def)
    then have "b \<noteq> a" using s'(5,6) that(2) by auto
    then show ?thesis using b s'(7) [of b] s'(8) [of b] by (auto simp: shard_cached_def)
  qed
  have new: "shard_cached s' k (HashSlice k) v' \<longleftrightarrow> v' = v" if "0 < lru_capacity s" for v'
  proof
    assume "shard_cached s' k (HashSlice k) v'"
    then obtain b m where b: "b \<in> in_cache_set s'" "entry_info s' b = Some (v', k, HashSlice k, m)" by (auto simp: shard_cached_def)
    show "v' = v"
    proof (rule ccontr)
      assume "v' \<noteq> v"
      then have "b \<noteq> a" using b(2) s'(5) by auto
      then show False using b s'(7) [of b] s'(8) [of b] that by (simp add: matches_info)
    qed
  qed (use s'(5,6) that in \<open>auto simp: shard_cached_def\<close>)
  have keep: "values_kept c (set_shard i s' c)"
  proof (rule set_shard_values [OF d(3)])
    fix b assume b: "0 < shard_held (sc_shard c ! i) b" "0 < shard_held s' b"
    then have "b \<noteq> a" using s'(3) by (auto simp: s_def)
    then show "entry_info s' b = entry_info (sc_shard c ! i) b" using s'(8) [of b] b by (simp add: s_def)
  qed
  have "sharded_held (set_shard i s' c) = (sharded_held c)((i, a) := 1)"
    using set_shard_held [OF d(3)] s'(4) by (simp add: s_def)
  moreover have "ShardedValue (i, a) (set_shard i s' c) = Some v" using s'(5) d(3) by (simp add: ShardedValue_set LRUValue_info)
  moreover have "sharded_held c (i, a) = 0" using s'(3) by (simp add: sharded_held_def s_def)
  moreover have "sharded_cached c k' v' \<or> k' = k \<and> v' = v \<and> 0 < lru_capacity (sc_shard c ! Shard (HashSlice k))" if "sharded_cached (set_shard i s' c) k' v'" for k' v'
  proof -
    have "if Shard (HashSlice k') = i then shard_cached s' k' (HashSlice k') v' else sharded_cached c k' v'"
      using that by (simp add: set_shard_cached [OF d(3)])
    then show ?thesis using cached [of k' v']
      by (cases "lru_capacity s = 0") (auto simp: sharded_cached_def s_def i_def word_neq_0_conv split: if_splits)
  qed
  moreover have "\<forall>v'. sharded_cached (set_shard i s' c) k v' \<longleftrightarrow> v' = v" if "0 < lru_capacity (sc_shard c ! Shard (HashSlice k))"
    using that new set_shard_cached [OF d(3), of s' k] by (simp add: i_def s_def)
  moreover have "sc_shard (set_shard i s' c) ! i = s'" using d(3) by (simp add: set_shard_def)
  ultimately show ?thesis using eval set_shard_inv [OF inv s'(2) place] keep s'(9)
    by (intro exI [of _ "(i, a)"] exI [of _ "set_shard i s' c"]) (simp add: i_def)
qed

lemma ShardedRelease_inv:
  assumes inv: "sharded_inv c" and h: "0 < sharded_held c h"
  shows "\<exists>c'. ShardedRelease h c = Some c' \<and> sharded_inv c'
      \<and> sharded_held c' = (sharded_held c)(h := sharded_held c h - 1) \<and> sharded_cached c' = sharded_cached c \<and> values_kept c c'"
proof -
  obtain i a where [simp]: "h = (i, a)" by (cases h)
  define s where "s = sc_shard c ! i"
  have i: "i < length (sc_shard c)" "0 < shard_held s a" using h by (simp_all add: sharded_held_def s_def split: if_splits)
  then have s: "shard_inv s" "shard_place i s" using inv by (simp_all add: sharded_inv_def s_def)
  from i(2) obtain e where e: "lru_heap s a = Some e" by (auto simp: shard_held_def split: option.splits)
  then have "entry_info s a = Some (lh_value e, lh_key e, lh_hash e, lh_charge e)" by (simp add: entry_info_def)
  then have "Shard (lh_hash e) = i" using s(2) unfolding shard_place_def by blast
  from Unref_inv [OF s(1) i(2)] obtain s' where s': "Unref a s = Some s'" "shard_inv s'" "in_cache_set s' = in_cache_set s"
    "shard_held s' = (shard_held s)(a := shard_held s a - 1)"
    "\<And>b. b \<noteq> a \<or> 0 < shard_held s' a \<or> a \<in> in_cache_set s \<Longrightarrow> entry_info s' b = entry_info s b" by blast
  have "ShardedRelease h c = Some (set_shard i s' c)"
    using e i(1) s'(1) \<open>Shard (lh_hash e) = i\<close> by (simp add: ShardedRelease_def handle_entry_def LRURelease_def s_def)
  moreover have "shard_place i s'" by (rule shard_place_keep [OF s(2) s'(2)], rule s'(5)) (auto simp: s'(3))
  then have "sharded_inv (set_shard i s' c)" by (rule set_shard_inv [OF inv s'(2)])
  moreover have "sharded_held (set_shard i s' c) = (sharded_held c)(h := sharded_held c h - 1)"
    using set_shard_held [OF i(1)] s'(4) i(1) by (simp add: s_def sharded_held_def)
  moreover have "entry_info s' b = entry_info s b" if "b \<in> in_cache_set s" for b using that by (intro s'(5)) auto
  then have "shard_cached s' = shard_cached s" by (auto simp: shard_cached_def s'(3) fun_eq_iff)
  then have "sharded_cached (set_shard i s' c) = sharded_cached c"
    by (intro ext) (simp add: set_shard_cached [OF i(1)], simp add: sharded_cached_def s_def)
  moreover have "values_kept c (set_shard i s' c)"
    by (rule set_shard_values [OF i(1)], fold s_def, rule s'(5)) auto
  ultimately show ?thesis by blast
qed


lemma ShardedErase_inv:
  assumes inv: "sharded_inv c"
  shows "\<exists>c'. ShardedErase key c = Some c' \<and> sharded_inv c' \<and> sharded_held c' = sharded_held c \<and> values_kept c c'
    \<and> (\<forall>k v. sharded_cached c' k v \<longleftrightarrow> sharded_cached c k v \<and> k \<noteq> key)"
proof -
  define i where "i = Shard (HashSlice key)"
  define s where "s = sc_shard c ! i"
  note d = sharded_invD [OF inv, of "HashSlice key", folded i_def, folded s_def]
  from LRUErase_inv [OF d(1), of key "HashSlice key"] obtain s' where s': "LRUErase key (HashSlice key) s = Some s'" "shard_inv s'"
    "shard_held s' = shard_held s" "in_cache_set s' \<subseteq> in_cache_set s"
    "\<forall>k h v. shard_cached s' k h v \<longleftrightarrow> shard_cached s k h v \<and> (k, h) \<noteq> (key, HashSlice key)"
    "\<And>b. b \<in> in_cache_set s' \<or> 0 < shard_held s b \<Longrightarrow> entry_info s' b = entry_info s b" by blast
  have "shard_place i s'" by (rule shard_place_keep [OF d(2) s'(2)], rule s'(6)) (simp add: s'(3))
  then have "sharded_inv (set_shard i s' c)" by (rule set_shard_inv [OF inv s'(2)])
  moreover have "ShardedErase key c = Some (set_shard i s' c)" using s'(1) by (simp add: ShardedErase_def Let_def i_def s_def)
  moreover have "values_kept c (set_shard i s' c)"
    by (rule set_shard_values [OF d(3)], fold s_def, rule s'(6)) auto
  moreover have "sharded_held (set_shard i s' c) = sharded_held c" using s'(3) by (intro set_shard_same [OF d(3)]) (simp add: s_def)
  moreover have "sharded_cached (set_shard i s' c) k v \<longleftrightarrow> sharded_cached c k v \<and> k \<noteq> key" for k v
  proof -
    have "sharded_cached (set_shard i s' c) k v
        \<longleftrightarrow> (if Shard (HashSlice k) = i then shard_cached s k (HashSlice k) v \<and> k \<noteq> key else sharded_cached c k v)"
      using s'(5) by (auto simp: set_shard_cached [OF d(3)])
    then show ?thesis by (auto simp: sharded_cached_def s_def i_def)
  qed
  ultimately show ?thesis by blast
qed

lemma prune_shards_inv:
  assumes "\<forall>s \<in> set shards. shard_inv s"
  shows "\<exists>shards'. prune_shards shards = Some shards' \<and> length shards' = length shards
    \<and> (\<forall>i < length shards. LRUPrune (shards ! i) = Some (shards' ! i))"
  using assms
proof (induction shards)
  case (Cons s shards)
  then obtain shards' where *: "prune_shards shards = Some shards'" "length shards' = length shards"
    "\<forall>i < length shards. LRUPrune (shards ! i) = Some (shards' ! i)" by auto
  obtain s' where "LRUPrune s = Some s'" using LRUPrune_inv [of s] Cons.prems by auto
  then show ?case using * by (auto simp: nth_Cons split: nat.split)
qed simp

lemma ShardedPrune_inv:
  assumes inv: "sharded_inv c"
  shows "\<exists>c'. ShardedPrune c = Some c' \<and> sharded_inv c' \<and> sharded_held c' = sharded_held c \<and> values_kept c c'
    \<and> (\<forall>s \<in> set (sc_shard c'). lru_lru s = []) \<and> (\<forall>k v. sharded_cached c' k v \<longrightarrow> sharded_cached c k v)"
proof -
  have all: "\<forall>s \<in> set (sc_shard c). shard_inv s" using inv by (auto simp: sharded_inv_def in_set_conv_nth)
  obtain shards' where p: "prune_shards (sc_shard c) = Some shards'" "length shards' = length (sc_shard c)"
    "\<And>i. i < length (sc_shard c) \<Longrightarrow> LRUPrune (sc_shard c ! i) = Some (shards' ! i)" using prune_shards_inv [OF all] by blast
  have shard: "shard_inv (shards' ! i) \<and> shard_place i (shards' ! i) \<and> shard_held (shards' ! i) = shard_held (sc_shard c ! i)
      \<and> (\<forall>a. 0 < shard_held (sc_shard c ! i) a \<longrightarrow> LRUValue a (shards' ! i) = LRUValue a (sc_shard c ! i))
      \<and> lru_lru (shards' ! i) = [] \<and> (\<forall>k h v. shard_cached (shards' ! i) k h v \<longrightarrow> shard_cached (sc_shard c ! i) k h v)"
    if "i < length (sc_shard c)" for i
  proof -
    have "shard_inv (sc_shard c ! i)" and place: "shard_place i (sc_shard c ! i)" using inv that by (simp_all add: sharded_inv_def)
    from LRUPrune_inv [OF this(1)] p(3) [OF that] have s': "shard_inv (shards' ! i)" "shard_held (shards' ! i) = shard_held (sc_shard c ! i)"
      "lru_lru (shards' ! i) = []" "\<forall>k h v. shard_cached (shards' ! i) k h v \<longrightarrow> shard_cached (sc_shard c ! i) k h v"
      "\<And>b. b \<in> in_cache_set (shards' ! i) \<or> 0 < shard_held (sc_shard c ! i) b \<Longrightarrow> entry_info (shards' ! i) b = entry_info (sc_shard c ! i) b"
      by auto
    moreover have "LRUValue a (shards' ! i) = LRUValue a (sc_shard c ! i)" if "0 < shard_held (sc_shard c ! i) a" for a
      using s'(5) that by (simp add: LRUValue_info)
    moreover have "shard_place i (shards' ! i)" by (rule shard_place_keep [OF place s'(1)], rule s'(5)) (simp add: s'(2))
    ultimately show ?thesis by blast
  qed
  define c' where "c' = c\<lparr>sc_shard := shards'\<rparr>"
  have "ShardedPrune c = Some c'" using p(1) by (simp add: ShardedPrune_def c'_def)
  moreover have "sharded_inv c'" using inv shard p(2) by (auto simp: sharded_inv_def c'_def)
  moreover have "sharded_held c' = sharded_held c" using shard p(2) by (auto simp: sharded_held_def c'_def fun_eq_iff)
  moreover have "values_kept c c'" unfolding values_kept_def
  proof (intro allI impI)
    fix h assume "0 < sharded_held c h \<and> 0 < sharded_held c' h"
    then have h: "fst h < length (sc_shard c)" "0 < shard_held (sc_shard c ! fst h) (snd h)"
      by (simp_all add: sharded_held_def split: if_splits)
    then have "LRUValue (snd h) (shards' ! fst h) = LRUValue (snd h) (sc_shard c ! fst h)" using shard by blast
    then show "ShardedValue h c' = ShardedValue h c"
      using h(1) p(2) by (simp add: ShardedValue_def handle_entry_def LRUValue_def c'_def)
  qed
  moreover have "\<forall>s \<in> set (sc_shard c'). lru_lru s = []" using shard p(2) by (auto simp: c'_def in_set_conv_nth)
  moreover have "sharded_cached c' k v \<Longrightarrow> sharded_cached c k v" for k v
    using shard sharded_invD(3) [OF inv] by (auto simp: sharded_cached_def c'_def)
  ultimately show ?thesis by blast
qed

lemma prune_shards_account:
  "prune_shards shards = Some shards' \<Longrightarrow> \<forall>s \<in> set shards. shard_inv s \<Longrightarrow> map accounted shards' = map accounted shards"
proof (induction shards arbitrary: shards')
  case (Cons s shards)
  then obtain s' rest where *: "LRUPrune s = Some s'" "prune_shards shards = Some rest" "shards' = s' # rest" by (auto simp: bind_eq_Some_conv)
  then have "accounted s' = accounted s" using LRUPrune_account [of s s'] shard_finite [of s] Cons.prems(2) by (simp add: kept_account_def)
  then show ?case using * Cons by simp
qed simp

lemma ShardedPrune_account:
  assumes "sharded_inv c" "ShardedPrune c = Some c'"
  shows "sharded_accounted c' = sharded_accounted c"
proof -
  have "\<forall>s \<in> set (sc_shard c). shard_inv s" using assms(1) by (auto simp: sharded_inv_def in_set_conv_nth)
  then show ?thesis using assms(2) prune_shards_account by (fastforce simp: ShardedPrune_def sharded_accounted_def)
qed

text \<open>The destructor of a cache with no handle left calls the deleters of what is still cached.\<close>

lemma those_map:
  assumes "\<And>x. x \<in> set xs \<Longrightarrow> \<exists>y. f x = Some y"
  shows "those (map f xs) = Some (map (\<lambda>x. the (f x)) xs)"
  using assms by (induction xs) force+

lemma DestroyShardedLRUCache_empty:
  assumes inv: "sharded_inv c" and none: "sharded_held c = (\<lambda>_. 0)"
  shows "\<exists>c'. DestroyShardedLRUCache c = Some c' \<and> (\<forall>s \<in> set (sc_shard c'). lru_heap s = Map.empty)
    \<and> mset (concat (map lru_deleted (sc_shard c'))) = sharded_accounted c"
proof -
  have d: "\<exists>s'. DestroyLRUCache s = Some s' \<and> lru_heap s' = Map.empty \<and> mset (lru_deleted s') = accounted s" if "s \<in> set (sc_shard c)" for s
  proof -
    from that obtain i where i: "i < length (sc_shard c)" "s = sc_shard c ! i" by (auto simp: in_set_conv_nth)
    have "shard_held s a = sharded_held c (i, a)" for a using i by (simp add: sharded_held_def)
    then show ?thesis using i inv none by (intro DestroyLRUCache_empty) (auto simp: sharded_inv_def)
  qed
  define shards where "shards = map (\<lambda>s. the (DestroyLRUCache s)) (sc_shard c)"
  have "those (map DestroyLRUCache (rev (sc_shard c))) = Some (rev shards)"
    using d by (subst those_map) (auto simp: shards_def rev_map)
  then have "DestroyShardedLRUCache c = Some (c\<lparr>sc_shard := shards\<rparr>)" by (simp add: DestroyShardedLRUCache_def)
  moreover have "\<forall>s \<in> set shards. lru_heap s = Map.empty" using d by (force simp: shards_def)
  moreover have "map (\<lambda>s. mset (lru_deleted s)) shards = map accounted (sc_shard c)" using d by (force simp: shards_def)
  then have "mset (concat (map lru_deleted shards)) = sharded_accounted c"
    by (simp add: mset_concat sharded_accounted_def comp_def)
  ultimately show ?thesis by simp
qed

text \<open>A new cache.\<close>

lemma NewLRUCache_inv:
  "\<exists>s :: 'v LRUCache. NewLRUCache = Some s \<and> shard_inv s \<and> shard_held s = (\<lambda>_. 0) \<and> entry_info s = Map.empty \<and> in_cache_set s = {}
     \<and> accounted s = {#}"
proof -
  obtain t where t: "NewHandleTable (Map.empty :: 'v handles) = Some t" "table_ok (Map.empty :: 'v handles) t" "table_entries t = {}"
    using NewHandleTable_spec by blast
  then show ?thesis
    by (simp add: NewLRUCache_def shard_inv_but_def in_cache_set_def shard_held_def entry_info_def accounted_def live_values_def fun_eq_iff)
qed

lemma sum_list_replicate_empty: "sum_list (replicate n {#}) = {#}"
  by (induction n) simp_all

lemma NewShardedLRUCache_inv:
  "\<exists>c :: 'v ShardedLRUCache. NewShardedLRUCache capacity = Some c \<and> sharded_inv c \<and> sharded_held c = (\<lambda>_. 0)
     \<and> sharded_room c \<and> sharded_accounted c = {#} \<and> (\<forall>k v. \<not> sharded_cached c k v)"
proof -
  obtain s :: "'v LRUCache" where s: "NewLRUCache = Some s" "shard_inv s" "shard_held s = (\<lambda>_. 0)" "entry_info s = Map.empty"
    "in_cache_set s = {}" "accounted s = {#}" using NewLRUCache_inv by blast
  define per where "per = (capacity + (of_nat kNumShards - 1)) div of_nat kNumShards"
  define s' where "s' = SetCapacity per s"
  have "in_cache_set s' = in_cache_set s" "entry_info s' = entry_info s" "shard_held s' = shard_held s"
    by (simp_all add: s'_def SetCapacity_def in_cache_set_def entry_info_def shard_held_def fun_eq_iff)
  moreover from this have "shard_inv s'" using s(2) by (simp add: shard_inv_but_def) (simp add: s'_def SetCapacity_def)
  moreover have "shard_room s'" using calculation(2) s(4) unfolding s(5) shard_room_def calculation(1) by (simp add: entry_info_def fun_eq_iff)
  moreover have "accounted s' = {#}" using s(6) by (simp add: s'_def SetCapacity_def accounted_def live_values_def)
  ultimately have "sharded_inv \<lparr>sc_shard = replicate kNumShards s', sc_last_id = 0\<rparr>" "accounted s' = {#}" "shard_room s'" "shard_held s' = (\<lambda>_. 0)" "in_cache_set s' = {}"
    using s by (simp_all add: sharded_inv_def shard_place_def)
  then show ?thesis
    using s(1) Shard_less by (intro exI [of _ "\<lparr>sc_shard = replicate kNumShards s', sc_last_id = 0\<rparr>"])
      (auto simp: NewShardedLRUCache_def Let_def s'_def per_def sharded_held_def sharded_room_def sharded_cached_def shard_cached_def sharded_accounted_def sum_list_replicate_empty)
qed

text \<open>
  A capacity within fifteen of the largest \<open>size_t\<close> wraps around in the computation of the capacity of
  a shard, which is 0 then: the cache keeps nothing.
\<close>

lemma lru_capacity_wraps:
  "\<exists>c :: 'v ShardedLRUCache. NewShardedLRUCache (- 1) = Some c \<and> (\<forall>s \<in> set (sc_shard c). lru_capacity s = 0)"
proof -
  have "(- 1 + (of_nat kNumShards - 1) :: u64) div of_nat kNumShards = 0"
    by (simp add: kNumShards_def kNumShardBits_def)
  moreover obtain s :: "'v LRUCache" where "NewLRUCache = Some s" using NewLRUCache_inv by blast
  ultimately show ?thesis by (auto simp: NewShardedLRUCache_def Let_def SetCapacity_def intro!: exI)
qed

section \<open>The cache interface\<close>

definition lru_cache_ops :: "(bytes, 'v, nat \<times> nat, 'v ShardedLRUCache) cache_ops" where
  "lru_cache_ops = \<lparr>co_insert = (\<lambda>key value charge. ShardedInsert key value (of_nat charge)),
     co_lookup = ShardedLookup, co_release = ShardedRelease, co_value = ShardedValue, co_new_id = NewId\<rparr>"

lemma lru_cache_ops_simps [simp]:
  "co_insert lru_cache_ops k v n = ShardedInsert k v (of_nat n)" "co_lookup lru_cache_ops = ShardedLookup"
  "co_release lru_cache_ops = ShardedRelease" "co_value lru_cache_ops = ShardedValue" "co_new_id lru_cache_ops = NewId"
  by (simp_all add: lru_cache_ops_def)

interpretation lru: cache lru_cache_ops sharded_inv sharded_room sharded_held sharded_cached
proof
  fix c :: "'v ShardedLRUCache" and k and v :: 'v and n and h
  show "sharded_inv c \<Longrightarrow> sharded_room c \<Longrightarrow> \<exists>r c'. co_lookup lru_cache_ops k c = Some (r, c') \<and> sharded_inv c'
      \<and> sharded_cached c' = sharded_cached c
      \<and> (case r of
           None \<Rightarrow> c' = c \<and> (\<forall>v. \<not> sharded_cached c k v)
         | Some h \<Rightarrow> sharded_held c' = (sharded_held c)(h := Suc (sharded_held c h))
             \<and> (\<exists>v. co_value lru_cache_ops h c' = Some v \<and> sharded_cached c k v))"
    using ShardedLookup_inv [of c k] unfolding lru_cache_ops_simps by blast
  show "sharded_inv c \<Longrightarrow> sharded_room c \<Longrightarrow> \<exists>h c'. co_insert lru_cache_ops k v n c = Some (h, c') \<and> sharded_inv c'
      \<and> sharded_held c h = 0 \<and> sharded_held c' = (sharded_held c)(h := 1) \<and> co_value lru_cache_ops h c' = Some v
      \<and> (\<forall>k' v'. sharded_cached c' k' v' \<longrightarrow> sharded_cached c k' v' \<or> k' = k \<and> v' = v)"
    using ShardedInsert_inv [of c k v "of_nat n"] unfolding lru_cache_ops_simps by blast
  show "sharded_inv c \<Longrightarrow> 0 < sharded_held c h \<Longrightarrow> \<exists>c'. co_release lru_cache_ops h c = Some c' \<and> sharded_inv c'
      \<and> sharded_held c' = (sharded_held c)(h := sharded_held c h - 1) \<and> sharded_cached c' = sharded_cached c"
    using ShardedRelease_inv [of c h] unfolding lru_cache_ops_simps by blast
qed


section \<open>Runs of the cache\<close>

text \<open>
  A run of the cache with what its client knows: how often it holds a handle, the value that it read
  there, and for every key the last value that was inserted and not erased since. A handle is released
  only while it is held, and an operation that adds references needs room for them.
\<close>

inductive lru_run :: "u64 \<Rightarrow> 'v ShardedLRUCache \<Rightarrow> (nat \<times> nat \<Rightarrow> nat) \<Rightarrow> (nat \<times> nat \<Rightarrow> 'v option) \<Rightarrow> (bytes \<Rightarrow> 'v option)
    \<Rightarrow> (bytes \<times> 'v) list \<Rightarrow> bool"
  for capacity where
  run_new: "NewShardedLRUCache capacity = Some c \<Longrightarrow> lru_run capacity c (\<lambda>_. 0) Map.empty Map.empty []"
| run_insert: "lru_run capacity c held vals m ins \<Longrightarrow> sharded_room c \<Longrightarrow> ShardedInsert k v charge c = Some (h, c')
    \<Longrightarrow> lru_run capacity c' (held(h := Suc (held h))) (vals(h \<mapsto> v))
          (if 0 < lru_capacity (sc_shard c ! Shard (HashSlice k)) then m(k \<mapsto> v) else m) (ins @ [(k, v)])"
| run_hit: "lru_run capacity c held vals m ins \<Longrightarrow> sharded_room c \<Longrightarrow> ShardedLookup k c = Some (Some h, c')
    \<Longrightarrow> lru_run capacity c' (held(h := Suc (held h))) (vals(h := ShardedValue h c')) m ins"
| run_miss: "lru_run capacity c held vals m ins \<Longrightarrow> sharded_room c \<Longrightarrow> ShardedLookup k c = Some (None, c')
    \<Longrightarrow> lru_run capacity c' held vals m ins"
| run_release: "lru_run capacity c held vals m ins \<Longrightarrow> 0 < held h \<Longrightarrow> ShardedRelease h c = Some c'
    \<Longrightarrow> lru_run capacity c' (held(h := held h - 1)) vals m ins"
| run_erase: "lru_run capacity c held vals m ins \<Longrightarrow> ShardedErase k c = Some c'
    \<Longrightarrow> lru_run capacity c' held vals (m(k := None)) ins"
| run_prune: "lru_run capacity c held vals m ins \<Longrightarrow> ShardedPrune c = Some c' \<Longrightarrow> lru_run capacity c' held vals m ins"

definition run_ok :: "'v ShardedLRUCache \<Rightarrow> (nat \<times> nat \<Rightarrow> nat) \<Rightarrow> (nat \<times> nat \<Rightarrow> 'v option) \<Rightarrow> (bytes \<Rightarrow> 'v option) \<Rightarrow> bool" where
  "run_ok c held vals m \<longleftrightarrow> sharded_inv c \<and> sharded_held c = held \<and> (\<forall>h. 0 < held h \<longrightarrow> ShardedValue h c = vals h)
     \<and> (\<forall>k v. sharded_cached c k v \<longrightarrow> m k = Some v)"

lemma run_ok_keep:
  assumes "run_ok c held vals m" "sharded_inv c'" "values_kept c c'" "sharded_held c' = held'" "\<And>h. 0 < held' h \<Longrightarrow> 0 < held h"
    "\<And>k v. sharded_cached c' k v \<Longrightarrow> m' k = Some v"
  shows "run_ok c' held' vals m'"
  using assms unfolding run_ok_def values_kept_def by metis

lemma run_ok_hold:
  assumes ok: "run_ok c held vals m" and inv: "sharded_inv c'" "values_kept c c'" "sharded_held c' = held(h := Suc (held h))"
    and cached: "\<And>k v. sharded_cached c' k v \<Longrightarrow> m' k = Some v"
  shows "run_ok c' (held(h := Suc (held h))) (vals(h := ShardedValue h c')) m'"
proof -
  have "ShardedValue h' c' = (vals(h := ShardedValue h c')) h'" if "0 < (held(h := Suc (held h))) h'" for h'
    using that ok inv(2,3) by (cases "h' = h") (simp_all add: run_ok_def values_kept_def split_paired_All [symmetric] del: split_paired_All)
  then show ?thesis using inv cached unfolding run_ok_def by blast
qed

lemma lru_run_ok: "lru_run capacity c held vals m ins \<Longrightarrow> run_ok c held vals m"
proof (induction rule: lru_run.induct)
  case (run_new c)
  then show ?case using NewShardedLRUCache_inv [where 'v = 'a, of capacity] by (auto simp: run_ok_def)
next
  case (run_insert c held vals m ins k v charge h c')
  from run_insert.IH have inv: "sharded_inv c" "sharded_held c = held" "\<forall>k v. sharded_cached c k v \<longrightarrow> m k = Some v" by (simp_all add: run_ok_def)
  from ShardedInsert_inv [OF inv(1) run_insert.hyps(2), of k v charge] run_insert.hyps(3) have
    i: "sharded_inv c'" "held h = 0" "sharded_held c' = held(h := Suc (held h))" "ShardedValue h c' = Some v"
       "\<forall>k' v'. sharded_cached c' k' v' \<longrightarrow> sharded_cached c k' v'
          \<or> k' = k \<and> v' = v \<and> 0 < lru_capacity (sc_shard c ! Shard (HashSlice k))"
       "0 < lru_capacity (sc_shard c ! Shard (HashSlice k)) \<longrightarrow> (\<forall>v'. sharded_cached c' k v' \<longleftrightarrow> v' = v)" "values_kept c c'"
    by (auto simp: inv(2))
  have "(if 0 < lru_capacity (sc_shard c ! Shard (HashSlice k)) then m(k \<mapsto> v) else m) k' = Some v'" if "sharded_cached c' k' v'" for k' v'
    using i(5,6) that inv(3) by (cases "k' = k") auto
  from run_ok_hold [OF run_insert.IH i(1,7,3), OF this] show ?case unfolding i(4) .
next
  case (run_hit c held vals m ins k h c')
  from run_hit.IH have inv: "sharded_inv c" "sharded_held c = held" "\<forall>k v. sharded_cached c k v \<longrightarrow> m k = Some v" by (simp_all add: run_ok_def)
  from ShardedLookup_inv [OF inv(1) run_hit.hyps(2), of k] run_hit.hyps(3) have
    "sharded_inv c'" "values_kept c c'" "sharded_held c' = held(h := Suc (held h))" "sharded_cached c' = sharded_cached c"
    by (auto simp: inv(2))
  then show ?case using inv(3) by (intro run_ok_hold [OF run_hit.IH]) simp_all
next
  case (run_miss c held vals m ins k c')
  then show ?case using ShardedLookup_inv [of c k] by (auto simp: run_ok_def)
next
  case (run_release c held vals m ins h c')
  from run_release.IH have inv: "sharded_inv c" "sharded_held c = held" "\<forall>k v. sharded_cached c k v \<longrightarrow> m k = Some v" by (simp_all add: run_ok_def)
  from ShardedRelease_inv [OF inv(1), of h] run_release.hyps(2,3) have
    "sharded_inv c'" "values_kept c c'" "sharded_held c' = held(h := held h - 1)" "sharded_cached c' = sharded_cached c"
    by (auto simp: inv(2))
  then show ?case using inv(3) by (intro run_ok_keep [OF run_release.IH]) (auto split: if_splits)
next
  case (run_erase c held vals m ins k c')
  then show ?case using ShardedErase_inv [of c k] by (intro run_ok_keep [OF run_erase.IH]) (auto simp: run_ok_def)
next
  case (run_prune c held vals m ins c')
  then show ?case using ShardedPrune_inv [of c] by (intro run_ok_keep [OF run_prune.IH]) (auto simp: run_ok_def)
qed


lemma lru_run_account: "lru_run capacity c held vals m ins \<Longrightarrow> sharded_accounted c = mset ins"
proof (induction rule: lru_run.induct)
  case (run_new c)
  then show ?case using NewShardedLRUCache_inv [where 'v = 'a, of capacity] by auto
next
  case (run_insert c held vals m ins k v charge h c')
  then show ?case using lru_run_ok [OF run_insert.hyps(1)] ShardedInsert_account [of c k v charge h c'] by (simp add: run_ok_def)
next
  case (run_hit c held vals m ins k h c')
  then show ?case using lru_run_ok [OF run_hit.hyps(1)] ShardedLookup_account [of c k] by (simp add: run_ok_def)
next
  case (run_miss c held vals m ins k c')
  then show ?case using lru_run_ok [OF run_miss.hyps(1)] ShardedLookup_account [of c k] by (simp add: run_ok_def)
next
  case (run_release c held vals m ins h c')
  then show ?case using lru_run_ok [OF run_release.hyps(1)] ShardedRelease_account [of c h] by (simp add: run_ok_def)
next
  case (run_erase c held vals m ins k c')
  then show ?case using lru_run_ok [OF run_erase.hyps(1)] ShardedErase_account [of c k] by (simp add: run_ok_def)
next
  case (run_prune c held vals m ins c')
  then show ?case using lru_run_ok [OF run_prune.hyps(1)] ShardedPrune_account [of c] by (simp add: run_ok_def)
qed

section \<open>Properties\<close>

text \<open>
  C13: the sharded LRU cache is safe. In every state that a run of insertions, lookups, releases,
  erasures and prunings reaches from a new cache, no operation fails an assertion or touches freed
  memory: the value of a handle that the client holds is the one that it first read there, whatever
  was evicted or replaced since, and a held handle can be released; \<open>Erase\<close> and \<open>Prune\<close> succeed; and while
  the counters have room, \<open>Insert\<close> succeeds, and a lookup returns nothing or a handle to the last value
  that was inserted for the key and not erased.
\<close>

theorem lru_cache_safe:
  assumes "lru_run capacity c held vals m ins"
  shows "(\<forall>h. 0 < held h \<longrightarrow> ShardedValue h c = vals h \<and> (\<exists>c'. ShardedRelease h c = Some c'))
    \<and> (\<exists>c'. ShardedErase k c = Some c') \<and> (\<exists>c'. ShardedPrune c = Some c')
    \<and> (sharded_room c \<longrightarrow> (\<exists>h c'. ShardedInsert k v charge c = Some (h, c') \<and> ShardedValue h c' = Some v)
         \<and> (\<exists>r c'. ShardedLookup k c = Some (r, c') \<and> (\<forall>h. r = Some h \<longrightarrow> m k \<noteq> None \<and> ShardedValue h c' = m k)))"
proof -
  from lru_run_ok [OF assms] have ok: "sharded_inv c" "sharded_held c = held" "\<And>h. 0 < held h \<Longrightarrow> ShardedValue h c = vals h"
    "\<And>k v. sharded_cached c k v \<Longrightarrow> m k = Some v" unfolding run_ok_def by blast+
  have "\<exists>r c'. ShardedLookup k c = Some (r, c') \<and> (\<forall>h. r = Some h \<longrightarrow> m k \<noteq> None \<and> ShardedValue h c' = m k)" if room: "sharded_room c"
  proof -
    obtain r c' where r: "ShardedLookup k c = Some (r, c')"
      "\<And>h. r = Some h \<Longrightarrow> \<exists>v. ShardedValue h c' = Some v \<and> sharded_cached c k v"
      using ShardedLookup_inv [OF ok(1) room, of k] by (auto split: option.splits)
    then show ?thesis using ok(4) by fastforce
  qed
  moreover have "\<exists>h c'. ShardedInsert k v charge c = Some (h, c') \<and> ShardedValue h c' = Some v" if "sharded_room c"
    using ShardedInsert_inv [OF ok(1) that, of k v charge] by blast
  moreover have "\<exists>c'. ShardedRelease h c = Some c'" if "0 < held h" for h
    using ShardedRelease_inv [OF ok(1), of h, unfolded ok(2), OF that] by blast
  ultimately show ?thesis using ok(3) ShardedErase_inv [OF ok(1), of k] ShardedPrune_inv [OF ok(1)] by blast
qed

theorem lru_cache_safe_witness:
  "\<exists>c c' h. NewShardedLRUCache 16 = Some (c :: nat ShardedLRUCache) \<and> ShardedInsert [1] 7 1 c = Some (h, c')
     \<and> ShardedValue h c' = Some 7 \<and> (\<exists>c''. ShardedRelease h c' = Some c'')"
proof -
  obtain c :: "nat ShardedLRUCache" where c: "NewShardedLRUCache 16 = Some c" "sharded_room c" using NewShardedLRUCache_inv by blast
  from lru_cache_safe [OF run_new [OF c(1)], of "[1]" 7 1] c(2) obtain h c' where i: "ShardedInsert [1] 7 1 c = Some (h, c')" by blast
  from lru_cache_safe [OF run_insert [OF run_new [OF c(1)] c(2) i], THEN conjunct1, rule_format, of h]
  have "ShardedValue h c' = Some 7 \<and> (\<exists>c''. ShardedRelease h c' = Some c'')" by simp
  with c(1) i show ?thesis by blast
qed





text \<open>
  C25: no value is leaked or deleted twice. When the client of a cache has released every handle,
  the destructor succeeds and leaves no entry in memory, and over the life of the cache the deleter
  was called exactly once for each value that was inserted, evicted or not.
\<close>

theorem lru_deleter_once:
  assumes "lru_run capacity c (\<lambda>_. 0) vals m ins"
  shows "\<exists>c'. DestroyShardedLRUCache c = Some c' \<and> (\<forall>s \<in> set (sc_shard c'). lru_heap s = Map.empty)
    \<and> mset (concat (map lru_deleted (sc_shard c'))) = mset ins"
proof -
  have "sharded_inv c" "sharded_held c = (\<lambda>_. 0)" using lru_run_ok [OF assms] by (simp_all add: run_ok_def)
  from DestroyShardedLRUCache_empty [OF this] show ?thesis unfolding lru_run_account [OF assms] .
qed

theorem lru_deleter_once_witness:
  "\<exists>c c1 c2 c3 h. NewShardedLRUCache 16 = Some (c :: nat ShardedLRUCache) \<and> ShardedInsert [1] 7 1 c = Some (h, c1)
     \<and> ShardedRelease h c1 = Some c2 \<and> DestroyShardedLRUCache c2 = Some c3
     \<and> concat (map lru_deleted (sc_shard c3)) = [([1], 7)]"
proof -
  obtain c :: "nat ShardedLRUCache" where c: "NewShardedLRUCache 16 = Some c" "sharded_inv c" "sharded_held c = (\<lambda>_. 0)" "sharded_room c"
    using NewShardedLRUCache_inv by blast
  from ShardedInsert_inv [OF c(2,4), of "[1]" 7 1] obtain h c1 where i: "ShardedInsert [1] 7 1 c = Some (h, c1)"
    "sharded_inv c1" "sharded_held c1 = (sharded_held c)(h := 1)" by blast
  from ShardedRelease_inv [OF i(2), of h] i(3) obtain c2 where r: "ShardedRelease h c1 = Some c2" by auto
  note run = run_insert [OF run_new [OF c(1)] c(4) i(1)]
  have "((\<lambda>_. 0)(h := Suc 0))(h := 0) = (\<lambda>_. 0 :: nat)" by auto
  with run_release [OF run _ r] obtain vals m where "lru_run 16 c2 (\<lambda>_. 0) vals m [([1], 7)]" by auto
  from lru_deleter_once [OF this] obtain c3 where "DestroyShardedLRUCache c2 = Some c3"
    "mset (concat (map lru_deleted (sc_shard c3))) = mset [([1], 7)]" by blast
  then show ?thesis using c(1) i(1) r by (metis mset.simps mset_single_iff)
qed

end
