(* ===== verification/Table_Cached.thy ===== *)
theory Table_Cached
  imports Table_Get Sharded_Cache
begin

text \<open>
  Tables over the sharded LRU cache: the lookups of a table whose blocks go through a cache that it
  shares with other clients.
\<close>

lemma NewId_same:
  "sc_shard (snd (NewId c)) = sc_shard c"
  by (simp add: NewId_def Let_def)

text \<open>
  The states of the cache under a table: the table is opened on a new cache, then it looks up keys,
  and between its lookups the other clients insert under keys of their own, which do not begin with
  the number of this table, look up, release what they hold, erase and prune.
\<close>

inductive shared_cache :: "(nat \<times> nat, Block ShardedLRUCache) read_env \<Rightarrow> nat \<Rightarrow> u64 \<Rightarrow> Table \<Rightarrow> Block ShardedLRUCache \<Rightarrow> bool"
  for env file_size capacity where
  shared_open: "NewShardedLRUCache capacity = Some c \<Longrightarrow> TableOpen env file_size c = Some (Inr t, c') \<Longrightarrow> shared_cache env file_size capacity t c'"
| shared_get: "shared_cache env file_size capacity t c \<Longrightarrow> sharded_room c \<Longrightarrow> internal_key_ok k
    \<Longrightarrow> InternalGet env t options k c = Some (s, result, c') \<Longrightarrow> shared_cache env file_size capacity t c'"
| shared_insert: "shared_cache env file_size capacity t c \<Longrightarrow> sharded_room c \<Longrightarrow> take 8 k \<noteq> EncodeFixed64 (t_cache_id t)
    \<Longrightarrow> ShardedInsert k v charge c = Some (h, c') \<Longrightarrow> shared_cache env file_size capacity t c'"
| shared_lookup: "shared_cache env file_size capacity t c \<Longrightarrow> sharded_room c \<Longrightarrow> ShardedLookup k c = Some (r, c')
    \<Longrightarrow> shared_cache env file_size capacity t c'"
| shared_release: "shared_cache env file_size capacity t c \<Longrightarrow> 0 < sharded_held c h \<Longrightarrow> ShardedRelease h c = Some c'
    \<Longrightarrow> shared_cache env file_size capacity t c'"
| shared_erase: "shared_cache env file_size capacity t c \<Longrightarrow> ShardedErase k c = Some c' \<Longrightarrow> shared_cache env file_size capacity t c'"
| shared_prune: "shared_cache env file_size capacity t c \<Longrightarrow> ShardedPrune c = Some c' \<Longrightarrow> shared_cache env file_size capacity t c'"

lemma cache_coherent_mono:
  assumes "cache_coherent cached benv opts blks tid c"
    and "\<And>k v. cached c' k v \<Longrightarrow> cached c k v \<or> take 8 k \<noteq> EncodeFixed64 tid"
  shows "cache_coherent cached benv opts blks tid c'"
  unfolding cache_coherent_def
proof (intro allI impI)
  fix i b assume i: "i < length blks"
    and b: "cached c' (EncodeFixed64 tid @ EncodeFixed64 (bh_offset (block_handle benv opts blks i))) b"
  have "take 8 (EncodeFixed64 tid @ EncodeFixed64 (bh_offset (block_handle benv opts blks i))) = EncodeFixed64 tid"
    by (simp add: EncodeFixed64_def)
  with assms(2) [OF b] have "cached c (EncodeFixed64 tid @ EncodeFixed64 (bh_offset (block_handle benv opts blks i))) b" by simp
  then show "b = NewBlock (raw_block opts (blks ! i))" using assms(1) i by (simp add: cache_coherent_def)
qed

definition shared_ok ::
    "bytes table_env \<Rightarrow> table_options \<Rightarrow> (bytes \<times> bytes) list list \<Rightarrow> bytes list \<Rightarrow> bytes option \<Rightarrow> Table \<Rightarrow> Block ShardedLRUCache \<Rightarrow> bool" where
  "shared_ok benv opts blks seps fc t c \<longleftrightarrow> (\<exists>tid. t = opened_table benv opts blks seps fc tid \<and> sharded_inv c
     \<and> cache_coherent sharded_cached benv opts blks tid c)"

lemma shared_ok_inv: "shared_ok benv opts blks seps fc t c \<Longrightarrow> sharded_inv c"
  by (auto simp: shared_ok_def)

lemma shared_ok_mono:
  assumes "shared_ok benv opts blks seps fc t c" "sharded_inv c'"
    and "\<And>k v. sharded_cached c' k v \<Longrightarrow> sharded_cached c k v \<or> take 8 k \<noteq> EncodeFixed64 (t_cache_id t)"
  shows "shared_ok benv opts blks seps fc t c'"
proof -
  from assms(1) obtain tid where t: "t = opened_table benv opts blks seps fc tid" "cache_coherent sharded_cached benv opts blks tid c"
    by (auto simp: shared_ok_def)
  have "t_cache_id t = tid" by (simp add: t(1) opened_table_def)
  with assms(3) have "cache_coherent sharded_cached benv opts blks tid c'" by (intro cache_coherent_mono [OF t(2)]) blast
  then show ?thesis using assms(2) t(1) by (auto simp: shared_ok_def)
qed

lemma shared_ok_get:
  assumes fin: "finished_table benv opts blks seps fc" and rd: "reader_of benv opts blks seps fc env"
    and flt: "table_filter_ok benv opts blks fc env" and ca: "re_cache env = Some lru_cache_ops"
    and ok: "shared_ok benv opts blks seps fc t c" "sharded_room c" "internal_key_ok k"
  shows "\<exists>result c'. InternalGet env t options k c = Some (OK, result, c')
    \<and> (result = find (at_least k) (concat blks) \<or> result = None \<and> same_user k (find (at_least k) (concat blks)) = None)
    \<and> sharded_held c' = sharded_held c \<and> shared_ok benv opts blks seps fc t c'"
proof -
  from ok(1) obtain tid where t: "t = opened_table benv opts blks seps fc tid" "sharded_inv c" "cache_coherent sharded_cached benv opts blks tid c"
    by (auto simp: shared_ok_def)
  then have "cache_ready env sharded_inv sharded_room sharded_held sharded_cached benv opts blks tid c"
    using ok(2) lru.cache_axioms by (simp add: cache_ready_def ca)
  from InternalGet_finished [OF fin rd flt ok(3) this, of options] show ?thesis
    unfolding t(1) shared_ok_def cache_kept_def ca by auto
qed

lemma shared_cache_ok:
  assumes fin: "finished_table benv opts blks seps fc" and rd: "reader_of benv opts blks seps fc env"
    and flt: "table_filter_ok benv opts blks fc env" and ca: "re_cache env = Some lru_cache_ops"
    and "shared_cache env (length (table_file benv opts blks seps fc)) capacity t c"
  shows "shared_ok benv opts blks seps fc t c"
  using assms(5)
proof (induction rule: shared_cache.induct)
  case (shared_open c t c')
  then have c: "sharded_inv c" "\<And>k v. \<not> sharded_cached c k v" using NewShardedLRUCache_inv [where 'v = Block, of capacity] by auto
  from TableOpen_finished [OF fin rd, of c] shared_open(2) have t: "t = opened_table benv opts blks seps fc (fst (NewId c))" "c' = snd (NewId c)"
    by (simp_all add: ca case_prod_beta)
  then have "sharded_inv c'" "\<And>k v. \<not> sharded_cached c' k v" using c by (simp_all add: sharded_inv_def sharded_cached_def NewId_same)
  then show ?case using t(1) by (auto simp: shared_ok_def cache_coherent_def)
next
  case (shared_get t c k options s result c')
  from shared_ok_get [OF fin rd flt ca shared_get.IH shared_get.hyps(2,3), of options] shared_get.hyps(4) show ?case by auto
next
  case (shared_insert t c k v charge h c')
  from ShardedInsert_inv [OF shared_ok_inv [OF shared_insert.IH] shared_insert.hyps(2), of k v charge] shared_insert.hyps(3,4)
  show ?case by (intro shared_ok_mono [OF shared_insert.IH]) auto
next
  case (shared_lookup t c k r c')
  from ShardedLookup_inv [OF shared_ok_inv [OF shared_lookup.IH] shared_lookup.hyps(2), of k] shared_lookup.hyps(3)
  show ?case by (intro shared_ok_mono [OF shared_lookup.IH]) auto
next
  case (shared_release t c h c')
  from ShardedRelease_inv [OF shared_ok_inv [OF shared_release.IH] shared_release.hyps(2)] shared_release.hyps(3)
  show ?case by (intro shared_ok_mono [OF shared_release.IH]) auto
next
  case (shared_erase t c k c')
  from ShardedErase_inv [OF shared_ok_inv [OF shared_erase.IH], of k] shared_erase.hyps(2)
  show ?case by (intro shared_ok_mono [OF shared_erase.IH]) auto
next
  case (shared_prune t c c')
  from ShardedPrune_inv [OF shared_ok_inv [OF shared_prune.IH]] shared_prune.hyps(2)
  show ?case by (intro shared_ok_mono [OF shared_prune.IH]) auto
qed

section \<open>Properties\<close>

definition shared_reader :: "(u32 \<Rightarrow> bytes \<Rightarrow> u32) \<Rightarrow> (bytes \<Rightarrow> bytes option) \<Rightarrow>
    ((bytes list \<Rightarrow> bytes \<Rightarrow> bytes option) \<times> (bytes \<Rightarrow> bytes \<Rightarrow> bool option) \<times> bytes) option \<Rightarrow> bool \<Rightarrow> bool \<Rightarrow> bytes
    \<Rightarrow> (nat \<times> nat, Block ShardedLRUCache) read_env" where
  "shared_reader extend_crc uncompress p paranoid direct contents =
     mem_reader extend_crc uncompress p paranoid direct (Some lru_cache_ops) contents"




end
