(* ===== verification/Iterator.thy ===== *)
theory Iterator
  imports Key_Order Prelude Status
begin

text \<open>
  The iterator interface, \<open>include/leveldb/iterator.h\<close>, as a record of operations, which the iterators
  over other iterators take as an argument, with its contract as a locale, and the wrapper of
  \<open>table/iterator_wrapper.h\<close>. \<open>None\<close> is a failed assertion.
\<close>

section \<open>The interface\<close>

record 'i iter_ops =
  io_valid :: "'i \<Rightarrow> bool"
  io_key :: "'i \<Rightarrow> bytes option"
  io_value :: "'i \<Rightarrow> bytes option"
  io_next :: "'i \<Rightarrow> 'i option"
  io_prev :: "'i \<Rightarrow> 'i option"
  io_seek :: "bytes \<Rightarrow> 'i \<Rightarrow> 'i option"
  io_seek_to_first :: "'i \<Rightarrow> 'i option"
  io_seek_to_last :: "'i \<Rightarrow> 'i option"
  io_status :: "'i \<Rightarrow> Status"

section \<open>Positions in a list\<close>

text \<open>
  \<open>picks R P xs q\<close>: the position \<open>q\<close> holds the element of \<open>xs\<close> that comes first by \<open>R\<close> among those
  with \<open>P\<close>, and is \<open>None\<close> when there is none. Going backwards, \<open>R\<close> is the reversed order.
\<close>

definition picks :: "('a \<Rightarrow> 'a \<Rightarrow> bool) \<Rightarrow> ('a \<Rightarrow> bool) \<Rightarrow> 'a list \<Rightarrow> nat option \<Rightarrow> bool" where
  "picks R P xs q \<longleftrightarrow>
     (case q of
        None \<Rightarrow> \<forall>x \<in> set xs. \<not> P x
      | Some p \<Rightarrow> p < length xs \<and> P (xs ! p) \<and> (\<forall>x \<in> set xs. P x \<longrightarrow> x = xs ! p \<or> R (xs ! p) x))"

lemma picks_cong: "(\<And>x. x \<in> set xs \<Longrightarrow> P x \<longleftrightarrow> Q x) \<Longrightarrow> picks R P xs q \<longleftrightarrow> picks R Q xs q"
  by (auto simp: picks_def split: option.split)

lemma picks_SomeD: "picks R P xs (Some p) \<Longrightarrow> p < length xs \<and> P (xs ! p)"
  by (simp add: picks_def)

fun first_index :: "('a \<Rightarrow> bool) \<Rightarrow> 'a list \<Rightarrow> nat option" where
  "first_index P [] = None"
| "first_index P (x # xs) = (if P x then Some 0 else map_option Suc (first_index P xs))"

lemma first_index_None: "first_index P xs = None \<longleftrightarrow> (\<forall>x \<in> set xs. \<not> P x)"
  by (induction xs) auto

lemma first_index_Some: "first_index P xs = Some p \<Longrightarrow> p < length xs \<and> P (xs ! p) \<and> (\<forall>j < p. \<not> P (xs ! j))"
proof (induction xs arbitrary: p)
  case (Cons x xs)
  then show ?case by (cases p) (auto simp: nth_Cons split: if_splits nat.splits)
qed simp

lemma first_index_eqI: "p < length xs \<Longrightarrow> P (xs ! p) \<Longrightarrow> (\<And>j. j < p \<Longrightarrow> \<not> P (xs ! j)) \<Longrightarrow> first_index P xs = Some p"
proof (cases "first_index P xs")
  case (Some q)
  assume "p < length xs" "P (xs ! p)" "\<And>j. j < p \<Longrightarrow> \<not> P (xs ! j)"
  then show ?thesis using first_index_Some [OF Some] Some by (cases p q rule: linorder_cases) auto
qed (auto simp: first_index_None)

section \<open>The contract\<close>

definition sorted_by :: "('k \<Rightarrow> 'k \<Rightarrow> int) \<Rightarrow> ('k \<Rightarrow> bool) \<Rightarrow> ('k \<times> 'v) list \<Rightarrow> bool" where
  "sorted_by compare_keys valid xs \<longleftrightarrow>
     sorted_wrt (\<lambda>a b. compare_keys (fst a) (fst b) < 0) xs \<and> (\<forall>e \<in> set xs. valid (fst e))"

context key_order
begin

abbreviation entry_less :: "'k \<times> 'v \<Rightarrow> 'k \<times> 'v \<Rightarrow> bool" where
  "entry_less a b \<equiv> compare_keys (fst a) (fst b) < 0"

abbreviation sorted_entries :: "('k \<times> 'v) list \<Rightarrow> bool" where
  "sorted_entries \<equiv> sorted_by compare_keys valid"

lemma order_irrefl: "valid a \<Longrightarrow> \<not> compare_keys a a < 0"
  using order_swap [of a a] by auto

lemma order_zero: "valid a \<Longrightarrow> valid b \<Longrightarrow> compare_keys a b = 0 \<longleftrightarrow> \<not> compare_keys a b < 0 \<and> \<not> compare_keys b a < 0"
  using order_swap [of a b] order_swap [of b a] by auto

lemma entry_less_trans: "valid (fst a) \<Longrightarrow> valid (fst b) \<Longrightarrow> valid (fst c) \<Longrightarrow> entry_less a b \<Longrightarrow> entry_less b c \<Longrightarrow> entry_less a c"
  by (rule less_trans_order [of "fst a" "fst b" "fst c"])

lemma sorted_nth: "sorted_entries xs \<Longrightarrow> i < j \<Longrightarrow> j < length xs \<Longrightarrow> entry_less (xs ! i) (xs ! j)"
  by (simp add: sorted_by_def sorted_wrt_iff_nth_less)

lemma sorted_valid: "sorted_entries xs \<Longrightarrow> x \<in> set xs \<Longrightarrow> valid (fst x)"
  by (simp add: sorted_by_def)

lemma sorted_total: "sorted_entries xs \<Longrightarrow> x \<in> set xs \<Longrightarrow> y \<in> set xs \<Longrightarrow> x = y \<or> entry_less x y \<or> entry_less y x"
  unfolding in_set_conv_nth by (metis nat_neq_iff sorted_nth)

lemma sorted_less_iff:
  assumes "sorted_entries xs" "i < length xs" "j < length xs"
  shows "entry_less (xs ! i) (xs ! j) \<longleftrightarrow> i < j"
proof
  assume less: "entry_less (xs ! i) (xs ! j)"
  show "i < j"
  proof (rule ccontr)
    assume "\<not> i < j"
    then consider "i = j" | "j < i" by linarith
    then show False
    proof cases
      case 2
      then have "entry_less (xs ! j) (xs ! i)" using sorted_nth assms by blast
      moreover have "valid (fst (xs ! i))" "valid (fst (xs ! j))" using assms by (auto intro: sorted_valid)
      ultimately show False using less order_swap [of "fst (xs ! i)" "fst (xs ! j)"] by simp
    qed (use less assms order_irrefl [of "fst (xs ! i)"] sorted_valid [OF assms(1), of "xs ! i"] in simp)
  qed
qed (use sorted_nth assms in blast)

lemma sorted_distinct: "sorted_entries xs \<Longrightarrow> i < length xs \<Longrightarrow> j < length xs \<Longrightarrow> xs ! i = xs ! j \<longleftrightarrow> i = j"
  using sorted_less_iff by (metis nat_neq_iff)

lemma picks_first_index:
  assumes "sorted_entries xs"
  shows "picks entry_less P xs (first_index P xs)"
proof (cases "first_index P xs")
  case (Some p)
  have "x = xs ! p \<or> entry_less (xs ! p) x" if "x \<in> set xs" "P x" for x
    using that first_index_Some [OF Some] sorted_less_iff [OF assms] unfolding in_set_conv_nth by (metis nat_neq_iff)
  then show ?thesis using first_index_Some [OF Some] Some by (simp add: picks_def)
qed (use first_index_None [of P xs] in \<open>simp add: picks_def\<close>)

lemma picks_unique:
  assumes xs: "sorted_entries xs" and "picks R P xs q" "picks R P xs q'" and R: "R = entry_less \<or> R = (\<lambda>a b. entry_less b a)"
  shows "q = q'"
proof (cases q)
  case None
  then show ?thesis using assms(2,3) by (cases q') (auto simp: picks_def)
next
  case (Some p)
  then have "p < length xs" "P (xs ! p)" using assms(2) by (simp_all add: picks_def)
  then obtain p' where p': "q' = Some p'" "p' < length xs" "P (xs ! p')" using assms(3) by (cases q') (auto simp: picks_def)
  have "xs ! p = xs ! p' \<or> R (xs ! p) (xs ! p')" "xs ! p = xs ! p' \<or> R (xs ! p') (xs ! p)"
    using assms(2,3) Some p' \<open>p < length xs\<close> \<open>P (xs ! p)\<close> by (auto simp: picks_def)
  then have "p = p'" using R sorted_less_iff [OF xs] sorted_distinct [OF xs] p'(2) \<open>p < length xs\<close> by (metis less_asym)
  then show ?thesis using Some p' by simp
qed

lemma picks_next:
  assumes "sorted_entries xs" "p < length xs"
  shows "picks entry_less (entry_less (xs ! p)) xs (if Suc p < length xs then Some (Suc p) else None)"
proof -
  have "x = xs ! Suc p \<or> entry_less (xs ! Suc p) x" if "Suc p < length xs" "x \<in> set xs" "entry_less (xs ! p) x" for x
  proof -
    from that(2) obtain j where j: "j < length xs" "x = xs ! j" by (auto simp: in_set_conv_nth)
    then have "Suc p \<le> j" using that(3) sorted_less_iff [OF assms(1,2) j(1)] by simp
    then show ?thesis using j sorted_less_iff [OF assms(1) that(1) j(1)] by (cases "j = Suc p") auto
  qed
  moreover have "\<not> entry_less (xs ! p) x" if "\<not> Suc p < length xs" "x \<in> set xs" for x
    using that assms(2) sorted_less_iff [OF assms] by (auto simp: in_set_conv_nth)
  moreover have "Suc p < length xs \<Longrightarrow> entry_less (xs ! p) (xs ! Suc p)" using sorted_nth [OF assms(1)] by simp
  ultimately show ?thesis by (simp add: picks_def)
qed

lemma picks_prev:
  assumes "sorted_entries xs" "p < length xs"
  shows "picks (\<lambda>a b. entry_less b a) (\<lambda>x. entry_less x (xs ! p)) xs (if p = 0 then None else Some (p - 1))"
proof -
  have "x = xs ! (p - 1) \<or> entry_less x (xs ! (p - 1))" if "p \<noteq> 0" "x \<in> set xs" "entry_less x (xs ! p)" for x
  proof -
    from that(2) obtain j where j: "j < length xs" "x = xs ! j" by (auto simp: in_set_conv_nth)
    then have "j < p" using that(3) sorted_less_iff [OF assms(1) j(1) assms(2)] by simp
    then show ?thesis using j sorted_less_iff [OF assms(1) j(1), of "p - 1"] assms(2) by (cases "j = p - 1") auto
  qed
  moreover have "\<not> entry_less x (xs ! p)" if "p = 0" "x \<in> set xs" for x
    using that assms(2) sorted_less_iff [OF assms(1) _ assms(2)] by (auto simp: in_set_conv_nth)
  moreover have "p \<noteq> 0 \<Longrightarrow> entry_less (xs ! (p - 1)) (xs ! p)" using sorted_nth [OF assms(1), of "p - 1" p] assms(2) by simp
  ultimately show ?thesis using assms(2) by (auto simp: picks_def)
qed

lemma picks_head: "sorted_entries xs \<Longrightarrow> picks entry_less (\<lambda>_. True) xs (if xs = [] then None else Some 0)"
  using picks_first_index [of xs "\<lambda>_. True"] by (cases xs) simp_all

lemma picks_last:
  assumes "sorted_entries xs"
  shows "picks (\<lambda>a b. entry_less b a) (\<lambda>_. True) xs (if xs = [] then None else Some (length xs - 1))"
proof (cases "xs = []")
  case False
  have "x = xs ! (length xs - 1) \<or> entry_less x (xs ! (length xs - 1))" if "x \<in> set xs" for x
  proof -
    from that obtain j where j: "j < length xs" "x = xs ! j" by (auto simp: in_set_conv_nth)
    then show ?thesis using sorted_less_iff [OF assms j(1), of "length xs - 1"] False by (cases "j = length xs - 1") auto
  qed
  then show ?thesis using False by (simp add: picks_def)
qed (simp add: picks_def)

end

text \<open>
  \<open>rep it xs q\<close>: the iterator \<open>it\<close> runs over the entries \<open>xs\<close>, sorted by their keys, and is at
  position \<open>q\<close>, or not valid.
\<close>

locale sorted_iterator = key_order compare_keys valid
  for compare_keys :: "bytes \<Rightarrow> bytes \<Rightarrow> int" and valid :: "bytes \<Rightarrow> bool" +
  fixes ops :: "'i iter_ops" and rep :: "'i \<Rightarrow> (bytes \<times> bytes) list \<Rightarrow> nat option \<Rightarrow> bool"
  assumes rep_sorted: "rep it xs q \<Longrightarrow> sorted_entries xs"
    and rep_at: "rep it xs (Some p) \<Longrightarrow> p < length xs \<and> io_valid ops it
      \<and> io_key ops it = Some (fst (xs ! p)) \<and> io_value ops it = Some (snd (xs ! p))"
    and rep_off: "rep it xs None \<Longrightarrow> \<not> io_valid ops it"
    and rep_status: "rep it xs q \<Longrightarrow> io_status ops it = OK"
    and rep_next: "rep it xs (Some p) \<Longrightarrow> \<exists>it'. io_next ops it = Some it' \<and> rep it' xs (if Suc p < length xs then Some (Suc p) else None)"
    and rep_prev: "rep it xs (Some p) \<Longrightarrow> \<exists>it'. io_prev ops it = Some it' \<and> rep it' xs (if p = 0 then None else Some (p - 1))"
    and rep_seek: "rep it xs q \<Longrightarrow> valid k \<Longrightarrow> \<exists>it'. io_seek ops k it = Some it'
      \<and> rep it' xs (first_index (\<lambda>e. \<not> compare_keys (fst e) k < 0) xs)"
    and rep_first: "rep it xs q \<Longrightarrow> \<exists>it'. io_seek_to_first ops it = Some it' \<and> rep it' xs (if xs = [] then None else Some 0)"
    and rep_last: "rep it xs q \<Longrightarrow> \<exists>it'. io_seek_to_last ops it = Some it' \<and> rep it' xs (if xs = [] then None else Some (length xs - 1))"

section \<open>Sequences of moves\<close>

text \<open>A client's moves, on an iterator and on a position in the list that it runs over.\<close>

datatype client_move = MoveNext | MovePrev | MoveSeek bytes | MoveFirst | MoveLast

fun iter_move :: "'i iter_ops \<Rightarrow> client_move \<Rightarrow> 'i \<Rightarrow> 'i option" where
  "iter_move ops MoveNext = io_next ops"
| "iter_move ops MovePrev = io_prev ops"
| "iter_move ops (MoveSeek k) = io_seek ops k"
| "iter_move ops MoveFirst = io_seek_to_first ops"
| "iter_move ops MoveLast = io_seek_to_last ops"

fun iter_run :: "'i iter_ops \<Rightarrow> client_move list \<Rightarrow> 'i \<Rightarrow> 'i option" where
  "iter_run ops [] it = Some it"
| "iter_run ops (m # ms) it = Option.bind (iter_move ops m it) (iter_run ops ms)"

definition iter_entry :: "'i iter_ops \<Rightarrow> 'i \<Rightarrow> (bytes \<times> bytes) option" where
  "iter_entry ops it =
     (if io_valid ops it then Option.bind (io_key ops it) (\<lambda>k. map_option (Pair k) (io_value ops it)) else None)"

fun cursor_move :: "('k \<Rightarrow> bytes \<Rightarrow> int) \<Rightarrow> ('k \<times> 'v) list \<Rightarrow> client_move \<Rightarrow> nat option \<Rightarrow> nat option option" where
  "cursor_move compare xs MoveNext q = map_option (\<lambda>p. if Suc p < length xs then Some (Suc p) else None) q"
| "cursor_move compare xs MovePrev q = map_option (\<lambda>p. if p = 0 then None else Some (p - 1)) q"
| "cursor_move compare xs (MoveSeek k) q = Some (first_index (\<lambda>e. \<not> compare (fst e) k < 0) xs)"
| "cursor_move compare xs MoveFirst q = Some (if xs = [] then None else Some 0)"
| "cursor_move compare xs MoveLast q = Some (if xs = [] then None else Some (length xs - 1))"

fun cursor_run :: "('k \<Rightarrow> bytes \<Rightarrow> int) \<Rightarrow> ('k \<times> 'v) list \<Rightarrow> client_move list \<Rightarrow> nat option \<Rightarrow> nat option option" where
  "cursor_run compare xs [] q = Some q"
| "cursor_run compare xs (m # ms) q = Option.bind (cursor_move compare xs m q) (cursor_run compare xs ms)"

definition seeks_ok :: "(bytes \<Rightarrow> bool) \<Rightarrow> client_move list \<Rightarrow> bool" where
  "seeks_ok valid ms \<longleftrightarrow> (\<forall>k. MoveSeek k \<in> set ms \<longrightarrow> valid k)"

context sorted_iterator
begin

lemma move_refines:
  assumes "rep it xs q" "cursor_move compare_keys xs m q = Some q'" "\<And>k. m = MoveSeek k \<Longrightarrow> valid k"
  shows "\<exists>it'. iter_move ops m it = Some it' \<and> rep it' xs q'"
proof (cases m)
  case MoveNext
  then show ?thesis using assms rep_next by (cases q) auto
next
  case MovePrev
  then show ?thesis using assms rep_prev by (cases q) auto
next
  case (MoveSeek k)
  then show ?thesis using assms rep_seek [OF assms(1), of k] by simp
next
  case MoveFirst
  then show ?thesis using assms rep_first [OF assms(1)] by simp
next
  case MoveLast
  then show ?thesis using assms rep_last [OF assms(1)] by simp
qed

lemma run_refines:
  assumes "rep it xs q" "cursor_run compare_keys xs ms q = Some q'" "seeks_ok valid ms"
  shows "\<exists>it'. iter_run ops ms it = Some it' \<and> rep it' xs q'"
  using assms
proof (induction ms arbitrary: it q)
  case (Cons m ms)
  from Cons.prems(2) obtain q1 where q1: "cursor_move compare_keys xs m q = Some q1" "cursor_run compare_keys xs ms q1 = Some q'"
    by (auto split: bind_splits)
  have "valid k" if "m = MoveSeek k" for k using Cons.prems(3) that by (simp add: seeks_ok_def)
  from move_refines [OF Cons.prems(1) q1(1) this] obtain it1 where it1: "iter_move ops m it = Some it1" "rep it1 xs q1" by blast
  moreover have "seeks_ok valid ms" using Cons.prems(3) by (simp add: seeks_ok_def)
  ultimately show ?case using Cons.IH [OF it1(2) q1(2)] by simp
qed simp

lemma rep_entry: "rep it xs q \<Longrightarrow> iter_entry ops it = map_option ((!) xs) q"
  using rep_at [of it xs] rep_off [of it xs] by (cases q) (auto simp: iter_entry_def)

lemma run_observed:
  assumes "rep it xs q" "cursor_run compare_keys xs ms q = Some q'" "seeks_ok valid ms"
  shows "\<exists>it'. iter_run ops ms it = Some it' \<and> iter_entry ops it' = map_option ((!) xs) q' \<and> io_status ops it' = OK"
  using run_refines [OF assms] rep_entry rep_status by blast

end

section \<open>The wrapper\<close>

text \<open>\<open>IteratorWrapper\<close> keeps a copy of \<open>Valid()\<close> and \<open>key()\<close>, which every move renews.\<close>

record 'i IteratorWrapper =
  iw_iter :: 'i
  iw_valid :: bool
  iw_key :: bytes

definition WrapperUpdate :: "'i iter_ops \<Rightarrow> 'i IteratorWrapper \<Rightarrow> 'i IteratorWrapper option" where
  "WrapperUpdate ops w =
     (let w = w\<lparr>iw_valid := io_valid ops (iw_iter w)\<rparr> in
      if iw_valid w then map_option (\<lambda>k. w\<lparr>iw_key := k\<rparr>) (io_key ops (iw_iter w)) else Some w)"

definition WrapperSet :: "'i iter_ops \<Rightarrow> 'i \<Rightarrow> 'i IteratorWrapper option" where
  "WrapperSet ops it = WrapperUpdate ops \<lparr>iw_iter = it, iw_valid = False, iw_key = []\<rparr>"

definition wrapper_move :: "'i iter_ops \<Rightarrow> ('i \<Rightarrow> 'i option) \<Rightarrow> 'i IteratorWrapper \<Rightarrow> 'i IteratorWrapper option" where
  "wrapper_move ops move w = Option.bind (move (iw_iter w)) (\<lambda>it. WrapperUpdate ops (w\<lparr>iw_iter := it\<rparr>))"

definition wrapper_ops :: "'i iter_ops \<Rightarrow> 'i IteratorWrapper iter_ops" where
  "wrapper_ops ops =
     \<lparr>io_valid = iw_valid,
      io_key = (\<lambda>w. if iw_valid w then Some (iw_key w) else None),
      io_value = (\<lambda>w. if iw_valid w then io_value ops (iw_iter w) else None),
      io_next = wrapper_move ops (io_next ops),
      io_prev = wrapper_move ops (io_prev ops),
      io_seek = (\<lambda>k. wrapper_move ops (io_seek ops k)),
      io_seek_to_first = wrapper_move ops (io_seek_to_first ops),
      io_seek_to_last = wrapper_move ops (io_seek_to_last ops),
      io_status = (\<lambda>w. io_status ops (iw_iter w))\<rparr>"

definition wrapper_rep ::
    "'i iter_ops \<Rightarrow> ('i \<Rightarrow> (bytes \<times> bytes) list \<Rightarrow> nat option \<Rightarrow> bool) \<Rightarrow> 'i IteratorWrapper \<Rightarrow> (bytes \<times> bytes) list \<Rightarrow> nat option \<Rightarrow> bool" where
  "wrapper_rep ops rep w xs q \<longleftrightarrow> rep (iw_iter w) xs q \<and> iw_valid w = io_valid ops (iw_iter w)
     \<and> (iw_valid w \<longrightarrow> io_key ops (iw_iter w) = Some (iw_key w))"

lemma wrapper_ops_simps:
  "io_valid (wrapper_ops ops) w = iw_valid w" "io_next (wrapper_ops ops) w = wrapper_move ops (io_next ops) w"
  "io_prev (wrapper_ops ops) w = wrapper_move ops (io_prev ops) w" "io_seek (wrapper_ops ops) k w = wrapper_move ops (io_seek ops k) w"
  "io_seek_to_first (wrapper_ops ops) w = wrapper_move ops (io_seek_to_first ops) w"
  "io_seek_to_last (wrapper_ops ops) w = wrapper_move ops (io_seek_to_last ops) w"
  by (simp_all add: wrapper_ops_def)

context sorted_iterator
begin

lemma WrapperUpdate_rep: "rep (iw_iter w) xs q \<Longrightarrow> \<exists>w'. WrapperUpdate ops w = Some w' \<and> wrapper_rep ops rep w' xs q"
  using rep_at [of "iw_iter w" xs] rep_off [of "iw_iter w" xs] by (cases q) (auto simp: WrapperUpdate_def wrapper_rep_def)

lemma WrapperSet_rep: "rep it xs q \<Longrightarrow> \<exists>w. WrapperSet ops it = Some w \<and> wrapper_rep ops rep w xs q"
  unfolding WrapperSet_def by (rule WrapperUpdate_rep) simp

lemma wrapper_move_rep:
  assumes "\<exists>it'. move (iw_iter w) = Some it' \<and> rep it' xs q"
  shows "\<exists>w'. wrapper_move ops move w = Some w' \<and> wrapper_rep ops rep w' xs q"
proof -
  from assms obtain it' where it': "move (iw_iter w) = Some it'" "rep it' xs q" by blast
  with WrapperUpdate_rep [of "w\<lparr>iw_iter := it'\<rparr>" xs q] show ?thesis by (simp add: wrapper_move_def)
qed

lemma wrapper_sorted_iterator: "sorted_iterator compare_keys valid (wrapper_ops ops) (wrapper_rep ops rep)"
proof unfold_locales
  fix w xs q p k
  show "wrapper_rep ops rep w xs q \<Longrightarrow> sorted_entries xs" by (auto simp: wrapper_rep_def intro: rep_sorted)
  show "wrapper_rep ops rep w xs (Some p) \<Longrightarrow> p < length xs \<and> io_valid (wrapper_ops ops) w
      \<and> io_key (wrapper_ops ops) w = Some (fst (xs ! p)) \<and> io_value (wrapper_ops ops) w = Some (snd (xs ! p))"
    using rep_at [of "iw_iter w" xs p] by (auto simp: wrapper_rep_def wrapper_ops_def)
  show "wrapper_rep ops rep w xs None \<Longrightarrow> \<not> io_valid (wrapper_ops ops) w"
    using rep_off by (auto simp: wrapper_rep_def wrapper_ops_def)
  show "wrapper_rep ops rep w xs q \<Longrightarrow> io_status (wrapper_ops ops) w = OK"
    using rep_status by (auto simp: wrapper_rep_def wrapper_ops_def)
  show "wrapper_rep ops rep w xs (Some p) \<Longrightarrow> \<exists>w'. io_next (wrapper_ops ops) w = Some w'
      \<and> wrapper_rep ops rep w' xs (if Suc p < length xs then Some (Suc p) else None)"
    unfolding wrapper_ops_simps by (rule wrapper_move_rep, rule rep_next) (simp_all add: wrapper_rep_def)
  show "wrapper_rep ops rep w xs (Some p) \<Longrightarrow> \<exists>w'. io_prev (wrapper_ops ops) w = Some w'
      \<and> wrapper_rep ops rep w' xs (if p = 0 then None else Some (p - 1))"
    unfolding wrapper_ops_simps by (rule wrapper_move_rep, rule rep_prev) (simp_all add: wrapper_rep_def)
  show "wrapper_rep ops rep w xs q \<Longrightarrow> valid k \<Longrightarrow> \<exists>w'. io_seek (wrapper_ops ops) k w = Some w'
      \<and> wrapper_rep ops rep w' xs (first_index (\<lambda>e. \<not> compare_keys (fst e) k < 0) xs)"
    unfolding wrapper_ops_simps by (rule wrapper_move_rep, rule rep_seek [where q = q]) (simp_all add: wrapper_rep_def)
  show "wrapper_rep ops rep w xs q \<Longrightarrow> \<exists>w'. io_seek_to_first (wrapper_ops ops) w = Some w'
      \<and> wrapper_rep ops rep w' xs (if xs = [] then None else Some 0)"
    unfolding wrapper_ops_simps by (rule wrapper_move_rep, rule rep_first [where q = q]) (simp_all add: wrapper_rep_def)
  show "wrapper_rep ops rep w xs q \<Longrightarrow> \<exists>w'. io_seek_to_last (wrapper_ops ops) w = Some w'
      \<and> wrapper_rep ops rep w' xs (if xs = [] then None else Some (length xs - 1))"
    unfolding wrapper_ops_simps by (rule wrapper_move_rep, rule rep_last [where q = q]) (simp_all add: wrapper_rep_def)
qed

end

end
