(* ===== verification/Merger.thy ===== *)
theory Merger
  imports Iterator
begin

text \<open>
  The merging iterator, \<open>table/merger.cc\<close>: an iterator over the entries of several sorted iterators.
  The children are wrapped, and the operations of the wrapped iterators are an argument.
\<close>

section \<open>State and operations\<close>

datatype Direction = kForward | kReverse

record 'i MergingIterator =
  mi_children :: "'i IteratorWrapper list"
  mi_current :: "nat option"
  mi_direction :: Direction

fun set_children :: "'i iter_ops \<Rightarrow> 'i list \<Rightarrow> 'i IteratorWrapper list option" where
  "set_children ops [] = Some []"
| "set_children ops (it # its) = Option.bind (WrapperSet ops it) (\<lambda>w. map_option (Cons w) (set_children ops its))"

definition MakeMergingIterator :: "'i iter_ops \<Rightarrow> 'i list \<Rightarrow> 'i MergingIterator option" where
  "MakeMergingIterator ops children =
     map_option (\<lambda>ws. \<lparr>mi_children = ws, mi_current = None, mi_direction = kForward\<rparr>) (set_children ops children)"

text \<open>The loops of \<open>FindSmallest\<close> and \<open>FindLargest\<close>, which differ in the order of the children and the test.\<close>

fun select_loop ::
    "'i iter_ops \<Rightarrow> (bytes \<Rightarrow> bytes \<Rightarrow> bool) \<Rightarrow> 'i IteratorWrapper list \<Rightarrow> nat list \<Rightarrow> nat option \<Rightarrow> nat option option" where
  "select_loop ops better children [] selected = Some selected"
| "select_loop ops better children (i # is) selected =
     (if io_valid (wrapper_ops ops) (children ! i) then
        (case selected of
           None \<Rightarrow> select_loop ops better children is (Some i)
         | Some j \<Rightarrow>
             Option.bind (io_key (wrapper_ops ops) (children ! i)) (\<lambda>child_key.
             Option.bind (io_key (wrapper_ops ops) (children ! j)) (\<lambda>selected_key.
               select_loop ops better children is (Some (if better child_key selected_key then i else j)))))
      else select_loop ops better children is selected)"

definition FindSmallest :: "'i iter_ops \<Rightarrow> (bytes \<Rightarrow> bytes \<Rightarrow> int) \<Rightarrow> 'i MergingIterator \<Rightarrow> 'i MergingIterator option" where
  "FindSmallest ops compare m =
     map_option (\<lambda>smallest. m\<lparr>mi_current := smallest\<rparr>)
       (select_loop ops (\<lambda>a b. compare a b < 0) (mi_children m) [0..<length (mi_children m)] None)"

definition FindLargest :: "'i iter_ops \<Rightarrow> (bytes \<Rightarrow> bytes \<Rightarrow> int) \<Rightarrow> 'i MergingIterator \<Rightarrow> 'i MergingIterator option" where
  "FindLargest ops compare m =
     map_option (\<lambda>largest. m\<lparr>mi_current := largest\<rparr>)
       (select_loop ops (\<lambda>a b. compare a b > 0) (mi_children m) (rev [0..<length (mi_children m)]) None)"

text \<open>A move of the children one after the other; \<open>skip\<close> is the child that stays where it is.\<close>

fun move_children ::
    "('i IteratorWrapper \<Rightarrow> 'i IteratorWrapper option) \<Rightarrow> nat option \<Rightarrow> nat list \<Rightarrow> 'i IteratorWrapper list \<Rightarrow> 'i IteratorWrapper list option" where
  "move_children move skip [] children = Some children"
| "move_children move skip (i # is) children =
     (if skip = Some i then move_children move skip is children
      else Option.bind (move (children ! i)) (\<lambda>w. move_children move skip is (children[i := w])))"

definition move_all ::
    "('i IteratorWrapper \<Rightarrow> 'i IteratorWrapper option) \<Rightarrow> nat option \<Rightarrow> 'i MergingIterator \<Rightarrow> 'i MergingIterator option" where
  "move_all move skip m =
     map_option (\<lambda>ws. m\<lparr>mi_children := ws\<rparr>) (move_children move skip [0..<length (mi_children m)] (mi_children m))"

definition MergeSeekToFirst :: "'i iter_ops \<Rightarrow> (bytes \<Rightarrow> bytes \<Rightarrow> int) \<Rightarrow> 'i MergingIterator \<Rightarrow> 'i MergingIterator option" where
  "MergeSeekToFirst ops compare m =
     Option.bind (move_all (io_seek_to_first (wrapper_ops ops)) None m) (\<lambda>m.
       map_option (\<lambda>m. m\<lparr>mi_direction := kForward\<rparr>) (FindSmallest ops compare m))"

definition MergeSeekToLast :: "'i iter_ops \<Rightarrow> (bytes \<Rightarrow> bytes \<Rightarrow> int) \<Rightarrow> 'i MergingIterator \<Rightarrow> 'i MergingIterator option" where
  "MergeSeekToLast ops compare m =
     Option.bind (move_all (io_seek_to_last (wrapper_ops ops)) None m) (\<lambda>m.
       map_option (\<lambda>m. m\<lparr>mi_direction := kReverse\<rparr>) (FindLargest ops compare m))"

definition MergeSeek :: "'i iter_ops \<Rightarrow> (bytes \<Rightarrow> bytes \<Rightarrow> int) \<Rightarrow> bytes \<Rightarrow> 'i MergingIterator \<Rightarrow> 'i MergingIterator option" where
  "MergeSeek ops compare target m =
     Option.bind (move_all (io_seek (wrapper_ops ops) target) None m) (\<lambda>m.
       map_option (\<lambda>m. m\<lparr>mi_direction := kForward\<rparr>) (FindSmallest ops compare m))"

definition MergeValid :: "'i MergingIterator \<Rightarrow> bool" where
  "MergeValid m \<longleftrightarrow> mi_current m \<noteq> None"

definition MergeKey :: "'i iter_ops \<Rightarrow> 'i MergingIterator \<Rightarrow> bytes option" where
  "MergeKey ops m = Option.bind (mi_current m) (\<lambda>i. io_key (wrapper_ops ops) (mi_children m ! i))"

definition MergeValue :: "'i iter_ops \<Rightarrow> 'i MergingIterator \<Rightarrow> bytes option" where
  "MergeValue ops m = Option.bind (mi_current m) (\<lambda>i. io_value (wrapper_ops ops) (mi_children m ! i))"

text \<open>The children are put after, or before, the key when the direction changes.\<close>

definition seek_after :: "'i iter_ops \<Rightarrow> (bytes \<Rightarrow> bytes \<Rightarrow> int) \<Rightarrow> bytes \<Rightarrow> 'i IteratorWrapper \<Rightarrow> 'i IteratorWrapper option" where
  "seek_after ops compare key w =
     Option.bind (io_seek (wrapper_ops ops) key w) (\<lambda>w.
       if io_valid (wrapper_ops ops) w then
         Option.bind (io_key (wrapper_ops ops) w) (\<lambda>child_key.
           if compare key child_key = 0 then io_next (wrapper_ops ops) w else Some w)
       else Some w)"

definition seek_before :: "'i iter_ops \<Rightarrow> bytes \<Rightarrow> 'i IteratorWrapper \<Rightarrow> 'i IteratorWrapper option" where
  "seek_before ops key w =
     Option.bind (io_seek (wrapper_ops ops) key w) (\<lambda>w.
       if io_valid (wrapper_ops ops) w then io_prev (wrapper_ops ops) w
       else io_seek_to_last (wrapper_ops ops) w)"

definition move_current ::
    "('i IteratorWrapper \<Rightarrow> 'i IteratorWrapper option) \<Rightarrow> 'i MergingIterator \<Rightarrow> 'i MergingIterator option" where
  "move_current move m =
     Option.bind (mi_current m) (\<lambda>i.
       map_option (\<lambda>w. m\<lparr>mi_children := (mi_children m)[i := w]\<rparr>) (move (mi_children m ! i)))"

text \<open>The change of direction at the start of \<open>Next\<close> and of \<open>Prev\<close>.\<close>

definition turn_forward :: "'i iter_ops \<Rightarrow> (bytes \<Rightarrow> bytes \<Rightarrow> int) \<Rightarrow> 'i MergingIterator \<Rightarrow> 'i MergingIterator option" where
  "turn_forward ops compare m =
     (if mi_direction m \<noteq> kForward then
        Option.bind (MergeKey ops m) (\<lambda>key.
          map_option (\<lambda>m. m\<lparr>mi_direction := kForward\<rparr>) (move_all (seek_after ops compare key) (mi_current m) m))
      else Some m)"

definition turn_reverse :: "'i iter_ops \<Rightarrow> 'i MergingIterator \<Rightarrow> 'i MergingIterator option" where
  "turn_reverse ops m =
     (if mi_direction m \<noteq> kReverse then
        Option.bind (MergeKey ops m) (\<lambda>key.
          map_option (\<lambda>m. m\<lparr>mi_direction := kReverse\<rparr>) (move_all (seek_before ops key) (mi_current m) m))
      else Some m)"

definition MergeNext :: "'i iter_ops \<Rightarrow> (bytes \<Rightarrow> bytes \<Rightarrow> int) \<Rightarrow> 'i MergingIterator \<Rightarrow> 'i MergingIterator option" where
  "MergeNext ops compare m =
     (if \<not> MergeValid m then None
      else
        Option.bind (turn_forward ops compare m) (\<lambda>m.
        Option.bind (move_current (io_next (wrapper_ops ops)) m) (FindSmallest ops compare)))"

definition MergePrev :: "'i iter_ops \<Rightarrow> (bytes \<Rightarrow> bytes \<Rightarrow> int) \<Rightarrow> 'i MergingIterator \<Rightarrow> 'i MergingIterator option" where
  "MergePrev ops compare m =
     (if \<not> MergeValid m then None
      else
        Option.bind (turn_reverse ops m) (\<lambda>m.
        Option.bind (move_current (io_prev (wrapper_ops ops)) m) (FindLargest ops compare)))"

fun merge_status :: "'i iter_ops \<Rightarrow> 'i IteratorWrapper list \<Rightarrow> Status" where
  "merge_status ops [] = OK"
| "merge_status ops (w # ws) =
     (if io_status (wrapper_ops ops) w \<noteq> OK then io_status (wrapper_ops ops) w else merge_status ops ws)"

definition MergeStatus :: "'i iter_ops \<Rightarrow> 'i MergingIterator \<Rightarrow> Status" where
  "MergeStatus ops m = merge_status ops (mi_children m)"

definition merging_ops :: "'i iter_ops \<Rightarrow> (bytes \<Rightarrow> bytes \<Rightarrow> int) \<Rightarrow> 'i MergingIterator iter_ops" where
  "merging_ops ops compare =
     \<lparr>io_valid = MergeValid, io_key = MergeKey ops, io_value = MergeValue ops, io_next = MergeNext ops compare,
      io_prev = MergePrev ops compare, io_seek = MergeSeek ops compare, io_seek_to_first = MergeSeekToFirst ops compare,
      io_seek_to_last = MergeSeekToLast ops compare, io_status = MergeStatus ops\<rparr>"


text \<open>
  \<open>NewMergingIterator\<close> gives the empty iterator for no child, and the child itself for one. The moves of
  the empty iterator are \<open>EmptyIterator\<close> of \<open>table/iterator.cc\<close>.
\<close>

datatype 'i MergedIterator = NoChildren | OneChild 'i | ManyChildren "'i MergingIterator"

definition NewMergingIterator :: "'i iter_ops \<Rightarrow> 'i list \<Rightarrow> 'i MergedIterator option" where
  "NewMergingIterator ops children =
     (case children of
        [] \<Rightarrow> Some NoChildren
      | [child] \<Rightarrow> Some (OneChild child)
      | _ \<Rightarrow> map_option ManyChildren (MakeMergingIterator ops children))"

definition merged_move ::
    "'i MergedIterator option \<Rightarrow> ('i \<Rightarrow> 'i option) \<Rightarrow> ('i MergingIterator \<Rightarrow> 'i MergingIterator option) \<Rightarrow> 'i MergedIterator
      \<Rightarrow> 'i MergedIterator option" where
  "merged_move none one many it =
     (case it of
        NoChildren \<Rightarrow> none
      | OneChild child \<Rightarrow> map_option OneChild (one child)
      | ManyChildren m \<Rightarrow> map_option ManyChildren (many m))"

definition merged_ops :: "'i iter_ops \<Rightarrow> (bytes \<Rightarrow> bytes \<Rightarrow> int) \<Rightarrow> 'i MergedIterator iter_ops" where
  "merged_ops ops compare =
     \<lparr>io_valid = case_MergedIterator False (io_valid ops) MergeValid,
      io_key = case_MergedIterator None (io_key ops) (MergeKey ops),
      io_value = case_MergedIterator None (io_value ops) (MergeValue ops),
      io_next = merged_move None (io_next ops) (MergeNext ops compare),
      io_prev = merged_move None (io_prev ops) (MergePrev ops compare),
      io_seek = (\<lambda>target. merged_move (Some NoChildren) (io_seek ops target) (MergeSeek ops compare target)),
      io_seek_to_first = merged_move (Some NoChildren) (io_seek_to_first ops) (MergeSeekToFirst ops compare),
      io_seek_to_last = merged_move (Some NoChildren) (io_seek_to_last ops) (MergeSeekToLast ops compare),
      io_status = case_MergedIterator OK (io_status ops) (MergeStatus ops)\<rparr>"

section \<open>Its invariant\<close>

text \<open>\<open>dir_less\<close> is the order in which entries come in a direction.\<close>

fun dir_less :: "(bytes \<Rightarrow> bytes \<Rightarrow> int) \<Rightarrow> Direction \<Rightarrow> bytes \<times> 'v \<Rightarrow> bytes \<times> 'v \<Rightarrow> bool" where
  "dir_less compare kForward a b = (compare (fst a) (fst b) < 0)"
| "dir_less compare kReverse a b = (compare (fst b) (fst a) < 0)"

fun better_key :: "(bytes \<Rightarrow> bytes \<Rightarrow> int) \<Rightarrow> Direction \<Rightarrow> bytes \<Rightarrow> bytes \<Rightarrow> bool" where
  "better_key compare kForward = (\<lambda>a b. compare a b < 0)"
| "better_key compare kReverse = (\<lambda>a b. compare a b > 0)"

definition dir_closed :: "(bytes \<Rightarrow> bytes \<Rightarrow> int) \<Rightarrow> Direction \<Rightarrow> (bytes \<times> 'v) list \<Rightarrow> (bytes \<times> 'v \<Rightarrow> bool) \<Rightarrow> bool" where
  "dir_closed compare d xs P \<longleftrightarrow> (\<forall>x \<in> set xs. \<forall>y \<in> set xs. P x \<longrightarrow> dir_less compare d x y \<longrightarrow> P y)"

text \<open>The children \<open>ws\<close> run over \<open>xss\<close> and are at \<open>qs\<close>; \<open>xs\<close> is their merge.\<close>

definition children_at ::
    "('w \<Rightarrow> (bytes \<times> bytes) list \<Rightarrow> nat option \<Rightarrow> bool) \<Rightarrow> 'w list \<Rightarrow> (bytes \<times> bytes) list list \<Rightarrow> nat option list \<Rightarrow> bool" where
  "children_at wr ws xss qs \<longleftrightarrow> length ws = length xss \<and> length qs = length xss \<and> (\<forall>j < length xss. wr (ws ! j) (xss ! j) (qs ! j))"

definition merged :: "(bytes \<Rightarrow> bytes \<Rightarrow> int) \<Rightarrow> (bytes \<Rightarrow> bool) \<Rightarrow> (bytes \<times> bytes) list list \<Rightarrow> (bytes \<times> bytes) list \<Rightarrow> bool" where
  "merged compare valid xss xs \<longleftrightarrow> sorted_by compare valid xs \<and> set xs = (\<Union>ys \<in> set xss. set ys)
     \<and> (\<forall>i < length xss. \<forall>j < length xss. i \<noteq> j \<longrightarrow> set (xss ! i) \<inter> set (xss ! j) = {})"

definition merge_rep ::
    "(bytes \<Rightarrow> bytes \<Rightarrow> int) \<Rightarrow> (bytes \<Rightarrow> bool) \<Rightarrow> ('i IteratorWrapper \<Rightarrow> (bytes \<times> bytes) list \<Rightarrow> nat option \<Rightarrow> bool)
      \<Rightarrow> 'i MergingIterator \<Rightarrow> (bytes \<times> bytes) list \<Rightarrow> nat option \<Rightarrow> bool" where
  "merge_rep compare valid wr m xs q \<longleftrightarrow> (\<exists>xss qs. merged compare valid xss xs \<and> children_at wr (mi_children m) xss qs
     \<and> (case q of
          None \<Rightarrow> mi_current m = None
        | Some p \<Rightarrow> p < length xs
            \<and> (\<exists>i < length xss. \<exists>r. mi_current m = Some i \<and> qs ! i = Some r \<and> xss ! i ! r = xs ! p)
            \<and> (\<forall>j < length xss. picks (dir_less compare (mi_direction m)) (\<lambda>x. \<not> dir_less compare (mi_direction m) x (xs ! p))
                 (xss ! j) (qs ! j))))"

lemma merged_member: "merged compare valid xss xs \<Longrightarrow> j < length xss \<Longrightarrow> x \<in> set (xss ! j) \<Longrightarrow> x \<in> set xs"
  by (auto simp: merged_def)

lemma merged_source: "merged compare valid xss xs \<Longrightarrow> x \<in> set xs \<Longrightarrow> \<exists>j < length xss. x \<in> set (xss ! j)"
  unfolding merged_def by (metis UN_E in_set_conv_nth)

lemma merged_disjoint:
  "merged compare valid xss xs \<Longrightarrow> i < length xss \<Longrightarrow> j < length xss \<Longrightarrow> x \<in> set (xss ! i) \<Longrightarrow> x \<in> set (xss ! j) \<Longrightarrow> i = j"
  unfolding merged_def by blast

lemma children_atD: "children_at wr ws xss qs \<Longrightarrow> j < length xss \<Longrightarrow> qs ! j = q \<Longrightarrow> wr (ws ! j) (xss ! j) q"
  by (auto simp: children_at_def)

lemma children_at_update:
  assumes "children_at wr ws xss qs" "wr w (xss ! i) q"
  shows "children_at wr (ws[i := w]) xss (qs[i := q])"
proof -
  have "wr (ws[i := w] ! j) (xss ! j) (qs[i := q] ! j)" if "j < length xss" for j
    using assms that by (cases "j = i") (simp_all add: children_at_def)
  then show ?thesis using assms(1) by (simp add: children_at_def)
qed

context sorted_iterator
begin

abbreviation wrapped :: "'i IteratorWrapper \<Rightarrow> (bytes \<times> bytes) list \<Rightarrow> nat option \<Rightarrow> bool" where
  "wrapped \<equiv> wrapper_rep ops rep"

lemmas wrapped_at = sorted_iterator.rep_at [OF wrapper_sorted_iterator]
lemmas wrapped_off = sorted_iterator.rep_off [OF wrapper_sorted_iterator]
lemmas wrapped_next = sorted_iterator.rep_next [OF wrapper_sorted_iterator]
lemmas wrapped_prev = sorted_iterator.rep_prev [OF wrapper_sorted_iterator]
lemmas wrapped_seek = sorted_iterator.rep_seek [OF wrapper_sorted_iterator]
lemmas wrapped_first = sorted_iterator.rep_first [OF wrapper_sorted_iterator]
lemmas wrapped_last = sorted_iterator.rep_last [OF wrapper_sorted_iterator]
lemmas wrapped_sorted = sorted_iterator.rep_sorted [OF wrapper_sorted_iterator]
lemmas wrapped_status = sorted_iterator.rep_status [OF wrapper_sorted_iterator]

lemma dir_trans:
  assumes "sorted_entries xs" "x \<in> set xs" "y \<in> set xs" "z \<in> set xs" "dir_less compare_keys d x y" "dir_less compare_keys d y z"
  shows "dir_less compare_keys d x z"
proof -
  have v: "valid (fst x)" "valid (fst y)" "valid (fst z)" using assms(2-4) sorted_valid [OF assms(1)] by blast+
  show ?thesis using assms(5,6) less_trans_order [OF v] less_trans_order [OF v(3,2,1)] by (cases d) simp_all
qed

lemma dir_total:
  "sorted_entries xs \<Longrightarrow> x \<in> set xs \<Longrightarrow> y \<in> set xs \<Longrightarrow> x = y \<or> dir_less compare_keys d x y \<or> dir_less compare_keys d y x"
  using sorted_total [of xs x y] by (cases d) auto

lemma dir_asym:
  assumes "sorted_entries xs" "x \<in> set xs" "y \<in> set xs" "dir_less compare_keys d x y"
  shows "\<not> dir_less compare_keys d y x"
  using assms sorted_valid [OF assms(1)] order_swap [of "fst x" "fst y"] by (cases d) auto

lemma better_key_less:
  "sorted_entries xs \<Longrightarrow> x \<in> set xs \<Longrightarrow> y \<in> set xs \<Longrightarrow> better_key compare_keys d (fst x) (fst y) \<longleftrightarrow> dir_less compare_keys d x y"
  using sorted_valid [of xs] order_swap [of "fst y" "fst x"] by (cases d) auto

lemma children_member:
  assumes "merged compare_keys valid xss xs" "children_at wrapped ws xss qs" "j < length xss" "qs ! j = Some r"
  shows "r < length (xss ! j)" "xss ! j ! r \<in> set xs" "io_valid (wrapper_ops ops) (ws ! j)"
    "io_key (wrapper_ops ops) (ws ! j) = Some (fst (xss ! j ! r))" "io_value (wrapper_ops ops) (ws ! j) = Some (snd (xss ! j ! r))"
proof -
  have "wrapped (ws ! j) (xss ! j) (Some r)" by (rule children_atD [OF assms(2-4)])
  from wrapped_at [OF this] show "r < length (xss ! j)" "io_valid (wrapper_ops ops) (ws ! j)"
    "io_key (wrapper_ops ops) (ws ! j) = Some (fst (xss ! j ! r))" "io_value (wrapper_ops ops) (ws ! j) = Some (snd (xss ! j ! r))" by simp_all
  then show "xss ! j ! r \<in> set xs" using merged_member [OF assms(1,3)] by simp
qed

lemma children_off: "children_at wrapped ws xss qs \<Longrightarrow> j < length xss \<Longrightarrow> qs ! j = None \<Longrightarrow> \<not> io_valid (wrapper_ops ops) (ws ! j)"
  by (rule wrapped_off, rule children_atD)

text \<open>The loop selects a child whose entry no other child's entry precedes.\<close>

lemma select_loop_spec:
  assumes m: "merged compare_keys valid xss xs" and c: "children_at wrapped ws xss qs"
    and "\<forall>i \<in> set is. i < length xss" "\<forall>j. selected = Some j \<longrightarrow> j < length xss \<and> qs ! j \<noteq> None"
  shows "\<exists>r. select_loop ops (better_key compare_keys d) ws is selected = Some r
    \<and> (r = None \<longrightarrow> selected = None \<and> (\<forall>i \<in> set is. qs ! i = None))
    \<and> (\<forall>s. r = Some s \<longrightarrow> s < length xss \<and> qs ! s \<noteq> None
         \<and> (\<forall>i \<in> set is \<union> set_option selected. \<forall>q. qs ! i = Some q
              \<longrightarrow> \<not> dir_less compare_keys d (xss ! i ! q) (xss ! s ! the (qs ! s))))"
  using assms(3,4)
proof (induction "is" arbitrary: selected)
  case Nil
  have xs: "sorted_entries xs" using m by (simp add: merged_def)
  have "\<not> dir_less compare_keys d (xss ! s ! q) (xss ! s ! q)" if "s < length xss" "qs ! s = Some q" for s q
    using children_member(2) [OF m c that] dir_asym [OF xs, of "xss ! s ! q" "xss ! s ! q" d] by blast
  then show ?case using Nil by auto
next
  case (Cons i "is")
  have xs: "sorted_entries xs" using m by (simp add: merged_def)
  have i: "i < length xss" using Cons.prems by simp
  show ?case
  proof (cases "qs ! i")
    case None
    then have "\<not> io_valid (wrapper_ops ops) (ws ! i)" using children_off [OF c i] by simp
    then show ?thesis using Cons.IH [of selected] Cons.prems None by simp
  next
    case (Some q)
    note qi = children_member [OF m c i Some]
    show ?thesis
    proof (cases selected)
      case None
      then show ?thesis using Cons.IH [of "Some i"] Cons.prems i Some qi by auto
    next
      case sel: (Some j)
      then obtain p where j: "j < length xss" "qs ! j = Some p" using Cons.prems by auto
      note pj = children_member [OF m c j]
      define b where "b = better_key compare_keys d (fst (xss ! i ! q)) (fst (xss ! j ! p))"
      have b: "b \<longleftrightarrow> dir_less compare_keys d (xss ! i ! q) (xss ! j ! p)" unfolding b_def by (rule better_key_less [OF xs qi(2) pj(2)])
      define n where "n = (if b then i else j)"
      have "\<forall>j. Some n = Some j \<longrightarrow> j < length xss \<and> qs ! j \<noteq> None" using i j Some by (simp add: n_def)
      from Cons.IH [OF _ this] Cons.prems(1) obtain r where r: "select_loop ops (better_key compare_keys d) ws is (Some n) = Some r"
        "r \<noteq> None" "\<And>s. r = Some s \<Longrightarrow> s < length xss \<and> qs ! s \<noteq> None
         \<and> (\<forall>i \<in> insert n (set is). \<forall>q. qs ! i = Some q \<longrightarrow> \<not> dir_less compare_keys d (xss ! i ! q) (xss ! s ! the (qs ! s)))" by auto
      have eval: "select_loop ops (better_key compare_keys d) ws (i # is) selected = Some r"
        using qi(3,4) pj(4) r(1) sel by (simp add: n_def b_def)
      have "\<not> dir_less compare_keys d (xss ! i ! q) (xss ! s ! the (qs ! s)) \<and> \<not> dir_less compare_keys d (xss ! j ! p) (xss ! s ! the (qs ! s))"
        if s: "r = Some s" for s
      proof -
        from r(3) [OF s] obtain t where t: "s < length xss" "qs ! s = Some t" by auto
        note ts = children_member(2) [OF m c t]
        have nn: "\<not> dir_less compare_keys d (if b then xss ! i ! q else xss ! j ! p) (xss ! s ! t)"
          using r(3) [OF s] t Some j(2) by (auto simp: n_def split: if_splits)
        show ?thesis
        proof (cases b)
          case True
          then have "dir_less compare_keys d (xss ! i ! q) (xss ! j ! p)" using b by simp
          then have "\<not> dir_less compare_keys d (xss ! j ! p) (xss ! s ! t)" using nn True dir_trans [OF xs qi(2) pj(2) ts] by auto
          then show ?thesis using nn True t by simp
        next
          case False
          have "\<not> dir_less compare_keys d (xss ! i ! q) (xss ! s ! t)"
            using nn False b dir_total [OF xs pj(2) ts, of d] dir_trans [OF xs qi(2) ts pj(2), of d] by auto
          then show ?thesis using nn False t by simp
        qed
      qed
      then show ?thesis using eval r(2,3) sel Some j(2) by auto
    qed
  qed
qed


text \<open>
  When every child is at the first of its entries with \<open>P\<close>, the selected child holds the first of all
  of them.
\<close>

lemma select_merged:
  assumes m: "merged compare_keys valid xss xs" and c: "children_at wrapped ws xss qs"
    and at: "\<forall>j < length xss. picks (dir_less compare_keys d) P (xss ! j) (qs ! j)"
    and closed: "dir_closed compare_keys d xs P"
    and "set is = {..<length xss}"
  shows "\<exists>r q. select_loop ops (better_key compare_keys d) ws is None = Some r \<and> picks (dir_less compare_keys d) P xs q
    \<and> merge_rep compare_keys valid wrapped \<lparr>mi_children = ws, mi_current = r, mi_direction = d\<rparr> xs q"
proof -
  have xs: "sorted_entries xs" using m by (simp add: merged_def)
  from select_loop_spec [OF m c, of "is" None d] assms(5) obtain r where
    r: "select_loop ops (better_key compare_keys d) ws is None = Some r" "r = None \<Longrightarrow> \<forall>i < length xss. qs ! i = None"
      "\<And>s. r = Some s \<Longrightarrow> s < length xss \<and> qs ! s \<noteq> None
        \<and> (\<forall>i < length xss. \<forall>q. qs ! i = Some q \<longrightarrow> \<not> dir_less compare_keys d (xss ! i ! q) (xss ! s ! the (qs ! s)))" by auto
  show ?thesis
  proof (cases r)
    case None
    have "\<not> P x" if "x \<in> set xs" for x
    proof -
      from merged_source [OF m that] obtain j where j: "j < length xss" "x \<in> set (xss ! j)" by blast
      then show ?thesis using r(2) [OF None] at by (auto simp: picks_def)
    qed
    then have "picks (dir_less compare_keys d) P xs None" by (simp add: picks_def)
    moreover have "merge_rep compare_keys valid wrapped \<lparr>mi_children = ws, mi_current = r, mi_direction = d\<rparr> xs None"
      unfolding merge_rep_def using m c None by (intro exI [of _ xss] exI [of _ qs]) simp
    ultimately show ?thesis using r(1) by blast
  next
    case (Some i)
    then obtain t where t: "i < length xss" "qs ! i = Some t"
      and best: "\<And>j q. j < length xss \<Longrightarrow> qs ! j = Some q \<Longrightarrow> \<not> dir_less compare_keys d (xss ! j ! q) (xss ! i ! t)"
      using r(3) [OF Some] by auto
    define e where "e = xss ! i ! t"
    have e: "e \<in> set xs" "P e" using children_member(2) [OF m c t] picks_SomeD [of _ P "xss ! i" t] at t by (auto simp: e_def)
    then obtain p where p: "p < length xs" "xs ! p = e" by (auto simp: in_set_conv_nth)
    have first: "x = e \<or> dir_less compare_keys d e x" if x: "x \<in> set xs" "P x" for x
    proof -
      from merged_source [OF m x(1)] obtain j where j: "j < length xss" "x \<in> set (xss ! j)" by blast
      obtain q where q: "qs ! j = Some q" using at j x(2) by (cases "qs ! j") (auto simp: picks_def)
      define y where "y = xss ! j ! q"
      have "picks (dir_less compare_keys d) P (xss ! j) (Some q)" using at j(1) q by metis
      then have y: "y \<in> set xs" "x = y \<or> dir_less compare_keys d y x"
        using children_member(2) [OF m c j(1) q] j x(2) by (auto simp: picks_def y_def)
      have "y = e \<or> dir_less compare_keys d e y" using best [OF j(1) q] dir_total [OF xs y(1) e(1), of d] by (auto simp: y_def e_def)
      then show ?thesis using y dir_trans [OF xs e(1) y(1) x(1), of d] by blast
    qed
    have "picks (dir_less compare_keys d) P xs (Some p)" using p e(2) first by (simp add: picks_def)
    moreover have "picks (dir_less compare_keys d) (\<lambda>x. \<not> dir_less compare_keys d x e) (xss ! j) (qs ! j)" if j: "j < length xss" for j
    proof -
      have "P x \<longleftrightarrow> \<not> dir_less compare_keys d x e" if "x \<in> set (xss ! j)" for x
      proof -
        have x: "x \<in> set xs" by (rule merged_member [OF m j that])
        show ?thesis
        proof
          assume "P x"
          then have "x = e \<or> dir_less compare_keys d e x" by (rule first [OF x])
          then show "\<not> dir_less compare_keys d x e" using dir_asym [OF xs e(1) x, of d] dir_asym [OF xs x e(1), of d] by blast
        next
          assume "\<not> dir_less compare_keys d x e"
          then have "x = e \<or> dir_less compare_keys d e x" using dir_total [OF xs e(1) x, of d] by blast
          then show "P x" using closed e x unfolding dir_closed_def by blast
        qed
      qed
      then have "picks (dir_less compare_keys d) P (xss ! j) (qs ! j)
          \<longleftrightarrow> picks (dir_less compare_keys d) (\<lambda>x. \<not> dir_less compare_keys d x e) (xss ! j) (qs ! j)" by (rule picks_cong)
      then show ?thesis using at j by simp
    qed
    then have "merge_rep compare_keys valid wrapped \<lparr>mi_children = ws, mi_current = r, mi_direction = d\<rparr> xs (Some p)"
      unfolding merge_rep_def using m c p t Some by (intro exI [of _ xss] exI [of _ qs]) (simp add: e_def)
    ultimately show ?thesis using r(1) by blast
  qed
qed

text \<open>A move of the children takes each of them, but for the one that is skipped, where the move takes it.\<close>

lemma move_children_spec:
  assumes "children_at wrapped ws xss qs" "distinct is" "\<forall>i \<in> set is. i < length xss"
    and "\<And>j q w. j < length xss \<Longrightarrow> skip \<noteq> Some j \<Longrightarrow> wrapped w (xss ! j) q \<Longrightarrow> \<exists>w' q'. move w = Some w' \<and> wrapped w' (xss ! j) q' \<and> Q j q'"
  shows "\<exists>ws' qs'. move_children move skip is ws = Some ws' \<and> children_at wrapped ws' xss qs'
    \<and> (\<forall>j < length xss. if j \<in> set is \<and> skip \<noteq> Some j then Q j (qs' ! j) else qs' ! j = qs ! j)"
  using assms(1-3)
proof (induction "is" arbitrary: ws qs)
  case (Cons i "is")
  show ?case
  proof (cases "skip = Some i")
    case True
    from Cons.IH [OF Cons.prems(1)] Cons.prems obtain ws' qs' where ws': "move_children move skip is ws = Some ws'"
      "children_at wrapped ws' xss qs'" "\<forall>j < length xss. if j \<in> set is \<and> skip \<noteq> Some j then Q j (qs' ! j) else qs' ! j = qs ! j" by auto
    then have "\<forall>j < length xss. if j \<in> set (i # is) \<and> skip \<noteq> Some j then Q j (qs' ! j) else qs' ! j = qs ! j"
      using True by (auto split: if_splits)
    then show ?thesis using ws' True by auto
  next
    case False
    have i: "i < length xss" using Cons.prems by simp
    from assms(4) [OF i False children_atD [OF Cons.prems(1) i refl]] obtain w' q' where
      w': "move (ws ! i) = Some w'" "wrapped w' (xss ! i) q'" "Q i q'" by blast
    have "children_at wrapped (ws[i := w']) xss (qs[i := q'])"
      by (rule children_at_update [OF Cons.prems(1) w'(2)])
    from Cons.IH [OF this] Cons.prems obtain ws' qs' where ws': "move_children move skip is (ws[i := w']) = Some ws'"
      "children_at wrapped ws' xss qs'"
      "\<forall>j < length xss. if j \<in> set is \<and> skip \<noteq> Some j then Q j (qs' ! j) else qs' ! j = qs[i := q'] ! j" by auto
    have "if j \<in> set (i # is) \<and> skip \<noteq> Some j then Q j (qs' ! j) else qs' ! j = qs ! j" if j: "j < length xss" for j
      using ws'(3) j w'(3) False Cons.prems by (cases "j = i") (auto simp: children_at_def split: if_splits)
    then show ?thesis using ws'(1,2) w'(1) False by (intro exI [of _ ws'] exI [of _ qs']) simp
  qed
qed auto

lemma move_all_spec:
  assumes "children_at wrapped (mi_children m) xss qs"
    and "\<And>j q w. j < length xss \<Longrightarrow> skip \<noteq> Some j \<Longrightarrow> wrapped w (xss ! j) q \<Longrightarrow> \<exists>w' q'. move w = Some w' \<and> wrapped w' (xss ! j) q' \<and> Q j q'"
  shows "\<exists>ws' qs'. move_all move skip m = Some (m\<lparr>mi_children := ws'\<rparr>) \<and> children_at wrapped ws' xss qs'
    \<and> (\<forall>j < length xss. if skip = Some j then qs' ! j = qs ! j else Q j (qs' ! j))"
proof -
  have len: "length (mi_children m) = length xss" using assms(1) by (simp add: children_at_def)
  from move_children_spec [OF assms(1), of "[0..<length xss]" skip move Q] assms(2) obtain ws' qs' where
    "move_children move skip [0..<length xss] (mi_children m) = Some ws'" "children_at wrapped ws' xss qs'"
    "\<forall>j < length xss. if j \<in> set [0..<length xss] \<and> skip \<noteq> Some j then Q j (qs' ! j) else qs' ! j = qs ! j" by auto
  then show ?thesis by (intro exI [of _ ws'] exI [of _ qs']) (auto simp: move_all_def len)
qed


section \<open>The operations\<close>

lemma dir_less_fun:
  "dir_less compare_keys kForward = (\<lambda>a b. entry_less a b)" "dir_less compare_keys kReverse = (\<lambda>a b. entry_less b a)"
  by (simp_all add: fun_eq_iff)

lemma find_rep:
  assumes m: "merged compare_keys valid xss xs" and c: "children_at wrapped (mi_children mi) xss qs"
    and at: "\<forall>j < length xss. picks (dir_less compare_keys d) P (xss ! j) (qs ! j)"
    and closed: "dir_closed compare_keys d xs P"
    and q: "picks (dir_less compare_keys d) P xs q"
  shows "\<exists>r. (case d of kForward \<Rightarrow> FindSmallest ops compare_keys mi | kReverse \<Rightarrow> FindLargest ops compare_keys mi) = Some (mi\<lparr>mi_current := r\<rparr>)
    \<and> merge_rep compare_keys valid wrapped (mi\<lparr>mi_current := r, mi_direction := d\<rparr>) xs q"
proof -
  have len: "length (mi_children mi) = length xss" using c by (simp add: children_at_def)
  define "is" where "is = (case d of kForward \<Rightarrow> [0..<length xss] | kReverse \<Rightarrow> rev [0..<length xss])"
  have "set is = {..<length xss}" by (cases d) (auto simp: is_def)
  from select_merged [OF m c at closed this] obtain r q' where
    r: "select_loop ops (better_key compare_keys d) (mi_children mi) is None = Some r" "picks (dir_less compare_keys d) P xs q'"
      "merge_rep compare_keys valid wrapped \<lparr>mi_children = mi_children mi, mi_current = r, mi_direction = d\<rparr> xs q'" by blast
  have "sorted_entries xs" using m by (simp add: merged_def)
  then have "q' = q" using picks_unique [OF _ r(2) q] by (cases d) (simp_all add: dir_less_fun)
  have eq: "mi\<lparr>mi_current := r, mi_direction := d\<rparr> = \<lparr>mi_children = mi_children mi, mi_current = r, mi_direction = d\<rparr>" by simp
  have rep': "merge_rep compare_keys valid wrapped (mi\<lparr>mi_current := r, mi_direction := d\<rparr>) xs q"
    unfolding eq using r(3) \<open>q' = q\<close> by simp
  have "(case d of kForward \<Rightarrow> FindSmallest ops compare_keys mi | kReverse \<Rightarrow> FindLargest ops compare_keys mi) = Some (mi\<lparr>mi_current := r\<rparr>)"
    using r(1) by (cases d) (simp_all add: FindSmallest_def FindLargest_def len is_def)
  then show ?thesis using rep' by blast
qed

lemma sorted_same:
  assumes "sorted_entries xs" "sorted_entries ys" "set xs = set ys"
  shows "xs = ys"
  using assms
proof (induction xs arbitrary: ys)
  case (Cons x xs)
  then obtain y ys' where y: "ys = y # ys'" by (cases ys) auto
  have v: "valid (fst x)" "valid (fst y)" using Cons.prems y by (simp_all add: sorted_by_def)
  have first: "\<forall>z \<in> set xs. entry_less x z" "\<forall>z \<in> set ys'. entry_less y z" using Cons.prems y by (simp_all add: sorted_by_def)
  have "x = y"
  proof (rule ccontr)
    assume "x \<noteq> y"
    then have "x \<in> set ys'" "y \<in> set xs" using Cons.prems(3) y by auto
    then have "entry_less y x" "entry_less x y" using first by simp_all
    then show False using order_swap [OF v] by simp
  qed
  moreover have "x \<notin> set xs" "y \<notin> set ys'" using first order_irrefl v by blast+
  ultimately have "set xs = set ys'" using Cons.prems(3) unfolding y by (simp add: insert_eq_iff)
  moreover have "sorted_entries xs" "sorted_entries ys'" using Cons.prems y by (simp_all add: sorted_by_def)
  ultimately have "xs = ys'" by (intro Cons.IH)
  then show ?case using \<open>x = y\<close> y by simp
qed simp

lemma merge_repD:
  "merge_rep compare_keys valid wrapped m xs q \<Longrightarrow> \<exists>xss qs. merged compare_keys valid xss xs \<and> children_at wrapped (mi_children m) xss qs"
  unfolding merge_rep_def by blast

lemma merged_sorted: "merged compare_keys valid xss xs \<Longrightarrow> sorted_entries xs"
  by (simp add: merged_def)

text \<open>The moves of all children, then the selection.\<close>

lemma position_rep:
  assumes "merge_rep compare_keys valid wrapped m xs q0"
    and move: "\<And>w ys q. wrapped w ys q \<Longrightarrow> \<exists>w' q'. move w = Some w' \<and> wrapped w' ys q' \<and> picks (dir_less compare_keys d) P ys q'"
    and closed: "dir_closed compare_keys d xs P"
    and q: "picks (dir_less compare_keys d) P xs q"
  shows "\<exists>m'. Option.bind (move_all move None m) (\<lambda>m. map_option (\<lambda>m. m\<lparr>mi_direction := d\<rparr>)
      (case d of kForward \<Rightarrow> FindSmallest ops compare_keys m | kReverse \<Rightarrow> FindLargest ops compare_keys m)) = Some m'
    \<and> merge_rep compare_keys valid wrapped m' xs q"
proof -
  from merge_repD [OF assms(1)] obtain xss qs where m: "merged compare_keys valid xss xs" and c: "children_at wrapped (mi_children m) xss qs" by blast
  from move_all_spec [OF c, of None move "\<lambda>j. picks (dir_less compare_keys d) P (xss ! j)"] move obtain ws' qs' where
    ws': "move_all move None m = Some (m\<lparr>mi_children := ws'\<rparr>)" "children_at wrapped ws' xss qs'"
      "\<forall>j < length xss. picks (dir_less compare_keys d) P (xss ! j) (qs' ! j)" by auto
  from find_rep [OF m _ ws'(3) closed q, of "m\<lparr>mi_children := ws'\<rparr>"] ws'(2) obtain r where
    "(case d of kForward \<Rightarrow> FindSmallest ops compare_keys (m\<lparr>mi_children := ws'\<rparr>) | kReverse \<Rightarrow> FindLargest ops compare_keys (m\<lparr>mi_children := ws'\<rparr>))
      = Some (m\<lparr>mi_children := ws', mi_current := r\<rparr>)"
    "merge_rep compare_keys valid wrapped (m\<lparr>mi_children := ws', mi_current := r, mi_direction := d\<rparr>) xs q" by auto
  then show ?thesis using ws'(1) by simp
qed

lemma merge_first_rep:
  assumes "merge_rep compare_keys valid wrapped m xs q"
  shows "\<exists>m'. MergeSeekToFirst ops compare_keys m = Some m' \<and> merge_rep compare_keys valid wrapped m' xs (if xs = [] then None else Some 0)"
proof -
  have "sorted_entries xs" using merge_repD [OF assms] merged_sorted by blast
  note h = picks_head [OF this]
  have "\<exists>w' q'. io_seek_to_first (wrapper_ops ops) w = Some w' \<and> wrapped w' ys q' \<and> picks (dir_less compare_keys kForward) (\<lambda>_. True) ys q'"
    if "wrapped w ys q" for w ys q
    unfolding dir_less_fun using wrapped_first [OF that] picks_head [OF wrapped_sorted [OF that]] by blast
  from position_rep [OF assms this] h show ?thesis by (simp add: MergeSeekToFirst_def dir_less_fun dir_closed_def)
qed

lemma merge_last_rep:
  assumes "merge_rep compare_keys valid wrapped m xs q"
  shows "\<exists>m'. MergeSeekToLast ops compare_keys m = Some m'
    \<and> merge_rep compare_keys valid wrapped m' xs (if xs = [] then None else Some (length xs - 1))"
proof -
  have "sorted_entries xs" using merge_repD [OF assms] merged_sorted by blast
  note h = picks_last [OF this]
  have "\<exists>w' q'. io_seek_to_last (wrapper_ops ops) w = Some w' \<and> wrapped w' ys q' \<and> picks (dir_less compare_keys kReverse) (\<lambda>_. True) ys q'"
    if "wrapped w ys q" for w ys q
    unfolding dir_less_fun using wrapped_last [OF that] picks_last [OF wrapped_sorted [OF that]] by blast
  from position_rep [OF assms this] h show ?thesis by (simp add: MergeSeekToLast_def dir_less_fun dir_closed_def)
qed

lemma at_least_closed:
  assumes "valid k" "valid (fst x)" "valid (fst y)" "\<not> compare_keys (fst x) k < 0" "entry_less x y"
  shows "\<not> compare_keys (fst y) k < 0"
  using assms less_trans_order [of "fst x" "fst y" k] by blast

lemma merge_seek_rep:
  assumes "merge_rep compare_keys valid wrapped m xs q" "valid k"
  shows "\<exists>m'. MergeSeek ops compare_keys k m = Some m'
    \<and> merge_rep compare_keys valid wrapped m' xs (first_index (\<lambda>e. \<not> compare_keys (fst e) k < 0) xs)"
proof -
  have xs: "sorted_entries xs" using merge_repD [OF assms(1)] merged_sorted by blast
  let ?P = "\<lambda>e. \<not> compare_keys (fst e) k < 0"
  have "\<exists>w' q'. io_seek (wrapper_ops ops) k w = Some w' \<and> wrapped w' ys q' \<and> picks (dir_less compare_keys kForward) ?P ys q'"
    if "wrapped w ys q" for w ys q
    unfolding dir_less_fun using wrapped_seek [OF that assms(2)] picks_first_index [OF wrapped_sorted [OF that]] by blast
  note move = this
  have "dir_closed compare_keys kForward xs ?P" unfolding dir_closed_def dir_less_fun
    using at_least_closed [OF assms(2)] sorted_valid [OF xs] by blast
  from position_rep [OF assms(1) move this] picks_first_index [OF xs, of ?P] show ?thesis
    by (simp add: MergeSeek_def dir_less_fun)
qed


text \<open>
  A valid state: the current child holds the entry, and the others are at the first of their entries
  that come after it in the direction.
\<close>

lemma merge_rep_current:
  assumes "merge_rep compare_keys valid wrapped m xs (Some p)"
  obtains xss qs i r where "merged compare_keys valid xss xs" "children_at wrapped (mi_children m) xss qs" "p < length xs"
    "i < length xss" "mi_current m = Some i" "qs ! i = Some r" "r < length (xss ! i)" "xss ! i ! r = xs ! p"
    "\<forall>j < length xss. j \<noteq> i \<longrightarrow> picks (dir_less compare_keys (mi_direction m)) (dir_less compare_keys (mi_direction m) (xs ! p)) (xss ! j) (qs ! j)"
proof -
  from assms obtain xss qs i r where m: "merged compare_keys valid xss xs" and c: "children_at wrapped (mi_children m) xss qs"
    and i: "p < length xs" "i < length xss" "mi_current m = Some i" "qs ! i = Some r" "xss ! i ! r = xs ! p"
    and at: "\<forall>j < length xss. picks (dir_less compare_keys (mi_direction m)) (\<lambda>x. \<not> dir_less compare_keys (mi_direction m) x (xs ! p)) (xss ! j) (qs ! j)"
    unfolding merge_rep_def by (simp only: option.case) blast
  have r: "r < length (xss ! i)" by (rule children_member(1) [OF m c i(2,4)])
  have xs: "sorted_entries xs" using m by (simp add: merged_def)
  let ?d = "dir_less compare_keys (mi_direction m)"
  have "picks ?d (?d (xs ! p)) (xss ! j) (qs ! j)" if j: "j < length xss" "j \<noteq> i" for j
  proof -
    have "\<not> ?d x (xs ! p) \<longleftrightarrow> ?d (xs ! p) x" if x: "x \<in> set (xss ! j)" for x
    proof -
      have "x \<in> set xs" "xs ! p \<in> set xs" using merged_member [OF m j(1) x] i(1) by simp_all
      moreover have "x \<noteq> xs ! p" using merged_disjoint [OF m i(2) j(1), of x] x j(2) r i(5) by (metis nth_mem)
      ultimately show ?thesis using dir_total [OF xs] dir_asym [OF xs] by metis
    qed
    then have "picks ?d (\<lambda>x. \<not> ?d x (xs ! p)) (xss ! j) (qs ! j) \<longleftrightarrow> picks ?d (?d (xs ! p)) (xss ! j) (qs ! j)" by (rule picks_cong)
    then show ?thesis using at j(1) by simp
  qed
  then show ?thesis using m c i r by (intro that [of xss qs i r]) simp_all
qed

lemma seek_after_rep:
  assumes w: "wrapped w ys q" and k: "valid (fst e)" "\<forall>x \<in> set ys. compare_keys (fst e) (fst x) \<noteq> 0"
  shows "\<exists>w' q'. seek_after ops compare_keys (fst e) w = Some w' \<and> wrapped w' ys q' \<and> picks (\<lambda>a b. entry_less a b) (\<lambda>x. entry_less e x) ys q'"
proof -
  note ys = wrapped_sorted [OF w]
  obtain w' where w': "io_seek (wrapper_ops ops) (fst e) w = Some w'" "wrapped w' ys (first_index (\<lambda>x. \<not> entry_less x e) ys)"
    using wrapped_seek [OF w k(1)] by blast
  have "seek_after ops compare_keys (fst e) w = Some w'"
  proof (cases "first_index (\<lambda>x. \<not> entry_less x e) ys")
    case None
    then show ?thesis using w' wrapped_off [of w' ys] by (simp add: seek_after_def)
  next
    case (Some p)
    then show ?thesis using w' wrapped_at [of w' ys p] k(2) by (simp add: seek_after_def)
  qed
  moreover have "\<not> entry_less x e \<longleftrightarrow> entry_less e x" if "x \<in> set ys" for x
    using k that sorted_valid [OF ys that] order_zero [of "fst e" "fst x"] order_swap [of "fst e" "fst x"] by auto
  then have "picks (\<lambda>a b. entry_less a b) (\<lambda>x. \<not> entry_less x e) ys (first_index (\<lambda>x. \<not> entry_less x e) ys)
      \<longleftrightarrow> picks (\<lambda>a b. entry_less a b) (\<lambda>x. entry_less e x) ys (first_index (\<lambda>x. \<not> entry_less x e) ys)" by (rule picks_cong)
  ultimately show ?thesis using w'(2) picks_first_index [OF ys] by blast
qed

lemma seek_before_rep:
  assumes w: "wrapped w ys q" and k: "valid (fst e)"
  shows "\<exists>w' q'. seek_before ops (fst e) w = Some w' \<and> wrapped w' ys q' \<and> picks (\<lambda>a b. entry_less b a) (\<lambda>x. entry_less x e) ys q'"
proof -
  note ys = wrapped_sorted [OF w]
  obtain w1 where w1: "io_seek (wrapper_ops ops) (fst e) w = Some w1" "wrapped w1 ys (first_index (\<lambda>x. \<not> entry_less x e) ys)"
    using wrapped_seek [OF w k] by blast
  show ?thesis
  proof (cases "first_index (\<lambda>x. \<not> entry_less x e) ys")
    case None
    then have all: "\<forall>x \<in> set ys. entry_less x e" by (simp add: first_index_None)
    obtain w' where w': "io_seek_to_last (wrapper_ops ops) w1 = Some w'" "wrapped w' ys (if ys = [] then None else Some (length ys - 1))"
      using wrapped_last [OF w1(2)] by blast
    have "seek_before ops (fst e) w = Some w'" using w1 w'(1) None wrapped_off [of w1 ys] by (simp add: seek_before_def)
    moreover have "picks (\<lambda>a b. entry_less b a) (\<lambda>x. entry_less x e) ys (if ys = [] then None else Some (length ys - 1))"
      using picks_last [OF ys] picks_cong [of ys "\<lambda>_. True" "\<lambda>x. entry_less x e"] all by simp
    ultimately show ?thesis using w'(2) by blast
  next
    case (Some p)
    note p = first_index_Some [OF Some]
    obtain w' where w': "io_prev (wrapper_ops ops) w1 = Some w'" "wrapped w' ys (if p = 0 then None else Some (p - 1))"
      using wrapped_prev [of w1 ys p] w1(2) Some by auto
    have "seek_before ops (fst e) w = Some w'" using w1 w'(1) Some wrapped_at [of w1 ys p] by (simp add: seek_before_def)
    moreover have "entry_less x (ys ! p) \<longleftrightarrow> entry_less x e" if "x \<in> set ys" for x
    proof -
      from that obtain j where j: "j < length ys" "x = ys ! j" by (auto simp: in_set_conv_nth)
      have "\<not> entry_less x e" if "p \<le> j"
      proof (cases "j = p")
        case False
        then have "entry_less (ys ! p) x" using sorted_nth [OF ys, of p j] j that by simp
        then show ?thesis using p at_least_closed [OF k, of "ys ! p" x] sorted_valid [OF ys] j by auto
      qed (use p j in simp)
      then show ?thesis using j p sorted_less_iff [OF ys j(1), of p] by (cases "j < p") auto
    qed
    then have "picks (\<lambda>a b. entry_less b a) (\<lambda>x. entry_less x (ys ! p)) ys (if p = 0 then None else Some (p - 1))
        \<longleftrightarrow> picks (\<lambda>a b. entry_less b a) (\<lambda>x. entry_less x e) ys (if p = 0 then None else Some (p - 1))" by (rule picks_cong)
    ultimately show ?thesis using w'(2) picks_prev [OF ys conjunct1 [OF p]] by blast
  qed
qed


text \<open>The step that both moves share: the current child moves, and the next current child is selected.\<close>

lemma step_rep:
  assumes m: "merged compare_keys valid xss xs" and c: "children_at wrapped (mi_children mi) xss qs" and p: "p < length xs"
    and i: "i < length xss" "mi_current mi = Some i" "qs ! i = Some r" "xss ! i ! r = xs ! p"
    and at: "\<forall>j < length xss. j \<noteq> i \<longrightarrow> picks (dir_less compare_keys d) (dir_less compare_keys d (xs ! p)) (xss ! j) (qs ! j)"
    and dir: "mi_direction mi = d"
    and move: "\<exists>w' q'. move (mi_children mi ! i) = Some w' \<and> wrapped w' (xss ! i) q'
      \<and> picks (dir_less compare_keys d) (dir_less compare_keys d (xs ! p)) (xss ! i) q'"
    and q: "picks (dir_less compare_keys d) (dir_less compare_keys d (xs ! p)) xs q"
  shows "\<exists>m'. Option.bind (move_current move mi)
      (case d of kForward \<Rightarrow> FindSmallest ops compare_keys | kReverse \<Rightarrow> FindLargest ops compare_keys) = Some m'
    \<and> merge_rep compare_keys valid wrapped m' xs q"
proof -
  from move obtain w' q' where w': "move (mi_children mi ! i) = Some w'" "wrapped w' (xss ! i) q'"
    "picks (dir_less compare_keys d) (dir_less compare_keys d (xs ! p)) (xss ! i) q'" by blast
  define mi' where "mi' = mi\<lparr>mi_children := (mi_children mi)[i := w']\<rparr>"
  have c': "children_at wrapped (mi_children mi') xss (qs[i := q'])" using children_at_update [OF c w'(2)] by (simp add: mi'_def)
  have "length qs = length xss" using c by (simp add: children_at_def)
  then have at': "\<forall>j < length xss. picks (dir_less compare_keys d) (dir_less compare_keys d (xs ! p)) (xss ! j) (qs[i := q'] ! j)"
    using at w'(3) i(1) by (simp add: nth_list_update)
  have "xs ! p \<in> set xs" using p by simp
  then have "dir_closed compare_keys d xs (dir_less compare_keys d (xs ! p))"
    using dir_trans [OF merged_sorted [OF m]] unfolding dir_closed_def by blast
  from find_rep [OF m c' at' this q] obtain r where
    r: "(case d of kForward \<Rightarrow> FindSmallest ops compare_keys mi' | kReverse \<Rightarrow> FindLargest ops compare_keys mi') = Some (mi'\<lparr>mi_current := r\<rparr>)"
    "merge_rep compare_keys valid wrapped (mi'\<lparr>mi_current := r, mi_direction := d\<rparr>) xs q" by blast
  have "mi'\<lparr>mi_current := r, mi_direction := d\<rparr> = mi'\<lparr>mi_current := r\<rparr>" using dir by (simp add: mi'_def)
  moreover have "move_current move mi = Some mi'" using i(2) w'(1) by (simp add: move_current_def mi'_def)
  ultimately show ?thesis using r by (cases d) auto
qed

text \<open>After the change of direction the other children are beyond the entry in the new direction.\<close>

definition turned :: "Direction \<Rightarrow> 'i MergingIterator \<Rightarrow> (bytes \<times> bytes) list list \<Rightarrow> nat option list \<Rightarrow> nat \<Rightarrow> nat \<Rightarrow> bytes \<times> bytes \<Rightarrow> bool" where
  "turned d m xss qs i r e \<longleftrightarrow> children_at wrapped (mi_children m) xss qs \<and> mi_current m = Some i \<and> qs ! i = Some r \<and> mi_direction m = d
     \<and> (\<forall>j < length xss. j \<noteq> i \<longrightarrow> picks (dir_less compare_keys d) (dir_less compare_keys d e) (xss ! j) (qs ! j))"

lemma turn_rep:
  assumes m: "merged compare_keys valid xss xs" and t: "turned (mi_direction m) m xss qs i r (xs ! p)"
    and i: "p < length xs" "i < length xss" "r < length (xss ! i)" "xss ! i ! r = xs ! p"
    and seek: "\<And>w ys q. wrapped w ys q \<Longrightarrow> \<forall>x \<in> set ys. compare_keys (fst (xs ! p)) (fst x) \<noteq> 0
      \<Longrightarrow> \<exists>w' q'. seek (fst (xs ! p)) w = Some w' \<and> wrapped w' ys q' \<and> picks (dir_less compare_keys d) (dir_less compare_keys d (xs ! p)) ys q'"
  shows "\<exists>m' qs'. (if mi_direction m \<noteq> d then Option.bind (MergeKey ops m) (\<lambda>key.
        map_option (\<lambda>m. m\<lparr>mi_direction := d\<rparr>) (move_all (seek key) (mi_current m) m)) else Some m) = Some m'
    \<and> turned d m' xss qs' i r (xs ! p)"
proof (cases "mi_direction m = d")
  case False
  note xs = merged_sorted [OF m]
  have c: "children_at wrapped (mi_children m) xss qs" and cur: "mi_current m = Some i" "qs ! i = Some r" using t by (simp_all add: turned_def)
  have e: "xs ! p \<in> set xs" "valid (fst (xs ! p))" using i(1) sorted_valid [OF xs] by simp_all
  have key: "MergeKey ops m = Some (fst (xs ! p))" using children_member(4) [OF m c i(2) cur(2)] cur(1) i(4) by (simp add: MergeKey_def)
  let ?Q = "\<lambda>j. picks (dir_less compare_keys d) (dir_less compare_keys d (xs ! p)) (xss ! j)"
  have "\<exists>w' q'. seek (fst (xs ! p)) w = Some w' \<and> wrapped w' (xss ! j) q' \<and> ?Q j q'"
    if j: "j < length xss" "mi_current m \<noteq> Some j" and w: "wrapped w (xss ! j) q" for j q w
  proof (rule seek [OF w], intro ballI)
    fix x assume x: "x \<in> set (xss ! j)"
    have "x \<noteq> xs ! p" using merged_disjoint [OF m i(2) j(1), of x] x j(2) cur(1) i(3,4) by (metis nth_mem)
    then show "compare_keys (fst (xs ! p)) (fst x) \<noteq> 0"
      using sorted_total [OF xs e(1)] order_zero [of "fst (xs ! p)" "fst x"] e(2) sorted_valid [OF xs] merged_member [OF m j(1) x] by metis
  qed
  note move = this
  have "\<exists>ws' qs'. move_all (seek (fst (xs ! p))) (mi_current m) m = Some (m\<lparr>mi_children := ws'\<rparr>) \<and> children_at wrapped ws' xss qs'
    \<and> (\<forall>j < length xss. if mi_current m = Some j then qs' ! j = qs ! j else ?Q j (qs' ! j))"
    by (rule move_all_spec [OF c]) (rule move)
  then obtain ws' qs' where ws': "move_all (seek (fst (xs ! p))) (mi_current m) m = Some (m\<lparr>mi_children := ws'\<rparr>)"
    "children_at wrapped ws' xss qs'" "\<forall>j < length xss. if mi_current m = Some j then qs' ! j = qs ! j else ?Q j (qs' ! j)"
    by (elim exE conjE) (rule that)
  define m' where "m' = m\<lparr>mi_children := ws', mi_direction := d\<rparr>"
  have parts: "mi_children m' = ws'" "mi_current m' = Some i" "mi_direction m' = d" using cur(1) by (simp_all add: m'_def)
  have "turned d m' xss qs' i r (xs ! p)"
    unfolding turned_def parts using ws'(2) ws'(3) [rule_format, OF i(2)] ws'(3) cur by (auto split: if_splits)
  moreover have "Option.bind (MergeKey ops m) (\<lambda>key. map_option (\<lambda>m. m\<lparr>mi_direction := d\<rparr>) (move_all (seek key) (mi_current m) m)) = Some m'"
    by (simp add: key ws'(1) m'_def)
  ultimately show ?thesis using False by auto
qed (use t in auto)

lemma merge_turned:
  assumes "merge_rep compare_keys valid wrapped m xs (Some p)"
  obtains xss qs i r where "merged compare_keys valid xss xs" "turned (mi_direction m) m xss qs i r (xs ! p)"
    "p < length xs" "i < length xss" "r < length (xss ! i)" "xss ! i ! r = xs ! p"
proof (rule merge_rep_current [OF assms])
  fix xss qs i r
  assume *: "merged compare_keys valid xss xs" "children_at wrapped (mi_children m) xss qs" "p < length xs" "i < length xss"
    "mi_current m = Some i" "qs ! i = Some r" "r < length (xss ! i)" "xss ! i ! r = xs ! p"
    "\<forall>j < length xss. j \<noteq> i \<longrightarrow> picks (dir_less compare_keys (mi_direction m)) (dir_less compare_keys (mi_direction m) (xs ! p)) (xss ! j) (qs ! j)"
  have "turned (mi_direction m) m xss qs i r (xs ! p)" unfolding turned_def using *(2,5,6,9) by blast
  then show thesis using * by (intro that)
qed

lemma merge_next_rep:
  assumes "merge_rep compare_keys valid wrapped m xs (Some p)"
  shows "\<exists>m'. MergeNext ops compare_keys m = Some m'
    \<and> merge_rep compare_keys valid wrapped m' xs (if Suc p < length xs then Some (Suc p) else None)"
proof -
  from merge_turned [OF assms] obtain xss qs i r where m: "merged compare_keys valid xss xs"
    and t: "turned (mi_direction m) m xss qs i r (xs ! p)" and i: "p < length xs" "i < length xss" "r < length (xss ! i)" "xss ! i ! r = xs ! p" .
  note xs = merged_sorted [OF m]
  have e: "valid (fst (xs ! p))" using i(1) sorted_valid [OF xs] by simp
  from turn_rep [OF m t i, of "seek_after ops compare_keys" kForward] seek_after_rep [where e = "xs ! p"] e obtain m1 qs1 where
    m1: "turn_forward ops compare_keys m = Some m1" "turned kForward m1 xss qs1 i r (xs ! p)"
    unfolding turn_forward_def dir_less_fun by blast
  then have c: "children_at wrapped (mi_children m1) xss qs1" and cur: "mi_current m1 = Some i" "qs1 ! i = Some r" "mi_direction m1 = kForward"
    and at: "\<forall>j < length xss. j \<noteq> i \<longrightarrow> picks (dir_less compare_keys kForward) (dir_less compare_keys kForward (xs ! p)) (xss ! j) (qs1 ! j)"
    by (simp_all add: turned_def)
  note w = children_atD [OF c i(2) cur(2)]
  have move: "\<exists>w' q'. io_next (wrapper_ops ops) (mi_children m1 ! i) = Some w' \<and> wrapped w' (xss ! i) q'
      \<and> picks (dir_less compare_keys kForward) (dir_less compare_keys kForward (xs ! p)) (xss ! i) q'"
    unfolding dir_less_fun using wrapped_next [OF w] picks_next [OF wrapped_sorted [OF w] i(3)] i(4) by auto
  have q: "picks (dir_less compare_keys kForward) (dir_less compare_keys kForward (xs ! p)) xs (if Suc p < length xs then Some (Suc p) else None)"
    unfolding dir_less_fun by (rule picks_next [OF xs i(1)])
  from step_rep [where d = kForward and move = "io_next (wrapper_ops ops)", OF m c i(1,2) cur(1,2) i(4) at cur(3) move q]
  have "\<exists>m'. Option.bind (move_current (io_next (wrapper_ops ops)) m1) (FindSmallest ops compare_keys) = Some m'
    \<and> merge_rep compare_keys valid wrapped m' xs (if Suc p < length xs then Some (Suc p) else None)" unfolding Direction.case .
  moreover have "MergeValid m" using t by (simp add: turned_def MergeValid_def)
  ultimately show ?thesis unfolding MergeNext_def m1(1) by simp
qed

lemma merge_prev_rep:
  assumes "merge_rep compare_keys valid wrapped m xs (Some p)"
  shows "\<exists>m'. MergePrev ops compare_keys m = Some m'
    \<and> merge_rep compare_keys valid wrapped m' xs (if p = 0 then None else Some (p - 1))"
proof -
  from merge_turned [OF assms] obtain xss qs i r where m: "merged compare_keys valid xss xs"
    and t: "turned (mi_direction m) m xss qs i r (xs ! p)" and i: "p < length xs" "i < length xss" "r < length (xss ! i)" "xss ! i ! r = xs ! p" .
  note xs = merged_sorted [OF m]
  have e: "valid (fst (xs ! p))" using i(1) sorted_valid [OF xs] by simp
  from turn_rep [OF m t i, of "seek_before ops" kReverse] seek_before_rep [where e = "xs ! p"] e obtain m1 qs1 where
    m1: "turn_reverse ops m = Some m1" "turned kReverse m1 xss qs1 i r (xs ! p)"
    unfolding turn_reverse_def dir_less_fun by blast
  then have c: "children_at wrapped (mi_children m1) xss qs1" and cur: "mi_current m1 = Some i" "qs1 ! i = Some r" "mi_direction m1 = kReverse"
    and at: "\<forall>j < length xss. j \<noteq> i \<longrightarrow> picks (dir_less compare_keys kReverse) (dir_less compare_keys kReverse (xs ! p)) (xss ! j) (qs1 ! j)"
    by (simp_all add: turned_def)
  note w = children_atD [OF c i(2) cur(2)]
  have move: "\<exists>w' q'. io_prev (wrapper_ops ops) (mi_children m1 ! i) = Some w' \<and> wrapped w' (xss ! i) q'
      \<and> picks (dir_less compare_keys kReverse) (dir_less compare_keys kReverse (xs ! p)) (xss ! i) q'"
    unfolding dir_less_fun using wrapped_prev [OF w] picks_prev [OF wrapped_sorted [OF w] i(3)] i(4) by auto
  have q: "picks (dir_less compare_keys kReverse) (dir_less compare_keys kReverse (xs ! p)) xs (if p = 0 then None else Some (p - 1))"
    unfolding dir_less_fun by (rule picks_prev [OF xs i(1)])
  from step_rep [where d = kReverse and move = "io_prev (wrapper_ops ops)", OF m c i(1,2) cur(1,2) i(4) at cur(3) move q]
  have "\<exists>m'. Option.bind (move_current (io_prev (wrapper_ops ops)) m1) (FindLargest ops compare_keys) = Some m'
    \<and> merge_rep compare_keys valid wrapped m' xs (if p = 0 then None else Some (p - 1))" unfolding Direction.case .
  moreover have "MergeValid m" using t by (simp add: turned_def MergeValid_def)
  ultimately show ?thesis unfolding MergePrev_def m1(1) by simp
qed

lemma merge_status_ok: "children_at wrapped ws xss qs \<Longrightarrow> merge_status ops ws = OK"
proof (induction ws arbitrary: xss qs)
  case (Cons w ws)
  then obtain xs xss' q qs' where [simp]: "xss = xs # xss'" "qs = q # qs'" by (cases xss; cases qs) (auto simp: children_at_def)
  have "wrapped w xs q" "children_at wrapped ws xss' qs'" using Cons.prems by (force simp: children_at_def)+
  then show ?case using Cons.IH wrapped_status by simp
qed simp

text \<open>The merging iterator keeps the contract of its children.\<close>

lemma merging_sorted_iterator:
  "sorted_iterator compare_keys valid (merging_ops ops compare_keys) (merge_rep compare_keys valid (wrapper_rep ops rep))"
proof unfold_locales
  fix m xs q p k
  show "merge_rep compare_keys valid wrapped m xs q \<Longrightarrow> sorted_entries xs" using merge_repD merged_sorted by blast
  show "p < length xs \<and> io_valid (merging_ops ops compare_keys) m \<and> io_key (merging_ops ops compare_keys) m = Some (fst (xs ! p))
      \<and> io_value (merging_ops ops compare_keys) m = Some (snd (xs ! p))" if "merge_rep compare_keys valid wrapped m xs (Some p)"
  proof (rule merge_rep_current [OF that])
    fix xss qs i r
    assume "merged compare_keys valid xss xs" "children_at wrapped (mi_children m) xss qs" "p < length xs" "i < length xss"
      "mi_current m = Some i" "qs ! i = Some r" "xss ! i ! r = xs ! p"
    then show ?thesis using children_member(4,5) [of xss xs "mi_children m" qs i r]
      by (simp add: merging_ops_def MergeValid_def MergeKey_def MergeValue_def)
  qed
  show "merge_rep compare_keys valid wrapped m xs None \<Longrightarrow> \<not> io_valid (merging_ops ops compare_keys) m"
    by (auto simp: merge_rep_def merging_ops_def MergeValid_def)
  show "merge_rep compare_keys valid wrapped m xs q \<Longrightarrow> io_status (merging_ops ops compare_keys) m = OK"
    using merge_repD merge_status_ok by (fastforce simp: merging_ops_def MergeStatus_def)
qed (simp_all add: merging_ops_def merge_next_rep merge_prev_rep merge_seek_rep merge_first_rep merge_last_rep)


fun merged_rep :: "'i MergedIterator \<Rightarrow> (bytes \<times> bytes) list \<Rightarrow> nat option \<Rightarrow> bool" where
  "merged_rep NoChildren xs q \<longleftrightarrow> xs = [] \<and> q = None"
| "merged_rep (OneChild child) xs q \<longleftrightarrow> rep child xs q"
| "merged_rep (ManyChildren m) xs q \<longleftrightarrow> merge_rep compare_keys valid wrapped m xs q"

lemma merged_move_rep:
  assumes "it = NoChildren \<Longrightarrow> none = Some NoChildren \<and> xs = [] \<and> q = None"
    and "\<And>child. it = OneChild child \<Longrightarrow> \<exists>child'. one child = Some child' \<and> rep child' xs q"
    and "\<And>m. it = ManyChildren m \<Longrightarrow> \<exists>m'. many m = Some m' \<and> merge_rep compare_keys valid wrapped m' xs q"
  shows "\<exists>it'. merged_move none one many it = Some it' \<and> merged_rep it' xs q"
  using assms by (cases it) (force simp: merged_move_def)+

lemma merged_sorted_iterator: "sorted_iterator compare_keys valid (merged_ops ops compare_keys) merged_rep"
proof -
  note m_sorted = sorted_iterator.rep_sorted [OF merging_sorted_iterator]
  note m_at = sorted_iterator.rep_at [OF merging_sorted_iterator, unfolded merging_ops_def iter_ops.simps]
  note m_off = sorted_iterator.rep_off [OF merging_sorted_iterator, unfolded merging_ops_def iter_ops.simps]
  note m_status = sorted_iterator.rep_status [OF merging_sorted_iterator, unfolded merging_ops_def iter_ops.simps]
  show ?thesis
  proof unfold_locales
    fix it xs q p k
    show "merged_rep it xs q \<Longrightarrow> sorted_entries xs"
    proof (cases it)
      case NoChildren
      then show "merged_rep it xs q \<Longrightarrow> sorted_entries xs" by (simp add: sorted_by_def)
    qed (simp_all add: rep_sorted m_sorted)
    show "merged_rep it xs (Some p) \<Longrightarrow> p < length xs \<and> io_valid (merged_ops ops compare_keys) it
        \<and> io_key (merged_ops ops compare_keys) it = Some (fst (xs ! p)) \<and> io_value (merged_ops ops compare_keys) it = Some (snd (xs ! p))"
      unfolding merged_ops_def by (cases it) (use rep_at m_at in auto)
    show "merged_rep it xs None \<Longrightarrow> \<not> io_valid (merged_ops ops compare_keys) it"
      unfolding merged_ops_def by (cases it) (use rep_off m_off in auto)
    show "merged_rep it xs q \<Longrightarrow> io_status (merged_ops ops compare_keys) it = OK"
      unfolding merged_ops_def by (cases it) (use rep_status m_status in auto)
    show "merged_rep it xs (Some p) \<Longrightarrow> \<exists>it'. io_next (merged_ops ops compare_keys) it = Some it'
        \<and> merged_rep it' xs (if Suc p < length xs then Some (Suc p) else None)"
      unfolding merged_ops_def iter_ops.simps by (rule merged_move_rep; simp only: merged_rep.simps rep_next merge_next_rep) simp_all
    show "merged_rep it xs (Some p) \<Longrightarrow> \<exists>it'. io_prev (merged_ops ops compare_keys) it = Some it'
        \<and> merged_rep it' xs (if p = 0 then None else Some (p - 1))"
      unfolding merged_ops_def iter_ops.simps by (rule merged_move_rep; simp only: merged_rep.simps rep_prev merge_prev_rep) simp_all
    show "merged_rep it xs q \<Longrightarrow> valid k \<Longrightarrow> \<exists>it'. io_seek (merged_ops ops compare_keys) k it = Some it'
        \<and> merged_rep it' xs (first_index (\<lambda>e. \<not> compare_keys (fst e) k < 0) xs)"
      unfolding merged_ops_def iter_ops.simps by (rule merged_move_rep) (auto intro: rep_seek merge_seek_rep)
    show "merged_rep it xs q \<Longrightarrow> \<exists>it'. io_seek_to_first (merged_ops ops compare_keys) it = Some it'
        \<and> merged_rep it' xs (if xs = [] then None else Some 0)"
      unfolding merged_ops_def iter_ops.simps by (rule merged_move_rep) (auto dest: rep_first merge_first_rep)
    show "merged_rep it xs q \<Longrightarrow> \<exists>it'. io_seek_to_last (merged_ops ops compare_keys) it = Some it'
        \<and> merged_rep it' xs (if xs = [] then None else Some (length xs - 1))"
      unfolding merged_ops_def iter_ops.simps by (rule merged_move_rep) (auto dest: rep_last merge_last_rep)
  qed
qed

text \<open>A new merging iterator runs over the merge of its children.\<close>

lemma set_children_rep:
  assumes "length its = length xss" "length qs = length xss" "\<forall>j < length xss. rep (its ! j) (xss ! j) (qs ! j)"
  shows "\<exists>ws. set_children ops its = Some ws \<and> children_at wrapped ws xss qs"
  using assms
proof (induction its arbitrary: xss qs)
  case (Cons it its)
  then obtain xs xss' q qs' where x: "xss = xs # xss'" "qs = q # qs'" by (cases xss; cases qs) auto
  with Cons.prems have "rep it xs q" "\<forall>j < length xss'. rep (its ! j) (xss' ! j) (qs' ! j)" by force+
  moreover from this(2) Cons.prems x obtain ws where "set_children ops its = Some ws" "children_at wrapped ws xss' qs'"
    using Cons.IH [of xss' qs'] by auto
  moreover from calculation(1) obtain w where "WrapperSet ops it = Some w" "wrapped w xs q" using WrapperSet_rep by blast
  ultimately have "set_children ops (it # its) = Some (w # ws)" "children_at wrapped (w # ws) xss qs"
    using x by (auto simp: children_at_def nth_Cons split: nat.split)
  then show ?case by blast
qed (simp add: children_at_def)

lemma NewMergingIterator_rep:
  assumes "length its = length xss" "\<forall>j < length xss. rep (its ! j) (xss ! j) None" "merged compare_keys valid xss xs"
  shows "\<exists>it. NewMergingIterator ops its = Some it \<and> merged_rep it xs None"
proof -
  define qs :: "nat option list" where "qs = replicate (length xss) None"
  have qs: "length qs = length xss" "\<forall>j < length xss. rep (its ! j) (xss ! j) (qs ! j)" using assms(2) by (simp_all add: qs_def)
  consider "its = []" | c where "its = [c]" | a b cs where "its = a # b # cs" by (metis list.exhaust)
  then show ?thesis
  proof cases
    case 1
    then have "xs = []" using assms(1,3) by (simp add: merged_def)
    then show ?thesis using 1 by (auto simp: NewMergingIterator_def intro!: exI [of _ NoChildren])
  next
    case (2 c)
    then obtain ys where ys: "xss = [ys]" using assms(1) by (cases xss) auto
    then have "rep c ys None" "sorted_entries ys" using assms(2) 2 rep_sorted by auto
    moreover have "sorted_entries xs" "set xs = set ys" using assms(3) ys by (simp_all add: merged_def)
    ultimately have "xs = ys" by (intro sorted_same) simp_all
    then show ?thesis using 2 \<open>rep c ys None\<close> by (auto simp: NewMergingIterator_def intro!: exI [of _ "OneChild c"])
  next
    case (3 a b cs)
    from set_children_rep [OF assms(1) qs] obtain ws where ws: "set_children ops its = Some ws" "children_at wrapped ws xss qs" by blast
    define m where "m = \<lparr>mi_children = ws, mi_current = None, mi_direction = kForward\<rparr>"
    have "merge_rep compare_keys valid wrapped m xs None"
      unfolding merge_rep_def using assms(3) ws(2) by (intro exI [of _ xss] exI [of _ qs]) (simp add: m_def)
    then have "merged_rep (ManyChildren m) xs None" by simp
    moreover have "NewMergingIterator ops its = Some (ManyChildren m)"
      using ws(1) 3 by (simp add: NewMergingIterator_def MakeMergingIterator_def m_def)
    ultimately show ?thesis by blast
  qed
qed

end

end
