(* ===== verification/Mem_Iter.thy ===== *)
theory Mem_Iter
  imports Merger Memtable
begin

text \<open>
  The memtable's iterator, \<open>MemTableIterator\<close> of \<open>db/memtable.cc\<close>, as the iterator interface: the
  reference to the table and the position. It meets the contract on the internal keys that fit a
  32-bit length.
\<close>

section \<open>Operations\<close>

definition mem_iter_move :: "(MemTable \<Rightarrow> nat option \<Rightarrow> nat option option) \<Rightarrow> MemTable \<times> nat option \<Rightarrow> (MemTable \<times> nat option) option" where
  "mem_iter_move move = (\<lambda>(m, it). map_option (Pair m) (move m it))"

definition mem_iter_ops :: "(bytes \<Rightarrow> bytes \<Rightarrow> int) \<Rightarrow> (MemTable \<times> nat option) iter_ops" where
  "mem_iter_ops user_compare =
     \<lparr>io_valid = (\<lambda>(m, it). it \<noteq> None),
      io_key = (\<lambda>(m, it). MemIterKey m it),
      io_value = (\<lambda>(m, it). MemIterValue m it),
      io_next = mem_iter_move MemIterNext,
      io_prev = mem_iter_move (MemIterPrev user_compare),
      io_seek = (\<lambda>k. mem_iter_move (\<lambda>m _. MemIterSeek user_compare m k)),
      io_seek_to_first = mem_iter_move (\<lambda>m _. MemIterSeekToFirst m),
      io_seek_to_last = mem_iter_move (\<lambda>m _. MemIterSeekToLast m),
      io_status = (\<lambda>_. OK)\<rparr>"

definition NewMemIterator :: "MemTable \<Rightarrow> MemTable \<times> nat option" where
  "NewMemIterator m = (m, None)"

section \<open>The contract\<close>

definition short_key :: "bytes \<Rightarrow> bool" where
  "short_key k \<longleftrightarrow> internal_key_ok k \<and> length k < 2 ^ 32"

definition entry_pair :: "mem_entry \<Rightarrow> bytes \<times> bytes" where
  "entry_pair e = (entry_key e, me_value e)"

definition mem_at :: "MemTable \<Rightarrow> nat list \<Rightarrow> mem_entry list \<Rightarrow> bool" where
  "mem_at m P es \<longleftrightarrow> skip_inv mem_compare mem_key_ok (mt_table m) P \<and> (\<forall>e \<in> set es. entry_ok e)
     \<and> map (node_key (mt_table m)) P = map encode_entry es"

definition mem_rep :: "MemTable \<times> nat option \<Rightarrow> (bytes \<times> bytes) list \<Rightarrow> nat option \<Rightarrow> bool" where
  "mem_rep it xs q \<longleftrightarrow> (\<exists>P es. mem_at (fst it) P es \<and> xs = map entry_pair es
     \<and> (case q of None \<Rightarrow> snd it = None | Some p \<Rightarrow> p < length P \<and> snd it = iter_at_pos P p))"

lemma mem_at_length: "mem_at m P es \<Longrightarrow> length P = length es"
  unfolding mem_at_def by (metis length_map)

lemma mem_at_nth: "mem_at m P es \<Longrightarrow> p < length P \<Longrightarrow> node_key (mt_table m) (P ! p) = encode_entry (es ! p)"
  unfolding mem_at_def by (metis length_map nth_map)

lemma mem_at_shape: "mem_at m P es \<Longrightarrow> skip_shape (mt_table m) P"
  by (simp add: mem_at_def skip_inv_def)

lemma mem_at_sorted:
  assumes "mem_at m P es"
  shows "sorted_by (InternalKeyCompare BytewiseCompare) short_key (map entry_pair es)"
proof -
  have "skip_abs mem_compare mem_key_ok (mt_table m) (map encode_entry es)"
    using assms unfolding mem_at_def skip_abs_def by metis
  from mem.skip_abs_sorted [OF this] have "sorted_wrt (\<lambda>e f. mem_compare (encode_entry e) (encode_entry f) < 0) es"
    by (simp add: sorted_wrt_map)
  then have "sorted_wrt (\<lambda>e f. InternalKeyCompare BytewiseCompare (entry_key e) (entry_key f) < 0) es"
    by (rule sorted_wrt_mono_rel [rotated]) (use assms in \<open>simp add: mem_at_def mem_compare_entries\<close>)
  then show ?thesis
    using assms entry_key_facts(2)
    by (auto simp: sorted_by_def sorted_wrt_map entry_pair_def short_key_def length_entry_key mem_at_def entry_ok_def)
qed

lemma short_key_order: "key_order (InternalKeyCompare BytewiseCompare) short_key"
proof
  fix a b c
  assume "short_key a" "short_key b"
  then have ab: "internal_key_ok a" "internal_key_ok b" by (simp_all add: short_key_def)
  then show "InternalKeyCompare BytewiseCompare a b < 0 \<longleftrightarrow> InternalKeyCompare BytewiseCompare b a > 0"
    by (rule internal.order.order_swap)
  assume "short_key c"
  then have "internal_key_ok c" by (simp add: short_key_def)
  then show "InternalKeyCompare BytewiseCompare a b \<le> 0 \<Longrightarrow> InternalKeyCompare BytewiseCompare b c \<le> 0
      \<Longrightarrow> InternalKeyCompare BytewiseCompare a c \<le> 0"
    using internal.order.order_le_trans [OF ab] by blast
qed

lemma mem_iter_key:
  assumes "mem_at m P es" "p < length P"
  shows "MemIterKey m (iter_at_pos P p) = Some (entry_key (es ! p))" "MemIterValue m (iter_at_pos P p) = Some (me_value (es ! p))"
proof -
  have "P ! p \<in> set P" "es ! p \<in> set es" using assms(2) mem_at_length [OF assms(1)] by simp_all
  moreover from this(1) have "NodeKey (mt_table m) (P ! p) = Some (encode_entry (es ! p))"
    using NodeKey_in [of "P ! p" "mt_table m"] mem_at_shape [OF assms(1)] mem_at_nth [OF assms] by (auto simp: skip_shape_def)
  moreover have "entry_ok (es ! p)" using calculation(2) assms(1) by (simp add: mem_at_def)
  ultimately show "MemIterKey m (iter_at_pos P p) = Some (entry_key (es ! p))" "MemIterValue m (iter_at_pos P p) = Some (me_value (es ! p))"
    by (simp_all add: MemIterKey_def MemIterValue_def SkipIterKey_def iter_at_pos_in assms(2) entry_slice_encode)
      (simp add: entry_ok_def)
qed

lemma EncodeKey_slice: "short_key k \<Longrightarrow> entry_slice (EncodeKey k) = Some (k, [])"
  using entry_slice_prefixed_only [of k] by (simp add: EncodeKey_def PutLengthPrefixedSlice_def short_key_def PutVarint32_def)

lemma first_index_takeWhile:
  "first_index (\<lambda>x. \<not> P x) xs = (if length (takeWhile P xs) < length xs then Some (length (takeWhile P xs)) else None)"
  by (induction xs) auto

lemma mem_iter_seek:
  assumes "mem_at m P es" "short_key k"
  defines "n \<equiv> length (takeWhile (\<lambda>e. InternalKeyCompare BytewiseCompare (entry_key e) k < 0) es)"
  shows "MemIterSeek BytewiseCompare m k = Some (iter_at_pos P n)"
proof -
  have cmp: "mem_compare (encode_entry e) (EncodeKey k) = InternalKeyCompare BytewiseCompare (entry_key e) k" if "e \<in> set es" for e
    using that assms(1) by (intro mem_compare_slices [OF entry_slice_encode EncodeKey_slice [OF assms(2)]]) (simp add: mem_at_def)
  have "takeWhile (\<lambda>x. mem_compare x (EncodeKey k) < 0) (map (node_key (mt_table m)) P)
      = map encode_entry (takeWhile (\<lambda>e. mem_compare (encode_entry e) (EncodeKey k) < 0) es)"
    using assms(1) by (simp add: mem_at_def takeWhile_map comp_def)
  also have "takeWhile (\<lambda>e. mem_compare (encode_entry e) (EncodeKey k) < 0) es
      = takeWhile (\<lambda>e. InternalKeyCompare BytewiseCompare (entry_key e) k < 0) es"
    by (rule takeWhile_cong) (simp_all add: cmp)
  finally have "length (takeWhile (before mem_compare (mt_table m) (EncodeKey k)) P) = n"
    unfolding n_def takeWhile_map comp_def before_def [abs_def] by (metis length_map)
  moreover have "mem_key_ok (EncodeKey k)" using EncodeKey_slice [OF assms(2)] assms(2) by (simp add: mem_key_ok_def short_key_def)
  moreover have "skip_inv mem_compare mem_key_ok (mt_table m) P" using assms(1) by (simp add: mem_at_def)
  ultimately show ?thesis by (simp add: MemIterSeek_def mem.SkipIterSeek_correct)
qed

lemma iter_at_pos_eq: "iter_at_pos P i = (if i < length P then Some (P ! i) else None)"
  by (simp add: iter_at_pos_in)

lemma mem_repI:
  assumes "mem_at m P es" "xs = map entry_pair es" "it = (case q of None \<Rightarrow> None | Some p \<Rightarrow> iter_at_pos P p)" "\<And>p. q = Some p \<Longrightarrow> p < length P"
  shows "mem_rep (m, it) xs q"
  unfolding mem_rep_def using assms by (auto split: option.split)

interpretation mem_iter: sorted_iterator "InternalKeyCompare BytewiseCompare" short_key "mem_iter_ops BytewiseCompare" mem_rep
proof (unfold sorted_iterator_def, intro conjI short_key_order, unfold_locales)
  fix it xs q
  assume r: "mem_rep it xs q"
  obtain m n where it: "it = (m, n)" by (cases it)
  with r obtain P es where P: "mem_at m P es" "xs = map entry_pair es" by (auto simp: mem_rep_def)
  note sh = mem_at_shape [OF P(1)] and len = mem_at_length [OF P(1)]
  show "sorted_by (InternalKeyCompare BytewiseCompare) short_key xs" using mem_at_sorted [OF P(1)] P(2) by simp
  show "io_status (mem_iter_ops BytewiseCompare) it = OK" by (simp add: mem_iter_ops_def)
  show "\<exists>it'. io_seek_to_first (mem_iter_ops BytewiseCompare) it = Some it' \<and> mem_rep it' xs (if xs = [] then None else Some 0)"
    using SkipIterSeekToFirst_correct [OF sh] P len
    by (auto simp: mem_iter_ops_def mem_iter_move_def MemIterSeekToFirst_def it iter_at_pos_eq intro!: mem_repI)
  show "\<exists>it'. io_seek_to_last (mem_iter_ops BytewiseCompare) it = Some it' \<and> mem_rep it' xs (if xs = [] then None else Some (length xs - 1))"
    using SkipIterSeekToLast_correct [OF sh] P len
    by (auto simp: mem_iter_ops_def mem_iter_move_def MemIterSeekToLast_def it intro!: mem_repI)
  show "\<exists>it'. io_seek (mem_iter_ops BytewiseCompare) k it = Some it'
      \<and> mem_rep it' xs (first_index (\<lambda>e. \<not> InternalKeyCompare BytewiseCompare (fst e) k < 0) xs)" if "short_key k" for k
    using mem_iter_seek [OF P(1) that] P len
    by (auto simp: mem_iter_ops_def mem_iter_move_def it first_index_takeWhile takeWhile_map comp_def entry_pair_def iter_at_pos_eq
        intro!: mem_repI split: option.split if_splits)
next
  fix it xs p
  assume r: "mem_rep it xs (Some p)"
  obtain m n where it: "it = (m, n)" by (cases it)
  with r obtain P es where P: "mem_at m P es" "xs = map entry_pair es" "p < length P" "n = iter_at_pos P p" by (auto simp: mem_rep_def)
  note sh = mem_at_shape [OF P(1)] and len = mem_at_length [OF P(1)]
  show "p < length xs \<and> io_valid (mem_iter_ops BytewiseCompare) it
      \<and> io_key (mem_iter_ops BytewiseCompare) it = Some (fst (xs ! p)) \<and> io_value (mem_iter_ops BytewiseCompare) it = Some (snd (xs ! p))"
    using mem_iter_key [OF P(1,3)] P len by (simp add: mem_iter_ops_def it iter_at_pos_eq entry_pair_def)
  show "\<exists>it'. io_next (mem_iter_ops BytewiseCompare) it = Some it' \<and> mem_rep it' xs (if Suc p < length xs then Some (Suc p) else None)"
    using SkipIterNext_correct [OF sh P(3)] P len
    by (auto simp: mem_iter_ops_def mem_iter_move_def MemIterNext_def it iter_at_pos_eq intro!: mem_repI)
  show "\<exists>it'. io_prev (mem_iter_ops BytewiseCompare) it = Some it' \<and> mem_rep it' xs (if p = 0 then None else Some (p - 1))"
    using mem.SkipIterPrev_correct [of "mt_table m" P p] P len
    by (auto simp: mem_iter_ops_def mem_iter_move_def MemIterPrev_def it mem_at_def intro!: mem_repI)
next
  show "mem_rep it xs None \<Longrightarrow> \<not> io_valid (mem_iter_ops BytewiseCompare) it" for it xs
    by (auto simp: mem_rep_def mem_iter_ops_def)
qed

end
