(* ===== verification/Db_Iter.thy ===== *)
theory Db_Iter
  imports Merger Skip_List Db_Format
begin

text \<open>
  The iterator that a client sees, \<open>db/db_iter.cc\<close>: over the internal entries it shows, for every user
  key, the newest value that the snapshot sees, and no deleted key. The internal iterator is an
  argument; \<open>None\<close> is a failed assertion.
\<close>

section \<open>State\<close>

text \<open>\<open>db_samples\<close> records the calls of \<open>RecordReadSample\<close>.\<close>

record 'i DBIter =
  db_iter :: 'i
  db_sequence :: u64
  db_status :: Status
  db_saved_key :: bytes
  db_saved_value :: bytes
  db_direction :: Direction
  db_valid :: bool
  db_rnd :: u32
  db_bytes_until :: nat
  db_samples :: "bytes list"

definition kReadBytesPeriod :: u32 where
  "kReadBytesPeriod = 1048576"

definition RandomCompactionPeriod :: "u32 \<Rightarrow> u32 \<times> u32" where
  "RandomCompactionPeriod rnd = RandomUniform (2 * kReadBytesPeriod) rnd"

definition MakeDBIter :: "'i \<Rightarrow> u64 \<Rightarrow> u32 \<Rightarrow> 'i DBIter" where
  "MakeDBIter iter s seed =
     (let (period, rnd) = RandomCompactionPeriod (NewRandom seed) in
      \<lparr>db_iter = iter, db_sequence = s, db_status = OK, db_saved_key = [], db_saved_value = [],
       db_direction = kForward, db_valid = False, db_rnd = rnd, db_bytes_until = unat period, db_samples = []\<rparr>)"

section \<open>Operations\<close>

definition DBKey :: "'i iter_ops \<Rightarrow> 'i DBIter \<Rightarrow> bytes option" where
  "DBKey ops d =
     (if \<not> db_valid d then None
      else if db_direction d = kForward then map_option ExtractUserKey (io_key ops (db_iter d))
      else Some (db_saved_key d))"

definition DBValue :: "'i iter_ops \<Rightarrow> 'i DBIter \<Rightarrow> bytes option" where
  "DBValue ops d =
     (if \<not> db_valid d then None
      else if db_direction d = kForward then io_value ops (db_iter d)
      else Some (db_saved_value d))"

definition DBStatus :: "'i iter_ops \<Rightarrow> 'i DBIter \<Rightarrow> Status" where
  "DBStatus ops d = (if db_status d = OK then io_status ops (db_iter d) else db_status d)"

text \<open>The loop that takes read samples ends only if the random periods are not all 0.\<close>

partial_function (option) sample_loop :: "nat \<Rightarrow> bytes \<Rightarrow> 'i DBIter \<Rightarrow> 'i DBIter option" where
  "sample_loop bytes_read k d =
     (if db_bytes_until d < bytes_read then
        (case RandomCompactionPeriod (db_rnd d) of
           (period, rnd) \<Rightarrow>
             sample_loop bytes_read k
               (d\<lparr>db_bytes_until := db_bytes_until d + unat period, db_rnd := rnd, db_samples := db_samples d @ [k]\<rparr>))
      else Some d)"

definition ParseKey :: "'i iter_ops \<Rightarrow> 'i DBIter \<Rightarrow> (ParsedInternalKey option \<times> 'i DBIter) option" where
  "ParseKey ops d =
     Option.bind (io_key ops (db_iter d)) (\<lambda>k.
     Option.bind (io_value ops (db_iter d)) (\<lambda>v.
     let bytes_read = length k + length v in
     Option.bind (sample_loop bytes_read k d) (\<lambda>d.
       let d = d\<lparr>db_bytes_until := db_bytes_until d - bytes_read\<rparr> in
       case ParseInternalKey k of
         None \<Rightarrow> Some (None, d\<lparr>db_status := Corruption ''corrupted internal key in DBIter''\<rparr>)
       | Some ikey \<Rightarrow> Some (Some ikey, d))))"

definition ClearSavedValue :: "'i DBIter \<Rightarrow> 'i DBIter" where
  "ClearSavedValue d = d\<lparr>db_saved_value := []\<rparr>"

definition move_iter :: "('i \<Rightarrow> 'i option) \<Rightarrow> 'i DBIter \<Rightarrow> 'i DBIter option" where
  "move_iter move d = map_option (\<lambda>it. d\<lparr>db_iter := it\<rparr>) (move (db_iter d))"

text \<open>The end of the iteration, in either direction.\<close>

definition iteration_end :: "'i DBIter \<Rightarrow> 'i DBIter" where
  "iteration_end d = d\<lparr>db_valid := False, db_saved_key := []\<rparr>"

text \<open>
  One round of the loop of \<open>FindNextUserEntry\<close>: \<open>Inl\<close> goes on with the next entry, \<open>Inr\<close> yields the
  current one. The string \<open>skip\<close> is \<open>saved_key_\<close> in every call.
\<close>

definition find_next_step ::
    "'i iter_ops \<Rightarrow> (bytes \<Rightarrow> bytes \<Rightarrow> int) \<Rightarrow> bool \<Rightarrow> 'i DBIter \<Rightarrow> (bool \<times> 'i DBIter + 'i DBIter) option" where
  "find_next_step ops user_compare skipping d =
     map_option (\<lambda>(ikey, d).
       case ikey of
         None \<Rightarrow> Inl (skipping, d)
       | Some ik \<Rightarrow>
           if \<not> ik_sequence ik \<le> db_sequence d then Inl (skipping, d)
           else
             (case ik_type ik of
                kTypeDeletion \<Rightarrow> Inl (True, d\<lparr>db_saved_key := ik_user_key ik\<rparr>)
              | kTypeValue \<Rightarrow>
                  if skipping \<and> user_compare (ik_user_key ik) (db_saved_key d) \<le> 0 then Inl (skipping, d)
                  else Inr (d\<lparr>db_valid := True, db_saved_key := []\<rparr>))) (ParseKey ops d)"

partial_function (option) find_next_loop ::
    "'i iter_ops \<Rightarrow> (bytes \<Rightarrow> bytes \<Rightarrow> int) \<Rightarrow> bool \<Rightarrow> 'i DBIter \<Rightarrow> 'i DBIter option" where
  "find_next_loop ops user_compare skipping d =
     Option.bind (find_next_step ops user_compare skipping d) (\<lambda>r.
       case r of
         Inr d \<Rightarrow> Some d
       | Inl (skipping, d) \<Rightarrow>
           Option.bind (move_iter (io_next ops) d) (\<lambda>d.
             if io_valid ops (db_iter d) then find_next_loop ops user_compare skipping d else Some (iteration_end d)))"

definition FindNextUserEntry :: "'i iter_ops \<Rightarrow> (bytes \<Rightarrow> bytes \<Rightarrow> int) \<Rightarrow> bool \<Rightarrow> 'i DBIter \<Rightarrow> 'i DBIter option" where
  "FindNextUserEntry ops user_compare skipping d =
     (if \<not> io_valid ops (db_iter d) \<or> db_direction d \<noteq> kForward then None
      else find_next_loop ops user_compare skipping d)"

definition DBNext :: "'i iter_ops \<Rightarrow> (bytes \<Rightarrow> bytes \<Rightarrow> int) \<Rightarrow> 'i DBIter \<Rightarrow> 'i DBIter option" where
  "DBNext ops user_compare d =
     (if \<not> db_valid d then None
      else
        Option.bind
          (if db_direction d = kReverse then
             move_iter (if io_valid ops (db_iter d) then io_next ops else io_seek_to_first ops) (d\<lparr>db_direction := kForward\<rparr>)
           else
             Option.bind (io_key ops (db_iter d)) (\<lambda>k.
               move_iter (io_next ops) (d\<lparr>db_saved_key := ExtractUserKey k\<rparr>))) (\<lambda>d.
        if io_valid ops (db_iter d) then FindNextUserEntry ops user_compare True d else Some (iteration_end d)))"

text \<open>One round of the loop of \<open>FindPrevUserEntry\<close>: \<open>Inr\<close> breaks. The loop returns the last \<open>value_type\<close>.\<close>

definition find_prev_step ::
    "'i iter_ops \<Rightarrow> (bytes \<Rightarrow> bytes \<Rightarrow> int) \<Rightarrow> ValueType \<Rightarrow> 'i DBIter \<Rightarrow> (ValueType \<times> 'i DBIter + 'i DBIter) option" where
  "find_prev_step ops user_compare value_type d =
     Option.bind (ParseKey ops d) (\<lambda>(ikey, d).
       case ikey of
         None \<Rightarrow> Some (Inl (value_type, d))
       | Some ik \<Rightarrow>
           if \<not> ik_sequence ik \<le> db_sequence d then Some (Inl (value_type, d))
           else if value_type \<noteq> kTypeDeletion \<and> user_compare (ik_user_key ik) (db_saved_key d) < 0 then Some (Inr d)
           else if ik_type ik = kTypeDeletion then Some (Inl (ik_type ik, ClearSavedValue (d\<lparr>db_saved_key := []\<rparr>)))
           else
             Option.bind (io_value ops (db_iter d)) (\<lambda>v.
             Option.bind (io_key ops (db_iter d)) (\<lambda>k.
               Some (Inl (ik_type ik, d\<lparr>db_saved_key := ExtractUserKey k, db_saved_value := v\<rparr>)))))"

partial_function (option) find_prev_loop ::
    "'i iter_ops \<Rightarrow> (bytes \<Rightarrow> bytes \<Rightarrow> int) \<Rightarrow> ValueType \<Rightarrow> 'i DBIter \<Rightarrow> (ValueType \<times> 'i DBIter) option" where
  "find_prev_loop ops user_compare value_type d =
     Option.bind (find_prev_step ops user_compare value_type d) (\<lambda>r.
       case r of
         Inr d \<Rightarrow> Some (value_type, d)
       | Inl (value_type, d) \<Rightarrow>
           Option.bind (move_iter (io_prev ops) d) (\<lambda>d.
             if io_valid ops (db_iter d) then find_prev_loop ops user_compare value_type d else Some (value_type, d)))"

definition FindPrevUserEntry :: "'i iter_ops \<Rightarrow> (bytes \<Rightarrow> bytes \<Rightarrow> int) \<Rightarrow> 'i DBIter \<Rightarrow> 'i DBIter option" where
  "FindPrevUserEntry ops user_compare d =
     (if db_direction d \<noteq> kReverse then None
      else
        map_option (\<lambda>(value_type, d).
            if value_type = kTypeDeletion then (ClearSavedValue (iteration_end d))\<lparr>db_direction := kForward\<rparr>
            else d\<lparr>db_valid := True\<rparr>)
          (if io_valid ops (db_iter d) then find_prev_loop ops user_compare kTypeDeletion d
           else Some (kTypeDeletion, d)))"

text \<open>The scan backwards to an entry of an earlier user key; the flag says that there is one.\<close>

partial_function (option) back_loop ::
    "'i iter_ops \<Rightarrow> (bytes \<Rightarrow> bytes \<Rightarrow> int) \<Rightarrow> 'i DBIter \<Rightarrow> (bool \<times> 'i DBIter) option" where
  "back_loop ops user_compare d =
     Option.bind (move_iter (io_prev ops) d) (\<lambda>d.
       if \<not> io_valid ops (db_iter d) then Some (False, ClearSavedValue (iteration_end d))
       else
         Option.bind (io_key ops (db_iter d)) (\<lambda>k.
           if user_compare (ExtractUserKey k) (db_saved_key d) < 0 then Some (True, d)
           else back_loop ops user_compare d))"

definition DBPrev :: "'i iter_ops \<Rightarrow> (bytes \<Rightarrow> bytes \<Rightarrow> int) \<Rightarrow> 'i DBIter \<Rightarrow> 'i DBIter option" where
  "DBPrev ops user_compare d =
     (if \<not> db_valid d then None
      else if db_direction d = kForward then
        Option.bind (io_key ops (db_iter d)) (\<lambda>k.
        Option.bind (back_loop ops user_compare (d\<lparr>db_saved_key := ExtractUserKey k\<rparr>)) (\<lambda>(more_entries, d).
          if more_entries then FindPrevUserEntry ops user_compare (d\<lparr>db_direction := kReverse\<rparr>) else Some d))
      else FindPrevUserEntry ops user_compare d)"

definition DBSeek :: "'i iter_ops \<Rightarrow> (bytes \<Rightarrow> bytes \<Rightarrow> int) \<Rightarrow> bytes \<Rightarrow> 'i DBIter \<Rightarrow> 'i DBIter option" where
  "DBSeek ops user_compare target d =
     (let d = ClearSavedValue (d\<lparr>db_direction := kForward\<rparr>) in
      Option.bind (AppendInternalKey [] \<lparr>ik_user_key = target, ik_sequence = db_sequence d, ik_type = kValueTypeForSeek\<rparr>) (\<lambda>k.
      Option.bind (move_iter (io_seek ops k) (d\<lparr>db_saved_key := k\<rparr>)) (\<lambda>d.
        if io_valid ops (db_iter d) then FindNextUserEntry ops user_compare False d else Some (d\<lparr>db_valid := False\<rparr>))))"

definition DBSeekToFirst :: "'i iter_ops \<Rightarrow> (bytes \<Rightarrow> bytes \<Rightarrow> int) \<Rightarrow> 'i DBIter \<Rightarrow> 'i DBIter option" where
  "DBSeekToFirst ops user_compare d =
     Option.bind (move_iter (io_seek_to_first ops) (ClearSavedValue (d\<lparr>db_direction := kForward\<rparr>))) (\<lambda>d.
       if io_valid ops (db_iter d) then FindNextUserEntry ops user_compare False d else Some (d\<lparr>db_valid := False\<rparr>))"

definition DBSeekToLast :: "'i iter_ops \<Rightarrow> (bytes \<Rightarrow> bytes \<Rightarrow> int) \<Rightarrow> 'i DBIter \<Rightarrow> 'i DBIter option" where
  "DBSeekToLast ops user_compare d =
     Option.bind (move_iter (io_seek_to_last ops) (ClearSavedValue (d\<lparr>db_direction := kReverse\<rparr>)))
       (FindPrevUserEntry ops user_compare)"

definition db_iter_ops :: "'i iter_ops \<Rightarrow> (bytes \<Rightarrow> bytes \<Rightarrow> int) \<Rightarrow> 'i DBIter iter_ops" where
  "db_iter_ops ops user_compare =
     \<lparr>io_valid = db_valid, io_key = DBKey ops, io_value = DBValue ops, io_next = DBNext ops user_compare,
      io_prev = DBPrev ops user_compare, io_seek = DBSeek ops user_compare, io_seek_to_first = DBSeekToFirst ops user_compare,
      io_seek_to_last = DBSeekToLast ops user_compare, io_status = DBStatus ops\<rparr>"

end
