(* ===== verification/Db_View.thy ===== *)
theory Db_View
  imports Mem_Iter Db_Iter
begin

text \<open>
  What the client's iterator shows: the newest visible value of every user key, in order. The two
  loops of \<open>db/db_iter.cc\<close> find the next and the previous such entry.
\<close>

section \<open>Read sampling\<close>

definition seed_ok :: "u32 \<Rightarrow> bool" where
  "seed_ok r \<longleftrightarrow> 0 < r \<and> r < 2147483647"

lemma NewRandom_ok: "seed_ok (NewRandom s)"
proof -
  have "s AND 0x7fffffff \<le> 0x7fffffff" by (rule word_and_le1)
  then show ?thesis by (auto simp: NewRandom_def seed_ok_def Let_def word_neq_0_conv order_le_less)
qed

lemma seed_ok_next: "seed_ok r \<Longrightarrow> seed_ok (RandomNext r)"
proof -
  assume "seed_ok r"
  then have r: "0 < r" "r < 2147483647" by (simp_all add: seed_ok_def)
  then have sd: "0 < unat r" "unat r < 2147483647" by (simp_all add: word_less_nat_alt unat_gt_0)
  show ?thesis
    using RandomNext_mod [OF r] random_nonzero [OF sd] by (simp add: seed_ok_def word_less_nat_alt)
qed

lemma period_progress:
  fixes s :: nat
  assumes "0 < s" "s < 2147483647" "s mod 2097152 = 0"
  shows "s * 16807 mod 2147483647 mod 2097152 \<noteq> 0"
proof
  define k where "k = s * 16807 div 2147483647"
  define r where "r = s * 16807 mod 2147483647"
  assume "s * 16807 mod 2147483647 mod 2097152 = 0"
  then have "2097152 dvd r" "2097152 dvd s" using assms(3) by (simp_all add: r_def dvd_eq_mod_eq_0)
  moreover have e: "s * 16807 = k * 2147483647 + r" unfolding k_def r_def by (rule div_mult_mod_eq [symmetric])
  ultimately have "2097152 dvd k * 2147483647" by (metis dvd_add_left_iff dvd_mult2)
  moreover have "coprime (2097152 :: nat) 2147483647"
  proof -
    have "coprime ((2 :: nat) ^ 21) 2147483647" by (rule coprime_power_left_iff [THEN iffD2]) simp
    then show ?thesis by simp
  qed
  ultimately have "2097152 dvd k" by (simp add: coprime_dvd_mult_left_iff)
  moreover have "k < 16807" unfolding k_def using assms(2) by (intro less_mult_imp_div_less) simp
  ultimately have "k = 0" by (auto dest: dvd_imp_le)
  then have "r = s * 16807" "s * 16807 < 2147483647" using e by (simp_all add: r_def)
  obtain t where t: "s = 2097152 * t" using \<open>2097152 dvd s\<close> by (auto simp: dvd_def)
  then have "t = 0" using \<open>s * 16807 < 2147483647\<close> by simp
  then show False using t assms(1) by simp
qed

text \<open>A read changes the sampling state only.\<close>

definition sampled :: "'i DBIter \<Rightarrow> 'i DBIter \<Rightarrow> bool" where
  "sampled d d' \<longleftrightarrow> (\<exists>b r ss. seed_ok r \<and> d' = d\<lparr>db_bytes_until := b, db_rnd := r, db_samples := ss\<rparr>)"

lemma sampledD:
  "sampled d d' \<Longrightarrow> db_iter d' = db_iter d \<and> db_sequence d' = db_sequence d \<and> db_status d' = db_status d
    \<and> db_saved_key d' = db_saved_key d \<and> db_saved_value d' = db_saved_value d \<and> db_direction d' = db_direction d
    \<and> db_valid d' = db_valid d \<and> seed_ok (db_rnd d')"
  by (auto simp: sampled_def)

lemma sampled_step: "sampled (d\<lparr>db_bytes_until := b, db_rnd := r, db_samples := ss\<rparr>) d' \<Longrightarrow> sampled d d'"
  by (auto simp: sampled_def)

lemma sampled_until: "sampled d d1 \<Longrightarrow> sampled d (d1\<lparr>db_bytes_until := x\<rparr>)"
proof -
  assume "sampled d d1"
  then obtain b r ss where r: "seed_ok r" and d1: "d1 = d\<lparr>db_bytes_until := b, db_rnd := r, db_samples := ss\<rparr>" by (auto simp: sampled_def)
  have "d1\<lparr>db_bytes_until := x\<rparr> = d\<lparr>db_bytes_until := x, db_rnd := r, db_samples := ss\<rparr>" unfolding d1 by (cases d) simp
  with r show ?thesis unfolding sampled_def by blast
qed

definition draw :: "bytes \<Rightarrow> 'i DBIter \<Rightarrow> 'i DBIter" where
  "draw k d = (case RandomCompactionPeriod (db_rnd d) of (period, rnd) \<Rightarrow>
     d\<lparr>db_bytes_until := db_bytes_until d + unat period, db_rnd := rnd, db_samples := db_samples d @ [k]\<rparr>)"

lemma sample_loop_unfold:
  "sample_loop n k d = (if db_bytes_until d < n then sample_loop n k (draw k d) else Some d)"
  by (subst sample_loop.simps) (simp add: draw_def split: prod.split)

lemma draw_facts:
  "db_rnd (draw k d) = RandomNext (db_rnd d)" "db_bytes_until (draw k d) = db_bytes_until d + unat (RandomNext (db_rnd d)) mod 2097152"
  by (simp_all add: draw_def RandomCompactionPeriod_def RandomUniform_def Let_def kReadBytesPeriod_def unat_mod)

lemma sampled_draw: "sampled (draw k d) d' \<Longrightarrow> sampled d d'"
  unfolding draw_def by (auto split: prod.splits intro: sampled_step)

lemma draw_progress:
  assumes "seed_ok (db_rnd d)"
  shows "db_bytes_until d < db_bytes_until (draw k (draw k d))"
proof (cases "unat (RandomNext (db_rnd d)) mod 2097152 = 0")
  case True
  have "seed_ok (RandomNext (db_rnd d))" using assms by (rule seed_ok_next)
  then have r: "0 < RandomNext (db_rnd d)" "RandomNext (db_rnd d) < 2147483647" by (simp_all add: seed_ok_def)
  then have "0 < unat (RandomNext (db_rnd d))" "unat (RandomNext (db_rnd d)) < 2147483647"
    by (simp_all add: word_less_nat_alt unat_gt_0)
  from period_progress [OF this True] RandomNext_mod [OF r] show ?thesis by (simp add: draw_facts)
qed (simp add: draw_facts)

lemma sample_loop_ends:
  assumes "seed_ok (db_rnd d)"
  shows "\<exists>d'. sample_loop n k d = Some d' \<and> sampled d d' \<and> n \<le> db_bytes_until d'"
  using assms
proof (induction "n - db_bytes_until d" arbitrary: d rule: less_induct)
  case less
  have self: "sampled d d" using less.prems by (auto simp: sampled_def intro!: exI [of _ "db_bytes_until d"] exI [of _ "db_rnd d"] exI [of _ "db_samples d"])
  have ok: "seed_ok (db_rnd (draw k d))" "seed_ok (db_rnd (draw k (draw k d)))"
    using less.prems by (simp_all add: draw_facts seed_ok_next)
  show ?case
  proof (cases "db_bytes_until d < n")
    case True
    show ?thesis
    proof (cases "db_bytes_until (draw k d) < n")
      case more: True
      have "n - db_bytes_until (draw k (draw k d)) < n - db_bytes_until d" using draw_progress [OF less.prems, of k] True by linarith
      from less.hyps [OF this ok(2)] obtain d' where
        d': "sample_loop n k (draw k (draw k d)) = Some d'" "sampled (draw k (draw k d)) d'" "n \<le> db_bytes_until d'" by blast
      then have "sample_loop n k d = Some d'" using True more by (simp add: sample_loop_unfold [of n k d] sample_loop_unfold [of n k "draw k d"])
      then show ?thesis using d'(2,3) sampled_draw by blast
    next
      case False
      have "sampled (draw k d) (draw k d)" using ok(1)
        by (auto simp: sampled_def intro!: exI [of _ "db_bytes_until (draw k d)"] exI [of _ "db_rnd (draw k d)"] exI [of _ "db_samples (draw k d)"])
      then have "sampled d (draw k d)" by (rule sampled_draw)
      then show ?thesis using True False by (simp add: sample_loop_unfold [of n k d] sample_loop_unfold [of n k "draw k d"])
    qed
  qed (use self in \<open>simp add: sample_loop_unfold [of n k d]\<close>)
qed

section \<open>The view\<close>

abbreviation user_less :: "bytes \<Rightarrow> bytes \<Rightarrow> bool" where
  "user_less a b \<equiv> BytewiseCompare a b < 0"

abbreviation entry_user :: "bytes \<times> bytes \<Rightarrow> bytes" where
  "entry_user e \<equiv> ExtractUserKey (fst e)"

definition entry_parses :: "bytes \<times> bytes \<Rightarrow> bool" where
  "entry_parses e \<longleftrightarrow> ParseInternalKey (fst e) \<noteq> None"

definition entry_seen :: "u64 \<Rightarrow> bytes \<times> bytes \<Rightarrow> bool" where
  "entry_seen s e \<longleftrightarrow> (case ParseInternalKey (fst e) of None \<Rightarrow> False | Some ik \<Rightarrow> ik_sequence ik \<le> s)"

definition entry_is_value :: "bytes \<times> bytes \<Rightarrow> bool" where
  "entry_is_value e \<longleftrightarrow> (case ParseInternalKey (fst e) of None \<Rightarrow> False | Some ik \<Rightarrow> ik_type ik = kTypeValue)"

text \<open>The entry at \<open>j\<close> is shown: it is a value, and the first entry of its user key that is seen.\<close>

definition shown :: "u64 \<Rightarrow> (bytes \<times> bytes) list \<Rightarrow> nat \<Rightarrow> bool" where
  "shown s xs j \<longleftrightarrow> j < length xs \<and> entry_seen s (xs ! j) \<and> entry_is_value (xs ! j)
     \<and> (\<forall>i < j. entry_seen s (xs ! i) \<longrightarrow> entry_user (xs ! i) \<noteq> entry_user (xs ! j))"

definition shown_list :: "u64 \<Rightarrow> (bytes \<times> bytes) list \<Rightarrow> nat list" where
  "shown_list s xs = filter (shown s xs) [0..<length xs]"

definition db_view :: "u64 \<Rightarrow> (bytes \<times> bytes) list \<Rightarrow> (bytes \<times> bytes) list" where
  "db_view s xs = map (\<lambda>j. (entry_user (xs ! j), snd (xs ! j))) (shown_list s xs)"

lemma parsed_user: "ParseInternalKey k = Some ik \<Longrightarrow> ik_user_key ik = ExtractUserKey k"
  by (auto simp: ParseInternalKey_def Let_def ExtractUserKey_def split: if_splits)

lemma shown_list_set: "j \<in> set (shown_list s xs) \<longleftrightarrow> shown s xs j"
  by (auto simp: shown_list_def shown_def)

lemma shown_list_sorted: "sorted_wrt (<) (shown_list s xs)"
  unfolding shown_list_def by (rule sorted_wrt_filter) simp

lemma shown_list_less:
  "p < length (shown_list s xs) \<Longrightarrow> q < length (shown_list s xs) \<Longrightarrow> shown_list s xs ! p < shown_list s xs ! q \<longleftrightarrow> p < q"
  using sorted_wrt_nth_less [OF shown_list_sorted [of s xs]] by (metis nat_neq_iff not_less_iff_gr_or_eq)

lemma length_db_view: "length (db_view s xs) = length (shown_list s xs)"
  by (simp add: db_view_def)

lemma user_less_trans: "user_less a b \<Longrightarrow> user_less b c \<Longrightarrow> user_less a c"
  using bytewise.compare_trans by blast

lemma user_less_irrefl: "\<not> user_less a a"
  by (simp add: bytewise.compare_refl)

lemma user_less_total: "user_less a b \<or> a = b \<or> user_less b a"
  using bytewise.compare_total by blast

lemma user_less_asym: "user_less a b \<Longrightarrow> \<not> user_less b a"
  using user_less_trans user_less_irrefl by blast

lemma user_le_iff: "BytewiseCompare a b \<le> 0 \<longleftrightarrow> \<not> user_less b a"
  using bytewise.compare_swap [of b a] by auto

lemmas user_order = user_less_trans user_less_irrefl user_less_total

text \<open>The user keys of sorted internal entries do not decrease.\<close>

abbreviation internal_sorted :: "(bytes \<times> bytes) list \<Rightarrow> bool" where
  "internal_sorted \<equiv> sorted_by (InternalKeyCompare BytewiseCompare) short_key"

lemma user_mono:
  assumes "internal_sorted xs" "i \<le> j" "j < length xs"
  shows "\<not> user_less (entry_user (xs ! j)) (entry_user (xs ! i))"
proof (cases "i = j")
  case False
  have "InternalKeyCompare BytewiseCompare (fst (xs ! i)) (fst (xs ! j)) < 0"
    using key_order.sorted_nth [OF short_key_order assms(1), of i j] assms(2,3) False by simp
  moreover have "internal_key_ok (fst (xs ! i))" "internal_key_ok (fst (xs ! j))"
    using assms by (auto simp: sorted_by_def short_key_def)
  ultimately show ?thesis by (metis internal_less_iff_bytewise user_less_asym user_less_irrefl)
qed (simp add: user_less_irrefl)

lemma user_less_index: "internal_sorted xs \<Longrightarrow> i < length xs \<Longrightarrow> user_less (entry_user (xs ! i)) (entry_user (xs ! j)) \<Longrightarrow> i < j"
  using user_mono [of xs j i] by (cases "j \<le> i") auto

lemma shown_user_less:
  assumes "internal_sorted xs" "shown s xs i" "shown s xs j"
  shows "user_less (entry_user (xs ! i)) (entry_user (xs ! j)) \<longleftrightarrow> i < j"
proof
  assume "i < j"
  then have "entry_user (xs ! i) \<noteq> entry_user (xs ! j)" "\<not> user_less (entry_user (xs ! j)) (entry_user (xs ! i))"
    using assms user_mono [OF assms(1), of i j] by (auto simp: shown_def)
  then show "user_less (entry_user (xs ! i)) (entry_user (xs ! j))" using user_less_total by blast
qed (use assms(2) user_less_index [OF assms(1)] in \<open>auto simp: shown_def\<close>)

definition short_user :: "bytes \<Rightarrow> bool" where
  "short_user u \<longleftrightarrow> length u + 8 < 2 ^ 32"

lemma db_view_sorted:
  assumes "internal_sorted xs"
  shows "sorted_by BytewiseCompare short_user (db_view s xs)"
proof -
  have "sorted_wrt (\<lambda>i j. user_less (entry_user (xs ! i)) (entry_user (xs ! j))) (shown_list s xs)"
    by (rule sorted_wrt_mono_rel [OF _ shown_list_sorted]) (simp add: shown_list_set shown_user_less [OF assms])
  moreover have "short_user (entry_user (xs ! j))" if "shown s xs j" for j
  proof -
    have "xs ! j \<in> set xs" using that by (simp add: shown_def)
    then have "short_key (fst (xs ! j))" using assms by (simp add: sorted_by_def)
    then show ?thesis by (simp add: short_key_def short_user_def internal_key_ok_def ExtractUserKey_def)
  qed
  ultimately show ?thesis by (auto simp: sorted_by_def db_view_def sorted_wrt_map shown_list_set)
qed

text \<open>A user key is shown with a value exactly when the newest entry that is seen is that value.\<close>

lemma db_view_member:
  "(u, v) \<in> set (db_view s xs) \<longleftrightarrow> (\<exists>j. shown s xs j \<and> u = entry_user (xs ! j) \<and> v = snd (xs ! j))"
  by (auto simp: db_view_def shown_list_set)

text \<open>Landing on the first, or the last, entry shown on one side of a position.\<close>

definition lands :: "(nat \<Rightarrow> bool) \<Rightarrow> nat option \<Rightarrow> bool" where
  "lands Q r \<longleftrightarrow> (case r of None \<Rightarrow> \<forall>j. \<not> Q j | Some j \<Rightarrow> Q j \<and> (\<forall>i < j. \<not> Q i))"

definition lands_last :: "(nat \<Rightarrow> bool) \<Rightarrow> nat option \<Rightarrow> bool" where
  "lands_last Q r \<longleftrightarrow> (case r of None \<Rightarrow> \<forall>j. \<not> Q j | Some j \<Rightarrow> Q j \<and> (\<forall>i > j. \<not> Q i))"

lemma lands_first_index:
  assumes "lands (\<lambda>j. shown s xs j \<and> Q j) r"
  obtains q where "first_index Q (shown_list s xs) = q" "r = map_option ((!) (shown_list s xs)) q"
    "\<And>p. q = Some p \<Longrightarrow> p < length (shown_list s xs)"
proof (cases r)
  case None
  then have "first_index Q (shown_list s xs) = None" using assms by (auto simp: lands_def first_index_None shown_list_set)
  then show ?thesis using that None by simp
next
  case (Some j)
  then have j: "shown s xs j" "Q j" "\<forall>i < j. \<not> (shown s xs i \<and> Q i)" using assms by (simp_all add: lands_def)
  then obtain p where p: "p < length (shown_list s xs)" "shown_list s xs ! p = j"
    using shown_list_set [of j s xs] by (auto simp: in_set_conv_nth)
  have "\<not> Q (shown_list s xs ! i)" if "i < p" for i
    using that j(3) p shown_list_less [of i s xs p] shown_list_set [of "shown_list s xs ! i" s xs] by simp
  then have "first_index Q (shown_list s xs) = Some p" using p j(2) by (intro first_index_eqI) simp_all
  then show ?thesis using that [of "Some p"] p Some by simp
qed

lemma lands_last_index:
  assumes "lands_last (\<lambda>j. shown s xs j \<and> j < b) r" "\<And>p. p < length (shown_list s xs) \<Longrightarrow> shown_list s xs ! p < b \<longleftrightarrow> p < n"
    "n \<le> length (shown_list s xs)"
  shows "r = (if n = 0 then None else Some (shown_list s xs ! (n - 1)))"
proof (cases r)
  case None
  have "\<not> (0 < n)"
  proof
    assume "0 < n"
    then have "0 < length (shown_list s xs)" using assms(3) by (rule less_le_trans)
    then have "shown s xs (shown_list s xs ! 0)" "shown_list s xs ! 0 < b"
      using assms(2) [of 0] \<open>0 < n\<close> shown_list_set [of "shown_list s xs ! 0" s xs] by simp_all
    then show False using assms(1) None by (auto simp: lands_last_def)
  qed
  then show ?thesis using None by simp
next
  case (Some j)
  then have j: "shown s xs j" "j < b" "\<forall>i > j. \<not> (shown s xs i \<and> i < b)" using assms(1) by (simp_all add: lands_last_def)
  then obtain p where p: "p < length (shown_list s xs)" "shown_list s xs ! p = j"
    using shown_list_set [of j s xs] by (auto simp: in_set_conv_nth)
  then have "p < n" using assms(2) [of p] j(2) by simp
  moreover have "\<not> p < n - 1"
  proof
    assume "p < n - 1"
    then have "n - 1 < length (shown_list s xs)" "n - 1 < n" using assms(3) by simp_all
    then have "shown s xs (shown_list s xs ! (n - 1))" "shown_list s xs ! (n - 1) < b" "j < shown_list s xs ! (n - 1)"
      using assms(2) [of "n - 1"] shown_list_set [of "shown_list s xs ! (n - 1)" s xs]
        shown_list_less [OF p(1), of "n - 1"] p(2) \<open>p < n - 1\<close> by simp_all
    then show False using j(3) by blast
  qed
  ultimately have "p = n - 1" "n \<noteq> 0" by simp_all
  then show ?thesis using Some p by simp
qed

end
