(* ===== verification/Db_Refine.thy ===== *)
theory Db_Refine
  imports Db_View
begin

text \<open>
  The client's iterator meets the iterator contract on its view, over any internal iterator that
  meets it on the internal entries.
\<close>

section \<open>Looking forward\<close>

text \<open>
  What the forward loop looks for from \<open>p\<close> on: the first entry of its user key, seen, a value, and
  not of the user key \<open>k\<close> that is being skipped.
\<close>

definition pending :: "u64 \<Rightarrow> (bytes \<times> bytes) list \<Rightarrow> nat \<Rightarrow> bool \<Rightarrow> bytes \<Rightarrow> nat \<Rightarrow> bool" where
  "pending s xs p skipping k j \<longleftrightarrow> p \<le> j \<and> j < length xs \<and> entry_seen s (xs ! j) \<and> entry_is_value (xs ! j)
     \<and> \<not> (skipping \<and> entry_user (xs ! j) = k)
     \<and> (\<forall>i. p \<le> i \<longrightarrow> i < j \<longrightarrow> entry_seen s (xs ! i) \<longrightarrow> entry_user (xs ! i) \<noteq> entry_user (xs ! j))"

definition skip_ok :: "u64 \<Rightarrow> (bytes \<times> bytes) list \<Rightarrow> nat \<Rightarrow> bool \<Rightarrow> bytes \<Rightarrow> bool" where
  "skip_ok s xs p skipping k \<longleftrightarrow>
     (skipping \<longrightarrow> (\<forall>j. p \<le> j \<longrightarrow> j < length xs \<longrightarrow> entry_seen s (xs ! j) \<longrightarrow> \<not> user_less (entry_user (xs ! j)) k))"

lemma skip_ok_Suc: "skip_ok s xs p skipping k \<Longrightarrow> skip_ok s xs (Suc p) skipping k"
  by (simp add: skip_ok_def)

lemma skip_ok_deleted: "internal_sorted xs \<Longrightarrow> skip_ok s xs (Suc p) True (entry_user (xs ! p))"
  by (simp add: skip_ok_def user_mono)

lemma pending_above: "pending s xs (length xs) skipping k j = False"
  by (simp add: pending_def)

lemma pending_unseen:
  assumes "\<not> entry_seen s (xs ! p)"
  shows "pending s xs p skipping k = pending s xs (Suc p) skipping k"
proof
  fix j
  have "p \<le> i \<and> entry_seen s (xs ! i) \<longleftrightarrow> Suc p \<le> i \<and> entry_seen s (xs ! i)" for i
    using assms by (auto simp: Suc_le_eq order_le_less)
  then show "pending s xs p skipping k j = pending s xs (Suc p) skipping k j" unfolding pending_def by blast
qed

lemma pending_deleted:
  assumes "internal_sorted xs" "p < length xs" "entry_seen s (xs ! p)" "\<not> entry_is_value (xs ! p)" "skip_ok s xs p skipping k"
  shows "pending s xs p skipping k = pending s xs (Suc p) True (entry_user (xs ! p))"
proof
  fix j
  show "pending s xs p skipping k j = pending s xs (Suc p) True (entry_user (xs ! p)) j"
  proof
    assume j: "pending s xs p skipping k j"
    then have "j \<noteq> p" using assms(4) by (auto simp: pending_def)
    with j show "pending s xs (Suc p) True (entry_user (xs ! p)) j" using assms(3) by (auto simp: pending_def)
  next
    assume j: "pending s xs (Suc p) True (entry_user (xs ! p)) j"
    then have up: "entry_user (xs ! p) \<noteq> entry_user (xs ! j)" "Suc p \<le> j" "j < length xs" by (auto simp: pending_def)
    have "entry_user (xs ! j) \<noteq> k" if skipping
    proof
      assume "entry_user (xs ! j) = k"
      moreover have "\<not> user_less (entry_user (xs ! p)) k" using assms(2,3,5) that by (simp add: skip_ok_def)
      ultimately show False using user_mono [OF assms(1), of p j] up user_less_total by auto
    qed
    moreover have "entry_user (xs ! i) \<noteq> entry_user (xs ! j)" if "p \<le> i" "i < j" "entry_seen s (xs ! i)" for i
      using that up(1) j by (cases "i = p") (auto simp: pending_def)
    ultimately show "pending s xs p skipping k j" using j by (auto simp: pending_def)
  qed
qed

lemma pending_hidden:
  assumes "internal_sorted xs" "p < length xs" "entry_seen s (xs ! p)" "skip_ok s xs p True k" "\<not> user_less k (entry_user (xs ! p))"
  shows "pending s xs p True k = pending s xs (Suc p) True k"
proof
  fix j
  have k: "entry_user (xs ! p) = k" using assms(2-5) user_less_total by (auto simp: skip_ok_def)
  show "pending s xs p True k j = pending s xs (Suc p) True k j"
  proof
    assume j: "pending s xs p True k j"
    then have "j \<noteq> p" using k by (auto simp: pending_def)
    with j show "pending s xs (Suc p) True k j" by (auto simp: pending_def)
  next
    assume j: "pending s xs (Suc p) True k j"
    have "entry_user (xs ! i) \<noteq> entry_user (xs ! j)" if "p \<le> i" "i < j" "entry_seen s (xs ! i)" for i
      using that j k by (cases "i = p") (auto simp: pending_def)
    with j show "pending s xs p True k j" by (auto simp: pending_def)
  qed
qed

lemma pending_here:
  assumes "p < length xs" "entry_seen s (xs ! p)" "entry_is_value (xs ! p)" "skipping \<longrightarrow> user_less k (entry_user (xs ! p))"
  shows "lands (pending s xs p skipping k) (Some p)"
  using assms user_less_irrefl by (auto simp: lands_def pending_def)

lemma pending_from_start: "pending s xs 0 False k j \<longleftrightarrow> shown s xs j \<and> True"
  by (auto simp: pending_def shown_def)

text \<open>After the entries of \<open>xs ! h\<close> have been skipped.\<close>

lemma pending_after:
  assumes "internal_sorted xs" "shown s xs h"
    and from_p: "\<And>j. p \<le> j \<Longrightarrow> j < length xs \<Longrightarrow> entry_seen s (xs ! j) \<Longrightarrow> \<not> user_less (entry_user (xs ! j)) (entry_user (xs ! h))"
    and to_p: "\<And>j. j < p \<Longrightarrow> j < length xs \<Longrightarrow> entry_seen s (xs ! j) \<Longrightarrow> \<not> user_less (entry_user (xs ! h)) (entry_user (xs ! j))"
  shows "pending s xs p True (entry_user (xs ! h)) j \<longleftrightarrow> shown s xs j \<and> h < j"
proof
  assume j: "pending s xs p True (entry_user (xs ! h)) j"
  then have pj: "p \<le> j" "j < length xs" "entry_seen s (xs ! j)" "entry_is_value (xs ! j)" "entry_user (xs ! j) \<noteq> entry_user (xs ! h)"
    by (simp_all add: pending_def)
  then have less: "user_less (entry_user (xs ! h)) (entry_user (xs ! j))" using from_p [OF pj(1-3)] user_less_total by blast
  have "entry_user (xs ! i) \<noteq> entry_user (xs ! j)" if "i < j" "entry_seen s (xs ! i)" for i
  proof (cases "i < p")
    case True
    then have "\<not> user_less (entry_user (xs ! h)) (entry_user (xs ! i))" using to_p [of i] that pj(2) by simp
    then show ?thesis using less by auto
  qed (use j that in \<open>auto simp: pending_def\<close>)
  moreover have "h < j" using user_less_index [OF assms(1) _ less] assms(2) by (simp add: shown_def)
  ultimately show "shown s xs j \<and> h < j" using pj by (auto simp: shown_def)
next
  assume j: "shown s xs j \<and> h < j"
  then have less: "user_less (entry_user (xs ! h)) (entry_user (xs ! j))" using shown_user_less [OF assms(1,2), of j] by simp
  then have "\<not> j < p" using to_p [of j] j by (auto simp: shown_def)
  moreover have "entry_user (xs ! j) \<noteq> entry_user (xs ! h)" using less user_less_irrefl by auto
  ultimately show "pending s xs p True (entry_user (xs ! h)) j" using j by (auto simp: shown_def pending_def)
qed

text \<open>After a seek.\<close>

lemma parsed_num:
  assumes "ParseInternalKey k = Some ik"
  shows "key_num k = push_bit 8 (ik_sequence ik) OR type_code (ik_type ik)" "unat (ik_sequence ik) < 2 ^ 56"
proof -
  define num where "num = key_num k"
  define c where "c = (ucast (num AND 0xff) :: u8)"
  have ik: "ik_sequence ik = drop_bit 8 num" "ik_type ik = (if c = 0 then kTypeDeletion else kTypeValue)" "c \<le> 1"
    using assms by (auto simp: ParseInternalKey_def Let_def num_def c_def split: if_splits)
  have uc: "unat (num AND 0xff) = unat c"
    by (simp add: c_def and_255_eq unsigned_ucast_eq unsigned_take_bit_eq)
  then have "unat (num AND 0xff) \<le> 1" using ik(3) by (simp add: word_le_nat_alt)
  then have code: "num AND 0xff = type_code (ik_type ik)"
    using ik(2) uc by (auto simp: word_unat_eq_iff le_Suc_eq)
  have "num = push_bit 8 (drop_bit 8 num) OR (num AND 0xff)"
    unfolding and_255_eq by (rule bit_word_eqI) (auto simp: bit_simps)
  then show "key_num k = push_bit 8 (ik_sequence ik) OR type_code (ik_type ik)"
    unfolding num_def [symmetric] ik(1) code [symmetric] .
  show "unat (ik_sequence ik) < 2 ^ 56"
    unfolding ik(1) using unsigned_less [of num, where ?'a = nat] by (simp add: unat_drop_bit_div less_mult_imp_div_less)
qed

lemma seek_below:
  assumes "AppendInternalKey [] \<lparr>ik_user_key = target, ik_sequence = s, ik_type = kValueTypeForSeek\<rparr> = Some k"
    and "internal_key_ok (fst e)" "entry_seen s e"
  shows "InternalKeyCompare BytewiseCompare (fst e) k < 0 \<longleftrightarrow> user_less (entry_user e) target"
proof -
  obtain ik where ik: "ParseInternalKey (fst e) = Some ik" "ik_sequence ik \<le> s"
    using assms(3) by (auto simp: entry_seen_def split: option.splits)
  note k = ParseInternalKey_Append [OF assms(1)]
  have num: "key_num k = push_bit 8 s OR type_code kTypeValue" "unat s < 2 ^ 56"
    using parsed_num [OF k(1)] by (simp_all add: kValueTypeForSeek_def)
  have "\<not> key_num k < key_num (fst e)"
    unfolding num(1) parsed_num(1) [OF ik(1)] packed_less_iff [OF num(2) parsed_num(2) [OF ik(1)]] using ik(2) by auto
  then show ?thesis using internal_less_iff_bytewise [OF assms(2) k(4)] k(2) by simp
qed

lemma pending_after_seek:
  assumes "\<And>j. p \<le> j \<Longrightarrow> j < length xs \<Longrightarrow> entry_seen s (xs ! j) \<Longrightarrow> \<not> user_less (entry_user (xs ! j)) u"
    and "\<And>j. j < p \<Longrightarrow> j < length xs \<Longrightarrow> entry_seen s (xs ! j) \<Longrightarrow> user_less (entry_user (xs ! j)) u"
  shows "pending s xs p False k j \<longleftrightarrow> shown s xs j \<and> \<not> user_less (entry_user (xs ! j)) u"
proof
  assume j: "pending s xs p False k j"
  then have pj: "p \<le> j" "j < length xs" "entry_seen s (xs ! j)" "entry_is_value (xs ! j)" by (simp_all add: pending_def)
  have above: "\<not> user_less (entry_user (xs ! j)) u" using assms(1) [OF pj(1-3)] .
  have "entry_user (xs ! i) \<noteq> entry_user (xs ! j)" if "i < j" "entry_seen s (xs ! i)" for i
  proof (cases "i < p")
    case True
    then have "user_less (entry_user (xs ! i)) u" using assms(2) [of i] that pj(2) by simp
    then show ?thesis using above by auto
  qed (use j that in \<open>auto simp: pending_def\<close>)
  then show "shown s xs j \<and> \<not> user_less (entry_user (xs ! j)) u" using pj above by (auto simp: shown_def)
next
  assume j: "shown s xs j \<and> \<not> user_less (entry_user (xs ! j)) u"
  then have "\<not> j < p" using assms(2) [of j] by (auto simp: shown_def)
  then show "pending s xs p False k j" using j by (auto simp: shown_def pending_def)
qed

lemma first_index_map: "first_index P (map f xs) = first_index (\<lambda>x. P (f x)) xs"
  by (induction xs) auto

lemma first_shown_after:
  assumes "q < length (shown_list s xs)"
  shows "first_index (\<lambda>j. shown_list s xs ! q < j) (shown_list s xs) = (if Suc q < length (shown_list s xs) then Some (Suc q) else None)"
proof (cases "Suc q < length (shown_list s xs)")
  case True
  then show ?thesis using shown_list_less [OF assms] by (auto intro!: first_index_eqI simp: shown_list_less)
next
  case False
  then have "\<not> shown_list s xs ! q < j" if "j \<in> set (shown_list s xs)" for j
    using that shown_list_less [OF assms] by (auto simp: in_set_conv_nth)
  then show ?thesis using False by (auto simp: first_index_None)
qed

section \<open>Looking backward\<close>

text \<open>
  The backward loop has done with the entries from \<open>c\<close> to \<open>b\<close>. Its type is a deletion when none of
  them is shown; else it has saved the earliest of them that is seen.
\<close>

definition prev_inv :: "u64 \<Rightarrow> (bytes \<times> bytes) list \<Rightarrow> nat \<Rightarrow> nat \<Rightarrow> ValueType \<Rightarrow> bytes \<Rightarrow> bytes \<Rightarrow> bool" where
  "prev_inv s xs c b t k v \<longleftrightarrow>
     (case t of
        kTypeDeletion \<Rightarrow> \<forall>j. c \<le> j \<longrightarrow> j < b \<longrightarrow> \<not> shown s xs j
      | kTypeValue \<Rightarrow> \<exists>i. c \<le> i \<and> i < b \<and> i < length xs \<and> entry_seen s (xs ! i) \<and> entry_is_value (xs ! i)
          \<and> k = entry_user (xs ! i) \<and> v = snd (xs ! i) \<and> (\<forall>j. c \<le> j \<longrightarrow> j < b \<longrightarrow> j \<noteq> i \<longrightarrow> \<not> shown s xs j)
          \<and> (\<forall>j. c \<le> j \<longrightarrow> j < i \<longrightarrow> \<not> entry_seen s (xs ! j)))"

text \<open>The position of the internal iterator just before the entries of \<open>u\<close>.\<close>

definition before_user :: "u64 \<Rightarrow> (bytes \<times> bytes) list \<Rightarrow> bytes \<Rightarrow> nat option \<Rightarrow> bool" where
  "before_user s xs u r \<longleftrightarrow>
     (case r of
        None \<Rightarrow> \<forall>j < length xs. entry_seen s (xs ! j) \<longrightarrow> \<not> user_less (entry_user (xs ! j)) u
      | Some p \<Rightarrow> p < length xs \<and> entry_seen s (xs ! p) \<and> user_less (entry_user (xs ! p)) u
          \<and> (\<forall>j. p < j \<longrightarrow> j < length xs \<longrightarrow> entry_seen s (xs ! j) \<longrightarrow> \<not> user_less (entry_user (xs ! j)) u))"

text \<open>What the loop returns.\<close>

definition prev_result :: "u64 \<Rightarrow> (bytes \<times> bytes) list \<Rightarrow> nat \<Rightarrow> ValueType \<Rightarrow> bytes \<Rightarrow> bytes \<Rightarrow> nat option \<Rightarrow> bool" where
  "prev_result s xs b t k v r \<longleftrightarrow>
     (case t of
        kTypeDeletion \<Rightarrow> \<forall>j < b. \<not> shown s xs j
      | kTypeValue \<Rightarrow> \<exists>i < b. shown s xs i \<and> (\<forall>j. i < j \<longrightarrow> j < b \<longrightarrow> \<not> shown s xs j)
          \<and> k = entry_user (xs ! i) \<and> v = snd (xs ! i) \<and> before_user s xs (entry_user (xs ! i)) r)"

lemma prev_inv_unseen:
  assumes "prev_inv s xs (Suc p) b t k v" "\<not> entry_seen s (xs ! p)"
  shows "prev_inv s xs p b t k v"
proof -
  have sp: "\<not> shown s xs p" using assms(2) by (simp add: shown_def)
  have low: "p \<le> j \<longleftrightarrow> j = p \<or> Suc p \<le> j" for j by linarith
  show ?thesis
  proof (cases t)
    case kTypeDeletion
    then show ?thesis using assms sp by (auto simp: prev_inv_def low)
  next
    case kTypeValue
    then show ?thesis using assms(1) unfolding prev_inv_def
      apply (simp)
      apply (elim exE conjE)
      subgoal for i using sp assms(2) by (intro exI [of _ i]) (auto simp: low)
      done
  qed
qed

lemma prev_inv_hides:
  assumes "prev_inv s xs (Suc p) b t k v" "internal_sorted xs" "entry_seen s (xs ! p)"
    and "t = kTypeValue \<longrightarrow> \<not> user_less (entry_user (xs ! p)) k" "Suc p \<le> j" "j < b"
  shows "\<not> shown s xs j"
proof (cases t)
  case kTypeDeletion
  then show ?thesis using assms by (simp add: prev_inv_def)
next
  case kTypeValue
  then obtain i where i: "Suc p \<le> i" "i < length xs" "k = entry_user (xs ! i)" "j \<noteq> i \<longrightarrow> \<not> shown s xs j"
    using assms(1,5,6) unfolding prev_inv_def by auto
  have "entry_user (xs ! p) = entry_user (xs ! i)"
    using user_mono [OF assms(2), of p i] i(1-3) assms(4) kTypeValue user_less_total by auto
  then have "\<not> shown s xs i" using i(1) assms(3) by (auto simp: shown_def Suc_le_eq)
  with i(4) show ?thesis by (cases "j = i") simp_all
qed

lemma prev_inv_deletion:
  assumes "prev_inv s xs (Suc p) b t k v" "internal_sorted xs" "entry_seen s (xs ! p)"
    and "t = kTypeValue \<longrightarrow> \<not> user_less (entry_user (xs ! p)) k" "\<not> entry_is_value (xs ! p)"
  shows "prev_inv s xs p b kTypeDeletion k' v'"
proof -
  have "\<not> shown s xs j" if "p \<le> j" "j < b" for j
    using prev_inv_hides [OF assms(1-4), of j] that assms(5) by (cases "j = p") (simp_all add: shown_def)
  then show ?thesis by (simp add: prev_inv_def)
qed

lemma prev_inv_value:
  assumes "prev_inv s xs (Suc p) b t k v" "internal_sorted xs" "entry_seen s (xs ! p)"
    and "t = kTypeValue \<longrightarrow> \<not> user_less (entry_user (xs ! p)) k" "entry_is_value (xs ! p)" "p < length xs" "p < b"
  shows "prev_inv s xs p b kTypeValue (entry_user (xs ! p)) (snd (xs ! p))"
proof -
  have "\<not> shown s xs j" if "p \<le> j" "j < b" "j \<noteq> p" for j
    using prev_inv_hides [OF assms(1-4), of j] that by simp
  then show ?thesis using assms(3,5-7) by (auto simp: prev_inv_def)
qed

lemma before_userI:
  assumes "internal_sorted xs" "i < length xs"
    and "case r of None \<Rightarrow> \<forall>j < i. \<not> entry_seen s (xs ! j)
      | Some p \<Rightarrow> p < i \<and> entry_seen s (xs ! p) \<and> user_less (entry_user (xs ! p)) (entry_user (xs ! i)) \<and> (\<forall>j. p < j \<longrightarrow> j < i \<longrightarrow> \<not> entry_seen s (xs ! j))"
  shows "before_user s xs (entry_user (xs ! i)) r"
proof -
  have "\<not> user_less (entry_user (xs ! j)) (entry_user (xs ! i))" if "i \<le> j" "j < length xs" for j
    using user_mono [OF assms(1) that] .
  then show ?thesis using assms(2,3) unfolding before_user_def by (cases r) (simp_all, (metis not_le)+)
qed

lemma prev_result_stop:
  assumes "prev_inv s xs (Suc p) b kTypeValue k v" "internal_sorted xs" "p < length xs" "entry_seen s (xs ! p)"
    and "user_less (entry_user (xs ! p)) k"
  shows "prev_result s xs b kTypeValue k v (Some p)"
proof -
  from assms(1) obtain i where i: "Suc p \<le> i" "i < b" "i < length xs" "entry_seen s (xs ! i)" "entry_is_value (xs ! i)"
    "k = entry_user (xs ! i)" "v = snd (xs ! i)" "\<forall>j. Suc p \<le> j \<longrightarrow> j < b \<longrightarrow> j \<noteq> i \<longrightarrow> \<not> shown s xs j"
    "\<forall>j. Suc p \<le> j \<longrightarrow> j < i \<longrightarrow> \<not> entry_seen s (xs ! j)"
    unfolding prev_inv_def by auto
  have "entry_user (xs ! j) \<noteq> entry_user (xs ! i)" if "j < i" "entry_seen s (xs ! j)" for j
  proof -
    have "j \<le> p" using i(9) that by (metis not_less_eq_eq)
    then have "\<not> user_less (entry_user (xs ! p)) (entry_user (xs ! j))" using user_mono [OF assms(2) _ assms(3)] by simp
    then show ?thesis using assms(5) i(6) by metis
  qed
  then have "shown s xs i" using i by (simp add: shown_def)
  moreover have "before_user s xs (entry_user (xs ! i)) (Some p)"
    using i assms(4,5) by (intro before_userI [OF assms(2)]) auto
  ultimately show ?thesis using i(1,2,6-8) unfolding prev_result_def by auto
qed

lemma prev_result_end:
  assumes "prev_inv s xs 0 b t k v" "internal_sorted xs"
  shows "prev_result s xs b t k v None"
proof (cases t)
  case kTypeDeletion
  then show ?thesis using assms(1) by (simp add: prev_inv_def prev_result_def)
next
  case kTypeValue
  with assms(1) obtain i where i: "i < b" "i < length xs" "entry_seen s (xs ! i)" "entry_is_value (xs ! i)"
    "k = entry_user (xs ! i)" "v = snd (xs ! i)" "\<forall>j. j < b \<longrightarrow> j \<noteq> i \<longrightarrow> \<not> shown s xs j"
    "\<forall>j < i. \<not> entry_seen s (xs ! j)"
    unfolding prev_inv_def by auto
  have "shown s xs i" using i by (auto simp: shown_def)
  moreover have "before_user s xs (entry_user (xs ! i)) None"
    using i by (intro before_userI [OF assms(2)]) auto
  ultimately show ?thesis using i kTypeValue unfolding prev_result_def by auto
qed

section \<open>The loops\<close>

definition kept :: "'i DBIter \<Rightarrow> 'i DBIter \<Rightarrow> bool" where
  "kept d d' \<longleftrightarrow> db_sequence d' = db_sequence d \<and> db_status d' = db_status d \<and> db_direction d' = db_direction d \<and> seed_ok (db_rnd d')"

lemma kept_trans: "kept a b \<Longrightarrow> kept b c \<Longrightarrow> kept a c"
  by (simp add: kept_def)

lemma sampled_kept: "sampled d d' \<Longrightarrow> kept d d'"
  by (auto simp: sampled_def kept_def)

locale internal_iterator = sorted_iterator "InternalKeyCompare BytewiseCompare" short_key ops rep
  for ops :: "'i iter_ops" and rep :: "'i \<Rightarrow> (bytes \<times> bytes) list \<Rightarrow> nat option \<Rightarrow> bool"
begin

lemma ParseKey_ok:
  assumes "rep (db_iter d) xs (Some p)" "seed_ok (db_rnd d)" "entry_parses (xs ! p)"
  obtains ik d' where "ParseKey ops d = Some (Some ik, d')" "sampled d d'" "ParseInternalKey (fst (xs ! p)) = Some ik"
proof -
  define n where "n = length (fst (xs ! p)) + length (snd (xs ! p))"
  from sample_loop_ends [OF assms(2), of n "fst (xs ! p)"] obtain d1 where
    d1: "sample_loop n (fst (xs ! p)) d = Some d1" "sampled d d1" by blast
  obtain ik where ik: "ParseInternalKey (fst (xs ! p)) = Some ik" using assms(3) by (auto simp: entry_parses_def)
  have "sampled d (d1\<lparr>db_bytes_until := db_bytes_until d1 - n\<rparr>)" using d1(2) by (rule sampled_until)
  moreover have "ParseKey ops d = Some (Some ik, d1\<lparr>db_bytes_until := db_bytes_until d1 - n\<rparr>)"
    using rep_at [OF assms(1)] d1(1) ik by (simp add: ParseKey_def n_def)
  ultimately show ?thesis using that ik by blast
qed

lemma find_next_step_spec:
  assumes "rep (db_iter d) xs (Some p)" "seed_ok (db_rnd d)" "entry_parses (xs ! p)"
  shows "\<exists>d'. sampled d d' \<and> find_next_step ops BytewiseCompare skipping d = Some
    (if \<not> entry_seen (db_sequence d) (xs ! p) then Inl (skipping, d')
     else if \<not> entry_is_value (xs ! p) then Inl (True, d'\<lparr>db_saved_key := entry_user (xs ! p)\<rparr>)
     else if skipping \<and> \<not> user_less (db_saved_key d) (entry_user (xs ! p)) then Inl (skipping, d')
     else Inr (d'\<lparr>db_valid := True, db_saved_key := []\<rparr>))"
proof -
  from ParseKey_ok [OF assms] obtain ik d' where
    k: "ParseKey ops d = Some (Some ik, d')" "sampled d d'" "ParseInternalKey (fst (xs ! p)) = Some ik" .
  note s = sampledD [OF k(2)] and u = parsed_user [OF k(3)]
  have "entry_seen (db_sequence d) (xs ! p) \<longleftrightarrow> ik_sequence ik \<le> db_sequence d'"
    "entry_is_value (xs ! p) \<longleftrightarrow> ik_type ik = kTypeValue"
    using k(3) s by (simp_all add: entry_seen_def entry_is_value_def)
  then show ?thesis
    using k(1,2) s u user_le_iff [of "entry_user (xs ! p)" "db_saved_key d"]
    by (intro exI [of _ d'] conjI) (simp_all add: find_next_step_def split: ValueType.split)
qed

lemma move_iter_kept:
  assumes "\<exists>it. move (db_iter d) = Some it \<and> rep it xs q" "seed_ok (db_rnd d)"
  obtains it where "move_iter move d = Some (d\<lparr>db_iter := it\<rparr>)" "rep it xs q" "kept d (d\<lparr>db_iter := it\<rparr>)"
  using assms that by (auto simp: move_iter_def kept_def)

lemma rep_valid: "rep it xs q \<Longrightarrow> io_valid ops it \<longleftrightarrow> q \<noteq> None"
  using rep_at [of it xs] rep_off [of it xs] by (cases q) auto

definition next_found :: "(bytes \<times> bytes) list \<Rightarrow> (nat \<Rightarrow> bool) \<Rightarrow> 'i DBIter \<Rightarrow> 'i DBIter \<Rightarrow> bool" where
  "next_found xs Q d d' \<longleftrightarrow> kept d d' \<and> (\<exists>r. rep (db_iter d') xs r \<and> lands Q r \<and> (db_valid d' \<longleftrightarrow> r \<noteq> None))"

lemma next_found_kept: "next_found xs Q d1 d' \<Longrightarrow> kept d d1 \<Longrightarrow> next_found xs Q d d'"
  unfolding next_found_def using kept_trans by blast

lemma find_next_loop_spec:
  assumes "rep (db_iter d) xs (Some p)" "seed_ok (db_rnd d)" "\<forall>e \<in> set xs. entry_parses e"
    and "skip_ok (db_sequence d) xs p skipping (db_saved_key d)"
  shows "\<exists>d'. find_next_loop ops BytewiseCompare skipping d = Some d'
    \<and> next_found xs (pending (db_sequence d) xs p skipping (db_saved_key d)) d d'"
  using assms
proof (induction "length xs - p" arbitrary: p d skipping rule: less_induct)
  case less
  define s where "s = db_sequence d"
  have p: "p < length xs" and srt: "internal_sorted xs" using rep_at [OF less.prems(1)] rep_sorted [OF less.prems(1)] by simp_all
  then have parses: "entry_parses (xs ! p)" using less.prems(3) by simp
  from find_next_step_spec [OF less.prems(1,2) parses] obtain d1 where d1: "sampled d d1" and
    step: "find_next_step ops BytewiseCompare skipping d = Some
      (if \<not> entry_seen s (xs ! p) then Inl (skipping, d1)
       else if \<not> entry_is_value (xs ! p) then Inl (True, d1\<lparr>db_saved_key := entry_user (xs ! p)\<rparr>)
       else if skipping \<and> \<not> user_less (db_saved_key d) (entry_user (xs ! p)) then Inl (skipping, d1)
       else Inr (d1\<lparr>db_valid := True, db_saved_key := []\<rparr>))"
    unfolding s_def by blast
  note f1 = sampledD [OF d1] and kd = sampled_kept [OF d1]
  have go: ?case
    if st: "find_next_step ops BytewiseCompare skipping d = Some (Inl (sk, d2))"
      and d2: "db_iter d2 = db_iter d" "kept d d2" and ok: "skip_ok s xs (Suc p) sk (db_saved_key d2)"
      and pend: "pending s xs p skipping (db_saved_key d) = pending s xs (Suc p) sk (db_saved_key d2)"
    for sk d2
  proof -
    have "\<exists>it. io_next ops (db_iter d2) = Some it \<and> rep it xs (if Suc p < length xs then Some (Suc p) else None)"
      unfolding d2(1) by (rule rep_next [OF less.prems(1)])
    moreover have "seed_ok (db_rnd d2)" using d2(2) by (simp add: kept_def)
    ultimately obtain it where it: "move_iter (io_next ops) d2 = Some (d2\<lparr>db_iter := it\<rparr>)"
      "rep it xs (if Suc p < length xs then Some (Suc p) else None)" "kept d2 (d2\<lparr>db_iter := it\<rparr>)"
      by (rule move_iter_kept)
    define d3 where "d3 = d2\<lparr>db_iter := it\<rparr>"
    have k3: "kept d d3" unfolding d3_def by (rule kept_trans [OF d2(2) it(3)])
    have v: "io_valid ops it \<longleftrightarrow> Suc p < length xs" using rep_valid [OF it(2)] by simp
    show ?thesis
    proof (cases "Suc p < length xs")
      case True
      have loop: "find_next_loop ops BytewiseCompare skipping d = find_next_loop ops BytewiseCompare sk d3"
        using st it(1) v True by (subst find_next_loop.simps) (simp add: d3_def)
      have "rep (db_iter d3) xs (Some (Suc p))" "seed_ok (db_rnd d3)" "db_sequence d3 = s" "db_saved_key d3 = db_saved_key d2"
        using it(2) True k3 by (simp_all add: d3_def kept_def s_def)
      then have "\<exists>d'. find_next_loop ops BytewiseCompare sk d3 = Some d'
          \<and> next_found xs (pending s xs (Suc p) sk (db_saved_key d2)) d3 d'"
        using less.hyps [of "Suc p" d3 sk] less.prems(3) ok p by simp
      then show ?thesis unfolding loop s_def [symmetric] pend using next_found_kept [OF _ k3] by blast
    next
      case False
      then have "find_next_loop ops BytewiseCompare skipping d = Some (iteration_end d3)"
        using st it(1) v by (subst find_next_loop.simps) (simp add: d3_def)
      moreover have "Suc p = length xs" using p False by simp
      then have "lands (pending s xs p skipping (db_saved_key d)) None" unfolding pend by (simp add: lands_def pending_above)
      moreover have "rep (db_iter (iteration_end d3)) xs None" "\<not> db_valid (iteration_end d3)"
        using it(2) False by (simp_all add: iteration_end_def d3_def)
      moreover have "kept d (iteration_end d3)" using k3 by (simp add: kept_def iteration_end_def)
      ultimately show ?thesis unfolding next_found_def s_def [symmetric] by blast
    qed
  qed
  have skip: "skip_ok s xs p skipping (db_saved_key d)" using less.prems(4) by (simp add: s_def)
  consider "\<not> entry_seen s (xs ! p)" | "entry_seen s (xs ! p)" "\<not> entry_is_value (xs ! p)"
    | "entry_seen s (xs ! p)" "entry_is_value (xs ! p)" "skipping" "\<not> user_less (db_saved_key d) (entry_user (xs ! p))"
    | "entry_seen s (xs ! p)" "entry_is_value (xs ! p)" "skipping \<longrightarrow> user_less (db_saved_key d) (entry_user (xs ! p))"
    by blast
  then show ?case
  proof cases
    case 1
    show ?thesis
      by (rule go [of skipping d1]) (use 1 step f1 kd skip_ok_Suc [OF skip] pending_unseen [OF 1] in simp_all)
  next
    case 2
    show ?thesis
    proof (rule go [of True "d1\<lparr>db_saved_key := entry_user (xs ! p)\<rparr>"])
      show "kept d (d1\<lparr>db_saved_key := entry_user (xs ! p)\<rparr>)" using kd by (simp add: kept_def)
    qed (use 2 step f1 skip_ok_deleted [OF srt] pending_deleted [OF srt p 2 skip] in simp_all)
  next
    case 3
    show ?thesis
      by (rule go [of skipping d1])
        (use 3 step f1 kd skip_ok_Suc [OF skip] pending_hidden [OF srt p 3(1) _ 3(4)] skip in simp_all)
  next
    case 4
    define d2 where "d2 = d1\<lparr>db_valid := True, db_saved_key := []\<rparr>"
    have "find_next_loop ops BytewiseCompare skipping d = Some d2"
      using 4 step by (subst find_next_loop.simps) (auto simp: d2_def)
    moreover have "kept d d2" "rep (db_iter d2) xs (Some p)" "db_valid d2"
      using kd f1 less.prems(1) by (simp_all add: d2_def kept_def)
    ultimately show ?thesis using pending_here [OF p 4] unfolding next_found_def s_def [symmetric] by blast
  qed
qed

lemma find_prev_step_spec:
  assumes "rep (db_iter d) xs (Some p)" "seed_ok (db_rnd d)" "entry_parses (xs ! p)"
  shows "\<exists>d'. sampled d d' \<and> find_prev_step ops BytewiseCompare t d = Some
    (if \<not> entry_seen (db_sequence d) (xs ! p) then Inl (t, d')
     else if t \<noteq> kTypeDeletion \<and> user_less (entry_user (xs ! p)) (db_saved_key d) then Inr d'
     else if \<not> entry_is_value (xs ! p) then Inl (kTypeDeletion, d'\<lparr>db_saved_key := [], db_saved_value := []\<rparr>)
     else Inl (kTypeValue, d'\<lparr>db_saved_key := entry_user (xs ! p), db_saved_value := snd (xs ! p)\<rparr>))"
proof -
  from ParseKey_ok [OF assms] obtain ik d' where
    k: "ParseKey ops d = Some (Some ik, d')" "sampled d d'" "ParseInternalKey (fst (xs ! p)) = Some ik" .
  note s = sampledD [OF k(2)] and u = parsed_user [OF k(3)]
  have "entry_seen (db_sequence d) (xs ! p) \<longleftrightarrow> ik_sequence ik \<le> db_sequence d'"
    "entry_is_value (xs ! p) \<longleftrightarrow> ik_type ik = kTypeValue"
    using k(3) s by (simp_all add: entry_seen_def entry_is_value_def)
  then show ?thesis
    using k(1,2) s u rep_at [OF assms(1)]
    by (intro exI [of _ d'] conjI) (cases "ik_type ik"; simp add: find_prev_step_def ClearSavedValue_def)+
qed

lemma find_prev_loop_spec:
  assumes "rep (db_iter d) xs (Some p)" "seed_ok (db_rnd d)" "\<forall>e \<in> set xs. entry_parses e"
    and "prev_inv (db_sequence d) xs (Suc p) b t (db_saved_key d) (db_saved_value d)" "p < b"
  shows "\<exists>t' d' r. find_prev_loop ops BytewiseCompare t d = Some (t', d') \<and> kept d d' \<and> rep (db_iter d') xs r
    \<and> prev_result (db_sequence d) xs b t' (db_saved_key d') (db_saved_value d') r"
  using assms
proof (induction p arbitrary: d t rule: less_induct)
  case (less p)
  define s where "s = db_sequence d"
  have p: "p < length xs" and srt: "internal_sorted xs" using rep_at [OF less.prems(1)] rep_sorted [OF less.prems(1)] by simp_all
  then have parses: "entry_parses (xs ! p)" using less.prems(3) by simp
  note inv = less.prems(4) [folded s_def]
  from find_prev_step_spec [OF less.prems(1,2) parses, of t] obtain d1 where d1: "sampled d d1" and
    step: "find_prev_step ops BytewiseCompare t d = Some
      (if \<not> entry_seen s (xs ! p) then Inl (t, d1)
       else if t \<noteq> kTypeDeletion \<and> user_less (entry_user (xs ! p)) (db_saved_key d) then Inr d1
       else if \<not> entry_is_value (xs ! p) then Inl (kTypeDeletion, d1\<lparr>db_saved_key := [], db_saved_value := []\<rparr>)
       else Inl (kTypeValue, d1\<lparr>db_saved_key := entry_user (xs ! p), db_saved_value := snd (xs ! p)\<rparr>))"
    unfolding s_def by blast
  note f1 = sampledD [OF d1] and kd = sampled_kept [OF d1]
  have go: ?case
    if st: "find_prev_step ops BytewiseCompare t d = Some (Inl (t2, d2))"
      and d2: "db_iter d2 = db_iter d" "kept d d2" and inv2: "prev_inv s xs p b t2 (db_saved_key d2) (db_saved_value d2)"
    for t2 d2
  proof -
    have "\<exists>it. io_prev ops (db_iter d2) = Some it \<and> rep it xs (if p = 0 then None else Some (p - 1))"
      unfolding d2(1) by (rule rep_prev [OF less.prems(1)])
    moreover have "seed_ok (db_rnd d2)" using d2(2) by (simp add: kept_def)
    ultimately obtain it where it: "move_iter (io_prev ops) d2 = Some (d2\<lparr>db_iter := it\<rparr>)"
      "rep it xs (if p = 0 then None else Some (p - 1))" "kept d2 (d2\<lparr>db_iter := it\<rparr>)"
      by (rule move_iter_kept)
    define d3 where "d3 = d2\<lparr>db_iter := it\<rparr>"
    have k3: "kept d d3" unfolding d3_def by (rule kept_trans [OF d2(2) it(3)])
    have v: "io_valid ops it \<longleftrightarrow> p \<noteq> 0" using rep_valid [OF it(2)] by simp
    show ?thesis
    proof (cases "p = 0")
      case False
      have loop: "find_prev_loop ops BytewiseCompare t d = find_prev_loop ops BytewiseCompare t2 d3"
        using st it(1) v False by (subst find_prev_loop.simps) (simp add: d3_def)
      have "rep (db_iter d3) xs (Some (p - 1))" "seed_ok (db_rnd d3)" "db_sequence d3 = s"
        "prev_inv s xs (Suc (p - 1)) b t2 (db_saved_key d3) (db_saved_value d3)"
        using it(2) False k3 inv2 by (simp_all add: d3_def kept_def s_def)
      then have "\<exists>t' d' r. find_prev_loop ops BytewiseCompare t2 d3 = Some (t', d') \<and> kept d3 d' \<and> rep (db_iter d') xs r
          \<and> prev_result s xs b t' (db_saved_key d') (db_saved_value d') r"
        using less.IH [of "p - 1" d3 t2] less.prems(3,5) False by simp
      then show ?thesis unfolding loop s_def [symmetric] using kept_trans [OF k3] by blast
    next
      case True
      then have "find_prev_loop ops BytewiseCompare t d = Some (t2, d3)"
        using st it(1) v by (subst find_prev_loop.simps) (simp add: d3_def)
      moreover have "rep (db_iter d3) xs None" using it(2) True by (simp add: d3_def)
      moreover have "prev_result s xs b t2 (db_saved_key d3) (db_saved_value d3) None"
        using prev_result_end [OF inv2 [unfolded True] srt] by (simp add: d3_def)
      ultimately show ?thesis using k3 unfolding s_def [symmetric] by blast
    qed
  qed
  consider "\<not> entry_seen s (xs ! p)"
    | "entry_seen s (xs ! p)" "t = kTypeValue" "user_less (entry_user (xs ! p)) (db_saved_key d)"
    | "entry_seen s (xs ! p)" "t = kTypeValue \<longrightarrow> \<not> user_less (entry_user (xs ! p)) (db_saved_key d)" "\<not> entry_is_value (xs ! p)"
    | "entry_seen s (xs ! p)" "t = kTypeValue \<longrightarrow> \<not> user_less (entry_user (xs ! p)) (db_saved_key d)" "entry_is_value (xs ! p)"
    by blast
  then show ?case
  proof cases
    case 1
    show ?thesis by (rule go [of t d1]) (use 1 step f1 kd prev_inv_unseen [OF inv 1] in simp_all)
  next
    case 2
    have "find_prev_loop ops BytewiseCompare t d = Some (t, d1)"
      using 2 step by (subst find_prev_loop.simps) simp
    moreover have "prev_result s xs b t (db_saved_key d1) (db_saved_value d1) (Some p)"
      using prev_result_stop [OF _ srt p 2(1) 2(3)] inv 2(2) f1 by simp
    moreover have "rep (db_iter d1) xs (Some p)" using f1 less.prems(1) by simp
    ultimately show ?thesis using kd unfolding s_def [symmetric] by blast
  next
    case 3
    have "\<not> (t \<noteq> kTypeDeletion \<and> user_less (entry_user (xs ! p)) (db_saved_key d))" using 3(2) by (cases t) simp_all
    then show ?thesis
      by (intro go [of kTypeDeletion "d1\<lparr>db_saved_key := [], db_saved_value := []\<rparr>"])
        (use 3 step f1 kd prev_inv_deletion [OF inv srt 3(1,2,3)] in \<open>simp_all add: kept_def\<close>)
  next
    case 4
    have "\<not> (t \<noteq> kTypeDeletion \<and> user_less (entry_user (xs ! p)) (db_saved_key d))" using 4(2) by (cases t) simp_all
    then show ?thesis
      by (intro go [of kTypeValue "d1\<lparr>db_saved_key := entry_user (xs ! p), db_saved_value := snd (xs ! p)\<rparr>"])
        (use 4 step f1 kd prev_inv_value [OF inv srt 4(1,2,3) p less.prems(5)] in \<open>simp_all add: kept_def\<close>)
  qed
qed

section \<open>The contract\<close>

definition located :: "u64 \<Rightarrow> (bytes \<times> bytes) list \<Rightarrow> 'i DBIter \<Rightarrow> nat \<Rightarrow> nat option \<Rightarrow> bool" where
  "located s xs d j r \<longleftrightarrow>
     (case db_direction d of
        kForward \<Rightarrow> r = Some j
      | kReverse \<Rightarrow> db_saved_key d = entry_user (xs ! j) \<and> db_saved_value d = snd (xs ! j) \<and> before_user s xs (entry_user (xs ! j)) r)"

definition db_position :: "(bytes \<times> bytes) list \<Rightarrow> 'i DBIter \<Rightarrow> nat option \<Rightarrow> bool" where
  "db_position xs d q \<longleftrightarrow>
     (\<exists>r. rep (db_iter d) xs r \<and>
       (case q of
          None \<Rightarrow> \<not> db_valid d
        | Some j \<Rightarrow> db_valid d \<and> shown (db_sequence d) xs j \<and>
            located (db_sequence d) xs d j r))"

definition db_base :: "(bytes \<times> bytes) list \<Rightarrow> 'i DBIter \<Rightarrow> bool" where
  "db_base xs d \<longleftrightarrow> (\<forall>e \<in> set xs. entry_parses e) \<and> db_status d = OK \<and> seed_ok (db_rnd d) \<and> db_sequence d \<le> kMaxSequenceNumber"

definition db_rep :: "'i DBIter \<Rightarrow> (bytes \<times> bytes) list \<Rightarrow> nat option \<Rightarrow> bool" where
  "db_rep d vs q \<longleftrightarrow> (\<exists>xs. db_base xs d \<and> vs = db_view (db_sequence d) xs \<and> (\<forall>p. q = Some p \<longrightarrow> p < length vs)
     \<and> db_position xs d (map_option ((!) (shown_list (db_sequence d) xs)) q))"

lemma db_repI:
  assumes "db_base xs d" "vs = db_view (db_sequence d) xs" "\<And>p. q = Some p \<Longrightarrow> p < length vs"
    "db_position xs d (map_option ((!) (shown_list (db_sequence d) xs)) q)"
  shows "db_rep d vs q"
  using assms unfolding db_rep_def by blast

text \<open>A move that lands on an entry that is shown gives the position in the view.\<close>

definition moved :: "(bytes \<times> bytes) list \<Rightarrow> 'i DBIter \<Rightarrow> 'i DBIter \<Rightarrow> nat option \<Rightarrow> bool" where
  "moved xs d d' q \<longleftrightarrow> db_base xs d' \<and> db_sequence d' = db_sequence d \<and> db_position xs d' q"

lemma moved_first:
  assumes "moved xs d d' r" "lands (\<lambda>j. shown (db_sequence d) xs j \<and> Q j) r"
  shows "db_rep d' (db_view (db_sequence d) xs) (first_index Q (shown_list (db_sequence d) xs))"
  using assms(2)
proof (rule lands_first_index)
  fix q
  assume q: "first_index Q (shown_list (db_sequence d) xs) = q" "r = map_option ((!) (shown_list (db_sequence d) xs)) q"
    "\<And>p. q = Some p \<Longrightarrow> p < length (shown_list (db_sequence d) xs)"
  then show ?thesis using assms(1) by (intro db_repI [of xs]) (simp_all add: moved_def length_db_view)
qed

lemma moved_last:
  assumes "moved xs d d' r" "lands_last (\<lambda>j. shown (db_sequence d) xs j \<and> j < b) r"
    "\<And>p. p < length (shown_list (db_sequence d) xs) \<Longrightarrow> shown_list (db_sequence d) xs ! p < b \<longleftrightarrow> p < n"
    "n \<le> length (shown_list (db_sequence d) xs)"
  shows "db_rep d' (db_view (db_sequence d) xs) (if n = 0 then None else Some (n - 1))"
  using lands_last_index [OF assms(2-4)] assms(1,4)
  by (intro db_repI [of xs]) (auto simp: moved_def length_db_view split: if_splits)

lemma FindNext_spec:
  assumes "rep (db_iter d) xs (Some p)" "db_base xs d" "db_direction d = kForward"
    and "skip_ok (db_sequence d) xs p skipping (db_saved_key d)"
    and "\<And>j. pending (db_sequence d) xs p skipping (db_saved_key d) j \<longleftrightarrow> shown (db_sequence d) xs j \<and> Q j"
  shows "\<exists>d' r. FindNextUserEntry ops BytewiseCompare skipping d = Some d' \<and> moved xs d d' r
    \<and> lands (\<lambda>j. shown (db_sequence d) xs j \<and> Q j) r"
proof -
  have pend: "pending (db_sequence d) xs p skipping (db_saved_key d) = (\<lambda>j. shown (db_sequence d) xs j \<and> Q j)"
    using assms(5) by blast
  from find_next_loop_spec [OF assms(1) _ _ assms(4)] assms(2) obtain d' where
    d': "find_next_loop ops BytewiseCompare skipping d = Some d'" "next_found xs (\<lambda>j. shown (db_sequence d) xs j \<and> Q j) d d'"
    unfolding pend db_base_def by blast
  from d'(2) obtain r where r: "kept d d'" "rep (db_iter d') xs r" "lands (\<lambda>j. shown (db_sequence d) xs j \<and> Q j) r"
    "db_valid d' \<longleftrightarrow> r \<noteq> None" by (auto simp: next_found_def)
  have "db_position xs d' r"
    using r assms(3) by (cases r) (auto simp: db_position_def located_def kept_def lands_def)
  moreover have "FindNextUserEntry ops BytewiseCompare skipping d = Some d'"
    using d'(1) assms(3) rep_at [OF assms(1)] by (simp add: FindNextUserEntry_def)
  ultimately show ?thesis using r(1,3) assms(2) by (auto simp: moved_def db_base_def kept_def)
qed

lemma FindPrev_spec:
  assumes "rep (db_iter d) xs r" "db_base xs d" "db_direction d = kReverse"
    and "\<And>j. shown (db_sequence d) xs j \<Longrightarrow> j < b \<longleftrightarrow> (\<exists>p. r = Some p \<and> j \<le> p)"
  shows "\<exists>d' r'. FindPrevUserEntry ops BytewiseCompare d = Some d' \<and> moved xs d d' r'
    \<and> lands_last (\<lambda>j. shown (db_sequence d) xs j \<and> j < b) r'"
proof -
  define s where "s = db_sequence d"
  have base: "seed_ok (db_rnd d)" "\<forall>e \<in> set xs. entry_parses e" using assms(2) by (simp_all add: db_base_def)
  have "\<exists>t d' r' c. (if io_valid ops (db_iter d) then find_prev_loop ops BytewiseCompare kTypeDeletion d else Some (kTypeDeletion, d)) = Some (t, d')
      \<and> kept d d' \<and> rep (db_iter d') xs r' \<and> prev_result s xs c t (db_saved_key d') (db_saved_value d') r'
      \<and> (\<forall>j. shown s xs j \<longrightarrow> (j < b \<longleftrightarrow> j < c))"
  proof (cases r)
    case None
    then have "\<not> io_valid ops (db_iter d)" using rep_off assms(1) by simp
    moreover have "kept d d" using base by (simp add: kept_def)
    moreover have "prev_result s xs 0 kTypeDeletion (db_saved_key d) (db_saved_value d) r" by (simp add: prev_result_def)
    ultimately show ?thesis using assms(1,4) None unfolding s_def [symmetric] by auto
  next
    case (Some p)
    then have p: "rep (db_iter d) xs (Some p)" using assms(1) by simp
    have "prev_inv s xs (Suc p) (Suc p) kTypeDeletion (db_saved_key d) (db_saved_value d)" by (simp add: prev_inv_def)
    from find_prev_loop_spec [OF p base this [unfolded s_def]] obtain t' d' r' where
      l: "find_prev_loop ops BytewiseCompare kTypeDeletion d = Some (t', d')" "kept d d'" "rep (db_iter d') xs r'"
        "prev_result s xs (Suc p) t' (db_saved_key d') (db_saved_value d') r'" unfolding s_def by blast
    have "\<forall>j. shown s xs j \<longrightarrow> (j < b \<longleftrightarrow> j < Suc p)" using assms(4) Some by (simp add: s_def less_Suc_eq_le)
    moreover have "io_valid ops (db_iter d)" using rep_at [OF p] by simp
    ultimately show ?thesis using l by auto
  qed
  then obtain t d1 r1 c where
    l: "(if io_valid ops (db_iter d) then find_prev_loop ops BytewiseCompare kTypeDeletion d else Some (kTypeDeletion, d)) = Some (t, d1)"
    and k: "kept d d1" and r1: "rep (db_iter d1) xs r1" and res: "prev_result s xs c t (db_saved_key d1) (db_saved_value d1) r1"
    and bc: "\<forall>j. shown s xs j \<longrightarrow> (j < b \<longleftrightarrow> j < c)" by blast
  have s1: "db_sequence d1 = s" "db_direction d1 = kReverse" "db_base xs d1" using k assms(2,3) by (simp_all add: kept_def s_def db_base_def)
  show ?thesis
  proof (cases t)
    case kTypeDeletion
    define d2 where "d2 = (ClearSavedValue (iteration_end d1))\<lparr>db_direction := kForward\<rparr>"
    have "FindPrevUserEntry ops BytewiseCompare d = Some d2"
      using l kTypeDeletion assms(3) by (simp add: FindPrevUserEntry_def d2_def)
    moreover have "moved xs d d2 None"
      using s1 r1 by (auto simp: moved_def db_base_def db_position_def d2_def ClearSavedValue_def iteration_end_def s_def)
    moreover have "lands_last (\<lambda>j. shown s xs j \<and> j < b) None"
      using res bc kTypeDeletion by (auto simp: lands_last_def prev_result_def)
    ultimately show ?thesis unfolding s_def by blast
  next
    case kTypeValue
    then obtain i where i: "i < c" "shown s xs i" "\<forall>j. i < j \<longrightarrow> j < c \<longrightarrow> \<not> shown s xs j" "db_saved_key d1 = entry_user (xs ! i)"
      "db_saved_value d1 = snd (xs ! i)" "before_user s xs (entry_user (xs ! i)) r1" using res by (auto simp: prev_result_def)
    have "FindPrevUserEntry ops BytewiseCompare d = Some (d1\<lparr>db_valid := True\<rparr>)"
      using l kTypeValue assms(3) by (simp add: FindPrevUserEntry_def)
    moreover have "moved xs d (d1\<lparr>db_valid := True\<rparr>) (Some i)"
      using s1 r1 i by (auto simp: moved_def db_base_def db_position_def located_def s_def)
    moreover have "lands_last (\<lambda>j. shown s xs j \<and> j < b) (Some i)" using i bc by (auto simp: lands_last_def)
    ultimately show ?thesis unfolding s_def by blast
  qed
qed

lemma db_positionD:
  "db_position xs d None \<Longrightarrow> \<not> db_valid d" "db_position xs d q \<Longrightarrow> \<exists>r. rep (db_iter d) xs r"
  by (auto simp: db_position_def)

lemma db_base_update [simp]:
  "db_base xs (d\<lparr>db_iter := it\<rparr>) = db_base xs d" "db_base xs (d\<lparr>db_saved_key := k\<rparr>) = db_base xs d"
  "db_base xs (d\<lparr>db_saved_value := v\<rparr>) = db_base xs d" "db_base xs (d\<lparr>db_direction := dir\<rparr>) = db_base xs d"
  "db_base xs (d\<lparr>db_valid := b\<rparr>) = db_base xs d"
  by (simp_all add: db_base_def)

lemma moved_end: "db_base xs d \<Longrightarrow> rep (db_iter d) xs r \<Longrightarrow> moved xs d (iteration_end d) None \<and> moved xs d (d\<lparr>db_valid := False\<rparr>) None"
  by (auto simp: moved_def iteration_end_def db_position_def)

text \<open>The search that follows a move of the internal iterator forwards.\<close>

lemma find_from:
  assumes "rep (db_iter d) xs r" "db_base xs d" "db_direction d = kForward" "moved xs d e None"
    and "\<And>p. r = Some p \<Longrightarrow> skip_ok (db_sequence d) xs p skipping (db_saved_key d)"
    and "\<And>p j. r = Some p \<Longrightarrow> pending (db_sequence d) xs p skipping (db_saved_key d) j \<longleftrightarrow> shown (db_sequence d) xs j \<and> Q j"
    and "\<And>j. r = None \<Longrightarrow> shown (db_sequence d) xs j \<Longrightarrow> \<not> Q j"
  shows "\<exists>d'. (if io_valid ops (db_iter d) then FindNextUserEntry ops BytewiseCompare skipping d else Some e) = Some d'
    \<and> db_rep d' (db_view (db_sequence d) xs) (first_index Q (shown_list (db_sequence d) xs))"
proof (cases r)
  case None
  have "lands (\<lambda>j. shown (db_sequence d) xs j \<and> Q j) None" using assms(7) [OF None] by (auto simp: lands_def)
  from moved_first [OF assms(4) this] show ?thesis using rep_valid [OF assms(1)] None by simp
next
  case (Some p)
  then have rp: "rep (db_iter d) xs (Some p)" using assms(1) by simp
  from FindNext_spec [OF rp assms(2,3) assms(5) [OF Some] assms(6) [OF Some]] obtain d' q where
    "FindNextUserEntry ops BytewiseCompare skipping d = Some d'" "moved xs d d' q" "lands (\<lambda>j. shown (db_sequence d) xs j \<and> Q j) q" by blast
  with moved_first [OF this(2,3)] show ?thesis using rep_valid [OF rp] by simp
qed

lemma db_first_rep:
  assumes "db_rep d vs q"
  shows "\<exists>d'. DBSeekToFirst ops BytewiseCompare d = Some d' \<and> db_rep d' vs (if vs = [] then None else Some 0)"
proof -
  from assms obtain xs r where x: "db_base xs d" "vs = db_view (db_sequence d) xs" "rep (db_iter d) xs r"
    unfolding db_rep_def using db_positionD(2) by blast
  from rep_first [OF x(3)] obtain it where it: "io_seek_to_first ops (db_iter d) = Some it" "rep it xs (if xs = [] then None else Some 0)" by blast
  define d1 where "d1 = (ClearSavedValue (d\<lparr>db_direction := kForward\<rparr>))\<lparr>db_iter := it\<rparr>"
  have d1: "db_base xs d1" "db_sequence d1 = db_sequence d" "db_direction d1 = kForward" "rep (db_iter d1) xs (if xs = [] then None else Some 0)"
    using x(1) it(2) by (simp_all add: d1_def ClearSavedValue_def)
  have "\<exists>d'. (if io_valid ops (db_iter d1) then FindNextUserEntry ops BytewiseCompare False d1 else Some (d1\<lparr>db_valid := False\<rparr>)) = Some d'
      \<and> db_rep d' (db_view (db_sequence d1) xs) (first_index (\<lambda>_. True) (shown_list (db_sequence d1) xs))"
    by (rule find_from [OF d1(4,1,3) conjunct2 [OF moved_end [OF d1(1,4)]]])
      (auto simp: skip_ok_def pending_from_start shown_def split: if_splits)
  moreover have "first_index (\<lambda>_. True) ys = (if ys = [] then None else Some 0)" for ys :: "nat list" by (cases ys) simp_all
  moreover have "DBSeekToFirst ops BytewiseCompare d
      = (if io_valid ops (db_iter d1) then FindNextUserEntry ops BytewiseCompare False d1 else Some (d1\<lparr>db_valid := False\<rparr>))"
    using it(1) by (simp add: DBSeekToFirst_def move_iter_def ClearSavedValue_def d1_def)
  moreover have "vs = [] \<longleftrightarrow> shown_list (db_sequence d1) xs = []" using x(2) d1(2) by (simp add: db_view_def)
  ultimately show ?thesis using d1(2) x(2) by simp
qed

lemma db_seek_rep:
  assumes "db_rep d vs q" "short_user target"
  shows "\<exists>d'. DBSeek ops BytewiseCompare target d = Some d' \<and> db_rep d' vs (first_index (\<lambda>e. \<not> BytewiseCompare (fst e) target < 0) vs)"
proof -
  from assms obtain xs r where x: "db_base xs d" "vs = db_view (db_sequence d) xs" "rep (db_iter d) xs r"
    unfolding db_rep_def using db_positionD(2) by blast
  define s where "s = db_sequence d"
  have srt: "internal_sorted xs" by (rule rep_sorted [OF x(3)])
  obtain k where k: "AppendInternalKey [] \<lparr>ik_user_key = target, ik_sequence = s, ik_type = kValueTypeForSeek\<rparr> = Some k"
    using x(1) by (auto simp: AppendInternalKey_def PackSequenceAndType_def db_base_def s_def)
  have sk: "short_key k"
    using ParseInternalKey_Append(3,4) [OF k] assms(2) by (simp add: short_key_def short_user_def InternalKeyEncodingLength_def)
  define pos where "pos = first_index (\<lambda>e. \<not> InternalKeyCompare BytewiseCompare (fst e) k < 0) xs"
  from rep_seek [OF x(3) sk] obtain it where it: "io_seek ops k (db_iter d) = Some it" "rep it xs pos" unfolding pos_def by blast
  have below: "InternalKeyCompare BytewiseCompare (fst (xs ! j)) k < 0 \<longleftrightarrow> user_less (entry_user (xs ! j)) target"
    if "j < length xs" "entry_seen s (xs ! j)" for j
  proof (rule seek_below [OF k _ that(2)])
    have "xs ! j \<in> set xs" using that(1) by simp
    then show "internal_key_ok (fst (xs ! j))" using srt by (simp add: sorted_by_def short_key_def)
  qed
  have to_p: "user_less (entry_user (xs ! j)) target" if "pos = Some p" "j < p" "j < length xs" "entry_seen s (xs ! j)" for p j
    using below [OF that(3,4)] first_index_Some [OF that(1) [unfolded pos_def]] that(2) by simp
  have from_p: "\<not> user_less (entry_user (xs ! j)) target" if "pos = Some p" "p \<le> j" "j < length xs" "entry_seen s (xs ! j)" for p j
  proof -
    have p: "p < length xs" "\<not> InternalKeyCompare BytewiseCompare (fst (xs ! p)) k < 0"
      using first_index_Some [OF that(1) [unfolded pos_def]] by simp_all
    have v: "short_key (fst (xs ! p))" "short_key (fst (xs ! j))"
      using sorted_valid [OF srt nth_mem [OF p(1)]] sorted_valid [OF srt nth_mem [OF that(3)]] by simp_all
    have "\<not> InternalKeyCompare BytewiseCompare (fst (xs ! j)) k < 0"
    proof (cases "p = j")
      case False
      then have "InternalKeyCompare BytewiseCompare (fst (xs ! p)) (fst (xs ! j)) < 0" using sorted_nth [OF srt, of p j] that by simp
      then show ?thesis using less_trans_order [OF v sk] p(2) by blast
    qed (use p(2) in simp)
    then show ?thesis using below [OF that(3,4)] by simp
  qed
  have none: "user_less (entry_user (xs ! j)) target" if "pos = None" "j < length xs" "entry_seen s (xs ! j)" for j
    using below [OF that(2,3)] that unfolding pos_def first_index_None by simp
  define d1 where "d1 = (ClearSavedValue (d\<lparr>db_direction := kForward\<rparr>))\<lparr>db_saved_key := k, db_iter := it\<rparr>"
  have d1: "db_base xs d1" "db_sequence d1 = s" "db_direction d1 = kForward" "rep (db_iter d1) xs pos" "db_sequence d = s"
    using x(1) it(2) by (simp_all add: d1_def ClearSavedValue_def s_def)
  have "\<exists>d'. (if io_valid ops (db_iter d1) then FindNextUserEntry ops BytewiseCompare False d1 else Some (d1\<lparr>db_valid := False\<rparr>)) = Some d'
      \<and> db_rep d' (db_view (db_sequence d1) xs) (first_index (\<lambda>j. \<not> user_less (entry_user (xs ! j)) target) (shown_list (db_sequence d1) xs))"
  proof (rule find_from [OF d1(4,1,3) conjunct2 [OF moved_end [OF d1(1,4)]]])
    show "skip_ok (db_sequence d1) xs p False (db_saved_key d1)" for p by (simp add: skip_ok_def)
    show "pending (db_sequence d1) xs p False (db_saved_key d1) j \<longleftrightarrow> shown (db_sequence d1) xs j \<and> \<not> user_less (entry_user (xs ! j)) target"
      if "pos = Some p" for p j
      unfolding d1(2) by (rule pending_after_seek [OF from_p [OF that] to_p [OF that]])
    show "pos = None \<Longrightarrow> shown (db_sequence d1) xs j \<Longrightarrow> \<not> \<not> user_less (entry_user (xs ! j)) target" for j
      using none by (simp add: d1(2) shown_def)
  qed
  moreover have "first_index (\<lambda>e. \<not> BytewiseCompare (fst e) target < 0) vs = first_index (\<lambda>j. \<not> user_less (entry_user (xs ! j)) target) (shown_list s xs)"
    using x(2) by (simp add: db_view_def first_index_map s_def)
  moreover have "DBSeek ops BytewiseCompare target d
      = (if io_valid ops (db_iter d1) then FindNextUserEntry ops BytewiseCompare False d1 else Some (d1\<lparr>db_valid := False\<rparr>))"
    using it(1) k by (simp add: DBSeek_def move_iter_def ClearSavedValue_def d1_def s_def)
  ultimately show ?thesis using d1(2,5) x(2) by simp
qed

lemma db_repD:
  assumes "db_rep d vs (Some q)"
  obtains xs r where "db_base xs d" "vs = db_view (db_sequence d) xs" "q < length (shown_list (db_sequence d) xs)" "rep (db_iter d) xs r"
    "db_valid d" "shown (db_sequence d) xs (shown_list (db_sequence d) xs ! q)"
    "located (db_sequence d) xs d (shown_list (db_sequence d) xs ! q) r"
  using assms unfolding db_rep_def db_position_def by (auto simp: length_db_view)

lemma db_next_rep:
  assumes "db_rep d vs (Some q)"
  shows "\<exists>d'. DBNext ops BytewiseCompare d = Some d' \<and> db_rep d' vs (if Suc q < length vs then Some (Suc q) else None)"
proof -
  define s where "s = db_sequence d"
  from db_repD [OF assms, folded s_def] obtain xs r where x: "db_base xs d" "vs = db_view s xs" "q < length (shown_list s xs)"
    and r: "rep (db_iter d) xs r" "db_valid d" "shown s xs (shown_list s xs ! q)" "located s xs d (shown_list s xs ! q) r" .
  define h where "h = shown_list s xs ! q"
  note r = r [folded h_def, unfolded located_def]
  have srt: "internal_sorted xs" by (rule rep_sorted [OF r(1)])
  have h: "h < length xs" "entry_seen s (xs ! h)" using r(3) by (simp_all add: shown_def)
  have after: "\<exists>d'. (if io_valid ops (db_iter d1) then FindNextUserEntry ops BytewiseCompare True d1 else Some (iteration_end d1)) = Some d'
      \<and> db_rep d' vs (if Suc q < length vs then Some (Suc q) else None)"
    if d1: "rep (db_iter d1) xs p1" "db_base xs d1" "db_direction d1 = kForward" "db_sequence d1 = s" "db_saved_key d1 = entry_user (xs ! h)"
      and from_p: "\<And>p j. p1 = Some p \<Longrightarrow> p \<le> j \<Longrightarrow> j < length xs \<Longrightarrow> entry_seen s (xs ! j) \<Longrightarrow> \<not> user_less (entry_user (xs ! j)) (entry_user (xs ! h))"
      and to_p: "\<And>p j. p1 = Some p \<Longrightarrow> j < p \<Longrightarrow> j < length xs \<Longrightarrow> entry_seen s (xs ! j) \<Longrightarrow> \<not> user_less (entry_user (xs ! h)) (entry_user (xs ! j))"
      and none: "p1 = None \<Longrightarrow> Suc h = length xs"
    for d1 p1
  proof -
    have "\<exists>d'. (if io_valid ops (db_iter d1) then FindNextUserEntry ops BytewiseCompare True d1 else Some (iteration_end d1)) = Some d'
      \<and> db_rep d' (db_view (db_sequence d1) xs) (first_index (\<lambda>j. h < j) (shown_list (db_sequence d1) xs))"
    proof (rule find_from [OF d1(1-3) conjunct1 [OF moved_end [OF d1(2,1)]]])
      show "skip_ok (db_sequence d1) xs p True (db_saved_key d1)" if "p1 = Some p" for p
        using from_p [OF that] by (simp add: skip_ok_def d1(4,5))
      show "pending (db_sequence d1) xs p True (db_saved_key d1) j \<longleftrightarrow> shown (db_sequence d1) xs j \<and> h < j" if "p1 = Some p" for p j
        unfolding d1(4,5) by (rule pending_after [OF srt r(3) from_p [OF that] to_p [OF that]])
      show "p1 = None \<Longrightarrow> shown (db_sequence d1) xs j \<Longrightarrow> \<not> h < j" for j using none by (simp add: shown_def)
    qed
    then show ?thesis
      using first_shown_after [OF x(3)] x(2) by (simp add: d1(4) h_def length_db_view)
  qed
  show ?thesis
  proof (cases "db_direction d")
    case kForward
    then have rh: "rep (db_iter d) xs (Some h)" using r(1,4) by simp
    from rep_next [OF rh] obtain it where it: "io_next ops (db_iter d) = Some it"
      "rep it xs (if Suc h < length xs then Some (Suc h) else None)" by blast
    define d1 where "d1 = d\<lparr>db_saved_key := entry_user (xs ! h), db_iter := it\<rparr>"
    have "\<exists>d'. (if io_valid ops (db_iter d1) then FindNextUserEntry ops BytewiseCompare True d1 else Some (iteration_end d1)) = Some d'
      \<and> db_rep d' vs (if Suc q < length vs then Some (Suc q) else None)"
    proof (rule after)
      show "rep (db_iter d1) xs (if Suc h < length xs then Some (Suc h) else None)" using it(2) by (simp add: d1_def)
    qed (use x(1) kForward h user_mono [OF srt, of _ h] user_mono [OF srt, of h] in \<open>auto simp: d1_def s_def split: if_splits\<close>)
    moreover have "DBNext ops BytewiseCompare d
        = (if io_valid ops (db_iter d1) then FindNextUserEntry ops BytewiseCompare True d1 else Some (iteration_end d1))"
      using rep_at [OF rh] r(2) it(1) kForward by (simp add: DBNext_def move_iter_def d1_def)
    ultimately show ?thesis by simp
  next
    case kReverse
    then have rev: "db_saved_key d = entry_user (xs ! h)" "before_user s xs (entry_user (xs ! h)) r" using r(4) by simp_all
    define move where "move = (if io_valid ops (db_iter d) then io_next ops else io_seek_to_first ops)"
    define p1 where "p1 = (case r of None \<Rightarrow> 0 | Some p \<Rightarrow> Suc p)"
    have less: "p < h" if "r = Some p" for p
      using rev(2) that user_less_index [OF srt, of p h] by (simp add: before_user_def)
    have "\<exists>it. move (db_iter d) = Some it \<and> rep it xs (Some p1)"
    proof (cases r)
      case None
      have "xs \<noteq> []" using h(1) by auto
      then show ?thesis using rep_first [OF r(1)] rep_valid [OF r(1)] None by (simp add: move_def p1_def)
    next
      case (Some p)
      have "Suc p < length xs" using less [OF Some] h(1) by simp
      then show ?thesis using rep_next [of "db_iter d" xs p] r(1) rep_valid [OF r(1)] Some by (simp add: move_def p1_def)
    qed
    then obtain it where it: "move (db_iter d) = Some it" "rep it xs (Some p1)" by blast
    define d1 where "d1 = d\<lparr>db_direction := kForward, db_iter := it\<rparr>"
    have "\<exists>d'. (if io_valid ops (db_iter d1) then FindNextUserEntry ops BytewiseCompare True d1 else Some (iteration_end d1)) = Some d'
      \<and> db_rep d' vs (if Suc q < length vs then Some (Suc q) else None)"
    proof (rule after)
      show "rep (db_iter d1) xs (Some p1)" using it(2) by (simp add: d1_def)
      show "db_base xs d1" "db_direction d1 = kForward" "db_sequence d1 = s" "db_saved_key d1 = entry_user (xs ! h)"
        using x(1) rev(1) by (simp_all add: d1_def s_def)
      show "\<not> user_less (entry_user (xs ! j)) (entry_user (xs ! h))"
        if "Some p1 = Some p" "p \<le> j" "j < length xs" "entry_seen s (xs ! j)" for p j
        using that rev(2) by (cases r) (auto simp: p1_def before_user_def)
      show "\<not> user_less (entry_user (xs ! h)) (entry_user (xs ! j))"
        if "Some p1 = Some p" "j < p" "j < length xs" "entry_seen s (xs ! j)" for p j
      proof (cases r)
        case None
        then show ?thesis using that by (simp add: p1_def)
      next
        case (Some p0)
        then have "j \<le> h" using less [OF Some] that by (simp add: p1_def)
        then show ?thesis by (rule user_mono [OF srt _ h(1)])
      qed
    qed simp
    moreover have "DBNext ops BytewiseCompare d
        = (if io_valid ops (db_iter d1) then FindNextUserEntry ops BytewiseCompare True d1 else Some (iteration_end d1))"
      using r(2) it(1) kReverse by (simp add: DBNext_def move_iter_def d1_def move_def)
    ultimately show ?thesis by simp
  qed
qed

definition back_result :: "(bytes \<times> bytes) list \<Rightarrow> nat \<Rightarrow> 'i DBIter \<Rightarrow> bool \<Rightarrow> 'i DBIter \<Rightarrow> nat option \<Rightarrow> bool" where
  "back_result xs p d m d' r \<longleftrightarrow> rep (db_iter d') xs r \<and> (m \<longleftrightarrow> r \<noteq> None)
    \<and> (\<forall>j < p. (\<exists>p'. r = Some p' \<and> j \<le> p') \<or> \<not> user_less (entry_user (xs ! j)) (db_saved_key d))
    \<and> (\<forall>p'. r = Some p' \<longrightarrow> p' < p \<and> user_less (entry_user (xs ! p')) (db_saved_key d))
    \<and> d' = (if r = None then ClearSavedValue (iteration_end (d\<lparr>db_iter := db_iter d'\<rparr>)) else d\<lparr>db_iter := db_iter d'\<rparr>)"

lemma back_result_step:
  assumes "back_result xs (p - 1) (d\<lparr>db_iter := it\<rparr>) m d' r" "\<not> user_less (entry_user (xs ! (p - 1))) (db_saved_key d)"
  shows "back_result xs p d m d' r"
proof -
  have upd: "d\<lparr>db_iter := it, db_iter := y\<rparr> = d\<lparr>db_iter := y\<rparr>" "db_saved_key (d\<lparr>db_iter := it\<rparr>) = db_saved_key d" for y by simp_all
  note b = assms(1) [unfolded back_result_def upd]
  have "(\<exists>p'. r = Some p' \<and> j \<le> p') \<or> \<not> user_less (entry_user (xs ! j)) (db_saved_key d)" if "j < p" for j
  proof (cases "j = p - 1")
    case False
    then have "j < p - 1" using that by linarith
    then show ?thesis using b by blast
  qed (use assms(2) in simp)
  moreover have "p' < p" if "r = Some p'" for p'
  proof -
    have "p' < p - 1" using b that by blast
    then show ?thesis by linarith
  qed
  ultimately show ?thesis unfolding back_result_def using b by blast
qed

lemma back_loop_spec:
  assumes "rep (db_iter d) xs (Some p)"
  shows "\<exists>m d' r. back_loop ops BytewiseCompare d = Some (m, d') \<and> back_result xs p d m d' r"
  using assms
proof (induction p arbitrary: d rule: less_induct)
  case (less p)
  from rep_prev [OF less.prems] obtain it where it: "io_prev ops (db_iter d) = Some it" "rep it xs (if p = 0 then None else Some (p - 1))" by blast
  have v: "io_valid ops it \<longleftrightarrow> p \<noteq> 0" using rep_valid [OF it(2)] by simp
  define d1 where "d1 = d\<lparr>db_iter := it\<rparr>"
  show ?case
  proof (cases "p = 0")
    case True
    then have "back_loop ops BytewiseCompare d = Some (False, ClearSavedValue (iteration_end d1))"
      using it(1) v by (subst back_loop.simps) (simp add: move_iter_def d1_def)
    then show ?thesis using it(2) True
      by (intro exI [of _ False] exI [of _ "ClearSavedValue (iteration_end d1)"] exI [of _ None])
        (simp add: d1_def ClearSavedValue_def iteration_end_def back_result_def)
  next
    case False
    then have rp: "rep it xs (Some (p - 1))" using it(2) by simp
    note key = rep_at [OF rp]
    show ?thesis
    proof (cases "user_less (entry_user (xs ! (p - 1))) (db_saved_key d)")
      case True
      then have "back_loop ops BytewiseCompare d = Some (True, d1)"
        using it(1) v key False by (subst back_loop.simps) (simp add: move_iter_def d1_def)
      then show ?thesis using rp False True
        by (intro exI [of _ True] exI [of _ d1] exI [of _ "Some (p - 1)"]) (auto simp: d1_def back_result_def)
    next
      case notless: False
      have step: "back_loop ops BytewiseCompare d = back_loop ops BytewiseCompare d1"
        using it(1) v key False notless by (subst back_loop.simps) (simp add: move_iter_def d1_def)
      have "p - 1 < p" "rep (db_iter d1) xs (Some (p - 1))" using False rp by (simp_all add: d1_def)
      from less.IH [OF this] obtain m d' r where "back_loop ops BytewiseCompare d1 = Some (m, d')" "back_result xs (p - 1) d1 m d' r" by blast
      with back_result_step [of xs p it d m d' r] notless show ?thesis unfolding step d1_def by blast
    qed
  qed
qed

lemma db_prev_rep:
  assumes "db_rep d vs (Some q)"
  shows "\<exists>d'. DBPrev ops BytewiseCompare d = Some d' \<and> db_rep d' vs (if q = 0 then None else Some (q - 1))"
proof -
  define s where "s = db_sequence d"
  from db_repD [OF assms, folded s_def] obtain xs r where x: "db_base xs d" "vs = db_view s xs" "q < length (shown_list s xs)"
    and r: "rep (db_iter d) xs r" "db_valid d" "shown s xs (shown_list s xs ! q)" "located s xs d (shown_list s xs ! q) r" .
  define h where "h = shown_list s xs ! q"
  note r = r [folded h_def, unfolded located_def]
  have srt: "internal_sorted xs" by (rule rep_sorted [OF r(1)])
  have h: "h < length xs" "entry_seen s (xs ! h)" using r(3) by (simp_all add: shown_def)
  have turned: "\<exists>d'. FindPrevUserEntry ops BytewiseCompare d1 = Some d' \<and> db_rep d' vs (if q = 0 then None else Some (q - 1))"
    if d1: "rep (db_iter d1) xs r1" "db_base xs d1" "db_direction d1 = kReverse" "db_sequence d1 = s"
      and b: "\<And>j. shown s xs j \<Longrightarrow> j < h \<longleftrightarrow> (\<exists>p. r1 = Some p \<and> j \<le> p)" for d1 r1
  proof -
    from FindPrev_spec [OF d1(1-3), of h] b obtain d' r' where f: "FindPrevUserEntry ops BytewiseCompare d1 = Some d'" "moved xs d1 d' r'"
      "lands_last (\<lambda>j. shown (db_sequence d1) xs j \<and> j < h) r'" unfolding d1(4) by blast
    have "db_rep d' (db_view (db_sequence d1) xs) (if q = 0 then None else Some (q - 1))"
      by (rule moved_last [OF f(2,3)]) (use x(3) shown_list_less in \<open>auto simp: d1(4) h_def\<close>)
    then show ?thesis using f(1) x(2) d1(4) by simp
  qed
  show ?thesis
  proof (cases "db_direction d")
    case kReverse
    then have before: "before_user s xs (entry_user (xs ! h)) r" using r(4) by simp
    have "j < h \<longleftrightarrow> (\<exists>p. r = Some p \<and> j \<le> p)" if j: "shown s xs j" for j
    proof -
      have jx: "j < length xs" "entry_seen s (xs ! j)" using j by (simp_all add: shown_def)
      show ?thesis
      proof (cases r)
        case None
        then show ?thesis using before jx shown_user_less [OF srt j r(3)] by (simp add: before_user_def)
      next
        case (Some p)
        then have p: "user_less (entry_user (xs ! p)) (entry_user (xs ! h))" "p < length xs"
          "p < j \<longrightarrow> \<not> user_less (entry_user (xs ! j)) (entry_user (xs ! h))" using before jx by (simp_all add: before_user_def)
        have "p < h" by (rule user_less_index [OF srt p(2,1)])
        then show ?thesis using Some p(3) shown_user_less [OF srt j r(3)] by auto
      qed
    qed
    from turned [OF r(1) x(1) kReverse s_def [symmetric] this] show ?thesis using r(2) kReverse by (simp add: DBPrev_def)
  next
    case kForward
    then have rh: "rep (db_iter d) xs (Some h)" using r(1,4) by simp
    define d1 where "d1 = d\<lparr>db_saved_key := entry_user (xs ! h)\<rparr>"
    have "rep (db_iter d1) xs (Some h)" using rh by (simp add: d1_def)
    from back_loop_spec [OF this] obtain m d2 r2 where l0: "back_loop ops BytewiseCompare d1 = Some (m, d2)" "back_result xs h d1 m d2 r2"
      by blast
    note l = l0(1) and lb = l0(2) [unfolded back_result_def]
    have prev: "DBPrev ops BytewiseCompare d
        = (if m then FindPrevUserEntry ops BytewiseCompare (d2\<lparr>db_direction := kReverse\<rparr>) else Some d2)"
      using rep_at [OF rh] r(2) kForward l by (simp add: DBPrev_def d1_def)
    have bound: "j < h \<longleftrightarrow> (\<exists>p. r2 = Some p \<and> j \<le> p)" if j: "shown s xs j" for j
      using lb shown_user_less [OF srt j r(3)] by (auto simp: d1_def)
    show ?thesis
    proof (cases r2)
      case None
      then have d2: "d2 = ClearSavedValue (iteration_end (d1\<lparr>db_iter := db_iter d2\<rparr>))" using lb by (metis (full_types))
      have "db_base xs (ClearSavedValue (iteration_end (d1\<lparr>db_iter := db_iter d2\<rparr>)))"
        "db_sequence (ClearSavedValue (iteration_end (d1\<lparr>db_iter := db_iter d2\<rparr>))) = s"
        "\<not> db_valid (ClearSavedValue (iteration_end (d1\<lparr>db_iter := db_iter d2\<rparr>)))"
        using x(1) by (simp_all add: ClearSavedValue_def iteration_end_def d1_def s_def)
      then have "db_base xs d2" "db_sequence d2 = s" "\<not> db_valid d2" unfolding d2 [symmetric] by simp_all
      then have "moved xs d d2 None" using lb by (auto simp: moved_def db_position_def located_def s_def)
      moreover have "lands_last (\<lambda>j. shown s xs j \<and> j < h) None" using bound None by (auto simp: lands_last_def)
      ultimately have "db_rep d2 (db_view s xs) (if q = 0 then None else Some (q - 1))"
        using moved_last [of xs d d2 None h q] x(3) shown_list_less [of _ s xs q] by (simp add: s_def h_def)
      then show ?thesis using prev None lb x(2) by simp
    next
      case (Some p)
      then have d2: "d2 = d1\<lparr>db_iter := db_iter d2\<rparr>" using lb by (metis (full_types) option.discI)
      have "db_base xs (d1\<lparr>db_iter := db_iter d2\<rparr>)" "db_sequence (d1\<lparr>db_iter := db_iter d2\<rparr>) = s"
        using x(1) by (simp_all add: d1_def s_def)
      then have "db_base xs d2" "db_sequence d2 = s" unfolding d2 [symmetric] by simp_all
      then have "\<exists>d'. FindPrevUserEntry ops BytewiseCompare (d2\<lparr>db_direction := kReverse\<rparr>) = Some d'
          \<and> db_rep d' vs (if q = 0 then None else Some (q - 1))"
        using lb by (intro turned [of _ r2] bound) simp_all
      then show ?thesis using prev Some lb by simp
    qed
  qed
qed

lemma db_last_rep:
  assumes "db_rep d vs q"
  shows "\<exists>d'. DBSeekToLast ops BytewiseCompare d = Some d' \<and> db_rep d' vs (if vs = [] then None else Some (length vs - 1))"
proof -
  from assms obtain xs r where x: "db_base xs d" "vs = db_view (db_sequence d) xs" "rep (db_iter d) xs r"
    unfolding db_rep_def using db_positionD(2) by blast
  define s where "s = db_sequence d"
  from rep_last [OF x(3)] obtain it where it: "io_seek_to_last ops (db_iter d) = Some it"
    "rep it xs (if xs = [] then None else Some (length xs - 1))" by blast
  define d1 where "d1 = (ClearSavedValue (d\<lparr>db_direction := kReverse\<rparr>))\<lparr>db_iter := it\<rparr>"
  have d1: "db_base xs d1" "db_sequence d1 = s" "db_direction d1 = kReverse" "rep (db_iter d1) xs (if xs = [] then None else Some (length xs - 1))"
    using x(1) it(2) by (simp_all add: d1_def ClearSavedValue_def s_def)
  have "j < length xs \<longleftrightarrow> (\<exists>p. (if xs = [] then None else Some (length xs - 1)) = Some p \<and> j \<le> p)" for j by (cases xs) auto
  with FindPrev_spec [OF d1(4,1,3), of "length xs"] obtain d' r' where f: "FindPrevUserEntry ops BytewiseCompare d1 = Some d'" "moved xs d1 d' r'"
    "lands_last (\<lambda>j. shown (db_sequence d1) xs j \<and> j < length xs) r'" by blast
  have inside: "shown_list s xs ! p < length xs" if "p < length (shown_list s xs)" for p
    using that shown_list_set [of "shown_list s xs ! p" s xs] by (simp add: shown_def)
  have "db_rep d' (db_view (db_sequence d1) xs) (if length (shown_list s xs) = 0 then None else Some (length (shown_list s xs) - 1))"
    by (rule moved_last [OF f(2,3)]) (use inside in \<open>auto simp: d1(2)\<close>)
  moreover have "DBSeekToLast ops BytewiseCompare d = FindPrevUserEntry ops BytewiseCompare d1"
    using it(1) by (simp add: DBSeekToLast_def move_iter_def ClearSavedValue_def d1_def)
  moreover have "vs = [] \<longleftrightarrow> length (shown_list s xs) = 0" using x(2) by (simp add: db_view_def s_def)
  ultimately show ?thesis using f(1) x(2) d1(2) by (auto simp: length_db_view s_def)
qed

lemma NewDBIter_rep:
  assumes "rep it xs q" "\<forall>e \<in> set xs. entry_parses e" "s \<le> kMaxSequenceNumber"
  shows "db_rep (MakeDBIter it s seed) (db_view s xs) None"
proof -
  define d where "d = MakeDBIter it s seed"
  have "db_iter d = it" "db_sequence d = s" "db_status d = OK" "\<not> db_valid d" "db_rnd d = RandomNext (NewRandom seed)"
    by (simp_all add: d_def MakeDBIter_def RandomCompactionPeriod_def RandomUniform_def Let_def)
  then have "db_base xs d" "db_sequence d = s" "db_position xs d None"
    using assms seed_ok_next [OF NewRandom_ok [of seed]] by (auto simp: db_base_def db_position_def)
  then show ?thesis unfolding d_def [symmetric] by (intro db_repI [of xs]) simp_all
qed

lemma db_rep_at:
  assumes "db_rep d vs (Some q)"
  shows "q < length vs \<and> db_valid d \<and> DBKey ops d = Some (fst (vs ! q)) \<and> DBValue ops d = Some (snd (vs ! q))"
proof -
  from db_repD [OF assms] obtain xs r where x: "vs = db_view (db_sequence d) xs" "q < length (shown_list (db_sequence d) xs)"
    and r: "rep (db_iter d) xs r" "db_valid d" "located (db_sequence d) xs d (shown_list (db_sequence d) xs ! q) r" by metis
  define h where "h = shown_list (db_sequence d) xs ! q"
  have v: "vs ! q = (entry_user (xs ! h), snd (xs ! h))" using x by (simp add: db_view_def h_def)
  have "DBKey ops d = Some (fst (vs ! q)) \<and> DBValue ops d = Some (snd (vs ! q))"
  proof (cases "db_direction d")
    case kForward
    then have "rep (db_iter d) xs (Some h)" using r by (simp add: located_def h_def)
    from rep_at [OF this] show ?thesis using kForward r(2) v by (simp add: DBKey_def DBValue_def)
  next
    case kReverse
    then show ?thesis using r v by (simp add: located_def h_def [symmetric] DBKey_def DBValue_def)
  qed
  then show ?thesis using r(2) x by (simp add: length_db_view)
qed

lemma db_rep_facts:
  assumes "db_rep d vs q"
  shows "sorted_by BytewiseCompare short_user vs" "DBStatus ops d = OK" "q = None \<Longrightarrow> \<not> db_valid d"
proof -
  from assms obtain xs where x: "db_base xs d" "vs = db_view (db_sequence d) xs"
    "db_position xs d (map_option ((!) (shown_list (db_sequence d) xs)) q)" by (auto simp: db_rep_def)
  from db_positionD(2) [OF x(3)] obtain r where r: "rep (db_iter d) xs r" by blast
  show "sorted_by BytewiseCompare short_user vs" using db_view_sorted [OF rep_sorted [OF r]] x(2) by simp
  show "DBStatus ops d = OK" using rep_status [OF r] x(1) by (simp add: DBStatus_def db_base_def)
  show "q = None \<Longrightarrow> \<not> db_valid d" using x(3) db_positionD(1) by auto
qed

lemma db_sorted_iterator: "sorted_iterator BytewiseCompare short_user (db_iter_ops ops BytewiseCompare) db_rep"
proof unfold_locales
  fix a b c
  show "BytewiseCompare a b < 0 \<longleftrightarrow> BytewiseCompare b a > 0" by (rule bytewise.order.order_swap) simp_all
  show "BytewiseCompare a b \<le> 0 \<Longrightarrow> BytewiseCompare b c \<le> 0 \<Longrightarrow> BytewiseCompare a c \<le> 0"
    by (rule bytewise.order.order_le_trans [of a b c]) simp_all
next
  fix d vs q p k
  show "db_rep d vs q \<Longrightarrow> sorted_by BytewiseCompare short_user vs" by (rule db_rep_facts(1))
  show "db_rep d vs (Some p) \<Longrightarrow> p < length vs \<and> io_valid (db_iter_ops ops BytewiseCompare) d
      \<and> io_key (db_iter_ops ops BytewiseCompare) d = Some (fst (vs ! p)) \<and> io_value (db_iter_ops ops BytewiseCompare) d = Some (snd (vs ! p))"
    using db_rep_at by (simp add: db_iter_ops_def)
  show "db_rep d vs None \<Longrightarrow> \<not> io_valid (db_iter_ops ops BytewiseCompare) d" using db_rep_facts(3) by (simp add: db_iter_ops_def)
  show "db_rep d vs q \<Longrightarrow> io_status (db_iter_ops ops BytewiseCompare) d = OK" using db_rep_facts(2) by (simp add: db_iter_ops_def)
  show "db_rep d vs (Some p) \<Longrightarrow> \<exists>d'. io_next (db_iter_ops ops BytewiseCompare) d = Some d' \<and> db_rep d' vs (if Suc p < length vs then Some (Suc p) else None)"
    using db_next_rep by (simp add: db_iter_ops_def)
  show "db_rep d vs (Some p) \<Longrightarrow> \<exists>d'. io_prev (db_iter_ops ops BytewiseCompare) d = Some d' \<and> db_rep d' vs (if p = 0 then None else Some (p - 1))"
    using db_prev_rep [of d vs p] by (simp add: db_iter_ops_def)
  show "db_rep d vs q \<Longrightarrow> short_user k \<Longrightarrow> \<exists>d'. io_seek (db_iter_ops ops BytewiseCompare) k d = Some d'
      \<and> db_rep d' vs (first_index (\<lambda>e. \<not> BytewiseCompare (fst e) k < 0) vs)"
    using db_seek_rep by (simp add: db_iter_ops_def)
  show "db_rep d vs q \<Longrightarrow> \<exists>d'. io_seek_to_first (db_iter_ops ops BytewiseCompare) d = Some d' \<and> db_rep d' vs (if vs = [] then None else Some 0)"
    using db_first_rep by (simp add: db_iter_ops_def)
  show "db_rep d vs q \<Longrightarrow> \<exists>d'. io_seek_to_last (db_iter_ops ops BytewiseCompare) d = Some d' \<and> db_rep d' vs (if vs = [] then None else Some (length vs - 1))"
    using db_last_rep by (simp add: db_iter_ops_def)
qed

end

sublocale internal_iterator \<subseteq> db: sorted_iterator BytewiseCompare short_user "db_iter_ops ops BytewiseCompare" db_rep
  by (rule db_sorted_iterator)

interpretation mem_internal: internal_iterator "mem_iter_ops BytewiseCompare" mem_rep
  unfolding internal_iterator_def by (rule mem_iter.sorted_iterator_axioms)

abbreviation merged_mem_ops :: "(MemTable \<times> nat option) MergedIterator iter_ops" where
  "merged_mem_ops \<equiv> merged_ops (mem_iter_ops BytewiseCompare) (InternalKeyCompare BytewiseCompare)"

interpretation mem_merged: internal_iterator merged_mem_ops mem_iter.merged_rep
  unfolding internal_iterator_def by (rule mem_iter.merged_sorted_iterator)

end
