(* ===== verification/Db_Snapshot.thy ===== *)
theory Db_Snapshot
  imports Db_Refine
begin

text \<open>
  The iterators over memtables: the merging iterator over the iterators of any number of memtables,
  and the client's iterator at a snapshot over that.
\<close>

section \<open>Memtables under the iterators\<close>

text \<open>No two versions have the same user key, sequence number and type.\<close>

definition versions_distinct :: "mem_entry list \<Rightarrow> bool" where
  "versions_distinct es \<longleftrightarrow> distinct (map (\<lambda>e. (me_key e, entry_tag e)) es)"

text \<open>The tables hold the versions \<open>ess\<close>, each in the order of their additions.\<close>

definition tables_hold :: "MemTable list \<Rightarrow> mem_entry list list \<Rightarrow> bool" where
  "tables_hold ms ess \<longleftrightarrow> list_all2 mem_history ms ess \<and> (\<forall>e \<in> set (concat ess). entry_ok e) \<and> versions_distinct (concat ess)"

lemma entry_pair_eq: "entry_pair e = entry_pair f \<Longrightarrow> me_key e = me_key f \<and> entry_tag e = entry_tag f"
  by (simp add: entry_pair_def entry_key_eq)

lemma mem_rep_new:
  assumes "mem_history m es" "\<forall>e \<in> set es. entry_ok e"
  shows "\<exists>ys. mem_rep (NewMemIterator m) ys None \<and> set ys = entry_pair ` set es"
proof -
  from mem_history_abs [OF assms] obtain keys where k: "skip_abs mem_compare mem_key_ok (mt_table m) keys"
    "set keys = encode_entry ` set es" by (auto simp: mem_abs_def)
  from k(1) obtain P where P: "skip_inv mem_compare mem_key_ok (mt_table m) P" "keys = map (node_key (mt_table m)) P"
    by (auto simp: skip_abs_def)
  have "\<forall>x \<in> set keys. \<exists>e. e \<in> set es \<and> x = encode_entry e" using k(2) by auto
  then obtain f where f: "\<forall>x \<in> set keys. f x \<in> set es \<and> x = encode_entry (f x)" by metis
  have at: "mem_at m P (map f keys)"
    unfolding mem_at_def using P f assms(2) by (auto simp: map_idI)
  have "entry_pair e \<in> entry_pair ` f ` set keys" if "e \<in> set es" for e
  proof -
    have x: "encode_entry e \<in> set keys" using that k(2) by simp
    with f have fx: "f (encode_entry e) \<in> set es" "encode_entry e = encode_entry (f (encode_entry e))" by auto
    then have "entry_slice (encode_entry e) = Some (entry_key (f (encode_entry e)), PutLengthPrefixedSlice [] (me_value (f (encode_entry e))))"
      using entry_slice_encode [of "f (encode_entry e)"] assms(2) by metis
    then have "entry_key (f (encode_entry e)) = entry_key e"
      "PutLengthPrefixedSlice [] (me_value (f (encode_entry e))) = PutLengthPrefixedSlice [] (me_value e)"
      using entry_slice_encode [of e] assms(2) that by simp_all
    moreover from this(2) have "me_value (f (encode_entry e)) = me_value e"
      using entry_slice_prefixed_only [of "me_value e"] entry_slice_prefixed_only [of "me_value (f (encode_entry e))"]
        assms(2) that fx(1) by (simp add: entry_ok_def)
    ultimately have "entry_pair (f (encode_entry e)) = entry_pair e" by (simp add: entry_pair_def)
    then show ?thesis using x by (metis imageI)
  qed
  then have "entry_pair ` set es \<subseteq> entry_pair ` f ` set keys" by blast
  moreover have "entry_pair ` f ` set keys \<subseteq> entry_pair ` set es" using f by auto
  ultimately have "set (map entry_pair (map f keys)) = entry_pair ` set es" by auto
  moreover have "mem_rep (NewMemIterator m) (map entry_pair (map f keys)) None"
    unfolding NewMemIterator_def by (rule mem_repI [OF at refl]) simp_all
  ultimately show ?thesis by blast
qed

lemma versions_apart:
  assumes "versions_distinct (concat ess)" "i < length ess" "j < length ess" "i \<noteq> j" "e \<in> set (ess ! i)" "f \<in> set (ess ! j)"
  shows "(me_key e, entry_tag e) \<noteq> (me_key f, entry_tag f)"
  using assms
proof (induction ess arbitrary: i j)
  case (Cons es ess)
  have d: "versions_distinct (concat ess)" using Cons.prems(1) by (simp add: versions_distinct_def)
  have apart: "(me_key a, entry_tag a) \<noteq> (me_key b, entry_tag b)" if "a \<in> set es" "b \<in> set (concat ess)" for a b
    using Cons.prems(1) that by (force simp: versions_distinct_def)
  show ?case
  proof (cases "i = 0 \<or> j = 0")
    case True
    have inside: "x \<in> set (concat ess)" if "x \<in> set ((es # ess) ! k)" "k \<noteq> 0" "k < length (es # ess)" for x k
      using that by (cases k) auto
    show ?thesis
    proof (cases "i = 0")
      case True
      then have "e \<in> set es" "f \<in> set (concat ess)" using Cons.prems(4-6) inside [OF Cons.prems(6)] Cons.prems(3) by simp_all
      then show ?thesis by (rule apart)
    next
      case False
      then have "f \<in> set es" "e \<in> set (concat ess)" using True Cons.prems(6) inside [OF Cons.prems(5)] Cons.prems(2) by simp_all
      then show ?thesis using apart by metis
    qed
  next
    case False
    then obtain i' j' where "i = Suc i'" "j = Suc j'" by (metis not0_implies_Suc)
    then show ?thesis using Cons.IH [OF d, of i' j'] Cons.prems by simp
  qed
qed simp

text \<open>The sorted list of all versions is the merge of what the tables' iterators run over.\<close>

lemma tables_merged:
  assumes "tables_hold ms ess" "internal_sorted xs" "set xs = entry_pair ` set (concat ess)"
  shows "\<exists>it. NewMergingIterator (mem_iter_ops BytewiseCompare) (map NewMemIterator ms) = Some it \<and> mem_iter.merged_rep it xs None"
proof -
  have len: "length ms = length ess" using assms(1) list_all2_lengthD by (auto simp: tables_hold_def)
  have "\<forall>j < length ess. \<exists>ys. mem_rep (NewMemIterator (ms ! j)) ys None \<and> set ys = entry_pair ` set (ess ! j)"
  proof (intro allI impI mem_rep_new)
    fix j assume j: "j < length ess"
    then show "mem_history (ms ! j) (ess ! j)" using assms(1) list_all2_nthD2 [of mem_history ms ess j] by (simp add: tables_hold_def)
    have "set (ess ! j) \<subseteq> set (concat ess)" using j by (auto intro!: bexI [of _ "ess ! j"])
    then show "\<forall>e \<in> set (ess ! j). entry_ok e" using assms(1) unfolding tables_hold_def by blast
  qed
  then obtain Y where Y: "\<forall>j < length ess. mem_rep (NewMemIterator (ms ! j)) (Y j) None \<and> set (Y j) = entry_pair ` set (ess ! j)" by metis
  define xss where "xss = map Y [0..<length ess]"
  have "merged (InternalKeyCompare BytewiseCompare) short_key xss xs"
  proof (unfold merged_def, intro conjI allI impI)
    show "internal_sorted xs" by (rule assms(2))
    have "set ess = (!) ess ` {..<length ess}" by (auto simp: set_conv_nth)
    then have c: "set (concat ess) = (\<Union>j < length ess. set (ess ! j))" by simp
    have "set xss = Y ` {..<length ess}" by (auto simp: xss_def)
    then have "(\<Union>ys \<in> set xss. set ys) = (\<Union>j < length ess. set (Y j))" by simp
    also have "\<dots> = (\<Union>j < length ess. entry_pair ` set (ess ! j))" using Y by (intro SUP_cong) simp_all
    finally show "set xs = (\<Union>ys \<in> set xss. set ys)" using assms(3) c by (simp only: image_UN)
    fix i j assume ij: "i < length xss" "j < length xss" "i \<noteq> j"
    then have l: "i < length ess" "j < length ess" by (simp_all add: xss_def)
    have "entry_pair e \<noteq> entry_pair f" if "e \<in> set (ess ! i)" "f \<in> set (ess ! j)" for e f
    proof
      assume "entry_pair e = entry_pair f"
      moreover have "versions_distinct (concat ess)" using assms(1) by (simp add: tables_hold_def)
      ultimately show False using versions_apart [OF _ l ij(3) that] entry_pair_eq [of e f] by simp
    qed
    moreover have "set (xss ! i) = entry_pair ` set (ess ! i)" "set (xss ! j) = entry_pair ` set (ess ! j)" using Y l by (simp_all add: xss_def)
    ultimately show "set (xss ! i) \<inter> set (xss ! j) = {}" unfolding disjoint_iff by (metis imageE)
  qed
  moreover have "\<forall>j < length xss. mem_rep (map NewMemIterator ms ! j) (xss ! j) None" using Y len by (auto simp: xss_def)
  moreover have "length (map NewMemIterator ms) = length xss" using len by (simp add: xss_def)
  ultimately show ?thesis using mem_iter.NewMergingIterator_rep by blast
qed

section \<open>The view is what lookups return\<close>

lemma entry_pair_parsed:
  assumes "entry_ok e"
  shows "ParseInternalKey (fst (entry_pair e)) = Some \<lparr>ik_user_key = me_key e, ik_sequence = me_seq e, ik_type = me_type e\<rparr>"
proof -
  have "AppendInternalKey [] \<lparr>ik_user_key = me_key e, ik_sequence = me_seq e, ik_type = me_type e\<rparr> = Some (entry_key e)"
    using assms by (simp add: AppendInternalKey_def PackSequenceAndType_def entry_ok_def entry_key_def entry_tag_def PutFixed64_def)
  then show ?thesis using ParseInternalKey_Append(1) by (simp add: entry_pair_def)
qed

lemma entry_pair_facts:
  assumes "entry_ok e"
  shows "entry_user (entry_pair e) = me_key e" "entry_parses (entry_pair e)"
    "entry_seen s (entry_pair e) \<longleftrightarrow> me_seq e \<le> s" "entry_is_value (entry_pair e) \<longleftrightarrow> me_type e = kTypeValue"
  using entry_pair_parsed [OF assms] entry_key_facts(1) [of e]
  by (simp_all add: entry_parses_def entry_seen_def entry_is_value_def) (simp add: entry_pair_def)

lemma view_newest:
  assumes "internal_sorted xs" "set xs = entry_pair ` set es" "\<forall>e \<in> set es. entry_ok e" "versions_distinct es"
  shows "(u, v) \<in> set (db_view s xs) \<longleftrightarrow> (\<exists>e. newest_visible u s es = Some e \<and> me_type e = kTypeValue \<and> me_value e = v)"
proof -
  have inj: "inj_on (\<lambda>e. (me_key e, entry_tag e)) (set es)" using assms(4) by (simp add: versions_distinct_def distinct_map)
  have at: "\<exists>e \<in> set es. xs ! i = entry_pair e" if "i < length xs" for i
    using that assms(2) nth_mem [of i xs] by auto
  have newer: "entry_tag f < entry_tag e" if "xs ! i = entry_pair e" "xs ! j = entry_pair f" "i < j" "j < length xs"
    "me_key e = me_key f" for i j e f
  proof -
    have "InternalKeyCompare BytewiseCompare (entry_key e) (entry_key f) < 0"
      using key_order.sorted_nth [OF short_key_order assms(1) that(3,4)] that(1,2) by (simp add: entry_pair_def)
    then show ?thesis
      using internal_less_iff_bytewise [OF entry_key_facts(2,2), of e f] that(5) by (simp add: entry_key_facts user_less_irrefl)
  qed
  show ?thesis
  proof
    assume "(u, v) \<in> set (db_view s xs)"
    then obtain j where j: "shown s xs j" "u = entry_user (xs ! j)" "v = snd (xs ! j)" by (auto simp: db_view_member)
    then have jx: "j < length xs" by (simp add: shown_def)
    from at [OF jx] obtain e where e: "e \<in> set es" "xs ! j = entry_pair e" by blast
    then have ok: "entry_ok e" using assms(3) by blast
    have es: "me_seq e \<le> s" "me_type e = kTypeValue" "u = me_key e" "v = me_value e"
      using j e(2) entry_pair_facts [OF ok] by (simp_all add: shown_def) (simp add: entry_pair_def)
    have "newest_visible u s es = Some e"
    proof (rule newest_visibleI [OF inj e(1)])
      show "visible u s e" using es by (simp add: visible_def)
      fix f assume f: "f \<in> set es" "visible u s f"
      then have fok: "entry_ok f" using assms(3) by blast
      have "entry_pair f \<in> set xs" using f(1) assms(2) by simp
      then obtain i where i: "i < length xs" "xs ! i = entry_pair f" by (auto simp: in_set_conv_nth)
      consider "i < j" | "i = j" | "j < i" by linarith
      then show "entry_tag f \<le> entry_tag e"
      proof cases
        case 1
        moreover have "entry_seen s (xs ! i)" using i(2) f(2) entry_pair_facts(3) [OF fok] by (simp add: visible_def)
        ultimately have "entry_user (xs ! i) \<noteq> entry_user (xs ! j)" using j(1) by (simp add: shown_def)
        then show ?thesis using i(2) e(2) f(2) es(3) entry_pair_facts(1) [OF fok] entry_pair_facts(1) [OF ok] by (simp add: visible_def)
      next
        case 2
        then show ?thesis using i(2) e(2) entry_pair_eq [of f e] by simp
      next
        case 3
        then show ?thesis using newer [OF e(2) i(2) 3 i(1)] es(3) f(2) by (simp add: visible_def)
      qed
    qed
    then show "\<exists>e. newest_visible u s es = Some e \<and> me_type e = kTypeValue \<and> me_value e = v" using es by blast
  next
    assume "\<exists>e. newest_visible u s es = Some e \<and> me_type e = kTypeValue \<and> me_value e = v"
    then obtain e where e: "newest_visible u s es = Some e" "me_type e = kTypeValue" "me_value e = v" by blast
    from newest_visible_Some [OF e(1)] have n: "e \<in> set es" "visible u s e" "\<And>f. f \<in> set es \<Longrightarrow> visible u s f \<Longrightarrow> entry_tag f \<le> entry_tag e" by auto
    then have ok: "entry_ok e" using assms(3) by blast
    have "entry_pair e \<in> set xs" using n(1) assms(2) by simp
    then obtain j where j: "j < length xs" "xs ! j = entry_pair e" by (auto simp: in_set_conv_nth)
    have "entry_user (xs ! i) \<noteq> entry_user (xs ! j)" if i: "i < j" "entry_seen s (xs ! i)" for i
    proof
      assume same: "entry_user (xs ! i) = entry_user (xs ! j)"
      have "i < length xs" using i(1) j(1) by simp
      from at [OF this] obtain f where f: "f \<in> set es" "xs ! i = entry_pair f" by blast
      then have fok: "entry_ok f" using assms(3) by blast
      have k: "me_key f = me_key e" using same f(2) j(2) entry_pair_facts(1) [OF fok] entry_pair_facts(1) [OF ok] by simp
      then have "visible u s f" using n(2) i(2) f(2) entry_pair_facts(3) [OF fok] by (simp add: visible_def)
      then show False using n(3) [OF f(1)] newer [OF f(2) j(2) i(1) j(1) k] by simp
    qed
    then have "shown s xs j" using j n(2) e(2) entry_pair_facts [OF ok] by (simp add: shown_def visible_def)
    moreover have "u = entry_user (xs ! j)" "v = snd (xs ! j)"
      using j(2) n(2) e(3) entry_pair_facts(1) [OF ok] by (simp_all add: visible_def entry_pair_def)
    ultimately show "(u, v) \<in> set (db_view s xs)" by (auto simp: db_view_member)
  qed
qed

lemma view_unique:
  assumes "sorted_by BytewiseCompare short_user xs" "sorted_by BytewiseCompare short_user ys" "set xs = set ys"
  shows "xs = ys"
  using assms by (rule mem_internal.db.sorted_same)

text \<open>The versions sorted by internal key, as an iterator runs over them.\<close>

lemma sorted_versions:
  assumes "\<forall>e \<in> set es. entry_ok e" "versions_distinct es"
  shows "\<exists>xs. internal_sorted xs \<and> set xs = entry_pair ` set es"
  using assms
proof (induction es)
  case Nil
  show ?case by (intro exI [of _ "[]"]) (simp add: sorted_by_def)
next
  case (Cons e es)
  then obtain xs where xs: "internal_sorted xs" "set xs = entry_pair ` set es" by (auto simp: versions_distinct_def)
  let ?less = "\<lambda>a. InternalKeyCompare BytewiseCompare (fst a) (entry_key e) < 0"
  have v: "short_key (entry_key e)" "\<And>x. x \<in> set xs \<Longrightarrow> short_key (fst x)"
    using Cons.prems(1) xs(1) entry_key_facts(2) by (auto simp: short_key_def length_entry_key entry_ok_def sorted_by_def)
  have split: "takeWhile ?less xs = filter ?less xs" "dropWhile ?less xs = filter (\<lambda>a. \<not> ?less a) xs"
    using key_order.takeWhile_sorted [OF short_key_order _ _ v(1), of fst xs] xs(1) by (simp_all add: sorted_by_def)
  have above: "InternalKeyCompare BytewiseCompare (entry_key e) (fst x) < 0" if x: "x \<in> set xs" "\<not> ?less x" for x
  proof -
    from x(1) xs(2) obtain f where f: "f \<in> set es" "x = entry_pair f" by auto
    have new: "(me_key e, entry_tag e) \<notin> (\<lambda>e. (me_key e, entry_tag e)) ` set es" using Cons.prems(2) by (simp add: versions_distinct_def)
    have old: "(me_key f, entry_tag f) \<in> (\<lambda>e. (me_key e, entry_tag e)) ` set es" by (rule imageI [OF f(1)])
    have "(me_key f, entry_tag f) \<noteq> (me_key e, entry_tag e)"
    proof
      assume "(me_key f, entry_tag f) = (me_key e, entry_tag e)"
      with old new show False by (simp only:)
    qed
    then have "entry_key e \<noteq> fst x" using f(2) by (auto simp: entry_pair_def entry_key_eq)
    then show ?thesis
      using internal.compare_total [of "entry_key e" "fst x"] v(1) v(2) [OF x(1)] x(2) by (simp add: short_key_def)
  qed
  have trans: "InternalKeyCompare BytewiseCompare (fst a) (fst b) < 0" if "a \<in> set xs" "?less a" "b \<in> set xs" "\<not> ?less b" for a b
    using key_order.less_trans_order [OF short_key_order v(2) [OF that(1)] v(1) v(2) [OF that(3)] that(2) above [OF that(3,4)]] .
  have "internal_sorted (filter ?less xs @ entry_pair e # filter (\<lambda>a. \<not> ?less a) xs)"
    using xs(1) v above trans unfolding sorted_by_def sorted_wrt_append
    by (auto simp: entry_pair_def intro: sorted_wrt_filter)
  moreover have "set (filter ?less xs @ entry_pair e # filter (\<lambda>a. \<not> ?less a) xs) = entry_pair ` set (e # es)" using xs(2) by auto
  ultimately show ?case by blast
qed

section \<open>An example\<close>

text \<open>Two memtables: a value of the key 1 in the first; its later deletion and a value of the key 2 in the second.\<close>

abbreviation version :: "u64 \<Rightarrow> ValueType \<Rightarrow> bytes \<Rightarrow> bytes \<Rightarrow> mem_entry" where
  "version s t k v \<equiv> \<lparr>me_seq = s, me_type = t, me_key = k, me_value = v\<rparr>"

definition example_versions :: "mem_entry list list" where
  "example_versions = [[version 3 kTypeValue [1] [7]], [version 5 kTypeDeletion [1] [], version 4 kTypeValue [2] [8]]]"

lemma history_add:
  assumes "mem_history m es" "\<forall>f \<in> set es. entry_ok f" "entry_ok e" "\<forall>f \<in> set es. (me_key f, entry_tag f) \<noteq> (me_key e, entry_tag e)"
  shows "\<exists>m'. mem_history m' (e # es)"
proof -
  have "\<not> (\<exists>f \<in> set es. me_key f = me_key e \<and> entry_tag f = entry_tag e)" using assms(4) by simp
  with MemTableAdd_correct [OF mem_history_abs [OF assms(1,2)] assms(3)] obtain m' where
    "MemTableAdd BytewiseCompare (me_seq e) (me_type e) (me_key e) (me_value e) m = Some m'" by meson
  then show ?thesis using mem_history.added [OF assms(1)] by blast
qed

lemma example_tables: "\<exists>ms. tables_hold ms example_versions"
proof -
  have ok: "entry_ok (version 3 kTypeValue [1] [7])" "entry_ok (version 4 kTypeValue [2] [8])" "entry_ok (version 5 kTypeDeletion [1] [])"
    by (simp_all add: entry_ok_def kMaxSequenceNumber_def)
  obtain m1 where m1: "mem_history m1 [version 3 kTypeValue [1] [7]]" using history_add [OF mem_history.created _ ok(1)] by auto
  obtain m2 where m2: "mem_history m2 [version 4 kTypeValue [2] [8]]" using history_add [OF mem_history.created _ ok(2)] by auto
  obtain m3 where m3: "mem_history m3 [version 5 kTypeDeletion [1] [], version 4 kTypeValue [2] [8]]"
    using history_add [OF m2 _ ok(3)] ok(2) by auto
  have "list_all2 mem_history [m1, m3] example_versions" using m1 m3 by (simp add: example_versions_def)
  moreover have "versions_distinct (concat example_versions)" by (simp add: versions_distinct_def example_versions_def entry_tag_def)
  ultimately show ?thesis using ok unfolding tables_hold_def by (intro exI [of _ "[m1, m3]"]) (simp add: example_versions_def)
qed

lemma example_sorted:
  "internal_sorted (map entry_pair [version 5 kTypeDeletion [1] [], version 3 kTypeValue [1] [7], version 4 kTypeValue [2] [8]])"
proof -
  have key: "InternalKeyCompare BytewiseCompare (entry_key e) (entry_key f) < 0 \<longleftrightarrow>
      user_less (me_key e) (me_key f) \<or> me_key e = me_key f \<and> entry_tag f < entry_tag e" for e f
    using internal_less_iff_bytewise [OF entry_key_facts(2,2), of e f] by (simp add: entry_key_facts)
  show ?thesis
    by (simp add: sorted_by_def entry_pair_def key short_key_def entry_key_facts(2) length_entry_key entry_tag_def BytewiseCompare_Cons)
qed

section \<open>Properties\<close>

text \<open>
  C9: the merging iterator is an iterator over the sorted merge. Over the iterators of any number of
  memtables, whose versions are all different, every sequence of moves, forwards, backwards and to
  targets, in any mixture, ends at the entry that the same moves on the sorted list of all versions
  end at, or is not valid when they leave the list; no assertion fails and the status stays good.
\<close>

theorem merging_iterator_refines:
  assumes "tables_hold ms ess" "internal_sorted xs" "set xs = entry_pair ` set (concat ess)"
    and "cursor_run (InternalKeyCompare BytewiseCompare) xs moves None = Some q" "seeks_ok short_key moves"
  shows "\<exists>it it'. NewMergingIterator (mem_iter_ops BytewiseCompare) (map NewMemIterator ms) = Some it
    \<and> iter_run merged_mem_ops moves it = Some it' \<and> iter_entry merged_mem_ops it' = map_option ((!) xs) q
    \<and> io_status merged_mem_ops it' = OK"
proof -
  from tables_merged [OF assms(1-3)] obtain it where
    it: "NewMergingIterator (mem_iter_ops BytewiseCompare) (map NewMemIterator ms) = Some it" "mem_iter.merged_rep it xs None" by blast
  with mem_merged.run_observed [OF it(2) assms(4,5)] show ?thesis by blast
qed

theorem merging_iterator_refines_witness:
  "\<exists>ms it it'. tables_hold ms example_versions
    \<and> NewMergingIterator (mem_iter_ops BytewiseCompare) (map NewMemIterator ms) = Some it
    \<and> iter_run merged_mem_ops [MoveFirst, MoveNext, MoveNext, MovePrev] it = Some it'
    \<and> iter_entry merged_mem_ops it' = Some (entry_pair (version 3 kTypeValue [1] [7]))"
proof -
  obtain ms where ms: "tables_hold ms example_versions" using example_tables by blast
  define xs where "xs = map entry_pair [version 5 kTypeDeletion [1] [], version 3 kTypeValue [1] [7], version 4 kTypeValue [2] [8]]"
  have "internal_sorted xs" unfolding xs_def by (rule example_sorted)
  moreover have "set xs = entry_pair ` set (concat example_versions)" by (auto simp: xs_def example_versions_def)
  moreover have "cursor_run (InternalKeyCompare BytewiseCompare) xs [MoveFirst, MoveNext, MoveNext, MovePrev] None = Some (Some 1)"
    by (simp add: xs_def)
  moreover have "seeks_ok short_key [MoveFirst, MoveNext, MoveNext, MovePrev]" by (simp add: seeks_ok_def)
  moreover have "map_option ((!) xs) (Some 1) = Some (entry_pair (version 3 kTypeValue [1] [7]))" by (simp add: xs_def)
  ultimately show ?thesis using merging_iterator_refines [OF ms] ms by metis
qed

text \<open>
  C5: a client's iterator shows its snapshot. Over the merge of any number of memtables, at a
  sequence number, the iterator runs over the user keys in order, each with the value that a lookup
  at that sequence number finds, without the keys that a lookup finds deleted or missing: every
  sequence of moves, with any changes of direction, ends where the same moves on that list end. The
  loops that skip hidden entries and that take read samples end, and no assertion fails.
\<close>

theorem db_iterator_snapshot:
  assumes "tables_hold ms ess" "s \<le> kMaxSequenceNumber" "sorted_by BytewiseCompare short_user vs"
    and "\<And>u v. (u, v) \<in> set vs \<longleftrightarrow> (\<exists>e. newest_visible u s (concat ess) = Some e \<and> me_type e = kTypeValue \<and> me_value e = v)"
    and "cursor_run BytewiseCompare vs moves None = Some q" "seeks_ok short_user moves"
  shows "\<exists>it d. NewMergingIterator (mem_iter_ops BytewiseCompare) (map NewMemIterator ms) = Some it
    \<and> iter_run (db_iter_ops merged_mem_ops BytewiseCompare) moves (MakeDBIter it s seed) = Some d
    \<and> iter_entry (db_iter_ops merged_mem_ops BytewiseCompare) d = map_option ((!) vs) q
    \<and> io_status (db_iter_ops merged_mem_ops BytewiseCompare) d = OK"
proof -
  have ok: "\<forall>e \<in> set (concat ess). entry_ok e" "versions_distinct (concat ess)" using assms(1) by (auto simp: tables_hold_def)
  from sorted_versions [OF ok] obtain xs where xs: "internal_sorted xs" "set xs = entry_pair ` set (concat ess)" by blast
  have "set (db_view s xs) = set vs" using view_newest [OF xs ok] assms(4) by auto
  then have vs: "db_view s xs = vs" by (rule view_unique [OF db_view_sorted [OF xs(1)] assms(3)])
  from tables_merged [OF assms(1) xs] obtain it where
    it: "NewMergingIterator (mem_iter_ops BytewiseCompare) (map NewMemIterator ms) = Some it" "mem_iter.merged_rep it xs None" by blast
  have "\<forall>e \<in> set xs. entry_parses e" using xs(2) ok(1) entry_pair_facts(2) by auto
  from mem_merged.NewDBIter_rep [OF it(2) this assms(2), of seed] have "mem_merged.db_rep (MakeDBIter it s seed) vs None"
    unfolding vs .
  from mem_merged.db.run_observed [OF this assms(5,6)] it(1) show ?thesis by blast
qed

theorem db_iterator_snapshot_witness:
  "\<exists>ms it d. tables_hold ms example_versions
    \<and> NewMergingIterator (mem_iter_ops BytewiseCompare) (map NewMemIterator ms) = Some it
    \<and> iter_run (db_iter_ops merged_mem_ops BytewiseCompare) [MoveSeek [1]] (MakeDBIter it 5 301) = Some d
    \<and> iter_entry (db_iter_ops merged_mem_ops BytewiseCompare) d = Some ([2], [8])"
proof -
  obtain ms where ms: "tables_hold ms example_versions" using example_tables by blast
  have s: "5 \<le> kMaxSequenceNumber" by (simp add: kMaxSequenceNumber_def)
  have srt: "sorted_by BytewiseCompare short_user [([2], [8 :: u8])]" by (simp add: sorted_by_def short_user_def)
  have view: "(u, v) \<in> set [([2], [8])] \<longleftrightarrow>
      (\<exists>e. newest_visible u 5 (concat example_versions) = Some e \<and> me_type e = kTypeValue \<and> me_value e = v)" for u v :: bytes
  proof -
    consider "u = [1]" | "u = [2]" | "u \<noteq> [1]" "u \<noteq> [2]" by blast
    then show ?thesis by cases (auto simp: example_versions_def visible_def entry_tag_def)
  qed
  have run: "cursor_run BytewiseCompare [([2], [8 :: u8])] [MoveSeek [1]] None = Some (Some 0)" by (simp add: BytewiseCompare_Cons)
  have seeks: "seeks_ok short_user [MoveSeek [1]]" by (simp add: seeks_ok_def short_user_def)
  from db_iterator_snapshot [OF ms s srt view run seeks, of 301] ms show ?thesis by auto
qed

end
