(* ===== verification/Db_Write.thy ===== *)
theory Db_Write
  imports Write_Batch Log
begin

text \<open>
  The write path of \<open>db/db_impl.cc\<close>: \<open>DBImpl::Write\<close>, \<open>BuildBatchGroup\<close> and \<open>MakeRoomForWrite\<close>, run by any
  number of threads. A step is what a thread does from one point where the mutex is free to the next,
  or one of the operations that the thread at the front does while the mutex is free. Background work
  is a step of its own that may do what the compaction thread does to this state. \<open>None\<close> is a failed
  assertion.
\<close>

section \<open>State\<close>

text \<open>\<open>Writer\<close> lives on the stack of its thread; a thread's number is the address of its writer.\<close>

record Writer =
  w_status :: Status
  w_batch :: "WriteBatch option"
  w_sync :: bool
  w_done :: bool

text \<open>
  Where a thread is. \<open>Waiting\<close> is in \<open>cv.Wait()\<close>, with a flag that the condition variable has been
  signalled; \<open>Sleeping\<close>, \<open>RoomWait\<close> and \<open>RoomReady\<close> are in \<open>MakeRoomForWrite\<close>, which is at its delay, waits for
  background work, or has been woken. The other phases are those with the mutex released, with
  whether the group is \<open>tmp_batch_\<close>, the last writer of the group and the sequence number to be set.
\<close>

datatype write_phase =
    NotCalled
  | Waiting bool
  | Sleeping bool
  | RoomWait bool bool
  | RoomReady bool bool
  | Logging bool nat u64
  | Logged bool nat u64 Status
  | Synced bool nat u64 Status bool
  | Inserted bool nat u64 Status bool
  | Returned Status

record 'f DBImpl =
  di_writers :: "nat list"
  di_writer :: "nat \<Rightarrow> Writer"
  di_phase :: "nat \<Rightarrow> write_phase"
  di_tmp_batch :: WriteBatch
  di_mem :: MemTable
  di_imm :: "MemTable option"
  di_log :: "'f LogWriter"
  di_logfile_number :: u64
  di_last_sequence :: u64
  di_next_file_number :: u64
  di_prev_log_number :: u64
  di_level0_files :: nat
  di_bg_error :: Status
  di_bg_scheduled :: bool
  di_shutting_down :: bool
  di_other_work :: bool

text \<open>The comparator, the checksum, the file operations, and the memory estimate of the arena.\<close>

record 'f write_env =
  we_compare :: "bytes \<Rightarrow> bytes \<Rightarrow> int"
  we_extend :: "u32 \<Rightarrow> bytes \<Rightarrow> u32"
  we_append :: "bytes \<Rightarrow> 'f \<Rightarrow> Status \<times> 'f"
  we_flush :: "'f \<Rightarrow> Status \<times> 'f"
  we_sync :: "'f \<Rightarrow> Status \<times> 'f"
  we_new_file :: "u64 \<Rightarrow> Status \<times> 'f"
  we_usage :: "MemTable \<Rightarrow> nat"
  we_write_buffer_size :: nat

definition kL0_SlowdownWritesTrigger :: nat where
  "kL0_SlowdownWritesTrigger = 8"

definition kL0_StopWritesTrigger :: nat where
  "kL0_StopWritesTrigger = 12"

section \<open>Version set and background work\<close>

definition NewFileNumber :: "'f DBImpl \<Rightarrow> u64 \<times> 'f DBImpl" where
  "NewFileNumber S = (di_next_file_number S, S\<lparr>di_next_file_number := di_next_file_number S + 1\<rparr>)"

definition ReuseFileNumber :: "u64 \<Rightarrow> 'f DBImpl \<Rightarrow> 'f DBImpl" where
  "ReuseFileNumber n S = (if di_next_file_number S = n + 1 then S\<lparr>di_next_file_number := n\<rparr> else S)"

definition VersionSetLastSequence :: "u64 \<Rightarrow> 'f DBImpl \<Rightarrow> 'f DBImpl option" where
  "VersionSetLastSequence s S = (if s \<ge> di_last_sequence S then Some (S\<lparr>di_last_sequence := s\<rparr>) else None)"

text \<open>
  Where there is no memtable to compact, \<open>di_other_work\<close> says whether there is a manual compaction or a level
  that \<open>NeedsCompaction\<close>.
\<close>

definition MaybeScheduleCompaction :: "'f DBImpl \<Rightarrow> 'f DBImpl" where
  "MaybeScheduleCompaction S =
     (if di_bg_scheduled S \<or> di_shutting_down S \<or> di_bg_error S \<noteq> OK then S
      else if di_imm S = None \<and> \<not> di_other_work S then S
      else S\<lparr>di_bg_scheduled := True\<rparr>)"

text \<open>\<open>background_work_finished_signal_.SignalAll()\<close>.\<close>

fun wake_room :: "write_phase \<Rightarrow> write_phase" where
  "wake_room (RoomWait force allow_delay) = RoomReady force allow_delay"
| "wake_room p = p"

definition SignalBackground :: "'f DBImpl \<Rightarrow> 'f DBImpl" where
  "SignalBackground S = S\<lparr>di_phase := (\<lambda>w. wake_room (di_phase S w))\<rparr>"

definition RecordBackgroundError :: "Status \<Rightarrow> 'f DBImpl \<Rightarrow> 'f DBImpl" where
  "RecordBackgroundError s S =
     (if di_bg_error S = OK then SignalBackground (S\<lparr>di_bg_error := s\<rparr>) else S)"

section \<open>The group of a leader\<close>

text \<open>
  The loop of \<open>BuildBatchGroup\<close>: the result so far, whether it is \<open>tmp_batch_\<close>, the size and the last
  writer.
\<close>

fun batch_group_loop ::
    "(nat \<Rightarrow> Writer) \<Rightarrow> Writer \<Rightarrow> nat \<Rightarrow> WriteBatch \<Rightarrow> nat list \<Rightarrow> nat \<Rightarrow> WriteBatch \<Rightarrow> bool \<Rightarrow> nat
      \<Rightarrow> (WriteBatch \<times> bool \<times> nat) option" where
  "batch_group_loop writer first max_size tmp_batch [] sz result tmp last_writer = Some (result, tmp, last_writer)"
| "batch_group_loop writer first max_size tmp_batch (w # ws) sz result tmp last_writer =
     (if w_sync (writer w) \<and> \<not> w_sync first then Some (result, tmp, last_writer)
      else
        (case w_batch (writer w) of
           None \<Rightarrow> batch_group_loop writer first max_size tmp_batch ws sz result tmp w
         | Some batch \<Rightarrow>
             let sz = sz + length batch in
             if sz > max_size then Some (result, tmp, last_writer)
             else
               Option.bind
                 (if \<not> tmp then (if Count tmp_batch = 0 then WriteBatchAppend result tmp_batch else None)
                  else Some result) (\<lambda>result.
               Option.bind (WriteBatchAppend batch result) (\<lambda>result.
                 batch_group_loop writer first max_size tmp_batch ws sz result True w))))"

definition group_max_size :: "nat \<Rightarrow> nat" where
  "group_max_size sz = (if sz \<le> 131072 then sz + 131072 else 1048576)"

definition BuildBatchGroup :: "'f DBImpl \<Rightarrow> (WriteBatch \<times> bool \<times> nat) option" where
  "BuildBatchGroup S =
     (case di_writers S of
        [] \<Rightarrow> None
      | first # ws \<Rightarrow>
          (case w_batch (di_writer S first) of
             None \<Rightarrow> None
           | Some batch \<Rightarrow>
               batch_group_loop (di_writer S) (di_writer S first) (group_max_size (length batch)) (di_tmp_batch S) ws
                 (length batch) batch False first))"

text \<open>The batch that is written: \<open>tmp_batch_\<close> or the caller's own.\<close>

definition write_batch :: "nat \<Rightarrow> bool \<Rightarrow> 'f DBImpl \<Rightarrow> WriteBatch option" where
  "write_batch w tmp S = (if tmp then Some (di_tmp_batch S) else w_batch (di_writer S w))"

definition set_write_batch :: "nat \<Rightarrow> bool \<Rightarrow> WriteBatch \<Rightarrow> 'f DBImpl \<Rightarrow> 'f DBImpl" where
  "set_write_batch w tmp batch S =
     (if tmp then S\<lparr>di_tmp_batch := batch\<rparr>
      else S\<lparr>di_writer := (di_writer S)(w := (di_writer S w)\<lparr>w_batch := Some batch\<rparr>)\<rparr>)"

definition set_phase :: "nat \<Rightarrow> write_phase \<Rightarrow> 'f DBImpl \<Rightarrow> 'f DBImpl" where
  "set_phase w p S = S\<lparr>di_phase := (di_phase S)(w := p)\<rparr>"

section \<open>Leaving the queue\<close>

text \<open>\<open>cv.Signal()\<close>: only a thread that waits hears it.\<close>

fun signalled :: "write_phase \<Rightarrow> write_phase" where
  "signalled (Waiting _) = Waiting True"
| "signalled p = p"

definition SignalWriter :: "nat \<Rightarrow> 'f DBImpl \<Rightarrow> 'f DBImpl" where
  "SignalWriter w S = set_phase w (signalled (di_phase S w)) S"

text \<open>The loop that takes the group off the queue; the number of rounds is at most the length of the queue.\<close>

fun pop_group :: "nat \<Rightarrow> nat \<Rightarrow> Status \<Rightarrow> nat list \<Rightarrow> 'f DBImpl \<Rightarrow> 'f DBImpl option" where
  "pop_group w last_writer status [] S = None"
| "pop_group w last_writer status (ready # rest) S =
     (let S = S\<lparr>di_writers := rest\<rparr>;
          S = (if ready \<noteq> w then
                 SignalWriter ready
                   (S\<lparr>di_writer := (di_writer S)(ready := (di_writer S ready)\<lparr>w_status := status, w_done := True\<rparr>)\<rparr>)
               else S)
      in if ready = last_writer then Some S else pop_group w last_writer status rest S)"

definition leave_queue :: "nat \<Rightarrow> nat \<Rightarrow> Status \<Rightarrow> 'f DBImpl \<Rightarrow> 'f DBImpl option" where
  "leave_queue w last_writer status S =
     map_option (\<lambda>S.
       let S = (case di_writers S of [] \<Rightarrow> S | head # _ \<Rightarrow> SignalWriter head S) in
       set_phase w (Returned status) S) (pop_group w last_writer status (di_writers S) S)"

section \<open>Making room\<close>

text \<open>The loop of \<open>MakeRoomForWrite\<close> up to where it gives the mutex away, or its result.\<close>

datatype room = RoomDelay bool | RoomBlocked bool bool | RoomDone Status

definition SwitchMemTable :: "u64 \<Rightarrow> 'f \<Rightarrow> 'f write_env \<Rightarrow> 'f DBImpl \<Rightarrow> 'f DBImpl" where
  "SwitchMemTable new_log_number lfile env S =
     MaybeScheduleCompaction
       (S\<lparr>di_logfile_number := new_log_number, di_log := NewLogWriter (we_extend env) lfile,
          di_imm := Some (di_mem S), di_mem := MemTableRef NewMemTable\<rparr>)"

function make_room_loop :: "'f write_env \<Rightarrow> bool \<Rightarrow> bool \<Rightarrow> 'f DBImpl \<Rightarrow> (room \<times> 'f DBImpl) option" where
  "make_room_loop env force allow_delay S =
     (if di_bg_error S \<noteq> OK then Some (RoomDone (di_bg_error S), S)
      else if allow_delay \<and> di_level0_files S \<ge> kL0_SlowdownWritesTrigger then Some (RoomDelay force, S)
      else if \<not> force \<and> we_usage env (di_mem S) \<le> we_write_buffer_size env then Some (RoomDone OK, S)
      else if di_imm S \<noteq> None then Some (RoomBlocked force allow_delay, S)
      else if di_level0_files S \<ge> kL0_StopWritesTrigger then Some (RoomBlocked force allow_delay, S)
      else if di_prev_log_number S \<noteq> 0 then None
      else
        (case NewFileNumber S of
           (new_log_number, S') \<Rightarrow>
             (case we_new_file env new_log_number of
                (s, lfile) \<Rightarrow>
                  if s \<noteq> OK then Some (RoomDone s, ReuseFileNumber new_log_number S')
                  else make_room_loop env False allow_delay (SwitchMemTable new_log_number lfile env S'))))"
  by pat_completeness auto
termination
  by (relation "measure (\<lambda>(_, _, _, S). if di_imm S = None then 1 else 0)")
    (auto simp: NewFileNumber_def SwitchMemTable_def MaybeScheduleCompaction_def)

declare make_room_loop.simps [simp del]

section \<open>The thread at the front\<close>

text \<open>What follows \<open>MakeRoomForWrite\<close>, until the mutex is released.\<close>

definition start_group :: "nat \<Rightarrow> Status \<Rightarrow> 'f DBImpl \<Rightarrow> 'f DBImpl option" where
  "start_group w status S =
     (if status = OK \<and> w_batch (di_writer S w) \<noteq> None then
        Option.bind (BuildBatchGroup S) (\<lambda>(batch, tmp, last_writer).
          let batch = SetSequence (di_last_sequence S + 1) batch;
              last_sequence = di_last_sequence S + scast (Count batch)
          in Some (set_phase w (Logging tmp last_writer last_sequence) (set_write_batch w tmp batch S)))
      else leave_queue w w status S)"

definition lead :: "'f write_env \<Rightarrow> nat \<Rightarrow> bool \<Rightarrow> bool \<Rightarrow> 'f DBImpl \<Rightarrow> 'f DBImpl option" where
  "lead env w force allow_delay S =
     (if di_writers S = [] then None
      else
        Option.bind (make_room_loop env force allow_delay S) (\<lambda>(room, S).
          case room of
            RoomDelay force \<Rightarrow> Some (set_phase w (Sleeping force) S)
          | RoomBlocked force allow_delay \<Rightarrow> Some (set_phase w (RoomWait force allow_delay) S)
          | RoomDone status \<Rightarrow> start_group w status S))"

definition MakeRoomForWrite :: "'f write_env \<Rightarrow> nat \<Rightarrow> bool \<Rightarrow> 'f DBImpl \<Rightarrow> 'f DBImpl option" where
  "MakeRoomForWrite env w force S = lead env w force (\<not> force) S"

text \<open>The test of the waiting loop, and what follows it.\<close>

definition check_turn :: "'f write_env \<Rightarrow> nat \<Rightarrow> 'f DBImpl \<Rightarrow> 'f DBImpl option" where
  "check_turn env w S =
     (if w_done (di_writer S w) then Some (set_phase w (Returned (w_status (di_writer S w))) S)
      else
        (case di_writers S of
           [] \<Rightarrow> None
         | front # _ \<Rightarrow>
             if front = w then MakeRoomForWrite env w (w_batch (di_writer S w) = None) S
             else Some (set_phase w (Waiting False) S)))"

definition CallWrite :: "'f write_env \<Rightarrow> nat \<Rightarrow> WriteBatch option \<Rightarrow> bool \<Rightarrow> 'f DBImpl \<Rightarrow> 'f DBImpl option" where
  "CallWrite env w updates sync S =
     check_turn env w
       (S\<lparr>di_writer := (di_writer S)(w := \<lparr>w_status = OK, w_batch = updates, w_sync = sync, w_done = False\<rparr>),
          di_writers := di_writers S @ [w]\<rparr>)"

text \<open>The operations on the log and the memtable, with the mutex released.\<close>

definition log_step :: "'f write_env \<Rightarrow> nat \<Rightarrow> bool \<Rightarrow> nat \<Rightarrow> u64 \<Rightarrow> 'f DBImpl \<Rightarrow> 'f DBImpl option" where
  "log_step env w tmp last_writer last_sequence S =
     Option.bind (write_batch w tmp S) (\<lambda>batch.
     Option.bind (AddRecord (we_extend env) (we_append env) (we_flush env) batch (di_log S)) (\<lambda>(status, log).
       Some (set_phase w (Logged tmp last_writer last_sequence status) (S\<lparr>di_log := log\<rparr>))))"

definition sync_step :: "'f write_env \<Rightarrow> nat \<Rightarrow> bool \<Rightarrow> nat \<Rightarrow> u64 \<Rightarrow> Status \<Rightarrow> 'f DBImpl \<Rightarrow> 'f DBImpl" where
  "sync_step env w tmp last_writer last_sequence status S =
     (if status = OK \<and> w_sync (di_writer S w) then
        (case we_sync env (lw_dest (di_log S)) of
           (status, dest) \<Rightarrow>
             set_phase w (Synced tmp last_writer last_sequence status (status \<noteq> OK)) (S\<lparr>di_log := (di_log S)\<lparr>lw_dest := dest\<rparr>\<rparr>))
      else set_phase w (Synced tmp last_writer last_sequence status False) S)"

definition insert_step :: "'f write_env \<Rightarrow> nat \<Rightarrow> bool \<Rightarrow> nat \<Rightarrow> u64 \<Rightarrow> Status \<Rightarrow> bool \<Rightarrow> 'f DBImpl \<Rightarrow> 'f DBImpl option" where
  "insert_step env w tmp last_writer last_sequence status sync_error S =
     (if status = OK then
        Option.bind (write_batch w tmp S) (\<lambda>batch.
        Option.bind (InsertInto (we_compare env) batch (di_mem S)) (\<lambda>(mem, status).
          Some (set_phase w (Inserted tmp last_writer last_sequence status sync_error) (S\<lparr>di_mem := mem\<rparr>))))
      else Some (set_phase w (Inserted tmp last_writer last_sequence status sync_error) S))"

text \<open>From where the mutex is taken again.\<close>

definition finish_group :: "nat \<Rightarrow> bool \<Rightarrow> nat \<Rightarrow> u64 \<Rightarrow> Status \<Rightarrow> bool \<Rightarrow> 'f DBImpl \<Rightarrow> 'f DBImpl option" where
  "finish_group w tmp last_writer last_sequence status sync_error S =
     (let S = (if sync_error then RecordBackgroundError status S else S);
          S = (if tmp then S\<lparr>di_tmp_batch := WriteBatchClear (di_tmp_batch S)\<rparr> else S)
      in Option.bind (VersionSetLastSequence last_sequence S) (leave_queue w last_writer status))"

section \<open>Steps\<close>

text \<open>A thread goes on from its phase; \<open>None\<close> outside means that it cannot.\<close>

definition thread_step :: "'f write_env \<Rightarrow> nat \<Rightarrow> 'f DBImpl \<Rightarrow> 'f DBImpl option option" where
  "thread_step env w S =
     (case di_phase S w of
        Waiting True \<Rightarrow> Some (check_turn env w S)
      | Sleeping force \<Rightarrow> Some (lead env w force False S)
      | RoomReady force allow_delay \<Rightarrow> Some (lead env w force allow_delay S)
      | Logging tmp last_writer last_sequence \<Rightarrow> Some (log_step env w tmp last_writer last_sequence S)
      | Logged tmp last_writer last_sequence status \<Rightarrow> Some (Some (sync_step env w tmp last_writer last_sequence status S))
      | Synced tmp last_writer last_sequence status sync_error \<Rightarrow>
          Some (insert_step env w tmp last_writer last_sequence status sync_error S)
      | Inserted tmp last_writer last_sequence status sync_error \<Rightarrow>
          Some (finish_group w tmp last_writer last_sequence status sync_error S)
      | _ \<Rightarrow> None)"

text \<open>
  The steps: a new call, a step of a thread, a wake-up of a waiting thread that nobody signalled, and
  background work, which may finish the compaction of \<open>imm_\<close>, change the files of level 0, take file
  numbers and record an error, and signals that it has finished.
\<close>

datatype write_action =
    Call nat "WriteBatch option" bool
  | Step nat
  | Spurious nat
  | Background bool nat nat Status bool bool

definition background_work :: "bool \<Rightarrow> nat \<Rightarrow> nat \<Rightarrow> Status \<Rightarrow> bool \<Rightarrow> bool \<Rightarrow> 'f DBImpl \<Rightarrow> 'f DBImpl" where
  "background_work flushed level0 new_files err scheduled other_work S =
     SignalBackground (RecordBackgroundError err
       (S\<lparr>di_imm := (if flushed then None else di_imm S), di_level0_files := level0,
          di_next_file_number := di_next_file_number S + of_nat new_files, di_bg_scheduled := scheduled,
          di_other_work := other_work\<rparr>))"

definition write_step :: "'f write_env \<Rightarrow> write_action \<Rightarrow> 'f DBImpl \<Rightarrow> 'f DBImpl option option" where
  "write_step env a S =
     (case a of
        Call w updates sync \<Rightarrow> if di_phase S w = NotCalled then Some (CallWrite env w updates sync S) else None
      | Step w \<Rightarrow> thread_step env w S
      | Spurious w \<Rightarrow> if \<exists>b. di_phase S w = Waiting b then Some (check_turn env w S) else None
      | Background flushed level0 new_files err scheduled other_work \<Rightarrow>
          Some (Some (background_work flushed level0 new_files err scheduled other_work S)))"

text \<open>The state after \<open>DB::Open\<close> of an empty database, which has a new log and a new memtable.\<close>

definition NewDBImpl :: "'f write_env \<Rightarrow> 'f \<Rightarrow> u64 \<Rightarrow> u64 \<Rightarrow> u64 \<Rightarrow> 'f DBImpl" where
  "NewDBImpl env lfile log_number next_file last_sequence =
     \<lparr>di_writers = [], di_writer = (\<lambda>_. \<lparr>w_status = OK, w_batch = None, w_sync = False, w_done = False\<rparr>),
      di_phase = (\<lambda>_. NotCalled), di_tmp_batch = NewWriteBatch, di_mem = MemTableRef NewMemTable, di_imm = None,
      di_log = NewLogWriter (we_extend env) lfile, di_logfile_number = log_number, di_last_sequence = last_sequence,
      di_next_file_number = next_file, di_prev_log_number = 0, di_level0_files = 0, di_bg_error = OK, di_bg_scheduled = False,
      di_shutting_down = False, di_other_work = False\<rparr>"

inductive write_history :: "'f write_env \<Rightarrow> 'f DBImpl \<Rightarrow> write_action list \<Rightarrow> 'f DBImpl \<Rightarrow> bool" for env S0 where
  started: "write_history env S0 [] S0"
| stepped: "write_history env S0 acts S \<Longrightarrow> write_step env a S = Some (Some S') \<Longrightarrow> write_history env S0 (acts @ [a]) S'"

end
