(* ===== verification/Db_Write_Inv.thy ===== *)
theory Db_Write_Inv
  imports Db_Write
begin

text \<open>
  What holds in every state that the write path reaches: who may run, what the group in flight holds,
  and what has been written.
\<close>

section \<open>The log accepts every record\<close>

lemma switch_block_offset:
  "lw_block_offset w \<le> kBlockSize \<Longrightarrow> lw_block_offset (switch_block fa w) + kHeaderSize \<le> kBlockSize"
  by (auto simp: switch_block_def Let_def kHeaderSize_def kBlockSize_def)

lemma add_record_loop_defined:
  "lw_block_offset w \<le> kBlockSize \<Longrightarrow> \<exists>s w'. add_record_loop e fa ff ptr b w = Some (s, w') \<and> lw_block_offset w' \<le> kBlockSize"
proof (induction e fa ff ptr b w rule: add_record_loop.induct)
  case (1 e fa ff ptr b w)
  define w1 where "w1 = switch_block fa w"
  define avail where "avail = kBlockSize - lw_block_offset w1 - kHeaderSize"
  define n where "n = (if length ptr < avail then length ptr else avail)"
  define t where "t = record_type_of b (length ptr = n)"
  have off: "lw_block_offset w1 + kHeaderSize \<le> kBlockSize" unfolding w1_def using "1.prems" by (rule switch_block_offset)
  have n: "n \<le> avail" "length (take n ptr) = n" by (simp_all add: n_def)
  then have fits: "\<not> (n > 0xffff \<or> lw_block_offset w1 + kHeaderSize + n > kBlockSize)"
    using off unfolding avail_def kBlockSize_def by linarith
  then have "EmitPhysicalRecord e fa ff t (take n ptr) w1 \<noteq> None"
    unfolding EmitPhysicalRecord_def n(2) Let_def by (simp del: not_None_eq split: prod.split)
  then obtain s w2 where emit: "EmitPhysicalRecord e fa ff t (take n ptr) w1 = Some (s, w2)" by fast
  have w2: "lw_block_offset w2 \<le> kBlockSize" using emit_offset [OF emit] by simp
  have unfold: "add_record_loop e fa ff ptr b w
      = (if s = OK \<and> length (drop n ptr) > 0 then add_record_loop e fa ff (drop n ptr) False w2 else Some (s, w2))"
    using "1.prems" emit
    unfolding add_record_loop.simps [of e fa ff ptr b w] Let_def w1_def [symmetric] avail_def [symmetric] n_def [symmetric] t_def [symmetric]
    by simp
  show ?case
  proof (cases "s = OK \<and> length (drop n ptr) > 0")
    case True
    have "\<exists>s w'. add_record_loop e fa ff (drop n ptr) False w2 = Some (s, w') \<and> lw_block_offset w' \<le> kBlockSize"
      by (rule "1.IH" [OF _ w1_def avail_def n_def t_def _ refl True w2]) (use "1.prems" emit in simp_all)
    then show ?thesis unfolding unfold using True by simp
  qed (use w2 unfold in auto)
qed

lemma AddRecord_defined:
  assumes "lw_block_offset w \<le> kBlockSize"
  obtains s w' where "AddRecord e fa ff contents w = Some (s, w')" "lw_block_offset w' \<le> kBlockSize"
  unfolding AddRecord_def using add_record_loop_defined [OF assms] by blast

section \<open>Taking the group off the queue\<close>

fun group_upto :: "nat \<Rightarrow> nat list \<Rightarrow> nat list" where
  "group_upto l [] = []"
| "group_upto l (w # ws) = (if w = l then [w] else w # group_upto l ws)"

lemma group_upto_prefix: "group_upto l q = take (length (group_upto l q)) q"
  by (induction q) simp_all

lemma group_upto_set: "set (group_upto l q) \<subseteq> set q"
  by (induction q) auto

lemma group_upto_take: "i < length q \<Longrightarrow> distinct q \<Longrightarrow> group_upto (q ! i) q = take (Suc i) q"
proof (induction q arbitrary: i)
  case (Cons w ws)
  then show ?case by (cases i) auto
qed simp

lemma group_upto_nonempty: "q \<noteq> [] \<Longrightarrow> hd q \<in> set (group_upto l q)"
  by (cases q) simp_all

definition popped_state :: "nat \<Rightarrow> nat list \<Rightarrow> Status \<Rightarrow> nat list \<Rightarrow> 'f DBImpl \<Rightarrow> 'f DBImpl" where
  "popped_state w grp status rest S =
     S\<lparr>di_writers := rest,
       di_writer := (\<lambda>x. if x \<in> set grp \<and> x \<noteq> w then (di_writer S x)\<lparr>w_status := status, w_done := True\<rparr> else di_writer S x),
       di_phase := (\<lambda>x. if x \<in> set grp \<and> x \<noteq> w then signalled (di_phase S x) else di_phase S x)\<rparr>"

lemma signalled_twice: "signalled (signalled p) = signalled p"
  by (cases p) simp_all

lemma popped_state_step:
  "popped_state w grp status rest
     (let S = S\<lparr>di_writers := q\<rparr> in
      if r \<noteq> w then SignalWriter r (S\<lparr>di_writer := (di_writer S)(r := (di_writer S r)\<lparr>w_status := status, w_done := True\<rparr>)\<rparr>) else S)
   = popped_state w (r # grp) status rest S"
  by (cases "r = w")
    (auto simp: popped_state_def SignalWriter_def set_phase_def Let_def signalled_twice fun_eq_iff
      intro!: DBImpl.equality)

lemma pop_group_closed:
  "last_writer \<in> set q \<Longrightarrow> pop_group w last_writer status q S
    = Some (popped_state w (group_upto last_writer q) status (drop (length (group_upto last_writer q)) q) S)"
proof (induction q arbitrary: S)
  case (Cons r q)
  define S1 where "S1 = (let S = S\<lparr>di_writers := q\<rparr> in
      if r \<noteq> w then SignalWriter r (S\<lparr>di_writer := (di_writer S)(r := (di_writer S r)\<lparr>w_status := status, w_done := True\<rparr>)\<rparr>) else S)"
  have step: "pop_group w last_writer status (r # q) S = (if r = last_writer then Some S1 else pop_group w last_writer status q S1)"
    by (simp add: S1_def Let_def)
  have s1: "popped_state w grp status rest S1 = popped_state w (r # grp) status rest S" for grp rest
    unfolding S1_def by (rule popped_state_step)
  show ?case
  proof (cases "r = last_writer")
    case True
    have "S1 = popped_state w [] status q S1"
      by (auto simp: popped_state_def S1_def SignalWriter_def set_phase_def Let_def intro!: DBImpl.equality)
    then have "S1 = popped_state w [r] status q S" unfolding s1 .
    then show ?thesis using step True by simp
  next
    case False
    then show ?thesis using step Cons s1 by simp
  qed
qed simp

text \<open>Everybody who is in the group is told the status, and the new head of the queue is woken.\<close>

definition wake_head :: "'f DBImpl \<Rightarrow> 'f DBImpl" where
  "wake_head S = (case di_writers S of [] \<Rightarrow> S | head # _ \<Rightarrow> SignalWriter head S)"

lemma leave_queue_closed:
  assumes "last_writer \<in> set (di_writers S)"
  defines "grp \<equiv> group_upto last_writer (di_writers S)"
  shows "leave_queue w last_writer status S
    = Some (set_phase w (Returned status) (wake_head (popped_state w grp status (drop (length grp) (di_writers S)) S)))"
  by (simp add: leave_queue_def pop_group_closed [OF assms(1)] grp_def wake_head_def)

section \<open>Building a group\<close>

definition batch_is :: "(nat \<Rightarrow> batch_op list) \<Rightarrow> 'f DBImpl \<Rightarrow> nat \<Rightarrow> bool" where
  "batch_is ops S w \<longleftrightarrow> (case w_batch (di_writer S w) of None \<Rightarrow> ops w = [] | Some b \<Rightarrow> \<exists>seq. b = batch_of seq (ops w))"

lemma batch_length: "length xs \<le> length (batch_of seq xs)"
proof -
  have "1 \<le> length (op_bytes x)" for x by (cases x) simp_all
  then have "length xs \<le> length (concat (map op_bytes xs))"
  proof (induction xs)
    case (Cons x xs)
    then have "length xs \<le> length (concat (map op_bytes xs))" "1 \<le> length (op_bytes x)" by simp_all
    then show ?case by simp
  qed simp
  then show ?thesis by (simp add: batch_of_def)
qed

lemma batch_group_loop_spec:
  assumes "\<forall>w \<in> set ws. case w_batch (writer w) of None \<Rightarrow> ops w = [] | Some b \<Rightarrow> \<exists>seq. b = batch_of seq (ops w)"
    and "length acc \<le> sz"
  shows "\<exists>i seq' tmp'. i \<le> length ws \<and>
    batch_group_loop writer first max_size NewWriteBatch ws sz (batch_of seq acc) tmp lw
      = Some (batch_of seq' (acc @ concat (map ops (take i ws))), tmp', if i = 0 then lw else ws ! (i - 1))
    \<and> (\<not> tmp' \<longrightarrow> \<not> tmp \<and> concat (map ops (take i ws)) = [] \<and> seq' = seq)
    \<and> (concat (map ops (take i ws)) = [] \<or> length (acc @ concat (map ops (take i ws))) \<le> max_size)"
  using assms
proof (induction ws arbitrary: acc sz seq tmp lw)
  case Nil
  then show ?case by (intro exI [of _ 0] exI [of _ seq] exI [of _ tmp]) simp
next
  case (Cons w ws)
  have stop: ?case if "batch_group_loop writer first max_size NewWriteBatch (w # ws) sz (batch_of seq acc) tmp lw
      = Some (batch_of seq acc, tmp, lw)"
    using that by (intro exI [of _ 0] exI [of _ seq] exI [of _ tmp]) simp
  have step: ?case
    if go: "batch_group_loop writer first max_size NewWriteBatch (w # ws) sz (batch_of seq acc) tmp lw
        = batch_group_loop writer first max_size NewWriteBatch ws sz1 (batch_of seq1 (acc @ ops w)) tmp1 w"
      and sz1: "length (acc @ ops w) \<le> sz1" and t: "\<not> tmp1 \<Longrightarrow> \<not> tmp \<and> ops w = [] \<and> seq1 = seq"
      and m: "ops w = [] \<or> sz1 \<le> max_size" for sz1 seq1 tmp1
  proof -
    have "\<forall>w \<in> set ws. case w_batch (writer w) of None \<Rightarrow> ops w = [] | Some b \<Rightarrow> \<exists>seq. b = batch_of seq (ops w)" using Cons.prems(1) by simp
    from Cons.IH [OF this sz1] obtain i seq' tmp' where i: "i \<le> length ws"
      "batch_group_loop writer first max_size NewWriteBatch ws sz1 (batch_of seq1 (acc @ ops w)) tmp1 w
        = Some (batch_of seq' ((acc @ ops w) @ concat (map ops (take i ws))), tmp', if i = 0 then w else ws ! (i - 1))"
      "\<not> tmp' \<longrightarrow> \<not> tmp1 \<and> concat (map ops (take i ws)) = [] \<and> seq' = seq1"
      "concat (map ops (take i ws)) = [] \<or> length ((acc @ ops w) @ concat (map ops (take i ws))) \<le> max_size" by blast
    have "concat (map ops (take (Suc i) (w # ws))) = ops w @ concat (map ops (take i ws))" by simp
    moreover have "(w # ws) ! (Suc i - 1) = (if i = 0 then w else ws ! (i - 1))" by (cases i) simp_all
    moreover have "ops w @ concat (map ops (take i ws)) = [] \<or> length (acc @ ops w @ concat (map ops (take i ws))) \<le> max_size"
    proof (cases "concat (map ops (take i ws)) = []")
      case True
      then show ?thesis using m sz1 unfolding True by auto
    next
      case False
      then show ?thesis using i(4) by (metis append.assoc)
    qed
    ultimately show ?thesis using i(1,2,3) go t by (intro exI [of _ "Suc i"] exI [of _ seq'] exI [of _ tmp']) auto
  qed
  show ?case
  proof (cases "w_sync (writer w) \<and> \<not> w_sync first")
    case False
    show ?thesis
    proof (cases "w_batch (writer w)")
      case None
      then have "ops w = []" using Cons.prems(1) by simp
      then show ?thesis using None False Cons.prems(2) by (intro step [of sz seq tmp]) auto
    next
      case (Some b)
      then obtain sb where b: "b = batch_of sb (ops w)" using Cons.prems(1) by auto
      show ?thesis
      proof (cases "sz + length b > max_size")
        case True
        then show ?thesis using Some False by (intro stop) simp
      next
        case fits: False
        define seq1 where "seq1 = (if tmp then seq else 0)"
        have "batch_group_loop writer first max_size NewWriteBatch (w # ws) sz (batch_of seq acc) tmp lw
            = batch_group_loop writer first max_size NewWriteBatch ws (sz + length b) (batch_of seq1 (acc @ ops w)) True w"
          using Some False fits by (cases tmp) (auto simp: b NewWriteBatch_batch WriteBatchAppend_batch seq1_def)
        then show ?thesis
          by (rule step) (use fits Cons.prems(2) batch_length [of "ops w" sb] b in auto)
      qed
    qed
  qed (intro stop; simp)
qed

lemma group_max_size_le: "group_max_size n \<le> 1048576"
  by (simp add: group_max_size_def)

lemma BuildBatchGroup_spec:
  assumes "di_writers S = h # q" "distinct (h # q)" "\<forall>w \<in> set (h # q). batch_is ops S w" "di_tmp_batch S = NewWriteBatch"
    and "w_batch (di_writer S h) \<noteq> None" "length (ops h) < 2 ^ 31"
  shows "\<exists>seq tmp last_writer. BuildBatchGroup S = Some (batch_of seq (concat (map ops (group_upto last_writer (h # q)))), tmp, last_writer)
    \<and> last_writer \<in> set (h # q) \<and> length (concat (map ops (group_upto last_writer (h # q)))) < 2 ^ 31
    \<and> (\<not> tmp \<longrightarrow> concat (map ops (group_upto last_writer (h # q))) = ops h)"
proof -
  from assms(3,5) obtain seq0 where h: "w_batch (di_writer S h) = Some (batch_of seq0 (ops h))"
    by (auto simp: batch_is_def split: option.splits)
  have "\<forall>w \<in> set q. case w_batch (di_writer S w) of None \<Rightarrow> ops w = [] | Some b \<Rightarrow> \<exists>seq. b = batch_of seq (ops w)"
    using assms(3) by (simp add: batch_is_def)
  from batch_group_loop_spec [where seq = seq0 and first = "di_writer S h" and max_size = "group_max_size (length (batch_of seq0 (ops h)))"
      and tmp = False and lw = h, OF this batch_length [of "ops h" seq0]]
  obtain i seq tmp where i: "i \<le> length q"
    "batch_group_loop (di_writer S) (di_writer S h) (group_max_size (length (batch_of seq0 (ops h)))) NewWriteBatch q
        (length (batch_of seq0 (ops h))) (batch_of seq0 (ops h)) False h
      = Some (batch_of seq (ops h @ concat (map ops (take i q))), tmp, if i = 0 then h else q ! (i - 1))"
    "concat (map ops (take i q)) = [] \<or> length (ops h @ concat (map ops (take i q))) \<le> group_max_size (length (batch_of seq0 (ops h)))"
    "\<not> tmp \<longrightarrow> concat (map ops (take i q)) = []"
    by blast
  define lw where "lw = (if i = 0 then h else q ! (i - 1))"
  have lw: "lw = (h # q) ! i" by (cases i) (simp_all add: lw_def)
  have grp: "group_upto lw (h # q) = h # take i q"
    unfolding lw using i(1) assms(2) by (subst group_upto_take) simp_all
  have "BuildBatchGroup S = Some (batch_of seq (concat (map ops (group_upto lw (h # q)))), tmp, lw)"
    using i(2) assms(1,4) h by (simp add: BuildBatchGroup_def grp del: group_upto.simps) (simp add: lw_def)
  moreover have "lw \<in> set (h # q)" unfolding lw using i(1) by (intro nth_mem) simp
  moreover have "length (concat (map ops (group_upto lw (h # q)))) < 2 ^ 31"
  proof (cases "concat (map ops (take i q)) = []")
    case True
    have "concat (map ops (h # take i q)) = ops h" using True by (simp only: list.map concat.simps append_Nil2)
    then show ?thesis using assms(6) unfolding grp by (simp only:)
  next
    case False
    have "concat (map ops (h # take i q)) = ops h @ concat (map ops (take i q))" by simp
    moreover have "length (ops h @ concat (map ops (take i q))) \<le> 1048576"
      using i(3) False group_max_size_le order_trans by blast
    ultimately show ?thesis unfolding grp by simp
  qed
  moreover have "concat (map ops (group_upto lw (h # q))) = ops h" if "\<not> tmp"
    unfolding grp using i(4) that by (simp only: list.map concat.simps append_Nil2 simp_thms)
  ultimately show ?thesis by blast
qed

lemma Count_sext:
  assumes "length xs < 2 ^ 31"
  shows "(scast (Count (batch_of seq xs)) :: u64) = of_nat (length xs)"
proof -
  have "sint (of_nat (length xs) :: u32) = int (length xs)"
    using assms by (simp add: signed_of_nat signed_take_bit_int_eq_self)
  then show ?thesis by (simp add: scast_eq)
qed

section \<open>The invariant\<close>

text \<open>
  Groups of operations with the sequence number of their first: what has been applied, in order.
  Memtables hold stretches of it.
\<close>

fun groups_ok :: "nat \<Rightarrow> (nat \<times> batch_op list) list \<Rightarrow> nat \<Rightarrow> bool" where
  "groups_ok lo [] hi = (lo \<le> hi)"
| "groups_ok lo ((n, xs) # gs) hi = (lo \<le> n \<and> groups_ok (n + length xs) gs hi)"

definition group_entries :: "(nat \<times> batch_op list) list \<Rightarrow> mem_entry list" where
  "group_entries gs = rev (concat (map (\<lambda>(n, xs). op_entries n xs) gs))"

definition holds :: "MemTable \<Rightarrow> (nat \<times> batch_op list) list \<Rightarrow> bool" where
  "holds m gs \<longleftrightarrow> mem_history m (group_entries gs)"

text \<open>The operations of the calls that succeeded.\<close>

definition applied :: "(nat \<Rightarrow> batch_op list) \<Rightarrow> (nat \<times> Status) list \<Rightarrow> batch_op list" where
  "applied ops D = concat (map (\<lambda>(w, s). if s = OK then ops w else []) D)"

definition op_total :: "(nat \<Rightarrow> batch_op list) \<Rightarrow> nat list \<Rightarrow> nat" where
  "op_total ops ws = (\<Sum>w \<leftarrow> ws. length (ops w))"

text \<open>
  \<open>arr\<close> are the calls in the order in which they queued up, and \<open>D\<close> those that have left the queue, with their
  results.
\<close>

definition roster_ok :: "'f DBImpl \<Rightarrow> nat list \<Rightarrow> (nat \<times> Status) list \<Rightarrow> bool" where
  "roster_ok S arr D \<longleftrightarrow> distinct arr \<and> (\<forall>w. w \<in> set arr \<longleftrightarrow> di_phase S w \<noteq> NotCalled \<or> w \<in> set (di_writers S))
     \<and> arr = map fst D @ di_writers S"

definition finished_ok :: "'f DBImpl \<Rightarrow> (nat \<times> Status) list \<Rightarrow> bool" where
  "finished_ok S D \<longleftrightarrow> (\<forall>(w, s) \<in> set D. di_phase S w = Returned s
     \<or> di_phase S w = Waiting True \<and> w_done (di_writer S w) \<and> w_status (di_writer S w) = s)"

definition queued_ok :: "'f DBImpl \<Rightarrow> bool" where
  "queued_ok S \<longleftrightarrow> (\<forall>w \<in> set (di_writers S). \<not> w_done (di_writer S w))
     \<and> (\<forall>w \<in> set (tl (di_writers S)). di_phase S w = Waiting False)"

definition calls_ok :: "(nat \<Rightarrow> batch_op list) \<Rightarrow> 'f DBImpl \<Rightarrow> nat list \<Rightarrow> bool" where
  "calls_ok ops S arr \<longleftrightarrow> (\<forall>w \<in> set arr. batch_is ops S w \<and> length (ops w) < 2 ^ 31 \<and> (\<forall>op \<in> set (ops w). op_ok op))"

definition data_ok :: "(nat \<Rightarrow> batch_op list) \<Rightarrow> nat \<Rightarrow> nat \<Rightarrow> 'f DBImpl \<Rightarrow> (nat \<times> Status) list \<Rightarrow> (nat \<times> batch_op list) list \<Rightarrow> nat \<Rightarrow> bool" where
  "data_ok ops n0 fl S D G k \<longleftrightarrow> concat (map snd G) = applied ops D \<and> groups_ok (Suc n0) G (Suc (unat (di_last_sequence S))) \<and> k \<le> length G
     \<and> (case di_imm S of None \<Rightarrow> fl = k | Some m \<Rightarrow> fl \<le> k \<and> holds m (drop fl (take k G))) \<and> di_prev_log_number S = 0
     \<and> lw_block_offset (di_log S) \<le> kBlockSize"

definition room_ok :: "(nat \<Rightarrow> batch_op list) \<Rightarrow> nat \<Rightarrow> 'f DBImpl \<Rightarrow> nat list \<Rightarrow> nat list \<Rightarrow> bool" where
  "room_ok ops n0 S arr q \<longleftrightarrow> unat (di_last_sequence S) + op_total ops q \<le> n0 + op_total ops arr \<and> n0 + op_total ops arr < 2 ^ 56"

definition idle :: "'f DBImpl \<Rightarrow> (nat \<times> batch_op list) list \<Rightarrow> nat \<Rightarrow> bool" where
  "idle S G k \<longleftrightarrow> di_tmp_batch S = NewWriteBatch \<and> holds (di_mem S) (drop k G)"

definition group_ops :: "(nat \<Rightarrow> batch_op list) \<Rightarrow> nat \<Rightarrow> 'f DBImpl \<Rightarrow> batch_op list" where
  "group_ops ops l S = concat (map ops (group_upto l (di_writers S)))"

text \<open>The group that the thread \<open>h\<close> is writing.\<close>

definition flight_ok :: "(nat \<Rightarrow> batch_op list) \<Rightarrow> 'f DBImpl \<Rightarrow> nat \<Rightarrow> bool \<Rightarrow> nat \<Rightarrow> u64 \<Rightarrow> bool" where
  "flight_ok ops S h tmp l lseq \<longleftrightarrow> l \<in> set (di_writers S)
     \<and> write_batch h tmp S = Some (batch_of (di_last_sequence S + 1) (group_ops ops l S))
     \<and> unat lseq = unat (di_last_sequence S) + length (group_ops ops l S)
     \<and> (tmp \<or> di_tmp_batch S = NewWriteBatch)"

definition head_ok :: "(nat \<Rightarrow> batch_op list) \<Rightarrow> 'f DBImpl \<Rightarrow> (nat \<times> batch_op list) list \<Rightarrow> nat \<Rightarrow> nat \<Rightarrow> bool" where
  "head_ok ops S G k h \<longleftrightarrow>
     (case di_phase S h of
        Waiting b \<Rightarrow> b \<and> idle S G k
      | Sleeping _ \<Rightarrow> idle S G k
      | RoomWait _ _ \<Rightarrow> idle S G k \<and> (di_imm S \<noteq> None \<or> kL0_StopWritesTrigger \<le> di_level0_files S)
      | RoomReady _ _ \<Rightarrow> idle S G k
      | Logging tmp l lseq \<Rightarrow> flight_ok ops S h tmp l lseq \<and> holds (di_mem S) (drop k G)
      | Logged tmp l lseq _ \<Rightarrow> flight_ok ops S h tmp l lseq \<and> holds (di_mem S) (drop k G)
      | Synced tmp l lseq _ _ \<Rightarrow> flight_ok ops S h tmp l lseq \<and> holds (di_mem S) (drop k G)
      | Inserted tmp l lseq st _ \<Rightarrow> flight_ok ops S h tmp l lseq
          \<and> holds (di_mem S) (drop k G @ (if st = OK then [(Suc (unat (di_last_sequence S)), group_ops ops l S)] else []))
      | _ \<Rightarrow> False)"

definition base_ok ::
    "(nat \<Rightarrow> batch_op list) \<Rightarrow> nat \<Rightarrow> nat \<Rightarrow> 'f DBImpl \<Rightarrow> nat list \<Rightarrow> (nat \<times> Status) list \<Rightarrow> (nat \<times> batch_op list) list \<Rightarrow> nat \<Rightarrow> bool" where
  "base_ok ops n0 fl S arr D G k \<longleftrightarrow> roster_ok S arr D \<and> finished_ok S D \<and> queued_ok S \<and> calls_ok ops S arr
     \<and> data_ok ops n0 fl S D G k \<and> room_ok ops n0 S arr (di_writers S)"

definition write_inv ::
    "(nat \<Rightarrow> batch_op list) \<Rightarrow> nat \<Rightarrow> nat \<Rightarrow> 'f DBImpl \<Rightarrow> nat list \<Rightarrow> (nat \<times> Status) list \<Rightarrow> (nat \<times> batch_op list) list \<Rightarrow> nat \<Rightarrow> bool" where
  "write_inv ops n0 fl S arr D G k \<longleftrightarrow> base_ok ops n0 fl S arr D G k
     \<and> (case di_writers S of [] \<Rightarrow> idle S G k | h # _ \<Rightarrow> head_ok ops S G k h)"

lemmas base_parts = roster_ok_def finished_ok_def queued_ok_def calls_ok_def data_ok_def room_ok_def

lemma groups_ok_mono: "groups_ok lo gs hi \<Longrightarrow> hi \<le> hi' \<Longrightarrow> groups_ok lo gs hi'"
  by (induction lo gs hi rule: groups_ok.induct) auto

lemma groups_ok_snoc: "groups_ok lo gs n \<Longrightarrow> groups_ok lo (gs @ [(n, xs)]) (n + length xs)"
  by (induction lo gs n rule: groups_ok.induct) auto

lemma applied_append: "applied ops (D @ D') = applied ops D @ applied ops D'"
  by (simp add: applied_def)

lemma applied_group: "applied ops (map (\<lambda>w. (w, s)) ws) = (if s = OK then concat (map ops ws) else [])"
  by (induction ws) (simp_all add: applied_def)

lemma op_total_append: "op_total ops (xs @ ys) = op_total ops xs + op_total ops ys"
  by (simp add: op_total_def)

lemma op_total_concat: "length (concat (map ops ws)) = op_total ops ws"
  by (simp add: op_total_def length_concat comp_def)

text \<open>The thread at the front is not in the list of the finished ones.\<close>

lemma roster_split:
  assumes "roster_ok S arr D"
  shows "w \<in> set (di_writers S) \<Longrightarrow> w \<notin> fst ` set D" "distinct (di_writers S)" "w \<in> set (di_writers S) \<Longrightarrow> w \<in> set arr"
proof -
  have d: "distinct (map fst D @ di_writers S)" and a: "arr = map fst D @ di_writers S" using assms unfolding roster_ok_def by blast+
  have "fst ` set D \<inter> set (di_writers S) = {}" using d by simp
  then show "w \<in> set (di_writers S) \<Longrightarrow> w \<notin> fst ` set D" by blast
  show "distinct (di_writers S)" using d by simp
  show "w \<in> set (di_writers S) \<Longrightarrow> w \<in> set arr" unfolding a by simp
qed

lemma roster_called: "roster_ok S arr D \<Longrightarrow> w \<in> set arr \<longleftrightarrow> di_phase S w \<noteq> NotCalled \<or> w \<in> set (di_writers S)"
  unfolding roster_ok_def by blast

lemma base_set_phase:
  assumes "base_ok ops n0 fl S arr D G k" "di_writers S = h # q"
  shows "base_ok ops n0 fl (set_phase h p S) arr D G k"
proof -
  have b: "roster_ok S arr D" "finished_ok S D" "queued_ok S" "calls_ok ops S arr" "data_ok ops n0 fl S D G k" "room_ok ops n0 S arr (di_writers S)"
    using assms(1) unfolding base_ok_def by blast+
  have nd: "h \<notin> fst ` set D" "h \<notin> set q" using roster_split(1) [OF b(1), of h] roster_split(2) [OF b(1)] assms(2) by auto
  have ph: "di_phase (set_phase h p S) w = di_phase S w" if "w \<noteq> h" for w using that by (simp add: set_phase_def)
  have f: "di_writers (set_phase h p S) = di_writers S" "di_writer (set_phase h p S) = di_writer S" by (simp_all add: set_phase_def)
  have "w \<in> set arr \<longleftrightarrow> di_phase (set_phase h p S) w \<noteq> NotCalled \<or> w \<in> set (di_writers S)" for w
    using roster_called [OF b(1), of w] ph [of w] assms(2) by (cases "w = h") simp_all
  then have "roster_ok (set_phase h p S) arr D" using b(1) unfolding roster_ok_def f by blast
  moreover have "finished_ok (set_phase h p S) D"
  proof -
    have "w \<noteq> h" if "(w, s) \<in> set D" for w s using that nd(1) by force
    then show ?thesis using b(2) ph unfolding finished_ok_def f by auto
  qed
  moreover have "queued_ok (set_phase h p S)"
  proof -
    have "w \<noteq> h" if "w \<in> set q" for w using that nd(2) by auto
    then show ?thesis using b(3) ph assms(2) unfolding queued_ok_def f by auto
  qed
  moreover have "calls_ok ops (set_phase h p S) arr" using b(4) unfolding calls_ok_def batch_is_def f .
  ultimately show ?thesis using b(5,6) by (simp add: base_ok_def data_ok_def room_ok_def set_phase_def)
qed

section \<open>Leaving the queue keeps it\<close>

lemma wake_head_fields:
  "di_writers (wake_head S) = di_writers S" "di_writer (wake_head S) = di_writer S" "di_tmp_batch (wake_head S) = di_tmp_batch S"
  "di_mem (wake_head S) = di_mem S" "di_imm (wake_head S) = di_imm S" "di_log (wake_head S) = di_log S"
  "di_last_sequence (wake_head S) = di_last_sequence S" "di_prev_log_number (wake_head S) = di_prev_log_number S"
  "di_level0_files (wake_head S) = di_level0_files S"
  "di_phase (wake_head S) = (case di_writers S of [] \<Rightarrow> di_phase S | h # _ \<Rightarrow> (di_phase S)(h := signalled (di_phase S h)))"
  by (cases "di_writers S"; simp add: wake_head_def SignalWriter_def set_phase_def)+

lemma leave_queue_inv:
  assumes "roster_ok S arr D" "finished_ok S D" "queued_ok S" "calls_ok ops S arr" "di_writers S = h # q" "l \<in> set (h # q)"
    and grp: "grp = group_upto l (h # q)" and D': "D' = D @ map (\<lambda>w. (w, status)) grp"
    and data: "data_ok ops n0 fl S D' G k" and room: "room_ok ops n0 S arr (drop (length grp) (h # q))" and idle: "idle S G k"
  shows "\<exists>S'. leave_queue h l status S = Some S' \<and> write_inv ops n0 fl S' arr D' G k"
proof -
  define rest where "rest = drop (length grp) (h # q)"
  define S1 where "S1 = popped_state h grp status rest S"
  define S2 where "S2 = set_phase h (Returned status) (wake_head S1)"
  have leave: "leave_queue h l status S = Some S2"
    using leave_queue_closed [of l S h status] assms(5,6) by (simp add: S2_def S1_def rest_def grp)
  have split: "h # q = grp @ rest"
    unfolding rest_def using group_upto_prefix [of l "h # q"] append_take_drop_id [of "length grp" "h # q"] grp by metis
  have hg: "h \<in> set grp" using group_upto_nonempty [of "h # q" l] grp by simp
  have dist: "distinct (grp @ rest)" using roster_split(2) [OF assms(1)] assms(5) split by metis
  have nd: "w \<notin> fst ` set D" if "w \<in> set grp \<or> w \<in> set rest" for w
    using roster_split(1) [OF assms(1), of w] that assms(5) split by (metis Un_iff set_append)
  have tl_rest: "set rest \<subseteq> set q" using split hg dist by (cases grp) auto
  have waiting: "di_phase S w = Waiting False" if "w \<in> set q" for w using assms(3,5) that by (simp add: queued_ok_def)
  have writers: "di_writers S2 = rest" by (simp add: S2_def S1_def set_phase_def wake_head_fields popped_state_def)
  have writer: "di_writer S2 = (\<lambda>x. if x \<in> set grp \<and> x \<noteq> h then (di_writer S x)\<lparr>w_status := status, w_done := True\<rparr> else di_writer S x)"
    by (simp add: S2_def S1_def set_phase_def wake_head_fields popped_state_def)
  have grp_q: "w \<in> set q" if "w \<in> set grp" "w \<noteq> h" for w using that split by (metis Un_iff set_append set_ConsD)
  have ph_h: "di_phase S2 h = Returned status" by (simp add: S2_def set_phase_def)
  have ph_grp: "di_phase S2 w = Waiting True" if "w \<in> set grp" "w \<noteq> h" for w
  proof -
    have "w \<notin> set rest" using that dist by auto
    then show ?thesis using that waiting [OF grp_q [OF that]]
      by (auto simp: S2_def S1_def set_phase_def wake_head_fields popped_state_def split: list.split)
  qed
  have ph_rest: "di_phase S2 w = (if w = hd rest then Waiting True else Waiting False)" if "w \<in> set rest" for w
  proof -
    have "w \<notin> set grp" "w \<noteq> h" using that dist hg by auto
    moreover have "di_phase S w = Waiting False" using waiting tl_rest that by auto
    ultimately show ?thesis using that
      by (cases rest) (auto simp: S2_def S1_def set_phase_def wake_head_fields popped_state_def)
  qed
  have ph_other: "di_phase S2 w = di_phase S w" if "w \<notin> set grp" "w \<notin> set rest" for w
    using that hg by (cases rest) (auto simp: S2_def S1_def set_phase_def wake_head_fields popped_state_def)
  have "roster_ok S2 arr D'"
  proof -
    have arr: "arr = map fst D' @ rest" using assms(1,5) split by (simp add: roster_ok_def D' comp_def)
    have "w \<in> set arr \<longleftrightarrow> di_phase S2 w \<noteq> NotCalled \<or> w \<in> set rest" for w
    proof (cases "w \<in> set grp \<or> w \<in> set rest")
      case True
      then have "w \<in> set arr" using roster_split(3) [OF assms(1), of w] assms(5) split by (metis Un_iff set_append)
      then show ?thesis using True ph_h ph_grp [of w] by (cases "w = h") auto
    next
      case False
      then have "w \<notin> set (di_writers S)" using assms(5) split by (metis Un_iff set_append)
      then show ?thesis using roster_called [OF assms(1), of w] False ph_other [of w] by simp
    qed
    moreover have "distinct arr" using assms(1) unfolding roster_ok_def by blast
    ultimately show ?thesis using arr unfolding roster_ok_def writers by blast
  qed
  moreover have "finished_ok S2 D'"
  proof -
    have "di_phase S2 w = Returned s \<or> di_phase S2 w = Waiting True \<and> w_done (di_writer S2 w) \<and> w_status (di_writer S2 w) = s"
      if "(w, s) \<in> set D'" for w s
    proof (cases "(w, s) \<in> set D")
      case True
      then have "w \<notin> set grp" "w \<notin> set rest" using nd [of w] by force+
      then show ?thesis using True assms(2) ph_other [of w] by (auto simp: finished_ok_def writer)
    next
      case False
      then have "w \<in> set grp" "s = status" using that by (auto simp: D')
      then show ?thesis using ph_h ph_grp [of w] by (cases "w = h") (simp_all add: writer)
    qed
    then show ?thesis by (auto simp: finished_ok_def)
  qed
  moreover have "queued_ok S2"
  proof -
    have "\<not> w_done (di_writer S2 w)" if "w \<in> set rest" for w
    proof -
      have "w \<notin> set grp" "w \<in> set (di_writers S)" using that dist tl_rest assms(5) by auto
      then show ?thesis using assms(3) by (simp add: queued_ok_def writer)
    qed
    moreover have "di_phase S2 w = Waiting False" if "w \<in> set (tl rest)" for w
    proof -
      have "w \<in> set rest" "w \<noteq> hd rest" using that dist by (cases rest; auto)+
      then show ?thesis using ph_rest by simp
    qed
    ultimately show ?thesis by (simp add: queued_ok_def writers)
  qed
  moreover have "calls_ok ops S2 arr" using assms(4) by (simp add: calls_ok_def batch_is_def writer)
  moreover have fields: "di_last_sequence S2 = di_last_sequence S" "di_imm S2 = di_imm S" "di_prev_log_number S2 = di_prev_log_number S"
    "di_log S2 = di_log S" "di_mem S2 = di_mem S" "di_tmp_batch S2 = di_tmp_batch S"
    by (simp_all add: S2_def S1_def set_phase_def wake_head_fields popped_state_def)
  moreover have "case di_writers S2 of [] \<Rightarrow> idle S2 G k | h # _ \<Rightarrow> head_ok ops S2 G k h"
    using idle ph_rest fields writers by (cases rest) (simp_all add: idle_def head_ok_def)
  ultimately have "write_inv ops n0 fl S2 arr D' G k"
    using data room writers unfolding write_inv_def base_ok_def by (simp add: data_ok_def room_ok_def rest_def)
  then show ?thesis using leave by blast
qed

end
