(* ===== verification/Db_Write_Safe.thy ===== *)
theory Db_Write_Safe
  imports Db_Write_Inv
begin

text \<open>
  Every step of the write path keeps the invariant and no assertion fails; what that means for the
  calls and for the memtables.
\<close>

section \<open>Making room\<close>

definition same_queue :: "'f DBImpl \<Rightarrow> 'f DBImpl \<Rightarrow> bool" where
  "same_queue S S' \<longleftrightarrow> di_writers S' = di_writers S \<and> di_writer S' = di_writer S \<and> di_phase S' = di_phase S
     \<and> di_last_sequence S' = di_last_sequence S"

lemma same_queue_trans: "same_queue S S' \<Longrightarrow> same_queue S' S'' \<Longrightarrow> same_queue S S''"
  by (simp add: same_queue_def)

lemma base_same_queue:
  assumes "base_ok ops n0 fl S arr D G k" "same_queue S S'" "data_ok ops n0 fl S' D G k'"
  shows "base_ok ops n0 fl S' arr D G k'"
proof -
  have f: "di_writers S' = di_writers S" "di_writer S' = di_writer S" "di_phase S' = di_phase S" "di_last_sequence S' = di_last_sequence S"
    using assms(2) by (simp_all add: same_queue_def)
  show ?thesis
    using assms(1,3) unfolding base_ok_def roster_ok_def finished_ok_def queued_ok_def calls_ok_def room_ok_def batch_is_def f by blast
qed

lemma data_okI:
  assumes "data_ok ops n0 fl S D G k" "di_last_sequence S' = di_last_sequence S" "di_imm S' = di_imm S"
    "di_prev_log_number S' = di_prev_log_number S" "di_log S' = di_log S"
  shows "data_ok ops n0 fl S' D G k"
  using assms by (simp add: data_ok_def)

definition blocked_reason :: "room \<Rightarrow> 'f DBImpl \<Rightarrow> bool" where
  "blocked_reason r S \<longleftrightarrow> (\<forall>force delay. r = RoomBlocked force delay \<longrightarrow> di_imm S \<noteq> None \<or> kL0_StopWritesTrigger \<le> di_level0_files S)"

lemma holds_new: "holds (MemTableRef NewMemTable) []"
  unfolding holds_def group_entries_def using mem_history.referenced [OF mem_history.created] by simp

lemma switch_data:
  assumes "data_ok ops n0 fl S D G k" "idle S G k" "di_imm S = None"
  shows "data_ok ops n0 fl (SwitchMemTable n lfile env (S\<lparr>di_next_file_number := m\<rparr>)) D G (length G)"
    "idle (SwitchMemTable n lfile env (S\<lparr>di_next_file_number := m\<rparr>)) G (length G)"
proof -
  define S1 where "S1 = SwitchMemTable n lfile env (S\<lparr>di_next_file_number := m\<rparr>)"
  have f: "di_last_sequence S1 = di_last_sequence S" "di_imm S1 = Some (di_mem S)" "di_prev_log_number S1 = di_prev_log_number S"
    "lw_block_offset (di_log S1) = 0" "di_mem S1 = MemTableRef NewMemTable" "di_tmp_batch S1 = di_tmp_batch S"
    by (simp_all add: S1_def SwitchMemTable_def MaybeScheduleCompaction_def NewLogWriter_def)
  have "fl \<le> length G" "holds (di_mem S) (drop fl G)" using assms by (simp_all add: idle_def data_ok_def)
  then show "data_ok ops n0 fl (SwitchMemTable n lfile env (S\<lparr>di_next_file_number := m\<rparr>)) D G (length G)"
    using assms(1) unfolding S1_def [symmetric] by (simp add: data_ok_def f)
  show "idle (SwitchMemTable n lfile env (S\<lparr>di_next_file_number := m\<rparr>)) G (length G)"
    using assms(2) holds_new unfolding S1_def [symmetric] by (simp add: idle_def f)
qed

lemma make_room_inv:
  assumes "data_ok ops n0 fl S D G k" "idle S G k"
  shows "\<exists>r S' k'. make_room_loop env force delay S = Some (r, S') \<and> same_queue S S' \<and> data_ok ops n0 fl S' D G k'
    \<and> idle S' G k' \<and> blocked_reason r S'"
  using assms
proof (induction env force delay S arbitrary: k rule: make_room_loop.induct)
  case (1 env force delay S)
  have stop: ?case if "make_room_loop env force delay S = Some (r, S)" "blocked_reason r S" for r
    using that 1(2,3) by (intro exI [of _ r] exI [of _ S] exI [of _ k]) (simp add: same_queue_def)
  consider (error) "di_bg_error S \<noteq> OK"
    | (delay) "di_bg_error S = OK" "delay" "kL0_SlowdownWritesTrigger \<le> di_level0_files S"
    | (fits) "di_bg_error S = OK" "\<not> (delay \<and> kL0_SlowdownWritesTrigger \<le> di_level0_files S)" "\<not> force \<and> we_usage env (di_mem S) \<le> we_write_buffer_size env"
    | (blocked) "di_bg_error S = OK" "\<not> (delay \<and> kL0_SlowdownWritesTrigger \<le> di_level0_files S)"
        "\<not> (\<not> force \<and> we_usage env (di_mem S) \<le> we_write_buffer_size env)" "di_imm S \<noteq> None \<or> kL0_StopWritesTrigger \<le> di_level0_files S"
    | (switch) "di_bg_error S = OK" "\<not> (delay \<and> kL0_SlowdownWritesTrigger \<le> di_level0_files S)"
        "\<not> (\<not> force \<and> we_usage env (di_mem S) \<le> we_write_buffer_size env)" "di_imm S = None" "\<not> kL0_StopWritesTrigger \<le> di_level0_files S"
    by blast
  then show ?case
  proof cases
    case error
    then show ?thesis by (intro stop [of "RoomDone (di_bg_error S)"]) (simp_all add: make_room_loop.simps [of env force delay S] blocked_reason_def)
  next
    case delay
    then have "make_room_loop env force delay S = Some (RoomDelay force, S)"
      unfolding make_room_loop.simps [of env force delay S] by auto
    then show ?thesis by (intro stop [of "RoomDelay force"]) (simp_all add: blocked_reason_def)
  next
    case fits
    then have "make_room_loop env force delay S = Some (RoomDone OK, S)"
      unfolding make_room_loop.simps [of env force delay S] by auto
    then show ?thesis by (intro stop [of "RoomDone OK"]) (simp_all add: blocked_reason_def)
  next
    case blocked
    then have "make_room_loop env force delay S = Some (RoomBlocked force delay, S)"
      unfolding make_room_loop.simps [of env force delay S] by auto
    then show ?thesis using blocked(4) by (intro stop [of "RoomBlocked force delay"]) (simp_all add: blocked_reason_def)
  next
    case switch
    define n where "n = di_next_file_number S"
    define S1 where "S1 = S\<lparr>di_next_file_number := n + 1\<rparr>"
    obtain s lfile where new: "we_new_file env n = (s, lfile)" by (cases "we_new_file env n")
    have prev: "di_prev_log_number S = 0" using 1(2) by (simp add: data_ok_def)
    have num: "NewFileNumber S = (n, S1)" by (simp add: NewFileNumber_def n_def S1_def)
    have unfold: "make_room_loop env force delay S
        = (if s \<noteq> OK then Some (RoomDone s, ReuseFileNumber n S1) else make_room_loop env False delay (SwitchMemTable n lfile env S1))"
      using switch prev num new unfolding make_room_loop.simps [of env force delay S] by auto
    show ?thesis
    proof (cases "s = OK")
      case False
      define S2 where "S2 = ReuseFileNumber n S1"
      have f: "di_last_sequence S2 = di_last_sequence S" "di_imm S2 = di_imm S" "di_prev_log_number S2 = di_prev_log_number S"
        "di_log S2 = di_log S" "di_mem S2 = di_mem S" "di_tmp_batch S2 = di_tmp_batch S" "same_queue S S2"
        by (simp_all add: S2_def ReuseFileNumber_def S1_def same_queue_def)
      have "data_ok ops n0 fl S2 D G k" by (rule data_okI [OF 1(2) f(1-4)])
      then show ?thesis using False unfold f 1(3)
        by (intro exI [of _ "RoomDone s"] exI [of _ S2] exI [of _ k]) (simp add: S2_def [symmetric] idle_def blocked_reason_def)
    next
      case True
      define S2 where "S2 = SwitchMemTable n lfile env S1"
      have q: "same_queue S S2" by (simp add: S2_def S1_def SwitchMemTable_def MaybeScheduleCompaction_def same_queue_def)
      have d: "data_ok ops n0 fl S2 D G (length G)" "idle S2 G (length G)"
        unfolding S2_def S1_def by (rule switch_data [OF 1(2,3) switch(4)])+
      have "\<exists>r S' k'. make_room_loop env False delay S2 = Some (r, S') \<and> same_queue S2 S' \<and> data_ok ops n0 fl S' D G k'
          \<and> idle S' G k' \<and> blocked_reason r S'"
        unfolding S2_def
      proof (rule 1(1))
        show "data_ok ops n0 fl (SwitchMemTable n lfile env S1) D G (length G)" "idle (SwitchMemTable n lfile env S1) G (length G)"
          using d unfolding S2_def by blast+
      qed (use switch prev num new True in \<open>simp_all add: kL0_StopWritesTrigger_def kL0_SlowdownWritesTrigger_def\<close>)
      then show ?thesis using unfold True same_queue_trans [OF q] unfolding S2_def by auto
    qed
  qed
qed

section \<open>The thread at the front\<close>

lemma head_group: "group_upto h (h # q) = [h]"
  by simp

lemma op_total_take_le: "op_total ops (take n q) \<le> op_total ops q"
  unfolding op_total_def by (metis append_take_drop_id le_add1 map_append sum_list_append)

lemma flight_room:
  assumes "room_ok ops n0 S arr (di_writers S)"
  shows "unat (di_last_sequence S) + length (group_ops ops l S) < 2 ^ 56"
proof -
  have "length (group_ops ops l S) \<le> op_total ops (di_writers S)"
    unfolding group_ops_def op_total_concat by (subst group_upto_prefix) (rule op_total_take_le)
  then show ?thesis using assms by (simp add: room_ok_def)
qed

lemma start_group_inv:
  assumes "base_ok ops n0 fl S arr D G k" "idle S G k" "di_writers S = h # q"
  shows "\<exists>S' D'. start_group h status S = Some S' \<and> write_inv ops n0 fl S' arr D' G k"
proof -
  have b: "roster_ok S arr D" "finished_ok S D" "queued_ok S" "calls_ok ops S arr" "data_ok ops n0 fl S D G k" "room_ok ops n0 S arr (di_writers S)"
    using assms(1) unfolding base_ok_def by blast+
  have calls: "batch_is ops S w" "length (ops w) < 2 ^ 31" if "w \<in> set (h # q)" for w
    using that b(4) roster_split(3) [OF b(1), of w] assms(3) by (simp_all add: calls_ok_def)
  show ?thesis
  proof (cases "status = OK \<and> w_batch (di_writer S h) \<noteq> None")
    case True
    have "distinct (h # q)" using roster_split(2) [OF b(1)] assms(3) by simp
    moreover have "\<forall>w \<in> set (h # q). batch_is ops S w" "length (ops h) < 2 ^ 31" using calls by simp_all
    moreover have "di_tmp_batch S = NewWriteBatch" using assms(2) by (simp add: idle_def)
    ultimately obtain seq tmp l where
      g: "BuildBatchGroup S = Some (batch_of seq (concat (map ops (group_upto l (h # q)))), tmp, l)" "l \<in> set (h # q)"
        "length (concat (map ops (group_upto l (h # q)))) < 2 ^ 31" "\<not> tmp \<longrightarrow> concat (map ops (group_upto l (h # q))) = ops h"
      using BuildBatchGroup_spec [OF assms(3), of ops] True by blast
    define xs where "xs = group_ops ops l S"
    have xs: "concat (map ops (group_upto l (h # q))) = xs" by (simp add: xs_def group_ops_def assms(3))
    define lseq where "lseq = di_last_sequence S + of_nat (length xs)"
    define S1 where "S1 = set_write_batch h tmp (batch_of (di_last_sequence S + 1) xs) S"
    define S2 where "S2 = set_phase h (Logging tmp l lseq) S1"
    have "(scast (of_nat (length xs) :: u32) :: u64) = of_nat (length xs)" using Count_sext [of xs 0] g(3) [unfolded xs] by simp
    then have start: "start_group h status S = Some S2"
      using True g(1) unfolding xs by (simp add: start_group_def SetSequence_batch S2_def S1_def lseq_def)
    have small: "unat (di_last_sequence S) + length xs < 2 ^ 56" unfolding xs_def by (rule flight_room [OF b(6)])
    have un: "unat (of_nat (length xs) :: u64) = length xs" using small by (intro unat_of_nat_small) simp
    have unl: "unat lseq = unat (di_last_sequence S) + length xs"
      unfolding lseq_def using small un by (subst unat_add_lem [THEN iffD1]) simp_all
    have f: "di_writers S1 = di_writers S" "di_phase S1 = di_phase S" "di_last_sequence S1 = di_last_sequence S" "di_mem S1 = di_mem S"
      "di_imm S1 = di_imm S" "di_prev_log_number S1 = di_prev_log_number S" "di_log S1 = di_log S"
      by (simp_all add: S1_def set_write_batch_def)
    have wf: "w_done (di_writer S1 w) = w_done (di_writer S w)" "w_status (di_writer S1 w) = w_status (di_writer S w)" for w
      by (simp_all add: S1_def set_write_batch_def)
    have batches: "batch_is ops S1 w" if "w \<in> set arr" for w
    proof (cases "\<not> tmp \<and> w = h")
      case True
      then show ?thesis using g(4) unfolding xs by (auto simp: S1_def set_write_batch_def batch_is_def)
    next
      case False
      then have "batch_is ops S1 w \<longleftrightarrow> batch_is ops S w" by (auto simp: S1_def set_write_batch_def batch_is_def)
      then show ?thesis using b(4) that by (simp add: calls_ok_def)
    qed
    have "base_ok ops n0 fl S1 arr D G k"
      unfolding base_ok_def
    proof (intro conjI)
      show "roster_ok S1 arr D" using b(1) unfolding roster_ok_def f .
      show "finished_ok S1 D" using b(2) unfolding finished_ok_def f wf .
      show "queued_ok S1" using b(3) unfolding queued_ok_def f wf .
      show "calls_ok ops S1 arr" using b(4) batches by (simp add: calls_ok_def)
      show "data_ok ops n0 fl S1 D G k" by (rule data_okI [OF b(5) f(3,5,6,7)])
      show "room_ok ops n0 S1 arr (di_writers S1)" using b(6) by (simp add: room_ok_def f)
    qed
    then have "base_ok ops n0 fl S2 arr D G k" unfolding S2_def using assms(3) by (intro base_set_phase [of _ _ _ _ _ _ _ _ h q]) (simp_all add: f)
    moreover have "flight_ok ops S2 h tmp l lseq"
    proof -
      have "group_ops ops l S2 = xs" by (simp add: xs_def group_ops_def S2_def set_phase_def f)
      moreover have "di_writers S2 = h # q" "di_last_sequence S2 = di_last_sequence S" by (simp_all add: S2_def set_phase_def f assms(3))
      moreover have "write_batch h tmp S2 = Some (batch_of (di_last_sequence S + 1) xs)"
        by (simp add: write_batch_def S2_def S1_def set_write_batch_def set_phase_def)
      moreover have "tmp \<or> di_tmp_batch S2 = NewWriteBatch"
        using assms(2) by (simp add: S2_def S1_def set_write_batch_def set_phase_def idle_def)
      ultimately show ?thesis using g(2) unl by (simp only: flight_ok_def simp_thms)
    qed
    moreover have "holds (di_mem S2) (drop k G)" "di_phase S2 h = Logging tmp l lseq" "di_writers S2 = h # q"
      using assms(2,3) by (simp_all add: S2_def set_phase_def f idle_def)
    ultimately have "write_inv ops n0 fl S2 arr D G k" by (simp add: write_inv_def head_ok_def)
    then show ?thesis using start by blast
  next
    case False
    have grp: "[h] = group_upto h (h # q)" by simp
    have "status = OK \<longrightarrow> ops h = []" using False calls(1) [of h] by (auto simp: batch_is_def split: option.splits)
    then have same: "applied ops (D @ map (\<lambda>w. (w, status)) [h]) = applied ops D" unfolding applied_append by (simp add: applied_def)
    have data: "data_ok ops n0 fl S (D @ map (\<lambda>w. (w, status)) [h]) G k" using b(5) unfolding data_ok_def same .
    have room: "room_ok ops n0 S arr (drop (length [h]) (h # q))" using b(6) assms(3) by (simp add: room_ok_def op_total_def)
    have "h \<in> set (h # q)" by simp
    from leave_queue_inv [OF b(1-4) assms(3) this grp refl data room assms(2)] False show ?thesis
      by (auto simp: start_group_def)
  qed
qed

lemma lead_inv:
  assumes "base_ok ops n0 fl S arr D G k" "idle S G k" "di_writers S = h # q"
  shows "\<exists>S' D' k'. lead env h force delay S = Some S' \<and> write_inv ops n0 fl S' arr D' G k'"
proof -
  have "data_ok ops n0 fl S D G k" using assms(1) by (simp add: base_ok_def)
  from make_room_inv [OF this assms(2), of env force delay] obtain r S1 k1 where
    r: "make_room_loop env force delay S = Some (r, S1)" "same_queue S S1" "data_ok ops n0 fl S1 D G k1" "idle S1 G k1" "blocked_reason r S1"
    by blast
  have base: "base_ok ops n0 fl S1 arr D G k1" by (rule base_same_queue [OF assms(1) r(2,3)])
  have q: "di_writers S1 = h # q" using r(2) assms(3) by (simp add: same_queue_def)
  show ?thesis
  proof (cases r)
    case (RoomDelay f)
    have "write_inv ops n0 fl (set_phase h (Sleeping f) S1) arr D G k1"
      using base_set_phase [OF base q] r(4) q by (simp add: write_inv_def head_ok_def set_phase_def idle_def)
    then show ?thesis using RoomDelay r(1) assms(3) by (auto simp: lead_def)
  next
    case (RoomBlocked f d)
    have "di_imm S1 \<noteq> None \<or> kL0_StopWritesTrigger \<le> di_level0_files S1" using r(5) RoomBlocked by (simp add: blocked_reason_def)
    then have "write_inv ops n0 fl (set_phase h (RoomWait f d) S1) arr D G k1"
      using base_set_phase [OF base q] r(4) q by (simp add: write_inv_def head_ok_def set_phase_def idle_def)
    then show ?thesis using RoomBlocked r(1) assms(3) by (auto simp: lead_def)
  next
    case (RoomDone status)
    from start_group_inv [OF base r(4) q, of status] show ?thesis using RoomDone r(1) assms(3) by (auto simp: lead_def)
  qed
qed

section \<open>The steps\<close>

lemma check_head:
  assumes "base_ok ops n0 fl S arr D G k" "idle S G k" "di_writers S = h # q"
  shows "\<exists>S' D' k'. check_turn env h S = Some S' \<and> write_inv ops n0 fl S' arr D' G k'"
proof -
  have "\<not> w_done (di_writer S h)" using assms(1,3) by (simp add: base_ok_def queued_ok_def)
  then have "check_turn env h S = lead env h (w_batch (di_writer S h) = None) (\<not> (w_batch (di_writer S h) = None)) S"
    using assms(3) by (simp add: check_turn_def MakeRoomForWrite_def)
  then show ?thesis using lead_inv [OF assms] by presburger
qed

lemma head_ok_cong:
  assumes "di_phase S' h = di_phase S h" "di_writers S' = di_writers S" "di_writer S' h = di_writer S h" "di_tmp_batch S' = di_tmp_batch S"
    "di_mem S' = di_mem S" "di_imm S' = di_imm S" "di_level0_files S' = di_level0_files S" "di_last_sequence S' = di_last_sequence S"
  shows "head_ok ops S' G k h = head_ok ops S G k h"
proof -
  have "idle S' G k = idle S G k" by (simp add: idle_def assms)
  moreover have "group_ops ops l S' = group_ops ops l S" for l by (simp add: group_ops_def assms)
  moreover from this have "flight_ok ops S' h tmp l lseq = flight_ok ops S h tmp l lseq" for tmp l lseq
    by (simp add: flight_ok_def write_batch_def assms)
  ultimately show ?thesis unfolding head_ok_def assms by (cases "di_phase S h") simp_all
qed

text \<open>A thread whose call has been settled returns.\<close>

lemma return_inv:
  assumes "write_inv ops n0 fl S arr D G k" "(w, s) \<in> set D"
  shows "write_inv ops n0 fl (set_phase w (Returned s) S) arr D G k"
proof -
  define S1 where "S1 = set_phase w (Returned s) S"
  have b: "roster_ok S arr D" "finished_ok S D" "queued_ok S" "calls_ok ops S arr" "data_ok ops n0 fl S D G k" "room_ok ops n0 S arr (di_writers S)"
    using assms(1) unfolding write_inv_def base_ok_def by blast+
  have w: "w \<in> fst ` set D" using assms(2) by force
  then have nw: "w \<notin> set (di_writers S)" using roster_split(1) [OF b(1)] by blast
  have arr: "w \<in> set arr" using b(1) w by (simp add: roster_ok_def)
  have "distinct (map fst D @ di_writers S)" using b(1) unfolding roster_ok_def by blast
  then have dist: "distinct (map fst D)" by simp
  have ph: "di_phase S1 x = (if x = w then Returned s else di_phase S x)" for x by (simp add: S1_def set_phase_def)
  have f: "di_writers S1 = di_writers S" "di_writer S1 = di_writer S" by (simp_all add: S1_def set_phase_def)
  have "x \<in> set arr \<longleftrightarrow> di_phase S1 x \<noteq> NotCalled \<or> x \<in> set (di_writers S)" for x
    using roster_called [OF b(1), of x] arr by (cases "x = w") (simp_all add: ph)
  then have "roster_ok S1 arr D" using b(1) unfolding roster_ok_def f by blast
  moreover have "finished_ok S1 D"
  proof -
    have same: "s' = s" if "(w, s') \<in> set D" for s' using eq_key_imp_eq_value [OF dist that assms(2)] .
    have "di_phase S1 a = Returned t \<or> di_phase S1 a = Waiting True \<and> w_done (di_writer S1 a) \<and> w_status (di_writer S1 a) = t"
      if "(a, t) \<in> set D" for a t
      using bspec [OF b(2) [unfolded finished_ok_def] that] same [of t] that by (cases "a = w") (auto simp: ph f)
    then show ?thesis by (auto simp: finished_ok_def)
  qed
  moreover have "queued_ok S1"
  proof -
    have "x \<noteq> w" if "x \<in> set (tl (di_writers S))" for x using that nw by (cases "di_writers S") auto
    then show ?thesis using b(3) unfolding queued_ok_def f ph by auto
  qed
  moreover have "calls_ok ops S1 arr" using b(4) unfolding calls_ok_def batch_is_def f .
  moreover have "head_ok ops S1 G k h = head_ok ops S G k h" if "di_writers S = h # q" for h q
  proof (rule head_ok_cong)
    have "h \<noteq> w" using nw that by auto
    then show "di_phase S1 h = di_phase S h" by (simp add: ph)
  qed (simp_all add: S1_def set_phase_def)
  moreover have "idle S1 G k = idle S G k" "data_ok ops n0 fl S1 D G k" "room_ok ops n0 S1 arr (di_writers S)"
    using b(5,6) by (simp_all add: S1_def set_phase_def idle_def data_ok_def room_ok_def)
  ultimately show ?thesis
    using assms(1) unfolding S1_def [symmetric] write_inv_def base_ok_def f by (auto split: list.splits)
qed

lemma inv_cases:
  assumes "write_inv ops n0 fl S arr D G k"
  obtains (finished) s where "(w, s) \<in> set D" "di_phase S w = Returned s \<or> di_phase S w = Waiting True \<and> w_done (di_writer S w) \<and> w_status (di_writer S w) = s"
  | (head) q where "di_writers S = w # q" "head_ok ops S G k w" "\<not> w_done (di_writer S w)"
  | (queued) h q where "di_writers S = h # q" "w \<in> set q" "w \<noteq> h" "di_phase S w = Waiting False" "\<not> w_done (di_writer S w)"
  | (new) "w \<notin> set arr" "di_phase S w = NotCalled" "w \<notin> set (di_writers S)"
proof -
  have b: "roster_ok S arr D" "finished_ok S D" "queued_ok S"
    using assms unfolding write_inv_def base_ok_def by blast+
  consider "w \<in> fst ` set D" | "w \<in> set (di_writers S)" | "w \<notin> set arr" using b(1) unfolding roster_ok_def by auto
  then show ?thesis
  proof cases
    case 1
    then obtain s where "(w, s) \<in> set D" by auto
    then show ?thesis using b(2) finished unfolding finished_ok_def by blast
  next
    case 2
    then obtain h q where q: "di_writers S = h # q" by (cases "di_writers S") auto
    have "\<not> w_done (di_writer S w)" using 2 b(3) by (simp add: queued_ok_def)
    moreover have "distinct (h # q)" using roster_split(2) [OF b(1)] q by simp
    moreover have "di_phase S w = Waiting False" if "w \<in> set q" using that b(3) q by (simp add: queued_ok_def)
    moreover have "head_ok ops S G k h" using assms q by (simp add: write_inv_def)
    ultimately show ?thesis using 2 q head queued by auto
  next
    case 3
    then show ?thesis using new roster_called [OF b(1), of w] by blast
  qed
qed

lemma check_turn_inv:
  assumes "write_inv ops n0 fl S arr D G k" "di_phase S w = Waiting b"
  shows "\<exists>S' D' k'. check_turn env w S = Some S' \<and> write_inv ops n0 fl S' arr D' G k'"
  using assms(1)
proof (cases rule: inv_cases [where w = w])
  case (finished s)
  then have "check_turn env w S = Some (set_phase w (Returned s) S)" using assms(2) by (auto simp: check_turn_def)
  then show ?thesis using return_inv [OF assms(1) finished(1)] by blast
next
  case (head q)
  then have "idle S G k" "base_ok ops n0 fl S arr D G k" using assms by (simp_all add: head_ok_def write_inv_def)
  then show ?thesis using check_head head(1) by blast
next
  case (queued h q)
  then have "check_turn env w S = Some (set_phase w (Waiting False) S)" by (simp add: check_turn_def)
  moreover have "set_phase w (Waiting False) S = S" using queued(4) by (simp add: set_phase_def fun_upd_idem)
  ultimately show ?thesis using assms(1) by auto
next
  case new
  then show ?thesis using assms(2) by simp
qed

text \<open>A phase that only the thread at the front can have.\<close>

lemma front_phase:
  assumes "write_inv ops n0 fl S arr D G k" "di_phase S w = p" "\<And>b. p \<noteq> Waiting b" "\<And>s. p \<noteq> Returned s" "p \<noteq> NotCalled"
  obtains q where "di_writers S = w # q" "head_ok ops S G k w" "base_ok ops n0 fl S arr D G k"
proof -
  have base: "base_ok ops n0 fl S arr D G k" using assms(1) by (simp add: write_inv_def)
  show ?thesis using assms(1)
  proof (cases rule: inv_cases [where w = w])
    case (finished s)
    then show ?thesis using assms(2-4) by blast
  next
    case (head q)
    then show ?thesis using that base by blast
  next
    case (queued h q)
    then show ?thesis using assms(2,3) by blast
  next
    case new
    then show ?thesis using assms(2,5) by blast
  qed
qed

lemma lead_step_inv:
  assumes "write_inv ops n0 fl S arr D G k" "di_phase S w = Sleeping f \<or> di_phase S w = RoomReady f d"
  shows "\<exists>S' D' k'. lead env w force delay S = Some S' \<and> write_inv ops n0 fl S' arr D' G k'"
proof -
  obtain q where q: "di_writers S = w # q" "head_ok ops S G k w" "base_ok ops n0 fl S arr D G k"
    using assms(2) by (auto intro: front_phase [OF assms(1)])
  then have "idle S G k" using assms(2) by (auto simp: head_ok_def)
  then show ?thesis using lead_inv [OF q(3) _ q(1)] by blast
qed

section \<open>The operations on the log and the memtable\<close>

lemma write_invI:
  assumes "base_ok ops n0 fl S1 arr D G k" "di_writers S1 = w # q" "head_ok ops (set_phase w p S1) G k w"
  shows "write_inv ops n0 fl (set_phase w p S1) arr D G k"
proof -
  have "di_writers (set_phase w p S1) = w # q" using assms(2) by (simp add: set_phase_def)
  then show ?thesis using base_set_phase [OF assms(1,2)] assms(3) by (simp add: write_inv_def)
qed

lemma flight_set_phase [simp]: "flight_ok ops (set_phase w p S) h tmp l lseq = flight_ok ops S h tmp l lseq"
  by (simp add: flight_ok_def write_batch_def group_ops_def set_phase_def)

lemma group_ops_set_phase [simp]: "group_ops ops l (set_phase w p S) = group_ops ops l S"
  by (simp add: group_ops_def set_phase_def)

lemma set_phase_fields [simp]:
  "di_phase (set_phase w p S) w = p" "di_mem (set_phase w p S) = di_mem S" "di_last_sequence (set_phase w p S) = di_last_sequence S"
  "di_writers (set_phase w p S) = di_writers S" "di_tmp_batch (set_phase w p S) = di_tmp_batch S"
  by (simp_all add: set_phase_def)

lemma flight_log [simp]: "flight_ok ops (S\<lparr>di_log := log\<rparr>) h tmp l lseq = flight_ok ops S h tmp l lseq"
  by (simp add: flight_ok_def write_batch_def group_ops_def)

lemma flight_mem [simp]: "flight_ok ops (S\<lparr>di_mem := m\<rparr>) h tmp l lseq = flight_ok ops S h tmp l lseq"
  "group_ops ops l (S\<lparr>di_mem := m\<rparr>) = group_ops ops l S"
  by (simp_all add: flight_ok_def write_batch_def group_ops_def)

lemma base_log:
  assumes "base_ok ops n0 fl S arr D G k" "lw_block_offset log \<le> kBlockSize"
  shows "base_ok ops n0 fl (S\<lparr>di_log := log\<rparr>) arr D G k"
  by (rule base_same_queue [OF assms(1)]) (use assms in \<open>simp_all add: same_queue_def base_ok_def data_ok_def\<close>)

lemma log_step_inv:
  assumes "write_inv ops n0 fl S arr D G k" "di_phase S w = Logging tmp l lseq"
  shows "\<exists>S'. log_step env w tmp l lseq S = Some S' \<and> write_inv ops n0 fl S' arr D G k"
proof -
  obtain q where q: "di_writers S = w # q" "head_ok ops S G k w" "base_ok ops n0 fl S arr D G k"
    using assms(2) by (auto intro: front_phase [OF assms(1)])
  have flight: "flight_ok ops S w tmp l lseq" "holds (di_mem S) (drop k G)" using q(2) assms(2) by (simp_all add: head_ok_def)
  then obtain batch where batch: "write_batch w tmp S = Some batch" by (auto simp: flight_ok_def)
  have "lw_block_offset (di_log S) \<le> kBlockSize" using q(3) by (simp add: base_ok_def data_ok_def)
  then obtain s log where log: "AddRecord (we_extend env) (we_append env) (we_flush env) batch (di_log S) = Some (s, log)"
    "lw_block_offset log \<le> kBlockSize" by (rule AddRecord_defined)
  have "write_inv ops n0 fl (set_phase w (Logged tmp l lseq s) (S\<lparr>di_log := log\<rparr>)) arr D G k"
    by (rule write_invI [OF base_log [OF q(3) log(2)], of _ q]) (use q(1) flight in \<open>simp_all add: head_ok_def\<close>)
  then show ?thesis using batch log(1) by (simp add: log_step_def)
qed

lemma sync_step_inv:
  assumes "write_inv ops n0 fl S arr D G k" "di_phase S w = Logged tmp l lseq status"
  shows "write_inv ops n0 fl (sync_step env w tmp l lseq status S) arr D G k"
proof -
  obtain q where q: "di_writers S = w # q" "head_ok ops S G k w" "base_ok ops n0 fl S arr D G k"
    using assms(2) by (auto intro: front_phase [OF assms(1)])
  have flight: "flight_ok ops S w tmp l lseq" "holds (di_mem S) (drop k G)" using q(2) assms(2) by (simp_all add: head_ok_def)
  have plain: "write_inv ops n0 fl (set_phase w (Synced tmp l lseq s e) S) arr D G k" for s e
    by (rule write_invI [OF q(3,1)]) (use flight in \<open>simp add: head_ok_def\<close>)
  have "lw_block_offset (di_log S) \<le> kBlockSize" using q(3) by (simp add: base_ok_def data_ok_def)
  then have synced: "write_inv ops n0 fl (set_phase w (Synced tmp l lseq s e) (S\<lparr>di_log := (di_log S)\<lparr>lw_dest := dest\<rparr>\<rparr>)) arr D G k" for s e dest
    by (intro write_invI [OF base_log [OF q(3)], of _ _ q]) (use q(1) flight in \<open>simp_all add: head_ok_def\<close>)
  show ?thesis using plain synced by (simp add: sync_step_def split: prod.split)
qed

lemma group_entries_snoc: "group_entries (G @ [(n, xs)]) = rev (op_entries n xs) @ group_entries G"
  by (simp add: group_entries_def)

lemma groups_ok_le: "groups_ok lo G hi \<Longrightarrow> lo \<le> hi"
  by (induction lo G hi rule: groups_ok.induct) auto

lemma group_entries_ok:
  assumes "groups_ok lo G hi" "hi \<le> 2 ^ 56" "\<forall>op \<in> set (concat (map snd G)). op_ok op" "e \<in> set (group_entries G)"
  shows "entry_ok e \<and> unat (me_seq e) < hi"
  using assms
proof (induction lo G hi rule: groups_ok.induct)
  case (2 lo n xs gs hi)
  have hi: "n + length xs \<le> hi" using 2(2) groups_ok_le [of "n + length xs" gs hi] by simp
  show ?case
  proof (cases "e \<in> set (op_entries n xs)")
    case True
    then obtain k where "k < n + length xs" "me_seq e = of_nat k" using op_entries_seq by blast
    moreover have "entry_ok e" using op_entries_ok [of xs n] True 2(3,4) hi by auto
    ultimately show ?thesis using hi 2(3) by (simp add: unat_of_nat_small)
  next
    case False
    then have "e \<in> set (group_entries gs)" using 2(5) by (auto simp: group_entries_def)
    then show ?thesis using 2(1) 2(2-4) by simp
  qed
qed (simp add: group_entries_def)

end
