(* ===== verification/Db_Write_Steps.thy ===== *)
theory Db_Write_Steps
  imports Db_Write_Safe
begin

text \<open>
  The last part of a group's way, new calls and background work; then what every history of the write
  path satisfies.
\<close>

lemma insert_step_inv:
  assumes "write_inv ops n0 fl S arr D G k" "di_phase S w = Synced tmp l lseq status e" "we_compare env = BytewiseCompare"
  shows "\<exists>S'. insert_step env w tmp l lseq status e S = Some S' \<and> write_inv ops n0 fl S' arr D G k"
proof -
  obtain q where q: "di_writers S = w # q" "head_ok ops S G k w" "base_ok ops n0 fl S arr D G k"
    using assms(2) by (auto intro: front_phase [OF assms(1)])
  have b: "roster_ok S arr D" "calls_ok ops S arr" "data_ok ops n0 fl S D G k" "room_ok ops n0 S arr (di_writers S)"
    using q(3) unfolding base_ok_def by blast+
  have flight: "flight_ok ops S w tmp l lseq" "holds (di_mem S) (drop k G)" using q(2) assms(2) by (simp_all add: head_ok_def)
  show ?thesis
  proof (cases "status = OK")
    case False
    have "write_inv ops n0 fl (set_phase w (Inserted tmp l lseq status e) S) arr D G k"
      by (rule write_invI [OF q(3,1)]) (use False flight in \<open>simp add: head_ok_def\<close>)
    then show ?thesis using False by (simp add: insert_step_def)
  next
    case True
    define xs where "xs = group_ops ops l S"
    define n where "n = Suc (unat (di_last_sequence S))"
    have batch: "write_batch w tmp S = Some (batch_of (of_nat n) xs)" using flight(1) by (simp add: flight_ok_def xs_def n_def add.commute)
    have small: "n + length xs \<le> 2 ^ 56" using flight_room [OF b(4), of l] by (simp add: n_def xs_def)
    have op: "op_ok x" if "w \<in> set arr" "x \<in> set (ops w)" for w x using that b(2) by (simp add: calls_ok_def)
    have ok: "\<forall>x \<in> set xs. op_ok x"
      unfolding xs_def group_ops_def using group_upto_set [of l "di_writers S"] roster_split(3) [OF b(1)] op by fastforce
    have D: "fst ` set D \<subseteq> set arr" using b(1) by (auto simp: roster_ok_def)
    have "\<forall>x \<in> set (concat (map snd G)). op_ok x"
    proof -
      have "concat (map snd G) = applied ops D" using b(3) unfolding data_ok_def by blast
      moreover have "\<forall>x \<in> set (applied ops D). op_ok x" using D op by (auto simp: applied_def split: if_splits)
      ultimately show ?thesis by simp
    qed
    moreover have "groups_ok (Suc n0) G n" using b(3) by (simp add: data_ok_def n_def)
    ultimately have "\<forall>f \<in> set (group_entries G). entry_ok f \<and> unat (me_seq f) < n"
      using group_entries_ok small by fastforce
    moreover have "set (group_entries (drop k G)) \<subseteq> set (group_entries G)"
      by (auto simp: group_entries_def dest: in_set_dropD)
    ultimately have es: "\<forall>f \<in> set (group_entries (drop k G)). entry_ok f" "\<forall>f \<in> set (group_entries (drop k G)). unat (me_seq f) < n"
      by blast+
    from InsertInto_batch [OF ok flight(2) [unfolded holds_def] es small] obtain m where
      m: "InsertInto BytewiseCompare (batch_of (of_nat n) xs) (di_mem S) = Some (m, OK)"
        "mem_history m (rev (op_entries n xs) @ group_entries (drop k G))" by blast
    have held: "holds m (drop k G @ [(n, xs)])" using m(2) by (simp add: holds_def group_entries_snoc)
    have "base_ok ops n0 fl (S\<lparr>di_mem := m\<rparr>) arr D G k"
      by (rule base_same_queue [OF q(3)]) (use b(3) in \<open>simp_all add: same_queue_def data_ok_def\<close>)
    then have "write_inv ops n0 fl (set_phase w (Inserted tmp l lseq OK e) (S\<lparr>di_mem := m\<rparr>)) arr D G k"
      by (rule write_invI [of _ _ _ _ _ _ _ _ _ q]) (use q(1) flight(1) held in \<open>simp_all add: head_ok_def xs_def n_def\<close>)
    then show ?thesis using True batch m(1) assms(3) by (simp add: insert_step_def)
  qed
qed

lemma group_upto_append: "l \<in> set q \<Longrightarrow> group_upto l (q @ r) = group_upto l q"
  by (induction q) auto

section \<open>The end of a group\<close>

text \<open>Only the thread at the front waits for background work.\<close>

lemma wake_phase_id: "(\<And>f d. p \<noteq> RoomWait f d) \<Longrightarrow> wake_room p = p"
  by (cases p) auto

lemma room_wait_head:
  assumes "write_inv ops n0 fl S arr D G k" "di_phase S w = RoomWait f d"
  obtains q where "di_writers S = w # q"
  using assms(2) by (auto intro: front_phase [OF assms(1)])

lemma wake_phase_front:
  assumes "write_inv ops n0 fl S arr D G k" "di_phase S w = Inserted tmp l lseq st e"
  shows "wake_room (di_phase S x) = di_phase S x"
proof (rule wake_phase_id)
  fix f d
  show "di_phase S x \<noteq> RoomWait f d"
  proof
    assume x: "di_phase S x = RoomWait f d"
    then obtain q where "di_writers S = x # q" by (rule room_wait_head [OF assms(1)])
    moreover obtain q' where "di_writers S = w # q'" using assms(2) by (auto intro: front_phase [OF assms(1)])
    ultimately show False using x assms(2) by simp
  qed
qed

lemma data_ok_group:
  assumes "data_ok ops n0 fl S D G k" "unat lseq = unat (di_last_sequence S) + length (concat (map ops grp))"
    and "G' = (if st = OK then G @ [(Suc (unat (di_last_sequence S)), concat (map ops grp))] else G)"
    and "S1 = S\<lparr>di_last_sequence := lseq, di_bg_error := e, di_tmp_batch := t\<rparr>"
  shows "data_ok ops n0 fl S1 (D @ map (\<lambda>w. (w, st)) grp) G' k"
proof -
  have d: "concat (map snd G) = applied ops D" "groups_ok (Suc n0) G (Suc (unat (di_last_sequence S)))" "k \<le> length G"
    "case di_imm S of None \<Rightarrow> fl = k | Some m \<Rightarrow> fl \<le> k \<and> holds m (drop fl (take k G))" "di_prev_log_number S = 0" "lw_block_offset (di_log S) \<le> kBlockSize"
    using assms(1) unfolding data_ok_def by blast+
  have f: "di_imm S1 = di_imm S" "di_last_sequence S1 = lseq" "di_prev_log_number S1 = di_prev_log_number S" "di_log S1 = di_log S"
    by (simp_all add: assms(4))
  have "concat (map snd G') = applied ops (D @ map (\<lambda>w. (w, st)) grp)"
    unfolding applied_append applied_group assms(3) using d(1) by simp
  moreover have "groups_ok (Suc n0) G' (Suc (unat lseq))"
  proof (cases "st = OK")
    case True
    then show ?thesis using groups_ok_snoc [OF d(2), of "concat (map ops grp)"] assms(2,3) by simp
  next
    case False
    then show ?thesis using groups_ok_mono [OF d(2), of "Suc (unat lseq)"] assms(2,3) by simp
  qed
  moreover have "take k G' = take k G" "k \<le> length G'" using d(3) by (simp_all add: assms(3))
  ultimately show ?thesis using d(4-6) unfolding data_ok_def f by (simp split: option.splits)
qed

lemma finish_group_inv:
  assumes "write_inv ops n0 fl S arr D G k" "di_phase S w = Inserted tmp l lseq st e"
  shows "\<exists>S' D' G'. finish_group w tmp l lseq st e S = Some S' \<and> write_inv ops n0 fl S' arr D' G' k"
proof -
  obtain q where q: "di_writers S = w # q" "head_ok ops S G k w" "base_ok ops n0 fl S arr D G k"
    using assms(2) by (auto intro: front_phase [OF assms(1)])
  have b: "roster_ok S arr D" "finished_ok S D" "queued_ok S" "calls_ok ops S arr" "data_ok ops n0 fl S D G k" "room_ok ops n0 S arr (di_writers S)"
    using q(3) unfolding base_ok_def by blast+
  define grp where "grp = group_upto l (w # q)"
  have xs: "group_ops ops l S = concat (map ops grp)" by (simp only: group_ops_def q(1) grp_def)
  have flight: "l \<in> set (w # q)" "unat lseq = unat (di_last_sequence S) + length (concat (map ops grp))"
      "tmp \<or> di_tmp_batch S = NewWriteBatch"
      "holds (di_mem S) (drop k G @ (if st = OK then [(Suc (unat (di_last_sequence S)), concat (map ops grp))] else []))"
    using q(1,2) assms(2) unfolding xs [symmetric] by (simp_all add: head_ok_def flight_ok_def)
  define err where "err = (if e \<and> di_bg_error S = OK then st else di_bg_error S)"
  define G' where "G' = (if st = OK then G @ [(Suc (unat (di_last_sequence S)), concat (map ops grp))] else G)"
  define S1 where "S1 = S\<lparr>di_last_sequence := lseq, di_bg_error := err, di_tmp_batch := NewWriteBatch\<rparr>"
  have "wake_room (di_phase S x) = di_phase S x" for x by (rule wake_phase_front [OF assms])
  then have "(if e then RecordBackgroundError st S else S) = S\<lparr>di_bg_error := err\<rparr>"
    by (simp add: RecordBackgroundError_def SignalBackground_def err_def)
  moreover have "di_last_sequence S \<le> lseq" using flight(2) by (simp add: word_le_nat_alt)
  moreover have "WriteBatchClear b = NewWriteBatch" for b by (simp add: NewWriteBatch_def WriteBatchClear_def)
  ultimately have finish: "finish_group w tmp l lseq st e S = leave_queue w l st S1"
    using flight(3) by (cases tmp; cases S; auto simp: finish_group_def VersionSetLastSequence_def S1_def)
  have f: "di_writers S1 = di_writers S" "di_writer S1 = di_writer S" "di_phase S1 = di_phase S"
    by (simp_all add: S1_def)
  have c: "roster_ok S1 arr D" "finished_ok S1 D" "queued_ok S1" "calls_ok ops S1 arr"
    using b(1-4) unfolding roster_ok_def finished_ok_def queued_ok_def calls_ok_def batch_is_def f by blast+
  have data: "data_ok ops n0 fl S1 (D @ map (\<lambda>w. (w, st)) grp) G' k"
    by (rule data_ok_group [OF b(5) flight(2) G'_def S1_def])
  have "op_total ops (w # q) = length (concat (map ops grp)) + op_total ops (drop (length grp) (w # q))"
    using op_total_append [of ops grp "drop (length grp) (w # q)"] group_upto_prefix [of l "w # q"] append_take_drop_id [of "length grp" "w # q"]
    unfolding op_total_concat grp_def [symmetric] by metis
  then have room: "room_ok ops n0 S1 arr (drop (length grp) (w # q))" using b(6) flight(2) q(1) by (simp add: room_ok_def S1_def)
  have "k \<le> length G" using b(5) by (simp add: data_ok_def)
  then have idle: "idle S1 G' k" using flight(4) by (simp add: idle_def S1_def G'_def split: if_splits)
  have "di_writers S1 = w # q" using q(1) by (simp add: f)
  from leave_queue_inv [OF c this flight(1) grp_def refl data room idle] show ?thesis unfolding finish by blast
qed

section \<open>New calls\<close>

fun good_call :: "(nat \<Rightarrow> batch_op list) \<Rightarrow> write_action \<Rightarrow> bool" where
  "good_call ops (Call w updates sync) \<longleftrightarrow>
     (case updates of None \<Rightarrow> ops w = [] | Some b \<Rightarrow> \<exists>seq. b = batch_of seq (ops w)) \<and> length (ops w) < 2 ^ 31
       \<and> (\<forall>op \<in> set (ops w). op_ok op)"
| "good_call ops _ \<longleftrightarrow> True"

definition queued_state :: "nat \<Rightarrow> WriteBatch option \<Rightarrow> bool \<Rightarrow> 'f DBImpl \<Rightarrow> 'f DBImpl" where
  "queued_state w updates sync S =
     S\<lparr>di_writer := (di_writer S)(w := \<lparr>w_status = OK, w_batch = updates, w_sync = sync, w_done = False\<rparr>),
       di_writers := di_writers S @ [w]\<rparr>"

lemma queued_state_fields [simp]:
  "di_writers (queued_state w u s S) = di_writers S @ [w]" "di_phase (queued_state w u s S) = di_phase S"
  "di_last_sequence (queued_state w u s S) = di_last_sequence S" "di_mem (queued_state w u s S) = di_mem S"
  "di_tmp_batch (queued_state w u s S) = di_tmp_batch S" "di_imm (queued_state w u s S) = di_imm S"
  "di_prev_log_number (queued_state w u s S) = di_prev_log_number S" "di_log (queued_state w u s S) = di_log S"
  "di_level0_files (queued_state w u s S) = di_level0_files S"
  "x \<noteq> w \<Longrightarrow> di_writer (queued_state w u s S) x = di_writer S x"
  "di_writer (queued_state w u s S) w = \<lparr>w_status = OK, w_batch = u, w_sync = s, w_done = False\<rparr>"
  by (simp_all add: queued_state_def)

lemma queued_base:
  assumes "write_inv ops n0 fl S arr D G k" "di_phase S w = NotCalled" "good_call ops (Call w updates sync)"
    and "n0 + op_total ops (arr @ [w]) < 2 ^ 56" and "di_writers S = [] \<and> p = NotCalled \<or> p = Waiting False"
  shows "base_ok ops n0 fl (set_phase w p (queued_state w updates sync S)) (arr @ [w]) D G k"
proof -
  have b: "roster_ok S arr D" "finished_ok S D" "queued_ok S" "calls_ok ops S arr" "data_ok ops n0 fl S D G k" "room_ok ops n0 S arr (di_writers S)"
    using assms(1) unfolding write_inv_def base_ok_def by blast+
  define S1 where "S1 = set_phase w p (queued_state w updates sync S)"
  have new: "w \<notin> set arr" "w \<notin> set (di_writers S)"
  proof -
    show "w \<notin> set (di_writers S)"
    proof
      assume "w \<in> set (di_writers S)"
      then show False using assms(1,2)
        by (cases "di_writers S") (auto simp: queued_ok_def write_inv_def head_ok_def base_ok_def)
    qed
    then show "w \<notin> set arr" using roster_called [OF b(1), of w] assms(2) by simp
  qed
  have d: "distinct arr" "arr = map fst D @ di_writers S" using b(1) unfolding roster_ok_def by blast+
  have wD: "w \<notin> fst ` set D" using new(1) d(2) by simp
  have f: "di_writers S1 = di_writers S @ [w]" by (simp add: S1_def)
  have ph: "di_phase S1 x = (if x = w then p else di_phase S x)" for x by (simp add: S1_def set_phase_def)
  have wr: "di_writer S1 = di_writer (queued_state w updates sync S)" by (simp add: S1_def set_phase_def)
  have "roster_ok S1 (arr @ [w]) D"
  proof -
    have "x \<in> set (arr @ [w]) \<longleftrightarrow> di_phase S1 x \<noteq> NotCalled \<or> x \<in> set (di_writers S @ [w])" for x
      using roster_called [OF b(1), of x] by (cases "x = w") (simp_all add: ph)
    moreover have "distinct (arr @ [w])" "arr @ [w] = map fst D @ di_writers S @ [w]" using d new(1) by simp_all
    ultimately show ?thesis unfolding roster_ok_def f by blast
  qed
  moreover have "finished_ok S1 D"
  proof -
    have "x \<noteq> w" if "(x, s) \<in> set D" for x s using that wD by force
    then show ?thesis using b(2) by (force simp: finished_ok_def ph wr)
  qed
  moreover have "queued_ok S1"
  proof -
    have "\<not> w_done (di_writer S1 x)" if "x \<in> set (di_writers S @ [w])" for x
      using that b(3) by (cases "x = w") (simp_all add: wr queued_ok_def)
    moreover have "di_phase S1 x = Waiting False" if "x \<in> set (tl (di_writers S @ [w]))" for x
      using that b(3) assms(5) by (cases "di_writers S") (auto simp: ph queued_ok_def)
    ultimately show ?thesis by (simp add: queued_ok_def f)
  qed
  moreover have "calls_ok ops S1 (arr @ [w])"
  proof -
    have "batch_is ops S1 x \<and> length (ops x) < 2 ^ 31 \<and> (\<forall>op \<in> set (ops x). op_ok op)" if "x \<in> set (arr @ [w])" for x
    proof (cases "x = w")
      case True
      then show ?thesis using assms(3) by (simp add: batch_is_def wr)
    next
      case False
      then have "batch_is ops S1 x = batch_is ops S x" by (simp add: batch_is_def wr)
      then show ?thesis using b(4) that False by (simp add: calls_ok_def)
    qed
    then show ?thesis by (simp add: calls_ok_def)
  qed
  moreover have "data_ok ops n0 fl S1 D G k" by (rule data_okI [OF b(5)]) (simp_all add: S1_def set_phase_def)
  moreover have "room_ok ops n0 S1 (arr @ [w]) (di_writers S @ [w])"
    using b(6) assms(4) by (simp add: room_ok_def op_total_append S1_def)
  ultimately show ?thesis unfolding S1_def [symmetric] base_ok_def f by blast
qed

lemma call_inv:
  assumes "write_inv ops n0 fl S arr D G k" "di_phase S w = NotCalled" "good_call ops (Call w updates sync)"
    and "n0 + op_total ops (arr @ [w]) < 2 ^ 56"
  shows "\<exists>S' D' k'. CallWrite env w updates sync S = Some S' \<and> write_inv ops n0 fl S' (arr @ [w]) D' G k'"
proof -
  define S1 where "S1 = queued_state w updates sync S"
  have call: "CallWrite env w updates sync S = check_turn env w S1" by (simp add: CallWrite_def S1_def queued_state_def)
  show ?thesis
  proof (cases "di_writers S")
    case Nil
    have "set_phase w NotCalled S1 = S1" using assms(2) by (simp add: S1_def set_phase_def fun_upd_idem)
    then have "base_ok ops n0 fl S1 (arr @ [w]) D G k" using queued_base [OF assms, of NotCalled] Nil by (simp add: S1_def)
    moreover have "idle S1 G k" using assms(1) Nil by (simp add: write_inv_def idle_def S1_def)
    moreover have "di_writers S1 = [w]" using Nil by (simp add: S1_def)
    ultimately show ?thesis unfolding call by (rule check_head)
  next
    case (Cons h q)
    have base: "base_ok ops n0 fl (set_phase w (Waiting False) S1) (arr @ [w]) D G k"
      unfolding S1_def using queued_base [OF assms, of "Waiting False"] by simp
    then have "roster_ok (set_phase w (Waiting False) S1) (arr @ [w]) D" unfolding base_ok_def by blast
    then have "distinct (di_writers (set_phase w (Waiting False) S1))" by (rule roster_split(2))
    then have hw: "h \<noteq> w" using Cons by (auto simp: S1_def)
    have "check_turn env w S1 = Some (set_phase w (Waiting False) S1)"
      using hw Cons by (simp add: check_turn_def S1_def)
    moreover have "head_ok ops (set_phase w (Waiting False) S1) G k h"
    proof -
      define S2 where "S2 = set_phase w (Waiting False) S1"
      have head: "head_ok ops S G k h" using assms(1) Cons by (simp add: write_inv_def)
      have f: "di_phase S2 h = di_phase S h" "di_mem S2 = di_mem S" "di_last_sequence S2 = di_last_sequence S" "di_tmp_batch S2 = di_tmp_batch S"
        "di_imm S2 = di_imm S" "di_level0_files S2 = di_level0_files S" "di_writer S2 h = di_writer S h" "di_writers S2 = di_writers S @ [w]"
        using hw by (simp_all add: S2_def set_phase_def S1_def)
      have "group_ops ops l S2 = group_ops ops l S" if "l \<in> set (di_writers S)" for l
        unfolding group_ops_def f group_upto_append [OF that] ..
      then have "flight_ok ops S2 h tmp l lseq" "group_ops ops l S2 = group_ops ops l S" if "flight_ok ops S h tmp l lseq" for tmp l lseq
        using that by (cases tmp; simp add: flight_ok_def f write_batch_def)+
      then show ?thesis using head unfolding S2_def [symmetric] head_ok_def f idle_def by (auto split: write_phase.splits)
    qed
    ultimately show ?thesis using base Cons unfolding call by (auto simp: write_inv_def S1_def)
  qed
qed

section \<open>Background work\<close>

lemma wake_room_simps [simp]:
  "wake_room p = NotCalled \<longleftrightarrow> p = NotCalled" "wake_room p = Returned s \<longleftrightarrow> p = Returned s" "wake_room p = Waiting b \<longleftrightarrow> p = Waiting b"
  by (cases p; simp)+

lemma wake_room_twice: "wake_room (wake_room p) = wake_room p"
  by (cases p) simp_all

lemma background_closed:
  "\<exists>e. background_work flushed level0 m err scheduled other_work S
    = S\<lparr>di_imm := (if flushed then None else di_imm S), di_level0_files := level0,
        di_next_file_number := di_next_file_number S + of_nat m, di_bg_scheduled := scheduled, di_other_work := other_work, di_bg_error := e,
        di_phase := (\<lambda>w. wake_room (di_phase S w))\<rparr>"
proof (cases "di_bg_error S = OK")
  case True
  then show ?thesis
    by (intro exI [of _ err]) (simp add: background_work_def RecordBackgroundError_def SignalBackground_def wake_room_twice)
next
  case False
  then show ?thesis
    by (intro exI [of _ "di_bg_error S"]) (simp add: background_work_def RecordBackgroundError_def SignalBackground_def)
qed

lemma background_inv:
  assumes "write_inv ops n0 fl S arr D G k"
  shows "write_inv ops n0 (if flushed then k else fl) (background_work flushed level0 m err scheduled other_work S) arr D G k"
proof -
  have b: "roster_ok S arr D" "finished_ok S D" "queued_ok S" "calls_ok ops S arr" "data_ok ops n0 fl S D G k" "room_ok ops n0 S arr (di_writers S)"
    using assms unfolding write_inv_def base_ok_def by blast+
  obtain S1 where S1: "background_work flushed level0 m err scheduled other_work S = S1" "di_writers S1 = di_writers S" "di_writer S1 = di_writer S"
    "di_phase S1 = (\<lambda>w. wake_room (di_phase S w))" "di_imm S1 = (if flushed then None else di_imm S)" "di_mem S1 = di_mem S"
    "di_tmp_batch S1 = di_tmp_batch S" "di_last_sequence S1 = di_last_sequence S" "di_prev_log_number S1 = di_prev_log_number S"
    "di_log S1 = di_log S"
    using background_closed [of flushed level0 m err scheduled other_work S] by auto
  have "base_ok ops n0 (if flushed then k else fl) S1 arr D G k"
    unfolding base_ok_def
  proof (intro conjI)
    show "roster_ok S1 arr D" using b(1) unfolding roster_ok_def S1 wake_room_simps .
    show "finished_ok S1 D" using b(2) unfolding finished_ok_def S1 wake_room_simps .
    show "queued_ok S1" using b(3) unfolding queued_ok_def S1 wake_room_simps .
    show "calls_ok ops S1 arr" using b(4) unfolding calls_ok_def batch_is_def S1 .
    show "data_ok ops n0 (if flushed then k else fl) S1 D G k" using b(5) by (simp add: data_ok_def S1)
    show "room_ok ops n0 S1 arr (di_writers S1)" using b(6) by (simp add: room_ok_def S1)
  qed
  moreover have "idle S1 G k = idle S G k" by (simp add: idle_def S1)
  moreover have "head_ok ops S1 G k h" if "head_ok ops S G k h" for h
  proof -
    have "group_ops ops l S1 = group_ops ops l S" for l by (simp add: group_ops_def S1)
    then have "flight_ok ops S1 h tmp l lseq = flight_ok ops S h tmp l lseq" for tmp l lseq
      by (simp add: flight_ok_def write_batch_def S1)
    then show ?thesis using that \<open>idle S1 G k = idle S G k\<close> \<open>\<And>l. group_ops ops l S1 = group_ops ops l S\<close>
      by (cases "di_phase S h") (simp_all add: head_ok_def S1 split: if_splits)
  qed
  ultimately show ?thesis using assms S1(1,2) by (auto simp: write_inv_def split: list.splits)
qed

section \<open>Histories\<close>

fun action_calls :: "write_action \<Rightarrow> nat list" where
  "action_calls (Call w _ _) = [w]"
| "action_calls _ = []"

definition calls_of :: "write_action list \<Rightarrow> nat list" where
  "calls_of acts = concat (map action_calls acts)"

lemma thread_step_inv:
  assumes "write_inv ops n0 fl S arr D G k" "we_compare env = BytewiseCompare" "thread_step env w S = Some r"
  shows "\<exists>S' D' G' k'. r = Some S' \<and> write_inv ops n0 fl S' arr D' G' k'"
proof (cases "di_phase S w")
  case (Waiting b)
  then have "r = check_turn env w S" using assms(3) by (cases b) (simp_all add: thread_step_def)
  then show ?thesis using check_turn_inv [OF assms(1) Waiting] by blast
next
  case (Sleeping f)
  then show ?thesis using assms(3) lead_step_inv [OF assms(1)] by (fastforce simp: thread_step_def)
next
  case (RoomReady f d)
  then show ?thesis using assms(3) lead_step_inv [OF assms(1)] by (fastforce simp: thread_step_def)
next
  case (Logging tmp l lseq)
  then show ?thesis using assms(3) log_step_inv [OF assms(1) Logging] by (fastforce simp: thread_step_def)
next
  case (Logged tmp l lseq st)
  then show ?thesis using assms(3) sync_step_inv [OF assms(1) Logged] by (fastforce simp: thread_step_def)
next
  case (Synced tmp l lseq st e)
  then show ?thesis using assms(3) insert_step_inv [OF assms(1) Synced assms(2)] by (fastforce simp: thread_step_def)
next
  case (Inserted tmp l lseq st e)
  then show ?thesis using assms(3) finish_group_inv [OF assms(1) Inserted] by (fastforce simp: thread_step_def)
qed (use assms(3) in \<open>simp_all add: thread_step_def\<close>)

fun action_flushes :: "write_action \<Rightarrow> bool" where
  "action_flushes (Background flushed _ _ _ _ _) = flushed"
| "action_flushes _ = False"

lemma write_step_inv:
  assumes "write_inv ops n0 fl S arr D G k" "we_compare env = BytewiseCompare" "write_step env a S = Some r" "good_call ops a"
    and "n0 + op_total ops (arr @ action_calls a) < 2 ^ 56"
  shows "\<exists>S' fl' D' G' k'. r = Some S' \<and> write_inv ops n0 fl' S' (arr @ action_calls a) D' G' k' \<and> (\<not> action_flushes a \<longrightarrow> fl' = fl)"
proof (cases a)
  case (Call w updates sync)
  then show ?thesis using assms call_inv [OF assms(1), of w updates sync] by (fastforce simp: write_step_def split: if_splits)
next
  case (Step w)
  then show ?thesis using thread_step_inv [OF assms(1,2)] assms(3) by (fastforce simp: write_step_def)
next
  case (Spurious w)
  then show ?thesis using check_turn_inv [OF assms(1), of w] assms(3) by (fastforce simp: write_step_def split: if_splits)
next
  case (Background flushed level0 m err scheduled other_work)
  then have "r = Some (background_work flushed level0 m err scheduled other_work S)" using assms(3) by (simp add: write_step_def)
  moreover have "write_inv ops n0 (if flushed then k else fl) (background_work flushed level0 m err scheduled other_work S) (arr @ action_calls a) D G k"
    using background_inv [OF assms(1)] Background by simp
  moreover have "\<not> action_flushes a \<longrightarrow> (if flushed then k else fl) = fl" using Background by simp
  ultimately show ?thesis by blast
qed

lemma NewDBImpl_inv:
  assumes "unat n < 2 ^ 56"
  shows "write_inv ops (unat n) 0 (NewDBImpl env lfile log_number next_file n) [] [] [] 0"
  using assms holds_new
  by (simp add: write_inv_def base_ok_def base_parts NewDBImpl_def applied_def op_total_def idle_def NewLogWriter_def)

lemma write_history_inv:
  assumes "write_history env (NewDBImpl env lfile log_number next_file n) acts S" "we_compare env = BytewiseCompare" "\<forall>a \<in> set acts. good_call ops a"
    and "unat n + op_total ops (calls_of acts) < 2 ^ 56"
  shows "\<exists>fl D G k. write_inv ops (unat n) fl S (calls_of acts) D G k \<and> ((\<forall>a \<in> set acts. \<not> action_flushes a) \<longrightarrow> fl = 0)"
  using assms
proof (induction rule: write_history.induct)
  case started
  then show ?case using NewDBImpl_inv [of n ops env lfile log_number next_file] by (auto simp: calls_of_def)
next
  case (stepped acts S a S')
  have c: "calls_of (acts @ [a]) = calls_of acts @ action_calls a" by (simp add: calls_of_def)
  have "unat n + op_total ops (calls_of acts) < 2 ^ 56" using stepped.prems(3) unfolding c op_total_append by simp
  with stepped have "\<exists>fl D G k. write_inv ops (unat n) fl S (calls_of acts) D G k \<and> ((\<forall>a \<in> set acts. \<not> action_flushes a) \<longrightarrow> fl = 0)"
    by simp
  then obtain fl D G k where inv: "write_inv ops (unat n) fl S (calls_of acts) D G k"
    "(\<forall>a \<in> set acts. \<not> action_flushes a) \<longrightarrow> fl = 0" by blast
  from write_step_inv [OF inv(1) stepped.prems(1) stepped.hyps(2)] stepped.prems(2,3)
  obtain fl' D' G' k' where "write_inv ops (unat n) fl' S' (calls_of acts @ action_calls a) D' G' k'" "\<not> action_flushes a \<longrightarrow> fl' = fl"
    unfolding c by auto
  then show ?case using inv(2) unfolding c by auto
qed

end
