(* ===== verification/Db_Write_Live.thy ===== *)
theory Db_Write_Live
  imports Db_Write_Steps
begin

text \<open>
  What the write queue promises: calls are decided one after the other in the order in which they queued
  up, and the threads get to the end without help from anyone but the compaction thread.
\<close>

section \<open>A sequence of steps\<close>

fun run_actions :: "'f write_env \<Rightarrow> write_action list \<Rightarrow> 'f DBImpl \<Rightarrow> 'f DBImpl option" where
  "run_actions env [] S = Some S"
| "run_actions env (a # acts) S =
     (case write_step env a S of Some (Some S') \<Rightarrow> run_actions env acts S' | _ \<Rightarrow> None)"

lemma write_history_trans:
  "write_history env S acts' S' \<Longrightarrow> write_history env S0 acts S \<Longrightarrow> write_history env S0 (acts @ acts') S'"
proof (induction rule: write_history.induct)
  case (stepped acts' S1 a S2)
  then show ?case using write_history.stepped [of env S0 "acts @ acts'" S1 a S2] by simp
qed simp

lemma run_actions_history: "run_actions env acts S = Some S' \<Longrightarrow> write_history env S acts S'"
proof (induction acts arbitrary: S)
  case Nil
  then show ?case using write_history.started by simp
next
  case (Cons a acts)
  then obtain S1 where S1: "write_step env a S = Some (Some S1)" "run_actions env acts S1 = Some S'"
    by (auto split: option.splits)
  have "write_history env S [a] S1" using write_history.stepped [OF write_history.started S1(1)] by simp
  from write_history_trans [OF Cons.IH [OF S1(2)] this] show ?case by simp
qed

section \<open>A sample run\<close>

text \<open>Two calls; the first one's thread goes to its end.\<close>

definition sample_env :: "bytes write_env" where
  "sample_env = \<lparr>we_compare = BytewiseCompare, we_extend = ExtendPortable 0, we_append = mem_append, we_flush = mem_flush,
     we_sync = (\<lambda>f. (OK, f)), we_new_file = (\<lambda>n. (OK, [])), we_usage = (\<lambda>m. 0), we_write_buffer_size = 100\<rparr>"

definition sample_calls :: "write_action list" where
  "sample_calls = [Call 0 (Some (batch_of 0 [PutOp [1] [2]])) False, Call 1 (Some (batch_of 0 [DeleteOp [1]])) True]"

lemmas sample_run = run_actions.simps write_step_def CallWrite_def check_turn_def MakeRoomForWrite_def lead_def make_room_loop.simps
  NewDBImpl_def start_group_def BuildBatchGroup_def set_phase_def set_write_batch_def SetSequence_batch Let_def thread_step_def
  sync_step_def insert_step_def write_batch_def finish_group_def VersionSetLastSequence_def leave_queue_def SignalWriter_def log_step_def
  kL0_SlowdownWritesTrigger_def

lemma sample_history:
  "\<exists>S. run_actions sample_env (sample_calls @ map Step [0, 0, 0, 0]) (NewDBImpl sample_env [] 3 4 0) = Some S
    \<and> di_phase S 0 = Returned OK \<and> di_phase S 1 = Waiting True"
proof -
  obtain log where log: "AddRecord (ExtendPortable 0) mem_append mem_flush (batch_of 1 [PutOp [1] [2]]) (NewLogWriter (ExtendPortable 0) []) = Some (OK, log)"
    using portable.add_record_loop_bytes [OF writer_ok_new, of 0 "batch_of 1 [PutOp [1] [2]]" True] by (auto simp: AddRecord_def)
  obtain m where m: "InsertInto BytewiseCompare (batch_of 1 [PutOp [1] [2]]) (MemTableRef NewMemTable) = Some (m, OK)"
    using InsertInto_batch [OF _ mem_history.referenced [OF mem_history.created], of "[PutOp [1] [2]]" 1] by auto
  show ?thesis
    by (simp add: sample_run sample_env_def sample_calls_def log m)
qed

definition sample_ops :: "nat \<Rightarrow> batch_op list" where
  "sample_ops = (\<lambda>_. [])(0 := [PutOp [1] [2]], 1 := [DeleteOp [1]])"

lemma sample_good: "\<forall>a \<in> set sample_calls. good_call sample_ops a" "calls_of sample_calls = [0, 1]" "we_compare sample_env = BytewiseCompare"
  by (auto simp: sample_calls_def sample_ops_def sample_env_def calls_of_def)

lemma run_actions_append: "run_actions env (xs @ ys) S = Option.bind (run_actions env xs S) (run_actions env ys)"
  by (induction xs arbitrary: S) (auto split: option.splits)

section \<open>Serial order\<close>

text \<open>
  \<open>D\<close> are the calls that have left the queue, in the order of their arrival, and \<open>F\<close> those of a group that is
  in the memtable already; the queue holds the other calls. The groups \<open>G\<close> are what has been applied, with
  rising sequence numbers: the first \<open>j\<close>, up to the last sequence number, are the operations of the calls of
  \<open>D\<close> that succeeded, and the rest those of \<open>F\<close>. The first \<open>fl\<close> groups have left the memory, and the memtables
  hold the others, \<open>imm_\<close> those up to \<open>k\<close>.
\<close>

definition serial_view ::
    "(nat \<Rightarrow> batch_op list) \<Rightarrow> nat \<Rightarrow> nat list \<Rightarrow> 'f DBImpl \<Rightarrow> (nat \<times> Status) list \<Rightarrow> (nat \<times> Status) list
      \<Rightarrow> (nat \<times> batch_op list) list \<Rightarrow> nat \<Rightarrow> nat \<Rightarrow> nat \<Rightarrow> bool" where
  "serial_view ops n0 calls S D F G j fl k \<longleftrightarrow>
     calls = map fst D @ di_writers S
     \<and> (\<forall>w s. di_phase S w = Returned s \<longrightarrow> (w, s) \<in> set D)
     \<and> (\<exists>i. F = map (\<lambda>w. (w, OK)) (take i (di_writers S)))
     \<and> groups_ok (Suc n0) (take j G) (Suc (unat (di_last_sequence S))) \<and> concat (map snd (take j G)) = applied ops D
     \<and> groups_ok (Suc (unat (di_last_sequence S))) (drop j G) (2 ^ 56) \<and> concat (map snd (drop j G)) = applied ops F
     \<and> k \<le> length G \<and> holds (di_mem S) (drop k G)
     \<and> (case di_imm S of None \<Rightarrow> fl = k | Some m \<Rightarrow> fl \<le> k \<and> holds m (drop fl (take k G)))"

lemma inv_returned:
  assumes "write_inv ops n0 fl S arr D G k" "di_phase S w = Returned s"
  shows "(w, s) \<in> set D"
  using assms(1)
proof (cases rule: inv_cases [where w = w])
  case (head q)
  then show ?thesis using assms(2) by (simp add: head_ok_def)
qed (use assms(2) in simp_all)

lemma inv_memtable:
  assumes "write_inv ops n0 fl S arr D G k"
  shows "holds (di_mem S) (drop k G) \<or> (\<exists>l. l \<in> set (di_writers S) \<and> unat (di_last_sequence S) + length (group_ops ops l S) < 2 ^ 56
    \<and> holds (di_mem S) (drop k G @ [(Suc (unat (di_last_sequence S)), group_ops ops l S)]))"
proof (cases "di_writers S")
  case Nil
  then show ?thesis using assms by (simp add: write_inv_def idle_def)
next
  case (Cons h q)
  have room: "room_ok ops n0 S arr (di_writers S)" using assms by (simp add: write_inv_def base_ok_def)
  have head: "head_ok ops S G k h" using assms Cons by (simp add: write_inv_def)
  show ?thesis
  proof (cases "\<exists>tmp l lseq e. di_phase S h = Inserted tmp l lseq OK e")
    case True
    then obtain tmp l lseq e where "di_phase S h = Inserted tmp l lseq OK e" by blast
    then have "l \<in> set (di_writers S)" "holds (di_mem S) (drop k G @ [(Suc (unat (di_last_sequence S)), group_ops ops l S)])"
      using head by (simp_all add: head_ok_def flight_ok_def)
    then show ?thesis using flight_room [OF room] by blast
  next
    case False
    then show ?thesis using head by (cases "di_phase S h") (auto simp: head_ok_def idle_def split: if_splits)
  qed
qed

lemma inv_serialised:
  assumes "write_inv ops n0 fl S arr D G k"
  shows "\<exists>F G' j. serial_view ops n0 arr S D F G' j fl k"
proof -
  have b: "roster_ok S arr D" "data_ok ops n0 fl S D G k" "room_ok ops n0 S arr (di_writers S)"
    using assms unfolding write_inv_def base_ok_def by blast+
  have arr: "arr = map fst D @ di_writers S" using b(1) unfolding roster_ok_def by blast
  have d: "concat (map snd G) = applied ops D" "groups_ok (Suc n0) G (Suc (unat (di_last_sequence S)))" "k \<le> length G"
    "case di_imm S of None \<Rightarrow> fl = k | Some m \<Rightarrow> fl \<le> k \<and> holds m (drop fl (take k G))" using b(2) unfolding data_ok_def by blast+
  have ret: "\<forall>w s. di_phase S w = Returned s \<longrightarrow> (w, s) \<in> set D" using inv_returned [OF assms] by blast
  have last: "Suc (unat (di_last_sequence S)) \<le> 2 ^ 56" using b(3) by (simp add: room_ok_def)
  from inv_memtable [OF assms] show ?thesis
  proof
    assume m: "holds (di_mem S) (drop k G)"
    show ?thesis
      unfolding serial_view_def
    proof (intro exI conjI)
      show "arr = map fst D @ di_writers S" by (rule arr)
      show "([] :: (nat \<times> Status) list) = map (\<lambda>w. (w, OK)) (take 0 (di_writers S))" by simp
      show "groups_ok (Suc n0) (take (length G) G) (Suc (unat (di_last_sequence S)))" using d(2) by simp
      show "groups_ok (Suc (unat (di_last_sequence S))) (drop (length G) G) (2 ^ 56)" using last by simp
      show "concat (map snd (take (length G) G)) = applied ops D" using d(1) by simp
      show "concat (map snd (drop (length G) G)) = applied ops []" by (simp add: applied_def)
    qed (rule ret d(3,4) m)+
  next
    assume "\<exists>l. l \<in> set (di_writers S) \<and> unat (di_last_sequence S) + length (group_ops ops l S) < 2 ^ 56
      \<and> holds (di_mem S) (drop k G @ [(Suc (unat (di_last_sequence S)), group_ops ops l S)])"
    then obtain l where l: "unat (di_last_sequence S) + length (group_ops ops l S) < 2 ^ 56"
      "holds (di_mem S) (drop k G @ [(Suc (unat (di_last_sequence S)), group_ops ops l S)])" by blast
    define G' where "G' = G @ [(Suc (unat (di_last_sequence S)), group_ops ops l S)]"
    define F where "F = map (\<lambda>w. (w, OK)) (group_upto l (di_writers S))"
    have ap: "applied ops F = group_ops ops l S" by (simp add: F_def applied_group group_ops_def)
    show ?thesis
      unfolding serial_view_def
    proof (intro exI conjI)
      show "arr = map fst D @ di_writers S" by (rule arr)
      show "F = map (\<lambda>w. (w, OK)) (take (length (group_upto l (di_writers S))) (di_writers S))"
        unfolding F_def using group_upto_prefix [of l "di_writers S"] by simp
      show "groups_ok (Suc n0) (take (length G) G') (Suc (unat (di_last_sequence S)))" using d(2) by (simp add: G'_def)
      show "groups_ok (Suc (unat (di_last_sequence S))) (drop (length G) G') (2 ^ 56)" using l(1) by (simp add: G'_def)
      show "concat (map snd (take (length G) G')) = applied ops D" using d(1) by (simp add: G'_def)
      show "concat (map snd (drop (length G) G')) = applied ops F" by (simp add: G'_def ap)
      show "k \<le> length G'" "holds (di_mem S) (drop k G')" using d(3) l(2) by (simp_all add: G'_def)
      show "case di_imm S of None \<Rightarrow> fl = k | Some m \<Rightarrow> fl \<le> k \<and> holds m (drop fl (take k G'))"
        using d(3,4) by (simp add: G'_def split: option.splits)
    qed (rule ret)
  qed
qed

text \<open>
  C4: however calls of \<open>Write\<close> by any number of threads, background work and spurious wake-ups interleave, no
  assertion of the write path fails, and the calls are decided in the order in which they entered the
  queue: a call that has returned is decided with the status it returned, the operations of the calls that
  succeeded are in the memtables in that order, under rising sequence numbers, those of decided calls at or
  below the last sequence number and those of a group in flight above it.
\<close>

theorem write_queue_serialises:
  assumes "write_history env (NewDBImpl env lfile log_number next_file n) acts S" "we_compare env = BytewiseCompare"
    and "\<forall>a \<in> set acts. good_call ops a" "unat n + op_total ops (calls_of acts) < 2 ^ 56"
  shows "(\<exists>D F G j fl k. serial_view ops (unat n) (calls_of acts) S D F G j fl k \<and> ((\<forall>a \<in> set acts. \<not> action_flushes a) \<longrightarrow> fl = 0))
    \<and> (\<forall>a. good_call ops a \<and> unat n + op_total ops (calls_of (acts @ [a])) < 2 ^ 56 \<longrightarrow> write_step env a S \<noteq> Some None)"
proof -
  from write_history_inv [OF assms] obtain fl D G k where i: "write_inv ops (unat n) fl S (calls_of acts) D G k"
    "(\<forall>a \<in> set acts. \<not> action_flushes a) \<longrightarrow> fl = 0" by blast
  have "write_step env a S \<noteq> Some None"
    if "good_call ops a" "unat n + op_total ops (calls_of (acts @ [a])) < 2 ^ 56" for a
  proof
    assume "write_step env a S = Some None"
    from write_step_inv [OF i(1) assms(2) this that(1)] that(2) show False by (simp add: calls_of_def)
  qed
  then show ?thesis using inv_serialised [OF i(1)] i(2) by blast
qed

theorem write_queue_serialises_witness:
  "\<exists>S D F G j k. write_history sample_env (NewDBImpl sample_env [] 3 4 0) (sample_calls @ map Step [0, 0, 0, 0]) S
    \<and> di_phase S 0 = Returned OK \<and> di_phase S 1 = Waiting True \<and> (0, OK) \<in> set D
    \<and> serial_view sample_ops 0 [0, 1] S D F G j 0 k"
proof -
  define acts where "acts = sample_calls @ map Step [0, 0, 0, 0]"
  from sample_history obtain S where S: "run_actions sample_env acts (NewDBImpl sample_env [] 3 4 0) = Some S"
    "di_phase S 0 = Returned OK" "di_phase S 1 = Waiting True" unfolding acts_def by blast
  have c: "calls_of acts = [0, 1]" using sample_good(2) by (simp add: acts_def calls_of_def)
  have good: "\<forall>a \<in> set acts. good_call sample_ops a" "\<forall>a \<in> set acts. \<not> action_flushes a"
    using sample_good(1) by (auto simp: acts_def sample_calls_def)
  have "unat (0 :: u64) + op_total sample_ops (calls_of acts) < 2 ^ 56" by (simp add: c op_total_def sample_ops_def)
  with write_queue_serialises [OF run_actions_history [OF S(1)] sample_good(3) good(1)] good(2)
  obtain D F G j k where v: "serial_view sample_ops 0 [0, 1] S D F G j 0 k" unfolding c by auto
  then have "(0, OK) \<in> set D" using S(2) unfolding serial_view_def by blast
  then show ?thesis using S(2,3) v run_actions_history [OF S(1)] unfolding acts_def by blast
qed

section \<open>Progress\<close>

fun phase_weight :: "write_phase \<Rightarrow> nat" where
  "phase_weight (Waiting _) = 10"
| "phase_weight (RoomReady _ _) = 9"
| "phase_weight (Sleeping _) = 8"
| "phase_weight (RoomWait _ _) = 7"
| "phase_weight (Logging _ _ _) = 6"
| "phase_weight (Logged _ _ _ _) = 5"
| "phase_weight (Synced _ _ _ _ _) = 4"
| "phase_weight (Inserted _ _ _ _ _) = 3"
| "phase_weight _ = 0"

lemma weight_signalled [simp]: "phase_weight (signalled p) = phase_weight p"
  by (cases p) simp_all

definition phase_moves :: "nat \<Rightarrow> nat \<Rightarrow> 'f DBImpl \<Rightarrow> 'f DBImpl \<Rightarrow> bool" where
  "phase_moves w n S S' \<longleftrightarrow> phase_weight (di_phase S' w) \<le> n \<and> (\<forall>x. x \<noteq> w \<longrightarrow> phase_weight (di_phase S' x) = phase_weight (di_phase S x))"

lemma phase_moves_mono: "phase_moves w m S S' \<Longrightarrow> m \<le> n \<Longrightarrow> phase_moves w n S S'"
  by (auto simp: phase_moves_def)

lemma pop_group_weight:
  "pop_group w l st q S = Some S' \<Longrightarrow> phase_weight (di_phase S' x) = phase_weight (di_phase S x)"
  by (induction q arbitrary: S) (auto simp: SignalWriter_def set_phase_def Let_def split: if_splits)

lemma leave_queue_moves:
  assumes "leave_queue w l st S = Some S'"
  shows "phase_moves w 0 S S'"
proof -
  from assms obtain z where z: "pop_group w l st (di_writers S) S = Some z" "S' = set_phase w (Returned st) (wake_head z)"
    by (auto simp: leave_queue_def wake_head_def Let_def)
  have "phase_weight (di_phase (wake_head z) x) = phase_weight (di_phase z x)" for x
    by (auto simp: wake_head_fields split: list.split)
  then show ?thesis using pop_group_weight [OF z(1)] z(2) by (simp add: phase_moves_def set_phase_def)
qed

lemma start_group_moves: "start_group w st S = Some S' \<Longrightarrow> phase_moves w 6 S S'"
  using leave_queue_moves [of w w st S S', THEN phase_moves_mono]
  by (auto simp: start_group_def phase_moves_def set_phase_def set_write_batch_def Let_def split: if_splits bind_splits)

lemma make_room_phase:
  "make_room_loop env force delay S = Some (r, S') \<Longrightarrow> di_phase S' = di_phase S \<and> (\<not> delay \<longrightarrow> (\<forall>f. r \<noteq> RoomDelay f))"
proof (induction env force delay S rule: make_room_loop.induct)
  case (1 env force delay S)
  show ?case
    using "1.prems" "1.IH" unfolding make_room_loop.simps [of env force delay S]
    by (auto simp: NewFileNumber_def ReuseFileNumber_def SwitchMemTable_def MaybeScheduleCompaction_def split: if_splits prod.splits)
qed

lemma lead_moves:
  assumes "lead env w force delay S = Some S'"
  shows "phase_moves w (if delay then 8 else 7) S S'"
proof -
  from assms obtain r S1 where r: "make_room_loop env force delay S = Some (r, S1)" by (auto simp: lead_def split: if_splits bind_splits)
  note ph = make_room_phase [OF r]
  show ?thesis
  proof (cases r)
    case (RoomDone st)
    then have "start_group w st S1 = Some S'" using assms r by (simp add: lead_def split: if_splits)
    from start_group_moves [OF this] show ?thesis using ph by (auto simp: phase_moves_def)
  qed (use assms r ph in \<open>auto simp: lead_def phase_moves_def set_phase_def split: if_splits\<close>)
qed

lemma check_turn_moves:
  assumes "write_inv ops n0 fl S arr D G k" "di_phase S w = Waiting True" "check_turn env w S = Some S'"
  shows "phase_moves w 8 S S'"
  using assms(1)
proof (cases rule: inv_cases [where w = w])
  case (finished s)
  then show ?thesis using assms(2,3) by (auto simp: check_turn_def phase_moves_def set_phase_def)
next
  case (head q)
  then have "lead env w (w_batch (di_writer S w) = None) (\<not> (w_batch (di_writer S w) = None)) S = Some S'"
    using assms(3) by (simp add: check_turn_def MakeRoomForWrite_def)
  from lead_moves [OF this] show ?thesis by (rule phase_moves_mono) simp
qed (use assms(2) in simp_all)

lemma finish_group_moves:
  assumes "write_inv ops n0 fl S arr D G k" "di_phase S w = Inserted tmp l lseq st e" "finish_group w tmp l lseq st e S = Some S'"
  shows "phase_moves w 0 S S'"
proof -
  have wake: "wake_room (di_phase S x) = di_phase S x" for x by (rule wake_phase_front [OF assms(1,2)])
  have ph: "di_phase (if e then RecordBackgroundError st S else S) = di_phase S"
    by (simp add: RecordBackgroundError_def SignalBackground_def wake)
  define S2 where "S2 = (if tmp then (if e then RecordBackgroundError st S else S)\<lparr>di_tmp_batch := WriteBatchClear (di_tmp_batch (if e then RecordBackgroundError st S else S))\<rparr>
    else (if e then RecordBackgroundError st S else S))"
  have "Option.bind (VersionSetLastSequence lseq S2) (leave_queue w l st) = Some S'"
    using assms(3) unfolding finish_group_def Let_def S2_def .
  then obtain S1 where S1: "VersionSetLastSequence lseq S2 = Some S1" "leave_queue w l st S1 = Some S'" by (auto split: bind_splits)
  have "di_phase S2 = di_phase S" unfolding S2_def using ph by (cases tmp) simp_all
  then have "di_phase S1 = di_phase S" using S1(1) by (auto simp: VersionSetLastSequence_def split: if_splits)
  then show ?thesis using leave_queue_moves [OF S1(2)] by (simp add: phase_moves_def)
qed

lemma thread_step_moves:
  assumes "write_inv ops n0 fl S arr D G k" "thread_step env w S = Some (Some S')"
  obtains m where "phase_moves w m S S'" "m < phase_weight (di_phase S w)"
proof (cases "di_phase S w")
  case (Waiting b)
  then have "di_phase S w = Waiting True" "check_turn env w S = Some S'" using assms(2) by (cases b; simp add: thread_step_def)+
  then show ?thesis using that [of 8] check_turn_moves [OF assms(1)] by simp
next
  case (Sleeping f)
  then show ?thesis using assms(2) that [of 7] lead_moves [of env w f False S S'] by (simp add: thread_step_def)
next
  case (RoomReady f d)
  then show ?thesis using assms(2) that [of 8] lead_moves [of env w f d S S', THEN phase_moves_mono] by (simp add: thread_step_def)
next
  case (Logging tmp l lseq)
  then have "phase_moves w 5 S S'" using assms(2)
    by (auto simp: thread_step_def log_step_def phase_moves_def set_phase_def split: bind_splits)
  then show ?thesis using that Logging by simp
next
  case (Logged tmp l lseq st)
  then have "phase_moves w 4 S S'" using assms(2)
    by (auto simp: thread_step_def sync_step_def phase_moves_def set_phase_def split: if_splits prod.splits)
  then show ?thesis using that Logged by simp
next
  case (Synced tmp l lseq st e)
  then have "phase_moves w 3 S S'" using assms(2)
    by (auto simp: thread_step_def insert_step_def phase_moves_def set_phase_def split: if_splits bind_splits)
  then show ?thesis using that Synced by simp
next
  case (Inserted tmp l lseq st e)
  then show ?thesis using assms(2) that [of 0] finish_group_moves [OF assms(1) Inserted] by (simp add: thread_step_def)
qed (use assms(2) in \<open>simp_all add: thread_step_def\<close>)

definition work_left :: "nat list \<Rightarrow> 'f DBImpl \<Rightarrow> nat" where
  "work_left calls S = (\<Sum>w \<leftarrow> calls. phase_weight (di_phase S w))"

lemma phase_moves_sum:
  assumes "phase_moves w m S S'" "m < phase_weight (di_phase S w)"
  shows "work_left calls S' \<le> work_left calls S" "w \<in> set calls \<Longrightarrow> work_left calls S' < work_left calls S"
proof -
  have le: "phase_weight (di_phase S' x) \<le> phase_weight (di_phase S x)" for x
    using assms by (cases "x = w") (auto simp: phase_moves_def)
  have lt: "phase_weight (di_phase S' w) < phase_weight (di_phase S w)" using assms by (simp add: phase_moves_def)
  show "work_left calls S' \<le> work_left calls S" unfolding work_left_def by (rule sum_list_mono) (rule le)
  show "w \<in> set calls \<Longrightarrow> work_left calls S' < work_left calls S"
  proof (induction calls)
    case (Cons x calls)
    have "work_left calls S' \<le> work_left calls S" unfolding work_left_def by (rule sum_list_mono) (rule le)
    then show ?case using Cons lt le [of x] by (cases "x = w") (auto simp: work_left_def)
  qed simp
qed

lemma work_left_bound: "work_left calls S \<le> 10 * length calls"
proof -
  have "phase_weight p \<le> 10" for p by (cases p) simp_all
  then show ?thesis unfolding work_left_def by (induction calls) (simp_all add: add_mono)
qed

lemma inv_stuck:
  assumes "write_inv ops n0 fl S arr D G k" "\<forall>w. thread_step env w S = None"
  shows "(\<forall>w \<in> set arr. \<exists>s. di_phase S w = Returned s) \<or> (\<exists>h q f d. di_writers S = h # q \<and> di_phase S h = RoomWait f d
    \<and> (di_imm S \<noteq> None \<or> kL0_StopWritesTrigger \<le> di_level0_files S))"
proof (cases "di_writers S")
  case Nil
  have "\<exists>s. di_phase S w = Returned s" if "w \<in> set arr" for w
    using assms(1)
  proof (cases rule: inv_cases [where w = w])
    case (finished s)
    then show ?thesis using assms(2) [rule_format, of w] by (auto simp: thread_step_def)
  qed (use Nil that in simp_all)
  then show ?thesis by blast
next
  case (Cons h q)
  have "head_ok ops S G k h" using assms(1) Cons by (simp add: write_inv_def)
  then show ?thesis using assms(2) [rule_format, of h] Cons
    by (cases "di_phase S h") (auto simp: head_ok_def thread_step_def split: bool.splits)
qed

lemma thread_run:
  assumes "write_history env S (map Step ws) S'" "write_history env (NewDBImpl env lfile log_number next_file n) acts S" "we_compare env = BytewiseCompare"
    and "\<forall>a \<in> set acts. good_call ops a" "unat n + op_total ops (calls_of acts) < 2 ^ 56"
  shows "length ws + work_left (calls_of acts) S' \<le> work_left (calls_of acts) S
    \<and> (\<exists>fl D G k. write_inv ops (unat n) fl S' (calls_of acts) D G k)"
  using assms(1)
proof (induction ws arbitrary: S' rule: rev_induct)
  case Nil
  then have "S' = S" by (auto elim: write_history.cases)
  then show ?case using write_history_inv [OF assms(2-5)] by auto
next
  case (snoc w ws)
  from snoc.prems obtain S1 where S1: "write_history env S (map Step ws) S1" "write_step env (Step w) S1 = Some (Some S')"
    by (auto elim: write_history.cases)
  from snoc.IH [OF S1(1)] obtain fl D G k where i: "write_inv ops (unat n) fl S1 (calls_of acts) D G k"
    and le: "length ws + work_left (calls_of acts) S1 \<le> work_left (calls_of acts) S" by blast
  have step: "thread_step env w S1 = Some (Some S')" using S1(2) by (simp add: write_step_def)
  then obtain m where m: "phase_moves w m S1 S'" "m < phase_weight (di_phase S1 w)" by (rule thread_step_moves [OF i])
  have "roster_ok S1 (calls_of acts) D" using i unfolding write_inv_def base_ok_def by blast
  then have "w \<in> set (calls_of acts)" using roster_called [of S1 "calls_of acts" D w] m(2) by auto
  then have "work_left (calls_of acts) S' < work_left (calls_of acts) S1" by (rule phase_moves_sum(2) [OF m])
  moreover from thread_step_inv [OF i assms(3) step] have "\<exists>fl D G k. write_inv ops (unat n) fl S' (calls_of acts) D G k" by blast
  ultimately show ?case using le by simp
qed

text \<open>
  C6: the write queue neither deadlocks nor runs on for ever. From any state that it reaches, the threads
  take at most ten steps for each call, whatever their order; and where none of them can take a
  step, every call has returned, or the thread at the front waits for the compaction thread while \<open>imm_\<close> is
  not yet compacted or level 0 has too many files.
\<close>

theorem write_calls_finish:
  assumes "write_history env (NewDBImpl env lfile log_number next_file n) acts S" "we_compare env = BytewiseCompare"
    and "\<forall>a \<in> set acts. good_call ops a" "unat n + op_total ops (calls_of acts) < 2 ^ 56"
    and "write_history env S (map Step ws) S'"
  shows "length ws \<le> 10 * length (calls_of acts)
    \<and> ((\<forall>w. thread_step env w S' = None) \<longrightarrow>
        (\<forall>w \<in> set (calls_of acts). \<exists>s. di_phase S' w = Returned s)
      \<or> (\<exists>h q f d. di_writers S' = h # q \<and> di_phase S' h = RoomWait f d
          \<and> (di_imm S' \<noteq> None \<or> kL0_StopWritesTrigger \<le> di_level0_files S')))"
proof -
  from thread_run [OF assms(5,1-4)] obtain fl D G k where i: "write_inv ops (unat n) fl S' (calls_of acts) D G k"
    and le: "length ws + work_left (calls_of acts) S' \<le> work_left (calls_of acts) S" by blast
  then have "length ws \<le> 10 * length (calls_of acts)" using work_left_bound [of "calls_of acts" S] by linarith
  then show ?thesis using inv_stuck [OF i] by blast
qed

theorem write_calls_finish_witness:
  "\<exists>S S'. write_history sample_env S (map Step [0, 0, 0, 0]) S' \<and> di_phase S' 0 = Returned OK
    \<and> length [0, 0, 0, 0 :: nat] \<le> 10 * length (calls_of sample_calls)
    \<and> ((\<forall>w. thread_step sample_env w S' = None) \<longrightarrow>
        (\<forall>w \<in> set [0, 1]. \<exists>s. di_phase S' w = Returned s)
      \<or> (\<exists>h q f d. di_writers S' = h # q \<and> di_phase S' h = RoomWait f d
          \<and> (di_imm S' \<noteq> None \<or> kL0_StopWritesTrigger \<le> di_level0_files S')))"
proof -
  from sample_history obtain S S' where S: "run_actions sample_env sample_calls (NewDBImpl sample_env [] 3 4 0) = Some S"
    "run_actions sample_env (map Step [0, 0, 0, 0]) S = Some S'" "di_phase S' 0 = Returned OK"
    unfolding run_actions_append by (auto simp del: run_actions.simps split: bind_splits)
  have "unat (0 :: u64) + op_total sample_ops (calls_of sample_calls) < 2 ^ 56" by (simp add: sample_good op_total_def sample_ops_def)
  from write_calls_finish [OF run_actions_history [OF S(1)] sample_good(3,1) this run_actions_history [OF S(2)]]
  show ?thesis using S(3) run_actions_history [OF S(2)] unfolding sample_good(2) by blast
qed

end
