(* ===== verification/Db_Read.thy ===== *)
theory Db_Read
  imports Db_Write_Live
begin

text \<open>
  \<open>DBImpl::Get\<close> of \<open>db/db_impl.cc\<close> over the state of the write path: the memtable, the immutable memtable, and
  then the current version, whose lookup is a parameter. The statistics for compaction that \<open>Get\<close> updates
  are not modelled. A read is what one thread does at one moment, with the snapshot of that moment.
\<close>

section \<open>Reading and writing one key\<close>

definition DBGet ::
    "'f write_env \<Rightarrow> (LookupKey \<Rightarrow> Status \<times> bytes option) \<Rightarrow> u64 option \<Rightarrow> bytes \<Rightarrow> 'f DBImpl \<Rightarrow> (Status \<times> bytes option) option" where
  "DBGet env current options_snapshot key S =
     (let snapshot = (case options_snapshot of Some s \<Rightarrow> s | None \<Rightarrow> di_last_sequence S) in
      Option.bind (NewLookupKey key snapshot) (\<lambda>lkey.
      Option.bind (MemTableGet (we_compare env) lkey (di_mem S)) (\<lambda>r.
        case r of
          Found v \<Rightarrow> Some (OK, Some v)
        | Deleted s \<Rightarrow> Some (s, None)
        | Missing \<Rightarrow>
            (case di_imm S of
               None \<Rightarrow> Some (current lkey)
             | Some imm \<Rightarrow>
                 Option.bind (MemTableGet (we_compare env) lkey imm) (\<lambda>r.
                   case r of
                     Found v \<Rightarrow> Some (OK, Some v)
                   | Deleted s \<Rightarrow> Some (s, None)
                   | Missing \<Rightarrow> Some (current lkey))))))"

definition DBPut :: "'f write_env \<Rightarrow> nat \<Rightarrow> bool \<Rightarrow> bytes \<Rightarrow> bytes \<Rightarrow> 'f DBImpl \<Rightarrow> 'f DBImpl option" where
  "DBPut env w sync key val S = CallWrite env w (Some (WriteBatchPut key val NewWriteBatch)) sync S"

definition DBDelete :: "'f write_env \<Rightarrow> nat \<Rightarrow> bool \<Rightarrow> bytes \<Rightarrow> 'f DBImpl \<Rightarrow> 'f DBImpl option" where
  "DBDelete env w sync key S = CallWrite env w (Some (WriteBatchDelete key NewWriteBatch)) sync S"

section \<open>What the groups say of a key\<close>

definition map_at :: "u64 \<Rightarrow> (nat \<times> batch_op list) list \<Rightarrow> bytes \<rightharpoonup> bytes" where
  "map_at s G = fold apply_map (concat (map (\<lambda>(n, xs). take (Suc (unat s) - n) xs) G)) Map.empty"

definition entry_read :: "mem_entry option \<Rightarrow> Status \<times> bytes option" where
  "entry_read e = (case result_of e of Found v \<Rightarrow> (OK, Some v) | Deleted s \<Rightarrow> (s, None) | Missing \<Rightarrow> (NotFound [], None))"

lemma entry_read_value: "snd (entry_read e) = result_value (result_of e)"
  "fst (entry_read e) = (if snd (entry_read e) = None then NotFound [] else OK)"
  by (cases e; auto simp: entry_read_def split: ValueType.split)+

lemma newest_visible_append:
  assumes "\<forall>e \<in> set xs. \<forall>f \<in> set ys. entry_tag f < entry_tag e"
  shows "newest_visible u s (xs @ ys) = (case newest_visible u s xs of None \<Rightarrow> newest_visible u s ys | Some e \<Rightarrow> Some e)"
  using assms
proof (induction xs)
  case (Cons x xs)
  have IH: "newest_visible u s (xs @ ys) = (case newest_visible u s xs of None \<Rightarrow> newest_visible u s ys | Some e \<Rightarrow> Some e)"
    using Cons by simp
  show ?case
  proof (cases "newest_visible u s xs")
    case None
    show ?thesis
    proof (cases "newest_visible u s ys")
      case (Some f)
      then have "entry_tag f < entry_tag x" using newest_visible_Some [OF Some] Cons.prems by simp
      then show ?thesis using IH None Some by simp
    qed (use IH None in simp)
  qed (use IH in simp)
qed simp

lemma tag_less: "unat (me_seq f) < unat (me_seq e) \<Longrightarrow> unat (me_seq e) < 2 ^ 56 \<Longrightarrow> entry_tag f < entry_tag e"
  using packed_less_iff [of "me_seq f" "me_seq e" "me_type f" "me_type e"] by (simp add: entry_tag_def word_less_nat_alt)

lemma groups_ok_split: "groups_ok lo (G @ H) hi \<longleftrightarrow> (\<exists>m. groups_ok lo G m \<and> groups_ok m H hi)"
proof (induction lo G hi rule: groups_ok.induct)
  case (1 lo hi)
  show ?case
  proof
    assume "groups_ok lo ([] @ H) hi"
    then show "\<exists>m. groups_ok lo [] m \<and> groups_ok m H hi" by (intro exI [of _ lo]) simp
  next
    assume "\<exists>m. groups_ok lo [] m \<and> groups_ok m H hi"
    then show "groups_ok lo ([] @ H) hi" by (cases H) auto
  qed
qed auto

lemma op_entries_range: "e \<in> set (op_entries n xs) \<Longrightarrow> n + length xs \<le> 2 ^ 56 \<Longrightarrow> n \<le> unat (me_seq e) \<and> unat (me_seq e) < n + length xs"
  using op_entries_seq [of e n xs] by (auto simp: unat_of_nat_small)

lemma group_entries_range:
  assumes "groups_ok lo G hi" "hi \<le> 2 ^ 56" "e \<in> set (group_entries G)"
  shows "lo \<le> unat (me_seq e) \<and> unat (me_seq e) < hi"
  using assms
proof (induction lo G hi rule: groups_ok.induct)
  case (2 lo n xs gs hi)
  have hi: "n + length xs \<le> hi" using 2(2) groups_ok_le [of "n + length xs" gs hi] by simp
  show ?case
  proof (cases "e \<in> set (op_entries n xs)")
    case True
    then show ?thesis using op_entries_range [OF True] hi 2(2,3) by simp
  next
    case False
    then have "e \<in> set (group_entries gs)" using 2(4) by (auto simp: group_entries_def)
    then show ?thesis using 2(1) 2(2,3) by fastforce
  qed
qed (simp add: group_entries_def)

lemma group_entries_append: "group_entries (G @ H) = group_entries H @ group_entries G"
  by (simp add: group_entries_def)

text \<open>Later groups hide earlier ones.\<close>

lemma newest_visible_groups:
  assumes "groups_ok lo (G @ H) hi" "hi \<le> 2 ^ 56"
  shows "newest_visible u s (group_entries (G @ H))
    = (case newest_visible u s (group_entries H) of None \<Rightarrow> newest_visible u s (group_entries G) | Some e \<Rightarrow> Some e)"
proof -
  from assms(1) obtain m where m: "groups_ok lo G m" "groups_ok m H hi" unfolding groups_ok_split by blast
  have "m \<le> 2 ^ 56" using groups_ok_le [OF m(2)] assms(2) by simp
  then have "entry_tag f < entry_tag e" if "e \<in> set (group_entries H)" "f \<in> set (group_entries G)" for e f
    using group_entries_range [OF m(1) _ that(2)] group_entries_range [OF m(2) assms(2) that(1)] assms(2) by (intro tag_less) auto
  then show ?thesis unfolding group_entries_append by (intro newest_visible_append) blast
qed

lemma snapshot_over:
  assumes "n + length ops \<le> 2 ^ 56" "unat s < 2 ^ 56"
  shows "(case newest_visible u s (rev (op_entries n ops)) of None \<Rightarrow> m u | Some e \<Rightarrow> result_value (result_of (Some e)))
    = fold apply_map (take (Suc (unat s) - n) ops) m u"
  using assms(1)
proof (induction ops rule: rev_induct)
  case (snoc op ops)
  define f where "f = op_entry (n + length ops) op"
  have key: "visible u s f \<longleftrightarrow> me_key f = u \<and> n + length ops \<le> unat s"
    using snoc.prems unat_op_seq [of "n + length ops" op] by (simp add: visible_def f_def word_le_nat_alt)
  have nv: "newest_visible u s (rev (op_entries n (ops @ [op]))) = (if visible u s f then Some f else newest_visible u s (rev (op_entries n ops)))"
    unfolding f_def by (rule newest_visible_snoc) (use snoc.prems assms(2) in simp_all)
  have IH: "(case newest_visible u s (rev (op_entries n ops)) of None \<Rightarrow> m u | Some e \<Rightarrow> result_value (result_of (Some e)))
      = fold apply_map (take (Suc (unat s) - n) ops) m u" using snoc by simp
  show ?case
  proof (cases "n + length ops \<le> unat s")
    case True
    then have "take (Suc (unat s) - n) (ops @ [op]) = ops @ [op]" "take (Suc (unat s) - n) ops = ops" by simp_all
    with True IH key show ?thesis unfolding nv by (cases op) (auto simp: f_def)
  next
    case False
    then have "take (Suc (unat s) - n) (ops @ [op]) = take (Suc (unat s) - n) ops" by simp
    with False IH key show ?thesis unfolding nv by simp
  qed
qed simp

lemma snapshot_groups:
  assumes "groups_ok lo G hi" "hi \<le> 2 ^ 56" "unat s < 2 ^ 56"
  shows "result_value (result_of (newest_visible u s (group_entries G))) = map_at s G u"
  using assms(1)
proof (induction G rule: rev_induct)
  case Nil
  then show ?case by (simp add: group_entries_def map_at_def)
next
  case (snoc g G)
  obtain n xs where g: "g = (n, xs)" by (cases g)
  from snoc.prems [unfolded groups_ok_split] obtain m where m: "groups_ok lo G m" "m \<le> n" "n + length xs \<le> hi"
    unfolding g by auto
  have IH: "result_value (result_of (newest_visible u s (group_entries G))) = map_at s G u" by (rule snoc.IH) (rule groups_ok_mono [OF m(1)], use m(2,3) in simp)
  have "map_at s (G @ [g]) u = fold apply_map (take (Suc (unat s) - n) xs) (map_at s G) u" by (simp add: map_at_def g)
  also have "\<dots> = (case newest_visible u s (rev (op_entries n xs)) of None \<Rightarrow> map_at s G u | Some e \<Rightarrow> result_value (result_of (Some e)))"
    by (rule snapshot_over [OF order_trans [OF m(3) assms(2)] assms(3), symmetric])
  finally show ?case using newest_visible_groups [OF snoc.prems assms(2), of u s] IH
    by (simp add: g group_entries_def split: option.splits)
qed

section \<open>What a read sees\<close>

definition read_result :: "bytes option \<Rightarrow> Status \<times> bytes option" where
  "read_result v = (case v of Some _ \<Rightarrow> (OK, v) | None \<Rightarrow> (NotFound [], None))"

lemma entry_read_result: "entry_read e = read_result (result_value (result_of e))"
  by (cases e) (auto simp: entry_read_def read_result_def split: ValueType.split)

lemma map_at_serial:
  assumes "groups_ok lo (take j G) (Suc (unat s))" "groups_ok (Suc (unat s)) (drop j G) hi"
  shows "map_at s G = fold apply_map (concat (map snd (take j G))) Map.empty"
proof -
  have "concat (map (\<lambda>(n, xs). take (Suc (unat s) - n) xs) A) = concat (map snd A)" if "groups_ok lo A (Suc (unat s))" for A lo
    using that
  proof (induction lo A "Suc (unat s)" rule: groups_ok.induct)
    case (2 lo n xs gs)
    then have "n + length xs \<le> Suc (unat s)" using groups_ok_le [of "n + length xs" gs] by simp
    then show ?case using 2 by simp
  qed simp
  moreover have "concat (map (\<lambda>(n, xs). take (Suc (unat s) - n) xs) B) = []" if "groups_ok lo B hi" "Suc (unat s) \<le> lo" for B lo hi
    using that by (induction lo B hi rule: groups_ok.induct) auto
  ultimately have "concat (map (\<lambda>(n, xs). take (Suc (unat s) - n) xs) (take j G @ drop j G)) = concat (map snd (take j G)) @ []"
    using assms unfolding map_append concat_append by (metis order_refl)
  then show ?thesis by (simp add: map_at_def)
qed

lemma calls_good:
  assumes "\<forall>a \<in> set acts. good_call ops a" "w \<in> set (calls_of acts)" "op \<in> set (ops w)"
  shows "op_ok op"
proof -
  obtain a where a: "a \<in> set acts" "w \<in> set (action_calls a)" using assms(2) by (auto simp: calls_of_def)
  have "good_call ops a" using assms(1) a(1) by blast
  then show ?thesis using a(2) assms(3) by (cases a rule: write_action.exhaust) auto
qed

lemma applied_ok:
  assumes "\<forall>a \<in> set acts. good_call ops a" "fst ` set D \<subseteq> set (calls_of acts)"
  shows "\<forall>op \<in> set (applied ops D). op_ok op"
  using calls_good [OF assms(1)] assms(2) by (auto simp: applied_def split: if_splits)

lemma held_get:
  assumes "holds m H" "groups_ok lo H hi" "hi \<le> 2 ^ 56" "\<forall>op \<in> set (concat (map snd H)). op_ok op"
    and "NewLookupKey u s = Some lk" "length u + 8 < 2 ^ 32"
  shows "MemTableGet BytewiseCompare lk m = Some (result_of (newest_visible u s (group_entries H)))"
proof (rule MemTableGet_correct [OF _ assms(5,6)])
  show "mem_abs m (group_entries H)"
    using mem_history_abs [OF assms(1) [unfolded holds_def]] group_entries_ok [OF assms(2-4)] by blast
qed

lemma serial_get:
  assumes "serial_view ops n0 (calls_of acts) S D F G j fl k" "\<forall>a \<in> set acts. good_call ops a" "we_compare env = BytewiseCompare"
    and "length u + 8 < 2 ^ 32" "unat (di_last_sequence S) < 2 ^ 56"
    and "\<forall>lk. NewLookupKey u (di_last_sequence S) = Some lk \<longrightarrow>
      current lk = entry_read (newest_visible u (di_last_sequence S) (group_entries (take fl G)))"
  shows "DBGet env current None u S = Some (read_result (fold apply_map (applied ops D) Map.empty u))"
proof -
  define s where "s = di_last_sequence S"
  note v = assms(1) [unfolded serial_view_def, folded s_def]
  have k: "k \<le> length G" "holds (di_mem S) (drop k G)"
    and imm: "case di_imm S of None \<Rightarrow> fl = k | Some m \<Rightarrow> fl \<le> k \<and> holds m (drop fl (take k G))"
    and parts: "groups_ok (Suc n0) (take j G) (Suc (unat s))" "groups_ok (Suc (unat s)) (drop j G) (2 ^ 56)"
    and D: "concat (map snd (take j G)) = applied ops D" "concat (map snd (drop j G)) = applied ops F"
    using v by blast+
  have "s \<le> kMaxSequenceNumber" using assms(5) by (simp add: kMaxSequenceNumber_unat s_def)
  then have "NewLookupKey u s \<noteq> None" by (simp add: NewLookupKey_def PackSequenceAndType_def Let_def)
  then obtain lk where lk: "NewLookupKey u s = Some lk" by blast
  have G: "groups_ok (Suc n0) G (2 ^ 56)" using parts groups_ok_split [of "Suc n0" "take j G" "drop j G" "2 ^ 56"] by auto
  have DF: "fst ` set D \<subseteq> set (calls_of acts)" "fst ` set F \<subseteq> set (calls_of acts)"
  proof -
    have c: "calls_of acts = map fst D @ di_writers S" and "\<exists>i. F = map (\<lambda>w. (w, OK)) (take i (di_writers S))" using v by blast+
    then obtain i where "F = map (\<lambda>w. (w, OK)) (take i (di_writers S))" by blast
    then show "fst ` set F \<subseteq> set (calls_of acts)" unfolding c by (auto dest: in_set_takeD)
    show "fst ` set D \<subseteq> set (calls_of acts)" unfolding c by auto
  qed
  have "concat (map snd G) = applied ops D @ applied ops F" using D by (metis append_take_drop_id concat_append map_append)
  then have ok: "\<forall>op \<in> set (concat (map snd G)). op_ok op"
    using applied_ok [OF assms(2) DF(1)] applied_ok [OF assms(2) DF(2)] by auto
  have part: "\<exists>lo hi. groups_ok lo H hi \<and> hi \<le> 2 ^ 56" "\<forall>op \<in> set (concat (map snd H)). op_ok op" if "G = A @ H @ B" for A H B
  proof -
    from G [unfolded that groups_ok_split] obtain m hi where "groups_ok m H hi" "groups_ok hi B (2 ^ 56)" by blast
    then show "\<exists>lo hi. groups_ok lo H hi \<and> hi \<le> 2 ^ 56" using groups_ok_le by blast
    show "\<forall>op \<in> set (concat (map snd H)). op_ok op" using ok unfolding that by simp
  qed
  have get: "MemTableGet BytewiseCompare lk m = Some (result_of (newest_visible u s (group_entries H)))"
    if "holds m H" "G = A @ H @ B" for m H A B
    using part [OF that(2)] held_get [OF that(1) _ _ _ lk assms(4)] by blast
  have mem: "MemTableGet BytewiseCompare lk (di_mem S) = Some (result_of (newest_visible u s (group_entries (drop k G))))"
    using get [OF k(2), of "take k G" "[]"] by simp
  have nv: "newest_visible u s (group_entries (A @ H))
      = (case newest_visible u s (group_entries H) of None \<Rightarrow> newest_visible u s (group_entries A) | Some e \<Rightarrow> Some e)"
    if "G = A @ H @ B" for A H B
  proof -
    from G [unfolded that] obtain hi where "groups_ok (Suc n0) (A @ H) hi" "groups_ok hi B (2 ^ 56)"
      using groups_ok_split [of "Suc n0" "A @ H" B] by auto
    then show ?thesis using newest_visible_groups groups_ok_le by blast
  qed
  define e where "e = newest_visible u s (group_entries G)"
  have e: "e = (case newest_visible u s (group_entries (drop k G)) of None \<Rightarrow> newest_visible u s (group_entries (take k G)) | Some e \<Rightarrow> Some e)"
    using nv [of "take k G" "drop k G" "[]"] by (simp add: e_def)
  have "DBGet env current None u S = Some (entry_read e)"
  proof (cases "di_imm S")
    case None
    then have "fl = k" using imm by simp
    then show ?thesis using None mem lk assms(3,6)
      by (auto simp: DBGet_def Let_def e s_def [symmetric] entry_read_def split: option.splits ValueType.splits)
  next
    case (Some m)
    then have m: "fl \<le> k" "holds m (drop fl (take k G))" using imm by simp_all
    have split: "G = take fl G @ drop fl (take k G) @ drop k G"
      using m(1) by (metis append.assoc append_take_drop_id min.absorb1 take_take)
    have t: "take k G = take fl G @ drop fl (take k G)" using m(1) by (metis append_take_drop_id min.absorb1 take_take)
    have "newest_visible u s (group_entries (take k G)) = (case newest_visible u s (group_entries (drop fl (take k G))) of
        None \<Rightarrow> newest_visible u s (group_entries (take fl G)) | Some e \<Rightarrow> Some e)"
      by (subst t, rule nv [OF split])
    then show ?thesis using Some mem get [OF m(2) split] lk assms(3,6)
      by (auto simp: DBGet_def Let_def e s_def [symmetric] entry_read_def split: option.splits ValueType.splits)
  qed
  also have "entry_read e = read_result (map_at s G u)"
    unfolding entry_read_result e_def using snapshot_groups [OF G order_refl] assms(5) by (simp add: s_def)
  also have "map_at s G u = fold apply_map (applied ops D) Map.empty u" using map_at_serial [OF parts] D(1) by simp
  finally show ?thesis .
qed



end
