(* ===== verification/Spec2Isabelle.thy ===== *)
theory Spec2Isabelle
  imports Ribbon_Policy Xor Rocks_Xor Write_Batch Log Version_Edit Table_Cached Db_Snapshot Db_Read
begin

text \<open>
  A verification library for the storage-engine code of this repository. The repository compares
  approximate membership filters inside four log-structured merge engines under \<open>src/engines/\<close>; it adds
  Ribbon and Xor filter policies to LevelDB and PebblesDB and an Xor filter to RocksDB and Speedb. The
  library models those filters and the parts of LevelDB 1.23 that they work in: the way of a write from
  a batch to the log and the memtable, and the way of sorted entries into table files and back.

  \<^bold>\<open>Parts and theories.\<close> \<open>L\<close> stands for \<open>src/engines/leveldb-1.23\<close>; definitions keep the names of the
  functions they translate, with the class in front where two classes share a name.

  \<^item> \<open>Prelude\<close>: byte and word types, lists, words, the \<open>named_theorems\<close> collections.
  \<^item> \<open>Coding\<close> (\<open>L/util/coding\<close>), \<open>Hash_Function\<close> (\<open>L/util/hash.cc\<close>), \<open>Crc32c\<close> (\<open>L/util/crc32c.cc\<close>), \<open>Status\<close>
    (\<open>L/util/status.cc\<close>), \<open>Comparator\<close> (\<open>L/util/comparator.cc\<close>, \<open>slice.h\<close>): encoders, hashes, the
    table-driven checksum, error values and the bytewise order.
  \<^item> \<open>Filter_Policy\<close>: the contract of a filter policy as locales. \<open>Bloom\<close> (\<open>L/util/bloom.cc\<close>),
    \<open>Ribbon_Solver\<close>, \<open>Ribbon\<close>, \<open>Ribbon_Policy\<close> (\<open>L/util/ribbon_filter.cc\<close>) and \<open>Xor_Table\<close>, \<open>Xor\<close>
    (\<open>L/util/xor_filter.cc\<close>) interpret it, over \<open>Doubles\<close>, \<open>Packed_Values\<close> and \<open>Filter_Format\<close>, which hold what the
    two policies share. \<open>Rocks_Xor\<close> is the Xor filter of RocksDB and Speedb.
  \<^item> \<open>Filter_Block\<close> (\<open>L/table/filter_block.cc\<close>), \<open>Block\<close> (\<open>L/table/block.cc\<close>, \<open>block_builder.cc\<close>), \<open>Format\<close>
    (\<open>L/table/format.cc\<close>), \<open>Table_Builder\<close> (\<open>L/table/table_builder.cc\<close>) with \<open>Table_Layout\<close>, the layout of the
    file it writes, \<open>Table\<close> (\<open>L/table/table.cc\<close>) with the cache interface \<open>Cache\<close>, and \<open>Table_Get\<close>, tables
    from end to end.
  \<^item> \<open>Db_Format\<close> (\<open>L/db/dbformat\<close>), \<open>Skip_List\<close> (\<open>L/db/skiplist.h\<close>), \<open>Memtable\<close> (\<open>L/db/memtable.cc\<close>), \<open>Write_Batch\<close>
    (\<open>L/db/write_batch.cc\<close>), \<open>Log\<close> (\<open>L/db/log_writer.cc\<close>, \<open>log_reader.cc\<close>), \<open>Version_Edit\<close>
    (\<open>L/db/version_edit.cc\<close>).
  \<^item> The LRU cache of \<open>L/util/cache.cc\<close>: \<open>Handle_Table\<close>, the hash table of handles; \<open>Lru_Cache\<close>, one shard with its lists,
    reference counts and eviction; \<open>Lru_Deleters\<close>, the calls of the deleter; \<open>Sharded_Cache\<close>, the sixteen
    shards. \<open>Table_Cached\<close>: lookups of a table through it.
  \<^item> Iterators: \<open>Iterator\<close> (\<open>L/include/leveldb/iterator.h\<close>, \<open>L/table/iterator_wrapper.h\<close>), the interface as a record of
    operations and its contract; \<open>Merger\<close> (\<open>L/table/merger.cc\<close>), the merging iterator; \<open>Mem_Iter\<close>, the
    memtable's iterator; \<open>Db_Iter\<close> (\<open>L/db/db_iter.cc\<close>), the iterator a client sees, with its proof in \<open>Db_View\<close>,
    what it shows, and \<open>Db_Refine\<close>, its loops and operations; \<open>Db_Snapshot\<close>, all of them together.
  \<^item> The database core (\<open>L/db/db_impl.cc\<close>): \<open>Db_Write\<close>, the write path of any number of threads as steps on one
    state, with its invariant in \<open>Db_Write_Inv\<close>, the operations of the thread at the front in \<open>Db_Write_Safe\<close>, the other
    steps in \<open>Db_Write_Steps\<close>, and serial order and progress in \<open>Db_Write_Live\<close>; \<open>Db_Read\<close>, reads of that state. Background
    work is a step that may change what the compaction thread changes there.
  \<^item> \<open>Key_Order\<close>: the order that the skip list and the iterators rely on.

  \<^bold>\<open>How code becomes definitions.\<close> A class is a record and its methods are functions from the old record
  to the new one; machine integers are words where they wrap and natural numbers where a bound is proved;
  a byte string is a list of 8-bit words. \<open>None\<close> is a run the source gives no meaning to: a failed assertion, an
  access outside an array, a division by zero. A \<open>Status\<close> that is not OK is a value. Files, the port's
  checksum and compression routines are arguments, with the documented behaviour a theorem relies on as
  hypotheses. Loops are structural recursion or functions with a termination measure; where a loop of the
  source could run for ever the model has fuel or \<open>None\<close> and the theorem shows that it returns.

  \<^bold>\<open>Interfaces.\<close> \<open>comparator\<close> (interpreted by the bytewise and the internal comparator), \<open>key_order\<close> (the skip
  list's, by the memtable), \<open>filter_policy\<close> (by Bloom, Ribbon and Xor), \<open>sized_filter_policy\<close> (by Bloom), \<open>checksum\<close> (by
  the reference and the portable CRC), \<open>cache\<close> (by the
  sharded LRU cache), \<open>sorted_iterator\<close> (by the memtable's iterator; the wrapper, the merging iterator and, over \<open>internal_iterator\<close>, the
  client's iterator meet it whenever the iterators under them do). The clients, blocks, filter blocks, tables,
  the skip list and the iterators, are proved once against them.

  \<^bold>\<open>What is shown.\<close> Filters: construction returns for every key list within the stated bounds and no key of
  the filter is ever rejected, through solving, peeling, packing, fallback and trailers, and through the filter
  block of a table; the queries stay inside arbitrary bytes except for the cases shown as errors. Blocks
  and tables: the entries of a block are read back in order and sought; a table built from increasing
  internal keys finishes, opens, and a lookup finds exactly the entry it should through index, filter and cache.
  Writes: a batch is replayed as it was built; the log returns what was written and, after a torn write,
  a prefix that contains every complete record; the skip list refines a sorted list and the memtable
  returns the newest version a snapshot sees. Reads: an iterator over the merge of memtables ends, after any
  sequence of moves in both directions, where the same moves on the sorted list of their versions end, and a
  client's iterator where they end on the list of what lookups at its snapshot find. The write queue: whatever the
  interleaving of threads, calls take effect one after the other in the order in which they queued up, a read sees
  exactly the decided ones, and the threads get to the end. The cache: no sequence of
  operations breaks its counts and lists, it keeps its capacity, and every value is deleted once.
  Checksums: the optimised routine is CRC-32C, and one wrong byte in a block is detected. Version edits: encoding
  and decoding are inverse, and decoding is total.

  \<^bold>\<open>Bounds.\<close> \<open>2 ^ 32\<close> bytes for a block and \<open>2 ^ 31\<close> for the data of a table keep the 32-bit offsets of restart
  points and filters exact; 2,045,222,520 keys is where the slot count of a Ribbon filter reaches \<open>2 ^ 31\<close>, from
  where on the code is shown to fail. Fuel appears only where the recursion of the source is not structural, and
  each use is discharged by a lemma that the given fuel is enough.

  \<^bold>\<open>Not modelled.\<close> The cores of RocksDB, Speedb and PebblesDB, which are vendored; environments, ports, thread primitives
  and memory management; printing functions; benchmarks, bindings, tests and third-party code. Of LevelDB itself,
  compaction, recovery, the version set and the two-level iterator of tables
  are outside the library.
\<close>

section \<open>The filter block with each policy\<close>

text \<open>How many keys share one filter is at most how many keys the table has.\<close>

lemma length_group_keys: "length (group_keys i blocks) \<le> length (concat (map snd blocks))"
  by (induction blocks) (auto simp: group_keys_def)

lemma length_take_group_keys:
  "length (concat (map snd blocks)) \<le> n \<Longrightarrow> length (take m (group_keys i blocks)) \<le> n"
  using length_group_keys [of i blocks] by simp

text \<open>
  C21: a filter block written with the Ribbon policy never hides a key. For data blocks in the order
  of their offsets with at most 2,045,222,520 keys in all, the builder returns, and if its output
  has fewer than \<open>2 ^ 32\<close> bytes the reader answers "may match" for every key at the offset of the
  block that holds it.
\<close>

theorem ribbon_filter_block_complete:
  assumes "sorted (map (filter_index \<circ> fst) blocks)" "length (concat (map snd blocks)) \<le> 2045222520"
  shows "\<exists>contents. build_filter_block (RibbonCreateFilter (MakeRibbonFilterPolicy b)) blocks = Some contents
    \<and> (length contents < 2 ^ 32 \<longrightarrow> (\<forall>(off, keys) \<in> set blocks. \<forall>key \<in> set keys.
        FilterBlockKeyMayMatch RibbonKeyMayMatch (NewFilterBlockReader contents) off key = Some True))"
proof -
  have "\<forall>i n. ribbon_accepts (take n (group_keys i blocks))"
    unfolding ribbon_accepts_def using length_take_group_keys [OF assms(2)] by blast
  then show ?thesis
    by (rule ribbon.filter_block_correct [OF _ assms(1), of b]) blast
qed

theorem ribbon_filter_block_complete_witness:
  "\<exists>contents. build_filter_block (RibbonCreateFilter (MakeRibbonFilterPolicy 10)) [(0, [[1], [2]]), (5000, [[3]])]
      = Some contents
    \<and> (length contents < 2 ^ 32 \<longrightarrow>
        FilterBlockKeyMayMatch RibbonKeyMayMatch (NewFilterBlockReader contents) 5000 [3] = Some True)"
  using ribbon_filter_block_complete [of "[(0, [[1], [2]]), (5000, [[3]])]" 10]
  by (auto simp: filter_index_def)

text \<open>C22: the same for the Xor policy and fewer than \<open>2 ^ 31\<close> keys.\<close>

theorem xor_filter_block_complete:
  assumes "sorted (map (filter_index \<circ> fst) blocks)" "length (concat (map snd blocks)) < 2 ^ 31"
  shows "\<exists>contents. build_filter_block (XorCreateFilter (MakeXorFilterPolicy b)) blocks = Some contents
    \<and> (length contents < 2 ^ 32 \<longrightarrow> (\<forall>(off, keys) \<in> set blocks. \<forall>key \<in> set keys.
        FilterBlockKeyMayMatch XorKeyMayMatch (NewFilterBlockReader contents) off key = Some True))"
proof -
  have "\<forall>i n. xor_accepts (take n (group_keys i blocks))"
    unfolding xor_accepts_def using length_take_group_keys [OF order_refl, of _ _ blocks] assms(2)
    by (meson order_le_less_trans)
  then show ?thesis
    by (rule xor.filter_block_correct [OF _ assms(1), of b]) blast
qed

theorem xor_filter_block_complete_witness:
  "\<exists>contents. build_filter_block (XorCreateFilter (MakeXorFilterPolicy 10)) [(0, [[1], [2]]), (5000, [[3]])]
      = Some contents
    \<and> (length contents < 2 ^ 32 \<longrightarrow>
        FilterBlockKeyMayMatch XorKeyMayMatch (NewFilterBlockReader contents) 5000 [3] = Some True)"
  using xor_filter_block_complete [of "[(0, [[1], [2]]), (5000, [[3]])]" 10]
  by (auto simp: filter_index_def)

end
